(* ===== verification/Prelude.thy ===== *)
theory Prelude
  imports Main "HOL-Library.Word"
begin

text \<open>
  Shared vocabulary of the development: bytes and byte strings, results, slices and splices
  of byte strings (the reads and the writes of every device), little-endian integers, and an
  ordered map kept as a sorted association list (the model of Rust's \<open>BTreeMap\<close>).
  Two collections carry the automation: \<open>slice_laws\<close> for reads after writes, and
  \<open>omap_laws\<close> for lookups after updates.
\<close>

named_theorems slice_laws
named_theorems omap_laws

unbundle bit_operations_syntax

type_synonym u8 = "8 word"
type_synonym u16 = "16 word"
type_synonym u32 = "32 word"
type_synonym u64 = "64 word"
type_synonym bytes = "8 word list"

section \<open>Results\<close>

text \<open>
  Rust's \<open>Result\<close> is a sum: \<open>Inl\<close> the refusal, \<open>Inr\<close> the value. \<open>rbind\<close> is the question
  mark operator: it stops at the first refusal.
\<close>

fun rbind :: "'e + 'a \<Rightarrow> ('a \<Rightarrow> 'e + 'b) \<Rightarrow> 'e + 'b" where
  "rbind (Inl e) f = Inl e"
| "rbind (Inr x) f = f x"

lemma rbind_Inr_iff:
  "rbind m f = Inr y \<longleftrightarrow> (\<exists>x. m = Inr x \<and> f x = Inr y)"
  by (cases m) auto

lemma rbind_Inl_iff:
  "rbind m f = Inl e \<longleftrightarrow> m = Inl e \<or> (\<exists>x. m = Inr x \<and> f x = Inl e)"
  by (cases m) auto

lemma rbind_cong [fundef_cong]:
  "m = m' \<Longrightarrow> (\<And>x. m' = Inr x \<Longrightarrow> f x = f' x) \<Longrightarrow> rbind m f = rbind m' f'"
  by (cases m') auto

fun rmap :: "('a \<Rightarrow> 'e + 'b) \<Rightarrow> 'a list \<Rightarrow> 'e + 'b list" where
  "rmap f [] = Inr []"
| "rmap f (x # xs) = rbind (f x) (\<lambda>y. rbind (rmap f xs) (\<lambda>ys. Inr (y # ys)))"

lemma rmap_Inr_length: "rmap f xs = Inr ys \<Longrightarrow> length ys = length xs"
  by (induction xs arbitrary: ys) (auto simp: rbind_Inr_iff)

lemma rmap_map_Inr: "(\<And>x. x \<in> set xs \<Longrightarrow> f x = Inr (g x)) \<Longrightarrow> rmap f xs = Inr (map g xs)"
  by (induction xs) auto

text \<open>
  A mutating operation keeps its state when it refuses, as the code does: the state is the
  first component whatever the second says. \<open>sbind\<close> sequences two of them.
\<close>

fun sbind :: "'s \<times> ('e + 'a) \<Rightarrow> ('s \<Rightarrow> 'a \<Rightarrow> 's \<times> ('e + 'b)) \<Rightarrow> 's \<times> ('e + 'b)" where
  "sbind (s, Inl e) f = (s, Inl e)"
| "sbind (s, Inr x) f = f s x"

lemma sbind_cong [fundef_cong]:
  "m = m' \<Longrightarrow> (\<And>s x. m' = (s, Inr x) \<Longrightarrow> f s x = f' s x) \<Longrightarrow> sbind m f = sbind m' f'"
  by (cases "(m', f')" rule: sbind.cases) auto

lemma sbind_Inr_iff:
  "sbind m f = (s', Inr y) \<longleftrightarrow> (\<exists>s x. m = (s, Inr x) \<and> f s x = (s', Inr y))"
  by (cases "(m, f)" rule: sbind.cases) auto

section \<open>Runs of a list\<close>

text \<open>\<open>slice::chunks\<close>.\<close>

function chunks_of :: "nat \<Rightarrow> 'a list \<Rightarrow> 'a list list" where
  "chunks_of n xs = (if xs = [] \<or> n = 0 then [] else take n xs # chunks_of n (drop n xs))"
  by pat_completeness auto
termination
  by (relation "measure (\<lambda>(_, xs). length xs)") auto

declare chunks_of.simps [simp del]

lemma concat_chunks: "0 < n \<Longrightarrow> concat (chunks_of n xs) = xs"
  by (induction n xs rule: chunks_of.induct) (subst chunks_of.simps, simp)

lemma chunks_of_length: "c \<in> set (chunks_of n xs) \<Longrightarrow> c \<noteq> [] \<and> length c \<le> n"
  by (induction n xs rule: chunks_of.induct) (subst (asm) chunks_of.simps, auto split: if_splits)

lemma chunks_of_step: "xs \<noteq> [] \<Longrightarrow> 0 < n \<Longrightarrow> chunks_of n xs = take n xs # chunks_of n (drop n xs)"
  by (subst chunks_of.simps) simp

lemma chunks_of_Nil [simp]: "chunks_of n [] = []"
  by (subst chunks_of.simps) simp

text \<open>A mapping that may fail, over numbered runs: what it gives, run by run.\<close>

lemma rmap_Inr_iff: "rmap f xs = Inr ys \<longleftrightarrow> list_all2 (\<lambda>x y. f x = Inr y) xs ys"
  by (induction xs arbitrary: ys) (auto simp: rbind_Inr_iff list_all2_Cons1)

lemma rmap_ok_iff: "(\<exists>ys. rmap f xs = Inr ys) \<longleftrightarrow> (\<forall>x \<in> set xs. \<exists>y. f x = Inr y)"
  by (induction xs) (auto simp: rbind_Inr_iff)

lemma find_map: "find P (map f xs) = map_option f (find (P \<circ> f) xs)"
  by (induction xs) auto

lemma find_append: "find P (xs @ ys) = (case find P xs of None \<Rightarrow> find P ys | Some x \<Rightarrow> Some x)"
  by (induction xs) auto

section \<open>Slices and splices\<close>

text \<open>
  \<open>slice off n xs\<close> is \<open>xs[off..off + n]\<close>; \<open>splice off ys xs\<close> copies \<open>ys\<close> over \<open>xs\<close> at
  \<open>off\<close>. Both are used inside the bounds the callers check.
\<close>

definition slice :: "nat \<Rightarrow> nat \<Rightarrow> 'a list \<Rightarrow> 'a list" where
  "slice off n xs = take n (drop off xs)"

definition splice :: "nat \<Rightarrow> 'a list \<Rightarrow> 'a list \<Rightarrow> 'a list" where
  "splice off ys xs = take off xs @ ys @ drop (off + length ys) xs"

lemma length_slice [simp]: "length (slice off n xs) = min n (length xs - off)"
  by (simp add: slice_def)

lemma length_splice [simp]:
  "off + length ys \<le> length xs \<Longrightarrow> length (splice off ys xs) = length xs"
  by (simp add: splice_def)

lemma nth_slice [simp]: "off + n \<le> length xs \<Longrightarrow> i < n \<Longrightarrow> slice off n xs ! i = xs ! (off + i)"
  by (simp add: slice_def)

lemma nth_splice:
  "off + length ys \<le> length xs \<Longrightarrow> i < length xs \<Longrightarrow>
   splice off ys xs ! i = (if off \<le> i \<and> i < off + length ys then ys ! (i - off) else xs ! i)"
  by (auto simp: splice_def nth_append min_def)

lemma slice_splice_same [slice_laws]:
  "off + length ys \<le> length xs \<Longrightarrow> n = length ys \<Longrightarrow> slice off n (splice off ys xs) = ys"
  by (simp add: slice_def splice_def)

lemma slice_splice_disjoint [slice_laws]:
  assumes "off + length ys \<le> length xs" and "at + n \<le> off \<or> off + length ys \<le> at"
  shows "slice at n (splice off ys xs) = slice at n xs"
proof (rule nth_equalityI)
  show "length (slice at n (splice off ys xs)) = length (slice at n xs)"
    using assms(1) by simp
  fix i assume "i < length (slice at n (splice off ys xs))"
  then have i: "i < n" "at + i < length xs" using assms(1) by auto
  have "splice off ys xs ! (at + i) = xs ! (at + i)"
    using assms i by (auto simp: nth_splice)
  then show "slice at n (splice off ys xs) ! i = slice at n xs ! i"
    using i assms(1) by (simp add: slice_def)
qed

lemma splice_Nil [simp]: "off \<le> length xs \<Longrightarrow> splice off [] xs = xs"
  by (simp add: splice_def)

lemma slice_0_all [simp]: "length xs \<le> n \<Longrightarrow> slice 0 n xs = xs"
  by (simp add: slice_def)

lemma slice_Nil [simp]: "slice off 0 xs = []"
  by (simp add: slice_def)

lemma slice_append_split: "slice off (n + k) xs = slice off n xs @ slice (off + n) k xs"
  unfolding slice_def by (simp add: take_add add.commute [of k off] add.commute [of n off])

lemma slice_slice:
  "a + k \<le> n \<Longrightarrow> slice a k (slice off n xs) = slice (off + a) k xs"
  by (simp add: slice_def min_def add.commute drop_take)

text \<open>Reading inside a range that was just written gives the written bytes.\<close>

lemma slice_splice_inside [slice_laws]:
  assumes "off + length ys \<le> length xs" and "off \<le> at" and "at + n \<le> off + length ys"
  shows "slice at n (splice off ys xs) = slice (at - off) n ys"
  using assms by (intro nth_equalityI) (auto simp: nth_splice slice_def)

section \<open>Little-endian integers\<close>

fun le_nat :: "bytes \<Rightarrow> nat" where
  "le_nat [] = 0"
| "le_nat (b # bs) = unat b + 256 * le_nat bs"

fun le_bytes :: "nat \<Rightarrow> nat \<Rightarrow> bytes" where
  "le_bytes 0 v = []"
| "le_bytes (Suc n) v = word_of_nat v # le_bytes n (v div 256)"

lemma length_le_bytes [simp]: "length (le_bytes n v) = n"
  by (induction n arbitrary: v) auto

lemma le_nat_bound: "le_nat bs < 256 ^ length bs"
proof (induction bs)
  case (Cons b bs)
  have "unat b < 256" using unsigned_less [of b] by simp
  with Cons show ?case by simp
qed simp

lemma le_nat_le_bytes: "le_nat (le_bytes n v) = v mod 256 ^ n"
proof (induction n arbitrary: v)
  case (Suc n)
  have "unat (word_of_nat v :: u8) = v mod 256"
    by (simp add: unat_of_nat)
  then show ?case using Suc by (simp add: mod_mult2_eq)
qed simp

lemma le_nat_le_bytes_id [simp]: "v < 256 ^ n \<Longrightarrow> le_nat (le_bytes n v) = v"
  by (simp add: le_nat_le_bytes)

lemma le_bytes_le_nat: "length bs = n \<Longrightarrow> le_bytes n (le_nat bs) = bs"
proof (induction bs arbitrary: n)
  case (Cons b bs)
  have "unat b < 256" using unsigned_less [of b] by simp
  then have "(unat b + 256 * le_nat bs) div 256 = le_nat bs" by simp
  moreover have "word_of_nat (unat b + 256 * le_nat bs) = b"
  proof -
    have "word_of_nat (256 * le_nat bs) = (0 :: u8)"
      by (rule word_of_nat_eq_0_iff [THEN iffD2]) simp
    then show ?thesis by simp
  qed
  ultimately show ?case using Cons by auto
qed simp

section \<open>Ordered maps\<close>

text \<open>
  A \<open>BTreeMap\<close> is an association list sorted by key: \<open>map_of\<close> looks up, and iteration is
  the list itself, which is key order.
\<close>

type_synonym ('k, 'v) omap = "('k \<times> 'v) list"

fun oinsert :: "'k::linorder \<Rightarrow> 'v \<Rightarrow> ('k, 'v) omap \<Rightarrow> ('k, 'v) omap" where
  "oinsert k v [] = [(k, v)]"
| "oinsert k v ((k', v') # m) =
     (if k < k' then (k, v) # (k', v') # m
      else if k = k' then (k, v) # m
      else (k', v') # oinsert k v m)"

definition oremove :: "'k \<Rightarrow> ('k, 'v) omap \<Rightarrow> ('k, 'v) omap" where
  "oremove k m = filter (\<lambda>(k', v). k' \<noteq> k) m"

definition omap_ok :: "('k::linorder, 'v) omap \<Rightarrow> bool" where
  "omap_ok m \<longleftrightarrow> sorted (map fst m) \<and> distinct (map fst m)"

lemma omap_ok_Nil [simp]: "omap_ok []"
  by (simp add: omap_ok_def)

lemma keys_oinsert [omap_laws]: "fst ` set (oinsert k v m) = insert k (fst ` set m)"
proof (induction k v m rule: oinsert.induct)
  case (2 k v k' v' m)
  then show ?case by (auto simp: insert_commute)
qed simp

lemma map_of_oinsert [omap_laws]: "omap_ok m \<Longrightarrow> map_of (oinsert k v m) = (map_of m)(k \<mapsto> v)"
  by (induction k v m rule: oinsert.induct) (auto simp: omap_ok_def fun_eq_iff)

lemma omap_ok_oinsert [omap_laws]: "omap_ok m \<Longrightarrow> omap_ok (oinsert k v m)"
proof (induction k v m rule: oinsert.induct)
  case (2 k v k' v' m)
  then show ?case
    using keys_oinsert [of k v m] by (auto simp: omap_ok_def)
qed (simp add: omap_ok_def)

lemma map_of_filter_keys:
  "map_of (filter (\<lambda>(k', v). P k') m) k = (if P k then map_of m k else None)"
  by (induction m) auto

lemma map_of_oremove [omap_laws]: "map_of (oremove k m) = (map_of m)(k := None)"
  by (auto simp: oremove_def map_of_filter_keys fun_eq_iff)

lemma omap_ok_filter [omap_laws]: "omap_ok m \<Longrightarrow> omap_ok (filter p m)"
  unfolding omap_ok_def by (simp add: sorted_filter distinct_map_filter)

lemma omap_ok_oremove [omap_laws]: "omap_ok m \<Longrightarrow> omap_ok (oremove k m)"
  by (simp add: oremove_def omap_ok_filter)

lemma omap_in_set: "omap_ok m \<Longrightarrow> (k, v) \<in> set m \<longleftrightarrow> map_of m k = Some v"
  by (simp add: omap_ok_def)

lemma length_oremove_less: "map_of m k \<noteq> None \<Longrightarrow> length (oremove k m) < length m"
proof -
  assume "map_of m k \<noteq> None"
  then obtain v where "(k, v) \<in> set m" by (auto dest: map_of_SomeD)
  then show ?thesis
    unfolding oremove_def by (intro length_filter_less [of "(k, v)"]) auto
qed

end
