(* ===== verification/Errors.thy ===== *)
theory Errors
  imports Prelude
begin

text \<open>
  The error values of the library (\<open>src/crates/remanence/src/error.rs\<close>): the stable category,
  the identity of the broken rule where the refusal came from an enumerated rule set, and the
  seam the refusal is attributed to. The prose of a diagnostic (the \<open>reason\<close> field, and its
  rendering by \<open>Display\<close>) is not part of the model: no operation branches on it.
\<close>

datatype error_category =
  Locked | InvalidImage | Unsupported | ReadOnly | NotFound | NotDirectory
| IsDirectory | NoSpace | Unavailable | Io

fun category_as_str :: "error_category \<Rightarrow> string" where
  "category_as_str Locked = ''locked''"
| "category_as_str InvalidImage = ''invalid-image''"
| "category_as_str Unsupported = ''unsupported''"
| "category_as_str ReadOnly = ''read-only''"
| "category_as_str NotFound = ''not-found''"
| "category_as_str NotDirectory = ''not-directory''"
| "category_as_str IsDirectory = ''is-directory''"
| "category_as_str NoSpace = ''no-space''"
| "category_as_str Unavailable = ''unavailable''"
| "category_as_str Io = ''io''"

type_synonym rule_identity = string

text \<open>The three variants; the last field of the first and third is the seam's own name.\<close>

datatype error =
  ArchiveError error_category "rule_identity option" string
| IoError error_category "rule_identity option"
| ImageError error_category "rule_identity option" string

type_synonym 'a result = "error + 'a"

definition categorized_archive :: "error_category \<Rightarrow> string \<Rightarrow> error" where
  "categorized_archive c name = ArchiveError c None name"

definition archive_error :: "string \<Rightarrow> error" where
  "archive_error name = categorized_archive InvalidImage name"

definition categorized_io :: "error_category \<Rightarrow> error" where
  "categorized_io c = IoError c None"

definition io_error :: error where
  "io_error = categorized_io Io"

definition locked_error :: error where
  "locked_error = categorized_io Locked"

definition read_only_error :: error where
  "read_only_error = categorized_io ReadOnly"

definition not_found_error :: error where
  "not_found_error = categorized_io NotFound"

definition unavailable_error :: error where
  "unavailable_error = categorized_io Unavailable"

definition unsupported_error :: error where
  "unsupported_error = categorized_io Unsupported"

definition categorized_image :: "error_category \<Rightarrow> string \<Rightarrow> error" where
  "categorized_image c format = ImageError c None format"

definition invalid_image :: "string \<Rightarrow> error" where
  "invalid_image format = categorized_image InvalidImage format"

fun broke_rule :: "error \<Rightarrow> rule_identity \<Rightarrow> error" where
  "broke_rule (ArchiveError c _ name) r = ArchiveError c (Some r) name"
| "broke_rule (IoError c _) r = IoError c (Some r)"
| "broke_rule (ImageError c _ format) r = ImageError c (Some r) format"

fun err_category :: "error \<Rightarrow> error_category" where
  "err_category (ArchiveError c _ _) = c"
| "err_category (IoError c _) = c"
| "err_category (ImageError c _ _) = c"

fun err_rule :: "error \<Rightarrow> rule_identity option" where
  "err_rule (ArchiveError _ r _) = r"
| "err_rule (IoError _ r) = r"
| "err_rule (ImageError _ r _) = r"

lemmas error_defs =
  categorized_archive_def archive_error_def categorized_io_def io_error_def locked_error_def
  read_only_error_def not_found_error_def unavailable_error_def unsupported_error_def
  categorized_image_def invalid_image_def

lemma broke_rule_category [simp]: "err_category (broke_rule e r) = err_category e"
  by (cases e) auto

lemma broke_rule_rule [simp]: "err_rule (broke_rule e r) = Some r"
  by (cases e) auto

text \<open>The spellings are pairwise different, so a caller can branch on the string alone.\<close>

lemma category_as_str_inj: "inj category_as_str"
proof (rule injI)
  fix a b assume "category_as_str a = category_as_str b"
  then show "a = b" by (cases a; cases b; simp)
qed

end
