(* ===== verification/Device.thy ===== *)
theory Device
  imports Errors
begin

text \<open>
  The block device seam (\<open>src/crates/remanence/src/io/device.rs\<close>): the \<open>Device\<close> trait as a
  locale, an image's bytes as the plain instance, one claimed medium (\<open>MediumDevice\<close> outside a
  capture), the raw file beneath a capture, and the byte sources the decoders pull from.
  Lengths and offsets are the code's \<open>u64\<close>, kept as natural numbers: no operation of the trait
  is reached with an offset whose sum with a length passes \<open>2 ^ 64\<close> on a medium that exists.
\<close>

section \<open>The contract of the trait\<close>

text \<open>
  \<open>contents\<close> is what the device presents, \<open>healthy\<close> the states in which the host delivers. A
  read inside the presented length returns exactly the bytes presented there and presents the
  same afterwards; a write inside it changes exactly the bytes written.
\<close>

locale block_device =
  fixes dev_len :: "'d \<Rightarrow> nat"
    and dev_read :: "'d \<Rightarrow> nat \<Rightarrow> nat \<Rightarrow> 'd \<times> bytes result"
    and dev_write :: "'d \<Rightarrow> nat \<Rightarrow> bytes \<Rightarrow> 'd \<times> unit result"
    and contents :: "'d \<Rightarrow> bytes"
    and healthy :: "'d \<Rightarrow> bool"
  assumes len_contents: "healthy d \<Longrightarrow> dev_len d = length (contents d)"
    and read_law: "healthy d \<Longrightarrow> off + n \<le> length (contents d) \<Longrightarrow>
      \<exists>d'. dev_read d off n = (d', Inr (slice off n (contents d))) \<and>
           healthy d' \<and> contents d' = contents d"
    and write_law: "healthy d \<Longrightarrow> off + length bs \<le> length (contents d) \<Longrightarrow>
      \<exists>d'. dev_write d off bs = (d', Inr ()) \<and>
           healthy d' \<and> contents d' = splice off bs (contents d)"
begin

lemma read_after_write:
  assumes "healthy d" and "off + length bs \<le> length (contents d)"
  shows "\<exists>d' d''. dev_write d off bs = (d', Inr ()) \<and>
           dev_read d' off (length bs) = (d'', Inr bs) \<and> healthy d''"
proof -
  from write_law [OF assms] obtain d' where d':
    "dev_write d off bs = (d', Inr ())" "healthy d'" "contents d' = splice off bs (contents d)"
    by blast
  have "off + length bs \<le> length (contents d')" using assms(2) d'(3) by simp
  from read_law [OF d'(2) this] obtain d'' where
    "dev_read d' off (length bs) = (d'', Inr (slice off (length bs) (contents d')))" "healthy d''"
    by blast
  then show ?thesis
    using d' assms(2) by (auto simp: slice_splice_same)
qed

lemma write_elsewhere:
  assumes "healthy d" and "off + length bs \<le> length (contents d)"
    and "at + n \<le> length (contents d)" and "at + n \<le> off \<or> off + length bs \<le> at"
  shows "\<exists>d' d''. dev_write d off bs = (d', Inr ()) \<and>
           dev_read d' at n = (d'', Inr (slice at n (contents d)))"
proof -
  from write_law [OF assms(1,2)] obtain d' where d':
    "dev_write d off bs = (d', Inr ())" "healthy d'" "contents d' = splice off bs (contents d)"
    by blast
  have "at + n \<le> length (contents d')" using assms(2,3) d'(3) by simp
  from read_law [OF d'(2) this] show ?thesis
    using d' assms by (auto simp: slice_splice_disjoint)
qed

end

section \<open>An image's own bytes\<close>

text \<open>
  The plain instance: a byte vector of fixed length. An access past the end is the I/O refusal
  every implementation of the trait answers with. This is the device the filesystem and
  partition readers of the model work over; what stands behind it in a session (the cache over
  a medium) satisfies the same contract.
\<close>

definition image_read :: "bytes \<Rightarrow> nat \<Rightarrow> nat \<Rightarrow> bytes result" where
  "image_read d off n = (if off + n > length d then Inl io_error else Inr (slice off n d))"

definition image_write :: "bytes \<Rightarrow> nat \<Rightarrow> bytes \<Rightarrow> bytes \<times> unit result" where
  "image_write d off bs =
     (if off + length bs > length d then (d, Inl io_error) else (splice off bs d, Inr ()))"

interpretation image: block_device length "\<lambda>d off n. (d, image_read d off n)" image_write
    "\<lambda>d. d" "\<lambda>_. True"
  by unfold_locales (auto simp: image_read_def image_write_def)

lemma image_read_Inr: "off + n \<le> length d \<Longrightarrow> image_read d off n = Inr (slice off n d)"
  by (simp add: image_read_def)

lemma image_write_Inr:
  "off + length bs \<le> length d \<Longrightarrow> image_write d off bs = (splice off bs d, Inr ())"
  by (simp add: image_write_def)

lemma image_write_length: "length (fst (image_write d off bs)) = length d"
  by (simp add: image_write_def)

lemma image_read_length: "image_read d off n = Inr bs \<Longrightarrow> length bs = n"
  by (auto simp: image_read_def split: if_splits)

section \<open>Positioned access to a host file\<close>

text \<open>
  A host file is its bytes. \<open>read_exact_at\<close> fails where the file ends first; \<open>write_all_at\<close>
  extends the file, a gap before the offset reading as zeros, as positioned writes do.
\<close>

definition file_read_exact_at :: "bytes \<Rightarrow> nat \<Rightarrow> nat \<Rightarrow> bytes option" where
  "file_read_exact_at f off n = (if off + n \<le> length f then Some (slice off n f) else None)"

definition file_write_all_at :: "bytes \<Rightarrow> nat \<Rightarrow> bytes \<Rightarrow> bytes" where
  "file_write_all_at f off bs =
     (if bs = [] then f
      else splice off bs (f @ replicate (off + length bs - length f) 0))"

lemma length_file_write_all_at:
  "bs \<noteq> [] \<Longrightarrow> length (file_write_all_at f off bs) = max (length f) (off + length bs)"
  by (simp add: file_write_all_at_def)

lemma file_write_all_at_inside:
  "off + length bs \<le> length f \<Longrightarrow> file_write_all_at f off bs = splice off bs f"
  by (simp add: file_write_all_at_def)

section \<open>The access declared at the open\<close>

datatype access_intent = IntentRead | IntentWrite

datatype access_mode = ReadWriteMode | ReadOnlyMode

fun intent_mode :: "access_intent \<Rightarrow> access_mode" where
  "intent_mode IntentRead = ReadOnlyMode"
| "intent_mode IntentWrite = ReadWriteMode"

datatype claim_class = LibraryOpened | CallerOpened | Authored

fun claim_as_str :: "claim_class \<Rightarrow> string" where
  "claim_as_str LibraryOpened = ''library-opened''"
| "claim_as_str CallerOpened = ''caller-opened''"
| "claim_as_str Authored = ''authored''"

section \<open>One claimed medium\<close>

text \<open>
  \<open>MediumDevice\<close> with no capture active: a range of \<open>len\<close> bytes at \<open>base\<close> inside a backing
  file. \<open>whole_file\<close> records whether the backing is the claim itself.
\<close>

record medium_device =
  backing :: bytes
  base :: nat
  medium_len :: nat
  mode :: access_mode
  same_file :: bool

definition medium_open :: "bytes \<Rightarrow> access_intent \<Rightarrow> medium_device" where
  "medium_open f intent =
     \<lparr>backing = f, base = 0, medium_len = length f, mode = intent_mode intent, same_file = True\<rparr>"

definition is_whole_file :: "medium_device \<Rightarrow> bool" where
  "is_whole_file m \<longleftrightarrow> base m = 0 \<and> same_file m"

definition medium_read_at :: "medium_device \<Rightarrow> nat \<Rightarrow> nat \<Rightarrow> medium_device \<times> bytes result" where
  "medium_read_at m off n =
     (m, if off + n > medium_len m then Inl io_error
         else case file_read_exact_at (backing m) (base m + off) n of
                None \<Rightarrow> Inl io_error
              | Some bs \<Rightarrow> Inr bs)"

definition medium_write_at :: "medium_device \<Rightarrow> nat \<Rightarrow> bytes \<Rightarrow> medium_device \<times> unit result" where
  "medium_write_at m off bs =
     (if mode m = ReadOnlyMode then (m, Inl read_only_error)
      else (m\<lparr>backing := file_write_all_at (backing m) (base m + off) bs,
              medium_len := max (medium_len m) (off + length bs)\<rparr>, Inr ()))"

definition medium_truncate_and_sync :: "medium_device \<Rightarrow> nat \<Rightarrow> medium_device \<times> unit result" where
  "medium_truncate_and_sync m n =
     (m\<lparr>backing := take n (backing m) @ replicate (n - length (backing m)) 0, medium_len := n\<rparr>,
      Inr ())"

definition medium_contents :: "medium_device \<Rightarrow> bytes" where
  "medium_contents m = slice (base m) (medium_len m) (backing m)"

definition medium_healthy :: "medium_device \<Rightarrow> bool" where
  "medium_healthy m \<longleftrightarrow> mode m = ReadWriteMode \<and> base m + medium_len m \<le> length (backing m)"

lemma medium_write_contents:
  assumes "medium_healthy m" and "off + length bs \<le> medium_len m"
  shows "\<exists>m'. medium_write_at m off bs = (m', Inr ()) \<and> medium_healthy m' \<and>
     medium_contents m' = splice off bs (medium_contents m)"
proof -
  let ?f = "splice (base m + off) bs (backing m)"
  have fits: "base m + off + length bs \<le> length (backing m)"
    using assms by (simp add: medium_healthy_def)
  have "slice (base m) (medium_len m) ?f = splice off bs (slice (base m) (medium_len m) (backing m))"
    using assms fits by (intro nth_equalityI) (auto simp: nth_splice slice_def medium_healthy_def)
  then show ?thesis
    using assms fits
    by (simp add: medium_write_at_def medium_healthy_def medium_contents_def
        file_write_all_at_inside max_absorb1)
qed

interpretation medium: block_device medium_len medium_read_at medium_write_at
    medium_contents medium_healthy
proof unfold_locales
  fix m :: medium_device and off n assume "medium_healthy m" "off + n \<le> length (medium_contents m)"
  then show "\<exists>m'. medium_read_at m off n = (m', Inr (slice off n (medium_contents m))) \<and>
      medium_healthy m' \<and> medium_contents m' = medium_contents m"
    by (auto simp: medium_read_at_def medium_contents_def medium_healthy_def
        file_read_exact_at_def slice_slice)
next
  fix m :: medium_device and off and bs :: bytes
  assume "medium_healthy m" "off + length bs \<le> length (medium_contents m)"
  then show "\<exists>m'. medium_write_at m off bs = (m', Inr ()) \<and> medium_healthy m' \<and>
      medium_contents m' = splice off bs (medium_contents m)"
    by (intro medium_write_contents) (auto simp: medium_contents_def medium_healthy_def)
qed (auto simp: medium_contents_def medium_healthy_def)

section \<open>The raw file beneath a capture\<close>

text \<open>
  \<open>RawFile\<close> reports the captured (possibly grown) length; reads clamp to the medium's true
  length and fill the rest with zeros, and it is never written.
\<close>

record raw_file =
  rf_file :: bytes
  rf_base :: nat
  rf_reported :: nat
  rf_real :: nat

definition raw_read_at :: "raw_file \<Rightarrow> nat \<Rightarrow> nat \<Rightarrow> bytes result" where
  "raw_read_at r off n =
     (let take_n = (if off \<ge> rf_real r then 0 else min (rf_real r - off) n)
      in if take_n > 0
         then (case file_read_exact_at (rf_file r) (rf_base r + off) take_n of
                 None \<Rightarrow> Inl io_error
               | Some bs \<Rightarrow> Inr (bs @ replicate (n - take_n) 0))
         else Inr (replicate n 0))"

definition raw_write_at :: "raw_file \<Rightarrow> nat \<Rightarrow> bytes \<Rightarrow> unit result" where
  "raw_write_at r off bs = Inl io_error"

section \<open>A window onto a device\<close>

text \<open>
  One partition's extent presented as a device of its own (\<open>Window\<close> of
  \<open>model/disk/state.rs\<close>): accesses are checked against the partition and shifted.
\<close>

definition window_within :: "nat \<Rightarrow> nat \<Rightarrow> nat \<Rightarrow> unit result" where
  "window_within wlen off n = (if off + n \<le> wlen then Inr () else Inl io_error)"

definition window_read_at :: "nat \<Rightarrow> nat \<Rightarrow> bytes \<Rightarrow> nat \<Rightarrow> nat \<Rightarrow> bytes result" where
  "window_read_at woff wlen d off n =
     rbind (window_within wlen off n) (\<lambda>_. image_read d (woff + off) n)"

definition window_write_at :: "nat \<Rightarrow> nat \<Rightarrow> bytes \<Rightarrow> nat \<Rightarrow> bytes \<Rightarrow> bytes \<times> unit result" where
  "window_write_at woff wlen d off bs =
     (case window_within wlen off (length bs) of
        Inl e \<Rightarrow> (d, Inl e)
      | Inr _ \<Rightarrow> image_write d (woff + off) bs)"

text \<open>A write through a window never touches a byte outside it, refused or not.\<close>

lemma window_write_confined:
  assumes "i < length d" and "i < woff \<or> woff + wlen \<le> i"
  shows "fst (window_write_at woff wlen d off bs) ! i = d ! i"
  using assms
  by (auto simp: window_write_at_def window_within_def image_write_def nth_splice split: sum.splits)

section \<open>Byte sources\<close>

text \<open>\<open>SliceByteSource\<close>: coded bytes pulled from memory; the model keeps what is left.\<close>

fun next_byte :: "bytes \<Rightarrow> (u8 \<times> bytes) option" where
  "next_byte [] = None"
| "next_byte (b # bs) = Some (b, bs)"

end
