(* ===== verification/Cache.thy ===== *)
theory Cache
  imports Device
begin

text \<open>
  The session cache (\<open>src/crates/remanence/src/io/cache.rs\<close>): the bounded working set of 64 KiB
  extents every session reads and writes through, the private spill file altered extents move
  to, and the background worker that writes them there ahead of pressure.

  The host's private storage can fail: \<open>host_ok n\<close> is the outcome of the \<open>n\<close>-th call to it in
  the session, so a statement about every \<open>host_ok\<close> is a statement about every pattern of host
  failures. The worker thread is the queue \<open>jobs\<close> it has been sent and the queue \<open>done_q\<close> of
  completions nobody has received; \<open>worker_step\<close> is one job running, and it may happen between
  any two operations. A blocking receive runs the worker first. A receive on an idle worker is
  modelled by the arm the code takes for a closed channel; the invariant of
  \<open>Cache_Proofs\<close> shows that no operation reaches it.
\<close>

definition EXTENT :: nat where
  "EXTENT = 64 * 1024"

definition DEFAULT_CACHE_BYTES :: nat where
  "DEFAULT_CACHE_BYTES = 128 * 1024 * 1024"

definition OFFLOAD_IN_FLIGHT :: nat where
  "OFFLOAD_IN_FLIGHT = 4"

lemma EXTENT_pos [simp]: "0 < EXTENT"
  by (simp add: EXTENT_def)

section \<open>State\<close>

record extent =
  data :: bytes
  dirty :: bool
  used :: nat
  version :: nat

record offload_job =
  job_slot :: nat
  job_offset :: nat
  job_version :: nat
  job_data :: bytes

record offload_done =
  done_offset :: nat
  done_version :: nat
  done_ok :: bool

record spill_store =
  spill_file :: bytes
  slots :: "(nat, nat) omap"
  next_slot :: nat

record cache =
  resident :: "(nat, extent) omap"
  bound :: nat
  clock :: nat
  spill :: "spill_store option"
  offloader :: bool
  offload_enabled :: bool
  in_flight :: "(nat, nat) omap"
  prespilled :: "(nat, nat) omap"
  jobs :: "offload_job list"
  done_q :: "offload_done list"
  host_ok :: "nat \<Rightarrow> bool"
  host_calls :: nat

definition with_bound :: "(nat \<Rightarrow> bool) \<Rightarrow> nat \<Rightarrow> cache" where
  "with_bound h b =
     \<lparr>resident = [], bound = max b 1, clock = 0, spill = None, offloader = False,
      offload_enabled = False, in_flight = [], prespilled = [], jobs = [], done_q = [],
      host_ok = h, host_calls = 0\<rparr>"

definition with_bytes :: "(nat \<Rightarrow> bool) \<Rightarrow> nat \<Rightarrow> cache" where
  "with_bytes h n = with_bound h (max ((n + EXTENT - 1) div EXTENT) 1)"

definition with_bytes_offloading :: "(nat \<Rightarrow> bool) \<Rightarrow> nat \<Rightarrow> cache" where
  "with_bytes_offloading h n = (with_bytes h n)\<lparr>offload_enabled := True\<rparr>"

definition host_call :: "cache \<Rightarrow> bool \<times> cache" where
  "host_call c = (host_ok c (host_calls c), c\<lparr>host_calls := Suc (host_calls c)\<rparr>)"

definition tick :: "cache \<Rightarrow> nat \<times> cache" where
  "tick c = (Suc (clock c), c\<lparr>clock := Suc (clock c)\<rparr>)"

section \<open>The spill file\<close>

definition spill_new :: spill_store where
  "spill_new = \<lparr>spill_file = [], slots = [], next_slot = 0\<rparr>"

definition slot_for :: "spill_store \<Rightarrow> nat \<Rightarrow> nat \<times> spill_store" where
  "slot_for s eo =
     (case map_of (slots s) eo of
        Some slot \<Rightarrow> (slot, s)
      | None \<Rightarrow> (next_slot s,
          s\<lparr>slots := oinsert eo (next_slot s) (slots s), next_slot := Suc (next_slot s)\<rparr>))"

definition spill_put :: "nat \<Rightarrow> bytes \<Rightarrow> spill_store \<Rightarrow> spill_store" where
  "spill_put slot bs s = s\<lparr>spill_file := file_write_all_at (spill_file s) (slot * EXTENT) bs\<rparr>"

definition spill_get :: "nat \<Rightarrow> spill_store \<Rightarrow> bytes option" where
  "spill_get slot s = file_read_exact_at (spill_file s) (slot * EXTENT) EXTENT"

definition spill_holds :: "spill_store \<Rightarrow> nat \<Rightarrow> bool" where
  "spill_holds s eo \<longleftrightarrow> map_of (slots s) eo \<noteq> None"

text \<open>\<open>Spill::create\<close> on first use; refused where the host cannot create the file.\<close>

definition spill_create :: "cache \<Rightarrow> cache \<times> spill_store result" where
  "spill_create c =
     (case spill c of
        Some s \<Rightarrow> (c, Inr s)
      | None \<Rightarrow> (let (ok, c') = host_call c
                 in if ok then (c'\<lparr>spill := Some spill_new\<rparr>, Inr spill_new)
                    else (c', Inl io_error)))"

text \<open>\<open>Spill::write\<close>: the slot is taken before the write, whatever becomes of it.\<close>

definition spill_write :: "cache \<Rightarrow> spill_store \<Rightarrow> nat \<Rightarrow> bytes \<Rightarrow> cache \<times> unit result" where
  "spill_write c s eo bs =
     (let (slot, s') = slot_for s eo; (ok, c') = host_call c
      in if ok then (c'\<lparr>spill := Some (spill_put slot bs s')\<rparr>, Inr ())
         else (c'\<lparr>spill := Some s'\<rparr>, Inl io_error))"

text \<open>\<open>Spill::read\<close>, for an offset the spill holds.\<close>

definition spill_read :: "cache \<Rightarrow> spill_store \<Rightarrow> nat \<Rightarrow> cache \<times> bytes result" where
  "spill_read c s eo =
     (let (ok, c') = host_call c
      in case map_of (slots s) eo of
           None \<Rightarrow> (c', Inl io_error)
         | Some slot \<Rightarrow>
             (case spill_get slot s of
                None \<Rightarrow> (c', Inl io_error)
              | Some bs \<Rightarrow> (c', if ok then Inr bs else Inl io_error)))"

section \<open>What is altered\<close>

definition modified :: "cache \<Rightarrow> bool" where
  "modified c \<longleftrightarrow>
     (\<exists>(eo, e) \<in> set (resident c). dirty e) \<or>
     (case spill c of None \<Rightarrow> False | Some s \<Rightarrow> slots s \<noteq> [])"

definition dirty_extents :: "cache \<Rightarrow> nat" where
  "dirty_extents c =
     length (filter (\<lambda>(eo, e). dirty e) (resident c)) +
     (case spill c of None \<Rightarrow> 0 | Some s \<Rightarrow> length (slots s))"

section \<open>The offload worker\<close>

definition worker_step :: "cache \<Rightarrow> cache" where
  "worker_step c =
     (case jobs c of
        [] \<Rightarrow> c
      | j # js \<Rightarrow>
          (let (ok, c') = host_call c
           in c'\<lparr>jobs := js,
                 spill := (if ok then map_option (spill_put (job_slot j) (job_data j)) (spill c)
                           else spill c),
                 done_q := done_q c @ [\<lparr>done_offset = job_offset j,
                                         done_version = job_version j, done_ok = ok\<rparr>]\<rparr>))"

definition apply_offload :: "cache \<Rightarrow> offload_done \<Rightarrow> cache" where
  "apply_offload c d =
     (let expected = map_of (in_flight c) (done_offset d);
          c1 = c\<lparr>in_flight := oremove (done_offset d) (in_flight c)\<rparr>
      in if expected \<noteq> Some (done_version d) \<or> \<not> done_ok d then c1
         else case map_of (resident c1) (done_offset d) of
                None \<Rightarrow> c1
              | Some e \<Rightarrow>
                  if dirty e \<and> version e = done_version d
                  then c1\<lparr>prespilled := oinsert (done_offset d) (done_version d) (prespilled c1),
                          resident := oremove (done_offset d) (resident c1)\<rparr>
                  else c1)"

text \<open>\<open>drain_offloads\<close> applies whatever has completed, without blocking.\<close>

definition drain_offloads :: "cache \<Rightarrow> cache" where
  "drain_offloads c =
     (if \<not> offloader c then c else fold (\<lambda>d c. apply_offload c d) (done_q c) (c\<lparr>done_q := []\<rparr>))"

text \<open>The blocking receive: the next completion, the worker running first where none waits.\<close>

definition recv_done :: "cache \<Rightarrow> (offload_done \<times> cache) option" where
  "recv_done c =
     (let c' = (if done_q c = [] then worker_step c else c)
      in case done_q c' of [] \<Rightarrow> None | d # ds \<Rightarrow> Some (d, c'\<lparr>done_q := ds\<rparr>))"

definition join_one :: "cache \<Rightarrow> cache" where
  "join_one c =
     (if \<not> offloader c then c\<lparr>in_flight := []\<rparr>
      else case recv_done c of
             None \<Rightarrow> c\<lparr>in_flight := []\<rparr>
           | Some (d, c') \<Rightarrow> apply_offload c' d)"

definition worker_load :: "cache \<Rightarrow> nat" where
  "worker_load c = length (in_flight c) + length (jobs c) + length (done_q c)"

lemma length_oremove_le: "length (oremove k m) \<le> length m"
  by (simp add: oremove_def)

lemma apply_offload_shrinks:
  "length (resident (apply_offload c d)) \<le> length (resident c)"
  "length (in_flight (apply_offload c d)) \<le> length (in_flight c)"
  "jobs (apply_offload c d) = jobs c" "done_q (apply_offload c d) = done_q c"
  "bound (apply_offload c d) = bound c"
  by (auto simp: apply_offload_def Let_def length_oremove_le split: option.splits)

lemma worker_step_load: "worker_load (worker_step c) = worker_load c"
  by (auto simp: worker_step_def host_call_def worker_load_def split: list.splits)

lemma worker_step_frame [simp]:
  "resident (worker_step c) = resident c" "in_flight (worker_step c) = in_flight c"
  "prespilled (worker_step c) = prespilled c" "bound (worker_step c) = bound c"
  "clock (worker_step c) = clock c" "host_ok (worker_step c) = host_ok c"
  "offloader (worker_step c) = offloader c"
  by (auto simp: worker_step_def host_call_def split: list.splits)

lemma join_one_load:
  assumes "in_flight c \<noteq> []"
  shows "worker_load (join_one c) < worker_load c"
    and "length (resident (join_one c)) \<le> length (resident c)"
proof -
  show "worker_load (join_one c) < worker_load c"
  proof (cases "offloader c")
    case True
    show ?thesis
    proof (cases "recv_done c")
      case None
      then show ?thesis using assms by (simp add: join_one_def True worker_load_def)
    next
      case (Some p)
      obtain d c' where p: "p = (d, c')" by (cases p)
      have "worker_load c' < worker_load c"
        using Some worker_step_load [of c] unfolding p recv_done_def worker_load_def
        by (auto simp: Let_def split: list.splits if_splits)
      moreover have "worker_load (apply_offload c' d) \<le> worker_load c'"
        by (simp add: worker_load_def apply_offload_shrinks)
      ultimately show ?thesis using Some True p by (simp add: join_one_def)
    qed
  qed (use assms in \<open>simp add: join_one_def worker_load_def\<close>)
  have res: "resident c' = resident c" if "recv_done c = Some (d, c')" for d c'
    using that by (auto simp: recv_done_def Let_def split: list.splits if_splits)
  show "length (resident (join_one c)) \<le> length (resident c)"
  proof (cases "offloader c \<and> recv_done c \<noteq> None")
    case True
    then obtain d c' where p: "recv_done c = Some (d, c')" by auto
    then have "resident c' = resident c" by (rule res)
    then show ?thesis
      using apply_offload_shrinks(1) [of c' d] True p by (simp add: join_one_def)
  qed (cases "recv_done c"; auto simp: join_one_def)
qed

text \<open>\<open>join_offloads\<close> blocks until no job is in flight.\<close>

function join_offloads :: "cache \<Rightarrow> cache" where
  "join_offloads c = (if in_flight c = [] then c else join_offloads (join_one c))"
  by pat_completeness auto
termination
  by (relation "measure worker_load") (auto intro: join_one_load)

declare join_offloads.simps [simp del]

section \<open>Eviction\<close>

text \<open>\<open>min_by_key\<close> on the recency stamp: the first of the least, in key order.\<close>

definition least_used :: "(nat \<times> extent) list \<Rightarrow> (nat \<times> extent) option" where
  "least_used xs =
     (case xs of
        [] \<Rightarrow> None
      | x # xs \<Rightarrow> Some (foldl (\<lambda>b y. if used (snd y) < used (snd b) then y else b) x xs))"

text \<open>
  \<open>maybe_offload\<close>: once the resident set nears the bound, altered extents not yet in flight are
  handed to the worker, least recently used first, at most four at a time. The loop runs at
  most \<open>OFFLOAD_IN_FLIGHT\<close> times, every round adding one job.
\<close>

definition offload_candidate :: "cache \<Rightarrow> (nat \<times> extent) option" where
  "offload_candidate c =
     least_used (filter (\<lambda>(eo, e). dirty e \<and> map_of (in_flight c) eo = None \<and>
                            map_of (prespilled c) eo \<noteq> Some (version e)) (resident c))"

fun offload_loop :: "nat \<Rightarrow> cache \<Rightarrow> cache" where
  "offload_loop 0 c = c"
| "offload_loop (Suc n) c =
     (if length (in_flight c) < OFFLOAD_IN_FLIGHT
      then case offload_candidate c of
             None \<Rightarrow> c
           | Some (eo, e) \<Rightarrow>
               (case spill_create c of
                  (c1, Inl _) \<Rightarrow> c1\<lparr>offload_enabled := False\<rparr>
                | (c1, Inr s) \<Rightarrow>
                    (let (slot, s') = slot_for s eo
                     in offload_loop n
                          (c1\<lparr>spill := Some s', offloader := True,
                              jobs := jobs c1 @ [\<lparr>job_slot = slot, job_offset = eo,
                                job_version = version e, job_data = data e\<rparr>],
                              in_flight := oinsert eo (version e) (in_flight c1)\<rparr>)))
      else c)"

definition maybe_offload :: "cache \<Rightarrow> cache" where
  "maybe_offload c =
     (if \<not> offload_enabled c \<or> bound c < 4 then c
      else let high_water = bound c - bound c div 8
           in if length (resident c) < high_water then c
              else offload_loop OFFLOAD_IN_FLIGHT c)"

text \<open>
  \<open>evict_one\<close>. The victim leaves the resident map before its spill write is attempted, as it
  does in the code.
\<close>

definition evict_one :: "cache \<Rightarrow> cache \<times> unit result" where
  "evict_one c =
     (case least_used (filter (\<lambda>(eo, e). \<not> dirty e) (resident c)) of
        Some (eo, e) \<Rightarrow> (c\<lparr>resident := oremove eo (resident c)\<rparr>, Inr ())
      | None \<Rightarrow>
          (case least_used (filter (\<lambda>(eo, e). map_of (in_flight c) eo = None) (resident c)) of
             None \<Rightarrow> (join_one c, Inr ())
           | Some (eo, e) \<Rightarrow>
               (let c1 = c\<lparr>resident := oremove eo (resident c)\<rparr>
                in if map_of (prespilled c1) eo = Some (version e)
                   then (c1\<lparr>prespilled := oremove eo (prespilled c1)\<rparr>, Inr ())
                   else case spill_create c1 of
                          (c2, Inl err) \<Rightarrow> (c2, Inl err)
                        | (c2, Inr s) \<Rightarrow> spill_write c2 s eo (data e))))"

definition cache_load :: "cache \<Rightarrow> nat" where
  "cache_load c = length (resident c) + worker_load c"

lemma foldl_least_in: "foldl (\<lambda>b y. if used (snd y) < used (snd b) then y else b) x xs \<in> insert x (set xs)"
  by (induction xs arbitrary: x) auto

lemma least_used_in: "least_used xs = Some p \<Longrightarrow> p \<in> set xs"
proof (cases xs)
  case (Cons y ys)
  assume "least_used xs = Some p"
  then have "p = foldl (\<lambda>b y. if used (snd y) < used (snd b) then y else b) y ys"
    by (simp add: least_used_def Cons)
  then show ?thesis using foldl_least_in [of y ys] by (simp only: Cons list.set)
qed (simp add: least_used_def)

lemma least_used_None: "least_used xs = None \<longleftrightarrow> xs = []"
  by (cases xs) (auto simp: least_used_def)

lemma least_used_filter:
  "least_used (filter p xs) = Some x \<Longrightarrow> x \<in> set xs \<and> p x"
  using least_used_in [of "filter p xs" x] by simp

lemma spill_create_frame:
  "spill_create c = (c', r) \<Longrightarrow>
   resident c' = resident c \<and> worker_load c' = worker_load c \<and> bound c' = bound c \<and>
   in_flight c' = in_flight c \<and> prespilled c' = prespilled c \<and> clock c' = clock c \<and>
   host_ok c' = host_ok c \<and> jobs c' = jobs c \<and> done_q c' = done_q c \<and> offloader c' = offloader c"
  by (auto simp: spill_create_def host_call_def worker_load_def split: option.splits if_splits)

lemma spill_write_frame:
  "spill_write c s eo bs = (c', r) \<Longrightarrow>
   resident c' = resident c \<and> worker_load c' = worker_load c \<and> bound c' = bound c \<and>
   in_flight c' = in_flight c \<and> prespilled c' = prespilled c \<and> clock c' = clock c \<and>
   host_ok c' = host_ok c \<and> jobs c' = jobs c \<and> done_q c' = done_q c \<and> offloader c' = offloader c"
  by (auto simp: spill_write_def host_call_def worker_load_def Let_def split: if_splits prod.splits)

lemma spill_write_fst [simp]:
  "resident (fst (spill_write c s eo bs)) = resident c"
  "in_flight (fst (spill_write c s eo bs)) = in_flight c"
  "jobs (fst (spill_write c s eo bs)) = jobs c"
  "done_q (fst (spill_write c s eo bs)) = done_q c"
  by (auto simp: spill_write_def host_call_def Let_def split: prod.splits)

lemma length_oremove_in: "(k, v) \<in> set m \<Longrightarrow> length (oremove k m) < length m"
  by (rule length_oremove_less) (auto simp: map_of_eq_None_iff image_iff intro: bexI [of _ "(k, v)"])

lemma evict_one_load:
  assumes "resident c \<noteq> []"
  shows "cache_load (fst (evict_one c)) < cache_load c"
proof (cases "least_used (filter (\<lambda>(eo, e). \<not> dirty e) (resident c))")
  case (Some p)
  then show ?thesis
    using least_used_filter [OF Some] length_oremove_in
    by (auto simp: evict_one_def cache_load_def worker_load_def split: prod.splits)
next
  case no_clean: None
  show ?thesis
  proof (cases "least_used (filter (\<lambda>(eo, e). map_of (in_flight c) eo = None) (resident c))")
    case None
    then have "in_flight c \<noteq> []"
      using assms by (cases "resident c") (auto simp: least_used_None split: if_splits)
    then show ?thesis
      using join_one_load [of c] no_clean None by (simp add: evict_one_def cache_load_def)
  next
    case (Some p)
    obtain eo e where p: "p = (eo, e)" by (cases p)
    have "length (oremove eo (resident c)) < length (resident c)"
      using least_used_filter [OF Some] p length_oremove_in by auto
    then show ?thesis
      using no_clean Some p
      by (auto simp: evict_one_def cache_load_def worker_load_def Let_def
          dest!: spill_create_frame spill_write_frame split: prod.splits sum.splits)
  qed
qed

lemma evict_one_load_Inr:
  "(c', r) = evict_one c \<Longrightarrow> resident c \<noteq> [] \<Longrightarrow> cache_load c' < cache_load c"
  using evict_one_load [of c] by (metis fst_conv)

text \<open>
  \<open>make_room\<close> evicts until the resident set is below the bound. A constructed cache has a
  bound of at least one, so the second conjunct of the guard never decides.
\<close>

function make_room :: "cache \<Rightarrow> cache \<times> unit result" where
  "make_room c =
     (if bound c \<le> length (resident c) \<and> resident c \<noteq> []
      then case evict_one c of
             (c', Inl err) \<Rightarrow> (c', Inl err)
           | (c', Inr _) \<Rightarrow> make_room c'
      else (c, Inr ()))"
  by pat_completeness auto
termination
  by (relation "measure cache_load") (auto intro: evict_one_load_Inr)

declare make_room.simps [simp del]

section \<open>Loading, reading and writing\<close>

text \<open>
  The base is the device beneath: its length, and its read. \<open>ensure_resident\<close> loads an extent
  from the spill where it was altered and evicted, else from the base, zero past its end.
\<close>

definition load_base ::
  "nat \<Rightarrow> (nat \<Rightarrow> nat \<Rightarrow> bytes result) \<Rightarrow> nat \<Rightarrow> (bytes \<times> bool) result" where
  "load_base base_len base_read eo =
     rbind (if eo < base_len then base_read eo (min (base_len - eo) EXTENT) else Inr [])
       (\<lambda>bs. Inr (bs @ replicate (EXTENT - length bs) 0, False))"

definition load_extent ::
  "nat \<Rightarrow> (nat \<Rightarrow> nat \<Rightarrow> bytes result) \<Rightarrow> cache \<Rightarrow> nat \<Rightarrow> cache \<times> (bytes \<times> bool) result" where
  "load_extent base_len base_read c eo =
     (case spill c of
        None \<Rightarrow> (c, load_base base_len base_read eo)
      | Some s \<Rightarrow>
          if spill_holds s eo
          then (case spill_read c s eo of (c', r) \<Rightarrow> (c', rbind r (\<lambda>bs. Inr (bs, True))))
          else (c, load_base base_len base_read eo))"

definition ensure_resident ::
  "nat \<Rightarrow> (nat \<Rightarrow> nat \<Rightarrow> bytes result) \<Rightarrow> cache \<Rightarrow> nat \<Rightarrow> cache \<times> unit result" where
  "ensure_resident base_len base_read c eo =
     (if map_of (resident c) eo \<noteq> None then (c, Inr ())
      else sbind (make_room c) (\<lambda>c1 _.
           sbind (load_extent base_len base_read c1 eo) (\<lambda>c2 (bs, d).
             let (u, c3) = tick c2
             in (c3\<lparr>resident := oinsert eo \<lparr>data = bs, dirty = d, used = u, version = u\<rparr>
                       (resident c3)\<rparr>, Inr ()))))"

definition is_resident :: "cache \<Rightarrow> nat \<Rightarrow> bool" where
  "is_resident c eo \<longleftrightarrow> map_of (resident c) eo \<noteq> None"

definition insert_prefetched :: "cache \<Rightarrow> nat \<Rightarrow> bytes \<Rightarrow> cache" where
  "insert_prefetched c eo bs =
     (if is_resident c eo \<or> (case spill c of None \<Rightarrow> False | Some s \<Rightarrow> spill_holds s eo) then c
      else let install = (\<lambda>c. let (u, c') = tick c
                 in c'\<lparr>resident := oinsert eo \<lparr>data = bs, dirty = False, used = u, version = u\<rparr>
                          (resident c')\<rparr>)
           in if bound c \<le> length (resident c)
              then case least_used (filter (\<lambda>(eo, e). \<not> dirty e) (resident c)) of
                     None \<Rightarrow> c
                   | Some (victim, _) \<Rightarrow> install (c\<lparr>resident := oremove victim (resident c)\<rparr>)
              else install c)"

text \<open>
  One round of the read loop touches the extent and takes its part of the range; the buffer is
  filled front to back. The write loop is the same walk, altering each extent it touches.
\<close>

definition touch_extent :: "cache \<Rightarrow> nat \<Rightarrow> cache \<times> extent" where
  "touch_extent c eo =
     (let (u, c1) = tick c; e = (the (map_of (resident c1) eo))\<lparr>used := u\<rparr>
      in (c1\<lparr>resident := oinsert eo e (resident c1)\<rparr>, e))"

function read_loop ::
  "nat \<Rightarrow> (nat \<Rightarrow> nat \<Rightarrow> bytes result) \<Rightarrow> nat \<Rightarrow> nat \<Rightarrow> cache \<Rightarrow> nat \<Rightarrow> cache \<times> bytes result" where
  "read_loop bl br offset finish c eo =
     (if eo < finish
      then case ensure_resident bl br c eo of
             (c1, Inl err) \<Rightarrow> (c1, Inl err)
           | (c1, Inr _) \<Rightarrow>
               (let (c2, e) = touch_extent c1 eo;
                    lo = max eo offset; hi = min (eo + EXTENT) finish
                in case read_loop bl br offset finish c2 (eo + EXTENT) of
                     (c3, Inl err) \<Rightarrow> (c3, Inl err)
                   | (c3, Inr rest) \<Rightarrow> (c3, Inr (slice (lo - eo) (hi - lo) (data e) @ rest)))
      else (c, Inr []))"
  by pat_completeness auto
termination
  by (relation "measure (\<lambda>(bl, br, offset, finish, c, eo). finish - eo)") (auto intro: diff_less_mono2)

declare read_loop.simps [simp del]

definition cache_read_at ::
  "nat \<Rightarrow> (nat \<Rightarrow> nat \<Rightarrow> bytes result) \<Rightarrow> cache \<Rightarrow> nat \<Rightarrow> nat \<Rightarrow> cache \<times> bytes result" where
  "cache_read_at bl br c offset n =
     (let c1 = drain_offloads c
      in if offset + n > bl then (c1, Inl io_error)
         else read_loop bl br offset (offset + n) c1 (offset div EXTENT * EXTENT))"

definition alter_extent :: "cache \<Rightarrow> nat \<Rightarrow> nat \<Rightarrow> bytes \<Rightarrow> cache" where
  "alter_extent c eo at bs =
     (let (u, c1) = tick c; e = the (map_of (resident c1) eo)
      in c1\<lparr>resident := oinsert eo (e\<lparr>used := u, dirty := True, version := u,
                                       data := splice at bs (data e)\<rparr>) (resident c1)\<rparr>)"

function write_loop ::
  "nat \<Rightarrow> (nat \<Rightarrow> nat \<Rightarrow> bytes result) \<Rightarrow> nat \<Rightarrow> bytes \<Rightarrow> cache \<Rightarrow> nat \<Rightarrow> cache \<times> unit result" where
  "write_loop bl br offset bs c eo =
     (if eo < offset + length bs
      then case ensure_resident bl br c eo of
             (c1, Inl err) \<Rightarrow> (c1, Inl err)
           | (c1, Inr _) \<Rightarrow>
               (let lo = max eo offset; hi = min (eo + EXTENT) (offset + length bs)
                in write_loop bl br offset bs
                     (alter_extent c1 eo (lo - eo) (slice (lo - offset) (hi - lo) bs))
                     (eo + EXTENT))
      else (c, Inr ()))"
  by pat_completeness auto
termination
  by (relation "measure (\<lambda>(bl, br, offset, bs, c, eo). offset + length bs - eo)")
    (auto intro: diff_less_mono2)

declare write_loop.simps [simp del]

definition cache_write_at ::
  "nat \<Rightarrow> (nat \<Rightarrow> nat \<Rightarrow> bytes result) \<Rightarrow> cache \<Rightarrow> nat \<Rightarrow> bytes \<Rightarrow> cache \<times> unit result" where
  "cache_write_at bl br c offset bs =
     (case write_loop bl br offset bs (drain_offloads c) (offset div EXTENT * EXTENT) of
        (c1, Inl err) \<Rightarrow> (c1, Inl err)
      | (c1, Inr _) \<Rightarrow> (maybe_offload c1, Inr ()))"

section \<open>The altered set\<close>

text \<open>
  \<open>for_each_dirty\<close> merges the altered resident extents and the spilled offsets in offset
  order; an offset in both is the resident one, its slot being stale. \<open>None\<close> marks an extent
  to be read back from the spill.
\<close>

fun dirty_merge :: "(nat \<times> extent) list \<Rightarrow> nat list \<Rightarrow> (nat \<times> extent option) list" where
  "dirty_merge [] [] = []"
| "dirty_merge ((r, e) # rs) (s # ss) =
     (if s = r then dirty_merge ((r, e) # rs) ss
      else if s < r then (s, None) # dirty_merge ((r, e) # rs) ss
      else (r, Some e) # dirty_merge rs (s # ss))"
| "dirty_merge ((r, e) # rs) [] = (r, Some e) # dirty_merge rs []"
| "dirty_merge [] (s # ss) = (s, None) # dirty_merge [] ss"

definition dirty_items :: "cache \<Rightarrow> (nat \<times> extent option) list" where
  "dirty_items c =
     dirty_merge (filter (\<lambda>(eo, e). dirty e) (resident c))
       (case spill c of None \<Rightarrow> [] | Some s \<Rightarrow> map fst (slots s))"

fun dirty_loop ::
  "('s \<Rightarrow> nat \<Rightarrow> bytes \<Rightarrow> 's \<times> unit result) \<Rightarrow> (nat \<times> extent option) list \<Rightarrow> cache \<Rightarrow> 's
     \<Rightarrow> cache \<times> 's \<times> unit result" where
  "dirty_loop f [] c st = (c, st, Inr ())"
| "dirty_loop f ((eo, Some e) # items) c st =
     (case f st eo (data e) of
        (st', Inl err) \<Rightarrow> (c, st', Inl err)
      | (st', Inr _) \<Rightarrow> dirty_loop f items c st')"
| "dirty_loop f ((eo, None) # items) c st =
     (case spill_read c (the (spill c)) eo of
        (c', Inl err) \<Rightarrow> (c', st, Inl err)
      | (c', Inr bs) \<Rightarrow>
          (case f st eo bs of
             (st', Inl err) \<Rightarrow> (c', st', Inl err)
           | (st', Inr _) \<Rightarrow> dirty_loop f items c' st'))"

definition for_each_dirty ::
  "('s \<Rightarrow> nat \<Rightarrow> bytes \<Rightarrow> 's \<times> unit result) \<Rightarrow> cache \<Rightarrow> 's \<Rightarrow> cache \<times> 's \<times> unit result" where
  "for_each_dirty f c st = dirty_loop f (dirty_items c) c st"

text \<open>\<open>write_through\<close>: each altered extent goes to the base, clamped where the base ends.\<close>

definition through_take :: "nat \<Rightarrow> nat \<Rightarrow> nat \<Rightarrow> nat" where
  "through_take base_len eo n =
     min (if eo + EXTENT > base_len then max base_len eo - eo else EXTENT) n"

definition write_through ::
  "('d \<Rightarrow> nat) \<Rightarrow> ('d \<Rightarrow> nat \<Rightarrow> bytes \<Rightarrow> 'd \<times> unit result) \<Rightarrow> cache \<Rightarrow> 'd
     \<Rightarrow> cache \<times> 'd \<times> unit result" where
  "write_through dlen dwrite c d =
     for_each_dirty
       (\<lambda>d eo bs. let t = through_take (dlen d) eo (length bs)
                  in if t > 0 then dwrite d eo (take t bs) else (d, Inr ()))
       c d"

definition mark_committed :: "cache \<Rightarrow> cache" where
  "mark_committed c =
     (let c1 = join_offloads c
      in c1\<lparr>resident := map (\<lambda>(eo, e). (eo, e\<lparr>dirty := False\<rparr>)) (resident c1),
            spill := None, prespilled := []\<rparr>)"

definition discard_dirty :: "cache \<Rightarrow> cache" where
  "discard_dirty c =
     (let c1 = join_offloads c
      in c1\<lparr>resident := filter (\<lambda>(eo, e). \<not> dirty e) (resident c1),
            spill := None, prespilled := []\<rparr>)"

end
