(* ===== verification/Cache_Proofs.thy ===== *)
theory Cache_Proofs
  imports Cache "HOL-Library.Multiset"
begin

text \<open>
  What the session cache presents, and that its operations keep it. \<open>extent_view\<close> is the
  abstract content of one extent: the resident bytes, else what was spilled, else the base.
  \<open>cache_inv\<close> ties the resident set, the spill slots, the jobs in flight and the prespilled
  stamps together; every operation that does not refuse keeps it, and only a write changes
  what is presented.
\<close>

section \<open>The abstraction\<close>

definition base_extent :: "bytes \<Rightarrow> nat \<Rightarrow> bytes" where
  "base_extent B eo = slice eo EXTENT B @ replicate (EXTENT - (length B - eo)) 0"

definition slot_data :: "cache \<Rightarrow> nat \<Rightarrow> bytes option" where
  "slot_data c eo =
     (case spill c of None \<Rightarrow> None
      | Some s \<Rightarrow> (case map_of (slots s) eo of None \<Rightarrow> None | Some slot \<Rightarrow> spill_get slot s))"

definition holds :: "cache \<Rightarrow> nat \<Rightarrow> bool" where
  "holds c eo \<longleftrightarrow> (case spill c of None \<Rightarrow> False | Some s \<Rightarrow> spill_holds s eo)"

definition extent_view :: "bytes \<Rightarrow> cache \<Rightarrow> nat \<Rightarrow> bytes" where
  "extent_view B c eo =
     (case map_of (resident c) eo of
        Some e \<Rightarrow> data e
      | None \<Rightarrow> (case slot_data c eo of Some bs \<Rightarrow> bs | None \<Rightarrow> base_extent B eo))"

section \<open>The invariant\<close>

definition res_inv :: "bytes \<Rightarrow> cache \<Rightarrow> bool" where
  "res_inv B c \<longleftrightarrow> omap_ok (resident c) \<and>
     (\<forall>eo e. map_of (resident c) eo = Some e \<longrightarrow>
        EXTENT dvd eo \<and> length (data e) = EXTENT \<and> version e \<le> clock c \<and>
        (\<not> dirty e \<longrightarrow> data e = base_extent B eo \<and> \<not> holds c eo))"

definition slots_inv :: "spill_store \<Rightarrow> bool" where
  "slots_inv s \<longleftrightarrow> omap_ok (slots s) \<and>
     (\<forall>eo slot. map_of (slots s) eo = Some slot \<longrightarrow> slot < next_slot s \<and> EXTENT dvd eo) \<and>
     (\<forall>eo eo' slot. map_of (slots s) eo = Some slot \<longrightarrow> map_of (slots s) eo' = Some slot \<longrightarrow>
        eo = eo')"

definition spill_inv :: "cache \<Rightarrow> bool" where
  "spill_inv c \<longleftrightarrow> (\<forall>s. spill c = Some s \<longrightarrow> slots_inv s) \<and>
     (\<forall>eo. holds c eo \<longrightarrow> map_of (resident c) eo = None \<longrightarrow> slot_data c eo \<noteq> None)"

definition work :: "cache \<Rightarrow> (nat \<times> nat) list" where
  "work c = map (\<lambda>d. (done_offset d, done_version d)) (done_q c) @
            map (\<lambda>j. (job_offset j, job_version j)) (jobs c)"

definition flight_inv :: "cache \<Rightarrow> bool" where
  "flight_inv c \<longleftrightarrow> omap_ok (in_flight c) \<and>
     distinct (map fst (work c)) \<and> set (work c) = set (in_flight c) \<and>
     (in_flight c \<noteq> [] \<longrightarrow> offloader c) \<and>
     (\<forall>eo v. map_of (in_flight c) eo = Some v \<longrightarrow>
        v \<le> clock c \<and> (\<exists>e. map_of (resident c) eo = Some e \<and> dirty e)) \<and>
     (\<forall>j \<in> set (jobs c). length (job_data j) = EXTENT \<and>
        (\<exists>s. spill c = Some s \<and> map_of (slots s) (job_offset j) = Some (job_slot j)) \<and>
        (\<forall>e. map_of (resident c) (job_offset j) = Some e \<longrightarrow> version e = job_version j \<longrightarrow>
           job_data j = data e)) \<and>
     (\<forall>d \<in> set (done_q c). done_ok d \<longrightarrow>
        (\<forall>e. map_of (resident c) (done_offset d) = Some e \<longrightarrow> version e = done_version d \<longrightarrow>
           slot_data c (done_offset d) = Some (data e)))"

definition prespill_inv :: "cache \<Rightarrow> bool" where
  "prespill_inv c \<longleftrightarrow> omap_ok (prespilled c) \<and>
     (\<forall>eo v. map_of (prespilled c) eo = Some v \<longrightarrow> v \<le> clock c \<and>
        (\<forall>e. map_of (resident c) eo = Some e \<longrightarrow> v < version e))"

definition cache_inv :: "bytes \<Rightarrow> cache \<Rightarrow> bool" where
  "cache_inv B c \<longleftrightarrow>
     res_inv B c \<and> spill_inv c \<and> flight_inv c \<and> prespill_inv c \<and> 1 \<le> bound c"

lemmas inv_defs = cache_inv_def res_inv_def spill_inv_def flight_inv_def prespill_inv_def

lemma flight_invI:
  assumes "omap_ok (in_flight c)" "distinct (map fst (work c))"
    and "set (work c) = set (in_flight c)" "in_flight c \<noteq> [] \<Longrightarrow> offloader c"
    and "\<And>eo v. (eo, v) \<in> set (in_flight c) \<Longrightarrow>
      v \<le> clock c \<and> (\<exists>e. map_of (resident c) eo = Some e \<and> dirty e)"
    and "\<And>j. j \<in> set (jobs c) \<Longrightarrow> length (job_data j) = EXTENT"
    and "\<And>j. j \<in> set (jobs c) \<Longrightarrow>
      \<exists>s. spill c = Some s \<and> map_of (slots s) (job_offset j) = Some (job_slot j)"
    and "\<And>j e. j \<in> set (jobs c) \<Longrightarrow> map_of (resident c) (job_offset j) = Some e \<Longrightarrow>
      version e = job_version j \<Longrightarrow> job_data j = data e"
    and "\<And>d e. d \<in> set (done_q c) \<Longrightarrow> done_ok d \<Longrightarrow>
      map_of (resident c) (done_offset d) = Some e \<Longrightarrow> version e = done_version d \<Longrightarrow>
      slot_data c (done_offset d) = Some (data e)"
  shows "flight_inv c"
  unfolding flight_inv_def using assms by (blast dest: map_of_SomeD)

lemma flight_invD:
  assumes "cache_inv B c"
  shows "omap_ok (in_flight c)" "distinct (map fst (work c))"
    and "set (work c) = set (in_flight c)" "in_flight c \<noteq> [] \<Longrightarrow> offloader c"
    and "\<And>eo v. (eo, v) \<in> set (in_flight c) \<Longrightarrow>
      v \<le> clock c \<and> (\<exists>e. map_of (resident c) eo = Some e \<and> dirty e)"
    and "\<And>j. j \<in> set (jobs c) \<Longrightarrow> length (job_data j) = EXTENT"
    and "\<And>j. j \<in> set (jobs c) \<Longrightarrow>
      \<exists>s. spill c = Some s \<and> map_of (slots s) (job_offset j) = Some (job_slot j)"
    and "\<And>j e. j \<in> set (jobs c) \<Longrightarrow> map_of (resident c) (job_offset j) = Some e \<Longrightarrow>
      version e = job_version j \<Longrightarrow> job_data j = data e"
    and "\<And>d e. d \<in> set (done_q c) \<Longrightarrow> done_ok d \<Longrightarrow>
      map_of (resident c) (done_offset d) = Some e \<Longrightarrow> version e = done_version d \<Longrightarrow>
      slot_data c (done_offset d) = Some (data e)"
  using assms unfolding cache_inv_def flight_inv_def by (auto simp: omap_in_set)

text \<open>The same with the resident set kept and the queues moved on.\<close>

lemma flight_inv_advance:
  assumes "cache_inv B c" "resident c' = resident c" "spill c' = spill c"
    and "omap_ok (in_flight c')" "distinct (map fst (work c'))" "set (work c') = set (in_flight c')"
    and "set (in_flight c') \<subseteq> set (in_flight c)" "set (jobs c') \<subseteq> set (jobs c)"
    and "offloader c' = offloader c"
    and "\<And>d e. d \<in> set (done_q c') \<Longrightarrow> done_ok d \<Longrightarrow>
      map_of (resident c) (done_offset d) = Some e \<Longrightarrow> version e = done_version d \<Longrightarrow>
      slot_data c' (done_offset d) = Some (data e)"
    and "clock c' = clock c"
  shows "flight_inv c'"
proof (rule flight_invI)
  assume "in_flight c' \<noteq> []"
  then have "in_flight c \<noteq> []" using assms(7) by auto
  then show "offloader c'" using flight_invD(4) [OF assms(1)] assms(9) by simp
next
  fix eo v assume "(eo, v) \<in> set (in_flight c')"
  then show "v \<le> clock c' \<and> (\<exists>e. map_of (resident c') eo = Some e \<and> dirty e)"
    using assms(2,7,11) flight_invD(5) [OF assms(1)] by auto
next
  fix j e assume j: "j \<in> set (jobs c')"
  then have j': "j \<in> set (jobs c)" using assms(8) by auto
  show "length (job_data j) = EXTENT" using flight_invD(6) [OF assms(1) j'] .
  show "\<exists>s. spill c' = Some s \<and> map_of (slots s) (job_offset j) = Some (job_slot j)"
    using flight_invD(7) [OF assms(1) j'] assms(3) by simp
  assume "map_of (resident c') (job_offset j) = Some e" "version e = job_version j"
  then show "job_data j = data e" using flight_invD(8) [OF assms(1) j'] assms(2) by simp
qed (use assms in simp_all)

lemma length_base_extent [simp]: "length (base_extent B eo) = EXTENT"
  by (simp add: base_extent_def)

lemma length_spill_get: "spill_get slot s = Some bs \<Longrightarrow> length bs = EXTENT"
  by (auto simp: spill_get_def file_read_exact_at_def split: if_splits)

lemma length_slot_data: "slot_data c eo = Some bs \<Longrightarrow> length bs = EXTENT"
  by (auto simp: slot_data_def length_spill_get split: option.splits)

lemma length_extent_view: "cache_inv B c \<Longrightarrow> length (extent_view B c eo) = EXTENT"
  by (auto simp: extent_view_def inv_defs length_slot_data split: option.splits)

lemma cache_inv_with_bound: "cache_inv B (with_bound h n)"
  by (simp add: inv_defs with_bound_def work_def holds_def)

lemma extent_view_with_bound: "extent_view B (with_bound h n) eo = base_extent B eo"
  by (simp add: extent_view_def with_bound_def slot_data_def)

text \<open>The step every quiet operation makes: invariant kept, nothing presented changes.\<close>

definition keeps :: "bytes \<Rightarrow> cache \<Rightarrow> cache \<Rightarrow> bool" where
  "keeps B c c' \<longleftrightarrow> cache_inv B c' \<and> (\<forall>eo. extent_view B c' eo = extent_view B c eo) \<and>
     host_ok c' = host_ok c"

lemma keeps_refl: "cache_inv B c \<Longrightarrow> keeps B c c"
  by (simp add: keeps_def)

lemma keeps_trans: "keeps B c c' \<Longrightarrow> keeps B c' c'' \<Longrightarrow> keeps B c c''"
  by (simp add: keeps_def)

lemma keeps_inv: "keeps B c c' \<Longrightarrow> cache_inv B c'"
  by (simp add: keeps_def)

section \<open>Primitive steps\<close>

lemma extent_view_cong:
  "map_of (resident c') x = map_of (resident c) x \<Longrightarrow> slot_data c' x = slot_data c x \<Longrightarrow>
   extent_view B c' x = extent_view B c x"
  by (simp add: extent_view_def split: option.split)

lemma file_get_put_same:
  "length bs = EXTENT \<Longrightarrow> file_read_exact_at (file_write_all_at f (slot * EXTENT) bs) (slot * EXTENT) EXTENT = Some bs"
proof -
  assume l: "length bs = EXTENT"
  then have "bs \<noteq> []" using EXTENT_pos by force
  then show ?thesis
    using l by (simp add: file_read_exact_at_def file_write_all_at_def slice_splice_same)
qed

lemma file_get_put_other:
  assumes "length bs = EXTENT" "t \<noteq> slot" "file_read_exact_at f (t * EXTENT) EXTENT = Some ys"
  shows "file_read_exact_at (file_write_all_at f (slot * EXTENT) bs) (t * EXTENT) EXTENT = Some ys"
proof -
  have ne: "bs \<noteq> []" using assms(1) EXTENT_pos by force
  have fits: "t * EXTENT + EXTENT \<le> length f" and ys: "ys = slice (t * EXTENT) EXTENT f"
    using assms(3) by (auto simp: file_read_exact_at_def split: if_splits)
  have apart: "t * EXTENT + EXTENT \<le> slot * EXTENT \<or> slot * EXTENT + length bs \<le> t * EXTENT"
  proof (cases "t < slot")
    case True
    then have "Suc t * EXTENT \<le> slot * EXTENT" by (intro mult_le_mono1) simp
    then show ?thesis by simp
  next
    case False
    then have "Suc slot * EXTENT \<le> t * EXTENT" using assms(2) by (intro mult_le_mono1) simp
    then show ?thesis using assms(1) by simp
  qed
  have "slice (t * EXTENT) EXTENT (f @ replicate (slot * EXTENT + EXTENT - length f) 0) = ys"
    using fits ys by (simp add: slice_def)
  then show ?thesis
    using assms(1) fits apart ne
    by (simp add: file_read_exact_at_def file_write_all_at_def slice_splice_disjoint)
qed

lemma slot_data_put_same:
  "spill c = Some s \<Longrightarrow> map_of (slots s) eo = Some slot \<Longrightarrow> length bs = EXTENT \<Longrightarrow>
   slot_data (c\<lparr>spill := Some (spill_put slot bs s)\<rparr>) eo = Some bs"
  by (simp add: slot_data_def spill_put_def spill_get_def file_get_put_same)

lemma slot_data_put_other:
  assumes "spill c = Some s" "slots_inv s" "map_of (slots s) eo = Some slot" "length bs = EXTENT"
    and "eo' \<noteq> eo" "slot_data c eo' = Some ys"
  shows "slot_data (c\<lparr>spill := Some (spill_put slot bs s)\<rparr>) eo' = Some ys"
  using assms
  by (auto simp: slot_data_def spill_put_def spill_get_def slots_inv_def
      intro!: file_get_put_other split: option.splits)

lemma slot_data_cong: "spill c' = spill c \<Longrightarrow> slot_data c' eo = slot_data c eo"
  by (simp add: slot_data_def)

lemma holds_cong: "spill c' = spill c \<Longrightarrow> holds c' eo = holds c eo"
  by (simp add: holds_def)

text \<open>Writing one slot whose extent is resident and has no completion waiting.\<close>

lemma keeps_put:
  assumes inv: "cache_inv B c" and s: "spill c = Some s" "map_of (slots s) eo = Some slot"
    and l: "length bs = EXTENT" and r: "map_of (resident c) eo \<noteq> None"
    and q: "\<forall>d \<in> set (done_q c). done_offset d \<noteq> eo"
  shows "keeps B c (c\<lparr>spill := Some (spill_put slot bs s)\<rparr>)"
proof -
  let ?c = "c\<lparr>spill := Some (spill_put slot bs s)\<rparr>"
  have si: "slots_inv s" using inv s by (simp add: inv_defs)
  have other: "slot_data ?c eo' = Some ys" if "slot_data c eo' = Some ys" "eo' \<noteq> eo" for eo' ys
    using slot_data_put_other [OF s(1) si s(2) l that(2,1)] .
  have sl: "slots (spill_put slot bs s) = slots s" "next_slot (spill_put slot bs s) = next_slot s"
    by (simp_all add: spill_put_def)
  have h: "holds ?c x = holds c x" for x by (simp add: holds_def s spill_holds_def sl)
  have "res_inv B ?c" using inv h by (simp add: inv_defs)
  moreover have "spill_inv ?c"
    using inv h si r other s by (fastforce simp: inv_defs slots_inv_def sl)
  moreover have "flight_inv ?c"
    using inv q other s by (simp add: inv_defs work_def sl)
  moreover have "prespill_inv ?c" using inv by (simp add: inv_defs)
  moreover have "extent_view B ?c x = extent_view B c x" for x
  proof (cases "map_of (resident c) x")
    case None
    then have x: "x \<noteq> eo" using r by auto
    show ?thesis
    proof (cases "slot_data c x")
      case None
      then have "\<not> holds c x" using inv \<open>map_of (resident c) x = None\<close> by (auto simp: inv_defs)
      then have "slot_data ?c x = None"
        by (simp add: holds_def s slot_data_def spill_holds_def sl)
      with None show ?thesis by (intro extent_view_cong) simp_all
    qed (intro extent_view_cong, use other x in simp_all)
  qed (simp add: extent_view_def)
  ultimately show ?thesis using inv by (simp add: keeps_def cache_inv_def)
qed

text \<open>Taking a slot for an altered resident extent.\<close>

lemma slot_for_slots:
  assumes "slots_inv s" "EXTENT dvd eo" "slot_for s eo = (slot, s')"
  shows "slots_inv s'" "map_of (slots s') eo = Some slot" "spill_file s' = spill_file s"
    "eo' \<noteq> eo \<Longrightarrow> map_of (slots s') eo' = map_of (slots s) eo'"
    "map_of (slots s) eo = Some t \<Longrightarrow> s' = s \<and> slot = t"
proof -
  have *: "omap_ok (slots s)" using assms(1) by (simp add: slots_inv_def)
  show "slots_inv s'"
  proof (cases "map_of (slots s) eo")
    case None
    then have s': "s' = s\<lparr>slots := oinsert eo (next_slot s) (slots s), next_slot := Suc (next_slot s)\<rparr>"
      using assms(3) by (auto simp: slot_for_def)
    have fresh: "map_of (slots s) x \<noteq> Some (next_slot s)" for x
      using assms(1) by (auto simp: slots_inv_def)
    show ?thesis
      unfolding slots_inv_def s'
    proof (intro conjI allI impI)
      fix x t assume "map_of (slots (s\<lparr>slots := oinsert eo (next_slot s) (slots s),
          next_slot := Suc (next_slot s)\<rparr>)) x = Some t"
      then show "t < next_slot (s\<lparr>slots := oinsert eo (next_slot s) (slots s),
          next_slot := Suc (next_slot s)\<rparr>)" and "EXTENT dvd x"
        using assms(1,2) by (auto simp: omap_laws * slots_inv_def less_SucI split: if_splits)
    next
      fix x y t
      assume "map_of (slots (s\<lparr>slots := oinsert eo (next_slot s) (slots s),
          next_slot := Suc (next_slot s)\<rparr>)) x = Some t"
        and "map_of (slots (s\<lparr>slots := oinsert eo (next_slot s) (slots s),
          next_slot := Suc (next_slot s)\<rparr>)) y = Some t"
      then show "x = y"
        using assms(1) fresh by (auto simp: omap_laws * slots_inv_def split: if_splits)
    qed (simp add: omap_laws *)
  qed (use assms in \<open>auto simp: slot_for_def\<close>)
  show "map_of (slots s') eo = Some slot" "spill_file s' = spill_file s"
    "map_of (slots s) eo = Some t \<Longrightarrow> s' = s \<and> slot = t"
    using assms * by (auto simp: slot_for_def omap_laws split: option.splits)
  show "eo' \<noteq> eo \<Longrightarrow> map_of (slots s') eo' = map_of (slots s) eo'"
    using assms * by (auto simp: slot_for_def omap_laws split: option.splits)
qed

lemma spill_get_cong: "spill_file s' = spill_file s \<Longrightarrow> spill_get t s' = spill_get t s"
  by (simp add: spill_get_def)

lemma keeps_slot:
  assumes inv: "cache_inv B c" and s: "spill c = Some s" "slot_for s eo = (slot, s')"
    and r: "map_of (resident c) eo = Some e" "dirty e"
  shows "keeps B c (c\<lparr>spill := Some s'\<rparr>)"
proof -
  let ?c = "c\<lparr>spill := Some s'\<rparr>"
  have si: "slots_inv s" "EXTENT dvd eo" using inv s r by (auto simp: inv_defs)
  note new = slot_for_slots [OF si s(2)]
  have same: "slot_data ?c x = slot_data c x" if "x \<noteq> eo" for x
    using new(4) [OF that] s
    by (simp add: slot_data_def spill_get_cong [OF new(3)] split: option.split)
  have old: "slot_data ?c eo = Some ys" if "slot_data c eo = Some ys" for ys
    using that new(5) s by (auto simp: slot_data_def split: option.splits)
  have h: "holds ?c x = holds c x" if "x \<noteq> eo" for x
    using new(4) [OF that] s by (simp add: holds_def spill_holds_def)
  have "res_inv B ?c"
  proof -
    have "\<not> holds ?c x" if "map_of (resident c) x = Some a" "\<not> dirty a" for x a
    proof -
      have "x \<noteq> eo" using that r by auto
      moreover have "\<not> holds c x" using inv that by (auto simp: inv_defs)
      ultimately show ?thesis by (simp add: h)
    qed
    then show ?thesis using inv by (simp add: inv_defs)
  qed
  moreover have "spill_inv ?c"
  proof -
    have "slot_data ?c x \<noteq> None" if "holds ?c x" "map_of (resident c) x = None" for x
    proof -
      have "x \<noteq> eo" using that r by auto
      then show ?thesis using inv that same [of x] h [of x] by (simp add: inv_defs)
    qed
    then show ?thesis using new(1) by (simp add: spill_inv_def)
  qed
  moreover have "flight_inv ?c"
  proof -
    have "slot_data ?c x = Some ys" if "slot_data c x = Some ys" for x ys
      using same old that by (cases "x = eo") auto
    moreover have "map_of (slots s') x = Some t" if "map_of (slots s) x = Some t" for x t
      using new(4,5) that by (cases "x = eo") auto
    ultimately show ?thesis using inv s by (simp add: inv_defs work_def)
  qed
  moreover have "prespill_inv ?c" using inv by (simp add: inv_defs)
  moreover have "extent_view B ?c x = extent_view B c x" for x
  proof (cases "x = eo")
    case False
    then show ?thesis by (intro extent_view_cong) (simp_all add: same)
  qed (use r in \<open>simp add: extent_view_def\<close>)
  ultimately show ?thesis using inv by (simp add: keeps_def cache_inv_def)
qed

text \<open>Dropping a resident extent whose bytes are found beneath.\<close>

lemma keeps_drop:
  assumes inv: "cache_inv B c" and r: "map_of (resident c) eo = Some e"
    and f: "map_of (in_flight c) eo = None"
    and b: "\<not> dirty e \<or> slot_data c eo = Some (data e)"
  shows "keeps B c (c\<lparr>resident := oremove eo (resident c)\<rparr>)"
proof -
  let ?c = "c\<lparr>resident := oremove eo (resident c)\<rparr>"
  have sd: "slot_data ?c x = slot_data c x" and h: "holds ?c x = holds c x" for x
    by (simp_all add: slot_data_def holds_def)
  have nh: "\<not> dirty e \<Longrightarrow> data e = base_extent B eo \<and> \<not> holds c eo"
    using inv r by (auto simp: inv_defs)
  have "res_inv B ?c" using inv h by (auto simp: inv_defs omap_laws)
  moreover have "spill_inv ?c" using inv h sd b nh by (auto simp: inv_defs omap_laws)
  moreover have "flight_inv ?c"
    using inv f sd by (auto simp: inv_defs omap_laws work_def)
  moreover have "prespill_inv ?c" using inv by (auto simp: inv_defs omap_laws)
  moreover have "extent_view B ?c x = extent_view B c x" for x
  proof (cases "x = eo")
    case True
    have "slot_data c eo = None" if "\<not> dirty e"
      using nh that by (auto simp: slot_data_def holds_def spill_holds_def split: option.splits)
    then show ?thesis using True r sd b nh by (auto simp: extent_view_def omap_laws)
  qed (intro extent_view_cong, simp_all add: omap_laws sd)
  ultimately show ?thesis using inv by (simp add: keeps_def cache_inv_def)
qed

text \<open>Changes of fields the invariant only bounds.\<close>

text \<open>
  Only these fields matter to the invariant and to the abstraction, so changes elsewhere (the
  host's call count, the switch of the offloader) are quiet.
\<close>

lemma keeps_cong:
  assumes "cache_inv B c" "resident c' = resident c" "spill c' = spill c"
    "in_flight c' = in_flight c" "prespilled c' = prespilled c" "jobs c' = jobs c"
    "done_q c' = done_q c" "clock c \<le> clock c'" "bound c' = bound c" "host_ok c' = host_ok c"
    "offloader c \<longrightarrow> offloader c'"
  shows "keeps B c c'"
proof -
  have sd: "slot_data c' x = slot_data c x" and h: "holds c' x = holds c x" for x
    using assms(3) by (simp_all add: slot_data_def holds_def)
  have "extent_view B c' x = extent_view B c x" for x
    by (rule extent_view_cong) (simp_all add: assms(2) sd)
  moreover have "res_inv B c'"
    using assms(1,8) by (fastforce simp: cache_inv_def res_inv_def assms(2) h)
  moreover have "spill_inv c'"
    using assms(1) by (simp add: cache_inv_def spill_inv_def assms(2,3) h sd)
  moreover have "flight_inv c'"
    using assms(1,8,11) by (fastforce simp: cache_inv_def flight_inv_def work_def assms(2-7) sd)
  moreover have "prespill_inv c'"
    using assms(1,8) by (fastforce simp: cache_inv_def prespill_inv_def assms(2,5))
  ultimately show ?thesis
    using assms(1) by (simp add: keeps_def cache_inv_def assms(9,10))
qed

lemma keeps_host: "cache_inv B c \<Longrightarrow> keeps B c (c\<lparr>host_calls := n\<rparr>)"
  by (rule keeps_cong) simp_all

lemma keeps_tick: "cache_inv B c \<Longrightarrow> keeps B c (snd (tick c))"
  by (rule keeps_cong) (simp_all add: tick_def)

lemma keeps_spill_create:
  assumes "cache_inv B c" "spill_create c = (c', Inr s)"
  shows "keeps B c c' \<and> spill c' = Some s"
proof (cases "spill c")
  case None
  then have "host_ok c (host_calls c)" "s = spill_new"
    "c' = c\<lparr>host_calls := Suc (host_calls c), spill := Some spill_new\<rparr>"
    using assms by (auto simp: spill_create_def host_call_def split: if_splits)
  then have c': "resident c' = resident c" "in_flight c' = in_flight c" "jobs c' = jobs c"
    "prespilled c' = prespilled c" "done_q c' = done_q c" "clock c' = clock c"
    "bound c' = bound c" "host_ok c' = host_ok c" "offloader c' = offloader c"
    "spill c' = Some spill_new" and s: "s = spill_new" by auto
  have sd: "slot_data c' x = None" "slot_data c x = None" "\<not> holds c' x" "\<not> holds c x" for x
    using None by (simp_all add: slot_data_def holds_def c' spill_new_def spill_holds_def)
  have "extent_view B c' x = extent_view B c x" for x
    by (rule extent_view_cong) (simp_all add: c' sd)
  moreover have "slots_inv spill_new" by (simp add: slots_inv_def spill_new_def)
  moreover have "jobs c = []"
    using assms(1) None by (cases "jobs c") (auto simp: cache_inv_def flight_inv_def)
  ultimately show ?thesis
    using assms(1) by (simp add: keeps_def inv_defs sd c' s work_def)
qed (use assms in \<open>auto simp: spill_create_def keeps_refl\<close>)

section \<open>The worker\<close>

lemma keeps_worker_step:
  assumes inv: "cache_inv B c"
  shows "keeps B c (worker_step c)"
proof (cases "jobs c")
  case Nil
  then show ?thesis using inv by (simp add: worker_step_def keeps_refl)
next
  case (Cons j js)
  have j: "j \<in> set (jobs c)" by (simp add: Cons)
  obtain s where s: "spill c = Some s" "map_of (slots s) (job_offset j) = Some (job_slot j)"
    using flight_invD(7) [OF inv j] by blast
  note len = flight_invD(6) [OF inv j] and cur = flight_invD(8) [OF inv j]
  have fl: "(job_offset j, job_version j) \<in> set (in_flight c)"
    unfolding flight_invD(3) [OF inv, symmetric] by (simp add: work_def Cons)
  have res: "map_of (resident c) (job_offset j) \<noteq> None"
    using flight_invD(5) [OF inv fl] by auto
  have fresh: "\<forall>d \<in> set (done_q c). done_offset d \<noteq> job_offset j"
    using flight_invD(2) [OF inv] by (force simp: work_def Cons)
  define ok where "ok = host_ok c (host_calls c)"
  define c1 where "c1 = (if ok then c\<lparr>spill := Some (spill_put (job_slot j) (job_data j) s)\<rparr> else c)"
  have k1: "keeps B c c1"
    using keeps_put [OF inv s len res fresh] inv by (simp add: c1_def keeps_refl)
  define c2 where "c2 = c1\<lparr>jobs := js, done_q := done_q c1 @
      [\<lparr>done_offset = job_offset j, done_version = job_version j, done_ok = ok\<rparr>],
      host_calls := Suc (host_calls c)\<rparr>"
  have same: "resident c1 = resident c" "in_flight c1 = in_flight c" "jobs c1 = j # js"
    "done_q c1 = done_q c" "offloader c1 = offloader c" by (simp_all add: c1_def Cons)
  have sd: "slot_data c2 x = slot_data c1 x" and h: "holds c2 x = holds c1 x" for x
    by (simp_all add: c2_def slot_data_def holds_def)
  have sp: "spill c2 = spill c1" by (simp add: c2_def)
  have i1: "cache_inv B c1" using k1 by (rule keeps_inv)
  have ready: "slot_data c1 (job_offset j) = Some (job_data j)" if ok
    using that slot_data_put_same [OF s len] by (simp add: c1_def)
  have "flight_inv c2"
  proof -
    have "mset (work c2) = mset (work c1)" by (simp add: work_def c2_def same)
    then have "set (work c2) = set (work c1)" "distinct (map fst (work c2)) = distinct (map fst (work c1))"
      by (metis mset_eq_setD, metis mset_map mset_eq_imp_distinct_iff)
    note w = this
    show ?thesis
    proof (rule flight_inv_advance [OF i1])
      fix d e assume d: "d \<in> set (done_q c2)" "done_ok d"
        "map_of (resident c1) (done_offset d) = Some e" "version e = done_version d"
      show "slot_data c2 (done_offset d) = Some (data e)"
      proof (cases "d \<in> set (done_q c1)")
        case True
        then show ?thesis using flight_invD(9) [OF i1 True] d by (simp add: sd)
      next
        case False
        then have "done_offset d = job_offset j" "done_version d = job_version j" ok
          using d(1,2) by (auto simp: c2_def same)
        then show ?thesis using d(3,4) ready cur unfolding sd by (simp add: same)
      qed
    next
      show "set (work c2) = set (in_flight c2)" "distinct (map fst (work c2))" "omap_ok (in_flight c2)"
        using w flight_invD(1-3) [OF i1] by (simp_all add: c2_def)
    qed (auto simp: c2_def same)
  qed
  moreover have "res_inv B c2" "spill_inv c2" "prespill_inv c2"
    using i1 by (simp_all add: cache_inv_def res_inv_def spill_inv_def prespill_inv_def h sd)
      (simp_all add: c2_def)
  moreover have "extent_view B c2 x = extent_view B c1 x" for x
    by (rule extent_view_cong) (simp_all add: sd, simp add: c2_def)
  ultimately have "keeps B c1 c2" using i1 by (simp add: keeps_def cache_inv_def) (simp add: c2_def)
  moreover have "worker_step c = c2"
    by (simp add: worker_step_def Cons host_call_def c2_def c1_def ok_def s)
  ultimately show ?thesis using k1 keeps_trans by metis
qed

text \<open>
  Taking a completion off the queue: \<open>c\<close> is the state with the completion still at the head
  of the queue, so the invariant speaks of it.
\<close>

lemma keeps_apply_offload:
  assumes inv: "cache_inv B c" and q: "done_q c = d # ds"
  shows "keeps B c (apply_offload (c\<lparr>done_q := ds\<rparr>) d)"
proof -
  let ?o = "done_offset d"
  define c1 where "c1 = c\<lparr>done_q := ds, in_flight := oremove ?o (in_flight c)\<rparr>"
  have fl: "map_of (in_flight c) ?o = Some (done_version d)"
    using flight_invD(1,3) [OF inv] q by (auto simp: work_def simp flip: omap_in_set)
  obtain e where e: "map_of (resident c) ?o = Some e" "dirty e"
    using inv fl by (force simp: cache_inv_def flight_inv_def)
  have sd: "slot_data c1 x = slot_data c x" and h: "holds c1 x = holds c x" for x
    by (simp_all add: c1_def slot_data_def holds_def)
  have same: "resident c1 = resident c" "prespilled c1 = prespilled c" "spill c1 = spill c"
    "clock c1 = clock c" "bound c1 = bound c" "host_ok c1 = host_ok c" by (simp_all add: c1_def)
  have "flight_inv c1"
  proof -
    have w: "work c = (?o, done_version d) # work c1" by (simp add: work_def c1_def q)
    have "set (oremove ?o (in_flight c)) = {p \<in> set (work c). fst p \<noteq> ?o}"
      using flight_invD(3) [OF inv] by (auto simp: oremove_def)
    also have "\<dots> = set (work c1)"
      using flight_invD(2) [OF inv] w by force
    finally have "set (work c1) = set (in_flight c1)" by (simp add: c1_def)
    moreover have "distinct (map fst (work c1))" using flight_invD(2) [OF inv] w by simp
    moreover have "jobs c1 = jobs c" "set (done_q c1) \<subseteq> set (done_q c)"
      "set (in_flight c1) \<subseteq> set (in_flight c)" "offloader c1 = offloader c" "omap_ok (in_flight c1)"
      using flight_invD(1) [OF inv] q by (auto simp: c1_def oremove_def omap_laws)
    ultimately show ?thesis
    proof (intro flight_inv_advance [OF inv])
      fix d' e assume "d' \<in> set (done_q c1)" "done_ok d'"
        "map_of (resident c) (done_offset d') = Some e" "version e = done_version d'"
      moreover have "d' \<in> set (done_q c)" using calculation(1) q by (simp add: c1_def)
      ultimately show "slot_data c1 (done_offset d') = Some (data e)"
        using flight_invD(9) [OF inv, of d'] by (simp add: sd)
    qed (simp_all add: same)
  qed
  moreover have "res_inv B c1" "spill_inv c1" "prespill_inv c1"
    using inv by (simp_all add: cache_inv_def res_inv_def spill_inv_def prespill_inv_def h sd same)
  moreover have "extent_view B c1 x = extent_view B c x" for x
    by (rule extent_view_cong) (simp_all add: sd same)
  ultimately have k1: "keeps B c c1" using inv by (simp add: keeps_def cache_inv_def same)
  show ?thesis
  proof (cases "done_ok d \<and> version e = done_version d")
    case False
    then have "apply_offload (c\<lparr>done_q := ds\<rparr>) d = c1"
      using fl e by (auto simp: apply_offload_def Let_def c1_def)
    then show ?thesis using k1 by simp
  next
    case True
    then have ready: "slot_data c1 ?o = Some (data e)"
      using inv q e by (simp add: cache_inv_def flight_inv_def sd)
    have f1: "map_of (in_flight c1) ?o = None" by (simp add: c1_def omap_laws)
    define c2 where "c2 = c1\<lparr>resident := oremove ?o (resident c1)\<rparr>"
    have k2: "keeps B c1 c2"
      unfolding c2_def
      by (rule keeps_drop [OF keeps_inv [OF k1]]) (use e ready f1 same in auto)
    define c3 where "c3 = c2\<lparr>prespilled := oinsert ?o (done_version d) (prespilled c2)\<rparr>"
    have i2: "cache_inv B c2" using k2 by (rule keeps_inv)
    have "version e \<le> clock c" using inv e by (auto simp: cache_inv_def res_inv_def)
    then have "prespill_inv c3"
      using i2 True by (auto simp: cache_inv_def prespill_inv_def c3_def c2_def same omap_laws)
    moreover have "slot_data c3 x = slot_data c2 x" "holds c3 x = holds c2 x" for x
      by (simp_all add: c3_def slot_data_def holds_def)
    moreover have "extent_view B c3 x = extent_view B c2 x" for x
      by (rule extent_view_cong) (simp_all add: c3_def slot_data_def)
    moreover have "work c3 = work c2" by (simp add: c3_def work_def)
    ultimately have "keeps B c2 c3"
      using i2 by (simp add: keeps_def cache_inv_def res_inv_def spill_inv_def flight_inv_def)
        (simp add: c3_def)
    moreover have "apply_offload (c\<lparr>done_q := ds\<rparr>) d = c3"
      using fl e True by (simp add: apply_offload_def Let_def c1_def c2_def c3_def)
    ultimately show ?thesis using k1 k2 keeps_trans by metis
  qed
qed

lemma apply_offload_done_q:
  "apply_offload (c\<lparr>done_q := q\<rparr>) d = (apply_offload c d)\<lparr>done_q := q\<rparr>"
  by (simp add: apply_offload_def Let_def split: option.split)

lemma keeps_drain_fold:
  "cache_inv B c \<Longrightarrow> done_q c = ds \<Longrightarrow>
   keeps B c (fold (\<lambda>d c. apply_offload c d) ds (c\<lparr>done_q := []\<rparr>))"
proof (induction ds arbitrary: c)
  case Nil
  have "keeps B c (c\<lparr>done_q := []\<rparr>)"
    by (rule keeps_cong [OF Nil(1)]) (use Nil(2) in simp_all)
  then show ?case by simp
next
  case (Cons d ds)
  let ?c' = "apply_offload (c\<lparr>done_q := ds\<rparr>) d"
  have k: "keeps B c ?c'" by (rule keeps_apply_offload) (use Cons in simp_all)
  moreover have "done_q ?c' = ds" by (simp add: apply_offload_shrinks)
  ultimately have "keeps B ?c' (fold (\<lambda>d c. apply_offload c d) ds (?c'\<lparr>done_q := []\<rparr>))"
    using Cons.IH keeps_inv by blast
  then show ?case using k keeps_trans by (fastforce simp: apply_offload_done_q)
qed

lemma keeps_drain: "cache_inv B c \<Longrightarrow> keeps B c (drain_offloads c)"
  by (simp add: drain_offloads_def keeps_refl keeps_drain_fold)

text \<open>A worker with something in flight always has a completion to give.\<close>

lemma recv_done_Some:
  assumes inv: "cache_inv B c" and "in_flight c \<noteq> []"
  shows "recv_done c \<noteq> None"
proof -
  have "work c \<noteq> []" using flight_invD(3) [OF inv] assms(2) by auto
  then show ?thesis
    by (auto simp: recv_done_def worker_step_def host_call_def work_def Let_def split: list.splits)
qed

lemma keeps_join_one:
  assumes inv: "cache_inv B c" and f: "in_flight c \<noteq> []"
  shows "keeps B c (join_one c)"
proof -
  let ?c = "if done_q c = [] then worker_step c else c"
  have k: "keeps B c ?c" using inv by (simp add: keeps_worker_step keeps_refl)
  obtain d ds where q: "done_q ?c = d # ds"
    using recv_done_Some [OF inv f] by (auto simp: recv_done_def Let_def split: list.splits)
  have "join_one c = apply_offload (?c\<lparr>done_q := ds\<rparr>) d"
    using flight_invD(4) [OF inv f] q by (simp add: join_one_def recv_done_def Let_def)
  then show ?thesis
    using keeps_apply_offload [OF keeps_inv [OF k] q] k keeps_trans by metis
qed

lemma keeps_join_offloads:
  "cache_inv B c \<Longrightarrow> keeps B c (join_offloads c) \<and> in_flight (join_offloads c) = []"
proof (induction c rule: join_offloads.induct)
  case (1 c)
  show ?case
  proof (cases "in_flight c = []")
    case True
    then show ?thesis using "1.prems" by (simp add: join_offloads.simps [of c] keeps_refl)
  next
    case False
    then have k: "keeps B c (join_one c)" using "1.prems" by (rule keeps_join_one [rotated])
    then show ?thesis
      using "1.IH" [OF False] False keeps_trans [of B c "join_one c"] keeps_inv [of B c "join_one c"]
      by (simp add: join_offloads.simps [of c])
  qed
qed

section \<open>Eviction and loading\<close>

lemma spill_create_resident:
  "spill_create (c\<lparr>resident := R\<rparr>) = (case spill_create c of (c', r) \<Rightarrow> (c'\<lparr>resident := R\<rparr>, r))"
  by (simp add: spill_create_def host_call_def split: option.split)

lemma spill_write_resident:
  "spill_write (c\<lparr>resident := R\<rparr>) s eo bs =
     (case spill_write c s eo bs of (c', r) \<Rightarrow> (c'\<lparr>resident := R\<rparr>, r))"
  by (simp add: spill_write_def host_call_def Let_def split: prod.split)

lemma keeps_spill_write:
  assumes inv: "cache_inv B c" and r: "map_of (resident c) eo = Some e" "dirty e"
    and f: "map_of (in_flight c) eo = None" and s: "spill c = Some s"
    and w: "spill_write c s eo (data e) = (c', Inr u)"
  shows "keeps B c c' \<and> slot_data c' eo = Some (data e)"
proof -
  obtain slot s' where sf: "slot_for s eo = (slot, s')" by (cases "slot_for s eo")
  have dvd: "EXTENT dvd eo" and len: "length (data e) = EXTENT" and si: "slots_inv s"
    using inv r s by (auto simp: inv_defs)
  note new = slot_for_slots [OF si dvd sf]
  let ?c1 = "c\<lparr>spill := Some s'\<rparr>"
  let ?c2 = "?c1\<lparr>spill := Some (spill_put slot (data e) s')\<rparr>"
  have k1: "keeps B c ?c1" by (rule keeps_slot [OF inv s sf r])
  have "eo \<notin> fst ` set (work c)"
    using f flight_invD(3) [OF inv] by (simp add: map_of_eq_None_iff)
  then have fresh: "\<forall>d \<in> set (done_q ?c1). done_offset d \<noteq> eo" by (force simp: work_def)
  have k2: "keeps B ?c1 ?c2"
    by (rule keeps_put [OF keeps_inv [OF k1] _ new(2) len _ fresh]) (use r in simp_all)
  have ready: "slot_data ?c2 eo = Some (data e)"
    by (rule slot_data_put_same [OF _ new(2) len]) simp
  have c': "c' = ?c2\<lparr>host_calls := Suc (host_calls c)\<rparr>"
    using w sf by (auto simp: spill_write_def host_call_def Let_def split: if_splits)
  have "keeps B ?c2 c'" unfolding c' by (rule keeps_host [OF keeps_inv [OF k2]])
  then show ?thesis
    using k1 k2 keeps_trans ready by (metis c' slot_data_cong select_convs(4) surjective update_convs(12))
qed

text \<open>The outcomes of an eviction.\<close>

lemma evict_one_cases:
  assumes ev: "evict_one c = (c', r)"
  obtains
    (clean) eo e where "(eo, e) \<in> set (resident c)" "\<not> dirty e" "r = Inr ()"
      "c' = c\<lparr>resident := oremove eo (resident c)\<rparr>"
  | (joined) "\<And>eo e. (eo, e) \<in> set (resident c) \<Longrightarrow> map_of (in_flight c) eo \<noteq> None"
      "c' = join_one c" "r = Inr ()"
  | (ready) eo e where "(eo, e) \<in> set (resident c)" "map_of (prespilled c) eo = Some (version e)"
      "c' = c\<lparr>resident := oremove eo (resident c), prespilled := oremove eo (prespilled c)\<rparr>" "r = Inr ()"
  | (refused) eo e c2 err where "(eo, e) \<in> set (resident c)" "spill_create c = (c2, Inl err)"
      "c' = c2\<lparr>resident := oremove eo (resident c)\<rparr>" "r = Inl err"
  | (spilled) eo e c2 s c3 where "(eo, e) \<in> set (resident c)" "dirty e"
      "map_of (in_flight c) eo = None" "spill_create c = (c2, Inr s)"
      "spill_write c2 s eo (data e) = (c3, r)" "c' = c3\<lparr>resident := oremove eo (resident c)\<rparr>"
proof (cases "least_used (filter (\<lambda>(eo, e). \<not> dirty e) (resident c))")
  case (Some p)
  obtain eo e where p: "p = (eo, e)" by (cases p)
  show thesis
    by (rule clean [of eo e]) (use least_used_filter [OF Some] Some p ev in \<open>auto simp: evict_one_def\<close>)
next
  case no_clean: None
  then have all_dirty: "\<And>eo e. (eo, e) \<in> set (resident c) \<Longrightarrow> dirty e"
    by (auto simp: least_used_None filter_empty_conv)
  show thesis
  proof (cases "least_used (filter (\<lambda>(eo, e). map_of (in_flight c) eo = None) (resident c))")
    case None
    then have "\<And>eo e. (eo, e) \<in> set (resident c) \<Longrightarrow> map_of (in_flight c) eo \<noteq> None"
      by (auto simp: least_used_None filter_empty_conv)
    then show thesis using joined no_clean None ev by (simp add: evict_one_def)
  next
    case (Some p)
    obtain eo e where p: "p = (eo, e)" by (cases p)
    have e: "(eo, e) \<in> set (resident c)" and f: "map_of (in_flight c) eo = None"
      using least_used_filter [OF Some] p by auto
    let ?R = "oremove eo (resident c)"
    have eq: "(c', r) =
       (if map_of (prespilled c) eo = Some (version e)
        then (c\<lparr>resident := ?R, prespilled := oremove eo (prespilled c)\<rparr>, Inr ())
        else case spill_create (c\<lparr>resident := ?R\<rparr>) of
               (c2, Inl err) \<Rightarrow> (c2, Inl err) | (c2, Inr s) \<Rightarrow> spill_write c2 s eo (data e))"
      using ev [symmetric] no_clean Some p by (simp add: evict_one_def Let_def)
    show thesis
    proof (cases "map_of (prespilled c) eo = Some (version e)")
      case True
      then show thesis using ready e eq by simp
    next
      case False
      obtain c2 x where sc: "spill_create c = (c2, x)" by (cases "spill_create c")
      then have sc': "spill_create (c\<lparr>resident := ?R\<rparr>) = (c2\<lparr>resident := ?R\<rparr>, x)"
        by (simp add: spill_create_resident)
      show thesis
      proof (cases x)
        case (Inl err)
        then show thesis using refused e sc sc' eq False by simp
      next
        case (Inr s)
        obtain c3 y where "spill_write c2 s eo (data e) = (c3, y)"
          by (cases "spill_write c2 s eo (data e)")
        then show thesis
          using spilled [of eo e c2 s c3] e f all_dirty sc sc' eq False Inr
          by (simp add: spill_write_resident)
      qed
    qed
  qed
qed

lemma keeps_evict_one:
  assumes inv: "cache_inv B c" and ne: "resident c \<noteq> []" and ev: "evict_one c = (c', Inr u)"
  shows "keeps B c c'"
  using ev
proof (cases rule: evict_one_cases)
  case (clean eo e)
  then have m: "map_of (resident c) eo = Some e" using inv by (simp add: inv_defs omap_in_set)
  have "map_of (in_flight c) eo = None"
    using flight_invD(5) [OF inv, of eo] m clean(2)
    by (cases "map_of (in_flight c) eo") (auto dest: map_of_SomeD)
  then show ?thesis using keeps_drop [OF inv m] clean by simp
next
  case joined
  obtain eo e where "(eo, e) \<in> set (resident c)" using ne by (cases "resident c") fastforce+
  then have "in_flight c \<noteq> []" using joined(1) by fastforce
  then show ?thesis using keeps_join_one [OF inv] joined by simp
next
  case (ready eo e)
  then have "map_of (resident c) eo = Some e" using inv by (simp add: inv_defs omap_in_set)
  then show ?thesis using inv ready by (auto simp: cache_inv_def prespill_inv_def)
next
  case (spilled eo e c2 s c3)
  then have m: "map_of (resident c) eo = Some e" using inv by (simp add: inv_defs omap_in_set)
  have k1: "keeps B c c2" and s2: "spill c2 = Some s"
    using keeps_spill_create [OF inv spilled(4)] by auto
  have fr: "resident c2 = resident c" "in_flight c2 = in_flight c"
    using spill_create_frame [OF spilled(4)] by auto
  have k2: "keeps B c2 c3" and at: "slot_data c3 eo = Some (data e)"
    using keeps_spill_write [OF keeps_inv [OF k1] _ spilled(2) _ s2 spilled(5)] m spilled(3) fr by auto
  have fr3: "resident c3 = resident c" "in_flight c3 = in_flight c"
    using spill_write_frame [OF spilled(5)] fr by auto
  have "keeps B c3 c'"
    using keeps_drop [OF keeps_inv [OF k2], of eo e] m spilled(3,6) at fr3 by simp
  then show ?thesis using k1 k2 keeps_trans by blast
qed simp

lemma keeps_make_room:
  "cache_inv B c \<Longrightarrow> make_room c = (c', Inr u) \<Longrightarrow> keeps B c c'"
proof (induction c rule: make_room.induct)
  case (1 c)
  show ?case
  proof (cases "bound c \<le> length (resident c) \<and> resident c \<noteq> []")
    case True
    then obtain c1 v where ev: "evict_one c = (c1, Inr v)" and m: "make_room c1 = (c', Inr u)"
      using "1.prems"(2) by (auto simp: make_room.simps [of c] split: prod.splits sum.splits)
    have k: "keeps B c c1" using keeps_evict_one [OF "1.prems"(1) _ ev] True by blast
    have "keeps B c1 c'"
      by (rule "1.IH" [OF True ev [symmetric] refl keeps_inv [OF k] m])
    then show ?thesis using k keeps_trans by blast
  next
    case False
    then show ?thesis using "1.prems" by (auto simp: make_room.simps [of c] keeps_refl)
  qed
qed

end
