(* ===== verification/Cache_Ops.thy ===== *)
theory Cache_Ops
  imports Cache_Proofs
begin

text \<open>
  Reads, writes, prefetch, offload, commit and rollback of the session cache against the
  abstraction of \<open>Cache_Proofs\<close>. What a cache needs of the device beneath is the locale
  \<open>cache_base\<close>; the plain image and the raw file beneath a capture are its interpretations, and
  the cache over an image is itself a \<open>block_device\<close>.
\<close>

lemma res_invD:
  assumes "cache_inv B c" "map_of (resident c) x = Some e"
  shows "EXTENT dvd x" "length (data e) = EXTENT" "version e \<le> clock c"
    "\<not> dirty e \<Longrightarrow> data e = base_extent B x" "\<not> dirty e \<Longrightarrow> \<not> holds c x"
  using assms by (auto simp: cache_inv_def res_inv_def)

lemma prespill_invD:
  assumes "cache_inv B c" "map_of (prespilled c) x = Some v"
  shows "v \<le> clock c" "map_of (resident c) x = Some e \<Longrightarrow> v < version e"
  using assms by (auto simp: cache_inv_def prespill_inv_def)

lemma spill_invD:
  assumes "cache_inv B c"
  shows "spill c = Some s \<Longrightarrow> slots_inv s"
    "holds c x \<Longrightarrow> map_of (resident c) x = None \<Longrightarrow> slot_data c x \<noteq> None"
  using assms by (auto simp: cache_inv_def spill_inv_def)

lemma omap_okD:
  assumes "cache_inv B c"
  shows "omap_ok (resident c)" "omap_ok (in_flight c)" "omap_ok (prespilled c)"
  using assms by (auto simp: inv_defs)

section \<open>Loading an extent\<close>

text \<open>A resident, untouched extent at \<open>eo\<close>, holding what was presented there.\<close>

lemma keeps_install:
  assumes inv: "cache_inv B c" and nr: "map_of (resident c) eo = None" and dvd: "EXTENT dvd eo"
    and bs: "bs = extent_view B c eo" and d: "d \<longleftrightarrow> holds c eo"
    and u: "tick c = (u, c1)"
    and c'_def: "c' = c1\<lparr>resident := oinsert eo \<lparr>data = bs, dirty = d, used = u, version = u\<rparr>
            (resident c1)\<rparr>"
  shows "keeps B c c'"
proof -
  let ?e = "\<lparr>data = bs, dirty = d, used = u, version = u\<rparr>"
  have same: "in_flight c' = in_flight c" "jobs c' = jobs c" "done_q c' = done_q c"
    "offloader c' = offloader c" "spill c' = spill c" "prespilled c' = prespilled c"
    "bound c' = bound c" "host_ok c' = host_ok c" and clk: "clock c' = u" "u = Suc (clock c)"
    and r': "resident c' = oinsert eo ?e (resident c)"
    using u c'_def by (auto simp: tick_def)
  have ok: "omap_ok (resident c)" using inv by (simp add: inv_defs)
  have res: "map_of (resident c') = (map_of (resident c))(eo \<mapsto> ?e)"
    by (simp add: r' map_of_oinsert [OF ok])
  have sd: "slot_data c' x = slot_data c x" and h: "holds c' x = holds c x" for x
    by (simp_all add: same slot_data_def holds_def)
  have sh: "slot_data c eo = None" if "\<not> holds c eo"
    using that by (auto simp: slot_data_def holds_def spill_holds_def split: option.splits)
  have "res_inv B c'"
    unfolding res_inv_def res
  proof (intro conjI allI impI)
    fix x e assume "((map_of (resident c))(eo \<mapsto> ?e)) x = Some e"
    then consider "x = eo" "e = ?e" | "x \<noteq> eo" "map_of (resident c) x = Some e"
      by (auto split: if_splits)
    note c = this
    show "EXTENT dvd x" "length (data e) = EXTENT" "version e \<le> clock c'"
      using c dvd length_extent_view [OF inv] res_invD(1-3) [OF inv, of x e]
      by (cases; simp add: clk bs)+
    show "data e = base_extent B x" if "\<not> dirty e"
      using c that res_invD(4) [OF inv, of x e] nr sh d
      by cases (simp_all add: bs extent_view_def)
    show "\<not> holds c' x" if "\<not> dirty e"
      using c that res_invD(5) [OF inv, of x e] d unfolding h by cases simp_all
  qed (simp add: r' omap_ok_oinsert [OF ok])
  moreover have "spill_inv c'"
    unfolding spill_inv_def h sd res using spill_invD [OF inv] by (auto simp: same split: if_splits)
  moreover have "flight_inv c'"
  proof -
    have notin: "eo \<notin> fst ` set (work c)"
      using flight_invD(3,5) [OF inv] nr by fastforce
    have jo: "job_offset j \<noteq> eo" if "j \<in> set (jobs c)" for j
      using notin that by (force simp: work_def)
    have do: "done_offset q \<noteq> eo" if "q \<in> set (done_q c)" for q
      using notin that by (force simp: work_def)
    have w: "work c' = work c" by (simp add: same work_def)
    have fo: "x \<noteq> eo" if "(x, v) \<in> set (in_flight c)" for x v
      using notin that flight_invD(3) [OF inv] by force
    show ?thesis
      using flight_invD [OF inv] jo do fo
      by (intro flight_invI) (simp_all add: w sd res same fo clk le_SucI)
  qed
  moreover have "prespill_inv c'"
    unfolding prespill_inv_def res
    using prespill_invD [OF inv] omap_okD(3) [OF inv] by (auto simp: same clk le_SucI less_Suc_eq_le)
  moreover have "extent_view B c' x = extent_view B c x" for x
  proof (cases "x = eo")
    case True
    then show ?thesis by (simp add: extent_view_def res bs)
  next
    case False
    then show ?thesis by (intro extent_view_cong) (simp_all add: res sd)
  qed
  ultimately show ?thesis using inv by (simp add: keeps_def cache_inv_def same)
qed

section \<open>Eviction only removes\<close>

lemma apply_offload_subset: "set (resident (apply_offload c d)) \<subseteq> set (resident c)"
  by (auto simp: apply_offload_def Let_def oremove_def split: option.splits)

lemma recv_done_resident: "recv_done c = Some (d, c') \<Longrightarrow> resident c' = resident c"
  by (auto simp: recv_done_def Let_def split: list.splits if_splits)

lemma join_one_subset: "set (resident (join_one c)) \<subseteq> set (resident c)"
proof (cases "offloader c \<and> recv_done c \<noteq> None")
  case True
  then obtain d c' where p: "recv_done c = Some (d, c')" by auto
  have "set (resident (apply_offload c' d)) \<subseteq> set (resident c)"
    using apply_offload_subset [of c' d] by (simp only: recv_done_resident [OF p])
  then show ?thesis using True p by (simp add: join_one_def)
qed (cases "recv_done c"; auto simp: join_one_def)

lemma evict_one_subset:
  assumes "evict_one c = (c', r)"
  shows "set (resident c') \<subseteq> set (resident c)"
  using assms
proof (cases rule: evict_one_cases)
  case joined
  then show ?thesis using join_one_subset by simp
qed (auto simp: oremove_def)

lemma make_room_absent:
  "make_room c = (c', Inr u) \<Longrightarrow> map_of (resident c) eo = None \<Longrightarrow> map_of (resident c') eo = None"
proof (induction c rule: make_room.induct)
  case (1 c)
  show ?case
  proof (cases "bound c \<le> length (resident c) \<and> resident c \<noteq> []")
    case True
    then obtain c1 v where ev: "evict_one c = (c1, Inr v)" and m: "make_room c1 = (c', Inr u)"
      using "1.prems"(1) by (auto simp: make_room.simps [of c] split: prod.splits sum.splits)
    have "map_of (resident c1) eo = None"
      using evict_one_subset [OF ev] "1.prems"(2) by (auto simp: map_of_eq_None_iff)
    then show ?thesis using "1.IH" [OF True ev [symmetric] refl m] by blast
  qed (use "1.prems" in \<open>auto simp: make_room.simps [of c]\<close>)
qed

section \<open>The device beneath\<close>

locale cache_base =
  fixes base_len :: nat
    and base_read :: "nat \<Rightarrow> nat \<Rightarrow> bytes result"
    and B :: bytes
  assumes base_len: "base_len = length B"
    and base_read: "off + n \<le> length B \<Longrightarrow> base_read off n = Inr (slice off n B)"
begin

lemma load_base_eq: "load_base base_len base_read eo = Inr (base_extent B eo, False)"
proof (cases "eo < length B")
  case True
  let ?n = "min (length B - eo) EXTENT"
  have sl: "slice eo ?n B = slice eo EXTENT B"
    by (simp add: slice_def min_def)
  have "base_read eo ?n = Inr (slice eo EXTENT B)"
    by (subst base_read) (use True sl in auto)
  then show ?thesis
    using True by (simp add: load_base_def base_len base_extent_def min_def)
next
  case False
  then have "slice eo EXTENT B = []" by (simp add: slice_def)
  with False show ?thesis by (simp add: load_base_def base_len base_extent_def)
qed

lemma load_extent_Inr:
  assumes inv: "cache_inv B c" and nr: "map_of (resident c) eo = None"
    and l: "load_extent base_len base_read c eo = (c', Inr (bs, d))"
  shows "keeps B c c' \<and> bs = extent_view B c eo \<and> (d \<longleftrightarrow> holds c eo) \<and> resident c' = resident c \<and>
     spill c' = spill c"
proof (cases "holds c eo")
  case True
  then obtain s where s: "spill c = Some s" "spill_holds s eo"
    by (auto simp: holds_def split: option.splits)
  obtain slot where slot: "map_of (slots s) eo = Some slot" using s(2) by (auto simp: spill_holds_def)
  have c': "c' = c\<lparr>host_calls := Suc (host_calls c)\<rparr>" and b: "spill_get slot s = Some bs" and d: d
    using l s slot
    by (auto simp: load_extent_def spill_read_def host_call_def rbind_Inr_iff split: option.splits if_splits)
  have "bs = extent_view B c eo" using nr s slot b by (simp add: extent_view_def slot_data_def)
  then show ?thesis using keeps_host [OF inv] c' d True by auto
next
  case False
  then have "c' = c" "bs = base_extent B eo" "\<not> d"
    using l by (auto simp: load_extent_def holds_def load_base_eq split: option.splits)
  moreover have "slot_data c eo = None"
    using False by (auto simp: slot_data_def holds_def spill_holds_def split: option.splits)
  ultimately show ?thesis
    using keeps_refl [OF inv] nr False by (simp add: extent_view_def)
qed

lemma keeps_ensure_resident:
  assumes inv: "cache_inv B c" and dvd: "EXTENT dvd eo"
    and e: "ensure_resident base_len base_read c eo = (c', Inr u)"
  shows "keeps B c c' \<and> map_of (resident c') eo \<noteq> None"
proof (cases "map_of (resident c) eo")
  case (Some _)
  then show ?thesis using e inv by (auto simp: ensure_resident_def keeps_refl)
next
  case None
  obtain c1 v c2 bs d where m: "make_room c = (c1, Inr v)"
    and l: "load_extent base_len base_read c1 eo = (c2, Inr (bs, d))"
    and c': "c' = (snd (tick c2))\<lparr>resident := oinsert eo \<lparr>data = bs, dirty = d, used = fst (tick c2),
        version = fst (tick c2)\<rparr> (resident (snd (tick c2)))\<rparr>"
    using e None by (auto simp: ensure_resident_def sbind_Inr_iff tick_def)
  have k1: "keeps B c c1" by (rule keeps_make_room [OF inv m])
  have nr: "map_of (resident c1) eo = None" by (rule make_room_absent [OF m None])
  have k2: "keeps B c1 c2" and bs: "bs = extent_view B c1 eo" and d: "d \<longleftrightarrow> holds c1 eo"
    and fr: "resident c2 = resident c1" "spill c2 = spill c1"
    using load_extent_Inr [OF keeps_inv [OF k1] nr l] by auto
  have "keeps B c2 c'"
  proof (rule keeps_install [OF keeps_inv [OF k2] _ dvd])
    show "map_of (resident c2) eo = None" using nr fr by simp
    show "bs = extent_view B c2 eo" using k2 bs by (simp add: keeps_def)
    show "d \<longleftrightarrow> holds c2 eo" using d fr by (simp add: holds_def)
    show "tick c2 = (fst (tick c2), snd (tick c2))" by simp
  qed (simp add: c')
  then have "keeps B c c'" by (rule keeps_trans [OF keeps_trans [OF k1 k2]])
  moreover have "omap_ok (resident c2)" using keeps_inv [OF k2] by (rule omap_okD)
  then have "map_of (resident c') eo \<noteq> None" by (simp add: c' tick_def map_of_oinsert)
  ultimately show ?thesis by blast
qed

end

section \<open>The bytes presented\<close>

definition cell :: "bytes \<Rightarrow> cache \<Rightarrow> nat \<Rightarrow> u8" where
  "cell B c i = extent_view B c (i div EXTENT * EXTENT) ! (i mod EXTENT)"

lemma cell_in_extent:
  assumes "EXTENT dvd eo" "eo \<le> i" "i < eo + EXTENT"
  shows "cell B c i = extent_view B c eo ! (i - eo)"
proof -
  obtain k where k: "eo = EXTENT * k" using assms(1) by (rule dvdE)
  define r where "r = i - eo"
  have r: "i = r + EXTENT * k" "r < EXTENT" using assms k by (auto simp: r_def)
  have "i div EXTENT = k" "i mod EXTENT = r" using r EXTENT_pos by simp_all
  then show ?thesis by (simp add: cell_def k r_def mult.commute)
qed

lemma keeps_cell: "keeps B c c' \<Longrightarrow> cell B c' i = cell B c i"
  by (simp add: keeps_def cell_def)

lemma slice_as_map:
  assumes "length xs = n" "eo \<le> lo" "hi \<le> eo + n"
  shows "slice (lo - eo) (hi - lo) xs = map (\<lambda>i. xs ! (i - eo)) [lo..<hi]"
  using assms by (intro nth_equalityI) (auto simp: slice_def)

lemma upt_split: "lo \<le> hi \<Longrightarrow> hi \<le> n \<Longrightarrow> [lo..<n] = [lo..<hi] @ [hi..<n]"
  using upt_add_eq_append [of lo hi "n - hi"] by simp

section \<open>Touching and altering a resident extent\<close>

text \<open>
  One lemma for both: extent \<open>eo\<close> is replaced by an altered one stamped with the new clock, or
  by itself with another recency stamp.
\<close>

lemma restamp_inv:
  assumes inv: "cache_inv B c" and m: "map_of (resident c) eo = Some e"
    and t: "tick c = (u, c1)" and c': "c' = c1\<lparr>resident := oinsert eo e' (resident c1)\<rparr>"
    and e': "length (data e') = EXTENT"
      "(version e' = version e \<and> data e' = data e \<and> dirty e' = dirty e) \<or> (version e' = u \<and> dirty e')"
  shows "cache_inv B c'" "host_ok c' = host_ok c" "map_of (resident c') eo = Some e'"
    "x \<noteq> eo \<Longrightarrow> extent_view B c' x = extent_view B c x" "extent_view B c' eo = data e'"
proof -
  have same: "in_flight c' = in_flight c" "jobs c' = jobs c" "done_q c' = done_q c"
    "offloader c' = offloader c" "spill c' = spill c" "prespilled c' = prespilled c"
    "bound c' = bound c" "host_ok c' = host_ok c" and clk: "clock c' = u" "u = Suc (clock c)"
    and r': "resident c' = oinsert eo e' (resident c)"
    using t c' by (auto simp: tick_def)
  note ok = omap_okD(1) [OF inv]
  have res: "map_of (resident c') = (map_of (resident c))(eo \<mapsto> e')"
    by (simp add: r' map_of_oinsert [OF ok])
  have sd: "slot_data c' y = slot_data c y" and h: "holds c' y = holds c y" for y
    by (simp_all add: same slot_data_def holds_def)
  have w: "work c' = work c" by (simp add: same work_def)
  have old: "v \<le> clock c" if "(eo, v) \<in> set (work c)" for v
    using that flight_invD(3,5) [OF inv] by blast
  show "host_ok c' = host_ok c" "map_of (resident c') eo = Some e'" by (simp_all add: same res)
  show "extent_view B c' eo = data e'" by (simp add: extent_view_def res)
  show "extent_view B c' x = extent_view B c x" if "x \<noteq> eo"
    by (rule extent_view_cong) (simp_all add: res sd that)
  have "res_inv B c'"
    unfolding res_inv_def res
  proof (intro conjI allI impI)
    fix y a assume "((map_of (resident c))(eo \<mapsto> e')) y = Some a"
    then consider "y = eo" "a = e'" | "y \<noteq> eo" "map_of (resident c) y = Some a"
      by (auto split: if_splits)
    note k = this
    show "EXTENT dvd y" "length (data a) = EXTENT" "version a \<le> clock c'"
      using k e' res_invD(1-3) [OF inv, of y a] res_invD(1,3) [OF inv m] by (cases; auto simp: clk)+
    show "data a = base_extent B y" "\<not> holds c' y" if "\<not> dirty a"
      unfolding h using k that e' res_invD(4,5) [OF inv, of y a] res_invD(4,5) [OF inv m] by (cases; auto)+
  qed (simp add: r' omap_ok_oinsert [OF ok])
  moreover have "spill_inv c'"
    unfolding spill_inv_def h sd res using spill_invD [OF inv] by (auto simp: same split: if_splits)
  moreover have "flight_inv c'"
  proof (rule flight_invI)
    fix y v assume a: "(y, v) \<in> set (in_flight c')"
    then have b: "v \<le> clock c" "\<exists>a. map_of (resident c) y = Some a \<and> dirty a"
      using flight_invD(5) [OF inv] by (auto simp: same)
    then show "v \<le> clock c' \<and> (\<exists>a. map_of (resident c') y = Some a \<and> dirty a)"
      using e' m by (auto simp: clk res)
  next
    fix j a assume j: "j \<in> set (jobs c')"
    then have j': "j \<in> set (jobs c)" by (simp add: same)
    show "length (job_data j) = EXTENT" by (rule flight_invD(6) [OF inv j'])
    show "\<exists>s. spill c' = Some s \<and> map_of (slots s) (job_offset j) = Some (job_slot j)"
      using flight_invD(7) [OF inv j'] by (simp add: same)
    assume a: "map_of (resident c') (job_offset j) = Some a" "version a = job_version j"
    show "job_data j = data a"
    proof (cases "job_offset j = eo")
      case True
      then have "job_version j \<le> clock c" using old j' by (force simp: work_def)
      then show ?thesis
        using a True e' m flight_invD(8) [OF inv j', of e] by (auto simp: res clk)
    next
      case False
      then show ?thesis using a flight_invD(8) [OF inv j'] by (simp add: res)
    qed
  next
    fix d a assume d: "d \<in> set (done_q c')" and o: "done_ok d"
      and a: "map_of (resident c') (done_offset d) = Some a" "version a = done_version d"
    have d': "d \<in> set (done_q c)" using d by (simp add: same)
    show "slot_data c' (done_offset d) = Some (data a)"
    proof (cases "done_offset d = eo")
      case True
      then have "done_version d \<le> clock c" using old d' by (force simp: work_def)
      then show ?thesis
        using a True e' m flight_invD(9) [OF inv d' o, of e] by (auto simp: res clk sd)
    next
      case False
      then show ?thesis using a flight_invD(9) [OF inv d' o] by (simp add: res sd)
    qed
  qed (use flight_invD [OF inv] in \<open>simp_all add: same w\<close>)
  moreover have "prespill_inv c'"
    unfolding prespill_inv_def res
    using prespill_invD [OF inv] omap_okD(3) [OF inv] e' m
    by (auto simp: same clk le_SucI less_Suc_eq_le)
  ultimately show "cache_inv B c'" using inv by (simp add: cache_inv_def same)
qed

lemma keeps_touch:
  assumes inv: "cache_inv B c" and m: "map_of (resident c) eo = Some e"
    and t: "touch_extent c eo = (c', e')"
  shows "keeps B c c' \<and> data e' = data e"
proof -
  have e': "e' = e\<lparr>used := fst (tick c)\<rparr>"
    and c': "c' = (snd (tick c))\<lparr>resident := oinsert eo e' (resident (snd (tick c)))\<rparr>"
    using t m by (auto simp: touch_extent_def tick_def Let_def)
  have l: "length (data e') = EXTENT" using res_invD(2) [OF inv m] by (simp add: e')
  have "(version e' = version e \<and> data e' = data e \<and> dirty e' = dirty e) \<or>
      (version e' = fst (tick c) \<and> dirty e')" by (simp add: e')
  note r = restamp_inv [OF inv m surjective_pairing c' l this]
  have "extent_view B c' x = extent_view B c x" for x
    using r(4) [of x] r(5) m by (cases "x = eo") (simp add: e' extent_view_def, blast)
  then show ?thesis using r(1,2) by (simp add: keeps_def e')
qed

lemma alter_extent_view:
  assumes inv: "cache_inv B c" and m: "map_of (resident c) eo \<noteq> None"
    and f: "at + length bs \<le> EXTENT"
  shows "cache_inv B (alter_extent c eo at bs)" "host_ok (alter_extent c eo at bs) = host_ok c"
    "extent_view B (alter_extent c eo at bs) x =
       (if x = eo then splice at bs (extent_view B c eo) else extent_view B c x)"
proof -
  obtain e where e: "map_of (resident c) eo = Some e" using m by auto
  let ?e = "e\<lparr>used := fst (tick c), dirty := True, version := fst (tick c), data := splice at bs (data e)\<rparr>"
  have c': "alter_extent c eo at bs =
      (snd (tick c))\<lparr>resident := oinsert eo ?e (resident (snd (tick c)))\<rparr>"
    using e by (simp add: alter_extent_def tick_def Let_def)
  have l: "length (data ?e) = EXTENT" using res_invD(2) [OF inv e] f by simp
  have "(version ?e = version e \<and> data ?e = data e \<and> dirty ?e = dirty e) \<or>
      (version ?e = fst (tick c) \<and> dirty ?e)" by simp
  note r = restamp_inv [OF inv e surjective_pairing c' l this]
  show "cache_inv B (alter_extent c eo at bs)" "host_ok (alter_extent c eo at bs) = host_ok c"
    using r(1,2) by simp_all
  show "extent_view B (alter_extent c eo at bs) x =
       (if x = eo then splice at bs (extent_view B c eo) else extent_view B c x)"
    using r(4) [of x] r(5) e by (cases "x = eo") (simp_all add: extent_view_def [of _ c eo])
qed

section \<open>Reads and writes\<close>

context cache_base
begin

lemma read_loop_Inr:
  assumes "cache_inv B c" "EXTENT dvd eo" "offset < eo + EXTENT" "offset \<le> finish"
    and "read_loop base_len base_read offset finish c eo = (c', Inr bs)"
  shows "keeps B c c' \<and> bs = map (cell B c) [max eo offset..<finish]"
  using assms
proof (induction "finish - eo" arbitrary: c eo c' bs rule: less_induct)
  case less
  note unfold = read_loop.simps [of base_len base_read offset finish c eo]
  show ?case
  proof (cases "eo < finish")
    case False
    then show ?thesis using less.prems unfold by (auto simp: keeps_refl)
  next
    case True
    let ?lo = "max eo offset" and ?hi = "min (eo + EXTENT) finish"
    obtain c1 v c2 e rest where r1: "ensure_resident base_len base_read c eo = (c1, Inr v)"
      and t: "touch_extent c1 eo = (c2, e)"
      and r2: "read_loop base_len base_read offset finish c2 (eo + EXTENT) = (c', Inr rest)"
      and bs: "bs = slice (?lo - eo) (?hi - ?lo) (data e) @ rest"
      using less.prems(5) True unfold by (auto split: prod.splits sum.splits simp: Let_def)
    have k1: "keeps B c c1" and m: "map_of (resident c1) eo \<noteq> None"
      using keeps_ensure_resident [OF less.prems(1,2) r1] by auto
    obtain e0 where e0: "map_of (resident c1) eo = Some e0" using m by auto
    have k2: "keeps B c1 c2" and de: "data e = data e0"
      using keeps_touch [OF keeps_inv [OF k1] e0 t] by auto
    have k12: "keeps B c c2" using k1 k2 by (rule keeps_trans)
    have k3: "keeps B c2 c' \<and> rest = map (cell B c2) [max (eo + EXTENT) offset..<finish]"
    proof (rule less.hyps [OF _ keeps_inv [OF k2] _ _ less.prems(4) r2])
      show "finish - (eo + EXTENT) < finish - eo" using True by (intro diff_less_mono2) auto
    qed (use less.prems(2,3) in auto)
    have "data e = extent_view B c1 eo" using de e0 by (simp add: extent_view_def)
    then have de': "data e = extent_view B c eo" using k1 by (simp add: keeps_def)
    have len: "length (data e) = EXTENT" using length_extent_view [OF less.prems(1)] de' by simp
    have "slice (?lo - eo) (?hi - ?lo) (data e) = map (\<lambda>i. data e ! (i - eo)) [?lo..<?hi]"
      by (rule slice_as_map [OF len]) auto
    also have "\<dots> = map (cell B c) [?lo..<?hi]"
      using cell_in_extent [OF less.prems(2), of _ B c] by (auto simp: de')
    finally have part: "slice (?lo - eo) (?hi - ?lo) (data e) = map (cell B c) [?lo..<?hi]" .
    have "rest = map (cell B c) [max (eo + EXTENT) offset..<finish]"
      using k3 keeps_cell [OF k12] by simp
    also have "[max (eo + EXTENT) offset..<finish] = [?hi..<finish]"
      using less.prems(3) by (simp add: min_def)
    finally have "rest = map (cell B c) [?hi..<finish]" .
    moreover have "[?lo..<finish] = [?lo..<?hi] @ [?hi..<finish]"
      by (rule upt_split) (use less.prems(3,4) True in auto)
    ultimately show ?thesis using k12 k3 keeps_trans bs part by auto
  qed
qed

lemma write_loop_Inr:
  assumes "cache_inv B c" "EXTENT dvd eo" "offset < eo + EXTENT"
    and "write_loop base_len base_read offset bs c eo = (c', Inr u)"
  shows "cache_inv B c' \<and> host_ok c' = host_ok c \<and>
     (\<forall>i. cell B c' i =
        (if max eo offset \<le> i \<and> i < offset + length bs then bs ! (i - offset) else cell B c i))"
  using assms
proof (induction "offset + length bs - eo" arbitrary: c eo rule: less_induct)
  case less
  note unfold = write_loop.simps [of base_len base_read offset bs c eo]
  let ?stop = "offset + length bs"
  show ?case
  proof (cases "eo < ?stop")
    case False
    then show ?thesis using less.prems unfold by auto
  next
    case True
    let ?lo = "max eo offset" and ?hi = "min (eo + EXTENT) ?stop"
    let ?part = "slice (?lo - offset) (?hi - ?lo) bs"
    obtain c1 v where r1: "ensure_resident base_len base_read c eo = (c1, Inr v)"
      and r2: "write_loop base_len base_read offset bs (alter_extent c1 eo (?lo - eo) ?part) (eo + EXTENT)
         = (c', Inr u)"
      using less.prems(4) True unfold by (auto split: prod.splits sum.splits simp: Let_def)
    define c2 where "c2 = alter_extent c1 eo (?lo - eo) ?part"
    have k1: "keeps B c c1" and m: "map_of (resident c1) eo \<noteq> None"
      using keeps_ensure_resident [OF less.prems(1,2) r1] by auto
    have plen: "length ?part = ?hi - ?lo" by (auto simp: min_def max_def)
    have fits: "?lo - eo + length ?part \<le> EXTENT"
      unfolding plen using less.prems(3) by (auto simp: min_def max_def)
    note a = alter_extent_view [OF keeps_inv [OF k1] m fits, folded c2_def]
    have i3: "cache_inv B c' \<and> host_ok c' = host_ok c2 \<and>
       (\<forall>i. cell B c' i =
        (if max (eo + EXTENT) offset \<le> i \<and> i < ?stop then bs ! (i - offset) else cell B c2 i))"
    proof (rule less.hyps [OF _ a(1)])
      show "?stop - (eo + EXTENT) < ?stop - eo" using True by (intro diff_less_mono2) auto
      show "write_loop base_len base_read offset bs c2 (eo + EXTENT) = (c', Inr u)"
        using r2 by (simp add: c2_def)
    qed (use less.prems(2,3) in auto)
    have mid: "cell B c2 i = (if ?lo \<le> i \<and> i < ?hi then bs ! (i - offset) else cell B c i)" for i
    proof (cases "eo \<le> i \<and> i < eo + EXTENT")
      case True
      have len: "length (extent_view B c eo) = EXTENT" by (rule length_extent_view [OF less.prems(1)])
      have "cell B c2 i = splice (?lo - eo) ?part (extent_view B c eo) ! (i - eo)"
        using True cell_in_extent [OF less.prems(2), of i B c2] a(3) k1 by (simp add: keeps_def)
      also have "\<dots> = (if ?lo - eo \<le> i - eo \<and> i - eo < ?lo - eo + length ?part
          then ?part ! (i - eo - (?lo - eo)) else extent_view B c eo ! (i - eo))"
        by (rule nth_splice) (use fits len True in linarith)+
      also have "\<dots> = (if ?lo \<le> i \<and> i < ?hi then bs ! (i - offset) else cell B c i)"
      proof (cases "?lo \<le> i \<and> i < ?hi")
        case in_range: True
        then have k: "i - ?lo < ?hi - ?lo" by linarith
        have "?part ! (i - ?lo) = bs ! (?lo - offset + (i - ?lo))"
          using in_range k by (intro nth_slice) auto
        moreover have "?lo - offset + (i - ?lo) = i - offset" using in_range by linarith
        moreover have "i - eo - (?lo - eo) = i - ?lo" by linarith
        moreover have "?lo - eo \<le> i - eo \<and> i - eo < ?lo - eo + length ?part"
          using in_range True unfolding plen by linarith
        ultimately show ?thesis using in_range by simp
      next
        case out: False
        then have "\<not> (?lo - eo \<le> i - eo \<and> i - eo < ?lo - eo + length ?part)"
          using True unfolding plen by linarith
        then show ?thesis
          by (simp only: if_False out) (use True cell_in_extent [OF less.prems(2), of i B c] in simp)
      qed
      finally show ?thesis .
    next
      case False
      have "i div EXTENT * EXTENT \<noteq> eo"
      proof
        assume "i div EXTENT * EXTENT = eo"
        then show False
          using False div_mult_mod_eq [of i EXTENT] mod_less_divisor [OF EXTENT_pos, of i] by linarith
      qed
      then have "cell B c2 i = cell B c i" using a(3) k1 by (simp add: cell_def keeps_def)
      then show ?thesis using False by auto
    qed
    have "host_ok c' = host_ok c" using i3 a(2) k1 by (simp add: keeps_def)
    moreover have "cell B c' i =
        (if max eo offset \<le> i \<and> i < ?stop then bs ! (i - offset) else cell B c i)" for i
      using i3 mid [of i] less.prems(3) by auto
    ultimately show ?thesis using i3 by blast
  qed
qed

text \<open>A read through the cache returns the bytes presented, and presents the same afterwards.\<close>

lemma cache_read_at_Inr:
  assumes inv: "cache_inv B c" and r: "cache_read_at base_len base_read c off n = (c', Inr bs)"
  shows "keeps B c c'" "bs = map (cell B c) [off..<off + n]"
proof -
  let ?eo = "off div EXTENT * EXTENT"
  have kd: "keeps B c (drain_offloads c)" by (rule keeps_drain [OF inv])
  have lo: "?eo \<le> off" "off < ?eo + EXTENT"
    using div_mult_mod_eq [of off EXTENT] mod_less_divisor [OF EXTENT_pos, of off] by linarith+
  have "read_loop base_len base_read off (off + n) (drain_offloads c) ?eo = (c', Inr bs)"
    using r by (simp add: cache_read_at_def Let_def split: if_splits)
  then have k: "keeps B (drain_offloads c) c' \<and>
      bs = map (cell B (drain_offloads c)) [max ?eo off..<off + n]"
    by (intro read_loop_Inr keeps_inv [OF kd]) (use lo in auto)
  show "keeps B c c'" using kd k keeps_trans by blast
  show "bs = map (cell B c) [off..<off + n]"
    using k keeps_cell [OF kd] lo(1) by (simp add: max_def)
qed

end

section \<open>Speculation\<close>

lemma least_used_cases:
  assumes "least_used (filter p xs) = Some q"
  obtains eo e where "q = (eo, e)" "(eo, e) \<in> set xs" "p (eo, e)"
  using least_used_filter [OF assms] by (cases q) auto

text \<open>Handing extents to the worker changes nothing presented.\<close>

lemma keeps_offload_loop: "cache_inv B c \<Longrightarrow> keeps B c (offload_loop n c)"
proof (induction n arbitrary: c)
  case 0
  then show ?case by (simp add: keeps_refl)
next
  case (Suc n)
  note inv = Suc.prems
  show ?case
  proof (cases "length (in_flight c) < OFFLOAD_IN_FLIGHT \<and> offload_candidate c \<noteq> None")
    case False
    then show ?thesis using keeps_refl [OF inv] by (cases "offload_candidate c") auto
  next
    case True
    then obtain q where q: "offload_candidate c = Some q" by auto
    then obtain eo e where qe: "q = (eo, e)" and e: "(eo, e) \<in> set (resident c)" "dirty e"
      and f: "map_of (in_flight c) eo = None"
      unfolding offload_candidate_def by (auto elim!: least_used_cases)
    have m: "map_of (resident c) eo = Some e" using e(1) inv by (simp add: inv_defs omap_in_set)
    obtain c1 x where sc: "spill_create c = (c1, x)" by (cases "spill_create c")
    note fr = spill_create_frame [OF sc]
    show ?thesis
    proof (cases x)
      case (Inl err)
      have "spill c = None" "c1 = c\<lparr>host_calls := Suc (host_calls c)\<rparr>"
        using sc Inl by (auto simp: spill_create_def host_call_def split: option.splits if_splits)
      moreover have "keeps B c (c\<lparr>host_calls := Suc (host_calls c), offload_enabled := False\<rparr>)"
        by (rule keeps_cong [OF inv]) simp_all
      ultimately show ?thesis using True q qe sc Inl by simp
    next
      case (Inr s)
      have k1: "keeps B c c1" and s1: "spill c1 = Some s"
        using keeps_spill_create [OF inv] sc Inr by auto
      obtain slot s' where sf: "slot_for s eo = (slot, s')" by (cases "slot_for s eo")
      have m1: "map_of (resident c1) eo = Some e" using m fr by simp
      have k2: "keeps B c1 (c1\<lparr>spill := Some s'\<rparr>)"
        by (rule keeps_slot [OF keeps_inv [OF k1] s1 sf m1 e(2)])
      have new: "map_of (slots s') eo = Some slot"
        by (rule slot_for_slots(2) [OF spill_invD(1) [OF keeps_inv [OF k1] s1]
              res_invD(1) [OF keeps_inv [OF k1] m1] sf])
      let ?j = "\<lparr>job_slot = slot, job_offset = eo, job_version = version e, job_data = data e\<rparr>"
      define c3 where "c3 = c1\<lparr>spill := Some s', offloader := True, jobs := jobs c1 @ [?j],
          in_flight := oinsert eo (version e) (in_flight c1)\<rparr>"
      let ?c2 = "c1\<lparr>spill := Some s'\<rparr>"
      have i2: "cache_inv B ?c2" using k2 by (rule keeps_inv)
      have sd: "slot_data c3 y = slot_data ?c2 y" and h: "holds c3 y = holds ?c2 y" for y
        by (simp_all add: c3_def slot_data_def holds_def)
      have same: "resident c3 = resident c1" "prespilled c3 = prespilled c1" "clock c3 = clock c1"
        "bound c3 = bound c1" "host_ok c3 = host_ok c1" "spill c3 = Some s'" "offloader c3"
        "done_q c3 = done_q c1" "jobs c3 = jobs c1 @ [?j]"
        "in_flight c3 = oinsert eo (version e) (in_flight c1)"
        by (simp_all add: c3_def)
      have fok: "omap_ok (in_flight c1)" "map_of (in_flight c1) eo = None"
        using omap_okD(2) [OF i2] f fr by simp_all
      have fset: "set (oinsert eo (version e) (in_flight c1)) = insert (eo, version e) (set (in_flight c1))"
        using fok omap_in_set [OF fok(1)] omap_in_set [OF omap_ok_oinsert [OF fok(1), of eo "version e"]]
        by (auto simp: map_of_oinsert set_eq_iff split: if_splits)
      have w: "work c3 = work ?c2 @ [(eo, version e)]" by (simp add: work_def same)
      have "flight_inv c3"
      proof (rule flight_invI)
        have "eo \<notin> fst ` set (work ?c2)"
          using flight_invD(3) [OF i2] fok(2) by (simp add: map_of_eq_None_iff)
        then show "distinct (map fst (work c3))" using flight_invD(2) [OF i2] by (simp add: w)
        show "set (work c3) = set (in_flight c3)" using flight_invD(3) [OF i2] by (simp add: w same fset)
        show "omap_ok (in_flight c3)" by (simp add: same omap_ok_oinsert fok)
        fix y v assume "(y, v) \<in> set (in_flight c3)"
        then show "v \<le> clock c3 \<and> (\<exists>a. map_of (resident c3) y = Some a \<and> dirty a)"
          using flight_invD(5) [OF i2, of y v] m1 e(2) res_invD(3) [OF i2, of eo e]
          by (auto simp: same fset)
      next
        fix j assume "j \<in> set (jobs c3)"
        then consider "j = ?j" | "j \<in> set (jobs ?c2)" by (auto simp: same)
        note j = this
        show "length (job_data j) = EXTENT"
          using j flight_invD(6) [OF i2, of j] res_invD(2) [OF i2, of eo e] m1 by cases simp_all
        show "\<exists>s. spill c3 = Some s \<and> map_of (slots s) (job_offset j) = Some (job_slot j)"
          using j flight_invD(7) [OF i2, of j] new by cases (simp_all add: same)
        show "job_data j = data a"
          if "map_of (resident c3) (job_offset j) = Some a" "version a = job_version j" for a
          using j that flight_invD(8) [OF i2, of j] m1 by cases (simp_all add: same)
      next
        fix d a assume "d \<in> set (done_q c3)" "done_ok d"
          "map_of (resident c3) (done_offset d) = Some a" "version a = done_version d"
        then show "slot_data c3 (done_offset d) = Some (data a)"
          using flight_invD(9) [OF i2, of d a] unfolding sd by (simp add: same)
      qed (simp add: same)
      moreover have "res_inv B c3" "spill_inv c3" "prespill_inv c3"
        using i2 by (simp_all add: cache_inv_def res_inv_def spill_inv_def prespill_inv_def h sd same)
      moreover have "extent_view B c3 y = extent_view B ?c2 y" for y
        by (rule extent_view_cong) (simp_all add: sd same)
      ultimately have k3: "keeps B ?c2 c3" using i2 by (simp add: keeps_def cache_inv_def same)
      have "keeps B c c3" by (rule keeps_trans [OF keeps_trans [OF k1 k2] k3])
      moreover have "offload_loop (Suc n) c = offload_loop n c3"
        using True q qe sc Inr sf by (simp add: c3_def)
      ultimately show ?thesis using Suc.IH [of c3] keeps_trans keeps_inv by metis
    qed
  qed
qed

lemma keeps_maybe_offload: "cache_inv B c \<Longrightarrow> keeps B c (maybe_offload c)"
  by (simp add: maybe_offload_def Let_def keeps_refl keeps_offload_loop)

text \<open>A prefetched extent is installed only as what is presented there already.\<close>

lemma keeps_insert_prefetched:
  assumes inv: "cache_inv B c" and dvd: "EXTENT dvd eo" and bs: "bs = base_extent B eo"
  shows "keeps B c (insert_prefetched c eo bs)"
proof (cases "is_resident c eo \<or> holds c eo")
  case True
  then show ?thesis
    using keeps_refl [OF inv] by (simp add: insert_prefetched_def holds_def)
next
  case False
  then have nr: "map_of (resident c) eo = None" and nh: "\<not> holds c eo" by (auto simp: is_resident_def)
  have install: "keeps B c0 ((snd (tick c0))\<lparr>resident := oinsert eo \<lparr>data = bs, dirty = False,
       used = fst (tick c0), version = fst (tick c0)\<rparr> (resident (snd (tick c0)))\<rparr>)"
    if k: "keeps B c c0" and r0: "map_of (resident c0) eo = None" "spill c0 = spill c" for c0
  proof (rule keeps_install [OF keeps_inv [OF k] r0(1) dvd _ _ surjective_pairing refl])
    have "slot_data c eo = None"
      using nh by (auto simp: slot_data_def holds_def spill_holds_def split: option.splits)
    then have "extent_view B c eo = bs" using nr bs by (simp add: extent_view_def)
    then show "bs = extent_view B c0 eo" using k by (simp add: keeps_def)
    show "False = holds c0 eo" using nh r0(2) by (simp add: holds_def)
  qed
  show ?thesis
  proof (cases "bound c \<le> length (resident c)")
    case full: True
    show ?thesis
    proof (cases "least_used (filter (\<lambda>(eo, e). \<not> dirty e) (resident c))")
      case None
      then show ?thesis
        using False full keeps_refl [OF inv] by (simp add: insert_prefetched_def holds_def)
    next
      case (Some q)
      then obtain v e where q: "q = (v, e)" "(v, e) \<in> set (resident c)" "\<not> dirty e"
        by (auto elim!: least_used_cases)
      have m: "map_of (resident c) v = Some e" using q(2) inv by (simp add: inv_defs omap_in_set)
      have "map_of (in_flight c) v = None"
        using flight_invD(5) [OF inv, of v] m q(3)
        by (cases "map_of (in_flight c) v") (auto dest: map_of_SomeD)
      then have k: "keeps B c (c\<lparr>resident := oremove v (resident c)\<rparr>)"
        using keeps_drop [OF inv m] q(3) by simp
      have "insert_prefetched c eo bs = (snd (tick (c\<lparr>resident := oremove v (resident c)\<rparr>)))\<lparr>resident :=
          oinsert eo \<lparr>data = bs, dirty = False, used = fst (tick (c\<lparr>resident := oremove v (resident c)\<rparr>)),
            version = fst (tick (c\<lparr>resident := oremove v (resident c)\<rparr>))\<rparr>
            (resident (snd (tick (c\<lparr>resident := oremove v (resident c)\<rparr>))))\<rparr>"
        using False full Some q(1) by (simp add: insert_prefetched_def holds_def tick_def)
      then show ?thesis
        using k install [OF k] nr keeps_trans by (simp add: omap_laws)
    qed
  next
    case False
    have "insert_prefetched c eo bs = (snd (tick c))\<lparr>resident :=
          oinsert eo \<lparr>data = bs, dirty = False, used = fst (tick c), version = fst (tick c)\<rparr>
            (resident (snd (tick c)))\<rparr>"
      using False nr nh by (simp add: insert_prefetched_def is_resident_def holds_def tick_def)
    then show ?thesis using install [OF keeps_refl [OF inv] nr refl] by simp
  qed
qed

end
