(* ===== verification/Cache_Commit.thy ===== *)
theory Cache_Commit
  imports Cache_Ops
begin

text \<open>
  Progress of the cache while the host's private storage delivers, the write-through of the
  altered set at a commit, and the two ends of a session's edits: committed and discarded.
  The cache over an image satisfies the contract \<open>block_device\<close>.
\<close>

definition storage_ok :: "cache \<Rightarrow> bool" where
  "storage_ok c \<longleftrightarrow> (\<forall>n. host_ok c n)"

lemma storage_ok_keeps: "keeps B c c' \<Longrightarrow> storage_ok c' = storage_ok c"
  by (simp add: storage_ok_def keeps_def)

section \<open>Progress\<close>

lemma spill_create_total: "storage_ok c \<Longrightarrow> \<exists>c' s. spill_create c = (c', Inr s)"
  by (auto simp: spill_create_def host_call_def storage_ok_def split: option.splits)

lemma spill_write_total: "storage_ok c \<Longrightarrow> \<exists>c'. spill_write c s eo bs = (c', Inr ())"
  by (auto simp: spill_write_def host_call_def storage_ok_def Let_def split: prod.splits)

lemma evict_one_total:
  assumes "storage_ok c"
  shows "\<exists>c'. evict_one c = (c', Inr ())"
proof -
  obtain c' r where ev: "evict_one c = (c', r)" by (cases "evict_one c")
  then have "r = Inr ()"
  proof (cases rule: evict_one_cases)
    case (refused eo e c2 err)
    then show ?thesis using spill_create_total [OF assms] by auto
  next
    case (spilled eo e c2 s c3)
    have "storage_ok c2"
      using assms spill_create_frame [OF spilled(4)] by (simp add: storage_ok_def)
    then show ?thesis using spilled(5) spill_write_total [of c2 s eo "data e"] by auto
  qed simp_all
  then show ?thesis using ev by simp
qed

lemma make_room_total:
  "cache_inv B c \<Longrightarrow> storage_ok c \<Longrightarrow> \<exists>c'. make_room c = (c', Inr ())"
proof (induction c rule: make_room.induct)
  case (1 c)
  show ?case
  proof (cases "bound c \<le> length (resident c) \<and> resident c \<noteq> []")
    case True
    obtain c1 where ev: "evict_one c = (c1, Inr ())" using evict_one_total "1.prems"(2) by blast
    have k: "keeps B c c1" using keeps_evict_one [OF "1.prems"(1) _ ev] True by blast
    have "\<exists>c'. make_room c1 = (c', Inr ())"
      by (rule "1.IH" [OF True ev [symmetric] refl])
        (use k keeps_inv storage_ok_keeps [OF k] "1.prems"(2) in auto)
    then show ?thesis using True ev by (simp add: make_room.simps [of c])
  qed (auto simp: make_room.simps [of c])
qed

context cache_base
begin

lemma load_extent_total:
  assumes "cache_inv B c" "map_of (resident c) eo = None" "storage_ok c"
  shows "\<exists>c' p. load_extent base_len base_read c eo = (c', Inr p)"
proof (cases "holds c eo")
  case True
  then obtain s where s: "spill c = Some s" "spill_holds s eo"
    by (auto simp: holds_def split: option.splits)
  have "slot_data c eo \<noteq> None" by (rule spill_invD(2) [OF assms(1) True assms(2)])
  then show ?thesis
    using s assms(3)
    by (auto simp: load_extent_def spill_read_def host_call_def slot_data_def storage_ok_def
        spill_holds_def split: option.splits)
next
  case False
  then show ?thesis
    by (auto simp: load_extent_def holds_def load_base_eq split: option.splits)
qed

lemma ensure_resident_total:
  assumes "cache_inv B c" "storage_ok c"
  shows "\<exists>c'. ensure_resident base_len base_read c eo = (c', Inr ())"
proof (cases "map_of (resident c) eo")
  case None
  obtain c1 where m: "make_room c = (c1, Inr ())" using make_room_total [OF assms] by blast
  have k: "keeps B c c1" by (rule keeps_make_room [OF assms(1) m])
  obtain c2 bs d where "load_extent base_len base_read c1 eo = (c2, Inr (bs, d))"
    using load_extent_total [OF keeps_inv [OF k] make_room_absent [OF m None]] assms(2)
      storage_ok_keeps [OF k] by auto
  then show ?thesis using None m by (simp add: ensure_resident_def tick_def)
qed (simp add: ensure_resident_def)

lemma read_loop_total:
  assumes "cache_inv B c" "EXTENT dvd eo" "storage_ok c"
  shows "\<exists>c' bs. read_loop base_len base_read offset finish c eo = (c', Inr bs)"
  using assms
proof (induction "finish - eo" arbitrary: c eo rule: less_induct)
  case less
  note unfold = read_loop.simps [of base_len base_read offset finish c eo]
  show ?case
  proof (cases "eo < finish")
    case True
    obtain c1 where r1: "ensure_resident base_len base_read c eo = (c1, Inr ())"
      using ensure_resident_total less.prems by blast
    have k1: "keeps B c c1" and m: "map_of (resident c1) eo \<noteq> None"
      using keeps_ensure_resident [OF less.prems(1,2) r1] by auto
    obtain c2 e where t: "touch_extent c1 eo = (c2, e)" by (cases "touch_extent c1 eo")
    have k2: "keeps B c1 c2" using keeps_touch [OF keeps_inv [OF k1] _ t] m by blast
    have "\<exists>c' bs. read_loop base_len base_read offset finish c2 (eo + EXTENT) = (c', Inr bs)"
    proof (rule less.hyps [OF _ keeps_inv [OF k2]])
      show "finish - (eo + EXTENT) < finish - eo" using True by (intro diff_less_mono2) auto
    qed (use less.prems storage_ok_keeps [OF k1] storage_ok_keeps [OF k2] in auto)
    then show ?thesis using True r1 t unfold by (auto simp: Let_def)
  qed (use unfold in simp)
qed

lemma write_loop_total:
  assumes "cache_inv B c" "EXTENT dvd eo" "offset < eo + EXTENT" "storage_ok c"
  shows "\<exists>c'. write_loop base_len base_read offset bs c eo = (c', Inr ())"
  using assms
proof (induction "offset + length bs - eo" arbitrary: c eo rule: less_induct)
  case less
  note unfold = write_loop.simps [of base_len base_read offset bs c eo]
  let ?stop = "offset + length bs"
  show ?case
  proof (cases "eo < ?stop")
    case True
    let ?lo = "max eo offset" and ?hi = "min (eo + EXTENT) ?stop"
    let ?part = "slice (?lo - offset) (?hi - ?lo) bs"
    obtain c1 where r1: "ensure_resident base_len base_read c eo = (c1, Inr ())"
      using ensure_resident_total less.prems by blast
    have k1: "keeps B c c1" and m: "map_of (resident c1) eo \<noteq> None"
      using keeps_ensure_resident [OF less.prems(1,2) r1] by auto
    have fits: "?lo - eo + length ?part \<le> EXTENT"
      using less.prems(3) by (auto simp: min_def max_def)
    note a = alter_extent_view [OF keeps_inv [OF k1] m fits]
    have "\<exists>c'. write_loop base_len base_read offset bs (alter_extent c1 eo (?lo - eo) ?part)
         (eo + EXTENT) = (c', Inr ())"
    proof (rule less.hyps [OF _ a(1)])
      show "?stop - (eo + EXTENT) < ?stop - eo" using True by (intro diff_less_mono2) auto
      show "storage_ok (alter_extent c1 eo (?lo - eo) ?part)"
        using a(2) less.prems(4) k1 by (simp add: storage_ok_def keeps_def)
    qed (use less.prems(2,3) in auto)
    then show ?thesis using True r1 unfold by (auto simp: Let_def)
  qed (use unfold in simp)
qed

lemma cache_read_at_total:
  assumes "cache_inv B c" "storage_ok c" "off + n \<le> length B"
  shows "\<exists>c'. cache_read_at base_len base_read c off n = (c', Inr (map (cell B c) [off..<off + n])) \<and>
     keeps B c c'"
proof -
  have k: "keeps B c (drain_offloads c)" by (rule keeps_drain [OF assms(1)])
  obtain c' bs where r: "cache_read_at base_len base_read c off n = (c', Inr bs)"
    using read_loop_total [OF keeps_inv [OF k], of "off div EXTENT * EXTENT" off "off + n"]
      storage_ok_keeps [OF k] assms by (auto simp: cache_read_at_def base_len Let_def)
  then show ?thesis using cache_read_at_Inr [OF assms(1) r] by auto
qed

lemma cache_write_at_total:
  assumes inv: "cache_inv B c" and ok: "storage_ok c"
  shows "\<exists>c'. cache_write_at base_len base_read c off bs = (c', Inr ()) \<and> cache_inv B c' \<and>
     storage_ok c' \<and>
     (\<forall>i. cell B c' i = (if off \<le> i \<and> i < off + length bs then bs ! (i - off) else cell B c i))"
proof -
  let ?eo = "off div EXTENT * EXTENT" and ?d = "drain_offloads c"
  have k: "keeps B c ?d" by (rule keeps_drain [OF inv])
  have lo: "?eo \<le> off" "off < ?eo + EXTENT"
    using div_mult_mod_eq [of off EXTENT] mod_less_divisor [OF EXTENT_pos, of off] by linarith+
  obtain c1 where w: "write_loop base_len base_read off bs ?d ?eo = (c1, Inr ())"
    using write_loop_total [OF keeps_inv [OF k], of ?eo off] lo ok storage_ok_keeps [OF k] by auto
  have w1: "cache_inv B c1" "host_ok c1 = host_ok ?d"
    and w2: "\<And>i. cell B c1 i =
        (if max ?eo off \<le> i \<and> i < off + length bs then bs ! (i - off) else cell B ?d i)"
    using write_loop_Inr [OF keeps_inv [OF k] _ lo(2) w] by auto
  have k1: "keeps B c1 (maybe_offload c1)" by (rule keeps_maybe_offload [OF w1(1)])
  have "storage_ok (maybe_offload c1)"
    using ok storage_ok_keeps [OF k1] storage_ok_keeps [OF k] w1(2) by (simp add: storage_ok_def)
  moreover have "cell B (maybe_offload c1) i =
      (if off \<le> i \<and> i < off + length bs then bs ! (i - off) else cell B c i)" for i
    using w2 [of i] keeps_cell [OF k1] keeps_cell [OF k] lo(1) by (simp add: max_def)
  ultimately show ?thesis
    using w keeps_inv [OF k1] by (simp add: cache_write_at_def)
qed

end

interpretation image_base: cache_base "length d" "image_read d" d for d :: bytes
  by unfold_locales (simp_all add: image_read_def)

section \<open>The write-through\<close>

lemma dirty_merge_items:
  assumes "sorted (map fst rs)" "distinct (map fst rs)" "sorted ss" "distinct ss"
  shows "set (dirty_merge rs ss) =
      (\<lambda>(r, e). (r, Some e)) ` set rs \<union> (\<lambda>s. (s, None)) ` (set ss - fst ` set rs)"
  and "sorted (map fst (dirty_merge rs ss))" "distinct (map fst (dirty_merge rs ss))"
proof -
  have "set (dirty_merge rs ss) =
      (\<lambda>(r, e). (r, Some e)) ` set rs \<union> (\<lambda>s. (s, None)) ` (set ss - fst ` set rs) \<and>
    sorted (map fst (dirty_merge rs ss)) \<and> distinct (map fst (dirty_merge rs ss))"
    using assms
  proof (induction rs ss rule: dirty_merge.induct)
    case (2 r e rs s ss)
    consider "s = r" | "s < r" | "r < s" by linarith
    then show ?case
    proof cases
      case 1
      then show ?thesis using 2 by auto
    next
      case c: 2
      then have IH: "set (dirty_merge ((r, e) # rs) ss) =
          (\<lambda>(r, e). (r, Some e)) ` set ((r, e) # rs) \<union>
          (\<lambda>s. (s, None)) ` (set ss - fst ` set ((r, e) # rs))"
        "sorted (map fst (dirty_merge ((r, e) # rs) ss))"
        "distinct (map fst (dirty_merge ((r, e) # rs) ss))" using 2 by auto
      have keys: "fst ` set (dirty_merge ((r, e) # rs) ss) \<subseteq> fst ` set ((r, e) # rs) \<union> set ss"
        unfolding IH(1) by force
      have "\<forall>x \<in> fst ` set ((r, e) # rs) \<union> set ss. s < x"
        using c "2.prems" by (auto simp: order_le_less)
      then have lt: "\<forall>x \<in> fst ` set (dirty_merge ((r, e) # rs) ss). s < x" using keys by blast
      have new: "s \<notin> fst ` set ((r, e) # rs)" using c "2.prems"(1) by fastforce
      have "dirty_merge ((r, e) # rs) (s # ss) = (s, None) # dirty_merge ((r, e) # rs) ss"
        using c by simp
      moreover have "set ((s, None :: extent option) # dirty_merge ((r, e) # rs) ss) =
          (\<lambda>(r, e). (r, Some e)) ` set ((r, e) # rs) \<union>
          (\<lambda>s. (s, None)) ` (set (s # ss) - fst ` set ((r, e) # rs))"
        using IH(1) new by (simp only: list.set insert_Diff_if image_insert if_False Un_insert_right)
      moreover have "sorted (map fst ((s, None :: extent option) # dirty_merge ((r, e) # rs) ss))"
        using IH(2) lt by (simp add: order_le_less)
      moreover have "distinct (map fst ((s, None :: extent option) # dirty_merge ((r, e) # rs) ss))"
        using IH(3) lt by auto
      ultimately show ?thesis by simp
    next
      case c: 3
      then have IH: "set (dirty_merge rs (s # ss)) =
          (\<lambda>(r, e). (r, Some e)) ` set rs \<union> (\<lambda>s. (s, None)) ` (set (s # ss) - fst ` set rs)"
        "sorted (map fst (dirty_merge rs (s # ss)))"
        "distinct (map fst (dirty_merge rs (s # ss)))" using 2 by auto
      have keys: "fst ` set (dirty_merge rs (s # ss)) \<subseteq> fst ` set rs \<union> set (s # ss)"
        unfolding IH(1) by force
      have "\<forall>x \<in> fst ` set rs \<union> set (s # ss). r < x"
        using c "2.prems" by (auto simp: order_le_less)
      then have lt: "\<forall>x \<in> fst ` set (dirty_merge rs (s # ss)). r < x" using keys by blast
      have new: "r \<notin> set (s # ss)" using c "2.prems" by auto
      have "dirty_merge ((r, e) # rs) (s # ss) = (r, Some e) # dirty_merge rs (s # ss)"
        using c by simp
      moreover have "set ((r, Some e) # dirty_merge rs (s # ss)) =
          (\<lambda>(r, e). (r, Some e)) ` set ((r, e) # rs) \<union>
          (\<lambda>s. (s, None)) ` (set (s # ss) - fst ` set ((r, e) # rs))"
      proof -
        have "set (s # ss) - fst ` set ((r, e) # rs) = set (s # ss) - fst ` set rs"
          using new by auto
        then show ?thesis using IH(1) by (simp only: list.set image_insert prod.case Un_insert_left)
      qed
      moreover have "sorted (map fst ((r, Some e) # dirty_merge rs (s # ss)))"
        using IH(2) lt by (simp add: order_le_less)
      moreover have "distinct (map fst ((r, Some e) # dirty_merge rs (s # ss)))"
        using IH(3) lt by auto
      ultimately show ?thesis by simp
    qed
  qed (force simp: order_le_less)+
  then show "set (dirty_merge rs ss) =
      (\<lambda>(r, e). (r, Some e)) ` set rs \<union> (\<lambda>s. (s, None)) ` (set ss - fst ` set rs)"
    and "sorted (map fst (dirty_merge rs ss))" "distinct (map fst (dirty_merge rs ss))" by auto
qed

lemma holds_slots: "holds c eo \<longleftrightarrow>
    eo \<in> set (case spill c of None \<Rightarrow> [] | Some s \<Rightarrow> map fst (slots s))"
  by (auto simp: holds_def spill_holds_def map_of_eq_None_iff split: option.split)

lemma dirty_items_inv:
  assumes inv: "cache_inv B c"
  shows "(eo, Some e) \<in> set (dirty_items c) \<longleftrightarrow> map_of (resident c) eo = Some e \<and> dirty e"
    and "(eo, None) \<in> set (dirty_items c) \<longleftrightarrow> holds c eo \<and> map_of (resident c) eo = None"
    and "sorted (map fst (dirty_items c))" "distinct (map fst (dirty_items c))"
proof -
  let ?rs = "filter (\<lambda>(eo, e). dirty e) (resident c)"
  let ?ss = "case spill c of None \<Rightarrow> [] | Some s \<Rightarrow> map fst (slots s)"
  have r: "omap_ok (resident c)" using inv by (rule omap_okD)
  have rs: "sorted (map fst ?rs)" "distinct (map fst ?rs)"
    using omap_ok_filter [OF r] by (auto simp: omap_ok_def)
  have ss: "sorted ?ss" "distinct ?ss"
    using spill_invD(1) [OF inv] by (auto simp: slots_inv_def omap_ok_def split: option.split)
  note m = dirty_merge_items [OF rs ss]
  show "sorted (map fst (dirty_items c))" "distinct (map fst (dirty_items c))"
    using m(2,3) by (simp_all add: dirty_items_def)
  show "(eo, Some e) \<in> set (dirty_items c) \<longleftrightarrow> map_of (resident c) eo = Some e \<and> dirty e"
    using m(1) omap_in_set [OF r] by (auto simp: dirty_items_def)
  have dirty_held: "dirty a" if "map_of (resident c) eo = Some a" "holds c eo" for a
    using res_invD(5) [OF inv that(1)] that(2) by blast
  have key: "eo \<in> fst ` set ?rs \<longleftrightarrow> (\<exists>a. map_of (resident c) eo = Some a \<and> dirty a)"
    using omap_in_set [OF r] by force
  have none: "(eo, None) \<in> (\<lambda>(r, e). (r, Some e)) ` R \<union> (\<lambda>s. (s, None)) ` S \<longleftrightarrow> eo \<in> S"
    for R :: "(nat \<times> extent) set" and S by auto
  have "(eo, None) \<in> set (dirty_items c) \<longleftrightarrow> holds c eo \<and> eo \<notin> fst ` set ?rs"
    unfolding dirty_items_def m(1) holds_slots none by simp
  also have "\<dots> \<longleftrightarrow> holds c eo \<and> map_of (resident c) eo = None"
    using key dirty_held by (cases "map_of (resident c) eo") auto
  finally show "(eo, None) \<in> set (dirty_items c) \<longleftrightarrow> holds c eo \<and> map_of (resident c) eo = None" .
qed

lemma nth_base_extent:
  "i < EXTENT \<Longrightarrow> base_extent B eo ! i = (if eo + i < length B then B ! (eo + i) else 0)"
  by (auto simp: base_extent_def nth_append slice_def)

lemma cell_base_extent:
  "extent_view B c (i div EXTENT * EXTENT) = base_extent B (i div EXTENT * EXTENT) \<Longrightarrow>
   cell B c i = (if i < length B then B ! i else 0)"
  using nth_base_extent [of "i mod EXTENT" B "i div EXTENT * EXTENT"] by (simp add: cell_def)

lemma unlisted_base:
  assumes "cache_inv B c" "eo \<notin> fst ` set (dirty_items c)"
  shows "extent_view B c eo = base_extent B eo"
proof -
  have no: "\<And>x. (eo, x) \<notin> set (dirty_items c)" using assms(2) by force
  show ?thesis
  proof (cases "map_of (resident c) eo")
    case None
    then have "\<not> holds c eo" using no [of None] dirty_items_inv(2) [OF assms(1), of eo] by simp
    then have "slot_data c eo = None"
      by (auto simp: holds_def slot_data_def spill_holds_def split: option.splits)
    then show ?thesis using None by (simp add: extent_view_def)
  next
    case (Some e)
    then have "\<not> dirty e" using no [of "Some e"] dirty_items_inv(1) [OF assms(1), of eo e] by simp
    then show ?thesis using Some res_invD(4) [OF assms(1) Some] by (simp add: extent_view_def)
  qed
qed

lemma dirty_items_keys:
  assumes inv: "cache_inv B c" and e: "(eo, x) \<in> set (dirty_items c)"
  shows "EXTENT dvd eo"
proof (cases x)
  case (Some y)
  then show ?thesis using e dirty_items_inv(1) [OF inv] res_invD(1) [OF inv] by blast
next
  case None
  then have "holds c eo" using e dirty_items_inv(2) [OF inv] by blast
  then obtain s slot where "spill c = Some s" "map_of (slots s) eo = Some slot"
    by (auto simp: holds_def spill_holds_def split: option.splits)
  then show ?thesis using spill_invD(1) [OF inv] unfolding slots_inv_def by blast
qed

text \<open>
  The loop over the altered set into any device that keeps the contract: it never refuses while
  the storage delivers, and leaves every byte of a listed extent as presented and every other
  byte of the device alone. \<open>f\<close> writes what of an extent lies inside the device.
\<close>

context block_device
begin

lemma dirty_loop_device:
  assumes "cache_inv B c" "storage_ok c" "healthy d" "length (contents d) = n"
    and "\<And>eo x. (eo, x) \<in> set items \<Longrightarrow> EXTENT dvd eo"
    and "\<And>eo e. (eo, Some e) \<in> set items \<Longrightarrow> map_of (resident c) eo = Some e"
    and "\<And>eo. (eo, None) \<in> set items \<Longrightarrow> holds c eo \<and> map_of (resident c) eo = None"
    and f: "\<And>d eo bs. healthy d \<Longrightarrow> length (contents d) = n \<Longrightarrow> length bs = EXTENT \<Longrightarrow>
      f d eo bs = (let t = min EXTENT (n - eo)
                   in if t > 0 then dev_write d eo (take t bs) else (d, Inr ()))"
  shows "\<exists>c' d'. dirty_loop f items c d = (c', d', Inr ()) \<and> keeps B c c' \<and>
       resident c' = resident c \<and> spill c' = spill c \<and> healthy d' \<and> length (contents d') = n \<and>
       (\<forall>i < n. contents d' ! i =
          (if i div EXTENT * EXTENT \<in> fst ` set items then cell B c i else contents d ! i))"
  using assms(1-7)
proof (induction items arbitrary: c d)
  case Nil
  then show ?case by (auto intro: keeps_refl)
next
  case (Cons p items)
  obtain eo x where p: "p = (eo, x)" by (cases p)
  have dvd: "EXTENT dvd eo" using Cons.prems(5) p by auto
  define bs where "bs = extent_view B c eo"
  have len: "length bs = EXTENT" using length_extent_view [OF Cons.prems(1)] by (simp add: bs_def)
  define t where "t = min EXTENT (n - eo)"
  have fits: "t > 0 \<Longrightarrow> eo + length (take t bs) \<le> length (contents d)"
    using Cons.prems(4) len by (auto simp: t_def)
  obtain d1 where step: "f d eo bs = (d1, Inr ())" and h1: "healthy d1"
    and c1: "contents d1 = (if t > 0 then splice eo (take t bs) (contents d) else contents d)"
    using f [OF Cons.prems(3,4) len, of eo] fits write_law [OF Cons.prems(3), of eo "take t bs"]
      Cons.prems(3) by (cases "t > 0") (auto simp: Let_def t_def)
  have len1: "length (contents d1) = n" using fits Cons.prems(4) by (simp add: c1)
  have nth1: "contents d1 ! i = (if i div EXTENT * EXTENT = eo then cell B c i else contents d ! i)"
    if i: "i < n" for i
  proof (cases "i div EXTENT * EXTENT = eo")
    case True
    have in_e: "eo \<le> i" "i < eo + EXTENT"
      using True div_mult_mod_eq [of i EXTENT] mod_less_divisor [OF EXTENT_pos, of i] by linarith+
    then have "t > 0" "i - eo < t" "t \<le> EXTENT" using i by (auto simp: t_def)
    moreover have "i < eo + t" using \<open>i - eo < t\<close> in_e by linarith
    ultimately show ?thesis
      using True fits i Cons.prems(4) in_e cell_in_extent [OF dvd in_e, of B c] len
      by (simp add: c1 nth_splice bs_def)
  next
    case False
    have "\<not> (eo \<le> i \<and> i < eo + t)"
    proof
      assume a: "eo \<le> i \<and> i < eo + t"
      obtain k where k: "eo = EXTENT * k" using dvd by (rule dvdE)
      have "i = (i - eo) + EXTENT * k" "i - eo < EXTENT" using a k t_def by auto
      then have "i div EXTENT = k" by (metis EXTENT_pos add.commute add_cancel_right_right
            div_less div_mult_self2 less_not_refl)
      then show False using False k by (simp add: mult.commute)
    qed
    then show ?thesis
      using False fits i Cons.prems(4) len by (auto simp: c1 nth_splice t_def)
  qed
  define k where "k = (case x of Some e \<Rightarrow> c | None \<Rightarrow> c\<lparr>host_calls := Suc (host_calls c)\<rparr>)"
  have k1: "keeps B c k" and same: "resident k = resident c" "spill k = spill c"
    using keeps_refl [OF Cons.prems(1)] keeps_host [OF Cons.prems(1)]
    by (auto simp: k_def split: option.split)
  have loop: "dirty_loop f (p # items) c d = dirty_loop f items k d1"
  proof (cases x)
    case (Some e)
    then have "map_of (resident c) eo = Some e" using Cons.prems(6) p by auto
    then have "data e = bs" by (simp add: bs_def extent_view_def)
    then show ?thesis using Some p step by (simp add: k_def)
  next
    case None
    then have h: "holds c eo" "map_of (resident c) eo = None" using Cons.prems(7) p by auto
    then obtain s ys where s: "spill c = Some s" and sd: "slot_data c eo = Some ys"
      using spill_invD(2) [OF Cons.prems(1) h] by (auto simp: holds_def split: option.splits)
    have "ys = bs" using h(2) sd by (simp add: bs_def extent_view_def)
    moreover have "spill_read c s eo = (k, Inr ys)"
      using sd s Cons.prems(2) None
      by (auto simp: spill_read_def host_call_def slot_data_def storage_ok_def k_def split: option.splits)
    ultimately show ?thesis using None p s step by simp
  qed
  have "\<exists>c' d'. dirty_loop f items k d1 = (c', d', Inr ()) \<and> keeps B k c' \<and>
       resident c' = resident k \<and> spill c' = spill k \<and> healthy d' \<and> length (contents d') = n \<and>
       (\<forall>i < n. contents d' ! i =
          (if i div EXTENT * EXTENT \<in> fst ` set items then cell B k i else contents d1 ! i))"
  proof (rule Cons.IH [OF keeps_inv [OF k1] _ h1 len1])
    show "storage_ok k" using Cons.prems(2) storage_ok_keeps [OF k1] by simp
    show "EXTENT dvd eo" if "(eo, x) \<in> set items" for eo x using Cons.prems(5) that by auto
    show "map_of (resident k) eo = Some e" if "(eo, Some e) \<in> set items" for eo e
      using Cons.prems(6) that same by auto
    show "holds k eo \<and> map_of (resident k) eo = None" if "(eo, None) \<in> set items" for eo
      using Cons.prems(7) that same holds_cong [OF same(2)] by auto
  qed
  then obtain c' d' where r: "dirty_loop f items k d1 = (c', d', Inr ())" "keeps B k c'"
     "resident c' = resident k" "spill c' = spill k" "healthy d'" "length (contents d') = n"
     "\<forall>i < n. contents d' ! i =
          (if i div EXTENT * EXTENT \<in> fst ` set items then cell B k i else contents d1 ! i)"
    by blast
  have "contents d' ! i =
      (if i div EXTENT * EXTENT \<in> fst ` set (p # items) then cell B c i else contents d ! i)"
    if "i < n" for i
    using r(7) that nth1 [OF that] keeps_cell [OF k1, of i] p by simp
  then show ?case
    using loop r keeps_trans [OF k1 r(2)] same by (intro exI [of _ c'] exI [of _ d']) simp
qed

lemma for_each_dirty_device:
  assumes inv: "cache_inv B c" and ok: "storage_ok c" and h: "healthy d"
    and n: "length (contents d) = n"
    and f: "\<And>d eo bs. healthy d \<Longrightarrow> length (contents d) = n \<Longrightarrow> length bs = EXTENT \<Longrightarrow>
      f d eo bs = (let t = min EXTENT (n - eo)
                   in if t > 0 then dev_write d eo (take t bs) else (d, Inr ()))"
    and base: "\<And>i. i < n \<Longrightarrow> contents d ! i = (if i < length B then B ! i else 0)"
  shows "\<exists>c' d'. for_each_dirty f c d = (c', d', Inr ()) \<and> keeps B c c' \<and>
       resident c' = resident c \<and> spill c' = spill c \<and> healthy d' \<and>
       contents d' = map (cell B c) [0..<n]"
proof -
  have "\<exists>c' d'. for_each_dirty f c d = (c', d', Inr ()) \<and> keeps B c c' \<and>
       resident c' = resident c \<and> spill c' = spill c \<and> healthy d' \<and> length (contents d') = n \<and>
       (\<forall>i < n. contents d' ! i =
          (if i div EXTENT * EXTENT \<in> fst ` set (dirty_items c) then cell B c i else contents d ! i))"
    unfolding for_each_dirty_def
    by (rule dirty_loop_device [OF inv ok h n _ _ _ f])
      (use dirty_items_keys [OF inv] dirty_items_inv(1,2) [OF inv] in blast)+
  then obtain c' d' where r: "for_each_dirty f c d = (c', d', Inr ())" "keeps B c c'"
       "resident c' = resident c" "spill c' = spill c" "healthy d'" "length (contents d') = n"
    and nth: "\<And>i. i < n \<Longrightarrow> contents d' ! i =
          (if i div EXTENT * EXTENT \<in> fst ` set (dirty_items c) then cell B c i else contents d ! i)"
    by blast
  have "contents d' = map (cell B c) [0..<n]"
  proof (rule nth_equalityI)
    fix i assume "i < length (contents d')"
    then have i: "i < n" using r(6) by simp
    show "contents d' ! i = map (cell B c) [0..<n] ! i"
      using nth [OF i] base [OF i] i cell_base_extent [OF unlisted_base [OF inv], of i] by simp
  qed (use r in simp)
  then show ?thesis using r by blast
qed

end

end
