(* ===== verification/Assurance.thy ===== *)
theory Assurance
  imports Device
begin

text \<open>
  The assurance gate (\<open>src/crates/remanence/src/model/assurance.rs\<close>): what one open established
  about the evidence beneath it, the read bound of a degraded session, and the refusals drawn
  from it. The lines of evidence are kept as the facts they state, their prose left out.
\<close>

datatype assurance_outcome = Verified | Degraded | Refused

fun outcome_as_str :: "assurance_outcome \<Rightarrow> string" where
  "outcome_as_str Verified = ''verified''"
| "outcome_as_str Degraded = ''degraded''"
| "outcome_as_str Refused = ''refused''"

datatype assurance_condition = SourceTruncated | EvidenceConflict

fun condition_as_str :: "assurance_condition \<Rightarrow> rule_identity" where
  "condition_as_str SourceTruncated = ''source-truncated''"
| "condition_as_str EvidenceConflict = ''evidence-conflict''"

definition condition_all :: "assurance_condition list" where
  "condition_all = [SourceTruncated, EvidenceConflict]"

definition from_identity :: "rule_identity \<Rightarrow> assurance_condition option" where
  "from_identity s = find (\<lambda>c. condition_as_str c = s) condition_all"

record byte_range =
  range_start :: nat
  range_end :: nat

definition range_len :: "byte_range \<Rightarrow> nat" where
  "range_len r = range_end r - range_start r"

definition range_is_empty :: "byte_range \<Rightarrow> bool" where
  "range_is_empty r \<longleftrightarrow> range_len r = 0"

datatype evidence =
  Observed string
| ShortBy nat nat
| FirstMissing nat
| WriteWithheld
| LeadingPast nat

record assurance =
  outcome :: assurance_outcome
  condition :: "assurance_condition option"
  evidence_lines :: "evidence list"
  readable :: "byte_range list"
  access :: access_mode
  claim_of :: claim_class
  declared_bytes :: "nat option"
  observed_bytes :: "nat option"
  first_unavailable_byte :: "nat option"

definition verified :: "nat \<Rightarrow> access_mode \<Rightarrow> claim_class \<Rightarrow> assurance" where
  "verified observed m cl =
     \<lparr>outcome = Verified, condition = None, evidence_lines = [],
      readable = [\<lparr>range_start = 0, range_end = observed\<rparr>], access = m, claim_of = cl,
      declared_bytes = None, observed_bytes = Some observed, first_unavailable_byte = None\<rparr>"

definition is_degraded :: "assurance \<Rightarrow> bool" where
  "is_degraded a \<longleftrightarrow> outcome a = Degraded"

section \<open>The read bound of a degraded session\<close>

record read_bound =
  bound_end :: nat
  bound_declared :: nat
  bound_condition :: assurance_condition

definition bound_unavailable :: "read_bound \<Rightarrow> error" where
  "bound_unavailable b = broke_rule unavailable_error (condition_as_str (bound_condition b))"

definition bound_check :: "read_bound \<Rightarrow> nat \<Rightarrow> nat \<Rightarrow> unit result" where
  "bound_check b off n =
     (let e = min (off + n) (2 ^ 64 - 1)
      in if e \<le> bound_end b then Inr () else Inl (bound_unavailable b))"

definition bound_withheld :: "read_bound \<Rightarrow> error" where
  "bound_withheld b = bound_unavailable b"

section \<open>The gate's three answers\<close>

record shortfall =
  sf_declared :: nat
  sf_observed :: nat
  sf_metadata_end :: nat

definition degraded :: "shortfall \<Rightarrow> string \<Rightarrow> claim_class \<Rightarrow> assurance" where
  "degraded s declaration cl =
     \<lparr>outcome = Degraded, condition = Some SourceTruncated,
      evidence_lines =
        [Observed declaration, ShortBy (sf_observed s) (sf_declared s - sf_observed s),
         FirstMissing (sf_observed s), WriteWithheld] @
        (if sf_metadata_end s > sf_observed s then [LeadingPast (sf_metadata_end s)] else []),
      readable = [\<lparr>range_start = 0, range_end = sf_observed s\<rparr>], access = ReadOnlyMode,
      claim_of = cl, declared_bytes = Some (sf_declared s),
      observed_bytes = Some (sf_observed s), first_unavailable_byte = Some (sf_observed s)\<rparr>"

definition conflicted :: error where
  "conflicted =
     broke_rule (categorized_image InvalidImage ''fat'') (condition_as_str EvidenceConflict)"

definition assurance_read_only :: "assurance \<Rightarrow> error" where
  "assurance_read_only a =
     broke_rule read_only_error
       (condition_as_str (case condition a of Some c \<Rightarrow> c | None \<Rightarrow> SourceTruncated))"

lemma from_identity_as_str: "from_identity (condition_as_str c) = Some c"
  by (cases c) (simp_all add: from_identity_def condition_all_def)

end
