(* ===== verification/Cache_Device.thy ===== *)
theory Cache_Device
  imports Cache_Commit Assurance
begin

text \<open>
  The session's presented disk (\<open>Composed\<close> of \<open>model/disk/state.rs\<close>: the cache over the virtual
  disk) and the two ends of its edits, \<open>commit\<close>'s write-through with \<open>mark_committed\<close>, and
  \<open>discard_dirty\<close>. The composed disk satisfies the contract \<open>block_device\<close>.
\<close>

section \<open>Bytes at and beyond the end of the base\<close>

text \<open>Nothing but zeros is held past the end of the base.\<close>

definition padded :: "bytes \<Rightarrow> cache \<Rightarrow> bool" where
  "padded B c \<longleftrightarrow> (\<forall>i. length B \<le> i \<longrightarrow> cell B c i = 0)"

lemma padded_keeps: "padded B c \<Longrightarrow> keeps B c c' \<Longrightarrow> padded B c'"
  by (simp add: padded_def keeps_cell)

text \<open>What the session presents.\<close>

definition presented :: "bytes \<Rightarrow> cache \<Rightarrow> bytes" where
  "presented B c = map (cell B c) [0..<length B]"

lemma length_presented [simp]: "length (presented B c) = length B"
  by (simp add: presented_def)

lemma nth_presented [simp]: "i < length B \<Longrightarrow> presented B c ! i = cell B c i"
  by (simp add: presented_def)

lemma presented_keeps: "keeps B c c' \<Longrightarrow> presented B c' = presented B c"
  by (simp add: presented_def keeps_cell)

lemma cell_with_bound: "cell B (with_bound h n) i = (if i < length B then B ! i else 0)"
  by (rule cell_base_extent) (rule extent_view_with_bound)

section \<open>The composed disk\<close>

record composed =
  base_image :: bytes
  session_cache :: cache
  session_bound :: "read_bound option"

definition composed_len :: "composed \<Rightarrow> nat" where
  "composed_len d = length (base_image d)"

definition composed_read_at :: "composed \<Rightarrow> nat \<Rightarrow> nat \<Rightarrow> composed \<times> bytes result" where
  "composed_read_at d off n =
     (case (case session_bound d of None \<Rightarrow> Inr () | Some b \<Rightarrow> bound_check b off n) of
        Inl e \<Rightarrow> (d, Inl e)
      | Inr _ \<Rightarrow>
          (case cache_read_at (length (base_image d)) (image_read (base_image d))
                  (session_cache d) off n of
             (c, r) \<Rightarrow> (d\<lparr>session_cache := c\<rparr>, r)))"

definition composed_write_at :: "composed \<Rightarrow> nat \<Rightarrow> bytes \<Rightarrow> composed \<times> unit result" where
  "composed_write_at d off bs =
     (case cache_write_at (length (base_image d)) (image_read (base_image d))
             (session_cache d) off bs of
        (c, r) \<Rightarrow> (d\<lparr>session_cache := c\<rparr>, r))"

definition composed_contents :: "composed \<Rightarrow> bytes" where
  "composed_contents d = presented (base_image d) (session_cache d)"

definition composed_healthy :: "composed \<Rightarrow> bool" where
  "composed_healthy d \<longleftrightarrow> cache_inv (base_image d) (session_cache d) \<and>
     storage_ok (session_cache d) \<and> padded (base_image d) (session_cache d) \<and>
     session_bound d = None"

lemma slice_presented:
  "off + n \<le> length B \<Longrightarrow> map (cell B c) [off..<off + n] = slice off n (presented B c)"
  by (auto simp: list_eq_iff_nth_eq slice_def)

interpretation composed: block_device composed_len composed_read_at composed_write_at
  composed_contents composed_healthy
proof
  fix d :: composed and off n :: nat
  assume h: "composed_healthy d" and le: "off + n \<le> length (composed_contents d)"
  define B c where B: "B = base_image d" and c: "c = session_cache d"
  have inv: "cache_inv B c" and ok: "storage_ok c" and pad: "padded B c"
    using h by (simp_all add: composed_healthy_def B c)
  have le': "off + n \<le> length B" using le by (simp add: composed_contents_def B)
  obtain c' where r: "cache_read_at (length B) (image_read B) c off n =
      (c', Inr (map (cell B c) [off..<off + n]))" and k: "keeps B c c'"
    using image_base.cache_read_at_total [OF inv ok le'] by blast
  show "\<exists>d'. composed_read_at d off n = (d', Inr (slice off n (composed_contents d))) \<and>
     composed_healthy d' \<and> composed_contents d' = composed_contents d"
    using h r keeps_inv [OF k] storage_ok_keeps [OF k] ok padded_keeps [OF pad k]
      presented_keeps [OF k] slice_presented [OF le', of c]
    by (simp add: composed_read_at_def composed_healthy_def composed_contents_def
        B c)
next
  fix d :: composed and off and bs :: bytes
  assume h: "composed_healthy d" and le: "off + length bs \<le> length (composed_contents d)"
  define B c where B: "B = base_image d" and c: "c = session_cache d"
  have inv: "cache_inv B c" and ok: "storage_ok c" and pad: "padded B c"
    using h by (simp_all add: composed_healthy_def B c)
  have le': "off + length bs \<le> length B" using le by (simp add: composed_contents_def B)
  obtain c' where w: "cache_write_at (length B) (image_read B) c off bs = (c', Inr ())"
    and i': "cache_inv B c'" "storage_ok c'"
    and cl: "\<And>i. cell B c' i =
      (if off \<le> i \<and> i < off + length bs then bs ! (i - off) else cell B c i)"
    using image_base.cache_write_at_total [OF inv ok, of off bs] by blast
  have "padded B c'" using pad cl le' by (simp add: padded_def)
  moreover have "presented B c' = splice off bs (presented B c)"
    using cl le' by (intro nth_equalityI) (simp_all add: nth_splice)
  ultimately show "\<exists>d'. composed_write_at d off bs = (d', Inr ()) \<and>
     composed_healthy d' \<and> composed_contents d' = splice off bs (composed_contents d)"
    using h w i'
    by (simp add: composed_write_at_def composed_healthy_def composed_contents_def B c)
qed (simp_all add: composed_len_def composed_contents_def)

section \<open>Commit and rollback\<close>

lemma through_take_EXTENT: "through_take n eo EXTENT = min EXTENT (n - eo)"
  by (auto simp: through_take_def)

lemma write_through_image:
  assumes inv: "cache_inv B c" and ok: "storage_ok c"
  shows "\<exists>c'. write_through length image_write c B = (c', presented B c, Inr ()) \<and>
     keeps B c c' \<and> resident c' = resident c \<and> spill c' = spill c"
proof -
  have "\<exists>c' d'. write_through length image_write c B = (c', d', Inr ()) \<and> keeps B c c' \<and>
       resident c' = resident c \<and> spill c' = spill c \<and> True \<and>
       d' = map (cell B c) [0..<length B]"
    unfolding write_through_def
    by (rule image.for_each_dirty_device [OF inv ok TrueI refl])
      (simp_all add: through_take_EXTENT)
  then show ?thesis by (auto simp: presented_def)
qed

text \<open>The base has become what was presented: the extents kept resident mirror it.\<close>

lemma mark_committed_presents:
  assumes inv: "cache_inv B c" and pad: "padded B c"
  shows "cache_inv (presented B c) (mark_committed c)"
    and "cell (presented B c) (mark_committed c) i = cell B c i"
proof -
  define j where "j = join_offloads c"
  have k: "keeps B c j" and nf: "in_flight j = []"
    using keeps_join_offloads [OF inv] by (simp_all add: j_def)
  note inv' = keeps_inv [OF k]
  let ?B = "presented B c"
  define m where "m = mark_committed c"
  have m: "resident m = map (\<lambda>(eo, e). (eo, e\<lparr>dirty := False\<rparr>)) (resident j)"
    "spill m = None" "prespilled m = []" "in_flight m = []" "jobs m = jobs j" "done_q m = done_q j"
    "clock m = clock j" "bound m = bound j"
    using nf by (simp_all add: m_def mark_committed_def j_def Let_def)
  have mo: "map_of (resident m) eo = map_option (\<lambda>e. e\<lparr>dirty := False\<rparr>) (map_of (resident j) eo)" for eo
    by (simp add: m map_of_map)
  have quiet: "jobs j = []" "done_q j = []"
    using flight_invD(3) [OF inv'] nf by (auto simp: work_def)
  have view: "extent_view B j eo = base_extent ?B eo" if "EXTENT dvd eo" for eo
  proof (rule nth_equalityI)
    fix t assume "t < length (extent_view B j eo)"
    then have t: "t < EXTENT" using length_extent_view [OF inv'] by simp
    have "extent_view B j eo ! t = cell B j (eo + t)"
      using cell_in_extent [OF that, of "eo + t"] t by simp
    then show "extent_view B j eo ! t = base_extent ?B eo ! t"
      using t pad keeps_cell [OF k] by (simp add: nth_base_extent padded_def)
  qed (simp add: length_extent_view [OF inv'])
  have "res_inv ?B m"
  proof -
    have "omap_ok (resident m)"
      using omap_okD(1) [OF inv'] by (simp add: omap_ok_def m comp_def case_prod_unfold)
    moreover have "EXTENT dvd eo \<and> length (data e) = EXTENT \<and> version e \<le> clock m \<and>
        (\<not> dirty e \<longrightarrow> data e = base_extent ?B eo \<and> \<not> holds m eo)"
      if e: "map_of (resident m) eo = Some e" for eo e
    proof -
      obtain e0 where e0: "map_of (resident j) eo = Some e0" "e = e0\<lparr>dirty := False\<rparr>"
        using e by (auto simp: mo)
      have "data e0 = base_extent ?B eo"
        using view [OF res_invD(1) [OF inv' e0(1)]] e0(1) by (simp add: extent_view_def)
      then show ?thesis using e0 res_invD(1-3) [OF inv' e0(1)] m by (simp add: holds_def)
    qed
    ultimately show ?thesis by (simp add: res_inv_def)
  qed
  moreover have "spill_inv m" by (simp add: spill_inv_def m holds_def)
  moreover have "flight_inv m"
    using quiet by (simp add: flight_inv_def m work_def)
  moreover have "prespill_inv m" by (simp add: prespill_inv_def m)
  ultimately have im: "cache_inv ?B m"
    using inv' m by (simp add: cache_inv_def)
  then show "cache_inv (presented B c) (mark_committed c)" by (simp add: m_def)
  have "extent_view ?B m eo = base_extent ?B eo" if "EXTENT dvd eo" for eo
  proof (cases "map_of (resident m) eo")
    case (Some e)
    moreover from this have "\<not> dirty e" by (auto simp: mo)
    ultimately show ?thesis using res_invD(4) [OF im] by (simp add: extent_view_def)
  qed (simp add: extent_view_def slot_data_def m)
  then have "cell ?B m i = (if i < length ?B then ?B ! i else 0)"
    by (intro cell_base_extent) simp
  then show "cell (presented B c) (mark_committed c) i = cell B c i"
    using pad by (auto simp: m_def padded_def)
qed

lemma discard_dirty_presents:
  assumes inv: "cache_inv B c"
  shows "cache_inv B (discard_dirty c)"
    and "cell B (discard_dirty c) i = (if i < length B then B ! i else 0)"
proof -
  define j where "j = join_offloads c"
  have k: "keeps B c j" and nf: "in_flight j = []"
    using keeps_join_offloads [OF inv] by (simp_all add: j_def)
  note inv' = keeps_inv [OF k]
  define m where "m = discard_dirty c"
  have m: "resident m = filter (\<lambda>(eo, e). \<not> dirty e) (resident j)"
    "spill m = None" "prespilled m = []" "in_flight m = []" "jobs m = jobs j" "done_q m = done_q j"
    "clock m = clock j" "bound m = bound j"
    using nf by (simp_all add: m_def discard_dirty_def j_def Let_def)
  have om: "omap_ok (resident m)"
    using omap_ok_filter [OF omap_okD(1) [OF inv']] by (simp add: m)
  have mo: "map_of (resident j) eo = Some e \<and> \<not> dirty e" if "map_of (resident m) eo = Some e" for eo e
    using map_of_SomeD [OF that] omap_in_set [OF omap_okD(1) [OF inv']] by (auto simp: m)
  have quiet: "jobs j = []" "done_q j = []"
    using flight_invD(3) [OF inv'] nf by (auto simp: work_def)
  have "res_inv B m"
    unfolding res_inv_def
  proof (intro conjI allI impI om)
    fix eo e assume e: "map_of (resident m) eo = Some e"
    note d = res_invD [OF inv' conjunct1 [OF mo [OF e]]]
    show "EXTENT dvd eo" "length (data e) = EXTENT" "version e \<le> clock m"
      using d(1-3) m(7) by simp_all
    show "data e = base_extent B eo" using d(4) mo [OF e] by simp
    show "\<not> holds m eo" by (simp add: holds_def m(2))
  qed
  moreover have "spill_inv m" by (simp add: spill_inv_def m holds_def)
  moreover have "flight_inv m"
    using quiet by (simp add: flight_inv_def m work_def)
  moreover have "prespill_inv m" by (simp add: prespill_inv_def m)
  ultimately have im: "cache_inv B m"
    using inv' m by (simp add: cache_inv_def)
  then show "cache_inv B (discard_dirty c)" by (simp add: m_def)
  have "extent_view B m eo = base_extent B eo" for eo
  proof (cases "map_of (resident m) eo")
    case (Some e)
    then show ?thesis using mo [OF Some] res_invD(4) [OF im Some] by (simp add: extent_view_def)
  qed (simp add: extent_view_def slot_data_def m)
  then show "cell B (discard_dirty c) i = (if i < length B then B ! i else 0)"
    unfolding m_def [symmetric] by (rule cell_base_extent)
qed

end
