(* ===== verification/Session.thy ===== *)
theory Session
  imports Cache_Device
begin

text \<open>
  A session over an image as a sequence of steps: reads and writes through the cache, read-ahead
  installing extents of the base, and the offload worker running a job at any point between
  them. The abstract specification is the image itself, read and spliced in place; the cache
  refines it under every schedule of the worker.
\<close>

datatype session_op =
  SRead nat nat
| SWrite nat bytes
| SPrefetch nat
| SWorker

fun op_within :: "nat \<Rightarrow> session_op \<Rightarrow> bool" where
  "op_within n (SRead off len) \<longleftrightarrow> off + len \<le> n"
| "op_within n (SWrite off bs) \<longleftrightarrow> off + length bs \<le> n"
| "op_within n (SPrefetch k) \<longleftrightarrow> True"
| "op_within n SWorker \<longleftrightarrow> True"

text \<open>The specification: what the image holds after the step, and what the step answers.\<close>

fun image_step :: "bytes \<Rightarrow> session_op \<Rightarrow> bytes \<times> bytes" where
  "image_step I (SRead off n) = (I, slice off n I)"
| "image_step I (SWrite off bs) = (splice off bs I, [])"
| "image_step I (SPrefetch k) = (I, [])"
| "image_step I SWorker = (I, [])"

fun image_run :: "bytes \<Rightarrow> session_op list \<Rightarrow> bytes \<times> bytes list" where
  "image_run I [] = (I, [])"
| "image_run I (x # ops) =
     (let (I1, out) = image_step I x; (I2, outs) = image_run I1 ops in (I2, out # outs))"

text \<open>
  The session: the cache over the base. The read-ahead thread reads one extent of the base and
  hands it to \<open>insert_prefetched\<close>.
\<close>

fun session_step :: "bytes \<Rightarrow> cache \<Rightarrow> session_op \<Rightarrow> cache \<times> bytes result" where
  "session_step B c (SRead off n) = cache_read_at (length B) (image_read B) c off n"
| "session_step B c (SWrite off bs) =
     (case cache_write_at (length B) (image_read B) c off bs of
        (c', Inl e) \<Rightarrow> (c', Inl e)
      | (c', Inr _) \<Rightarrow> (c', Inr []))"
| "session_step B c (SPrefetch k) =
     (case load_base (length B) (image_read B) (k * EXTENT) of
        Inl e \<Rightarrow> (c, Inr [])
      | Inr (bs, _) \<Rightarrow> (insert_prefetched c (k * EXTENT) bs, Inr []))"
| "session_step B c SWorker = (worker_step c, Inr [])"

fun session_run :: "bytes \<Rightarrow> cache \<Rightarrow> session_op list \<Rightarrow> cache \<times> bytes list result" where
  "session_run B c [] = (c, Inr [])"
| "session_run B c (x # ops) =
     (case session_step B c x of
        (c1, Inl e) \<Rightarrow> (c1, Inl e)
      | (c1, Inr out) \<Rightarrow>
          (case session_run B c1 ops of
             (c2, Inl e) \<Rightarrow> (c2, Inl e)
           | (c2, Inr outs) \<Rightarrow> (c2, Inr (out # outs))))"

section \<open>One step refines the image\<close>

lemma cell_write_presented:
  assumes cl: "\<And>i. cell B c' i =
      (if off \<le> i \<and> i < off + length bs then bs ! (i - off) else cell B c i)"
    and le: "off + length bs \<le> length B" and pad: "padded B c"
  shows "padded B c'" and "presented B c' = splice off bs (presented B c)"
proof -
  show "padded B c'" using pad cl le by (simp add: padded_def)
  show "presented B c' = splice off bs (presented B c)"
    using cl le by (intro nth_equalityI) (simp_all add: nth_splice)
qed

lemma step_quiet:
  "keeps B c c' \<Longrightarrow> padded B c \<Longrightarrow>
   cache_inv B c' \<and> padded B c' \<and> presented B c' = presented B c \<and> host_ok c' = host_ok c"
  by (simp add: keeps_inv padded_keeps presented_keeps) (simp add: keeps_def)

lemma session_step_refines:
  assumes inv: "cache_inv B c" and pad: "padded B c" and within: "op_within (length B) x"
    and step: "session_step B c x = (c', Inr out)"
  shows "cache_inv B c' \<and> padded B c' \<and> host_ok c' = host_ok c \<and>
     image_step (presented B c) x = (presented B c', out)"
proof (cases x)
  case (SRead off n)
  have r: "cache_read_at (length B) (image_read B) c off n = (c', Inr out)"
    using step SRead by simp
  then have "out = map (cell B c) [off..<off + n] \<and> keeps B c c'"
    using image_base.cache_read_at_Inr [OF inv r] by simp
  then show ?thesis
    using step_quiet [OF _ pad] SRead within slice_presented [of off n B c] by simp
next
  case (SWrite off bs)
  have out: "out = []" and "cache_write_at (length B) (image_read B) c off bs = (c', Inr ())"
    using step SWrite by (auto split: prod.splits sum.splits)
  then obtain c1 where w: "write_loop (length B) (image_read B) off bs (drain_offloads c)
      (off div EXTENT * EXTENT) = (c1, Inr ())" and c': "c' = maybe_offload c1"
    by (auto simp: cache_write_at_def split: prod.splits sum.splits)
  let ?eo = "off div EXTENT * EXTENT"
  have lo: "?eo \<le> off" "off < ?eo + EXTENT"
    using div_mult_mod_eq [of off EXTENT] mod_less_divisor [OF EXTENT_pos, of off] by linarith+
  have k: "keeps B c (drain_offloads c)" by (rule keeps_drain [OF inv])
  have w': "cache_inv B c1 \<and> host_ok c1 = host_ok (drain_offloads c) \<and>
     (\<forall>i. cell B c1 i = (if max ?eo off \<le> i \<and> i < off + length bs then bs ! (i - off)
        else cell B (drain_offloads c) i))"
    by (rule image_base.write_loop_Inr [OF keeps_inv [OF k] _ lo(2) w]) simp
  then have k1: "keeps B c1 c'" using keeps_maybe_offload c' by simp
  have cl: "cell B c' i = (if off \<le> i \<and> i < off + length bs then bs ! (i - off) else cell B c i)" for i
    using w' keeps_cell [OF k] keeps_cell [OF k1] lo(1) by (simp add: max_def)
  have "host_ok c' = host_ok c" using k k1 w' by (simp add: keeps_def)
  then show ?thesis
    using cell_write_presented [OF cl _ pad] within SWrite out keeps_inv [OF k1] by simp
next
  case (SPrefetch k)
  have "load_base (length B) (image_read B) (k * EXTENT) = Inr (base_extent B (k * EXTENT), False)"
    by (rule image_base.load_base_eq)
  then have "c' = insert_prefetched c (k * EXTENT) (base_extent B (k * EXTENT))" "out = []"
    using step SPrefetch by auto
  then show ?thesis
    using step_quiet [OF keeps_insert_prefetched [OF inv _ refl] pad, of "k * EXTENT"] SPrefetch
    by simp
next
  case SWorker
  then show ?thesis using step step_quiet [OF keeps_worker_step [OF inv] pad] by auto
qed

lemma session_step_total:
  assumes inv: "cache_inv B c" and within: "op_within (length B) x" and ok: "storage_ok c"
  shows "\<exists>c' out. session_step B c x = (c', Inr out)"
proof (cases x)
  case (SRead off n)
  then show ?thesis
    using image_base.cache_read_at_total [OF inv ok, of off n] within by auto
next
  case (SWrite off bs)
  then show ?thesis
    using image_base.cache_write_at_total [OF inv ok, of off bs] by auto
next
  case (SPrefetch k)
  then show ?thesis by (simp add: image_base.load_base_eq)
qed simp

section \<open>Whole sessions\<close>

lemma session_run_refines:
  assumes "cache_inv B c" "padded B c" "list_all (op_within (length B)) ops"
    and "session_run B c ops = (c', Inr outs)"
  shows "cache_inv B c' \<and> padded B c' \<and> host_ok c' = host_ok c \<and>
     image_run (presented B c) ops = (presented B c', outs)"
  using assms
proof (induction ops arbitrary: c outs)
  case (Cons x ops)
  from Cons.prems(4) obtain c1 out outs1 where s: "session_step B c x = (c1, Inr out)"
    and r: "session_run B c1 ops = (c', Inr outs1)" and o: "outs = out # outs1"
    by (auto split: prod.splits sum.splits)
  have 1: "cache_inv B c1 \<and> padded B c1 \<and> host_ok c1 = host_ok c \<and>
     image_step (presented B c) x = (presented B c1, out)"
    using session_step_refines [OF Cons.prems(1,2) _ s] Cons.prems(3) by simp
  have "cache_inv B c' \<and> padded B c' \<and> host_ok c' = host_ok c1 \<and>
     image_run (presented B c1) ops = (presented B c', outs1)"
    using Cons.IH [OF _ _ _ r] 1 Cons.prems(3) by simp
  then show ?case using 1 o by simp
qed auto

lemma session_run_total:
  assumes "cache_inv B c" "padded B c" "list_all (op_within (length B)) ops" "storage_ok c"
  shows "\<exists>c' outs. session_run B c ops = (c', Inr outs)"
  using assms
proof (induction ops arbitrary: c)
  case (Cons x ops)
  obtain c1 out where s: "session_step B c x = (c1, Inr out)"
    using session_step_total Cons.prems by force
  have 1: "cache_inv B c1 \<and> padded B c1 \<and> host_ok c1 = host_ok c"
    using session_step_refines [OF Cons.prems(1,2) _ s] Cons.prems(3) by simp
  then have "\<exists>c' outs. session_run B c1 ops = (c', Inr outs)"
    using Cons.IH Cons.prems(3,4) by (simp add: storage_ok_def)
  then show ?case using s by auto
qed simp

lemma fresh_session:
  "cache_inv B (with_bytes_offloading h n)" "padded B (with_bytes_offloading h n)"
  "presented B (with_bytes_offloading h n) = B"
proof -
  let ?c = "with_bound h (max ((n + EXTENT - 1) div EXTENT) 1)"
  have k: "keeps B ?c (with_bytes_offloading h n)"
    unfolding with_bytes_offloading_def with_bytes_def
    by (rule keeps_cong [OF cache_inv_with_bound]) (simp_all add: with_bound_def)
  show "cache_inv B (with_bytes_offloading h n)" by (rule keeps_inv [OF k])
  have p: "padded B ?c" by (simp add: padded_def cell_with_bound)
  show "padded B (with_bytes_offloading h n)" by (rule padded_keeps [OF p k])
  show "presented B (with_bytes_offloading h n) = B"
    unfolding presented_keeps [OF k] by (rule nth_equalityI) (simp_all add: cell_with_bound)
qed

section \<open>The properties\<close>

lemma no_storage_failure: "storage_ok (with_bytes_offloading (\<lambda>k. True) n)"
  by (simp add: storage_ok_def with_bytes_offloading_def with_bytes_def with_bound_def)

text \<open>
  C2: For every pattern of host storage failures and every schedule of the worker, a session of
  reads, writes and read-ahead inside the image that was not refused answered each read with the
  bytes the image would hold at that point, and presents at its end the image with exactly the
  writes spliced in.
\<close>

theorem session_refines_image:
  assumes "list_all (op_within (length B)) ops"
  shows "case session_run B (with_bytes_offloading h n) ops of
           (c, Inr outs) \<Rightarrow> image_run B ops = (presented B c, outs)
         | (c, Inl e) \<Rightarrow> \<not> (\<forall>k. h k)"
proof (cases "session_run B (with_bytes_offloading h n) ops")
  case (Pair c r)
  show ?thesis
  proof (cases r)
    case (Inl e)
    have "\<not> storage_ok (with_bytes_offloading h n)"
      using session_run_total [OF fresh_session(1,2) assms, of h n] Pair Inl by auto
    then show ?thesis
      using Pair Inl
      by (simp add: storage_ok_def with_bytes_offloading_def with_bytes_def with_bound_def)
  next
    case (Inr outs)
    then show ?thesis
      using session_run_refines [OF fresh_session(1,2) assms, of h n c outs] Pair
        fresh_session(3) [of B h n] by simp
  qed
qed

lemma session_refines_image_witness:
  "case session_run [1, 2, 3] (with_bytes_offloading (\<lambda>k. k \<noteq> 1) 1)
       [SWrite 1 [9], SWorker, SRead 0 3] of
     (c, Inr outs) \<Rightarrow> image_run [1, 2, 3] [SWrite 1 [9], SWorker, SRead 0 3] =
        (presented [1, 2, 3] c, outs)
   | (c, Inl e) \<Rightarrow> \<not> (\<forall>k. k \<noteq> (1 :: nat))"
  by (rule session_refines_image) simp

text \<open>The pieces of a commit over an image, run in the order of the code.\<close>

definition session_commit :: "cache \<Rightarrow> bytes \<Rightarrow> cache \<times> bytes \<times> unit result" where
  "session_commit c B =
     (case write_through length image_write (join_offloads c) B of
        (c', B', Inl e) \<Rightarrow> (c', B', Inl e)
      | (c', B', Inr _) \<Rightarrow> (mark_committed c', B', Inr ()))"

text \<open>
  C4: While the private storage delivers, committing any session inside the image writes the
  base into exactly the image the specification holds, and the extents kept resident present
  that same image over the new base, with nothing left uncommitted.
\<close>

theorem session_commit_correct:
  assumes "list_all (op_within (length B)) ops"
  shows "\<exists>c outs c'. session_run B (with_bytes_offloading (\<lambda>k. True) n) ops = (c, Inr outs) \<and>
    session_commit c B = (c', fst (image_run B ops), Inr ()) \<and>
    presented (fst (image_run B ops)) c' = fst (image_run B ops) \<and> \<not> modified c'"
proof -
  let ?c0 = "with_bytes_offloading (\<lambda>k. True) n"
  note ok0 = no_storage_failure [of n]
  obtain c outs where r: "session_run B ?c0 ops = (c, Inr outs)"
    using session_run_total [OF fresh_session(1,2) assms ok0] by blast
  have c: "cache_inv B c" "padded B c" "storage_ok c" "presented B c = fst (image_run B ops)"
    using session_run_refines [OF fresh_session(1,2) assms r] ok0 fresh_session(3) [of B]
    by (simp_all add: storage_ok_def)
  have j: "keeps B c (join_offloads c)" using keeps_join_offloads [OF c(1)] by simp
  obtain c1 where w: "write_through length image_write (join_offloads c) B =
      (c1, presented B (join_offloads c), Inr ())" and k: "keeps B (join_offloads c) c1"
    using write_through_image [OF keeps_inv [OF j]] c(3) storage_ok_keeps [OF j] by blast
  have k1: "keeps B c c1" by (rule keeps_trans [OF j k])
  have p1: "padded B c1" by (rule padded_keeps [OF c(2) k1])
  have e: "presented B c1 = fst (image_run B ops)" using presented_keeps [OF k1] c(4) by simp
  have "presented (presented B c1) (mark_committed c1) = presented B c1"
    using mark_committed_presents(2) [OF keeps_inv [OF k1] p1] by (simp add: presented_def)
  moreover have "\<not> modified (mark_committed c1)"
    by (simp add: modified_def mark_committed_def Let_def case_prod_unfold)
  moreover have "presented B (join_offloads c) = fst (image_run B ops)"
    using presented_keeps [OF j] c(4) by simp
  ultimately show ?thesis using r w e by (simp add: session_commit_def)
qed

lemma session_commit_correct_witness:
  "\<exists>c outs c'. session_run [1, 2, 3] (with_bytes_offloading (\<lambda>k. True) 1) [SWrite 1 [9, 8]] =
      (c, Inr outs) \<and> session_commit c [1, 2, 3] = (c', [1, 9, 8], Inr ()) \<and>
    presented [1, 9, 8] c' = [1, 9, 8] \<and> \<not> modified c'"
  using session_commit_correct [of "[1, 2, 3]" "[SWrite 1 [9, 8]]" 1]
  by (simp add: splice_def)

text \<open>
  Rolling back any session that was not refused presents the base again, with nothing left
  uncommitted, whatever the private storage did to the worker's writes.
\<close>

theorem session_rollback_correct:
  assumes "list_all (op_within (length B)) ops"
    and "session_run B (with_bytes_offloading h n) ops = (c, Inr outs)"
  shows "presented B (discard_dirty c) = B \<and> \<not> modified (discard_dirty c)"
proof
  have inv: "cache_inv B c"
    using session_run_refines [OF fresh_session(1,2) assms] by simp
  show "presented B (discard_dirty c) = B"
    by (rule nth_equalityI) (simp_all add: discard_dirty_presents(2) [OF inv])
  show "\<not> modified (discard_dirty c)"
    by (auto simp: modified_def discard_dirty_def Let_def list_ex_iff)
qed

lemma session_rollback_correct_witness:
  "\<exists>c outs. session_run [1, 2] (with_bytes_offloading (\<lambda>k. True) 1) [SWrite 0 [7], SWorker] =
      (c, Inr outs) \<and> presented [1, 2] (discard_dirty c) = [1, 2] \<and> \<not> modified (discard_dirty c)"
proof -
  have ops: "list_all (op_within (length [1, 2 :: u8])) [SWrite 0 [7], SWorker]" by simp
  obtain c outs where "session_run [1, 2] (with_bytes_offloading (\<lambda>k. True) 1)
      [SWrite 0 [7], SWorker] = (c, Inr outs)"
    using session_run_total [OF fresh_session(1,2) ops no_storage_failure] by blast
  with session_rollback_correct [OF ops this] show ?thesis by blast
qed

lemma one_write_cache:
  assumes "0 < length B"
  shows "cache_write_at (length B) (image_read B) (with_bound h 1) 0 [x] =
   (\<lparr>resident = [(0, \<lparr>data = splice 0 [x] (base_extent B 0), dirty = True, used = 2, version = 2\<rparr>)],
     bound = 1, clock = 2, spill = None, offloader = False, offload_enabled = False,
     in_flight = [], prespilled = [], jobs = [], done_q = [], host_ok = h, host_calls = 0\<rparr>, Inr ())"
proof -
  have e: "EXTENT \<noteq> 0" "\<not> EXTENT < 1" "\<not> EXTENT \<le> 1" by (simp_all add: EXTENT_def)
  have m: "make_room (with_bound h 1) = (with_bound h 1, Inr ())"
    by (subst make_room.simps) (simp add: with_bound_def)
  have d: "drain_offloads (with_bound h 1) = with_bound h 1"
    by (simp add: drain_offloads_def with_bound_def)
  have l: "load_extent (length B) (image_read B) (with_bound h 1) 0 =
      (with_bound h 1, Inr (base_extent B 0, False))"
    by (simp add: load_extent_def with_bound_def image_base.load_base_eq)
  have r: "ensure_resident (length B) (image_read B) (with_bound h 1) 0 =
     ((with_bound h 1)\<lparr>resident := [(0, \<lparr>data = base_extent B 0, dirty = False, used = 1, version = 1\<rparr>)],
        clock := 1\<rparr>, Inr ())"
    using m l by (simp add: ensure_resident_def tick_def with_bound_def)
  have w0: "write_loop (length B) (image_read B) 0 [x] c EXTENT = (c, Inr ())" for c
    by (subst write_loop.simps) (simp add: e)
  define c1 where "c1 = (with_bound h 1)\<lparr>resident :=
      [(0, \<lparr>data = base_extent B 0, dirty = False, used = 1, version = 1\<rparr>)], clock := 1\<rparr>"
  have "write_loop (length B) (image_read B) 0 [x] (with_bound h 1) 0 =
      (alter_extent c1 0 0 [x], Inr ())"
    by (subst write_loop.simps) (simp add: r [simplified] e [simplified] w0 min_def slice_def c1_def)
  then have "cache_write_at (length B) (image_read B) (with_bound h 1) 0 [x] =
      (maybe_offload (alter_extent c1 0 0 [x]), Inr ())"
    by (simp only: cache_write_at_def d div_0 mult_0 mult_zero_left) simp
  then show ?thesis
    by (simp add: alter_extent_def tick_def c1_def with_bound_def maybe_offload_def)
qed



end
