(* ===== verification/Journal.thy ===== *)
theory Journal
  imports Device "HOL-Library.Sublist"
begin

text \<open>
  The recovery journal beneath the commit point (\<open>src/crates/remanence/src/io/journal.rs\<close>): the
  sealed sidecar, its verification, the walk over its records, reconciling and retiring. The
  sidecar is the bytes of its file, \<open>None\<close> where there is none. Reads of the sidecar fail only
  where it ends; a medium claimed whole is its bytes.
\<close>

section \<open>The seal\<close>

definition MAGIC :: bytes where
  "MAGIC = [0x52, 0x4D, 0x4E, 0x55, 0x4E, 0x44, 0x4F, 0x31]"

definition HEADER_LEN :: nat where "HEADER_LEN = 32"
definition SEAL_LEN :: nat where "SEAL_LEN = 8"
definition CHUNK :: nat where "CHUNK = 64 * 1024"
definition FNV_SEED :: u64 where "FNV_SEED = 0xcbf29ce484222325"

fun fnv1a_extend :: "u64 \<Rightarrow> bytes \<Rightarrow> u64" where
  "fnv1a_extend h [] = h"
| "fnv1a_extend h (b # bs) = fnv1a_extend ((h XOR ucast b) * 0x100000001b3) bs"

definition le64 :: "bytes \<Rightarrow> nat \<Rightarrow> nat" where
  "le64 bs off = le_nat (slice off 8 bs)"

section \<open>Writing the sidecar\<close>

record sealed_writer =
  sw_file :: bytes
  sw_hash :: u64

definition writer_create :: sealed_writer where
  "writer_create = \<lparr>sw_file = [], sw_hash = FNV_SEED\<rparr>"

definition writer_write :: "sealed_writer \<Rightarrow> bytes \<Rightarrow> sealed_writer" where
  "writer_write w bs = w\<lparr>sw_hash := fnv1a_extend (sw_hash w) bs, sw_file := sw_file w @ bs\<rparr>"

definition seal_and_sync :: "sealed_writer \<Rightarrow> bytes" where
  "seal_and_sync w = sw_file w @ le_bytes 8 (unat (sw_hash w))"

section \<open>Verifying the seal\<close>

record armed_header =
  original_len :: nat
  new_len :: nat
  record_count :: nat
  body_len :: nat

function hash_chunks :: "bytes \<Rightarrow> nat \<Rightarrow> nat \<Rightarrow> u64 \<Rightarrow> bytes \<Rightarrow> (u64 \<times> bytes) result" where
  "hash_chunks f body at h header =
     (if at < body
      then let n = min (body - at) CHUNK
           in case file_read_exact_at f at n of
                None \<Rightarrow> Inl io_error
              | Some buf \<Rightarrow>
                  hash_chunks f body (at + n) (fnv1a_extend h buf)
                    (if at = 0 then take HEADER_LEN buf else header)
      else Inr (h, header))"
  by pat_completeness auto
termination
  by (relation "measure (\<lambda>(f, body, at, h, header). body - at)") (auto simp: CHUNK_def)

declare hash_chunks.simps [simp del]

definition verify_sealed :: "bytes \<Rightarrow> armed_header option result" where
  "verify_sealed f =
     (if length f < HEADER_LEN + SEAL_LEN then Inr None
      else let body = length f - SEAL_LEN
           in rbind (hash_chunks f body 0 FNV_SEED (replicate HEADER_LEN 0)) (\<lambda>(h, header).
              case file_read_exact_at f body SEAL_LEN of
                None \<Rightarrow> Inl io_error
              | Some seal \<Rightarrow>
                  if unat h \<noteq> le_nat seal \<or> take 8 header \<noteq> MAGIC then Inr None
                  else let orig = le64 header 8; new = le64 header 16
                       in if new < orig then Inl io_error
                          else Inr (Some \<lparr>original_len = orig, new_len = new,
                                          record_count = le64 header 24, body_len = body\<rparr>)))"

section \<open>Walking the records\<close>

function restore_chunks ::
  "bytes \<Rightarrow> nat \<Rightarrow> nat \<Rightarrow> nat \<Rightarrow> nat \<Rightarrow> medium_device \<Rightarrow> medium_device \<times> unit result" where
  "restore_chunks f at offset len dn m =
     (if dn < len
      then let n = min (len - dn) CHUNK
           in case file_read_exact_at f (at + dn) n of
                None \<Rightarrow> (m, Inl io_error)
              | Some buf \<Rightarrow>
                  (case medium_write_at m (offset + dn) buf of
                     (m', Inl e) \<Rightarrow> (m', Inl e)
                   | (m', Inr _) \<Rightarrow> restore_chunks f at offset len (dn + n) m')
      else (m, Inr ()))"
  by pat_completeness auto
termination
  by (relation "measure (\<lambda>(f, at, offset, len, dn, m). len - dn)") (auto simp: CHUNK_def)

declare restore_chunks.simps [simp del]

text \<open>\<open>walk_records\<close> from position \<open>at\<close> with \<open>k\<close> records to go; with no device it validates only.\<close>

fun walk_records ::
  "bytes \<Rightarrow> armed_header \<Rightarrow> nat \<Rightarrow> nat \<Rightarrow> medium_device option
     \<Rightarrow> medium_device option \<times> unit result" where
  "walk_records f h 0 at dev =
     (dev, if at \<noteq> body_len h then Inl io_error else Inr ())"
| "walk_records f h (Suc k) at dev =
     (if body_len h - at < 16 then (dev, Inl io_error)
      else case file_read_exact_at f at 16 of
        None \<Rightarrow> (dev, Inl io_error)
      | Some rh \<Rightarrow>
          (let offset = le64 rh 0; len = le64 rh 8; at1 = at + 16
           in if len > body_len h - at1 then (dev, Inl io_error)
              else if \<not> (offset + len < 2 ^ 64 \<and> offset + len \<le> original_len h)
              then (dev, Inl io_error)
              else case dev of
                     None \<Rightarrow> walk_records f h k (at1 + len) None
                   | Some m \<Rightarrow>
                       (case restore_chunks f at1 offset len 0 m of
                          (m', Inl e) \<Rightarrow> (Some m', Inl e)
                        | (m', Inr _) \<Rightarrow> walk_records f h k (at1 + len) (Some m'))))"

section \<open>Retiring and reconciling\<close>

text \<open>
  \<open>retire\<close> empties the sidecar, then removes it. The two flags are the host's answers to the
  two calls; a failed removal leaves the empty, unarmed file.
\<close>

definition retire :: "bool \<times> bool \<Rightarrow> bytes option \<Rightarrow> bytes option \<times> unit result" where
  "retire host sidecar =
     (if \<not> fst host then (sidecar, Inl io_error)
      else (if snd host then None else Some [], Inr ()))"

definition reconcile ::
  "bool \<times> bool \<Rightarrow> bytes option \<Rightarrow> medium_device \<Rightarrow> bytes option \<times> medium_device \<times> unit result" where
  "reconcile host sidecar m =
     (case sidecar of
        None \<Rightarrow> (None, m, Inr ())
      | Some f \<Rightarrow>
          (case verify_sealed f of
             Inl e \<Rightarrow> (sidecar, m, Inl e)
           | Inr None \<Rightarrow> (fst (retire host sidecar), m, Inr ())
           | Inr (Some h) \<Rightarrow>
               (let held = medium_len m
                in if held < original_len h \<or> held > new_len h then (sidecar, m, Inl io_error)
                   else case walk_records f h (record_count h) HEADER_LEN None of
                          (_, Inl e) \<Rightarrow> (sidecar, m, Inl e)
                        | (_, Inr _) \<Rightarrow>
                            (case walk_records f h (record_count h) HEADER_LEN (Some m) of
                               (dev, Inl e) \<Rightarrow> (sidecar, the dev, Inl e)
                             | (dev, Inr _) \<Rightarrow>
                                 (case medium_truncate_and_sync (the dev) (original_len h) of
                                    (m', Inl e) \<Rightarrow> (sidecar, m', Inl e)
                                  | (m', Inr _) \<Rightarrow> (fst (retire host sidecar), m', Inr ()))))))"

section \<open>The bytes of a journal\<close>

definition record_bytes :: "nat \<times> bytes \<Rightarrow> bytes" where
  "record_bytes r = le_bytes 8 (fst r) @ le_bytes 8 (length (snd r)) @ snd r"

definition header_bytes :: "nat \<Rightarrow> nat \<Rightarrow> nat \<Rightarrow> bytes" where
  "header_bytes orig new n = MAGIC @ le_bytes 8 orig @ le_bytes 8 new @ le_bytes 8 n"

definition journal_body :: "nat \<Rightarrow> nat \<Rightarrow> (nat \<times> bytes) list \<Rightarrow> bytes" where
  "journal_body orig new rs = header_bytes orig new (length rs) @ concat (map record_bytes rs)"

definition journal_bytes :: "nat \<Rightarrow> nat \<Rightarrow> (nat \<times> bytes) list \<Rightarrow> bytes" where
  "journal_bytes orig new rs =
     journal_body orig new rs @
     le_bytes 8 (unat (fnv1a_extend FNV_SEED (journal_body orig new rs)))"

text \<open>What a record of an image of \<open>orig\<close> bytes must be.\<close>

definition record_ok :: "nat \<Rightarrow> nat \<times> bytes \<Rightarrow> bool" where
  "record_ok orig r \<longleftrightarrow> fst r + length (snd r) \<le> orig"

definition journal_ok :: "nat \<Rightarrow> nat \<Rightarrow> (nat \<times> bytes) list \<Rightarrow> bool" where
  "journal_ok orig new rs \<longleftrightarrow> orig \<le> new \<and> new < 2 ^ 64 \<and> length rs < 2 ^ 64 \<and>
     list_all (record_ok orig) rs"

lemma fnv1a_extend_append: "fnv1a_extend h (xs @ ys) = fnv1a_extend (fnv1a_extend h xs) ys"
  by (induction xs arbitrary: h) auto

lemma length_header_bytes [simp]: "length (header_bytes orig new n) = 32"
  by (simp add: header_bytes_def MAGIC_def)

lemma length_record_bytes [simp]: "length (record_bytes r) = 16 + length (snd r)"
  by (simp add: record_bytes_def)

lemma le64_le_bytes:
  "v < 2 ^ 64 \<Longrightarrow> length xs = off \<Longrightarrow> le64 (xs @ le_bytes 8 v @ ys) off = v"
  by (simp add: le64_def slice_def)

lemma header_fields:
  assumes "orig < 2 ^ 64" "new < 2 ^ 64" "n < 2 ^ 64"
  shows "take 8 (header_bytes orig new n) = MAGIC" "le64 (header_bytes orig new n) 8 = orig"
    "le64 (header_bytes orig new n) 16 = new" "le64 (header_bytes orig new n) 24 = n"
proof -
  have m: "length MAGIC = 8" by (simp add: MAGIC_def)
  show "take 8 (header_bytes orig new n) = MAGIC" by (simp add: header_bytes_def m)
  show "le64 (header_bytes orig new n) 8 = orig"
    unfolding header_bytes_def by (rule le64_le_bytes) (use assms m in simp_all)
  show "le64 (header_bytes orig new n) 16 = new"
    using le64_le_bytes [of new "MAGIC @ le_bytes 8 orig" 16 "le_bytes 8 n"] assms m
    by (simp add: header_bytes_def)
  show "le64 (header_bytes orig new n) 24 = n"
    using le64_le_bytes [of n "MAGIC @ le_bytes 8 orig @ le_bytes 8 new" 24 "[]"] assms m
    by (simp add: header_bytes_def)
qed

text \<open>The chunked hash is the hash of the body, and the header kept is the body's first bytes.\<close>

lemma hash_chunks_from:
  assumes "body \<le> length f" "at \<le> body" "at > 0"
  shows "hash_chunks f body at h header = Inr (fnv1a_extend h (slice at (body - at) f), header)"
  using assms
proof (induction f body at h header rule: hash_chunks.induct)
  case (1 f body at h header)
  show ?case
  proof (cases "at < body")
    case True
    let ?n = "min (body - at) CHUNK"
    have r: "file_read_exact_at f at ?n = Some (slice at ?n f)"
      using "1.prems" by (simp add: file_read_exact_at_def)
    have n: "at + ?n \<le> body" "0 < ?n" using True by (auto simp: CHUNK_def)
    have "slice at (body - at) f = slice at ?n f @ slice (at + ?n) (body - (at + ?n)) f"
      using slice_append_split [of at ?n "body - (at + ?n)" f] n(1) by simp
    then show ?thesis
      using "1.IH" [OF True refl r] "1.prems" n True r
      by (simp add: hash_chunks.simps [of f body at] Let_def fnv1a_extend_append)
  next
    case False
    then show ?thesis using "1.prems" by (subst hash_chunks.simps) simp
  qed
qed

lemma hash_chunks_all:
  assumes "body \<le> length f" "HEADER_LEN \<le> body"
  shows "hash_chunks f body 0 h header = Inr (fnv1a_extend h (take body f), take HEADER_LEN f)"
proof -
  let ?n = "min body CHUNK"
  have r: "file_read_exact_at f 0 ?n = Some (slice 0 ?n f)"
    using assms by (simp add: file_read_exact_at_def)
  have n: "?n \<le> body" "0 < ?n" "0 < body" "HEADER_LEN \<le> ?n"
    using assms by (auto simp: CHUNK_def HEADER_LEN_def)
  have "take body f = slice 0 ?n f @ slice ?n (body - ?n) f"
    using slice_append_split [of 0 ?n "body - ?n" f] n(1) by (simp add: slice_def)
  moreover have "take HEADER_LEN (slice 0 ?n f) = take HEADER_LEN f"
    using n(4) by (simp add: slice_def min_def)
  ultimately show ?thesis
    using n r hash_chunks_from [OF assms(1) n(1,2)]
    by (simp add: hash_chunks.simps [of f body 0] Let_def fnv1a_extend_append)
qed

lemma verify_sealed_eq:
  assumes "HEADER_LEN + SEAL_LEN \<le> length f"
  shows "verify_sealed f =
     (let body = length f - SEAL_LEN; header = take HEADER_LEN f
      in if unat (fnv1a_extend FNV_SEED (take body f)) \<noteq> le_nat (drop body f) \<or>
            take 8 header \<noteq> MAGIC then Inr None
         else if le64 header 16 < le64 header 8 then Inl io_error
         else Inr (Some \<lparr>original_len = le64 header 8, new_len = le64 header 16,
                         record_count = le64 header 24, body_len = body\<rparr>))"
proof -
  let ?b = "length f - SEAL_LEN"
  have b: "?b \<le> length f" "HEADER_LEN \<le> ?b" using assms by auto
  have "?b + SEAL_LEN \<le> length f" using assms by simp
  then have "file_read_exact_at f ?b SEAL_LEN = Some (drop ?b f)"
    by (simp add: file_read_exact_at_def slice_def)
  then show ?thesis
    using assms hash_chunks_all [OF b] by (simp add: verify_sealed_def Let_def)
qed

lemma verify_journal:
  assumes ok: "journal_ok orig new rs"
  shows "verify_sealed (journal_bytes orig new rs) =
     Inr (Some \<lparr>original_len = orig, new_len = new, record_count = length rs,
                body_len = length (journal_body orig new rs)\<rparr>)"
proof -
  let ?b = "journal_body orig new rs" and ?j = "journal_bytes orig new rs"
  have lb: "length ?b \<ge> 32" by (simp add: journal_body_def)
  have len: "HEADER_LEN + SEAL_LEN \<le> length ?j" "length ?j - SEAL_LEN = length ?b"
    using lb by (simp_all add: journal_bytes_def HEADER_LEN_def SEAL_LEN_def)
  have header: "take HEADER_LEN ?j = header_bytes orig new (length rs)"
    by (simp add: journal_bytes_def journal_body_def HEADER_LEN_def)
  have "unat (fnv1a_extend FNV_SEED ?b) < 256 ^ 8"
    using unsigned_less [of "fnv1a_extend FNV_SEED ?b"] by simp
  then have "le_nat (drop (length ?b) ?j) = unat (fnv1a_extend FNV_SEED ?b)"
    by (simp add: journal_bytes_def)
  moreover have "take (length ?b) ?j = ?b" by (simp add: journal_bytes_def)
  ultimately show ?thesis
    using ok verify_sealed_eq [OF len(1)] header_fields [of orig new "length rs"]
    by (simp add: Let_def len(2) header journal_ok_def)
qed

section \<open>Restoring\<close>

definition restore_all :: "(nat \<times> bytes) list \<Rightarrow> bytes \<Rightarrow> bytes" where
  "restore_all rs F = foldl (\<lambda>F (off, bs). splice off bs F) F rs"

abbreviation whole_medium :: "bytes \<Rightarrow> medium_device" where
  "whole_medium F \<equiv> medium_open F IntentWrite"

lemma whole_medium_write:
  "off + length bs \<le> length F \<Longrightarrow>
   medium_write_at (whole_medium F) off bs = (whole_medium (splice off bs F), Inr ())"
  by (simp add: medium_write_at_def medium_open_def file_write_all_at_inside max_def)

lemma splice_splice_adjacent:
  assumes "off + length xs + length ys \<le> length F"
  shows "splice (off + length xs) ys (splice off xs F) = splice off (xs @ ys) F"
  using assms
  by (intro nth_equalityI) (auto simp: nth_splice nth_append)

lemma restore_chunks_eq:
  assumes "at + len \<le> length f" "offset + len \<le> length F" "dn \<le> len"
  shows "restore_chunks f at offset len dn (whole_medium F) =
     (whole_medium (splice (offset + dn) (slice (at + dn) (len - dn) f) F), Inr ())"
  using assms
proof (induction "len - dn" arbitrary: dn F rule: less_induct)
  case less
  show ?case
  proof (cases "dn < len")
    case True
    let ?n = "min (len - dn) CHUNK"
    let ?buf = "slice (at + dn) ?n f"
    have n: "dn + ?n \<le> len" "0 < ?n" using True by (auto simp: CHUNK_def)
    have r: "file_read_exact_at f (at + dn) ?n = Some ?buf"
      using less.prems n by (simp add: file_read_exact_at_def)
    have lb: "length ?buf = ?n" using less.prems n by simp
    have w: "medium_write_at (whole_medium F) (offset + dn) ?buf =
        (whole_medium (splice (offset + dn) ?buf F), Inr ())"
      by (rule whole_medium_write) (use less.prems n lb in linarith)
    have IH: "restore_chunks f at offset len (dn + ?n) (whole_medium (splice (offset + dn) ?buf F)) =
      (whole_medium (splice (offset + (dn + ?n)) (slice (at + (dn + ?n)) (len - (dn + ?n)) f)
         (splice (offset + dn) ?buf F)), Inr ())"
    proof (rule less.hyps)
      show "len - (dn + ?n) < len - dn" using n True by linarith
    qed (use less.prems n lb in simp_all)
    have "slice (at + dn) (len - dn) f = ?buf @ slice (at + dn + ?n) (len - dn - ?n) f"
      using slice_append_split [of "at + dn" ?n "len - dn - ?n" f] n(1) by simp
    then have "splice (offset + dn) (slice (at + dn) (len - dn) f) F =
        splice (offset + dn + ?n) (slice (at + dn + ?n) (len - dn - ?n) f)
          (splice (offset + dn) ?buf F)"
      using splice_splice_adjacent [of "offset + dn" ?buf
          "slice (at + dn + ?n) (len - dn - ?n) f" F] less.prems n lb by simp
    then show ?thesis
      using True r w IH by (subst restore_chunks.simps) (simp add: Let_def add.assoc)
  next
    case False
    then show ?thesis using less.prems by (subst restore_chunks.simps) simp
  qed
qed

lemma slice_at_append: "length xs = off \<Longrightarrow> length ys = n \<Longrightarrow> slice off n (xs @ ys @ zs) = ys"
  by (simp add: slice_def)

lemma record_fields:
  assumes "fst r + length (snd r) < 2 ^ 64"
  shows "le64 (slice 0 16 (record_bytes r @ xs)) 0 = fst r"
    "le64 (slice 0 16 (record_bytes r @ xs)) 8 = length (snd r)"
proof -
  have s: "slice 0 16 (record_bytes r @ xs) = le_bytes 8 (fst r) @ le_bytes 8 (length (snd r))"
    by (simp add: slice_def record_bytes_def)
  show "le64 (slice 0 16 (record_bytes r @ xs)) 0 = fst r"
    unfolding s using le64_le_bytes [of "fst r" "[]" 0] assms by simp
  show "le64 (slice 0 16 (record_bytes r @ xs)) 8 = length (snd r)"
    unfolding s using le64_le_bytes [of "length (snd r)" "le_bytes 8 (fst r)" 8 "[]"] assms by simp
qed

text \<open>One well-formed record, read at its place.\<close>

lemma walk_record:
  assumes f: "f = pre @ record_bytes r @ post" and at: "at = length pre"
    and b: "at + 16 + length (snd r) \<le> body_len h" and ok: "record_ok (original_len h) r"
    and o: "original_len h < 2 ^ 64"
  shows "walk_records f h (Suc k) at None =
      walk_records f h k (at + 16 + length (snd r)) None"
    and "original_len h \<le> length F \<Longrightarrow>
      walk_records f h (Suc k) at (Some (whole_medium F)) =
      walk_records f h k (at + 16 + length (snd r))
        (Some (whole_medium (splice (fst r) (snd r) F)))"
proof -
  let ?rh = "slice at 16 f"
  have rh: "?rh = slice 0 16 (record_bytes r @ post)"
    by (simp add: f at slice_def)
  have read: "file_read_exact_at f at 16 = Some ?rh"
    by (simp add: file_read_exact_at_def f at)
  have lim: "fst r + length (snd r) < 2 ^ 64" using ok o by (simp add: record_ok_def)
  note fields = record_fields [OF lim, of post, folded rh]
  have c: "\<not> body_len h - at < 16" "\<not> length (snd r) > body_len h - (at + 16)" using b by auto
  note common = read fields c lim ok [unfolded record_ok_def]
  show "walk_records f h (Suc k) at None = walk_records f h k (at + 16 + length (snd r)) None"
    using common by (simp add: Let_def)
  assume F: "original_len h \<le> length F"
  have "slice (at + 16) (length (snd r)) f = snd r"
    using slice_at_append [of "pre @ le_bytes 8 (fst r) @ le_bytes 8 (length (snd r))" "at + 16"
        "snd r" "length (snd r)" post] by (simp add: f at record_bytes_def)
  moreover have "at + 16 + length (snd r) \<le> length f" by (simp add: f at)
  moreover have "fst r + length (snd r) \<le> length F" using ok F by (simp add: record_ok_def)
  ultimately have "restore_chunks f (at + 16) (fst r) (length (snd r)) 0 (whole_medium F) =
      (whole_medium (splice (fst r) (snd r) F), Inr ())"
    using restore_chunks_eq [of "at + 16" "length (snd r)" f "fst r" F 0] by simp
  then show "walk_records f h (Suc k) at (Some (whole_medium F)) =
      walk_records f h k (at + 16 + length (snd r))
        (Some (whole_medium (splice (fst r) (snd r) F)))"
    using common by (simp add: Let_def)
qed

lemma walk_records_ok:
  assumes "f = pre @ concat (map record_bytes rs) @ post" "at = length pre"
    and "body_len h = at + length (concat (map record_bytes rs))"
    and "list_all (record_ok (original_len h)) rs" "original_len h < 2 ^ 64"
  shows "walk_records f h (length rs) at None = (None, Inr ()) \<and>
    (original_len h \<le> length F \<longrightarrow>
      walk_records f h (length rs) at (Some (whole_medium F)) =
      (Some (whole_medium (restore_all rs F)), Inr ()))"
  using assms
proof (induction rs arbitrary: pre at F)
  case (Cons r rs)
  let ?F = "splice (fst r) (snd r) F" and ?post = "concat (map record_bytes rs) @ post"
  let ?at = "at + 16 + length (snd r)"
  have IH: "walk_records f h (length rs) ?at None = (None, Inr ()) \<and>
    (original_len h \<le> length ?F \<longrightarrow>
      walk_records f h (length rs) ?at (Some (whole_medium ?F)) =
      (Some (whole_medium (restore_all rs ?F)), Inr ()))"
    by (rule Cons.IH [of "pre @ record_bytes r"]) (use Cons.prems in auto)
  have f: "f = pre @ record_bytes r @ ?post" using Cons.prems(1) by simp
  have b: "at + 16 + length (snd r) \<le> body_len h" using Cons.prems(3) by simp
  have ok: "record_ok (original_len h) r" using Cons.prems(4) by simp
  note w = walk_record [OF f Cons.prems(2) b ok Cons.prems(5)]
  have "restore_all (r # rs) F = restore_all rs ?F"
    by (simp add: restore_all_def case_prod_unfold)
  moreover have "length ?F = length F" if "original_len h \<le> length F"
    using ok that by (simp add: record_ok_def)
  ultimately show ?case using IH w [where k = "length rs"] by simp
qed (simp add: restore_all_def)

text \<open>A record list cut short never validates, whatever the cut leaves behind it.\<close>

lemma walk_records_torn:
  assumes "f = pre @ p" "at = length pre" "at \<le> body_len h" "body_len h \<le> length f"
    and "prefix (take (body_len h - at) p) (concat (map record_bytes rs))"
    and "body_len h - at < length (concat (map record_bytes rs))"
    and "list_all (record_ok (original_len h)) rs" "original_len h < 2 ^ 64"
  shows "walk_records f h (length rs) at None = (None, Inl io_error)"
  using assms
proof (induction rs arbitrary: pre p at)
  case (Cons r rs)
  let ?b = "body_len h - at"
  have lp: "?b \<le> length p" using Cons.prems(1,2,4) by simp
  show ?case
  proof (cases "?b < 16")
    case False
    obtain q where q: "record_bytes r @ concat (map record_bytes rs) = take ?b p @ q"
      using Cons.prems(5) by (auto simp: prefix_def)
    have t16: "take 16 p = take 16 (record_bytes r)"
    proof -
      have "take 16 (take ?b p @ q) = take 16 p" using False lp by simp
      moreover have "take 16 (record_bytes r @ concat (map record_bytes rs)) = take 16 (record_bytes r)"
        by simp
      ultimately show ?thesis using q by metis
    qed
    have rh: "slice at 16 f = slice 0 16 (record_bytes r @ [])"
      using t16 Cons.prems(1,2) by (simp add: slice_def)
    have read: "file_read_exact_at f at 16 = Some (slice at 16 f)"
      using False lp Cons.prems(1,2) by (simp add: file_read_exact_at_def)
    have lim: "fst r + length (snd r) < 2 ^ 64" "fst r + length (snd r) \<le> original_len h"
      using Cons.prems(7,8) by (auto simp: record_ok_def)
    note fields = record_fields [OF lim(1), of "[]", folded rh]
    show ?thesis
    proof (cases "length (snd r) > body_len h - (at + 16)")
      case True
      then show ?thesis using False read fields by (simp add: Let_def)
    next
      case fits: False
      let ?n = "16 + length (snd r)"
      have n: "?n \<le> ?b" using fits False by auto
      have pr: "take ?n p = record_bytes r"
      proof -
        have "take ?n (take ?b p @ q) = take ?n p" using n lp by simp
        moreover have "take ?n (record_bytes r @ concat (map record_bytes rs)) = record_bytes r"
          by simp
        ultimately show ?thesis using q by metis
      qed
      have "drop ?n (take ?b p @ q) = take (?b - ?n) (drop ?n p) @ q"
        using n lp by (simp add: drop_take)
      moreover have "drop ?n (record_bytes r @ concat (map record_bytes rs)) =
          concat (map record_bytes rs)" by simp
      ultimately have q': "concat (map record_bytes rs) = take (?b - ?n) (drop ?n p) @ q"
        using q by metis
      have "walk_records f h (length rs) (at + ?n) None = (None, Inl io_error)"
      proof (rule Cons.IH [of "pre @ record_bytes r" "drop ?n p"])
        show "f = (pre @ record_bytes r) @ drop ?n p"
          using Cons.prems(1) pr append_take_drop_id [of ?n p] by simp
        show "prefix (take (body_len h - (at + ?n)) (drop ?n p)) (concat (map record_bytes rs))"
          using q' by (simp add: prefix_def)
        show "body_len h - (at + ?n) < length (concat (map record_bytes rs))"
          using Cons.prems(6) n by (simp del: length_concat)
      qed (use Cons.prems n in auto)
      then show ?thesis using False fits read fields lim by (simp add: Let_def add.assoc)
    qed
  qed simp
qed simp

end
