(* ===== verification/Capture.thy ===== *)
theory Capture
  imports Cache_Device Journal
begin

text \<open>
  A commit's staging area (\<open>Capture\<close> and the capturing half of \<open>MediumDevice\<close>,
  \<open>src/crates/remanence/src/io/device.rs\<close>): writes buffer in a second session cache over the
  raw file, and the whole set of host writes is known before the first one lands. The medium
  under capture keeps the contract \<open>block_device\<close>, so the session's write-through into it is
  the loop of \<open>Cache_Commit\<close>.
\<close>

section \<open>Zeros past the end of a base do not matter\<close>

lemma base_extent_pad: "base_extent (B @ replicate n 0) eo = base_extent B eo"
  by (rule nth_equalityI) (auto simp: nth_base_extent nth_append)

lemma cache_inv_pad: "cache_inv (B @ replicate n 0) c = cache_inv B c"
  by (simp add: inv_defs base_extent_pad)

lemma extent_view_pad: "extent_view (B @ replicate n 0) c eo = extent_view B c eo"
  by (auto simp: extent_view_def base_extent_pad split: option.split)

lemma cell_pad: "cell (B @ replicate n 0) c i = cell B c i"
  by (simp add: cell_def extent_view_pad)

lemma keeps_pad: "keeps (B @ replicate n 0) c c' = keeps B c c'"
  by (simp add: keeps_def cache_inv_pad extent_view_pad)

definition raw_ok :: "raw_file \<Rightarrow> bool" where
  "raw_ok r \<longleftrightarrow> rf_real r \<le> rf_reported r \<and> rf_base r + rf_real r \<le> length (rf_file r)"

definition raw_contents :: "raw_file \<Rightarrow> bytes" where
  "raw_contents r = slice (rf_base r) (rf_real r) (rf_file r) @
     replicate (rf_reported r - rf_real r) 0"

lemma raw_cache_base:
  assumes "raw_ok r"
  shows "cache_base (rf_reported r) (raw_read_at r) (raw_contents r)"
proof
  show len: "rf_reported r = length (raw_contents r)"
    using assms by (auto simp: raw_contents_def raw_ok_def)
  fix off n assume fits: "off + n \<le> length (raw_contents r)"
  let ?t = "if off \<ge> rf_real r then 0 else min (rf_real r - off) n"
  have "raw_read_at r off n = Inr (slice (rf_base r + off) ?t (rf_file r) @ replicate (n - ?t) 0)"
    using assms by (auto simp: raw_read_at_def raw_ok_def file_read_exact_at_def Let_def)
  moreover have "slice (rf_base r + off) ?t (rf_file r) @ replicate (n - ?t) 0 =
      slice off n (raw_contents r)"
  proof (rule nth_equalityI)
    show "length (slice (rf_base r + off) ?t (rf_file r) @ replicate (n - ?t) 0) =
        length (slice off n (raw_contents r))"
      using assms fits by (auto simp: raw_ok_def)
    fix i assume "i < length (slice (rf_base r + off) ?t (rf_file r) @ replicate (n - ?t) 0)"
    then have i: "i < n" using assms by (auto simp: raw_ok_def split: if_splits)
    show "(slice (rf_base r + off) ?t (rf_file r) @ replicate (n - ?t) 0) ! i =
        slice off n (raw_contents r) ! i"
      using assms fits i
      by (auto simp: raw_ok_def nth_append raw_contents_def slice_def add.assoc)
  qed
  ultimately show "raw_read_at r off n = Inr (slice off n (raw_contents r))" by simp
qed

section \<open>The capture\<close>

record capture =
  cap_cache :: cache
  cap_len :: nat

record captured =
  cd_medium :: medium_device
  cd_capture :: capture

definition begin_capture :: "(nat \<Rightarrow> bool) \<Rightarrow> nat \<Rightarrow> medium_device \<Rightarrow> captured" where
  "begin_capture h n m =
     \<lparr>cd_medium = m, cd_capture = \<lparr>cap_cache = with_bytes h n, cap_len = medium_len m\<rparr>\<rparr>"

definition take_capture :: "captured \<Rightarrow> capture" where
  "take_capture d = cd_capture d"

definition capture_is_clean :: "capture \<Rightarrow> bool" where
  "capture_is_clean k \<longleftrightarrow> \<not> modified (cap_cache k)"

definition raw_beneath :: "captured \<Rightarrow> raw_file" where
  "raw_beneath d =
     \<lparr>rf_file = backing (cd_medium d), rf_base = base (cd_medium d),
      rf_reported = cap_len (cd_capture d), rf_real = medium_len (cd_medium d)\<rparr>"

definition captured_len :: "captured \<Rightarrow> nat" where
  "captured_len d = cap_len (cd_capture d)"

definition set_cap_cache :: "cache \<Rightarrow> captured \<Rightarrow> captured" where
  "set_cap_cache c d = d\<lparr>cd_capture := (cd_capture d)\<lparr>cap_cache := c\<rparr>\<rparr>"

definition captured_read_at :: "captured \<Rightarrow> nat \<Rightarrow> nat \<Rightarrow> captured \<times> bytes result" where
  "captured_read_at d off n =
     (if off + n > captured_len d then (d, Inl io_error)
      else case cache_read_at (rf_reported (raw_beneath d)) (raw_read_at (raw_beneath d))
                  (cap_cache (cd_capture d)) off n of
             (c, r) \<Rightarrow> (set_cap_cache c d, r))"

definition captured_write_at :: "captured \<Rightarrow> nat \<Rightarrow> bytes \<Rightarrow> captured \<times> unit result" where
  "captured_write_at d off bs =
     (if mode (cd_medium d) = ReadOnlyMode then (d, Inl read_only_error)
      else case cache_write_at (rf_reported (raw_beneath d)) (raw_read_at (raw_beneath d))
                  (cap_cache (cd_capture d)) off bs of
             (c, Inl e) \<Rightarrow> (set_cap_cache c d, Inl e)
           | (c, Inr _) \<Rightarrow>
               (d\<lparr>cd_capture := \<lparr>cap_cache = c,
                                 cap_len = max (captured_len d) (off + length bs)\<rparr>\<rparr>, Inr ()))"

text \<open>What the medium presents while it is captured, and the states in which it delivers.\<close>

definition captured_contents :: "captured \<Rightarrow> bytes" where
  "captured_contents d =
     map (cell (medium_contents (cd_medium d)) (cap_cache (cd_capture d))) [0..<captured_len d]"

definition captured_healthy :: "captured \<Rightarrow> bool" where
  "captured_healthy d \<longleftrightarrow> medium_healthy (cd_medium d) \<and>
     cache_inv (medium_contents (cd_medium d)) (cap_cache (cd_capture d)) \<and>
     storage_ok (cap_cache (cd_capture d)) \<and> medium_len (cd_medium d) \<le> captured_len d \<and>
     (\<forall>i \<ge> captured_len d. cell (medium_contents (cd_medium d)) (cap_cache (cd_capture d)) i = 0)"

lemma raw_beneath_contents:
  "raw_contents (raw_beneath d) =
   medium_contents (cd_medium d) @ replicate (captured_len d - medium_len (cd_medium d)) 0"
  by (simp add: raw_contents_def raw_beneath_def medium_contents_def captured_len_def)

lemma raw_beneath_ok: "captured_healthy d \<Longrightarrow> raw_ok (raw_beneath d)"
  by (simp add: raw_ok_def raw_beneath_def captured_healthy_def medium_healthy_def captured_len_def)

lemma slice_map_upt: "off + n \<le> m \<Longrightarrow> slice off n (map f [0..<m]) = map f [off..<off + n]"
  by (auto simp: list_eq_iff_nth_eq slice_def)

interpretation captured: block_device captured_len captured_read_at captured_write_at
  captured_contents captured_healthy
proof
  fix d :: captured and off n
  assume h: "captured_healthy d" and le: "off + n \<le> length (captured_contents d)"
  let ?c = "cap_cache (cd_capture d)" and ?B = "medium_contents (cd_medium d)"
  let ?R = "raw_contents (raw_beneath d)"
  have len: "rf_reported (raw_beneath d) = length ?R"
    using cache_base.base_len [OF raw_cache_base [OF raw_beneath_ok [OF h]]] .
  have le': "off + n \<le> captured_len d" using le by (simp add: captured_contents_def)
  have "off + n \<le> length ?R"
    using le' len by (simp add: raw_beneath_def captured_len_def)
  moreover have "cache_inv ?R ?c" "storage_ok ?c"
    using h by (simp_all add: captured_healthy_def raw_beneath_contents cache_inv_pad)
  ultimately obtain c' where r: "cache_read_at (rf_reported (raw_beneath d))
      (raw_read_at (raw_beneath d)) ?c off n = (c', Inr (map (cell ?R ?c) [off..<off + n]))"
    and k: "keeps ?R ?c c'"
    using cache_base.cache_read_at_total [OF raw_cache_base [OF raw_beneath_ok [OF h]]] by blast
  have k': "keeps ?B ?c c'" using k by (simp add: raw_beneath_contents keeps_pad)
  have "map (cell ?R ?c) [off..<off + n] = slice off n (captured_contents d)"
    unfolding captured_contents_def slice_map_upt [OF le'] raw_beneath_contents cell_pad ..
  then have "captured_read_at d off n = (set_cap_cache c' d, Inr (slice off n (captured_contents d)))"
    using le' r by (simp add: captured_read_at_def)
  moreover have "captured_healthy (set_cap_cache c' d)"
    using h k' storage_ok_keeps [OF k'] keeps_inv [OF k'] keeps_cell [OF k']
    by (simp add: captured_healthy_def set_cap_cache_def captured_len_def)
  moreover have "captured_contents (set_cap_cache c' d) = captured_contents d"
    using keeps_cell [OF k'] by (simp add: captured_contents_def set_cap_cache_def captured_len_def)
  ultimately show "\<exists>d'. captured_read_at d off n = (d', Inr (slice off n (captured_contents d))) \<and>
     captured_healthy d' \<and> captured_contents d' = captured_contents d" by blast
next
  fix d :: captured and off and bs :: bytes
  assume h: "captured_healthy d" and le: "off + length bs \<le> length (captured_contents d)"
  let ?c = "cap_cache (cd_capture d)" and ?B = "medium_contents (cd_medium d)"
  let ?R = "raw_contents (raw_beneath d)"
  have le': "off + length bs \<le> captured_len d" using le by (simp add: captured_contents_def)
  have "cache_inv ?R ?c" "storage_ok ?c"
    using h by (simp_all add: captured_healthy_def raw_beneath_contents cache_inv_pad)
  then obtain c' where w: "cache_write_at (rf_reported (raw_beneath d))
      (raw_read_at (raw_beneath d)) ?c off bs = (c', Inr ())"
    and inv: "cache_inv ?R c'" and ok: "storage_ok c'"
    and cl: "\<And>i. cell ?R c' i =
       (if off \<le> i \<and> i < off + length bs then bs ! (i - off) else cell ?R ?c i)"
    using cache_base.cache_write_at_total [OF raw_cache_base [OF raw_beneath_ok [OF h]], of ?c off bs]
    by blast
  define d' where "d' = d\<lparr>cd_capture := \<lparr>cap_cache = c', cap_len = captured_len d\<rparr>\<rparr>"
  have "captured_write_at d off bs = (d', Inr ())"
    using h w le' by (simp add: captured_write_at_def captured_healthy_def medium_healthy_def
        d'_def max_absorb1)
  moreover have "captured_healthy d'"
    using h inv ok cl le'
    by (simp add: captured_healthy_def raw_beneath_contents cache_inv_pad cell_pad captured_len_def
        d'_def)
  moreover have "captured_contents d' = splice off bs (captured_contents d)"
    using cl le' by (intro nth_equalityI)
      (simp_all add: captured_contents_def captured_len_def nth_splice raw_beneath_contents
        cell_pad d'_def)
  ultimately show "\<exists>d'. captured_write_at d off bs = (d', Inr ()) \<and>
     captured_healthy d' \<and> captured_contents d' = splice off bs (captured_contents d)" by blast
qed (simp add: captured_contents_def)

lemma begin_capture_healthy:
  assumes "medium_healthy m" "\<forall>n. h n"
  shows "captured_healthy (begin_capture h n m)"
    and "captured_contents (begin_capture h n m) = medium_contents m"
proof -
  let ?B = "medium_contents m"
  have l: "length ?B = medium_len m" using assms(1) by (auto simp: medium_contents_def medium_healthy_def)
  have ok: "storage_ok (with_bound h k)" for k
    using assms(2) by (simp add: storage_ok_def with_bound_def)
  show "captured_healthy (begin_capture h n m)"
    using assms ok by (simp add: captured_healthy_def begin_capture_def with_bytes_def
        captured_len_def cache_inv_with_bound cell_with_bound l)
  show "captured_contents (begin_capture h n m) = medium_contents m"
    by (rule nth_equalityI)
      (simp_all add: captured_contents_def begin_capture_def captured_len_def with_bytes_def
        cell_with_bound l)
qed

end
