(* ===== verification/Commit.thy ===== *)
theory Commit
  imports Capture Session
begin

text \<open>
  The durable commit point (\<open>src/crates/remanence/src/model/disk/commit.rs\<close> with
  \<open>journal::record\<close> and \<open>MediumDevice::apply\<close>): stage into a capture, arm the recovery journal,
  apply, retire. \<open>commit_step\<close> lets the process vanish between any two bytes reaching the host,
  and reconciling from what is left never finds a third state.
\<close>

section \<open>Streaming the captured extents\<close>

text \<open>
  Where the host's storage delivers, a pass over the altered extents with a body that does not
  refuse is a fold over their offsets and the bytes presented there.
\<close>

lemma dirty_loop_fold:
  assumes "cache_inv B c" "storage_ok c" "P st"
    and "\<And>eo x. (eo, x) \<in> set items \<Longrightarrow> EXTENT dvd eo"
    and "\<And>eo e. (eo, Some e) \<in> set items \<Longrightarrow> map_of (resident c) eo = Some e"
    and "\<And>eo. (eo, None) \<in> set items \<Longrightarrow> holds c eo \<and> map_of (resident c) eo = None"
    and f: "\<And>st eo bs. P st \<Longrightarrow> length bs = EXTENT \<Longrightarrow>
      f st eo bs = (g eo bs st, Inr ()) \<and> P (g eo bs st)"
  shows "\<exists>c'. dirty_loop f items c st =
      (c', fold (\<lambda>eo. g eo (extent_view B c eo)) (map fst items) st, Inr ()) \<and>
      keeps B c c' \<and> resident c' = resident c \<and> spill c' = spill c"
  using assms(1-6)
proof (induction items arbitrary: c st)
  case Nil
  then show ?case by (auto intro: keeps_refl)
next
  case (Cons p items)
  obtain eo x where p: "p = (eo, x)" by (cases p)
  define bs where "bs = extent_view B c eo"
  have len: "length bs = EXTENT" using length_extent_view [OF Cons.prems(1)] by (simp add: bs_def)
  have step: "f st eo bs = (g eo bs st, Inr ())" "P (g eo bs st)" using f [OF Cons.prems(3) len] by auto
  define k where "k = (case x of Some e \<Rightarrow> c | None \<Rightarrow> c\<lparr>host_calls := Suc (host_calls c)\<rparr>)"
  have k1: "keeps B c k" and same: "resident k = resident c" "spill k = spill c"
    using keeps_refl [OF Cons.prems(1)] keeps_host [OF Cons.prems(1)]
    by (auto simp: k_def split: option.split)
  have loop: "dirty_loop f (p # items) c st = dirty_loop f items k (g eo bs st)"
  proof (cases x)
    case (Some e)
    then have "map_of (resident c) eo = Some e" using Cons.prems(5) p by auto
    then have "data e = bs" by (simp add: bs_def extent_view_def)
    then show ?thesis using Some p step by (simp add: k_def)
  next
    case None
    then have h: "holds c eo" "map_of (resident c) eo = None" using Cons.prems(6) p by auto
    then obtain s ys where s: "spill c = Some s" and sd: "slot_data c eo = Some ys"
      using spill_invD(2) [OF Cons.prems(1) h] by (auto simp: holds_def split: option.splits)
    have "ys = bs" using h(2) sd by (simp add: bs_def extent_view_def)
    moreover have "spill_read c s eo = (k, Inr ys)"
      using sd s Cons.prems(2) None
      by (auto simp: spill_read_def host_call_def slot_data_def storage_ok_def k_def split: option.splits)
    ultimately show ?thesis using None p s step by simp
  qed
  have view: "extent_view B k = extent_view B c"
    using k1 by (auto simp: keeps_def)
  have "\<exists>c'. dirty_loop f items k (g eo bs st) =
      (c', fold (\<lambda>eo. g eo (extent_view B k eo)) (map fst items) (g eo bs st), Inr ()) \<and>
      keeps B k c' \<and> resident c' = resident k \<and> spill c' = spill k"
  proof (rule Cons.IH [OF keeps_inv [OF k1] _ step(2)])
    show "storage_ok k" using Cons.prems(2) storage_ok_keeps [OF k1] by simp
    show "EXTENT dvd eo" if "(eo, x) \<in> set items" for eo x using Cons.prems(4) that by auto
    show "map_of (resident k) eo = Some e" if "(eo, Some e) \<in> set items" for eo e
      using Cons.prems(5) that same by auto
    show "holds k eo \<and> map_of (resident k) eo = None" if "(eo, None) \<in> set items" for eo
      using Cons.prems(6) that same holds_cong [OF same(2)] by auto
  qed
  then show ?case
    using loop p same keeps_trans [OF k1] by (auto simp: view bs_def)
qed

definition dirty_offsets :: "cache \<Rightarrow> nat list" where
  "dirty_offsets c = map fst (dirty_items c)"

lemma dirty_offsets_cong:
  "resident c' = resident c \<Longrightarrow> spill c' = spill c \<Longrightarrow> dirty_offsets c' = dirty_offsets c"
  by (simp add: dirty_offsets_def dirty_items_def)

lemma for_each_dirty_fold:
  assumes inv: "cache_inv B c" and ok: "storage_ok c" and "P st"
    and f: "\<And>st eo bs. P st \<Longrightarrow> length bs = EXTENT \<Longrightarrow>
      f st eo bs = (g eo bs st, Inr ()) \<and> P (g eo bs st)"
  shows "\<exists>c'. for_each_dirty f c st =
      (c', fold (\<lambda>eo. g eo (extent_view B c eo)) (dirty_offsets c) st, Inr ()) \<and>
      keeps B c c' \<and> resident c' = resident c \<and> spill c' = spill c"
  unfolding for_each_dirty_def dirty_offsets_def
  by (rule dirty_loop_fold [where P = P, OF inv ok assms(3) _ _ _ f])
    (use dirty_items_keys [OF inv] dirty_items_inv(1,2) [OF inv] in blast)+

section \<open>Recording the undo journal\<close>

text \<open>
  \<open>journal::record\<close>: one pass counts the records, one streams the original bytes of every
  captured extent. The host may take only so many bytes of the sidecar (\<open>room\<close>); then what it
  took is the prefix, and the record refuses.
\<close>

definition host_takes :: "nat option \<Rightarrow> bytes \<Rightarrow> bytes \<times> unit result" where
  "host_takes room bs =
     (case room of
        None \<Rightarrow> (bs, Inr ())
      | Some n \<Rightarrow> if n < length bs then (take n bs, Inl io_error) else (bs, Inr ()))"

definition count_records :: "nat \<Rightarrow> cache \<Rightarrow> cache \<times> nat \<times> unit result" where
  "count_records orig c =
     for_each_dirty (\<lambda>n eo bs. (if eo < orig then Suc n else n, Inr ())) c 0"

definition record_extent ::
  "medium_device \<Rightarrow> sealed_writer \<Rightarrow> nat \<Rightarrow> bytes \<Rightarrow> sealed_writer \<times> unit result" where
  "record_extent m w eo bs =
     (if eo \<ge> medium_len m then (w, Inr ())
      else let n = min (medium_len m - eo) (length bs)
           in case medium_read_at m eo n of
                (_, Inl e) \<Rightarrow> (w, Inl e)
              | (_, Inr orig) \<Rightarrow>
                  (writer_write (writer_write (writer_write w (le_bytes 8 eo)) (le_bytes 8 n)) orig,
                   Inr ()))"

definition journal_record ::
  "nat option \<Rightarrow> medium_device \<Rightarrow> capture \<Rightarrow> capture \<times> bytes option \<times> unit result" where
  "journal_record room m k =
     (case count_records (medium_len m) (cap_cache k) of
        (c1, _, Inl e) \<Rightarrow> (k\<lparr>cap_cache := c1\<rparr>, None, Inl e)
      | (c1, n, Inr _) \<Rightarrow>
          (let w = writer_write writer_create
                     (MAGIC @ le_bytes 8 (medium_len m) @ le_bytes 8 (cap_len k) @ le_bytes 8 n)
           in case for_each_dirty (record_extent m) c1 w of
                (c2, w', Inl e) \<Rightarrow>
                  (k\<lparr>cap_cache := c2\<rparr>, Some (fst (host_takes room (sw_file w'))), Inl e)
              | (c2, w', Inr _) \<Rightarrow>
                  (case host_takes room (seal_and_sync w') of
                     (side, r) \<Rightarrow> (k\<lparr>cap_cache := c2\<rparr>, Some side, r))))"

text \<open>\<open>MediumDevice::apply\<close>.\<close>

definition medium_apply :: "medium_device \<Rightarrow> capture \<Rightarrow> capture \<times> medium_device \<times> unit result" where
  "medium_apply m k =
     (case for_each_dirty
             (\<lambda>m eo bs. let t = min (cap_len k - eo) (length bs)
                        in if t > 0 then medium_write_at m eo (take t bs) else (m, Inr ()))
             (cap_cache k) m of
        (c, m', r) \<Rightarrow> (k\<lparr>cap_cache := c\<rparr>, m', r))"

section \<open>The commit\<close>

text \<open>
  One raw session: the medium it holds claimed, its cache, the sidecar beside the image, and
  whether a failed undo closed it. The host's part in a commit is what the steps outside the
  medium answer: how much of the sidecar it takes, and the two calls of \<open>retire\<close>, at the
  commit's end and at an undo's.
\<close>

record raw_session =
  rs_medium :: medium_device
  rs_cache :: cache
  rs_cache_bytes :: nat
  rs_sidecar :: "bytes option"
  rs_nameable :: bool
  rs_failed :: bool

record commit_host =
  host_room :: "nat option"
  host_retire :: "bool \<times> bool"
  host_undo :: "bool \<times> bool"

definition commit :: "commit_host \<Rightarrow> raw_session \<Rightarrow> raw_session \<times> unit result" where
  "commit host s =
     (if rs_failed s then (s, Inl io_error)
      else if mode (rs_medium s) = ReadOnlyMode then (s, Inl read_only_error)
      else if \<not> modified (rs_cache s) then (s, Inr ())
      else if \<not> rs_nameable s then (s, Inl unsupported_error)
      else
        (let c0 = join_offloads (rs_cache s);
             d0 = begin_capture (host_ok c0) (rs_cache_bytes s) (rs_medium s)
         in case write_through captured_len captured_write_at c0 d0 of
              (c1, d1, Inl e) \<Rightarrow> (s\<lparr>rs_cache := c1\<rparr>, Inl e)
            | (c1, d1, Inr _) \<Rightarrow>
                (let k = take_capture d1; m = rs_medium s; s1 = s\<lparr>rs_cache := c1\<rparr>
                 in if capture_is_clean k then (s1\<lparr>rs_cache := mark_committed c1\<rparr>, Inr ())
                    else case journal_record (host_room host) m k of
                      (k1, side0, Inl e) \<Rightarrow>
                        (s1\<lparr>rs_sidecar := fst (retire (host_retire host) side0)\<rparr>, Inl e)
                    | (k1, side0, Inr _) \<Rightarrow>
                        (case medium_apply m k1 of
                          (k2, m', applied) \<Rightarrow>
                            (let (side, r) = (case applied of
                                   Inl e \<Rightarrow> (side0, Inl e)
                                 | Inr _ \<Rightarrow> retire (host_retire host) side0)
                             in case r of
                                  Inr _ \<Rightarrow>
                                    (s1\<lparr>rs_medium := m', rs_sidecar := side,
                                        rs_cache := mark_committed c1\<rparr>, Inr ())
                                | Inl e \<Rightarrow>
                                    (case reconcile (host_undo host) side m' of
                                       (side', m'', Inr _) \<Rightarrow>
                                         (s1\<lparr>rs_medium := m'', rs_sidecar := side'\<rparr>, Inl e)
                                     | (side', m'', Inl _) \<Rightarrow>
                                         (s1\<lparr>rs_medium := m'', rs_sidecar := side',
                                             rs_failed := True\<rparr>, Inl e)))))))"

section \<open>What the journal and the apply come to\<close>

definition records_of :: "bytes \<Rightarrow> nat list \<Rightarrow> (nat \<times> bytes) list" where
  "records_of F eos =
     map (\<lambda>eo. (eo, slice eo (min EXTENT (length F - eo)) F)) (filter (\<lambda>eo. eo < length F) eos)"

definition writer_of :: "bytes \<Rightarrow> sealed_writer" where
  "writer_of bs = \<lparr>sw_file = bs, sw_hash = fnv1a_extend FNV_SEED bs\<rparr>"

lemma writer_of_laws [simp]:
  "writer_create = writer_of []" "writer_write (writer_of xs) ys = writer_of (xs @ ys)"
  "sw_file (writer_of xs) = xs"
  "seal_and_sync (writer_of xs) = xs @ le_bytes 8 (unat (fnv1a_extend FNV_SEED xs))"
  by (simp_all add: writer_of_def writer_create_def writer_write_def seal_and_sync_def
      fnv1a_extend_append)

lemma count_fold:
  "fold (\<lambda>eo n. if eo < orig then Suc n else n) eos k = k + length (filter (\<lambda>eo. eo < orig) eos)"
  by (induction eos arbitrary: k) auto

lemma record_fold:
  "fold (\<lambda>eo w. if eo < length F
          then writer_write w (record_bytes (eo, slice eo (min EXTENT (length F - eo)) F)) else w)
     eos (writer_of xs) =
   writer_of (xs @ concat (map record_bytes (records_of F eos)))"
  by (induction eos arbitrary: xs) (auto simp: records_of_def)

lemma record_extent_eq:
  assumes m: "m = whole_medium F" and len: "length bs = EXTENT"
  shows "record_extent m w eo bs =
     (if eo < length F
      then writer_write w (record_bytes (eo, slice eo (min EXTENT (length F - eo)) F)) else w,
      Inr ())"
proof -
  have "writer_write (writer_write (writer_write w xs) ys) zs = writer_write w (xs @ ys @ zs)"
    for xs ys zs by (simp add: writer_write_def fnv1a_extend_append)
  moreover have "eo + min EXTENT (length F - eo) \<le> length F" if "eo < length F" using that by simp
  ultimately show ?thesis
    using len by (auto simp: record_extent_def m medium_open_def medium_read_at_def
        file_read_exact_at_def record_bytes_def min.commute [of _ EXTENT] Let_def)
qed

lemma journal_record_eq:
  assumes inv: "cache_inv F (cap_cache k)" and ok: "storage_ok (cap_cache k)"
  shows "\<exists>c. journal_record room (whole_medium F) k =
     (case host_takes room (journal_bytes (length F) (cap_len k)
             (records_of F (dirty_offsets (cap_cache k)))) of
        (side, r) \<Rightarrow> (k\<lparr>cap_cache := c\<rparr>, Some side, r)) \<and>
     keeps F (cap_cache k) c \<and> resident c = resident (cap_cache k) \<and>
     spill c = spill (cap_cache k)"
proof -
  let ?m = "whole_medium F" and ?c = "cap_cache k"
  let ?eos = "dirty_offsets ?c"
  have ml: "medium_len ?m = length F" by (simp add: medium_open_def)
  obtain c1 where c1: "count_records (length F) ?c =
      (c1, length (filter (\<lambda>eo. eo < length F) ?eos), Inr ())"
    and k1: "keeps F ?c c1" and same1: "resident c1 = resident ?c" "spill c1 = spill ?c"
    using for_each_dirty_fold [where P = "\<lambda>_. True" and st = 0
        and f = "\<lambda>n eo bs. (if eo < length F then Suc n else n, Inr ())"
        and g = "\<lambda>eo bs n. if eo < length F then Suc n else n", OF inv ok]
    by (auto simp: count_records_def count_fold)
  let ?hd = "header_bytes (length F) (cap_len k) (length (records_of F ?eos))"
  obtain c2 where c2: "for_each_dirty (record_extent ?m) c1 (writer_of ?hd) =
      (c2, writer_of (journal_body (length F) (cap_len k) (records_of F ?eos)), Inr ())"
    and k2: "keeps F c1 c2" and same2: "resident c2 = resident c1" "spill c2 = spill c1"
    using for_each_dirty_fold [where P = "\<lambda>_. True" and st = "writer_of ?hd"
        and f = "record_extent ?m"
        and g = "\<lambda>eo bs w. if eo < length F
          then writer_write w (record_bytes (eo, slice eo (min EXTENT (length F - eo)) F)) else w",
        OF keeps_inv [OF k1]] ok storage_ok_keeps [OF k1] record_extent_eq [OF refl, of _ F]
    by (auto simp: record_fold journal_body_def dirty_offsets_cong [OF same1])
  have "length (records_of F ?eos) = length (filter (\<lambda>eo. eo < length F) ?eos)"
    by (simp add: records_of_def)
  then have "journal_record room ?m k =
     (case host_takes room (journal_bytes (length F) (cap_len k) (records_of F ?eos)) of
        (side, r) \<Rightarrow> (k\<lparr>cap_cache := c2\<rparr>, Some side, r))"
    using c1 c2 by (simp add: journal_record_def ml header_bytes_def journal_bytes_def Let_def)
  then show ?thesis using keeps_trans [OF k1 k2] same1 same2 by auto
qed

section \<open>The apply, byte by byte\<close>

definition put_byte :: "nat \<times> u8 \<Rightarrow> bytes \<Rightarrow> bytes" where
  "put_byte w I = file_write_all_at I (fst w) [snd w]"

text \<open>The bytes an apply writes, in the order it writes them.\<close>

definition extent_writes :: "bytes \<Rightarrow> cache \<Rightarrow> nat \<Rightarrow> nat \<Rightarrow> (nat \<times> u8) list" where
  "extent_writes F c new eo =
     (let t = min (new - eo) EXTENT in zip [eo..<eo + t] (take t (extent_view F c eo)))"

definition apply_writes :: "bytes \<Rightarrow> capture \<Rightarrow> (nat \<times> u8) list" where
  "apply_writes F k =
     concat (map (extent_writes F (cap_cache k) (cap_len k)) (dirty_offsets (cap_cache k)))"

lemma put_byte_nth:
  "i < length (put_byte (off, b) I) \<Longrightarrow>
   put_byte (off, b) I ! i = (if i = off then b else if i < length I then I ! i else 0)"
  by (auto simp: put_byte_def file_write_all_at_def nth_splice nth_append)

lemma length_put_byte: "length (put_byte (off, b) I) = max (length I) (Suc off)"
  by (simp add: put_byte_def length_file_write_all_at)

lemma file_write_cons:
  "file_write_all_at I off (b # bs) = file_write_all_at (put_byte (off, b) I) (Suc off) bs"
proof (cases "bs = []")
  case True
  then show ?thesis by (simp add: put_byte_def file_write_all_at_def)
next
  case False
  show ?thesis
  proof (rule nth_equalityI)
    show "length (file_write_all_at I off (b # bs)) =
        length (file_write_all_at (put_byte (off, b) I) (Suc off) bs)"
      using False by (simp add: length_file_write_all_at length_put_byte)
    fix i assume "i < length (file_write_all_at I off (b # bs))"
    then have i: "i < max (length I) (off + Suc (length bs))"
      by (simp add: length_file_write_all_at)
    have "file_write_all_at I off (b # bs) ! i =
        (if off \<le> i \<and> i < off + Suc (length bs) then (b # bs) ! (i - off)
         else if i < length I then I ! i else 0)"
      using i by (auto simp: file_write_all_at_def nth_splice nth_append)
    moreover have "file_write_all_at (put_byte (off, b) I) (Suc off) bs ! i =
        (if Suc off \<le> i \<and> i < Suc off + length bs then bs ! (i - Suc off)
         else if i = off then b else if i < length I then I ! i else 0)"
      using i False
      by (auto simp: file_write_all_at_def nth_splice nth_append length_put_byte put_byte_nth)
    ultimately show "file_write_all_at I off (b # bs) ! i =
        file_write_all_at (put_byte (off, b) I) (Suc off) bs ! i"
      by (auto simp: nth_Cons')
  qed
qed

lemma fold_put_bytes: "fold put_byte (zip [off..<off + length bs] bs) I = file_write_all_at I off bs"
proof (induction bs arbitrary: off I)
  case Nil
  then show ?case by (simp add: file_write_all_at_def)
next
  case (Cons b bs)
  have "[off..<off + length (b # bs)] = off # [Suc off..<Suc off + length bs]"
    by (simp add: upt_rec)
  then show ?case using Cons.IH [of "Suc off"] by (simp add: file_write_cons)
qed

lemma whole_medium_write_any:
  "bs \<noteq> [] \<Longrightarrow> medium_write_at (whole_medium I) off bs =
     (whole_medium (file_write_all_at I off bs), Inr ())"
  by (simp add: medium_write_at_def medium_open_def length_file_write_all_at)

lemma backing_whole [simp]: "backing (whole_medium I) = I" "medium_len (whole_medium I) = length I"
  by (simp_all add: medium_open_def)

lemma medium_apply_eq:
  assumes inv: "cache_inv F (cap_cache k)" and ok: "storage_ok (cap_cache k)"
  shows "\<exists>c. medium_apply (whole_medium F) k =
      (k\<lparr>cap_cache := c\<rparr>, whole_medium (fold put_byte (apply_writes F k) F), Inr ()) \<and>
      keeps F (cap_cache k) c"
proof -
  let ?c = "cap_cache k" and ?n = "cap_len k"
  let ?f = "\<lambda>m eo bs. let t = min (?n - eo) (length bs)
                        in if t > 0 then medium_write_at m eo (take t bs) else (m, Inr ())"
  let ?g = "\<lambda>eo bs m. let t = min (?n - eo) (length bs)
                        in if t > 0 then whole_medium (file_write_all_at (backing m) eo (take t bs)) else m"
  have f: "?f m eo bs = (?g eo bs m, Inr ()) \<and> (\<exists>I. ?g eo bs m = whole_medium I)"
    if ex: "\<exists>I. m = whole_medium I" and len: "length bs = EXTENT" for m eo bs
  proof -
    obtain I where m: "m = whole_medium I" using ex by blast
    show ?thesis
    proof (cases "min (?n - eo) (length bs) = 0")
      case False
      then have "take (min (?n - eo) (length bs)) bs \<noteq> []" using len by (auto simp: EXTENT_def)
      then show ?thesis using False by (auto simp: m Let_def whole_medium_write_any)
    qed (use m in auto)
  qed
  obtain c' where r: "for_each_dirty ?f ?c (whole_medium F) =
      (c', fold (\<lambda>eo. ?g eo (extent_view F ?c eo)) (dirty_offsets ?c) (whole_medium F), Inr ())"
    and k: "keeps F ?c c'"
    using for_each_dirty_fold [where P = "\<lambda>m. \<exists>I. m = whole_medium I" and f = ?f and g = ?g
        and st = "whole_medium F", OF inv ok] f by blast
  have len: "length (extent_view F ?c eo) = EXTENT" for eo by (rule length_extent_view [OF inv])
  have "fold (\<lambda>eo. ?g eo (extent_view F ?c eo)) eos (whole_medium I) =
      whole_medium (fold put_byte (concat (map (extent_writes F ?c ?n) eos)) I)" for eos I
  proof (induction eos arbitrary: I)
    case (Cons eo eos)
    let ?t = "min (?n - eo) EXTENT"
    have "fold put_byte (extent_writes F ?c ?n eo) I =
        file_write_all_at I eo (take ?t (extent_view F ?c eo))"
      using fold_put_bytes [of eo "take ?t (extent_view F ?c eo)" I] len [of eo]
      by (simp add: extent_writes_def Let_def)
    then have "?g eo (extent_view F ?c eo) (whole_medium I) =
        whole_medium (fold put_byte (extent_writes F ?c ?n eo) I)"
      using len [of eo] by (auto simp: Let_def medium_open_def file_write_all_at_def)
    then show ?case using Cons.IH by simp
  qed simp
  then show ?thesis
    using r k by (auto simp: medium_apply_def apply_writes_def)
qed

section \<open>Reconciling\<close>

lemma restore_all_length:
  "list_all (record_ok n) rs \<Longrightarrow> n \<le> length I \<Longrightarrow> length (restore_all rs I) = length I"
  by (induction rs arbitrary: I)
    (auto simp: restore_all_def record_ok_def case_prod_unfold)

definition covers :: "(nat \<times> bytes) list \<Rightarrow> nat \<Rightarrow> bool" where
  "covers rs i \<longleftrightarrow> (\<exists>r \<in> set rs. fst r \<le> i \<and> i < fst r + length (snd r))"

lemma restore_all_nth:
  assumes "list_all (record_ok (length F)) rs"
    and "\<And>r. r \<in> set rs \<Longrightarrow> snd r = slice (fst r) (length (snd r)) F"
    and "length F \<le> length I" "i < length F"
  shows "restore_all rs I ! i = (if covers rs i then F ! i else I ! i)"
  using assms
proof (induction rs arbitrary: I)
  case (Cons r rs)
  have b: "fst r + length (snd r) \<le> length F" "snd r = slice (fst r) (length (snd r)) F"
    using Cons.prems(1,2) by (auto simp: record_ok_def)
  let ?I = "splice (fst r) (snd r) I" and ?in = "fst r \<le> i \<and> i < fst r + length (snd r)"
  have l: "length ?I = length I" using b Cons.prems(3) by simp
  have v: "snd r ! (i - fst r) = F ! i" if ?in
  proof -
    have "i - fst r < length (snd r)" "fst r + (i - fst r) = i" using that by auto
    then show ?thesis using b nth_slice [of "fst r" "length (snd r)" F "i - fst r"] by metis
  qed
  have n: "?I ! i = (if ?in then F ! i else I ! i)"
    using v b(1) Cons.prems(3,4) by (simp add: nth_splice)
  have "restore_all rs ?I ! i = (if covers rs i then F ! i else ?I ! i)"
    by (rule Cons.IH) (use Cons.prems l in auto)
  moreover have "restore_all (r # rs) I = restore_all rs ?I"
    by (simp add: restore_all_def case_prod_unfold)
  moreover have "covers (r # rs) i \<longleftrightarrow> ?in \<or> covers rs i" by (simp add: covers_def)
  ultimately show ?case using n by (simp split: if_split)
qed (simp add: restore_all_def covers_def)

text \<open>
  What an interrupted apply can have left: an image between the two lengths that differs from
  the old one only inside captured extents.
\<close>

definition disturbed :: "bytes \<Rightarrow> nat \<Rightarrow> nat list \<Rightarrow> bytes \<Rightarrow> bool" where
  "disturbed F new eos I \<longleftrightarrow> length F \<le> length I \<and> length I \<le> new \<and>
     (\<forall>i < length F. I ! i = F ! i \<or> (\<exists>eo \<in> set eos. eo \<le> i \<and> i < eo + EXTENT))"

lemma records_ok: "list_all (record_ok (length F)) (records_of F eos)"
  by (auto simp: records_of_def record_ok_def list_all_iff)

lemma covers_records:
  "i < length F \<Longrightarrow>
   covers (records_of F eos) i \<longleftrightarrow> (\<exists>eo \<in> set eos. eo \<le> i \<and> i < eo + EXTENT)"
  by (auto simp: covers_def records_of_def)

lemma restore_records:
  assumes "disturbed F new eos I"
  shows "length (restore_all (records_of F eos) I) = length I"
    and "take (length F) (restore_all (records_of F eos) I) = F"
proof -
  let ?rs = "records_of F eos"
  have len: "length F \<le> length I" using assms by (simp add: disturbed_def)
  show l: "length (restore_all ?rs I) = length I" by (rule restore_all_length [OF records_ok len])
  have sl: "snd r = slice (fst r) (length (snd r)) F" if "r \<in> set ?rs" for r
    using that by (auto simp: records_of_def)
  have "restore_all ?rs I ! i = F ! i" if i: "i < length F" for i
    using restore_all_nth [OF records_ok sl len i] covers_records [OF i, of eos] assms i
    unfolding disturbed_def by auto
  then show "take (length F) (restore_all ?rs I) = F"
    by (intro nth_equalityI) (use l len in simp_all)
qed

definition capture_fits :: "bytes \<Rightarrow> nat \<Rightarrow> nat list \<Rightarrow> bool" where
  "capture_fits F new eos \<longleftrightarrow> length F \<le> new \<and> new < 2 ^ 64 \<and> length eos < 2 ^ 64"

lemma capture_fits_journal: "capture_fits F new eos \<Longrightarrow> journal_ok (length F) new (records_of F eos)"
  using records_ok [of F eos]
    le_less_trans [OF length_filter_le [of "\<lambda>eo. eo < length F" eos], of "2 ^ 64"]
  by (simp add: capture_fits_def journal_ok_def records_of_def)

lemma reconcile_armed_eq:
  assumes fits: "capture_fits F new eos" and d: "disturbed F new eos I"
  defines "j \<equiv> journal_bytes (length F) new (records_of F eos)"
  shows "reconcile host (Some j) (whole_medium I) =
     (fst (retire host (Some j)), whole_medium F, Inr ())"
proof -
  let ?rs = "records_of F eos"
  let ?b = "journal_body (length F) new ?rs"
  let ?h = "\<lparr>original_len = length F, new_len = new, record_count = length ?rs,
             body_len = length ?b\<rparr>"
  have jo: "journal_ok (length F) new ?rs" by (rule capture_fits_journal [OF fits])
  have v: "verify_sealed j = Inr (Some ?h)" unfolding j_def by (rule verify_journal [OF jo])
  have w: "walk_records j ?h (length ?rs) HEADER_LEN None = (None, Inr ()) \<and>
    (original_len ?h \<le> length I \<longrightarrow>
      walk_records j ?h (length ?rs) HEADER_LEN (Some (whole_medium I)) =
      (Some (whole_medium (restore_all ?rs I)), Inr ()))"
    by (rule walk_records_ok [of _ "header_bytes (length F) new (length ?rs)" _
          "le_bytes 8 (unat (fnv1a_extend FNV_SEED ?b))"])
      (use records_ok jo in \<open>simp_all add: j_def journal_bytes_def journal_body_def HEADER_LEN_def
          journal_ok_def\<close>)
  have len: "length F \<le> length I" "length I \<le> new" using d by (simp_all add: disturbed_def)
  have "length (restore_all ?rs I) = length I" by (rule restore_records(1) [OF d])
  then have "medium_truncate_and_sync (whole_medium (restore_all ?rs I)) (length F) =
      (whole_medium F, Inr ())"
    using len restore_records(2) [OF d] by (simp add: medium_truncate_and_sync_def medium_open_def)
  moreover have "medium_len (whole_medium I) = length I" by (simp add: medium_open_def)
  ultimately show ?thesis using v w len by (simp add: reconcile_def Let_def)
qed

text \<open>
  A sidecar cut short: either its seal does not verify and it is discarded, or the seal verifies
  by accident and the walk refuses before anything is restored. The image is untouched either way.
\<close>

lemma reconcile_torn_eq:
  assumes fits: "capture_fits F new eos"
    and p: "strict_prefix p (journal_bytes (length F) new (records_of F eos))"
  shows "reconcile host (Some p) (whole_medium I) =
      (fst (retire host (Some p)), whole_medium I, Inr ()) \<or>
    (\<exists>e. reconcile host (Some p) (whole_medium I) = (Some p, whole_medium I, Inl e))"
proof (cases "length p < HEADER_LEN + SEAL_LEN")
  case True
  then show ?thesis by (simp add: reconcile_def verify_sealed_def)
next
  case False
  let ?rs = "records_of F eos"
  let ?j = "journal_bytes (length F) new ?rs" and ?cs = "concat (map record_bytes ?rs)"
  let ?hd = "header_bytes (length F) new (length ?rs)" and ?b = "length p - SEAL_LEN"
  have jo: "journal_ok (length F) new ?rs" by (rule capture_fits_journal [OF fits])
  have lp: "40 \<le> length p" using False by (simp add: HEADER_LEN_def SEAL_LEN_def)
  obtain q where q: "?j = p @ q" "q \<noteq> []" using p by (auto simp: strict_prefix_def prefix_def)
  have lj: "length ?j = 40 + length ?cs" by (simp add: journal_bytes_def journal_body_def)
  have lb: "?b < 32 + length ?cs" "32 \<le> ?b" "?b \<le> length p"
  proof -
    have "length p < length ?j" using q by (simp del: append_is_Nil_conv)
    then show "?b < 32 + length ?cs" using lj lp by (simp add: SEAL_LEN_def)
  qed (use lp in \<open>simp_all add: SEAL_LEN_def\<close>)
  have j: "?j = ?hd @ ?cs @ le_bytes 8 (unat (fnv1a_extend FNV_SEED (journal_body (length F) new ?rs)))"
    by (simp add: journal_bytes_def journal_body_def)
  have take_p: "take n p = take n ?j" if "n \<le> length p" for n using that q(1) by simp
  have hd: "take HEADER_LEN p = ?hd"
    using take_p [of 32] lp unfolding j by (simp add: HEADER_LEN_def)
  have body: "take (?b - 32) (drop 32 p) = take (?b - 32) ?cs"
  proof -
    have "take (?b - 32) (drop 32 p) = drop 32 (take ?b p)" by (simp add: drop_take)
    also have "\<dots> = drop 32 (take ?b ?j)" using take_p [of ?b] lb by simp
    also have "\<dots> = take (?b - 32) ?cs" using lb unfolding j by (simp add: drop_take)
    finally show ?thesis .
  qed
  let ?h = "\<lparr>original_len = length F, new_len = new, record_count = length ?rs, body_len = ?b\<rparr>"
  have v: "verify_sealed p = Inr None \<or> verify_sealed p = Inr (Some ?h)"
  proof -
    have "40 \<le> length p \<Longrightarrow> \<not> new < length F" using jo by (simp add: journal_ok_def)
    then show ?thesis
      using verify_sealed_eq [of p] False hd header_fields [of "length F" new "length ?rs"] jo lp
      by (simp add: Let_def journal_ok_def split: if_splits)
  qed
  have p_eq: "p = ?hd @ drop 32 p"
    using hd append_take_drop_id [of 32 p] by (simp add: HEADER_LEN_def)
  have w: "walk_records p ?h (length ?rs) HEADER_LEN None = (None, Inl io_error)"
  proof (rule walk_records_torn [OF p_eq])
    show "prefix (take (body_len ?h - HEADER_LEN) (drop 32 p)) ?cs"
      using body by (simp add: HEADER_LEN_def take_is_prefix)
    show "body_len ?h - HEADER_LEN < length ?cs" using lb by (simp add: HEADER_LEN_def)
    show "original_len ?h < 2 ^ 64" using jo by (simp add: journal_ok_def)
  qed (use lb lp records_ok in \<open>simp_all add: HEADER_LEN_def\<close>)
  from v show ?thesis
    by (rule disjE) (use w in \<open>simp_all add: reconcile_def Let_def\<close>)
qed

section \<open>A commit the process may vanish from\<close>

datatype commit_phase =
  Idle
| Recording bytes
| Applying "(nat \<times> u8) list"
| Invalidated
| Retired

record commit_disk =
  on_image :: bytes
  on_sidecar :: "bytes option"
  commit_phase :: commit_phase

text \<open>
  One byte, or one call of \<open>retire\<close>, at a time: the sidecar is created and filled, the captured
  bytes land on the image, the sidecar is emptied, then removed.
\<close>

inductive commit_step :: "bytes \<Rightarrow> (nat \<times> u8) list \<Rightarrow> commit_disk \<Rightarrow> commit_disk \<Rightarrow> bool"
  for j :: bytes and ws :: "(nat \<times> u8) list"
where
  create: "commit_step j ws \<lparr>on_image = I, on_sidecar = None, commit_phase = Idle\<rparr>
             \<lparr>on_image = I, on_sidecar = Some [], commit_phase = Recording j\<rparr>"
| fill: "commit_step j ws \<lparr>on_image = I, on_sidecar = Some p, commit_phase = Recording (b # bs)\<rparr>
             \<lparr>on_image = I, on_sidecar = Some (p @ [b]), commit_phase = Recording bs\<rparr>"
| armed: "commit_step j ws \<lparr>on_image = I, on_sidecar = Some p, commit_phase = Recording []\<rparr>
             \<lparr>on_image = I, on_sidecar = Some p, commit_phase = Applying ws\<rparr>"
| land: "commit_step j ws \<lparr>on_image = I, on_sidecar = sd, commit_phase = Applying (w # ws')\<rparr>
             \<lparr>on_image = put_byte w I, on_sidecar = sd, commit_phase = Applying ws'\<rparr>"
| invalidate: "commit_step j ws \<lparr>on_image = I, on_sidecar = sd, commit_phase = Applying []\<rparr>
             \<lparr>on_image = I, on_sidecar = Some [], commit_phase = Invalidated\<rparr>"
| remove: "commit_step j ws \<lparr>on_image = I, on_sidecar = sd, commit_phase = Invalidated\<rparr>
             \<lparr>on_image = I, on_sidecar = None, commit_phase = Retired\<rparr>"

definition disk_before :: "bytes \<Rightarrow> commit_disk" where
  "disk_before F = \<lparr>on_image = F, on_sidecar = None, commit_phase = Idle\<rparr>"

definition commit_inv :: "bytes \<Rightarrow> bytes \<Rightarrow> (nat \<times> u8) list \<Rightarrow> commit_disk \<Rightarrow> bool" where
  "commit_inv F j ws s \<longleftrightarrow>
     (case commit_phase s of
        Idle \<Rightarrow> on_image s = F \<and> on_sidecar s = None
      | Recording rest \<Rightarrow> on_image s = F \<and> (\<exists>p. on_sidecar s = Some p \<and> j = p @ rest)
      | Applying rest \<Rightarrow> on_sidecar s = Some j \<and>
          (\<exists>landed. ws = landed @ rest \<and> on_image s = fold put_byte landed F)
      | Invalidated \<Rightarrow> on_sidecar s = Some [] \<and> on_image s = fold put_byte ws F
      | Retired \<Rightarrow> on_sidecar s = None \<and> on_image s = fold put_byte ws F)"

lemma commit_inv_step: "commit_step j ws s s' \<Longrightarrow> commit_inv F j ws s \<Longrightarrow> commit_inv F j ws s'"
proof (induction rule: commit_step.induct)
  case (land I sd w ws')
  then obtain landed where "ws = landed @ w # ws'" "I = fold put_byte landed F" "sd = Some j"
    by (auto simp: commit_inv_def)
  then show ?case by (auto simp: commit_inv_def intro!: exI [of _ "landed @ [w]"])
qed (auto simp: commit_inv_def)

lemma commit_inv_reachable:
  "(commit_step j ws)\<^sup>*\<^sup>* (disk_before F) s \<Longrightarrow> commit_inv F j ws s"
  by (induction rule: rtranclp_induct)
    (auto simp: disk_before_def intro: commit_inv_step, simp add: commit_inv_def)

definition journal_of :: "bytes \<Rightarrow> capture \<Rightarrow> bytes" where
  "journal_of F k =
     journal_bytes (length F) (cap_len k) (records_of F (dirty_offsets (cap_cache k)))"

lemma disturbed_landed:
  assumes "disturbed F new eos I"
    and "\<forall>w \<in> set ws. fst w < new \<and> (\<exists>eo \<in> set eos. eo \<le> fst w \<and> fst w < eo + EXTENT)"
  shows "disturbed F new eos (fold put_byte ws I)"
  using assms
proof (induction ws arbitrary: I)
  case (Cons w ws)
  obtain off b where w: "w = (off, b)" by (cases w)
  have lens: "length F \<le> length I" "length I \<le> new" "off < new"
    and same: "\<And>i. i < length F \<Longrightarrow> I ! i = F ! i \<or> (\<exists>eo \<in> set eos. eo \<le> i \<and> i < eo + EXTENT)"
    and at: "\<exists>eo \<in> set eos. eo \<le> off \<and> off < eo + EXTENT"
    using Cons.prems by (simp_all add: disturbed_def w)
  have "put_byte w I ! i = F ! i \<or> (\<exists>eo \<in> set eos. eo \<le> i \<and> i < eo + EXTENT)"
    if "i < length F" for i
    using same [OF that] at lens(1) that by (cases "i = off") (auto simp: w length_put_byte put_byte_nth)
  then have "disturbed F new eos (put_byte w I)"
    using lens by (simp add: disturbed_def w length_put_byte)
  then show ?case using Cons by simp
qed simp

lemma apply_writes_inside:
  assumes "w \<in> set (apply_writes F k)"
  shows "fst w < cap_len k \<and>
    (\<exists>eo \<in> set (dirty_offsets (cap_cache k)). eo \<le> fst w \<and> fst w < eo + EXTENT)"
proof -
  obtain eo where eo: "eo \<in> set (dirty_offsets (cap_cache k))"
      "w \<in> set (extent_writes F (cap_cache k) (cap_len k) eo)"
    using assms by (auto simp: apply_writes_def)
  then have "fst w \<in> set [eo..<eo + min (cap_len k - eo) EXTENT]"
    by (cases w) (auto simp: extent_writes_def Let_def dest: set_zip_leftD)
  then show ?thesis using eo(1) by auto
qed

section \<open>The commit as a whole\<close>

lemma medium_contents_whole [simp]: "medium_contents (whole_medium F) = F"
  by (simp add: medium_contents_def medium_open_def)

lemma whole_medium_healthy [simp]: "medium_healthy (whole_medium F)"
  by (simp add: medium_healthy_def medium_open_def)

lemma staged:
  assumes inv: "cache_inv F c" and ok: "storage_ok c" and h: "\<forall>n. h n"
  shows "\<exists>c' d. write_through captured_len captured_write_at c (begin_capture h n (whole_medium F)) =
      (c', d, Inr ()) \<and> keeps F c c' \<and> captured_healthy d \<and> captured_contents d = presented F c"
proof -
  let ?d = "begin_capture h n (whole_medium F)"
  have d: "captured_healthy ?d" "captured_contents ?d = F"
    using begin_capture_healthy [OF _ h, of "whole_medium F"] by simp_all
  have "\<exists>c' d'. write_through captured_len captured_write_at c ?d = (c', d', Inr ()) \<and>
       keeps F c c' \<and> resident c' = resident c \<and> spill c' = spill c \<and> captured_healthy d' \<and>
       captured_contents d' = map (cell F c) [0..<length F]"
    unfolding write_through_def
    by (rule captured.for_each_dirty_device [OF inv ok d(1)])
      (simp_all add: d through_take_EXTENT captured.len_contents)
  then show ?thesis by (auto simp: presented_def)
qed

lemma dirty_loop_frame:
  assumes f: "\<And>st eo bs. p (fst (f st eo bs)) = p st"
  shows "p (fst (snd (dirty_loop f items c st))) = p st"
proof (induction items arbitrary: c st)
  case (Cons i items)
  obtain eo x where i: "i = (eo, x)" by (cases i)
  have step: "p (fst (snd (case f st eo bs of
        (st', Inl err) \<Rightarrow> (c', st', Inl err)
      | (st', Inr u) \<Rightarrow> dirty_loop f items c' st'))) = p st" for c' bs
    using f [of st eo bs] Cons.IH by (auto split: prod.split sum.split)
  show ?case
  proof (cases x)
    case (Some e)
    then show ?thesis using step [of c "data e"] by (simp add: i)
  next
    case None
    then show ?thesis using step by (auto simp: i split: prod.split sum.split)
  qed
qed simp

lemma capture_medium:
  assumes "write_through captured_len captured_write_at c d = (c', d', r)"
  shows "cd_medium d' = cd_medium d"
proof -
  define f where "f = (\<lambda>d eo bs. let t = through_take (captured_len d) eo (length bs)
      in if t > 0 then captured_write_at d eo (take t bs) else (d, Inr ()))"
  have "cd_medium (fst (f d eo bs)) = cd_medium d" for d eo bs
    by (auto simp: f_def captured_write_at_def set_cap_cache_def Let_def split: prod.split sum.split)
  from dirty_loop_frame [of cd_medium f, OF this]
  have "cd_medium (fst (snd (dirty_loop f (dirty_items c) c d))) = cd_medium d" .
  moreover have "dirty_loop f (dirty_items c) c d = (c', d', r)"
    using assms unfolding write_through_def for_each_dirty_def f_def .
  ultimately show ?thesis by simp
qed

lemma clean_presents: "cache_inv B c \<Longrightarrow> \<not> modified c \<Longrightarrow> i < length B \<Longrightarrow> cell B c i = B ! i"
proof -
  assume inv: "cache_inv B c" and m: "\<not> modified c" and i: "i < length B"
  have "dirty_items c = []"
  proof (cases "dirty_items c")
    case (Cons p ps)
    obtain eo x where p: "p = (eo, x)" by (cases p)
    show ?thesis
    proof (cases x)
      case (Some e)
      then have "map_of (resident c) eo = Some e \<and> dirty e"
        using Cons p dirty_items_inv(1) [OF inv, of eo e] by simp
      then show ?thesis using m by (auto simp: modified_def dest: map_of_SomeD)
    next
      case None
      then have "holds c eo" using Cons p dirty_items_inv(2) [OF inv, of eo] by simp
      then show ?thesis using m
        by (auto simp: modified_def holds_def spill_holds_def split: option.splits)
    qed
  qed simp
  then show ?thesis using cell_base_extent [OF unlisted_base [OF inv], of i] i by simp
qed

lemma applied:
  assumes h: "captured_healthy d" and d: "cd_medium d = whole_medium F" "captured_len d = length F"
  shows "\<exists>k2. medium_apply (whole_medium F) (cd_capture d) =
      (k2, whole_medium (captured_contents d), Inr ())"
proof -
  let ?k = "cd_capture d" and ?n = "cap_len (cd_capture d)"
  have inv: "cache_inv F (cap_cache ?k)" and ok: "storage_ok (cap_cache ?k)"
    using h d by (simp_all add: captured_healthy_def)
  have n: "?n = length F" using d(2) by (simp add: captured_len_def)
  let ?f = "\<lambda>m eo bs. let t = min (?n - eo) (length bs)
                        in if t > 0 then medium_write_at m eo (take t bs) else (m, Inr ())"
  obtain c' m' where r: "for_each_dirty ?f (cap_cache ?k) (whole_medium F) = (c', m', Inr ())"
    and m': "medium_contents m' = map (cell F (cap_cache ?k)) [0..<?n]"
    using medium.for_each_dirty_device [where f = ?f and n = ?n and d = "whole_medium F", OF inv ok]
    by (auto simp: n min.commute)
  obtain c where e: "medium_apply (whole_medium F) ?k =
      (?k\<lparr>cap_cache := c\<rparr>, whole_medium (fold put_byte (apply_writes F ?k) F), Inr ())"
    using medium_apply_eq [OF inv ok] by blast
  have "m' = whole_medium (fold put_byte (apply_writes F ?k) F)"
    using e r by (simp add: medium_apply_def)
  then have "fold put_byte (apply_writes F ?k) F = captured_contents d"
    using m' d by (simp add: captured_contents_def captured_len_def)
  then show ?thesis using e by auto
qed

section \<open>The properties\<close>

text \<open>
  C1: Interruption never invents a third state. From whatever a process vanishing at any byte of
  a commit leaves, reconciling at the next open gives wholly the old image, or, once the journal
  was invalidated, wholly the new one; it refuses at most a sidecar it was still recording, and
  leaves no sidecar where it succeeds.
\<close>

theorem interrupted_commit_reconciles:
  assumes "cache_inv F (cap_cache k)" "storage_ok (cap_cache k)"
    and "capture_fits F (cap_len k) (dirty_offsets (cap_cache k))"
    and "journal_record None (whole_medium F) k = (k1, Some j, Inr ())"
    and "medium_apply (whole_medium F) k = (k2, whole_medium F', Inr ())"
    and "(commit_step j (apply_writes F k))\<^sup>*\<^sup>* (disk_before F) s"
  shows "\<exists>side I r. reconcile (True, True) (on_sidecar s) (whole_medium (on_image s)) =
        (side, whole_medium I, r) \<and>
      (I = F \<or> I = F' \<and> (commit_phase s = Invalidated \<or> commit_phase s = Retired)) \<and>
      (r = Inr () \<longrightarrow> side = None) \<and>
      (r \<noteq> Inr () \<longrightarrow> I = F \<and> (\<exists>rest. commit_phase s = Recording rest))"
proof -
  let ?eos = "dirty_offsets (cap_cache k)" and ?ws = "apply_writes F k"
  have j: "j = journal_of F k"
    using journal_record_eq [OF assms(1,2), of None] assms(4)
    by (auto simp: host_takes_def journal_of_def)
  have F': "F' = fold put_byte ?ws F"
    using medium_apply_eq [OF assms(1,2)] assms(5) by (auto simp: medium_open_def)
  have inv: "commit_inv F j ?ws s" by (rule commit_inv_reachable [OF assms(6)])
  note armed = reconcile_armed_eq [OF assms(3), of _ "(True, True)", folded journal_of_def, folded j]
  have start: "disturbed F (cap_len k) ?eos F"
    using assms(3) by (simp add: disturbed_def capture_fits_def)
  have retire: "fst (retire (True, True) x) = None" for x by (simp add: retire_def)
  show ?thesis
  proof (cases "commit_phase s")
    case Idle
    then show ?thesis using inv by (simp add: commit_inv_def reconcile_def)
  next
    case (Recording rest)
    then obtain p where s: "on_image s = F" "on_sidecar s = Some p" "j = p @ rest"
      using inv by (auto simp: commit_inv_def)
    show ?thesis
    proof (cases "rest = []")
      case True
      then show ?thesis using armed [OF start] s retire by auto
    next
      case False
      then have "strict_prefix p (journal_bytes (length F) (cap_len k) (records_of F ?eos))"
        using s j by (simp add: journal_of_def strict_prefix_def)
      from reconcile_torn_eq [OF assms(3) this, of "(True, True)" F]
      show ?thesis using s Recording retire by auto
    qed
  next
    case (Applying rest)
    then obtain landed where s: "on_sidecar s = Some j" "?ws = landed @ rest"
        "on_image s = fold put_byte landed F"
      using inv by (auto simp: commit_inv_def)
    have "\<forall>w \<in> set landed. fst w < cap_len k \<and>
        (\<exists>eo \<in> set ?eos. eo \<le> fst w \<and> fst w < eo + EXTENT)"
      using apply_writes_inside s(2) by (metis UnCI set_append)
    from disturbed_landed [OF start this] show ?thesis
      using armed s retire by auto
  next
    case Invalidated
    then have "on_image s = F'" "on_sidecar s = Some []" using inv F' by (simp_all add: commit_inv_def)
    then show ?thesis using Invalidated retire
      by (auto simp: reconcile_def verify_sealed_def HEADER_LEN_def)
  next
    case Retired
    then have "on_image s = F'" "on_sidecar s = None" using inv F' by (simp_all add: commit_inv_def)
    then show ?thesis using Retired by (auto simp: reconcile_def)
  qed
qed

lemma committed_presents:
  assumes inv: "cache_inv F c" and pad: "padded F c"
  shows "presented (presented F c) (mark_committed c) = presented F c"
    "\<not> modified (mark_committed c)"
proof -
  show "presented (presented F c) (mark_committed c) = presented F c"
    using mark_committed_presents(2) [OF inv pad] by (simp add: presented_def)
  show "\<not> modified (mark_committed c)"
    by (simp add: modified_def mark_committed_def Let_def case_prod_unfold)
qed


text \<open>A session with one byte written, for the witnesses.\<close>

lemma one_byte_session:
  "\<exists>c. cache_write_at 1 (image_read [0]) (with_bound (\<lambda>k. True) 1) 0 [7] = (c, Inr ()) \<and>
     cache_inv [0] c \<and> storage_ok c \<and> padded [0] c \<and> presented [0] c = [7] \<and>
     dirty_offsets c = [0] \<and> modified c"
proof -
  let ?w = "with_bound (\<lambda>k. True) 1"
  have ok: "storage_ok ?w" by (simp add: storage_ok_def with_bound_def)
  obtain c where w: "cache_write_at 1 (image_read [0]) ?w 0 [7] = (c, Inr ())"
    and c: "cache_inv [0] c" "storage_ok c"
    and cl: "\<And>i. cell [0] c i = (if i < 1 then [7] ! i else cell [0] ?w i)"
    using image_base.cache_write_at_total [of "[0]" ?w 0 "[7]", OF cache_inv_with_bound ok] by auto
  have d: "resident c = [(0, \<lparr>data = splice 0 [7] (base_extent [0] 0), dirty = True, used = 2,
      version = 2\<rparr>)]" "spill c = None"
    using one_write_cache [of "[0]" "\<lambda>k. True" 7] w by auto
  have "padded [0] c" by (simp add: padded_def cl cell_with_bound)
  moreover have "presented [0] c = [7]" by (simp add: presented_def cl)
  moreover have "dirty_offsets c = [0]" "modified c"
    by (simp_all add: dirty_offsets_def dirty_items_def modified_def d)
  ultimately show ?thesis using w c by auto
qed


lemma interrupted_commit_reconciles_witness:
  "\<exists>k k1 j k2 F'. journal_record None (whole_medium [0]) k = (k1, Some j, Inr ()) \<and>
     medium_apply (whole_medium [0]) k = (k2, whole_medium F', Inr ()) \<and>
     dirty_offsets (cap_cache k) = [0] \<and>
     (\<exists>side I r. reconcile (True, True) (Some []) (whole_medium [0]) = (side, whole_medium I, r) \<and>
        (I = [0] \<or> I = F' \<and> (Recording j = Invalidated \<or> Recording j = Retired)) \<and>
        (r = Inr () \<longrightarrow> side = None) \<and>
        (r \<noteq> Inr () \<longrightarrow> I = [0] \<and> (\<exists>rest. Recording j = Recording rest)))"
proof -
  obtain c where c: "cache_inv [0] c" "storage_ok c" "dirty_offsets c = [0]" "spill c = None"
  proof -
    obtain c where "cache_write_at 1 (image_read [0]) (with_bound (\<lambda>k. True) 1) 0 [7] = (c, Inr ())"
      "cache_inv [0] c" "storage_ok c" "dirty_offsets c = [0]" using one_byte_session by blast
    moreover from this have "spill c = None"
      using one_write_cache [of "[0]" "\<lambda>k. True" 7] by auto
    ultimately show thesis using that by blast
  qed
  let ?k = "\<lparr>cap_cache = c, cap_len = 1\<rparr>"
  obtain c2 where jr: "journal_record None (whole_medium [0]) ?k =
      (?k\<lparr>cap_cache := c2\<rparr>, Some (journal_of [0] ?k), Inr ())"
    using journal_record_eq [of "[0]" ?k None] c by (auto simp: host_takes_def journal_of_def)
  obtain k2 F' where ap: "medium_apply (whole_medium [0]) ?k = (k2, whole_medium F', Inr ())"
    using medium_apply_eq [of "[0]" ?k] c by auto
  have step: "(commit_step (journal_of [0] ?k) (apply_writes [0] ?k))\<^sup>*\<^sup>* (disk_before [0])
      \<lparr>on_image = [0], on_sidecar = Some [], commit_phase = Recording (journal_of [0] ?k)\<rparr>"
    by (rule r_into_rtranclp) (simp add: disk_before_def commit_step.create)
  have "capture_fits [0] (cap_len ?k) (dirty_offsets (cap_cache ?k))"
    using c by (simp add: capture_fits_def)
  from interrupted_commit_reconciles [OF _ _ this jr ap step] show ?thesis
    using c jr ap by - (rule exI [of _ ?k], auto)
qed

end
