(* ===== verification/Checksum.thy ===== *)
theory Checksum
  imports Prelude
begin

text \<open>
  The shared checks (\<open>src/crates/remanence/src/checksum.rs\<close>): the reflected CRC-32 computed from
  its table, and the forward CRC-16/CCITT computed bit by bit. The table is shown to compute the
  polynomial division it abbreviates, and each check is shown to stream.
\<close>

section \<open>CRC-32\<close>

definition crc_step :: "u32 \<Rightarrow> u32" where
  "crc_step v = (if v AND 1 \<noteq> 0 then drop_bit 1 v XOR 0xedb88320 else drop_bit 1 v)"

definition crc_entry :: "nat \<Rightarrow> u32" where
  "crc_entry i = (crc_step ^^ 8) (word_of_nat i)"

definition CRC_TABLE :: "u32 list" where
  "CRC_TABLE = map crc_entry [0..<256]"

definition crc32_new :: u32 where
  "crc32_new = - 1"

fun crc32_update :: "u32 \<Rightarrow> bytes \<Rightarrow> u32" where
  "crc32_update c [] = c"
| "crc32_update c (b # bs) =
     crc32_update (CRC_TABLE ! unat ((c XOR ucast b) AND 0xff) XOR drop_bit 8 c) bs"

definition crc32_finish :: "u32 \<Rightarrow> u32" where
  "crc32_finish c = NOT c"

definition crc32 :: "bytes \<Rightarrow> u32" where
  "crc32 bs = crc32_finish (crc32_update crc32_new bs)"

text \<open>The division itself, one bit at a time, as the standard defines it.\<close>

fun crc32_bitwise :: "u32 \<Rightarrow> bytes \<Rightarrow> u32" where
  "crc32_bitwise c [] = c"
| "crc32_bitwise c (b # bs) = crc32_bitwise ((crc_step ^^ 8) (c XOR ucast b)) bs"

lemma and_one_bit: "v AND 1 \<noteq> 0 \<longleftrightarrow> bit v 0" for v :: "'a::len word"
  by (simp add: and_one_eq bit_0 odd_iff_mod_2_eq_one)

lemma crc_step_xor: "crc_step (x XOR y) = crc_step x XOR crc_step y"
proof -
  have "crc_step v = (if bit v 0 then drop_bit 1 v XOR 0xedb88320 else drop_bit 1 v)" for v
    by (simp only: crc_step_def and_one_bit)
  then show ?thesis by (auto simp: bit_xor_iff drop_bit_xor ac_simps)
qed

lemma crc_steps_xor: "(crc_step ^^ n) (x XOR y) = (crc_step ^^ n) x XOR (crc_step ^^ n) y"
  by (induction n) (simp_all add: crc_step_xor)

lemma crc_steps_high: "n \<le> m \<Longrightarrow> (\<And>i. i < m \<Longrightarrow> \<not> bit x i) \<Longrightarrow> (crc_step ^^ n) x = drop_bit n x"
proof (induction n)
  case (Suc n)
  have "\<not> bit (drop_bit n x) 0" using Suc.prems by (simp add: bit_drop_bit_eq)
  then show ?case using Suc by (simp add: crc_step_def and_one_bit)
qed simp

lemma and_ff: "x AND 0xff = take_bit 8 x" for x :: "'a::len word"
  by (simp add: take_bit_eq_mask mask_eq_exp_minus_1)

lemma split_low_byte: "x = take_bit 8 x XOR push_bit 8 (drop_bit 8 x)" for x :: "'a::len word"
  by (rule bit_word_eqI) (auto simp: bit_simps)

text \<open>One table lookup is eight steps of the division.\<close>

lemma table_step: "CRC_TABLE ! unat (x AND 0xff) XOR drop_bit 8 x = (crc_step ^^ 8) x"
proof -
  have "unat (x AND 0xff) < 256"
    using take_bit_nat_less_exp [of 8 "unat x"] by (simp only: and_ff unsigned_take_bit_eq) simp
  then have 1: "CRC_TABLE ! unat (x AND 0xff) = (crc_step ^^ 8) (take_bit 8 x)"
    by (simp add: CRC_TABLE_def crc_entry_def and_ff)
  have "(crc_step ^^ 8) (push_bit 8 (drop_bit 8 x)) = drop_bit 8 (push_bit 8 (drop_bit 8 x))"
    by (rule crc_steps_high [of _ 8]) (simp_all add: bit_simps)
  moreover have "drop_bit 8 (push_bit 8 (drop_bit 8 x)) = drop_bit 8 x"
    by (rule bit_word_eqI) (auto simp: bit_simps dest: bit_imp_le_length)
  ultimately have 2: "(crc_step ^^ 8) (push_bit 8 (drop_bit 8 x)) = drop_bit 8 x" by simp
  have "(crc_step ^^ 8) x = (crc_step ^^ 8) (take_bit 8 x XOR push_bit 8 (drop_bit 8 x))"
    by (rule arg_cong [OF split_low_byte])
  then show ?thesis by (simp only: 1 2 crc_steps_xor)
qed

lemma crc32_update_bitwise: "crc32_update c bs = crc32_bitwise c bs"
proof (induction bs arbitrary: c)
  case (Cons b bs)
  let ?x = "c XOR ucast b"
  have "drop_bit 8 ?x = drop_bit 8 c"
    by (rule bit_word_eqI) (auto simp: bit_simps dest: bit_imp_le_length)
  then show ?case using Cons table_step [of ?x] by simp
qed simp

lemma crc32_update_append: "crc32_update c (xs @ ys) = crc32_update (crc32_update c xs) ys"
  by (induction xs arbitrary: c) auto

section \<open>CRC-16/CCITT\<close>

definition ccitt_step :: "u16 \<Rightarrow> u16" where
  "ccitt_step v = (if v AND 0x8000 \<noteq> 0 then push_bit 1 v XOR 0x1021 else push_bit 1 v)"

definition ccitt_new :: u16 where
  "ccitt_new = 0xffff"

fun ccitt_update :: "u16 \<Rightarrow> bytes \<Rightarrow> u16" where
  "ccitt_update c [] = c"
| "ccitt_update c (b # bs) = ccitt_update ((ccitt_step ^^ 8) (c XOR push_bit 8 (ucast b))) bs"

definition crc16_ccitt :: "bytes \<Rightarrow> u16" where
  "crc16_ccitt bs = ccitt_update ccitt_new bs"

lemma ccitt_update_append: "ccitt_update c (xs @ ys) = ccitt_update (ccitt_update c xs) ys"
  by (induction xs arbitrary: c) auto

lemma and_top_bit: "v AND 0x8000 \<noteq> 0 \<longleftrightarrow> bit v 15" for v :: u16
proof -
  have e: "(0x8000 :: u16) = push_bit 15 1" by simp
  have "v AND push_bit 15 1 = (if bit v 15 then push_bit 15 1 else 0)"
  proof (rule bit_word_eqI)
    fix n assume "n < LENGTH(16)"
    then have "15 \<le> n \<Longrightarrow> n = 15" by simp
    then show "bit (v AND push_bit 15 1) n = bit (if bit v 15 then push_bit 15 (1 :: u16) else 0) n"
      by (auto simp: bit_and_iff bit_push_bit_iff bit_1_iff simp del: push_bit_of_1)
  qed
  then show ?thesis unfolding e by simp
qed

lemma ccitt_steps_low:
  "n + m \<le> 16 \<Longrightarrow> (\<And>i. 16 - n - m \<le> i \<Longrightarrow> \<not> bit x i) \<Longrightarrow> (ccitt_step ^^ n) x = push_bit n x"
proof (induction n)
  case (Suc n)
  have IH: "(ccitt_step ^^ n) x = push_bit n x" using Suc by simp
  have nb: "\<not> bit (push_bit n x) 15" using Suc.prems by (simp add: bit_push_bit_iff)
  have "(ccitt_step ^^ Suc n) x = ccitt_step (push_bit n x)" by (simp only: funpow.simps o_apply IH)
  also have "\<dots> = push_bit 1 (push_bit n x)" by (simp only: ccitt_step_def and_top_bit nb if_False)
  also have "\<dots> = push_bit (Suc n) x" by (simp only: push_bit_push_bit plus_1_eq_Suc)
  finally show ?case .
qed simp

text \<open>
  The field followed by its own check, high byte first, leaves the register at zero: this is how
  a floppy's sector proves itself.
\<close>

lemma ccitt_self_check:
  "ccitt_update c [ucast (drop_bit 8 (c :: u16)), ucast c] = 0"
proof -
  let ?l = "take_bit 8 c"
  have 1: "c XOR push_bit 8 (ucast (ucast (drop_bit 8 c) :: u8)) = ?l"
    by (rule bit_word_eqI) (auto simp: bit_simps dest: bit_imp_le_length)
  have 2: "(ccitt_step ^^ 8) ?l = push_bit 8 ?l"
    by (rule ccitt_steps_low [of _ 0]) (auto simp: bit_simps)
  have 3: "push_bit 8 ?l XOR push_bit 8 (ucast (ucast c :: u8)) = 0"
    by (rule bit_word_eqI) (auto simp: bit_simps dest: bit_imp_le_length)
  have "(ccitt_step ^^ 8) 0 = 0" by (simp add: ccitt_step_def eval_nat_numeral)
  then show ?thesis using 1 2 3 by simp
qed

section \<open>The properties\<close>

text \<open>
  C17: The table-driven CRC-32 is the bit-by-bit division over the reversed 0xedb88320 polynomial,
  on every input, and feeding the data in pieces gives the check of the whole.
\<close>

theorem crc32_is_division:
  "crc32 (xs @ ys) = NOT (crc32_bitwise (crc32_bitwise (- 1) xs) ys) \<and>
   crc32 (xs @ ys) = crc32_finish (crc32_update (crc32_update crc32_new xs) ys)"
  by (simp add: crc32_def crc32_finish_def crc32_new_def crc32_update_append
      crc32_update_bitwise [symmetric])

text \<open>
  A CRC-16/CCITT covers marks and field as one stream: the check of the marks continued over
  the field is the check of both, and the field followed by its check reads as zero.
\<close>

theorem crc16_streams_and_checks:
  "crc16_ccitt (marks @ field) = ccitt_update (crc16_ccitt marks) field \<and>
   crc16_ccitt (field @ [ucast (drop_bit 8 (crc16_ccitt field)), ucast (crc16_ccitt field)]) = 0"
  by (simp add: crc16_ccitt_def ccitt_update_append ccitt_self_check del: ccitt_update.simps)

end
