(* ===== verification/Encoding.thy ===== *)
theory Encoding
  imports Prelude
begin

text \<open>
  The FM and MFM cell rules and the address marks that frame them
  (\<open>src/crates/remanence/src/flux/ibm/encoding.rs\<close>). Cells are recorded clock first, most
  significant bit first; a run of them is a list of booleans. The lemmas bring the code's shifts
  to one rule over lists, from which the round trip and the reach of the marks follow.
\<close>

type_synonym cells = u16

definition MFM_A1 :: u8 where "MFM_A1 = 0xa1"
definition MFM_A1_CELLS :: cells where "MFM_A1_CELLS = 0x4489"
definition FM_INDEX_CELLS :: cells where "FM_INDEX_CELLS = 0xf77a"
definition FM_ID_CELLS :: cells where "FM_ID_CELLS = 0xf57e"
definition FM_DATA_CELLS :: cells where "FM_DATA_CELLS = 0xf56f"
definition FM_DELETED_CELLS :: cells where "FM_DELETED_CELLS = 0xf56a"

datatype encoding = Fm | Mfm

fun clock_cell :: "encoding \<Rightarrow> bool \<Rightarrow> bool \<Rightarrow> bool" where
  "clock_cell Fm prev d = True"
| "clock_cell Mfm prev d = (\<not> prev \<and> \<not> d)"

definition encode_byte :: "encoding \<Rightarrow> u8 \<Rightarrow> bool \<Rightarrow> cells" where
  "encode_byte enc byte previous =
     fst (foldl (\<lambda>(cs, prev) index.
            let d = (drop_bit index byte AND 1 = 1); clock = clock_cell enc prev d
            in (push_bit 2 cs OR push_bit 1 (of_bool clock) OR of_bool d, d))
          (0, previous) (rev [0..<8]))"

definition cells_bits :: "cells \<Rightarrow> bool list" where
  "cells_bits cs = map (\<lambda>index. drop_bit index cs AND 1 = 1) (rev [0..<16])"

fun encode :: "encoding \<Rightarrow> bytes \<Rightarrow> bool \<Rightarrow> bool list \<times> bool" where
  "encode enc [] prev = ([], prev)"
| "encode enc (byte # bs) prev =
     (let cs = encode_byte enc byte prev; (out, prev') = encode enc bs (byte AND 1 = 1)
      in (cells_bits cs @ out, prev'))"

definition encode_mark :: "cells \<Rightarrow> bool list" where
  "encode_mark cs = cells_bits cs"

definition decode_byte :: "cells \<Rightarrow> u8" where
  "decode_byte cs =
     foldl (\<lambda>byte index. push_bit 1 byte OR ucast (drop_bit (index * 2) cs AND 1)) 0 (rev [0..<8])"

definition push_cell :: "cells \<Rightarrow> bool \<Rightarrow> cells" where
  "push_cell cs b = push_bit 1 cs OR of_bool b"

definition cells_at :: "bool list \<Rightarrow> nat \<Rightarrow> cells option" where
  "cells_at bits at =
     (if at + 16 > length bits then None
      else Some (foldl (\<lambda>cs k. push_cell cs (bits ! (at + k))) 0 [0..<16]))"

definition find_marks :: "bool list \<Rightarrow> cells \<Rightarrow> nat list" where
  "find_marks bits mark =
     (if length bits < 16 then []
      else snd (foldl (\<lambda>(window, found) index.
             let window = push_cell window (bits ! index)
             in (window, if index \<ge> 15 \<and> window = mark then found @ [index - 15] else found))
           (0, []) [0..<length bits]))"

section \<open>Cells as lists\<close>

definition cells_of :: "bool list \<Rightarrow> cells" where
  "cells_of bs = foldl push_cell 0 bs"

lemma bit_push: "bit (push_bit 1 w OR of_bool b) i \<longleftrightarrow>
    (if i = 0 then b else i < LENGTH('a) \<and> bit w (i - 1))" for w :: "'a::len word"
  unfolding bit_or_iff bit_push_bit_iff bit_of_bool_iff
  by (cases i) (auto dest: bit_imp_le_length)

lemma bit_foldl_push:
  "bit (foldl (\<lambda>w b. push_bit 1 w OR of_bool b) (0 :: 'a::len word) bs) i \<longleftrightarrow>
   i < LENGTH('a) \<and> i < length bs \<and> rev bs ! i"
proof (induction bs arbitrary: i rule: rev_induct)
  case (snoc b bs)
  show ?case
    unfolding foldl_append foldl.simps bit_push
    using snoc [of "i - 1"] by (cases i) (auto simp del: push_bit_Suc)
qed simp

lemma bit_push_cell: "bit (push_cell cs b) i \<longleftrightarrow> (if i = 0 then b else i < 16 \<and> bit cs (i - 1))"
  unfolding push_cell_def bit_push by simp

lemma bit_cells_of: "bit (cells_of bs) i \<longleftrightarrow> i < 16 \<and> i < length bs \<and> rev bs ! i"
  using bit_foldl_push [of bs i, where 'a = 16] by (simp only: cells_of_def push_cell_def [abs_def]) simp

lemma and_1_bit: "v AND 1 = 1 \<longleftrightarrow> bit v 0" for v :: "'a::len word"
  by (simp add: and_one_eq bit_0 odd_iff_mod_2_eq_one)

lemma drop_and_1: "drop_bit i v AND 1 = 1 \<longleftrightarrow> bit v i" for v :: "'a::len word"
  unfolding and_1_bit by (simp add: bit_drop_bit_eq)

definition byte_bits :: "u8 \<Rightarrow> bool list" where
  "byte_bits b = map (bit b) (rev [0..<8])"

text \<open>The rule itself, over the data bits.\<close>

fun pairs :: "encoding \<Rightarrow> bool \<Rightarrow> bool list \<Rightarrow> bool list" where
  "pairs enc prev [] = []"
| "pairs enc prev (d # ds) = clock_cell enc prev d # d # pairs enc d ds"

lemma length_pairs [simp]: "length (pairs enc prev ds) = 2 * length ds"
  by (induction enc prev ds rule: pairs.induct) auto

lemma pairs_nth:
  "i < length ds \<Longrightarrow> pairs enc prev ds ! (2 * i + 1) = ds ! i \<and>
     pairs enc prev ds ! (2 * i) = clock_cell enc (if i = 0 then prev else ds ! (i - 1)) (ds ! i)"
proof (induction enc prev ds arbitrary: i rule: pairs.induct)
  case (2 enc prev d ds)
  then show ?case by (cases i) (auto simp: nth_Cons')
qed simp

lemma pairs_append:
  "pairs enc l (xs @ ys) = pairs enc l xs @ pairs enc (if xs = [] then l else last xs) ys"
  by (induction enc l xs rule: pairs.induct) auto

lemma push_two: "push_bit 2 cs OR push_bit 1 (of_bool c) OR of_bool d = push_cell (push_cell cs c) d"
proof (rule bit_word_eqI)
  fix i assume "i < LENGTH(16)"
  then show "bit (push_bit 2 cs OR push_bit 1 (of_bool c) OR of_bool d) i =
      bit (push_cell (push_cell cs c) d) i"
    unfolding bit_push_cell bit_or_iff bit_push_bit_iff bit_of_bool_iff
    by (cases "i = 0"; cases "i = 1") (auto simp: numeral_2_eq_2)
qed

lemma encode_byte_cells: "encode_byte enc b prev = cells_of (pairs enc prev (byte_bits b))"
proof -
  have "fst (foldl (\<lambda>(cs, prev) index.
            let d = (drop_bit index b AND 1 = 1); clock = clock_cell enc prev d
            in (push_bit 2 cs OR push_bit 1 (of_bool clock) OR of_bool d, d)) (cs, l) is) =
        foldl push_cell cs (pairs enc l (map (bit b) is))" for cs l "is"
  proof (induction "is" arbitrary: cs l)
    case (Cons i "is")
    show ?case
      using Cons.IH unfolding foldl_Cons list.map pairs.simps Let_def drop_and_1 push_two prod.case .
  qed simp
  then show ?thesis by (simp add: encode_byte_def cells_of_def byte_bits_def)
qed

lemma length_byte_bits [simp]: "length (byte_bits b) = 8"
  by (simp add: byte_bits_def)

lemma byte_bits_ne [simp]: "byte_bits b \<noteq> []"
  by (simp add: byte_bits_def)

lemma cells_bits_of: "length bs = 16 \<Longrightarrow> cells_bits (cells_of bs) = bs"
  by (rule nth_equalityI)
    (auto simp: cells_bits_def drop_and_1 bit_cells_of rev_nth)

lemma last_byte_bits: "last (byte_bits b) = (b AND 1 = 1)"
  by (simp add: byte_bits_def and_1_bit last_map last_rev upt_conv_Cons)

lemma encode_pairs:
  "encode enc bs prev = (pairs enc prev (concat (map byte_bits bs)),
     if bs = [] then prev else last bs AND 1 = 1)"
proof (induction bs arbitrary: prev)
  case (Cons b bs)
  have "cells_bits (encode_byte enc b prev) = pairs enc prev (byte_bits b)"
    unfolding encode_byte_cells by (rule cells_bits_of) simp
  then show ?case by (simp add: Cons pairs_append last_byte_bits)
qed simp

lemma decode_byte_bit:
  assumes "i < 8"
  shows "bit (decode_byte cs) i = bit cs (2 * i)"
proof -
  have one: "ucast (v AND 1) = (of_bool (bit v 0) :: u8)" for v :: u16
    by (rule bit_word_eqI) (auto simp: bit_simps bit_of_bool_iff)
  have "decode_byte cs =
      foldl (\<lambda>w b. push_bit 1 w OR of_bool b) 0 (map (\<lambda>k. bit cs (2 * k)) (rev [0..<8]))"
    unfolding decode_byte_def foldl_map one bit_drop_bit_eq by (simp add: mult.commute)
  then have "bit (decode_byte cs) i \<longleftrightarrow> i < LENGTH(8) \<and>
      i < length (map (\<lambda>k. bit cs (2 * k)) (rev [0..<8])) \<and>
      rev (map (\<lambda>k. bit cs (2 * k)) (rev [0..<8])) ! i"
    by (simp only: bit_foldl_push)
  then show ?thesis using assms by (simp add: rev_map)
qed

lemma decode_encode_byte: "decode_byte (encode_byte enc b prev) = b"
proof (rule bit_word_eqI)
  fix i assume i: "i < LENGTH(8)"
  then have "bit (decode_byte (encode_byte enc b prev)) i = rev (pairs enc prev (byte_bits b)) ! (2 * i)"
    by (simp add: decode_byte_bit encode_byte_cells bit_cells_of)
  also have "\<dots> = pairs enc prev (byte_bits b) ! (2 * (7 - i) + 1)"
  proof -
    have "15 - 2 * i = 2 * (7 - i) + 1" using i by simp
    then show ?thesis using i by (simp add: rev_nth del: mult_Suc_right)
  qed
  also have "\<dots> = byte_bits b ! (7 - i)" using pairs_nth [of "7 - i" "byte_bits b"] by simp
  also have "\<dots> = bit b i" using i by (simp add: byte_bits_def rev_nth)
  finally show "bit (decode_byte (encode_byte enc b prev)) i = bit b i" .
qed

section \<open>Reading cells back\<close>

lemma cells_at_eq:
  "at + 16 \<le> length bits \<Longrightarrow> cells_at bits at = Some (cells_of (slice at 16 bits))"
proof -
  assume le: "at + 16 \<le> length bits"
  have "slice at 16 bits = map (\<lambda>k. bits ! (at + k)) [0..<16]"
    using le by (intro nth_equalityI) simp_all
  then show ?thesis using le by (simp add: cells_at_def cells_of_def foldl_map)
qed

lemma cells_at_None: "\<not> at + 16 \<le> length bits \<Longrightarrow> cells_at bits at = None"
  by (simp add: cells_at_def)

text \<open>Sixteen shifts push out whatever was in the window before.\<close>

lemma cells_of_window:
  assumes "16 \<le> k" "k \<le> length bits"
  shows "cells_of (take k bits) = cells_of (slice (k - 16) 16 bits)"
  by (rule bit_word_eqI)
    (use assms in \<open>auto simp: bit_cells_of rev_nth min_def slice_def\<close>)

lemma find_marks_eq:
  "find_marks bits mark =
   filter (\<lambda>i. cells_at bits i = Some mark) [0..<length bits - 15]"
proof (cases "length bits < 16")
  case True
  then show ?thesis by (simp add: find_marks_def)
next
  case False
  let ?step = "\<lambda>(window, found) index.
             let window = push_cell window (bits ! index)
             in (window, if index \<ge> 15 \<and> window = mark then found @ [index - 15] else found)"
  have "k \<le> length bits \<Longrightarrow> foldl ?step (0, []) [0..<k] =
      (cells_of (take k bits), filter (\<lambda>i. cells_at bits i = Some mark) [0..<k - 15])" for k
  proof (induction k)
    case 0
    then show ?case by (simp add: cells_of_def)
  next
    case (Suc k)
    have w: "cells_of (take (Suc k) bits) = push_cell (cells_of (take k bits)) (bits ! k)"
      using Suc.prems by (simp add: take_Suc_conv_app_nth cells_of_def)
    show ?case
    proof (cases "k \<ge> 15")
      case True
      have "Suc k - 15 = Suc (k - 15)" using True by simp
      then have u: "[0..<Suc k - 15] = [0..<k - 15] @ [k - 15]" by (simp only: upt_Suc) simp
      have "cells_at bits (k - 15) = Some (cells_of (take (Suc k) bits))"
        using cells_at_eq [of "k - 15" bits] cells_of_window [of "Suc k" bits] True Suc.prems
        by simp
      then show ?thesis using Suc True u w by (simp add: Let_def)
    next
      case False
      then show ?thesis using Suc w by (simp add: Let_def)
    qed
  qed
  from this [of "length bits"] show ?thesis using False by (simp add: find_marks_def)
qed

lemma cells_at_bits:
  assumes "cells_at bits i = Some c" "j < 16"
  shows "i + 16 \<le> length bits" "bits ! (i + j) = cells_bits c ! j"
proof -
  show le: "i + 16 \<le> length bits" using assms(1) cells_at_None [of i bits] by fastforce
  then have c: "c = cells_of (slice i 16 bits)" using assms(1) cells_at_eq [OF le] by simp
  have "cells_bits c = slice i 16 bits" unfolding c by (rule cells_bits_of) (use le in simp)
  then show "bits ! (i + j) = cells_bits c ! j" using assms(2) le by simp
qed

text \<open>What the two rules never write.\<close>

lemma fm_clocks: "2 * q < length (pairs Fm p ds) \<Longrightarrow> pairs Fm p ds ! (2 * q)"
  using pairs_nth [of q ds Fm p] by simp

lemma mfm_no_gap:
  "2 * q + 1 < length (pairs Mfm p ds) \<Longrightarrow> 0 < q \<Longrightarrow>
   pairs Mfm p ds ! (2 * q - 1) \<or> pairs Mfm p ds ! (2 * q) \<or> pairs Mfm p ds ! (2 * q + 1)"
proof -
  assume q: "2 * q + 1 < length (pairs Mfm p ds)" "0 < q"
  have "2 * q - 1 = 2 * (q - 1) + 1" using q(2) by simp
  then have "pairs Mfm p ds ! (2 * q - 1) = ds ! (q - 1)"
    using pairs_nth [of "q - 1" ds Mfm p] q by simp
  then show ?thesis using pairs_nth [of q ds Mfm p] q by auto
qed

lemma mark_bits:
  "cells_bits MFM_A1_CELLS = [False, True, False, False, False, True, False, False,
     True, False, False, False, True, False, False, True]"
  "cells_bits FM_INDEX_CELLS = [True, True, True, True, False, True, True, True,
     False, True, True, True, True, False, True, False]"
  "cells_bits FM_ID_CELLS = [True, True, True, True, False, True, False, True,
     False, True, True, True, True, True, True, False]"
  "cells_bits FM_DATA_CELLS = [True, True, True, True, False, True, False, True,
     False, True, True, False, True, True, True, True]"
  "cells_bits FM_DELETED_CELLS = [True, True, True, True, False, True, False, True,
     False, True, True, False, True, False, True, False]"
  by (simp_all add: cells_bits_def upt_conv_Cons MFM_A1_CELLS_def FM_INDEX_CELLS_def FM_ID_CELLS_def
      FM_DATA_CELLS_def FM_DELETED_CELLS_def)

definition mark_of :: "encoding \<Rightarrow> cells \<Rightarrow> bool" where
  "mark_of enc c \<longleftrightarrow>
     (case enc of Mfm \<Rightarrow> c = MFM_A1_CELLS
      | Fm \<Rightarrow> c \<in> {FM_INDEX_CELLS, FM_ID_CELLS, FM_DATA_CELLS, FM_DELETED_CELLS})"

section \<open>The properties\<close>

text \<open>
  C15: Reading sixteen cells at every byte boundary of an encoded run gives back the bytes, in
  both encodings and whatever bit came before the run.
\<close>

theorem decode_encode:
  "map (\<lambda>k. map_option decode_byte (cells_at (fst (encode enc bs previous)) (16 * k)))
     [0..<length bs] = map Some bs \<and>
   length (fst (encode enc bs previous)) = 16 * length bs"
proof (induction bs arbitrary: previous)
  case (Cons b bs)
  let ?rest = "fst (encode enc bs (b AND 1 = 1))" and ?cs = "encode_byte enc b previous"
  have e: "fst (encode enc (b # bs) previous) = cells_bits ?cs @ ?rest"
    by (simp add: case_prod_unfold Let_def)
  have l: "length (cells_bits ?cs) = 16" by (simp add: cells_bits_def)
  have len: "length ?rest = 16 * length bs" using Cons by blast
  have "slice 0 16 (cells_bits ?cs @ ?rest) = cells_bits ?cs" using l by (simp add: slice_def)
  moreover have "cells_of (cells_bits ?cs) = ?cs"
    unfolding encode_byte_cells by (subst cells_bits_of) simp_all
  ultimately have 0: "cells_at (cells_bits ?cs @ ?rest) 0 = Some ?cs"
    using cells_at_eq [of 0 "cells_bits ?cs @ ?rest"] l by simp
  have s: "cells_at (cells_bits ?cs @ ?rest) (16 + n) = cells_at ?rest n" for n
    using l by (simp add: cells_at_def nth_append)
  have "[0..<length (b # bs)] = 0 # map Suc [0..<length bs]"
    by (simp add: map_Suc_upt upt_conv_Cons del: upt_Suc)
  then show ?case
    using Cons [of "b AND 1 = 1"] 0 s l len
    by (simp only: e) (simp add: decode_encode_byte comp_def)
qed simp

text \<open>
  C16: An address mark is a landmark and not a value. No run of bytes encoded by the rule shows the
  cells of its encoding's marks at any position, aligned to a byte or not, so every place
  \<open>find_marks\<close> reports in a recording is one that the rule did not write.
\<close>

theorem marks_unreachable:
  assumes "mark_of enc mark"
  shows "find_marks (fst (encode enc bs previous)) mark = []"
proof -
  let ?s = "pairs enc previous (concat (map byte_bits bs))"
  have "cells_at ?s i \<noteq> Some mark" for i
  proof
    assume at: "cells_at ?s i = Some mark"
    note le = cells_at_bits(1) [OF at, of 0, simplified]
    note nth = cells_at_bits(2) [OF at]
    show False
    proof (cases "even i")
      case True
      then obtain m where m: "i = 2 * m" by (rule evenE)
      show False
      proof (cases enc)
        case Fm
        have "?s ! (2 * (m + t))" if "t < 8" for t
          using fm_clocks [of "m + t"] le m that Fm by simp
        then have "cells_bits mark ! (2 * t)" if "t < 8" for t
          using nth [of "2 * t"] that m by (simp add: distrib_left)
        from this [of 2] this [of 4] show False using assms Fm by (auto simp: mark_of_def mark_bits)
      next
        case Mfm
        then have c: "mark = MFM_A1_CELLS" using assms by (simp add: mark_of_def)
        have "?s ! (2 * (m + 5) - 1) \<or> ?s ! (2 * (m + 5)) \<or> ?s ! (2 * (m + 5) + 1)"
          using mfm_no_gap [of "m + 5"] le m Mfm by simp
        moreover have "\<not> ?s ! (i + 9)" "\<not> ?s ! (i + 10)" "\<not> ?s ! (i + 11)"
          using nth [of 9] nth [of 10] nth [of 11] by (simp_all add: c mark_bits)
        ultimately show False using m by (simp add: add.commute)
      qed
    next
      case False
      then obtain m where m: "i = 2 * m + 1" by (rule oddE)
      show False
      proof (cases enc)
        case Fm
        have "?s ! (2 * (m + 1 + t))" if "t < 8" for t
          using fm_clocks [of "m + 1 + t"] le m that Fm by simp
        then have "cells_bits mark ! (2 * t + 1)" if "t < 8" for t
          using nth [of "2 * t + 1"] that m by (simp add: distrib_left)
        from this [of 7] this [of 5] this [of 6] show False
          using assms Fm by (auto simp: mark_of_def mark_bits)
      next
        case Mfm
        then have c: "mark = MFM_A1_CELLS" using assms by (simp add: mark_of_def)
        have "?s ! (2 * (m + 2) - 1) \<or> ?s ! (2 * (m + 2)) \<or> ?s ! (2 * (m + 2) + 1)"
          using mfm_no_gap [of "m + 2"] le m Mfm by simp
        moreover have "\<not> ?s ! (i + 2)" "\<not> ?s ! (i + 3)" "\<not> ?s ! (i + 4)"
          using nth [of 2] nth [of 3] nth [of 4] by (simp_all add: c mark_bits)
        moreover have "2 * (m + 2) - 1 = i + 2" "2 * (m + 2) = i + 3" "2 * (m + 2) + 1 = i + 4"
          using m by simp_all
        ultimately show False by metis
      qed
    qed
  qed
  then show ?thesis by (simp add: find_marks_eq encode_pairs)
qed

lemma marks_unreachable_witness:
  "find_marks (fst (encode Mfm [0xa1, 0xa1, 0xa1, 0xfe] False)) MFM_A1_CELLS = []"
  by (rule marks_unreachable) (simp add: mark_of_def)

end
