(* ===== verification/DosName.thy ===== *)
theory DosName
  imports Errors
begin

text \<open>
  The DOS 8.3 namespace (\<open>src/crates/remanence/src/filesystem/dos_name.rs\<close>). A Rust string is
  the list of its code points; what the code takes from the standard library on strings (ASCII
  case, splitting, trimming white space, lossy UTF-8) is written out in the first section.
\<close>

section \<open>Strings\<close>

type_synonym ustring = "nat list"

definition codes :: "string \<Rightarrow> ustring" where
  "codes s = map of_char s"

definition is_ascii_uppercase :: "nat \<Rightarrow> bool" where
  "is_ascii_uppercase c \<longleftrightarrow> 65 \<le> c \<and> c \<le> 90"

definition is_ascii_digit :: "nat \<Rightarrow> bool" where
  "is_ascii_digit c \<longleftrightarrow> 48 \<le> c \<and> c \<le> 57"

definition ascii_upper :: "nat \<Rightarrow> nat" where
  "ascii_upper c = (if 97 \<le> c \<and> c \<le> 122 then c - 32 else c)"

definition to_ascii_uppercase :: "ustring \<Rightarrow> ustring" where
  "to_ascii_uppercase s = map ascii_upper s"

definition eq_ignore_ascii_case :: "ustring \<Rightarrow> ustring \<Rightarrow> bool" where
  "eq_ignore_ascii_case a b \<longleftrightarrow> to_ascii_uppercase a = to_ascii_uppercase b"

definition is_whitespace :: "nat \<Rightarrow> bool" where
  "is_whitespace c \<longleftrightarrow> 9 \<le> c \<and> c \<le> 13 \<or> c = 32 \<or> c = 0x85 \<or> c = 0xA0 \<or> c = 0x1680 \<or>
     0x2000 \<le> c \<and> c \<le> 0x200A \<or> c = 0x2028 \<or> c = 0x2029 \<or> c = 0x202F \<or> c = 0x205F \<or> c = 0x3000"

definition trim_end :: "ustring \<Rightarrow> ustring" where
  "trim_end s = rev (dropWhile is_whitespace (rev s))"

definition split_once :: "nat \<Rightarrow> ustring \<Rightarrow> (ustring \<times> ustring) option" where
  "split_once c s =
     (case dropWhile (\<lambda>x. x \<noteq> c) s of
        [] \<Rightarrow> None
      | _ # rest \<Rightarrow> Some (takeWhile (\<lambda>x. x \<noteq> c) s, rest))"

text \<open>
  \<open>String::from_utf8_lossy\<close>: each maximal ill-formed prefix becomes one replacement character.
\<close>

definition REPLACEMENT :: nat where
  "REPLACEMENT = 0xFFFD"

definition in_range :: "u8 \<Rightarrow> nat \<Rightarrow> nat \<Rightarrow> bool" where
  "in_range b lo hi \<longleftrightarrow> lo \<le> unat b \<and> unat b \<le> hi"

definition second_ok :: "u8 \<Rightarrow> u8 \<Rightarrow> bool" where
  "second_ok b c =
     (if b = 0xE0 then in_range c 0xA0 0xBF
      else if b = 0xED then in_range c 0x80 0x9F
      else if b = 0xF0 then in_range c 0x90 0xBF
      else if b = 0xF4 then in_range c 0x80 0x8F
      else in_range c 0x80 0xBF)"

definition tail_bits :: "u8 \<Rightarrow> nat" where
  "tail_bits c = unat c mod 64"

fun from_utf8_lossy :: "bytes \<Rightarrow> ustring" where
  "from_utf8_lossy [] = []"
| "from_utf8_lossy (b # bs) =
     (if unat b < 0x80 then unat b # from_utf8_lossy bs
      else if in_range b 0xC2 0xDF then
        (case bs of
           c # bs1 \<Rightarrow> if second_ok b c
                     then ((unat b mod 32) * 64 + tail_bits c) # from_utf8_lossy bs1
                     else REPLACEMENT # from_utf8_lossy bs
         | [] \<Rightarrow> [REPLACEMENT])
      else if in_range b 0xE0 0xEF then
        (case bs of
           c # bs1 \<Rightarrow>
             if \<not> second_ok b c then REPLACEMENT # from_utf8_lossy bs
             else (case bs1 of
                     d # bs2 \<Rightarrow>
                       if in_range d 0x80 0xBF
                       then (((unat b mod 16) * 64 + tail_bits c) * 64 + tail_bits d) #
                              from_utf8_lossy bs2
                       else REPLACEMENT # from_utf8_lossy bs1
                   | [] \<Rightarrow> [REPLACEMENT])
         | [] \<Rightarrow> [REPLACEMENT])
      else if in_range b 0xF0 0xF4 then
        (case bs of
           c # bs1 \<Rightarrow>
             if \<not> second_ok b c then REPLACEMENT # from_utf8_lossy bs
             else (case bs1 of
                     d # bs2 \<Rightarrow>
                       if \<not> in_range d 0x80 0xBF then REPLACEMENT # from_utf8_lossy bs1
                       else (case bs2 of
                               e # bs3 \<Rightarrow>
                                 if in_range e 0x80 0xBF
                                 then ((((unat b mod 8) * 64 + tail_bits c) * 64 + tail_bits d) * 64
                                        + tail_bits e) # from_utf8_lossy bs3
                                 else REPLACEMENT # from_utf8_lossy bs2
                             | [] \<Rightarrow> [REPLACEMENT])
                   | [] \<Rightarrow> [REPLACEMENT])
         | [] \<Rightarrow> [REPLACEMENT])
      else REPLACEMENT # from_utf8_lossy bs)"

section \<open>The rules\<close>

datatype dos_name_rule =
  EmptyBase | BaseTooLong | ExtensionTooLong | Separator | ExcludedCharacter
| ReservedDeviceName | SurroundingSpace

definition rule_all :: "dos_name_rule list" where
  "rule_all = [Separator, EmptyBase, BaseTooLong, ExtensionTooLong, SurroundingSpace,
     ExcludedCharacter, ReservedDeviceName]"

fun rule_as_str :: "dos_name_rule \<Rightarrow> rule_identity" where
  "rule_as_str EmptyBase = ''empty-base''"
| "rule_as_str BaseTooLong = ''base-too-long''"
| "rule_as_str ExtensionTooLong = ''extension-too-long''"
| "rule_as_str Separator = ''separator''"
| "rule_as_str ExcludedCharacter = ''excluded-character''"
| "rule_as_str ReservedDeviceName = ''reserved-device-name''"
| "rule_as_str SurroundingSpace = ''surrounding-space''"

definition rule_from_identity :: "rule_identity \<Rightarrow> dos_name_rule option" where
  "rule_from_identity s = find (\<lambda>r. rule_as_str r = s) rule_all"

definition PUNCTUATION :: ustring where
  "PUNCTUATION = codes ''!#$%&'' @ [39] @ codes ''()-@^_`{}~''"

definition RESERVED_DEVICES :: "ustring list" where
  "RESERVED_DEVICES = map codes
     [''CON'', ''PRN'', ''AUX'', ''NUL'', ''COM1'', ''COM2'', ''COM3'', ''COM4'', ''COM5'',
      ''COM6'', ''COM7'', ''COM8'', ''COM9'', ''LPT1'', ''LPT2'', ''LPT3'', ''LPT4'', ''LPT5'',
      ''LPT6'', ''LPT7'', ''LPT8'', ''LPT9'']"

definition DELETED_ESCAPE :: u8 where "DELETED_ESCAPE = 0x05"
definition DELETED :: u8 where "DELETED = 0xe5"

definition refusal :: "dos_name_rule \<Rightarrow> error" where
  "refusal r = broke_rule io_error (rule_as_str r)"

definition admits :: "nat \<Rightarrow> bool" where
  "admits c \<longleftrightarrow> is_ascii_uppercase c \<or> is_ascii_digit c \<or> c \<in> set PUNCTUATION"

section \<open>Storing and reading a name\<close>

definition pad_to :: "nat \<Rightarrow> ustring \<Rightarrow> bytes" where
  "pad_to n s = map word_of_nat s @ replicate (n - length s) 0x20"

definition surrounded :: "ustring \<Rightarrow> bool" where
  "surrounded s \<longleftrightarrow> s \<noteq> [] \<and> (hd s = 32 \<or> List.last s = 32)"

definition store :: "ustring \<Rightarrow> bytes result" where
  "store name =
     (let upper = to_ascii_uppercase name;
          separators = length (filter (\<lambda>c. c = 46) upper)
      in if separators > 1 then Inl (refusal Separator)
         else let (base, extension) =
                    (case split_once 46 upper of Some p \<Rightarrow> p | None \<Rightarrow> (upper, []))
              in if base = [] then Inl (refusal EmptyBase)
                 else if separators = 1 \<and> extension = [] then Inl (refusal Separator)
                 else if length base > 8 then Inl (refusal BaseTooLong)
                 else if length extension > 3 then Inl (refusal ExtensionTooLong)
                 else if surrounded base \<or> surrounded extension
                 then Inl (refusal SurroundingSpace)
                 else if \<not> list_all admits (base @ extension)
                 then Inl (refusal ExcludedCharacter)
                 else if base \<in> set RESERVED_DEVICES then Inl (refusal ReservedDeviceName)
                 else Inr (pad_to 8 base @ pad_to 3 extension))"

definition read_name :: "bytes \<Rightarrow> ustring" where
  "read_name field =
     (let raw = take 8 field;
          raw1 = (if raw ! 0 = DELETED_ESCAPE then raw[0 := DELETED] else raw);
          base = trim_end (from_utf8_lossy raw1);
          extension = trim_end (from_utf8_lossy (slice 8 3 field))
      in if extension = [] then base else base @ [46] @ extension)"

definition name_matches :: "ustring \<Rightarrow> ustring \<Rightarrow> bool" where
  "name_matches stored requested = eq_ignore_ascii_case stored requested"

section \<open>Lemmas\<close>

lemma PUNCTUATION_codes:
  "PUNCTUATION = [33, 35, 36, 37, 38, 39, 40, 41, 45, 64, 94, 95, 96, 123, 125, 126]"
  by (simp add: PUNCTUATION_def codes_def)

lemma admits_range:
  assumes "admits c"
  shows "33 \<le> c" "c < 127" "c \<noteq> 46" "\<not> is_whitespace c" "\<not> (97 \<le> c \<and> c \<le> 122)"
  using assms
  by (auto simp: admits_def is_ascii_uppercase_def is_ascii_digit_def is_whitespace_def
      PUNCTUATION_codes)

lemma admits_upper: "admits c \<Longrightarrow> ascii_upper c = c"
  using admits_range(5) [of c] by (auto simp: ascii_upper_def)

lemma lossy_ascii: "list_all (\<lambda>b. unat b < 128) bs \<Longrightarrow> from_utf8_lossy bs = map unat bs"
  by (induction bs) auto

lemma unat_code: "admits c \<Longrightarrow> unat (word_of_nat c :: u8) = c"
  using admits_range(2) [of c] by (simp add: unat_of_nat)

lemma pad_to_bytes:
  assumes "list_all admits s" "b \<in> set (pad_to n s)"
  shows "b = 0x20 \<or> (\<exists>c \<in> set s. admits c \<and> b = word_of_nat c)"
  using assms by (auto simp: pad_to_def list_all_iff)

lemma lossy_padded:
  assumes "list_all admits s"
  shows "from_utf8_lossy (pad_to n s) = s @ replicate (n - length s) 32"
proof -
  have "map unat (map word_of_nat s :: bytes) = s"
    using assms by (intro nth_equalityI) (auto simp: unat_code list_all_length)
  moreover have "list_all (\<lambda>b. unat b < 128) (pad_to n s)"
    unfolding list_all_iff
  proof
    fix b assume "b \<in> set (pad_to n s)"
    then consider "b = 0x20" | c where "admits c" "b = word_of_nat c"
      using pad_to_bytes [OF assms] by blast
    then show "unat b < 128"
    proof cases
      case 2
      then show ?thesis using unat_code [of c] admits_range(2) [of c] by simp
    qed simp
  qed
  ultimately show ?thesis by (simp add: lossy_ascii) (simp add: pad_to_def)
qed

lemma trim_padded:
  assumes "list_all admits s"
  shows "trim_end (s @ replicate k 32) = s"
proof -
  have "dropWhile is_whitespace (replicate k 32 @ rev s) = dropWhile is_whitespace (rev s)"
    by (induction k) (auto simp: is_whitespace_def)
  moreover have "dropWhile is_whitespace (rev s) = rev s"
  proof (cases "rev s")
    case (Cons c cs)
    then have "c \<in> set s" by (metis list.set_intros(1) set_rev)
    then show ?thesis using Cons assms admits_range(4) [of c] by (simp add: list_all_iff)
  qed simp
  ultimately show ?thesis by (simp add: trim_end_def)
qed

lemma split_once_None: "split_once c s = None \<longleftrightarrow> c \<notin> set s"
proof -
  have "dropWhile (\<lambda>x. x \<noteq> c) s = [] \<longleftrightarrow> c \<notin> set s" by (induction s) auto
  moreover have "split_once c s = None \<longleftrightarrow> dropWhile (\<lambda>x. x \<noteq> c) s = []"
    unfolding split_once_def by (cases "dropWhile (\<lambda>x. x \<noteq> c) s") (simp_all only: list.case, simp_all)
  ultimately show ?thesis by blast
qed

lemma split_once_Some: "split_once c s = Some (a, b) \<Longrightarrow> s = a @ c # b \<and> c \<notin> set a"
proof -
  assume "split_once c s = Some (a, b)"
  then obtain x where x: "dropWhile (\<lambda>x. x \<noteq> c) s = x # b" "a = takeWhile (\<lambda>x. x \<noteq> c) s"
    by (auto simp: split_once_def split: list.splits)
  have "x = c" using hd_dropWhile [of "\<lambda>x. x \<noteq> c" s] x(1) by simp
  then have "s = a @ c # b" using takeWhile_dropWhile_id [of "\<lambda>x. x \<noteq> c" s] x by simp
  moreover have "c \<notin> set a" using x(2) by (auto dest: set_takeWhileD)
  ultimately show ?thesis by blast
qed

lemma split_once_append: "c \<notin> set a \<Longrightarrow> split_once c (a @ c # b) = Some (a, b)"
proof -
  assume "c \<notin> set a"
  then have "dropWhile (\<lambda>x. x \<noteq> c) (a @ c # b) = c # b" "takeWhile (\<lambda>x. x \<noteq> c) (a @ c # b) = a"
    by (induction a) auto
  then show ?thesis by (simp add: split_once_def)
qed

section \<open>The grammar the namespace admits\<close>

definition spelled :: "ustring \<Rightarrow> ustring \<Rightarrow> ustring" where
  "spelled base extension = (if extension = [] then base else base @ 46 # extension)"

definition is_name :: "ustring \<Rightarrow> ustring \<Rightarrow> bool" where
  "is_name base extension \<longleftrightarrow> 1 \<le> length base \<and> length base \<le> 8 \<and> length extension \<le> 3 \<and>
     list_all admits (base @ extension) \<and> base \<notin> set RESERVED_DEVICES"

lemma not_surrounded: "list_all admits s \<Longrightarrow> \<not> surrounded s"
proof
  assume a: "list_all admits s" and "surrounded s"
  then have "32 \<in> set s" by (metis surrounded_def hd_in_set last_in_set)
  then show False using a admits_range(1) [of 32] by (auto simp: list_all_iff)
qed

lemma no_dot: "list_all admits s \<Longrightarrow> 46 \<notin> set s \<and> filter (\<lambda>c. c = 46) s = []"
  using admits_range(3) by (auto simp: list_all_iff filter_empty_conv)

lemma store_named:
  assumes n: "is_name base extension" and u: "to_ascii_uppercase name = spelled base extension"
  shows "store name = Inr (pad_to 8 base @ pad_to 3 extension)"
proof -
  have a: "list_all admits base" "list_all admits extension" using n by (auto simp: is_name_def)
  have b: "base \<noteq> []" using n by (auto simp: is_name_def)
  show ?thesis
  proof (cases "extension = []")
    case True
    then have "split_once 46 (to_ascii_uppercase name) = None"
      using u no_dot [OF a(1)] by (simp add: spelled_def split_once_None)
    then show ?thesis
      using n b u True no_dot [OF a(1)] not_surrounded [OF a(1)]
      by (simp add: store_def is_name_def spelled_def surrounded_def Let_def)
  next
    case False
    then have "split_once 46 (to_ascii_uppercase name) = Some (base, extension)"
      using u no_dot [OF a(1)] by (simp add: spelled_def split_once_append)
    then show ?thesis
      using n b u False no_dot [OF a(1)] no_dot [OF a(2)] not_surrounded [OF a(1)]
        not_surrounded [OF a(2)]
      by (simp add: store_def is_name_def spelled_def Let_def)
  qed
qed

lemma store_Inr:
  assumes "store name = Inr raw"
  obtains base extension where "is_name base extension"
    "to_ascii_uppercase name = spelled base extension" "raw = pad_to 8 base @ pad_to 3 extension"
proof -
  let ?u = "to_ascii_uppercase name"
  obtain base extension where be:
      "(case split_once 46 ?u of Some p \<Rightarrow> p | None \<Rightarrow> (?u, [])) = (base, extension)"
    by fastforce
  let ?k = "length (filter (\<lambda>c. c = 46) ?u)"
  have c: "\<not> ?k > 1" "base \<noteq> []" "\<not> (?k = 1 \<and> extension = [])" "length base \<le> 8"
      "length extension \<le> 3" "list_all admits (base @ extension)" "base \<notin> set RESERVED_DEVICES"
      "raw = pad_to 8 base @ pad_to 3 extension"
    using assms be by (auto simp: store_def Let_def split: if_splits)
  have "is_name base extension" using c(2,4-7) by (cases base) (auto simp: is_name_def)
  moreover have "?u = spelled base extension"
  proof (cases "split_once 46 ?u")
    case None
    then show ?thesis using be by (auto simp: spelled_def)
  next
    case (Some p)
    then have p: "?u = base @ 46 # extension" using be split_once_Some by fastforce
    then have "?k \<ge> 1" by simp
    then have "extension \<noteq> []" using c(1,3) by linarith
    then show ?thesis using p by (simp add: spelled_def)
  qed
  ultimately show thesis using that c(8) by blast
qed

lemma read_padded:
  assumes "is_name base extension"
  shows "read_name (pad_to 8 base @ pad_to 3 extension) = spelled base extension"
proof -
  have a: "list_all admits base" "list_all admits extension"
    and l: "length base \<le> 8" "length extension \<le> 3" "base \<noteq> []"
    using assms by (auto simp: is_name_def)
  have l8: "length (pad_to 8 base) = 8" "length (pad_to 3 extension) = 3"
    using l by (simp_all add: pad_to_def)
  have f: "take 8 (pad_to 8 base @ pad_to 3 extension) = pad_to 8 base"
    "slice 8 3 (pad_to 8 base @ pad_to 3 extension) = pad_to 3 extension"
    using l8 by (simp_all add: slice_def)
  have "pad_to 8 base ! 0 = word_of_nat (hd base)"
    using l(3) by (cases base) (simp_all add: pad_to_def)
  moreover have "unat (word_of_nat (hd base) :: u8) = hd base" "33 \<le> hd base"
    using a(1) l(3) unat_code admits_range(1) by (cases base; simp)+
  ultimately have "pad_to 8 base ! 0 \<noteq> DELETED_ESCAPE"
    by (auto simp: DELETED_ESCAPE_def dest: arg_cong [of _ _ unat])
  then show ?thesis
    unfolding read_name_def Let_def f
    using a by (simp add: lossy_padded trim_padded spelled_def)
qed

lemma store_laws:
  assumes "store name = Inr raw"
  shows "length raw = 11" "read_name raw = to_ascii_uppercase name" "name_matches (read_name raw) name"
    "raw ! 0 \<notin> {0x00, DELETED, DELETED_ESCAPE, 0x20, 0x2E}"
    "to_ascii_uppercase name \<noteq> []" "hd (to_ascii_uppercase name) \<noteq> 46"
proof -
  from assms obtain base extension where n: "is_name base extension"
    "to_ascii_uppercase name = spelled base extension" "raw = pad_to 8 base @ pad_to 3 extension"
    by (rule store_Inr)
  have a: "list_all admits base" "base \<noteq> []" "length base \<le> 8" "length extension \<le> 3"
    using n(1) by (auto simp: is_name_def)
  show "length raw = 11" using a n(3) by (simp add: pad_to_def)
  show r: "read_name raw = to_ascii_uppercase name" using read_padded [OF n(1)] n(2,3) by simp
  have "to_ascii_uppercase (to_ascii_uppercase name) = to_ascii_uppercase name"
    by (auto simp: to_ascii_uppercase_def ascii_upper_def)
  then show "name_matches (read_name raw) name"
    by (simp add: r name_matches_def eq_ignore_ascii_case_def)
  have "raw ! 0 = word_of_nat (hd base)"
    using a(2) n(3) by (cases base) (simp_all add: pad_to_def)
  moreover have "admits (hd base)" using a(1,2) by (cases base) auto
  ultimately have "unat (raw ! 0) = hd base" "33 \<le> hd base" "hd base < 127" "hd base \<noteq> 46"
    using unat_code admits_range by auto
  then show "raw ! 0 \<notin> {0x00, DELETED, DELETED_ESCAPE, 0x20, 0x2E}"
    by (auto simp: DELETED_def DELETED_ESCAPE_def)
  show "to_ascii_uppercase name \<noteq> []" "hd (to_ascii_uppercase name) \<noteq> 46"
    using n(2) a(2) \<open>hd base \<noteq> 46\<close> by (simp_all add: spelled_def)
qed

section \<open>The properties\<close>

text \<open>
  C14: A name is stored exactly when, uppercased, it is a base of one to eight admitted characters
  that is no reserved device, with at most three admitted characters of extension after a single
  separator; every other name is refused.
\<close>

theorem store_accepts_grammar:
  "(\<exists>raw. store name = Inr raw) \<longleftrightarrow>
   (\<exists>base extension. is_name base extension \<and> to_ascii_uppercase name = spelled base extension)"
proof
  assume "\<exists>raw. store name = Inr raw"
  then obtain raw where "store name = Inr raw" by blast
  then show "\<exists>base extension. is_name base extension \<and> to_ascii_uppercase name = spelled base extension"
    by (rule store_Inr) blast
qed (use store_named in blast)

text \<open>
  C13: A stored name reads back as the caller's name uppercased, fills the eleven bytes of the
  field, and is found again by the name it was stored under; its first byte is never the mark of
  a deleted, escaped or absent record, nor the dot of a self or parent entry.
\<close>

theorem store_read_round_trip:
  "case store name of
     Inl e \<Rightarrow> err_category e = Io \<and> (\<exists>r. err_rule e = Some (rule_as_str r))
   | Inr raw \<Rightarrow> length raw = 11 \<and> read_name raw = to_ascii_uppercase name \<and>
       name_matches (read_name raw) name \<and> raw ! 0 \<notin> {0x00, DELETED, DELETED_ESCAPE, 0x20, 0x2E}"
proof (cases "store name")
  case (Inl e)
  then obtain r where "e = refusal r"
    by (auto simp: store_def Let_def split: if_splits prod.splits)
  then show ?thesis using Inl by (auto simp: refusal_def error_defs)
next
  case (Inr raw)
  show ?thesis using store_laws [OF Inr] Inr by simp
qed

end
