(* ===== verification/Mbr.thy ===== *)
theory Mbr
  imports Device
begin

text \<open>
  MBR partition discovery (\<open>src/crates/remanence/src/partition/mbr.rs\<close>): the pinned types, the
  four primary entries, the extended chain, the blank, bare and unknown answers, and the geometry
  an entry's end tuple implies. The device is the bytes it presents. The chain walk carries the
  number of links still allowed, 128 at the start, so it is structural.
\<close>

definition SECTOR :: nat where "SECTOR = 512"
definition BOOT_SIGNATURE :: bytes where "BOOT_SIGNATURE = [0x55, 0xaa]"
definition SECTORS_PER_TRACK_CEILING :: nat where "SECTORS_PER_TRACK_CEILING = 0x3f"
definition HEADS_CEILING :: nat where "HEADS_CEILING = 256"

section \<open>Rows and answers\<close>

datatype partition_kind = Primary | Logical

fun kind_name :: "partition_kind \<Rightarrow> string" where
  "kind_name Primary = ''primary''"
| "kind_name Logical = ''logical''"

record partition_info =
  part_number :: nat
  part_kind :: partition_kind
  part_active :: bool
  part_type :: u8
  part_type_name :: "string option"
  start_bytes :: nat
  length_bytes :: nat
  part_issue :: "error option"

datatype evidence_text = UNKNOWN_NONBLANK | UNDECLARED_TABLE

datatype discovery =
  Partitioned "partition_info list"
| BareVolume
| Blank
| UnknownNonblank evidence_text

definition mbr_invalid :: error where
  "mbr_invalid = invalid_image ''mbr''"

definition mbr_unsupported :: error where
  "mbr_unsupported = categorized_image Unsupported ''mbr''"

definition pinned_type_name :: "u8 \<Rightarrow> string option" where
  "pinned_type_name t =
     (if t = 0x01 then Some ''FAT12''
      else if t = 0x04 then Some ''FAT16 (<32M)''
      else if t = 0x06 then Some ''FAT16B''
      else if t = 0x0e then Some ''FAT16B (LBA)''
      else if t = 0x05 then Some ''extended''
      else if t = 0x0f then Some ''extended (LBA)''
      else None)"

definition declared_type_reading :: "u8 \<Rightarrow> string" where
  "declared_type_reading t =
     (case map_of
        [(0x00, ''an unused entry''), (0x01, ''FAT12''), (0x04, ''FAT16, under 32 MB''),
         (0x05, ''an extended partition, CHS-addressed''), (0x06, ''FAT16B''),
         (0x07, ''NTFS or exFAT''), (0x0b, ''FAT32, CHS-addressed''),
         (0x0c, ''FAT32, LBA-addressed''), (0x0e, ''FAT16B, LBA-addressed''),
         (0x0f, ''an extended partition, LBA-addressed''), (0x11, ''a hidden FAT12''),
         (0x14, ''a hidden FAT16, under 32 MB''), (0x16, ''a hidden FAT16B''),
         (0x17, ''a hidden NTFS or exFAT''), (0x1b, ''a hidden FAT32, CHS-addressed''),
         (0x1c, ''a hidden FAT32, LBA-addressed''), (0x1e, ''a hidden FAT16B, LBA-addressed''),
         (0x82, ''Linux swap, or a Solaris slice''), (0x83, ''a Linux filesystem''),
         (0x8e, ''a Linux LVM physical volume''), (0xa5, ''a FreeBSD slice''),
         (0xa6, ''an OpenBSD slice''), (0xa8, ''a macOS UFS volume''),
         (0xaf, ''an HFS or HFS+ volume''),
         (0xee, ''that the whole disk is GPT rather than MBR, this entry being the protective placeholder GPT writes''),
         (0xef, ''an EFI system partition''), (0xfd, ''a Linux RAID autodetect member'')] t of
        Some reading \<Rightarrow> reading
      | None \<Rightarrow> ''no type this release has a reading for'')"

definition is_extended :: "u8 \<Rightarrow> bool" where
  "is_extended t \<longleftrightarrow> t = 0x05 \<or> t = 0x0f"

section \<open>Entries\<close>

record raw_entry =
  entry_active :: bool
  entry_type :: u8
  end_chs :: "u8 \<times> u8 \<times> u8"
  start_lba :: u32
  entry_sectors :: u32

definition le32 :: "bytes \<Rightarrow> nat \<Rightarrow> u32" where
  "le32 bs at = word_of_nat (le_nat (slice at 4 bs))"

definition parse_entry :: "bytes \<Rightarrow> nat \<Rightarrow> raw_entry" where
  "parse_entry sector i =
     (let at = 446 + i * 16
      in \<lparr>entry_active = (sector ! at = 0x80), entry_type = sector ! (at + 4),
          end_chs = (sector ! (at + 5), sector ! (at + 6), sector ! (at + 7)),
          start_lba = le32 sector (at + 8), entry_sectors = le32 sector (at + 12)\<rparr>)"

definition parse_entries :: "bytes \<Rightarrow> raw_entry list" where
  "parse_entries sector = map (parse_entry sector) [0..<4]"

definition read_sector :: "bytes \<Rightarrow> nat \<Rightarrow> bytes result" where
  "read_sector d lba = image_read d (lba * SECTOR) SECTOR"

definition is_power_of_two :: "nat \<Rightarrow> bool" where
  "is_power_of_two n \<longleftrightarrow> list_ex (\<lambda>k. n = 2 ^ k) [0..<16]"

definition looks_like_bpb :: "bytes \<Rightarrow> bool" where
  "looks_like_bpb sector \<longleftrightarrow>
     length sector \<ge> 512 \<and>
     (sector ! 0 = 0xeb \<or> sector ! 0 = 0xe9) \<and>
     (let bps = le_nat (slice 11 2 sector)
      in is_power_of_two bps \<and> 512 \<le> bps \<and> bps \<le> 4096) \<and>
     is_power_of_two (unat (sector ! 13)) \<and>
     1 \<le> unat (sector ! 16) \<and> unat (sector ! 16) \<le> 2"

definition has_signature :: "bytes \<Rightarrow> bool" where
  "has_signature sector \<longleftrightarrow> slice 510 2 sector = BOOT_SIGNATURE"

definition all_zero :: "bytes \<Rightarrow> bool" where
  "all_zero bs \<longleftrightarrow> list_all (\<lambda>b. b = 0) bs"

section \<open>The geometry an end tuple implies\<close>

record implied =
  implied_entry :: nat
  implied_heads :: nat
  implied_sectors :: nat

definition end_tuple :: "raw_entry \<Rightarrow> nat \<times> nat \<times> nat" where
  "end_tuple e =
     (case end_chs e of (h, s, c) \<Rightarrow>
        (unat (push_bit 2 (ucast (s AND 0xc0) :: u32) OR ucast c),
         unat h, unat (s AND 0x3f)))"

text \<open>The loop over the sectors per track, from \<open>spt\<close> up; \<open>solved\<close> is what was found so far.\<close>

function solve_geometry ::
  "nat \<Rightarrow> nat \<Rightarrow> nat \<Rightarrow> nat \<Rightarrow> (nat \<times> nat) option \<Rightarrow> (nat \<times> nat) option" where
  "solve_geometry spt org cylinder head solved =
     (if spt > SECTORS_PER_TRACK_CEILING then solved
      else let next = solve_geometry (Suc spt) org cylinder head
           in if org mod spt \<noteq> 0 then next solved
              else let track = org div spt
                   in if track < head then next solved
                      else if (track - head) mod cylinder \<noteq> 0 then next solved
                      else let heads = (track - head) div cylinder
                           in if heads \<le> head \<or> heads > HEADS_CEILING then next solved
                              else if solved \<noteq> None then None
                              else next (Some (heads, spt)))"
  by pat_completeness auto
termination
  by (relation "measure (\<lambda>(spt, _). Suc SECTORS_PER_TRACK_CEILING - spt)") auto

declare solve_geometry.simps [simp del]

definition entry_geometry :: "raw_entry \<Rightarrow> nat \<Rightarrow> implied option" where
  "entry_geometry e entry =
     (case end_tuple e of (cylinder, head, sector) \<Rightarrow>
        if sector = 0 \<or> entry_sectors e = 0 \<or> cylinder = 0 then None
        else let last_block = unat (start_lba e) + unat (entry_sectors e) - 1
             in if last_block < sector - 1 then None
                else case solve_geometry sector (last_block - (sector - 1)) cylinder head None of
                       None \<Rightarrow> None
                     | Some (heads, spt) \<Rightarrow>
                         Some \<lparr>implied_entry = entry, implied_heads = heads,
                               implied_sectors = spt\<rparr>)"

fun collect_geometry :: "raw_entry list \<Rightarrow> nat \<Rightarrow> implied list" where
  "collect_geometry [] number = []"
| "collect_geometry (e # es) number =
     (if entry_type e = 0x00 then collect_geometry es number
      else case entry_geometry e (Suc number) of
             None \<Rightarrow> collect_geometry es (Suc number)
           | Some g \<Rightarrow> g # collect_geometry es (Suc number))"

definition implied_geometry :: "bytes \<Rightarrow> implied list" where
  "implied_geometry d =
     (if length d < SECTOR then []
      else case read_sector d 0 of
             Inl e \<Rightarrow> []
           | Inr sector \<Rightarrow>
               if \<not> has_signature sector \<or> looks_like_bpb sector then []
               else collect_geometry (parse_entries sector) 0)"

section \<open>Discovery\<close>

definition classify :: "bytes \<Rightarrow> discovery result" where
  "classify d =
     (if length d < SECTOR then Inl mbr_invalid
      else rbind (read_sector d 0) (\<lambda>leading.
        Inr (if all_zero leading then Blank
             else if looks_like_bpb leading then BareVolume
             else UnknownNonblank
               (if has_signature leading then UNDECLARED_TABLE else UNKNOWN_NONBLANK))))"

definition primary_row :: "raw_entry \<Rightarrow> nat \<Rightarrow> bool \<Rightarrow> partition_info" where
  "primary_row e number second =
     \<lparr>part_number = number, part_kind = Primary, part_active = entry_active e,
      part_type = entry_type e, part_type_name = pinned_type_name (entry_type e),
      start_bytes = unat (start_lba e) * SECTOR, length_bytes = unat (entry_sectors e) * SECTOR,
      part_issue = (if second then Some mbr_invalid
                    else if pinned_type_name (entry_type e) = None then Some mbr_unsupported
                    else None)\<rparr>"

text \<open>
  The four entries in turn: the rows so far, and the chain as the extended org, the next boot
  record and the index of the extended row.
\<close>

fun primary_rows ::
  "raw_entry list \<Rightarrow> partition_info list \<Rightarrow> (nat \<times> nat \<times> nat) option
     \<Rightarrow> partition_info list \<times> (nat \<times> nat \<times> nat) option" where
  "primary_rows [] rows chain = (rows, chain)"
| "primary_rows (e # es) rows chain =
     (if entry_type e = 0x00 then primary_rows es rows chain
      else let number = Suc (length rows);
               second = (is_extended (entry_type e) \<and> chain \<noteq> None);
               chain' = (if is_extended (entry_type e) \<and> chain = None
                         then Some (unat (start_lba e), unat (start_lba e), length rows)
                         else chain)
           in primary_rows es (rows @ [primary_row e number second]) chain')"

definition set_issue :: "nat \<Rightarrow> error \<Rightarrow> partition_info list \<Rightarrow> partition_info list" where
  "set_issue i err rows = rows[i := (rows ! i)\<lparr>part_issue := Some err\<rparr>]"

definition logical_row :: "raw_entry \<Rightarrow> nat \<Rightarrow> nat \<Rightarrow> partition_info" where
  "logical_row e number current =
     \<lparr>part_number = number, part_kind = Logical, part_active = entry_active e,
      part_type = entry_type e, part_type_name = pinned_type_name (entry_type e),
      start_bytes = (current + unat (start_lba e)) * SECTOR,
      length_bytes = unat (entry_sectors e) * SECTOR,
      part_issue = (if is_extended (entry_type e) then Some mbr_invalid
                    else if pinned_type_name (entry_type e) = None then Some mbr_unsupported
                    else None)\<rparr>"

fun walk_chain ::
  "bytes \<Rightarrow> nat \<Rightarrow> nat \<Rightarrow> nat \<Rightarrow> nat \<Rightarrow> partition_info list \<Rightarrow> partition_info list" where
  "walk_chain d 0 org current extended rows = set_issue extended mbr_invalid rows"
| "walk_chain d (Suc hops) org current extended rows =
     (case read_sector d current of
        Inl e \<Rightarrow> set_issue extended mbr_invalid rows
      | Inr ebr \<Rightarrow>
          if \<not> has_signature ebr then set_issue extended mbr_invalid rows
          else let logical = parse_entry ebr 0; link = parse_entry ebr 1;
                   rows' = (if entry_type logical \<noteq> 0x00
                            then rows @ [logical_row logical (Suc (length rows)) current]
                            else rows)
               in if entry_type link = 0x00 then rows'
                  else if is_extended (entry_type link)
                  then walk_chain d hops org (org + unat (start_lba link)) extended rows'
                  else set_issue extended mbr_invalid rows')"

definition HOPS :: nat where "HOPS = 128"

definition discover :: "bytes \<Rightarrow> discovery result" where
  "discover d =
     (if length d < SECTOR then Inl mbr_invalid
      else rbind (read_sector d 0) (\<lambda>mbr.
        Inr (if all_zero mbr then Blank
             else if \<not> has_signature mbr then UnknownNonblank UNKNOWN_NONBLANK
             else if looks_like_bpb mbr then BareVolume
             else case primary_rows (parse_entries mbr) [] None of
                    (rows, None) \<Rightarrow> Partitioned rows
                  | (rows, Some (org, current, extended)) \<Rightarrow>
                      Partitioned (walk_chain d HOPS org current extended rows))))"

section \<open>Numbering\<close>

text \<open>
  What the walk keeps: rows numbered by position, primaries before logicals, the extended row in
  range and of an extended type, and an issue wherever the type is outside the claim.
\<close>

definition row_ok :: "partition_info \<Rightarrow> bool" where
  "row_ok r \<longleftrightarrow> part_type_name r = pinned_type_name (part_type r) \<and>
     (part_issue r = None \<longrightarrow> part_type_name r \<noteq> None \<and>
        (part_kind r = Logical \<longrightarrow> \<not> is_extended (part_type r)))"

definition rows_ok :: "nat \<Rightarrow> partition_info list \<Rightarrow> bool" where
  "rows_ok k rows \<longleftrightarrow> map part_number rows = [1..<Suc (length rows)] \<and> list_all row_ok rows \<and>
     k \<le> length rows \<and> list_all (\<lambda>r. part_kind r = Primary) (take k rows) \<and>
     list_all (\<lambda>r. part_kind r = Logical) (drop k rows)"

text \<open>What a row reports of its entry, and what an entry holds.\<close>

definition row_key :: "partition_info \<Rightarrow> u8 \<times> bool \<times> nat \<times> nat" where
  "row_key r = (part_type r, part_active r, start_bytes r, length_bytes r)"

definition entry_key :: "raw_entry \<Rightarrow> u8 \<times> bool \<times> nat \<times> nat" where
  "entry_key e = (entry_type e, entry_active e, unat (start_lba e) * 512,
     unat (entry_sectors e) * 512)"

lemma numbers_snoc:
  "map part_number rows = [1..<Suc (length rows)] \<Longrightarrow> part_number r = Suc (length rows) \<Longrightarrow>
   map part_number (rows @ [r]) = [1..<Suc (length (rows @ [r]))]"
  by simp

lemma pinned_extended: "is_extended t \<Longrightarrow> pinned_type_name t \<noteq> None"
  by (auto simp: is_extended_def pinned_type_name_def)

lemma primary_rows_ok:
  assumes "primary_rows es rows chain = (rows', chain')"
    and "map part_number rows = [1..<Suc (length rows)]" "list_all row_ok rows"
    and "list_all (\<lambda>r. part_kind r = Primary) rows"
    and "\<And>b c x. chain = Some (b, c, x) \<Longrightarrow> x < length rows \<and> is_extended (part_type (rows ! x))"
  shows "map part_number rows' = [1..<Suc (length rows')] \<and> list_all row_ok rows' \<and>
    list_all (\<lambda>r. part_kind r = Primary) rows' \<and> 
    map row_key rows' = map row_key rows @ map entry_key (filter (\<lambda>e. entry_type e \<noteq> 0) es) \<and>
    (\<forall>b c x. chain' = Some (b, c, x) \<longrightarrow> x < length rows' \<and> is_extended (part_type (rows' ! x)))"
  using assms
proof (induction es rows chain rule: primary_rows.induct)
  case (2 e es rows chain)
  show ?case
  proof (cases "entry_type e = 0x00")
    case True
    from "2.prems"(1) True have step: "primary_rows es rows chain = (rows', chain')" by simp
    have "map part_number rows' = [1..<Suc (length rows')] \<and> list_all row_ok rows' \<and>
      list_all (\<lambda>r. part_kind r = Primary) rows' \<and>
      map row_key rows' = map row_key rows @ map entry_key (filter (\<lambda>e. entry_type e \<noteq> 0) es) \<and>
      (\<forall>b c x. chain' = Some (b, c, x) \<longrightarrow> x < length rows' \<and> is_extended (part_type (rows' ! x)))"
      by (rule "2.IH"(1) [OF True step]) (use "2.prems"(2-5) in blast)+
    then show ?thesis using True by simp
  next
    case False
    let ?sec = "is_extended (entry_type e) \<and> chain \<noteq> None"
    let ?r = "primary_row e (Suc (length rows)) ?sec"
    let ?c = "if is_extended (entry_type e) \<and> chain = None
              then Some (unat (start_lba e), unat (start_lba e), length rows) else chain"
    have step: "primary_rows es (rows @ [?r]) ?c = (rows', chain')"
      using "2.prems"(1) False by (simp add: Let_def)
    have r: "row_ok ?r" "part_kind ?r = Primary" "part_number ?r = Suc (length rows)"
      "part_type ?r = entry_type e" "row_key ?r = entry_key e"
      by (auto simp: primary_row_def row_ok_def row_key_def entry_key_def SECTOR_def)
    have c: "x < length (rows @ [?r]) \<and> is_extended (part_type ((rows @ [?r]) ! x))"
      if "?c = Some (b, k, x)" for b k x
      using that "2.prems"(5) r(4) by (auto simp: nth_append split: if_splits)
    have "map part_number rows' = [1..<Suc (length rows')] \<and> list_all row_ok rows' \<and>
      list_all (\<lambda>r. part_kind r = Primary) rows' \<and>
      map row_key rows' = map row_key (rows @ [?r]) @ map entry_key (filter (\<lambda>e. entry_type e \<noteq> 0) es) \<and>
      (\<forall>b c x. chain' = Some (b, c, x) \<longrightarrow> x < length rows' \<and> is_extended (part_type (rows' ! x)))"
      by (rule "2.IH"(2) [OF False refl refl refl step])
        (use "2.prems"(2-4) r numbers_snoc c in auto)
    then show ?thesis using False r(5) by simp
  qed
qed auto

lemma set_issue_ok:
  assumes "i < length rows" "rows_ok k rows"
  shows "rows_ok k (set_issue i err rows)" "length (set_issue i err rows) = length rows"
proof -
  let ?s = "set_issue i err rows"
  show len: "length ?s = length rows" by (simp add: set_issue_def)
  have n: "part_number (?s ! k) = part_number (rows ! k)" "part_kind (?s ! k) = part_kind (rows ! k)"
    if "k < length rows" for k
    using that assms(1) by (auto simp: set_issue_def nth_list_update)
  have "map part_number ?s = map part_number rows"
    by (rule nth_equalityI) (simp_all add: len n)
  moreover have "list_all row_ok ?s"
    unfolding list_all_length len
  proof (intro allI impI)
    fix k assume k: "k < length rows"
    have "row_ok (rows ! k)" using assms(2) k by (simp add: rows_ok_def list_all_length)
    moreover have "?s ! k = (if k = i then (rows ! i)\<lparr>part_issue := Some err\<rparr> else rows ! k)"
      using k assms(1) by (simp add: set_issue_def)
    ultimately show "row_ok (?s ! k)" by (cases "k = i") (simp add: row_ok_def, simp)
  qed
  moreover have kinds: "map part_kind ?s = map part_kind rows"
    by (rule nth_equalityI) (simp_all add: len n)
  moreover have "list_all (\<lambda>r. part_kind r = K) (take n ?s) =
      list_all (\<lambda>r. part_kind r = K) (take n rows) \<and>
      list_all (\<lambda>r. part_kind r = K) (drop n ?s) = list_all (\<lambda>r. part_kind r = K) (drop n rows)" for K n
    using arg_cong [OF kinds, of "\<lambda>xs. list_all (\<lambda>x. x = K) (take n xs)"]
      arg_cong [OF kinds, of "\<lambda>xs. list_all (\<lambda>x. x = K) (drop n xs)"]
    by (simp add: take_map drop_map list.pred_map comp_def)
  ultimately show "rows_ok k ?s"
    using assms(2) len unfolding rows_ok_def by simp
qed

lemma rows_ok_snoc:
  "rows_ok k rows \<Longrightarrow> row_ok r \<Longrightarrow> part_kind r = Logical \<Longrightarrow> part_number r = Suc (length rows) \<Longrightarrow>
   rows_ok k (rows @ [r])"
  using numbers_snoc [of rows r] unfolding rows_ok_def by auto

lemma logical_row_ok:
  "row_ok (logical_row e n current)" "part_kind (logical_row e n current) = Logical"
  "part_number (logical_row e n current) = n"
  by (auto simp: logical_row_def row_ok_def)

lemma walk_chain_ok:
  assumes "rows_ok k rows" "x < length rows"
  shows "rows_ok k (walk_chain d hops org current x rows) \<and>
    length rows \<le> length (walk_chain d hops org current x rows) \<and>
    length (walk_chain d hops org current x rows) \<le> length rows + hops \<and>
    map row_key (take (length rows) (walk_chain d hops org current x rows)) = map row_key rows"
  using assms
proof (induction d hops org current x rows rule: walk_chain.induct)
  case (1 d org current x rows)
  have "map row_key (set_issue x mbr_invalid rows) = map row_key rows"
    using 1(2) by (intro nth_equalityI) (auto simp: set_issue_def nth_list_update row_key_def)
  then show ?case using set_issue_ok [OF 1(2,1)] by simp
next
  case (2 d hops org current x rows)
  have issue: "rows_ok k (set_issue x mbr_invalid qs) \<and> length (set_issue x mbr_invalid qs) = length qs \<and>
      map row_key (set_issue x mbr_invalid qs) = map row_key qs \<and>
      map row_key (take n (set_issue x mbr_invalid qs)) = map row_key (take n qs)"
    if "rows_ok k qs" "x < length qs" for qs n
    using set_issue_ok [OF that(2,1)] that(2)
    by (auto intro!: nth_equalityI simp: set_issue_def nth_list_update row_key_def)
  show ?case
  proof (cases "read_sector d current")
    case (Inl e)
    then show ?thesis using issue [OF 2(2,3), of "length rows"] by simp
  next
    case (Inr ebr)
    let ?r = "logical_row (parse_entry ebr 0) (Suc (length rows)) current"
    define q where "q = (if entry_type (parse_entry ebr 0) \<noteq> 0x00 then rows @ [?r] else rows)"
    have q: "rows_ok k q" "x < length q" "length rows \<le> length q" "length q \<le> Suc (length rows)"
      "take (length rows) q = rows"
      using 2(2,3) rows_ok_snoc [of k rows ?r] by (auto simp: logical_row_ok q_def)
    show ?thesis
    proof (cases "has_signature ebr \<and> entry_type (parse_entry ebr 1) \<noteq> 0x00 \<and>
        is_extended (entry_type (parse_entry ebr 1))")
      case True
      define w where "w = walk_chain d hops org (org + unat (start_lba (parse_entry ebr 1))) x q"
      have e: "walk_chain d (Suc hops) org current x rows = w"
        using True Inr by (simp add: Let_def q_def w_def)
      have ih: "rows_ok k w \<and> length q \<le> length w \<and> length w \<le> length q + hops \<and>
          map row_key (take (length q) w) = map row_key q"
        unfolding w_def
        by (rule "2.IH" [OF Inr _ refl refl q_def]) (use True q in simp_all)
      have "map row_key (take (length rows) w) = take (length rows) (map row_key (take (length q) w))"
        using q(3) by (simp add: take_map min_def)
      also have "\<dots> = map row_key rows" using ih q(5) by (metis take_map)
      finally show ?thesis unfolding e using ih q(3,4) by simp
    next
      case False
      then have "walk_chain d (Suc hops) org current x rows \<in>
          {set_issue x mbr_invalid rows, q, set_issue x mbr_invalid q}"
        using Inr by (auto simp: Let_def q_def)
      then show ?thesis
        using issue [OF 2(2,3), of "length rows"] issue [OF q(1,2), of "length rows"] q 2(2,3)
        by (elim insertE emptyE) (simp_all del: walk_chain.simps)
    qed
  qed
qed


section \<open>What discovery promises\<close>


section \<open>What an implied geometry promises\<close>

text \<open>The shapes an end tuple admits, and the one the loop settles on.\<close>

definition admits_shape :: "nat \<Rightarrow> nat \<Rightarrow> nat \<Rightarrow> nat \<times> nat \<Rightarrow> bool" where
  "admits_shape org cylinder head = (\<lambda>(heads, spt).
     org = (cylinder * heads + head) * spt \<and> head < heads \<and> heads \<le> 256)"

definition shape_at :: "nat \<Rightarrow> nat \<Rightarrow> nat \<Rightarrow> nat \<Rightarrow> (nat \<times> nat) option" where
  "shape_at org cylinder head spt =
     (let heads = (org div spt - head) div cylinder
      in if admits_shape org cylinder head (heads, spt) then Some (heads, spt) else None)"

definition only_one :: "'a list \<Rightarrow> 'a option" where
  "only_one xs = (case xs of [x] \<Rightarrow> Some x | _ \<Rightarrow> None)"

lemma only_one_iff: "distinct xs \<Longrightarrow> only_one xs = Some x \<longleftrightarrow> set xs = {x}"
proof (cases xs rule: remdups_adj.cases)
  case (3 y z ys)
  assume "distinct xs"
  then have "y \<noteq> z" "y \<in> set xs" "z \<in> set xs" using 3 by auto
  then have "set xs \<noteq> {x}" by (metis singletonD)
  then show ?thesis by (simp add: only_one_def 3)
qed (auto simp: only_one_def)

lemma shape_at_iff:
  assumes "0 < spt" "0 < cylinder"
  shows "shape_at org cylinder head spt = Some p \<longleftrightarrow> snd p = spt \<and> admits_shape org cylinder head p"
proof -
  obtain heads s where p: "p = (heads, s)" by (cases p)
  have "heads = (org div spt - head) div cylinder" if "admits_shape org cylinder head (heads, spt)"
    using that assms by (simp add: admits_shape_def)
  then show ?thesis unfolding p shape_at_def Let_def by (metis option.distinct(1) option.inject prod.inject snd_conv)
qed

lemma shape_at_code:
  assumes "0 < spt" "0 < cylinder"
  shows "shape_at org cylinder head spt =
    (if org mod spt \<noteq> 0 then None
     else let track = org div spt
          in if track < head \<or> (track - head) mod cylinder \<noteq> 0 then None
             else let heads = (track - head) div cylinder
                  in if heads \<le> head \<or> heads > 256 then None else Some (heads, spt))"
proof (cases "\<exists>h. org = (cylinder * h + head) * spt")
  case True
  then obtain h where "org = (cylinder * h + head) * spt" by blast
  with assms show ?thesis by (simp add: shape_at_def admits_shape_def Let_def)
next
  case False
  have none: "shape_at org cylinder head spt = None"
    using False by (simp add: shape_at_def admits_shape_def Let_def)
  have "\<not> (org mod spt = 0 \<and> head \<le> org div spt \<and> (org div spt - head) mod cylinder = 0)"
  proof
    assume a: "org mod spt = 0 \<and> head \<le> org div spt \<and> (org div spt - head) mod cylinder = 0"
    then obtain t h where "org = spt * t" "t - head = cylinder * h" "head \<le> t"
      using assms(1) that [of "org div spt"] by (auto elim!: dvdE simp: mod_eq_0_iff_dvd)
    then have "t = cylinder * h + head" by linarith
    with \<open>org = spt * t\<close> have "org = (cylinder * h + head) * spt" by simp
    with False show False by blast
  qed
  then show ?thesis unfolding none by (auto simp: Let_def)
qed

lemma solve_geometry_step:
  assumes "0 < spt" "0 < cylinder" "spt < 64"
  shows "solve_geometry spt org cylinder head solved =
    (case shape_at org cylinder head spt of
       None \<Rightarrow> solve_geometry (Suc spt) org cylinder head solved
     | Some p \<Rightarrow> if solved \<noteq> None then None else solve_geometry (Suc spt) org cylinder head (Some p))"
  using assms
  by (subst solve_geometry.simps)
    (simp add: shape_at_code Let_def SECTORS_PER_TRACK_CEILING_def HEADS_CEILING_def)

lemma solve_geometry_eq:
  assumes "0 < spt" "0 < cylinder"
  shows "solve_geometry spt org cylinder head solved = only_one
     ((case solved of None \<Rightarrow> [] | Some p \<Rightarrow> [p]) @ List.map_filter (shape_at org cylinder head) [spt..<64])"
  using assms
proof (induction "64 - spt" arbitrary: spt solved)
  case 0
  then show ?case
    by (subst solve_geometry.simps)
      (simp add: SECTORS_PER_TRACK_CEILING_def map_filter_def only_one_def split: option.splits)
next
  case (Suc n)
  then have "[spt..<64] = spt # [Suc spt..<64]" "spt < 64" by (simp_all add: upt_conv_Cons)
  then show ?case
    using Suc(1) [of "Suc spt"] Suc(2-4)
    by (simp add: solve_geometry_step List.map_filter_simps only_one_def split: option.splits)
qed

lemma solve_geometry_unique:
  assumes "0 < spt" "0 < cylinder"
  shows "solve_geometry spt org cylinder head None = Some p \<longleftrightarrow>
    {q. spt \<le> snd q \<and> snd q \<le> 63 \<and> admits_shape org cylinder head q} = {p}"
proof -
  let ?xs = "List.map_filter (shape_at org cylinder head) [spt..<64]"
  have mem: "q \<in> set (List.map_filter (shape_at org cylinder head) [a..<b]) \<longleftrightarrow>
      a \<le> snd q \<and> snd q < b \<and> admits_shape org cylinder head q" if "0 < a" for q a b
  proof -
    have "q \<in> set (List.map_filter (shape_at org cylinder head) [a..<b]) \<longleftrightarrow>
        (\<exists>k\<in>set [a..<b]. shape_at org cylinder head k = Some q)"
      by (auto simp: map_filter_def image_iff simp del: set_upt)
    also have "\<dots> \<longleftrightarrow> (\<exists>k\<in>set [a..<b]. snd q = k \<and> admits_shape org cylinder head q)"
    proof (rule bex_cong [OF refl])
      fix k assume "k \<in> set [a..<b]"
      then have "0 < k" using that by simp
      then show "(shape_at org cylinder head k = Some q) = (snd q = k \<and> admits_shape org cylinder head q)"
        by (rule shape_at_iff [OF _ assms(2)])
    qed
    finally show ?thesis by auto
  qed
  have "distinct (List.map_filter (shape_at org cylinder head) [a..<b])" if "0 < a" for a b
    using that
  proof (induction "b - a" arbitrary: a)
    case (Suc n)
    then have cons: "[a..<b] = a # [Suc a..<b]" by (simp add: upt_conv_Cons)
    have ih: "distinct (List.map_filter (shape_at org cylinder head) [Suc a..<b])"
      using Suc(1) [of "Suc a"] Suc(2) by simp
    show ?case
    proof (cases "shape_at org cylinder head a")
      case (Some q)
      then have "snd q = a" using shape_at_iff [OF Suc(3) assms(2), of org head q] by simp
      then have "q \<notin> set (List.map_filter (shape_at org cylinder head) [Suc a..<b])"
        using mem [of "Suc a" q b] by simp
      then show ?thesis using ih by (simp add: cons List.map_filter_simps Some)
    qed (simp add: cons List.map_filter_simps ih)
  qed (simp add: map_filter_def)
  from this [OF assms(1)] have "only_one ?xs = Some p \<longleftrightarrow> set ?xs = {p}" by (rule only_one_iff)
  moreover have "set ?xs = {q. spt \<le> snd q \<and> snd q \<le> 63 \<and> admits_shape org cylinder head q}"
    using mem [OF assms(1), of _ 64] by auto
  ultimately show ?thesis using solve_geometry_eq [OF assms] by simp
qed

text \<open>
  C10: An end tuple implies a shape exactly when one shape alone, of at most 256 heads and 63
  sectors, puts the entry's last block at that cylinder, head and sector; the answer is that shape
  and none is given where two shapes fit.
\<close>

theorem entry_geometry_unique:
  "entry_geometry e n = Some g \<longleftrightarrow> implied_entry g = n \<and>
     (case end_tuple e of (cylinder, head, sector) \<Rightarrow>
        0 < sector \<and> 0 < unat (entry_sectors e) \<and> 0 < cylinder \<and>
        sector \<le> unat (start_lba e) + unat (entry_sectors e) \<and>
        {(heads, spt). sector \<le> spt \<and> spt \<le> 63 \<and> head < heads \<and> heads \<le> 256 \<and>
           unat (start_lba e) + unat (entry_sectors e) - 1 =
             (cylinder * heads + head) * spt + (sector - 1)} = {(implied_heads g, implied_sectors g)})"
proof -
  obtain c h s where t: "end_tuple e = (c, h, s)" by (cases "end_tuple e")
  let ?l = "unat (start_lba e) + unat (entry_sectors e) - 1"
  show ?thesis
  proof (cases "0 < s \<and> 0 < unat (entry_sectors e) \<and> 0 < c \<and> s - 1 \<le> ?l")
    case True
    have "{(heads, spt). s \<le> spt \<and> spt \<le> 63 \<and> h < heads \<and> heads \<le> 256 \<and>
         ?l = (c * heads + h) * spt + (s - 1)} =
       {q. s \<le> snd q \<and> snd q \<le> 63 \<and> admits_shape (?l - (s - 1)) c h q}"
    proof (intro set_eqI)
      fix q
      show "q \<in> {(heads, spt). s \<le> spt \<and> spt \<le> 63 \<and> h < heads \<and> heads \<le> 256 \<and>
           ?l = (c * heads + h) * spt + (s - 1)} \<longleftrightarrow>
         q \<in> {q. s \<le> snd q \<and> snd q \<le> 63 \<and> admits_shape (?l - (s - 1)) c h q}"
        using True by (cases q) (simp add: admits_shape_def le_diff_conv2 eq_diff_iff, linarith)
    qed
    moreover have "entry_geometry e n =
        (case solve_geometry s (?l - (s - 1)) c h None of None \<Rightarrow> None
         | Some (heads, spt) \<Rightarrow>
             Some \<lparr>implied_entry = n, implied_heads = heads, implied_sectors = spt\<rparr>)"
      using True t by (auto simp: entry_geometry_def Let_def)
    moreover have "(case r of None \<Rightarrow> None | Some (heads, spt) \<Rightarrow>
           Some \<lparr>implied_entry = n, implied_heads = heads, implied_sectors = spt\<rparr>) = Some g \<longleftrightarrow>
        implied_entry g = n \<and> r = Some (implied_heads g, implied_sectors g)" for r
      by (cases g) (auto split: option.splits)
    moreover have "s \<le> unat (start_lba e) + unat (entry_sectors e)" using True by linarith
    ultimately show ?thesis
      using True t solve_geometry_unique [of s c "?l - (s - 1)" h "(implied_heads g, implied_sectors g)"]
      by simp
  next
    case False
    then show ?thesis using t by (auto simp: entry_geometry_def Let_def unat_eq_0)
  qed
qed

end
