(* ===== verification/Fat.thy ===== *)
theory Fat
  imports Device DosName Mbr
begin

text \<open>
  FAT12 and FAT16 volumes (\<open>src/crates/remanence/src/filesystem/fat.rs\<close>): the boot record's
  parameter block, the layouts a media descriptor declares, what a boot record declares of its
  extent and geometry, and the allocation table. The device is the bytes it presents, and an
  operation that writes returns them whatever its result. Quantities the code keeps as \<open>u64\<close>
  are natural numbers: every one is a sum or product of fields of at most 32 bits.
\<close>

section \<open>Refusals and constants\<close>

datatype fat_kind = Fat12 | Fat16

fun fat_kind_name :: "fat_kind \<Rightarrow> string" where
  "fat_kind_name Fat12 = ''FAT12''"
| "fat_kind_name Fat16 = ''FAT16''"

datatype fat_entry_kind = FileEntry | DirectoryEntry

record dir_entry =
  entry_name :: ustring
  entry_kind :: fat_entry_kind
  size_bytes :: nat

definition fat_invalid :: error where "fat_invalid = invalid_image ''fat''"

definition fat_refusal :: "error_category \<Rightarrow> error" where
  "fat_refusal c = categorized_image c ''fat''"

definition fat_unsupported :: error where "fat_unsupported = fat_refusal Unsupported"
definition fat_not_found :: error where "fat_not_found = fat_refusal NotFound"
definition fat_not_directory :: error where "fat_not_directory = fat_refusal NotDirectory"
definition fat_is_directory :: error where "fat_is_directory = fat_refusal IsDirectory"
definition fat_no_space :: error where "fat_no_space = fat_refusal NoSpace"
definition fat_io :: error where "fat_io = fat_refusal Io"

definition RECORD :: nat where "RECORD = 32"
definition FREE :: u8 where "FREE = 0x00"
definition ATTR_LONG_NAME :: u8 where "ATTR_LONG_NAME = 0x0f"
definition ATTR_DIRECTORY :: u8 where "ATTR_DIRECTORY = 0x10"
definition ATTR_VOLUME_ID :: u8 where "ATTR_VOLUME_ID = 0x08"
definition EXTENDED_BOOT_SIGNATURE_WITH_LABEL :: u8 where
  "EXTENDED_BOOT_SIGNATURE_WITH_LABEL = 0x29"
definition ROOT_DIRECTORY_ENTRY :: string where "ROOT_DIRECTORY_ENTRY = ''root-directory-entry''"
definition BOOT_RECORD_FIELD :: string where "BOOT_RECORD_FIELD = ''boot-record-field''"
definition UNLABELED :: ustring where "UNLABELED = codes ''NO NAME''"

section \<open>The label grammar\<close>

datatype label_rule =
  EmptyLabel | LabelTooLong | LabelSurroundingSpace | LabelExcludedCharacter | UnlabeledSpelling

definition label_all :: "label_rule list" where
  "label_all = [EmptyLabel, LabelTooLong, LabelSurroundingSpace, LabelExcludedCharacter,
     UnlabeledSpelling]"

fun label_as_str :: "label_rule \<Rightarrow> rule_identity" where
  "label_as_str EmptyLabel = ''empty-label''"
| "label_as_str LabelTooLong = ''label-too-long''"
| "label_as_str LabelSurroundingSpace = ''label-surrounding-space''"
| "label_as_str LabelExcludedCharacter = ''label-excluded-character''"
| "label_as_str UnlabeledSpelling = ''unlabeled-spelling''"

definition label_from_identity :: "rule_identity \<Rightarrow> label_rule option" where
  "label_from_identity s = find (\<lambda>r. label_as_str r = s) label_all"

definition label_refusal :: "label_rule \<Rightarrow> error" where
  "label_refusal r = broke_rule io_error (label_as_str r)"

definition store_label :: "ustring \<Rightarrow> bytes result" where
  "store_label label =
     (let upper = to_ascii_uppercase label
      in if upper = [] then Inl (label_refusal EmptyLabel)
         else if length upper > 11 then Inl (label_refusal LabelTooLong)
         else if hd upper = 32 \<or> List.last upper = 32 then Inl (label_refusal LabelSurroundingSpace)
         else if list_ex (\<lambda>c. c \<noteq> 32 \<and> \<not> admits c) upper
         then Inl (label_refusal LabelExcludedCharacter)
         else if upper = UNLABELED then Inl (label_refusal UnlabeledSpelling)
         else Inr (pad_to 11 upper))"

definition field_text :: "bytes \<Rightarrow> ustring" where
  "field_text bs = trim_end (from_utf8_lossy bs)"

section \<open>The parameter block\<close>

record bpb =
  bytes_per_sector :: nat
  sectors_per_cluster :: nat
  reserved_sectors :: nat
  fat_count :: nat
  root_entries :: nat
  total_sectors :: nat
  sectors_per_fat :: nat
  sectors_per_track :: nat
  heads :: nat
  boot_label :: "ustring option"

definition fle16 :: "bytes \<Rightarrow> nat \<Rightarrow> nat" where
  "fle16 bs off = le_nat (slice off 2 bs)"

definition fle32 :: "bytes \<Rightarrow> nat \<Rightarrow> nat" where
  "fle32 bs off = le_nat (slice off 4 bs)"

record media_layout =
  descriptor :: u8
  layout_cluster :: nat
  layout_root :: nat
  layout_total :: nat
  layout_fat :: nat
  layout_track :: nat
  layout_heads :: nat

definition layout_bytes :: "media_layout \<Rightarrow> nat" where
  "layout_bytes l = layout_total l * 512"

definition MEDIA_LAYOUTS :: "media_layout list" where
  "MEDIA_LAYOUTS =
     [\<lparr>descriptor = 0xfe, layout_cluster = 1, layout_root = 64, layout_total = 320,
       layout_fat = 1, layout_track = 8, layout_heads = 1\<rparr>,
      \<lparr>descriptor = 0xff, layout_cluster = 2, layout_root = 112, layout_total = 640,
       layout_fat = 1, layout_track = 8, layout_heads = 2\<rparr>]"

definition states_a_parameter_block :: "bytes \<Rightarrow> bool" where
  "states_a_parameter_block sector \<longleftrightarrow>
     length sector \<ge> 512 \<and> 512 \<le> fle16 sector 11 \<and> fle16 sector 11 \<le> 4096 \<and>
     is_power_of_two (fle16 sector 11)"

definition from_media_descriptor :: "u8 \<Rightarrow> nat \<Rightarrow> bpb result" where
  "from_media_descriptor byte extent =
     (case find (\<lambda>l. descriptor l = byte) MEDIA_LAYOUTS of
        None \<Rightarrow> Inl fat_invalid
      | Some l \<Rightarrow>
          if extent < layout_bytes l then Inl fat_invalid
          else Inr \<lparr>bytes_per_sector = 512, sectors_per_cluster = layout_cluster l,
                 reserved_sectors = 1, fat_count = 2, root_entries = layout_root l,
                 total_sectors = layout_total l, sectors_per_fat = layout_fat l,
                 sectors_per_track = layout_track l, heads = layout_heads l, boot_label = None\<rparr>)"

definition parse_bpb :: "bytes \<Rightarrow> bpb result" where
  "parse_bpb sector =
     (if length sector < 512 then Inl fat_invalid
      else let bps = fle16 sector 11
           in if \<not> (512 \<le> bps \<and> bps \<le> 4096) \<or> \<not> is_power_of_two bps then Inl fat_invalid
      else let spc = unat (sector ! 13)
           in if spc = 0 \<or> \<not> is_power_of_two spc then Inl fat_invalid
      else let reserved = fle16 sector 14
           in if reserved = 0 then Inl fat_invalid
      else let fats = unat (sector ! 16)
           in if \<not> (1 \<le> fats \<and> fats \<le> 2) then Inl fat_invalid
      else let total = (if fle16 sector 19 = 0 then fle32 sector 32 else fle16 sector 19);
               spf = fle16 sector 22
           in if spf = 0 then Inl fat_unsupported
      else Inr \<lparr>bytes_per_sector = bps, sectors_per_cluster = spc, reserved_sectors = reserved,
             fat_count = fats, root_entries = fle16 sector 17, total_sectors = total,
             sectors_per_fat = spf, sectors_per_track = fle16 sector 24,
             heads = fle16 sector 26,
             boot_label = (if sector ! 38 = EXTENDED_BOOT_SIGNATURE_WITH_LABEL
                           then Some (field_text (slice 43 11 sector)) else None)\<rparr>)"

definition div_ceil :: "nat \<Rightarrow> nat \<Rightarrow> nat" where
  "div_ceil a b = (if a mod b = 0 then a div b else Suc (a div b))"

definition root_dir_bytes :: "bpb \<Rightarrow> nat" where
  "root_dir_bytes b = div_ceil (root_entries b * RECORD) (bytes_per_sector b) * bytes_per_sector b"

definition fat_offset :: "bpb \<Rightarrow> nat" where
  "fat_offset b = reserved_sectors b * bytes_per_sector b"

definition root_dir_offset :: "bpb \<Rightarrow> nat" where
  "root_dir_offset b = fat_offset b + fat_count b * sectors_per_fat b * bytes_per_sector b"

definition data_offset :: "bpb \<Rightarrow> nat" where
  "data_offset b = root_dir_offset b + root_dir_bytes b"

definition cluster_bytes :: "bpb \<Rightarrow> nat" where
  "cluster_bytes b = sectors_per_cluster b * bytes_per_sector b"

text \<open>Subtraction on naturals is \<open>saturating_sub\<close>.\<close>

definition cluster_count :: "bpb \<Rightarrow> nat" where
  "cluster_count b = (total_sectors b - data_offset b div bytes_per_sector b) div sectors_per_cluster b"

definition cylinders :: "bpb \<Rightarrow> nat option" where
  "cylinders b =
     (let track = sectors_per_track b * heads b
      in if track \<noteq> 0 \<and> total_sectors b mod track = 0 then Some (total_sectors b div track)
         else None)"

section \<open>What a boot record declares\<close>

datatype volume_declaration =
  Absent
| Bounded nat nat
| Conflicted nat

definition boot_record :: "bytes \<Rightarrow> bool" where
  "boot_record sector \<longleftrightarrow> length sector \<ge> 512 \<and> has_signature sector \<and> looks_like_bpb sector"

definition declared_volume :: "bytes \<Rightarrow> volume_declaration" where
  "declared_volume sector =
     (if \<not> boot_record sector then Absent
      else case parse_bpb sector of
             Inl e \<Rightarrow> Absent
           | Inr b \<Rightarrow>
               (let small = fle16 sector 19; large = fle32 sector 32
                in if small \<noteq> 0 \<and> large \<noteq> 0 \<and> small \<noteq> large
                   then Conflicted (max small large * bytes_per_sector b)
                   else let total = total_sectors b * bytes_per_sector b;
                            metadata_end = data_offset b
                        in if total = 0 \<or> metadata_end > total then Conflicted total
                           else Bounded total metadata_end))"

record boot_record_geometry =
  geometry_bytes :: nat
  geometry_track :: "nat option"
  geometry_heads :: "nat option"

definition stated :: "nat \<Rightarrow> nat option" where
  "stated n = (if n \<noteq> 0 then Some n else None)"

definition declared_geometry :: "bytes \<Rightarrow> boot_record_geometry option" where
  "declared_geometry sector =
     (if \<not> boot_record sector then None
      else case parse_bpb sector of
             Inl e \<Rightarrow> None
           | Inr b \<Rightarrow> Some \<lparr>geometry_bytes = bytes_per_sector b,
               geometry_track = stated (sectors_per_track b), geometry_heads = stated (heads b)\<rparr>)"

section \<open>A volume and its allocation table\<close>

record fat_volume =
  vol_offset :: nat
  vol_bpb :: bpb
  vol_kind :: fat_kind

definition fat_open :: "bytes \<Rightarrow> nat \<Rightarrow> fat_volume result" where
  "fat_open d offset =
     rbind (image_read d offset 512) (\<lambda>sector.
     rbind (if states_a_parameter_block sector then parse_bpb sector
            else rbind (image_read d (offset + 512) 512) (\<lambda>fat.
                   from_media_descriptor (fat ! 0) (length d - offset))) (\<lambda>b.
       (let count = cluster_count b
        in if count < 4085 then Inr \<lparr>vol_offset = offset, vol_bpb = b, vol_kind = Fat12\<rparr>
           else if count < 65525 then Inr \<lparr>vol_offset = offset, vol_bpb = b, vol_kind = Fat16\<rparr>
           else Inl fat_unsupported)))"

definition table_at :: "fat_volume \<Rightarrow> nat \<Rightarrow> nat" where
  "table_at v copy = vol_offset v + fat_offset (vol_bpb v)
     + copy * sectors_per_fat (vol_bpb v) * bytes_per_sector (vol_bpb v)"

definition fat_entry :: "fat_volume \<Rightarrow> bytes \<Rightarrow> nat \<Rightarrow> nat result" where
  "fat_entry v d cluster =
     (let fat = vol_offset v + fat_offset (vol_bpb v)
      in case vol_kind v of
           Fat16 \<Rightarrow> rbind (image_read d (fat + cluster * 2) 2) (\<lambda>raw. Inr (le_nat raw))
         | Fat12 \<Rightarrow> rbind (image_read d (fat + cluster * 3 div 2) 2) (\<lambda>raw.
             let pair = le_nat raw
             in Inr (if even cluster then pair AND 0xfff else drop_bit 4 pair)))"

fun set_copies :: "fat_volume \<Rightarrow> nat \<Rightarrow> nat \<Rightarrow> nat list \<Rightarrow> bytes \<Rightarrow> bytes \<times> unit result" where
  "set_copies v cluster value [] d = (d, Inr ())"
| "set_copies v cluster value (copy # copies) d =
     (let fat = table_at v copy
      in case vol_kind v of
           Fat16 \<Rightarrow> sbind (image_write d (fat + cluster * 2) (le_bytes 2 value))
                      (\<lambda>d' _. set_copies v cluster value copies d')
         | Fat12 \<Rightarrow>
             (let at = fat + cluster * 3 div 2
              in sbind (d, image_read d at 2) (\<lambda>d raw.
                   let pair = le_nat raw;
                       pair' = (if even cluster then (pair AND 0xf000) OR (value AND 0xfff)
                                else (pair AND 0x000f) OR push_bit 4 (value AND 0xfff))
                   in sbind (image_write d at (le_bytes 2 pair'))
                        (\<lambda>d' _. set_copies v cluster value copies d'))))"

definition set_fat_entry :: "fat_volume \<Rightarrow> bytes \<Rightarrow> nat \<Rightarrow> nat \<Rightarrow> bytes \<times> unit result" where
  "set_fat_entry v d cluster value = set_copies v cluster value [0..<fat_count (vol_bpb v)] d"

definition is_end :: "fat_volume \<Rightarrow> nat \<Rightarrow> bool" where
  "is_end v value = (case vol_kind v of Fat12 \<Rightarrow> value \<ge> 0xff8 | Fat16 \<Rightarrow> value \<ge> 0xfff8)"

definition end_marker :: "fat_volume \<Rightarrow> nat" where
  "end_marker v = (case vol_kind v of Fat12 \<Rightarrow> 0xfff | Fat16 \<Rightarrow> 0xffff)"

definition max_cluster :: "fat_volume \<Rightarrow> nat" where
  "max_cluster v = cluster_count (vol_bpb v) + 2"

text \<open>The walk of a chain, with the clusters it may still take before it is called endless.\<close>

fun chain_from :: "fat_volume \<Rightarrow> bytes \<Rightarrow> nat \<Rightarrow> nat \<Rightarrow> nat list result" where
  "chain_from v d 0 current = (if is_end v current then Inr [] else Inl fat_invalid)"
| "chain_from v d (Suc room) current =
     (if is_end v current then Inr []
      else if \<not> (2 \<le> current \<and> current < max_cluster v) then Inl fat_invalid
      else rbind (fat_entry v d current) (\<lambda>next.
           rbind (chain_from v d room next) (\<lambda>cs. Inr (current # cs))))"

definition chain :: "fat_volume \<Rightarrow> bytes \<Rightarrow> nat \<Rightarrow> nat list result" where
  "chain v d first = chain_from v d (max_cluster v) first"

definition cluster_offset :: "fat_volume \<Rightarrow> nat \<Rightarrow> nat" where
  "cluster_offset v cluster =
     vol_offset v + data_offset (vol_bpb v) + (cluster - 2) * cluster_bytes (vol_bpb v)"

section \<open>Claiming clusters\<close>

text \<open>Both scans run from a cluster up to the first one past the volume.\<close>

fun scan_free :: "fat_volume \<Rightarrow> bytes \<Rightarrow> nat list \<Rightarrow> nat \<Rightarrow> nat list result" where
  "scan_free v d [] count = Inr []"
| "scan_free v d (cluster # cs) count =
     (if count = 0 then Inr []
      else rbind (fat_entry v d cluster) (\<lambda>e.
             if e = 0 then rbind (scan_free v d cs (count - 1)) (\<lambda>fs. Inr (cluster # fs))
             else scan_free v d cs count))"

definition claim_clusters :: "fat_volume \<Rightarrow> bytes \<Rightarrow> nat \<Rightarrow> nat list result" where
  "claim_clusters v d count =
     rbind (scan_free v d [2..<max_cluster v] count) (\<lambda>free.
       if length free < count then Inl fat_no_space else Inr free)"

definition free_cluster_count :: "fat_volume \<Rightarrow> bytes \<Rightarrow> nat \<Rightarrow> nat result" where
  "free_cluster_count v d cap =
     rbind (scan_free v d [2..<max_cluster v] cap) (\<lambda>free. Inr (length free))"

end
