(* ===== verification/Fat_Dir.thy ===== *)
theory Fat_Dir
  imports Fat
begin

text \<open>
  Directories of a FAT volume (\<open>src/crates/remanence/src/filesystem/fat.rs\<close>): the records of a
  directory, the live entries among them, the volume label, path walks and status queries, and
  the writing of a record. \<open>clock\<close> is the host's clock, as the seconds it shows when the record
  at an offset is written.
\<close>

section \<open>Records and entries\<close>

record located =
  attributes :: u8
  first_cluster :: nat
  located_size :: nat
  record_offset :: nat

definition root_records :: "fat_volume \<Rightarrow> nat \<times> nat" where
  "root_records v = (vol_offset v + root_dir_offset (vol_bpb v), root_entries (vol_bpb v) * RECORD)"

definition push_area :: "bytes \<Rightarrow> nat \<Rightarrow> nat \<Rightarrow> (nat \<times> bytes) list result" where
  "push_area d offset len =
     rbind (image_read d offset len) (\<lambda>area.
       Inr (map (\<lambda>i. (offset + i * RECORD, slice (i * RECORD) RECORD area)) [0..<len div RECORD]))"

definition read_records :: "fat_volume \<Rightarrow> bytes \<Rightarrow> nat \<Rightarrow> (nat \<times> bytes) list result" where
  "read_records v d first =
     (if first = 0 then (case root_records v of (offset, len) \<Rightarrow> push_area d offset len)
      else rbind (chain v d first) (\<lambda>cs.
           rbind (rmap (\<lambda>c. push_area d (cluster_offset v c) (cluster_bytes (vol_bpb v))) cs)
             (\<lambda>areas. Inr (concat areas))))"

definition skipped :: "bytes \<Rightarrow> bool" where
  "skipped r \<longleftrightarrow> r ! 0 = DELETED \<or> r ! 11 AND ATTR_LONG_NAME = ATTR_LONG_NAME \<or>
     r ! 11 AND ATTR_VOLUME_ID \<noteq> 0 \<or> read_name r = [46] \<or> read_name r = [46, 46]"

definition record_entry :: "nat \<Rightarrow> bytes \<Rightarrow> dir_entry \<times> located" where
  "record_entry at r =
     (\<lparr>entry_name = read_name r,
       entry_kind = (if r ! 11 AND ATTR_DIRECTORY \<noteq> 0 then DirectoryEntry else FileEntry),
       size_bytes = fle32 r 28\<rparr>,
      \<lparr>attributes = r ! 11, first_cluster = fle16 r 26, located_size = fle32 r 28,
       record_offset = at\<rparr>)"

fun live_entries :: "(nat \<times> bytes) list \<Rightarrow> (dir_entry \<times> located) list" where
  "live_entries [] = []"
| "live_entries ((at, r) # rs) =
     (if r ! 0 = FREE then []
      else if skipped r then live_entries rs
      else record_entry at r # live_entries rs)"

definition entries_of :: "fat_volume \<Rightarrow> bytes \<Rightarrow> nat \<Rightarrow> (dir_entry \<times> located) list result" where
  "entries_of v d first = rbind (read_records v d first) (\<lambda>rs. Inr (live_entries rs))"

definition named :: "ustring \<Rightarrow> (dir_entry \<times> located) list \<Rightarrow> (dir_entry \<times> located) option" where
  "named name es = find (\<lambda>(entry, _). name_matches (entry_name entry) name) es"

section \<open>The label\<close>

fun find_volume_id :: "(nat \<times> bytes) list \<Rightarrow> (nat \<times> ustring) option" where
  "find_volume_id [] = None"
| "find_volume_id ((at, r) # rs) =
     (if r ! 0 = FREE then None
      else if r ! 0 = DELETED then find_volume_id rs
      else if r ! 11 AND ATTR_LONG_NAME \<noteq> ATTR_LONG_NAME \<and> r ! 11 AND ATTR_VOLUME_ID \<noteq> 0
      then Some (at, field_text (take 11 r))
      else find_volume_id rs)"

definition volume_id_entry :: "fat_volume \<Rightarrow> bytes \<Rightarrow> (nat \<times> ustring) option result" where
  "volume_id_entry v d = rbind (read_records v d 0) (\<lambda>rs. Inr (find_volume_id rs))"

definition root_directory_label :: "fat_volume \<Rightarrow> bytes \<Rightarrow> ustring option result" where
  "root_directory_label v d = rbind (volume_id_entry v d) (\<lambda>e. Inr (map_option snd e))"

record label_reading =
  reading_source :: string
  stored :: "ustring option"

record volume_label =
  label_name :: "ustring option"
  answered_by :: "string option"
  readings :: "label_reading list"

definition label_text :: "ustring \<Rightarrow> ustring option" where
  "label_text s = (if s \<noteq> [] \<and> s \<noteq> UNLABELED then Some s else None)"

definition label_of :: "fat_volume \<Rightarrow> bytes \<Rightarrow> volume_label result" where
  "label_of v d =
     rbind (root_directory_label v d) (\<lambda>root.
       let boot = boot_label (vol_bpb v);
           (name, answered) =
             (case (root, boot) of
                (Some s, _) \<Rightarrow> (label_text s, Some ROOT_DIRECTORY_ENTRY)
              | (None, Some s) \<Rightarrow> (label_text s, Some BOOT_RECORD_FIELD)
              | (None, None) \<Rightarrow> (None, None))
       in Inr \<lparr>label_name = name, answered_by = answered,
                readings = [\<lparr>reading_source = ROOT_DIRECTORY_ENTRY, stored = root\<rparr>,
                            \<lparr>reading_source = BOOT_RECORD_FIELD, stored = boot\<rparr>]\<rparr>)"

section \<open>Recognition\<close>

record fat_recognition =
  recognized_kind :: fat_kind
  recognized_label :: volume_label
  recognized_cluster_bytes :: nat
  recognized_cluster_count :: nat
  recognized_track :: "nat option"
  recognized_heads :: "nat option"
  recognized_cylinders :: "nat option"

definition recognized :: "fat_volume \<Rightarrow> bytes \<Rightarrow> fat_recognition result" where
  "recognized v d =
     rbind (label_of v d) (\<lambda>label. Inr
       \<lparr>recognized_kind = vol_kind v, recognized_label = label,
        recognized_cluster_bytes = cluster_bytes (vol_bpb v),
        recognized_cluster_count = cluster_count (vol_bpb v),
        recognized_track = stated (sectors_per_track (vol_bpb v)),
        recognized_heads = stated (heads (vol_bpb v)),
        recognized_cylinders = cylinders (vol_bpb v)\<rparr>)"

section \<open>Time stamps\<close>

text \<open>
  The civil date and the time of day of a count of seconds since 1970, folded into the fields of
  a record. The era arithmetic is the code's on \<open>i64\<close>; the shifts are its \<open>u16\<close> arithmetic.
\<close>

definition civil :: "int \<Rightarrow> int \<times> int \<times> int" where
  "civil days =
     (let z = days + 719468;
          era = z div 146097;
          doe = z mod 146097;
          yoe = (doe - doe div 1460 + doe div 36524 - doe div 146096) div 365;
          year = yoe + era * 400;
          doy = doe - (365 * yoe + yoe div 4 - yoe div 100);
          mp = (5 * doy + 2) div 153;
          day = doy - (153 * mp + 2) div 5 + 1;
          month = (if mp < 10 then mp + 3 else mp - 9)
      in (if month \<le> 2 then year + 1 else year, month, day))"

definition timestamp :: "nat \<Rightarrow> u16 \<times> u16" where
  "timestamp seconds =
     (case civil (int (seconds div 86400)) of (year, month, day) \<Rightarrow>
        let day_seconds = seconds mod 86400;
            fat_year = (word_of_int (max 0 (min 127 (year - 1980))) :: u16)
        in (push_bit 9 fat_year OR push_bit 5 (word_of_int month) OR word_of_int day,
            push_bit 11 (word_of_nat (day_seconds div 3600))
              OR push_bit 5 (word_of_nat (day_seconds mod 3600 div 60))
              OR word_of_nat (day_seconds mod 60 div 2)))"

section \<open>Writing a record\<close>

definition record_bytes :: "bytes \<Rightarrow> u8 \<Rightarrow> nat \<Rightarrow> nat \<Rightarrow> nat \<Rightarrow> bytes" where
  "record_bytes raw_name attrs first sz seconds =
     (case timestamp seconds of (date, time) \<Rightarrow>
        splice 28 (le_bytes 4 sz) (splice 26 (le_bytes 2 first)
          (splice 24 (le_bytes 2 (unat date)) (splice 22 (le_bytes 2 (unat time))
             ((splice 0 raw_name (replicate RECORD 0))[11 := attrs])))))"

definition write_record ::
  "(nat \<Rightarrow> nat) \<Rightarrow> bytes \<Rightarrow> nat \<Rightarrow> bytes \<Rightarrow> u8 \<Rightarrow> nat \<Rightarrow> nat \<Rightarrow> bytes \<times> unit result" where
  "write_record clock d at raw_name attrs first sz =
     image_write d at (record_bytes raw_name attrs first sz (clock at))"

fun first_free :: "(nat \<times> bytes) list \<Rightarrow> nat option" where
  "first_free [] = None"
| "first_free ((at, r) # rs) =
     (if r ! 0 = FREE \<or> r ! 0 = DELETED then Some at else first_free rs)"

definition find_free_record :: "fat_volume \<Rightarrow> bytes \<Rightarrow> nat \<Rightarrow> nat option result" where
  "find_free_record v d parent = rbind (read_records v d parent) (\<lambda>rs. Inr (first_free rs))"

definition set_label ::
  "(nat \<Rightarrow> nat) \<Rightarrow> fat_volume \<Rightarrow> bytes \<Rightarrow> ustring option \<Rightarrow> bytes \<times> unit result" where
  "set_label clock v d label =
     (case label of
        Some l \<Rightarrow>
          sbind (d, store_label l) (\<lambda>d raw.
          sbind (d, rbind (volume_id_entry v d) (\<lambda>e.
                   case e of
                     Some (at, _) \<Rightarrow> Inr at
                   | None \<Rightarrow> rbind (find_free_record v d 0) (\<lambda>f.
                       case f of None \<Rightarrow> Inl fat_no_space | Some at \<Rightarrow> Inr at))) (\<lambda>d slot.
            write_record clock d slot raw ATTR_VOLUME_ID 0 0))
      | None \<Rightarrow>
          sbind (d, volume_id_entry v d) (\<lambda>d e.
            case e of
              Some (at, _) \<Rightarrow> image_write d at [DELETED]
            | None \<Rightarrow> (d, Inr ())))"

section \<open>Paths\<close>

fun walk_dirs :: "fat_volume \<Rightarrow> bytes \<Rightarrow> nat \<Rightarrow> ustring list \<Rightarrow> nat result" where
  "walk_dirs v d current [] = Inr current"
| "walk_dirs v d current (dir # dirs) =
     rbind (entries_of v d current) (\<lambda>es.
       case named dir es of
         None \<Rightarrow> Inl fat_not_found
       | Some (e, l) \<Rightarrow>
           if entry_kind e \<noteq> DirectoryEntry then Inl fat_not_directory
           else walk_dirs v d (first_cluster l) dirs)"

definition walk_to_parent :: "fat_volume \<Rightarrow> bytes \<Rightarrow> ustring list \<Rightarrow> (nat \<times> ustring) result" where
  "walk_to_parent v d segments =
     (if segments = [] then Inl fat_io
      else rbind (walk_dirs v d 0 (butlast segments)) (\<lambda>current.
           Inr (current, List.last segments)))"

definition locate :: "fat_volume \<Rightarrow> bytes \<Rightarrow> ustring list \<Rightarrow> located result" where
  "locate v d segments =
     rbind (walk_to_parent v d segments) (\<lambda>(parent, leaf).
     rbind (entries_of v d parent) (\<lambda>es.
       case named leaf es of None \<Rightarrow> Inl fat_not_found | Some (_, l) \<Rightarrow> Inr l))"

definition is_dir :: "located \<Rightarrow> bool" where
  "is_dir l \<longleftrightarrow> attributes l AND ATTR_DIRECTORY \<noteq> 0"

definition list_directory :: "fat_volume \<Rightarrow> bytes \<Rightarrow> ustring list \<Rightarrow> dir_entry list result" where
  "list_directory v d segments =
     rbind (if segments = [] then Inr 0
            else rbind (locate v d segments) (\<lambda>l.
                   if \<not> is_dir l then Inl fat_not_directory else Inr (first_cluster l)))
       (\<lambda>first. rbind (entries_of v d first) (\<lambda>es. Inr (map fst es)))"

fun stat_dirs :: "fat_volume \<Rightarrow> bytes \<Rightarrow> nat \<Rightarrow> ustring list \<Rightarrow> nat option result" where
  "stat_dirs v d current [] = Inr (Some current)"
| "stat_dirs v d current (dir # dirs) =
     rbind (entries_of v d current) (\<lambda>es.
       case named dir es of
         Some (e, l) \<Rightarrow> if entry_kind e = DirectoryEntry then stat_dirs v d (first_cluster l) dirs
                       else Inr None
       | None \<Rightarrow> Inr None)"

definition stat :: "fat_volume \<Rightarrow> bytes \<Rightarrow> ustring list \<Rightarrow> dir_entry option result" where
  "stat v d segments =
     (if segments = [] then Inl fat_io
      else rbind (stat_dirs v d 0 (butlast segments)) (\<lambda>at.
             case at of
               None \<Rightarrow> Inr None
             | Some current \<Rightarrow> rbind (entries_of v d current) (\<lambda>es.
                 Inr (map_option fst (named (List.last segments) es)))))"

fun extent_of :: "fat_volume \<Rightarrow> nat list \<Rightarrow> nat \<Rightarrow> nat \<Rightarrow> nat" where
  "extent_of v [] remaining e = e"
| "extent_of v (c # cs) remaining e =
     (if remaining = 0 then e
      else extent_of v cs (remaining - cluster_bytes (vol_bpb v))
             (max e (cluster_offset v c + min (cluster_bytes (vol_bpb v)) remaining)))"

definition extent_end :: "fat_volume \<Rightarrow> bytes \<Rightarrow> ustring list \<Rightarrow> nat result" where
  "extent_end v d segments =
     rbind (locate v d segments) (\<lambda>l.
       let e = record_offset l + RECORD
       in if located_size l > 0 \<and> first_cluster l \<ge> 2
          then rbind (chain v d (first_cluster l)) (\<lambda>cs. Inr (extent_of v cs (located_size l) e))
          else Inr e)"

end
