(* ===== verification/Fat_File.thy ===== *)
theory Fat_File
  imports Fat_Dir
begin

text \<open>
  Files of a FAT volume (\<open>src/crates/remanence/src/filesystem/fat.rs\<close>): whole and partial reads,
  writes in place, resizing, whole-file writes and the creation of directories. Every operation
  that writes validates first, so the state it returns with a refusal found by its checks is the
  state it was given.
\<close>

section \<open>Reading\<close>

fun read_clusters :: "fat_volume \<Rightarrow> bytes \<Rightarrow> nat \<Rightarrow> bytes \<Rightarrow> nat list \<Rightarrow> bytes result" where
  "read_clusters v d sz out [] = Inr out"
| "read_clusters v d sz out (c # cs) =
     (let n = min (cluster_bytes (vol_bpb v)) (sz - length out)
      in rbind (image_read d (cluster_offset v c) n) (\<lambda>chunk.
           let out' = out @ chunk
           in if length out' \<ge> sz then Inr out' else read_clusters v d sz out' cs))"

definition read_file :: "fat_volume \<Rightarrow> bytes \<Rightarrow> ustring list \<Rightarrow> bytes result" where
  "read_file v d segments =
     rbind (locate v d segments) (\<lambda>l.
       if is_dir l then Inl fat_is_directory
       else rbind (if located_size l > 0 \<and> first_cluster l \<ge> 2
                   then rbind (chain v d (first_cluster l))
                          (\<lambda>cs. read_clusters v d (located_size l) [] cs)
                   else Inr []) (\<lambda>out.
              if length out < located_size l then Inl fat_invalid else Inr out))"

text \<open>
  The pieces of a span, cluster by cluster: the index in the chain, and where the piece starts
  and ends in the file.
\<close>

definition piece_from :: "fat_volume \<Rightarrow> nat \<Rightarrow> nat \<Rightarrow> nat" where
  "piece_from v offset index = max (index * cluster_bytes (vol_bpb v)) offset"

definition piece_to :: "fat_volume \<Rightarrow> nat \<Rightarrow> nat \<Rightarrow> nat" where
  "piece_to v e index = min (index * cluster_bytes (vol_bpb v) + cluster_bytes (vol_bpb v)) e"

definition piece_at :: "fat_volume \<Rightarrow> nat list \<Rightarrow> nat \<Rightarrow> nat \<Rightarrow> nat" where
  "piece_at v cs offset index = cluster_offset v (cs ! index)
     + (piece_from v offset index - index * cluster_bytes (vol_bpb v))"

definition span_range :: "fat_volume \<Rightarrow> nat list \<Rightarrow> nat \<Rightarrow> nat \<Rightarrow> nat list result" where
  "span_range v cs offset len =
     (let first_index = offset div cluster_bytes (vol_bpb v);
          last_index = (offset + len - 1) div cluster_bytes (vol_bpb v)
      in if last_index \<ge> length cs then Inl fat_invalid else Inr [first_index..<Suc last_index])"

definition read_file_at ::
  "fat_volume \<Rightarrow> bytes \<Rightarrow> ustring list \<Rightarrow> nat \<Rightarrow> nat \<Rightarrow> bytes result" where
  "read_file_at v d segments offset len =
     rbind (locate v d segments) (\<lambda>l.
       if is_dir l then Inl fat_is_directory
       else if offset + len > located_size l then Inl fat_io
       else if len = 0 then Inr []
       else rbind (chain v d (first_cluster l)) (\<lambda>cs.
            rbind (span_range v cs offset len) (\<lambda>indices.
            rbind (rmap (\<lambda>i. image_read d (piece_at v cs offset i)
                      (piece_to v (offset + len) i - piece_from v offset i)) indices) (\<lambda>pieces.
              Inr (concat pieces)))))"

section \<open>Writing in place\<close>

fun write_pieces ::
  "fat_volume \<Rightarrow> nat list \<Rightarrow> nat \<Rightarrow> bytes \<Rightarrow> nat list \<Rightarrow> bytes \<Rightarrow> bytes \<times> unit result" where
  "write_pieces v cs offset bs [] d = (d, Inr ())"
| "write_pieces v cs offset bs (i # is) d =
     sbind (image_write d (piece_at v cs offset i)
              (slice (piece_from v offset i - offset)
                 (piece_to v (offset + length bs) i - piece_from v offset i) bs))
       (\<lambda>d' _. write_pieces v cs offset bs is d')"

definition write_file_at ::
  "(nat \<Rightarrow> nat) \<Rightarrow> fat_volume \<Rightarrow> bytes \<Rightarrow> ustring list \<Rightarrow> nat \<Rightarrow> bytes \<Rightarrow> bytes \<times> unit result" where
  "write_file_at clock v d segments offset bs =
     sbind (d, locate v d segments) (\<lambda>d l.
       if is_dir l then (d, Inl fat_is_directory)
       else if offset + length bs > located_size l then (d, Inl fat_io)
       else if bs = [] then (d, Inr ())
       else sbind (d, chain v d (first_cluster l)) (\<lambda>d cs.
            sbind (d, span_range v cs offset (length bs)) (\<lambda>d indices.
            sbind (write_pieces v cs offset bs indices d) (\<lambda>d' _.
              case timestamp (clock (record_offset l)) of (date, time) \<Rightarrow>
                sbind (image_write d' (record_offset l + 22) (le_bytes 2 (unat time))) (\<lambda>d'' _.
                  image_write d'' (record_offset l + 24) (le_bytes 2 (unat date)))))))"

section \<open>Linking clusters\<close>

fun release_clusters :: "fat_volume \<Rightarrow> nat list \<Rightarrow> bytes \<Rightarrow> bytes \<times> unit result" where
  "release_clusters v [] d = (d, Inr ())"
| "release_clusters v (c # cs) d =
     sbind (set_fat_entry v d c 0) (\<lambda>d' _. release_clusters v cs d')"

fun link_chain :: "fat_volume \<Rightarrow> nat list \<Rightarrow> bytes \<Rightarrow> bytes \<times> unit result" where
  "link_chain v [] d = (d, Inr ())"
| "link_chain v (c # cs) d =
     sbind (set_fat_entry v d c (case cs of [] \<Rightarrow> end_marker v | next # _ \<Rightarrow> next))
       (\<lambda>d' _. link_chain v cs d')"

fun zero_clusters :: "fat_volume \<Rightarrow> nat list \<Rightarrow> bytes \<Rightarrow> bytes \<times> unit result" where
  "zero_clusters v [] d = (d, Inr ())"
| "zero_clusters v (c # cs) d =
     sbind (image_write d (cluster_offset v c) (replicate (cluster_bytes (vol_bpb v)) 0))
       (\<lambda>d' _. zero_clusters v cs d')"

definition grow_directory :: "fat_volume \<Rightarrow> bytes \<Rightarrow> nat \<Rightarrow> bytes \<times> nat result" where
  "grow_directory v d parent =
     sbind (d, claim_clusters v d 1) (\<lambda>d free.
     sbind (d, chain v d parent) (\<lambda>d cs.
       if cs = [] then (d, Inl fat_invalid)
       else sbind (set_fat_entry v d (List.last cs) (hd free)) (\<lambda>d _.
            sbind (set_fat_entry v d (hd free) (end_marker v)) (\<lambda>d _.
            sbind (image_write d (cluster_offset v (hd free))
                     (replicate (cluster_bytes (vol_bpb v)) 0)) (\<lambda>d _.
              (d, Inr (cluster_offset v (hd free))))))))"

definition take_slot :: "fat_volume \<Rightarrow> bytes \<Rightarrow> nat \<Rightarrow> nat option \<Rightarrow> bytes \<times> nat result" where
  "take_slot v d parent slot =
     (case slot of Some at \<Rightarrow> (d, Inr at) | None \<Rightarrow> grow_directory v d parent)"

definition growth :: "nat option \<Rightarrow> nat" where
  "growth slot = (if slot = None then 1 else 0)"

text \<open>
  What the entry of a leaf amounts to: the chain and the size of the file it replaces, and the
  slot of its record.
\<close>

definition old_contents ::
  "fat_volume \<Rightarrow> bytes \<Rightarrow> nat \<Rightarrow> ustring \<Rightarrow> (nat list \<times> nat \<times> nat option) result" where
  "old_contents v d parent leaf =
     rbind (entries_of v d parent) (\<lambda>es.
       case named leaf es of
         Some (e, l) \<Rightarrow>
           if entry_kind e = DirectoryEntry then Inl fat_is_directory
           else rbind (if first_cluster l \<ge> 2 then chain v d (first_cluster l) else Inr []) (\<lambda>cs.
                  Inr (cs, located_size l, Some (record_offset l)))
       | None \<Rightarrow> rbind (find_free_record v d parent) (\<lambda>slot. Inr ([], 0, slot)))"

section \<open>Resizing\<close>

definition grow_chain ::
  "fat_volume \<Rightarrow> nat list \<Rightarrow> nat \<Rightarrow> nat \<Rightarrow> bytes \<Rightarrow> bytes \<times> nat list result" where
  "grow_chain v kept old_size needed d =
     (if length kept < needed then
        sbind (d, claim_clusters v d (needed - length kept)) (\<lambda>d new.
        sbind (zero_clusters v new d) (\<lambda>d _.
          let tail = old_size mod cluster_bytes (vol_bpb v)
          in if tail \<noteq> 0 \<and> kept \<noteq> []
             then sbind (image_write d (cluster_offset v (List.last kept) + tail)
                           (replicate (cluster_bytes (vol_bpb v) - tail) 0))
                    (\<lambda>d _. (d, Inr (kept @ new)))
             else (d, Inr (kept @ new))))
      else (d, Inr kept))"

definition resize_file ::
  "(nat \<Rightarrow> nat) \<Rightarrow> fat_volume \<Rightarrow> bytes \<Rightarrow> ustring list \<Rightarrow> nat \<Rightarrow> bytes \<times> unit result" where
  "resize_file clock v d segments sz =
     sbind (d, walk_to_parent v d segments) (\<lambda>d (parent, leaf).
     sbind (d, store leaf) (\<lambda>d raw_name.
     sbind (d, old_contents v d parent leaf) (\<lambda>d (old_chain, old_size, slot).
       if growth slot \<noteq> 0 \<and> parent = 0 then (d, Inl fat_no_space)
       else let needed = div_ceil sz (cluster_bytes (vol_bpb v));
                kept = min (length old_chain) needed;
                more = needed - kept + growth slot
            in sbind (d, if needed > kept
                         then rbind (free_cluster_count v d more) (\<lambda>free.
                                if free < more then Inl fat_no_space else Inr ())
                         else Inr ()) (\<lambda>d _.
               sbind (release_clusters v (drop kept old_chain) d) (\<lambda>d _.
               sbind (take_slot v d parent slot) (\<lambda>d at.
               sbind (grow_chain v (take kept old_chain) old_size needed d) (\<lambda>d cs.
               sbind (link_chain v cs d) (\<lambda>d _.
                 write_record clock d at raw_name 0x20 (case cs of [] \<Rightarrow> 0 | c # _ \<Rightarrow> c)
                   sz))))))))"

section \<open>Whole-file writes\<close>

fun write_contents :: "fat_volume \<Rightarrow> nat list \<Rightarrow> bytes \<Rightarrow> bytes \<Rightarrow> bytes \<times> unit result" where
  "write_contents v [] contents d = (d, Inr ())"
| "write_contents v (c # cs) contents d =
     (let cb = cluster_bytes (vol_bpb v); chunk = take cb contents
      in sbind (set_fat_entry v d c (case cs of [] \<Rightarrow> end_marker v | next # _ \<Rightarrow> next)) (\<lambda>d _.
         sbind (image_write d (cluster_offset v c) (chunk @ replicate (cb - length chunk) 0))
           (\<lambda>d _. write_contents v cs (drop cb contents) d)))"

definition write_file ::
  "(nat \<Rightarrow> nat) \<Rightarrow> fat_volume \<Rightarrow> bytes \<Rightarrow> ustring list \<Rightarrow> bytes \<Rightarrow> bytes \<times> unit result" where
  "write_file clock v d segments contents =
     sbind (d, walk_to_parent v d segments) (\<lambda>d (parent, leaf).
     sbind (d, store leaf) (\<lambda>d raw_name.
     sbind (d, old_contents v d parent leaf) (\<lambda>d (old_chain, _, slot).
       if growth slot \<noteq> 0 \<and> parent = 0 then (d, Inl fat_no_space)
       else let needed = div_ceil (length contents) (cluster_bytes (vol_bpb v))
            in sbind (d, free_cluster_count v d (needed + growth slot)) (\<lambda>d free.
                 if free + length old_chain < needed + growth slot then (d, Inl fat_no_space)
                 else sbind (release_clusters v old_chain d) (\<lambda>d _.
                      sbind (take_slot v d parent slot) (\<lambda>d at.
                      sbind (d, claim_clusters v d needed) (\<lambda>d cs.
                      sbind (write_contents v cs contents d) (\<lambda>d _.
                        write_record clock d at raw_name 0x20 (case cs of [] \<Rightarrow> 0 | c # _ \<Rightarrow> c)
                          (length contents)))))))))"

section \<open>Creating directories\<close>

definition create_directory ::
  "(nat \<Rightarrow> nat) \<Rightarrow> fat_volume \<Rightarrow> bytes \<Rightarrow> nat \<Rightarrow> nat \<Rightarrow> bytes \<Rightarrow> bytes \<times> nat result" where
  "create_directory clock v d parent slot raw_name =
     sbind (d, claim_clusters v d 1) (\<lambda>d free.
       let cluster = hd free; offset = cluster_offset v cluster
       in sbind (set_fat_entry v d cluster (end_marker v)) (\<lambda>d _.
          sbind (image_write d offset (replicate (cluster_bytes (vol_bpb v)) 0)) (\<lambda>d _.
          sbind (write_record clock d offset (0x2E # replicate 10 0x20) ATTR_DIRECTORY cluster 0)
            (\<lambda>d _.
          sbind (write_record clock d (offset + RECORD) (0x2E # 0x2E # replicate 9 0x20)
                   ATTR_DIRECTORY parent 0) (\<lambda>d _.
          sbind (write_record clock d slot raw_name ATTR_DIRECTORY cluster 0) (\<lambda>d _.
            (d, Inr cluster)))))))"

fun walk_existing :: "fat_volume \<Rightarrow> bytes \<Rightarrow> nat \<Rightarrow> ustring list \<Rightarrow> (nat \<times> ustring list) result" where
  "walk_existing v d current [] = Inr (current, [])"
| "walk_existing v d current (name # names) =
     rbind (entries_of v d current) (\<lambda>es.
       case named name es of
         Some (e, l) \<Rightarrow>
           if entry_kind e \<noteq> DirectoryEntry then Inl fat_not_directory
           else walk_existing v d (first_cluster l) names
       | None \<Rightarrow> Inr (current, name # names))"

text \<open>Every directory after the first is recorded in the third record of the one before it.\<close>

fun make_rest :: "(nat \<Rightarrow> nat) \<Rightarrow> fat_volume \<Rightarrow> nat \<Rightarrow> bytes list \<Rightarrow> bytes \<Rightarrow> bytes \<times> unit result" where
  "make_rest clock v current [] d = (d, Inr ())"
| "make_rest clock v current (raw # raws) d =
     sbind (create_directory clock v d current (cluster_offset v current + 2 * RECORD) raw)
       (\<lambda>d' cluster. make_rest clock v cluster raws d')"

definition make_directory ::
  "(nat \<Rightarrow> nat) \<Rightarrow> fat_volume \<Rightarrow> bytes \<Rightarrow> ustring list \<Rightarrow> bytes \<times> unit result" where
  "make_directory clock v d segments =
     sbind (d, walk_existing v d 0 segments) (\<lambda>d (current, missing).
       if missing = [] then (d, Inr ())
       else sbind (d, rmap store missing) (\<lambda>d raws.
            sbind (d, find_free_record v d current) (\<lambda>d slot.
              if growth slot \<noteq> 0 \<and> current = 0 then (d, Inl fat_no_space)
              else let needed = length missing + growth slot
                   in sbind (d, free_cluster_count v d needed) (\<lambda>d free.
                        if free < needed then (d, Inl fat_no_space)
                        else sbind (take_slot v d current slot) (\<lambda>d at.
                             sbind (create_directory clock v d current at (hd raws)) (\<lambda>d cluster.
                               make_rest clock v cluster (tl raws) d))))))"

end
