(* ===== verification/Fat_Table.thy ===== *)
theory Fat_Table
  imports Fat
begin

text \<open>
  The laws of the allocation table. A copy of the table is a string of bits of which every cluster
  owns its own run, twelve or sixteen wide, so an update of one entry is seen by that entry alone
  although two FAT12 entries share a byte. A walk succeeds exactly on the finite paths of the
  table.
\<close>

section \<open>Bits of a byte string\<close>

definition tbit :: "bytes \<Rightarrow> nat \<Rightarrow> nat \<Rightarrow> bool" where
  "tbit d t j = bit (d ! (t + j div 8)) (j mod 8)"

lemma bit_unat_u8: "bit (unat (w :: u8)) i \<longleftrightarrow> bit w i"
  by (simp add: bit_unsigned_iff)

lemma bit_le_nat: "bit (le_nat bs) i \<longleftrightarrow> i div 8 < length bs \<and> bit (bs ! (i div 8)) (i mod 8)"
proof (induction bs arbitrary: i)
  case (Cons b bs)
  have lt: "unat b < 2 ^ 8" using unsigned_less [of b] by simp
  have "le_nat (b # bs) = unat b OR push_bit 8 (le_nat bs)"
  proof -
    have "unat b + push_bit 8 (le_nat bs) = unat b OR push_bit 8 (le_nat bs)"
    proof (rule disjunctive_add)
      fix n
      show "\<not> bit (unat b) n \<or> \<not> bit (push_bit 8 (le_nat bs)) n"
        using bit_imp_le_length [of b n] by (auto simp: bit_push_bit_iff bit_unat_u8)
    qed
    then show ?thesis by (simp add: push_bit_eq_mult)
  qed
  then have "bit (le_nat (b # bs)) i \<longleftrightarrow> bit b i \<or> 8 \<le> i \<and> bit (le_nat bs) (i - 8)"
    by (simp add: bit_or_iff bit_push_bit_iff bit_unat_u8)
  also have "\<dots> \<longleftrightarrow> i div 8 < length (b # bs) \<and> bit ((b # bs) ! (i div 8)) (i mod 8)"
  proof (cases "i < 8")
    case False
    then have "i div 8 = Suc ((i - 8) div 8)" "i mod 8 = (i - 8) mod 8"
      by (simp_all add: div_if mod_if)
    then show ?thesis using False bit_imp_le_length [of b i] by (auto simp: Cons)
  qed (simp add: Cons)
  finally show ?case .
qed simp

lemma bit_pair:
  assumes "a + 2 \<le> length d"
  shows "bit (le_nat (slice a 2 d)) i \<longleftrightarrow> i < 16 \<and> tbit d a i"
  using assms by (auto simp: bit_le_nat tbit_def less_mult_imp_div_less)

lemma bit_le_bytes:
  "k < n \<Longrightarrow> bit (le_bytes n v ! k) i \<longleftrightarrow> i < 8 \<and> bit v (8 * k + i)"
proof (induction n arbitrary: v k)
  case (Suc n)
  show ?case
  proof (cases k)
    case 0
    then show ?thesis by (simp add: bit_of_nat_iff)
  next
    case (Suc k')
    have "v div 256 = drop_bit 8 v" by (simp add: drop_bit_eq_div)
    then show ?thesis using Suc Suc.prems Suc.IH [of k' "v div 256"]
      by (simp add: bit_drop_bit_eq ac_simps)
  qed
qed simp

lemma nth_splice_out:
  assumes "off + length ys \<le> length xs" "i < off \<or> off + length ys \<le> i"
  shows "splice off ys xs ! i = xs ! i"
  using assms by (auto simp: splice_def nth_append)

lemma table_index:
  "even c \<Longrightarrow> 8 * (c * 3 div 2) = 12 * (c :: nat)" "odd c \<Longrightarrow> 8 * (c * 3 div 2) + 4 = 12 * (c :: nat)"
  by presburger+

lemma tbit_splice:
  assumes "t + k + 2 \<le> length d"
  shows "tbit (splice (t + k) (le_bytes 2 p) d) t j \<longleftrightarrow>
    (if 8 * k \<le> j \<and> j < 8 * k + 16 then bit p (j - 8 * k) else tbit d t j)"
proof -
  have inside: "k \<le> j div 8 \<and> j div 8 < k + 2 \<longleftrightarrow> 8 * k \<le> j \<and> j < 8 * k + 16"
    by (auto simp: less_eq_div_iff_mult_less_eq div_less_iff_less_mult)
  show ?thesis
  proof (cases "8 * k \<le> j \<and> j < 8 * k + 16")
    case True
    then have "t + j div 8 < length d" "t + k \<le> t + j div 8" "t + j div 8 < t + k + 2"
      using inside assms by auto
    moreover from True have "8 * (j div 8 - k) + j mod 8 = j - 8 * k"
      using inside by (simp add: diff_mult_distrib2)
    ultimately show ?thesis
      using True assms bit_le_bytes [of "j div 8 - k" 2 p "j mod 8"]
      by (simp add: tbit_def nth_splice)
  next
    case False
    have "splice (t + k) (le_bytes 2 p) d ! (t + j div 8) = d ! (t + j div 8)"
      using False inside assms by (intro nth_splice_out) auto
    then show ?thesis using False by (auto simp: tbit_def)
  qed
qed

lemma nat_masks: "(0xfff :: nat) = mask 12" "(0xf :: nat) = mask 4"
  "(0xf000 :: nat) = push_bit 12 (mask 4)"
  by (simp_all add: mask_eq_exp_minus_1 push_bit_eq_mult)

section \<open>Entries of one copy\<close>

definition entry_width :: "fat_volume \<Rightarrow> nat" where
  "entry_width v = (case vol_kind v of Fat12 \<Rightarrow> 12 | Fat16 \<Rightarrow> 16)"

definition entry_at :: "fat_volume \<Rightarrow> nat \<Rightarrow> nat" where
  "entry_at v c = (case vol_kind v of Fat12 \<Rightarrow> c * 3 div 2 | Fat16 \<Rightarrow> c * 2)"

lemma fat_entry_bits:
  assumes "table_at v 0 + entry_at v c + 2 \<le> length d"
  obtains e where "fat_entry v d c = Inr e"
    "\<And>i. bit e i \<longleftrightarrow> i < entry_width v \<and> tbit d (table_at v 0) (entry_width v * c + i)"
proof -
  let ?t = "table_at v 0" and ?p = "le_nat (slice (table_at v 0 + entry_at v c) 2 d)"
  have t: "vol_offset v + fat_offset (vol_bpb v) = ?t" by (simp add: table_at_def)
  have p: "bit ?p i \<longleftrightarrow> i < 16 \<and> tbit d ?t (8 * entry_at v c + i)" for i
    using assms by (simp add: bit_pair tbit_def add.assoc)
  show thesis
  proof (cases "vol_kind v")
    case Fat16
    then show thesis
      using that [of ?p] assms p
      by (simp add: fat_entry_def t image_read_def entry_at_def entry_width_def Let_def ac_simps)
  next
    case Fat12
    define e where "e = (if even c then ?p AND 0xfff else drop_bit 4 ?p)"
    have "fat_entry v d c = Inr e"
      using assms Fat12 by (simp add: fat_entry_def t image_read_def entry_at_def Let_def e_def)
    moreover have "bit e i \<longleftrightarrow> i < entry_width v \<and> tbit d ?t (entry_width v * c + i)" for i
    proof (cases "even c")
      case True
      then have "8 * (c * 3 div 2) = 12 * c" by (rule table_index)
      then show ?thesis
        using True Fat12 p [of i]
        by (auto simp: e_def nat_masks entry_at_def entry_width_def bit_and_iff bit_mask_iff)
    next
      case False
      then have "8 * (c * 3 div 2) + 4 = 12 * c" by (rule table_index)
      then have "8 * entry_at v c + (4 + i) = 12 * c + i" using Fat12 by (simp add: entry_at_def)
      then have "bit ?p (4 + i) \<longleftrightarrow> 4 + i < 16 \<and> tbit d ?t (12 * c + i)"
        using p [of "4 + i"] by (simp only:)
      then show ?thesis
        using False Fat12 by (simp add: e_def entry_width_def bit_drop_bit_eq)
    qed
    ultimately show thesis by (rule that)
  qed
qed

text \<open>One copy updated: the pair written back, and what it does to the bits of the copy.\<close>

definition put_entry :: "fat_volume \<Rightarrow> nat \<Rightarrow> nat \<Rightarrow> nat \<Rightarrow> bytes \<Rightarrow> bytes" where
  "put_entry v t c value d = splice (t + entry_at v c) (le_bytes 2
     (case vol_kind v of
        Fat16 \<Rightarrow> value
      | Fat12 \<Rightarrow>
          (let pair = le_nat (slice (t + entry_at v c) 2 d)
           in if even c then (pair AND 0xf000) OR (value AND 0xfff)
              else (pair AND 0x000f) OR push_bit 4 (value AND 0xfff)))) d"

lemma length_put_entry [simp]:
  "t + entry_at v c + 2 \<le> length d \<Longrightarrow> length (put_entry v t c value d) = length d"
  by (simp add: put_entry_def)

lemma nth_put_entry:
  "t + entry_at v c + 2 \<le> length d \<Longrightarrow> i < t + entry_at v c \<or> t + entry_at v c + 2 \<le> i \<Longrightarrow>
   put_entry v t c value d ! i = d ! i"
  unfolding put_entry_def by (rule nth_splice_out) auto

lemma tbit_put_entry:
  assumes "t + entry_at v c + 2 \<le> length d"
  shows "tbit (put_entry v t c value d) t j \<longleftrightarrow>
    (if entry_width v * c \<le> j \<and> j < entry_width v * c + entry_width v
     then bit value (j - entry_width v * c) else tbit d t j)"
proof (cases "vol_kind v")
  case Fat16
  then show ?thesis using assms
    by (simp add: put_entry_def entry_at_def entry_width_def tbit_splice ac_simps)
next
  case Fat12
  let ?k = "entry_at v c"
  let ?p = "le_nat (slice (t + ?k) 2 d)"
  have p: "bit ?p i \<longleftrightarrow> i < 16 \<and> tbit d t (8 * ?k + i)" for i
    using assms by (simp add: bit_pair tbit_def add.assoc)
  show ?thesis
  proof (cases "even c")
    case True
    then have k: "8 * ?k = 12 * c" using Fat12 by (simp add: entry_at_def table_index)
    have "bit ((?p AND 0xf000) OR (value AND 0xfff)) i \<longleftrightarrow>
        (if i < 12 then bit value i else tbit d t (8 * ?k + i))" if "i < 16" for i
      using that p [of i]
      by (auto simp: nat_masks bit_or_iff bit_and_iff bit_mask_iff bit_push_bit_iff)
    then show ?thesis
      using True Fat12 assms k by (auto simp: put_entry_def tbit_splice entry_width_def Let_def)
  next
    case False
    then have k: "8 * ?k + 4 = 12 * c" using Fat12 by (simp add: entry_at_def table_index)
    define q where "q = (?p AND 0x000f) OR push_bit 4 (value AND 0xfff)"
    have q: "bit q i \<longleftrightarrow> (if 4 \<le> i then bit value (i - 4) else tbit d t (8 * ?k + i))" if "i < 16" for i
      using that p [of i] unfolding q_def
      by (auto simp: nat_masks bit_or_iff bit_and_iff bit_mask_iff bit_push_bit_iff)
    have "put_entry v t c value d = splice (t + ?k) (le_bytes 2 q) d"
      using False Fat12 by (simp add: put_entry_def Let_def q_def)
    then have "tbit (put_entry v t c value d) t j \<longleftrightarrow>
        (if 8 * ?k \<le> j \<and> j < 8 * ?k + 16 then bit q (j - 8 * ?k) else tbit d t j)"
      using assms by (simp add: tbit_splice)
    also have "\<dots> \<longleftrightarrow> (if 8 * ?k + 4 \<le> j \<and> j < 8 * ?k + 16
         then bit value (j - (8 * ?k + 4)) else tbit d t j)"
      using q [of "j - 8 * ?k"] by auto
    finally have "tbit (put_entry v t c value d) t j \<longleftrightarrow> (if 8 * ?k + 4 \<le> j \<and> j < 8 * ?k + 16
         then bit value (j - (8 * ?k + 4)) else tbit d t j)" .
    then show ?thesis using k Fat12 by (auto simp: entry_width_def)
  qed
qed

section \<open>The table of a volume\<close>

text \<open>
  A volume lies whole inside its device when the device holds its sectors, its leading areas end
  inside it, and a copy of the table has an entry for every cluster.
\<close>

definition table_bytes :: "fat_volume \<Rightarrow> nat" where
  "table_bytes v = sectors_per_fat (vol_bpb v) * bytes_per_sector (vol_bpb v)"

definition volume_ok :: "fat_volume \<Rightarrow> bytes \<Rightarrow> bool" where
  "volume_ok v d \<longleftrightarrow>
     0 < bytes_per_sector (vol_bpb v) \<and> RECORD dvd bytes_per_sector (vol_bpb v) \<and>
     0 < sectors_per_cluster (vol_bpb v) \<and> 0 < fat_count (vol_bpb v) \<and>
     vol_offset v + total_sectors (vol_bpb v) * bytes_per_sector (vol_bpb v) \<le> length d \<and>
     vol_offset v + data_offset (vol_bpb v) \<le> length d \<and>
     entry_at v (max_cluster v) + 2 \<le> table_bytes v \<and>
     max_cluster v < (case vol_kind v of Fat12 \<Rightarrow> 0xff8 | Fat16 \<Rightarrow> 0xfff8)"

definition tab :: "fat_volume \<Rightarrow> bytes \<Rightarrow> nat \<Rightarrow> nat" where
  "tab v d c = (case fat_entry v d c of Inr e \<Rightarrow> e | Inl _ \<Rightarrow> 0)"

definition in_tables :: "fat_volume \<Rightarrow> nat \<Rightarrow> bool" where
  "in_tables v i \<longleftrightarrow>
     table_at v 0 \<le> i \<and> i < table_at v 0 + fat_count (vol_bpb v) * table_bytes v"

lemma table_at_eq: "table_at v k = table_at v 0 + k * table_bytes v"
  by (simp add: table_at_def table_bytes_def)

lemma entry_at_mono: "c \<le> c' \<Longrightarrow> entry_at v c \<le> entry_at v c'"
  by (simp add: entry_at_def div_le_mono split: fat_kind.splits)

lemma table_fits:
  assumes "volume_ok v d" "c \<le> max_cluster v"
  shows "entry_at v c + 2 \<le> table_bytes v"
  using assms entry_at_mono [OF assms(2), of v] by (simp add: volume_ok_def)

lemma tables_inside:
  assumes "volume_ok v d"
  shows "table_at v 0 + fat_count (vol_bpb v) * table_bytes v = vol_offset v + root_dir_offset (vol_bpb v)"
    and "vol_offset v + root_dir_offset (vol_bpb v) + root_dir_bytes (vol_bpb v) \<le> length d"
  using assms
  by (simp_all add: table_at_def table_bytes_def root_dir_offset_def volume_ok_def data_offset_def ac_simps)

lemma copy_inside:
  assumes "volume_ok v d" "c \<le> max_cluster v" "k < fat_count (vol_bpb v)"
  shows "table_at v k + entry_at v c + 2 \<le> table_at v 0 + fat_count (vol_bpb v) * table_bytes v"
    "table_at v k + entry_at v c + 2 \<le> length d"
proof -
  have "Suc k * table_bytes v \<le> fat_count (vol_bpb v) * table_bytes v"
    using assms(3) by (intro mult_le_mono1) simp
  then show "table_at v k + entry_at v c + 2 \<le> table_at v 0 + fat_count (vol_bpb v) * table_bytes v"
    using table_fits [OF assms(1,2)] table_at_eq [of v k] by simp
  then show "table_at v k + entry_at v c + 2 \<le> length d"
    using tables_inside [OF assms(1)] by linarith
qed

lemma entry_bits:
  assumes "volume_ok v d" "c \<le> max_cluster v"
  shows "fat_entry v d c = Inr (tab v d c)"
    and "bit (tab v d c) i \<longleftrightarrow> i < entry_width v \<and> tbit d (table_at v 0) (entry_width v * c + i)"
proof -
  have "0 < fat_count (vol_bpb v)" using assms(1) by (simp add: volume_ok_def)
  note in0 = copy_inside(2) [OF assms this]
  from fat_entry_bits [OF in0] obtain e where "fat_entry v d c = Inr e"
    "\<And>i. bit e i \<longleftrightarrow> i < entry_width v \<and> tbit d (table_at v 0) (entry_width v * c + i)" by blast
  then show "fat_entry v d c = Inr (tab v d c)"
    "bit (tab v d c) i \<longleftrightarrow> i < entry_width v \<and> tbit d (table_at v 0) (entry_width v * c + i)"
    by (simp_all add: tab_def)
qed

lemma put_entry_other_copy:
  assumes "t + entry_at v c + 2 \<le> length d" "t' + n \<le> t \<or> t + entry_at v c + 2 \<le> t'" "j < 8 * n"
  shows "tbit (put_entry v t c value d) t' j = tbit d t' j"
proof -
  have "j div 8 < n" using assms(3) by (simp add: less_mult_imp_div_less mult.commute)
  then have "put_entry v t c value d ! (t' + j div 8) = d ! (t' + j div 8)"
    using assms(1,2) by (intro nth_put_entry) auto
  then show ?thesis by (simp add: tbit_def)
qed

text \<open>Writing every copy in turn.\<close>

lemma set_copies_eq:
  assumes "\<forall>k\<in>set copies. table_at v k + entry_at v c + 2 \<le> length d"
  shows "set_copies v c value copies d =
    (fold (\<lambda>k. put_entry v (table_at v k) c value) copies d, Inr ())"
  using assms
proof (induction copies arbitrary: d)
  case (Cons k copies)
  let ?d = "put_entry v (table_at v k) c value d"
  have "set_copies v c value (k # copies) d = set_copies v c value copies ?d"
    using Cons.prems
    by (cases "vol_kind v") (simp_all add: put_entry_def entry_at_def image_write_def image_read_def Let_def)
  then show ?case using Cons.IH [of ?d] Cons.prems by simp
qed simp

lemma put_copies:
  fixes val :: nat and d :: bytes
  assumes "volume_ok v d" "c \<le> max_cluster v" "n \<le> fat_count (vol_bpb v)"
  defines "d' \<equiv> fold (\<lambda>k. put_entry v (table_at v k) c val) [0..<n] d"
  shows "length d' = length d" and "\<not> in_tables v i \<Longrightarrow> d' ! i = d ! i"
    and "k < fat_count (vol_bpb v) \<Longrightarrow> j < 8 * table_bytes v \<Longrightarrow>
      tbit d' (table_at v k) j \<longleftrightarrow>
        (if k < n \<and> entry_width v * c \<le> j \<and> j < entry_width v * c + entry_width v
         then bit val (j - entry_width v * c) else tbit d (table_at v k) j)"
proof -
  have "length d' = length d \<and> (\<forall>i. \<not> in_tables v i \<longrightarrow> d' ! i = d ! i) \<and>
    (\<forall>k j. k < fat_count (vol_bpb v) \<longrightarrow> j < 8 * table_bytes v \<longrightarrow>
      tbit d' (table_at v k) j =
        (if k < n \<and> entry_width v * c \<le> j \<and> j < entry_width v * c + entry_width v
         then bit val (j - entry_width v * c) else tbit d (table_at v k) j))"
    unfolding d'_def using assms(3)
  proof (induction n)
    case (Suc n)
    let ?e = "fold (\<lambda>k. put_entry v (table_at v k) c val) [0..<n] d"
    let ?e' = "put_entry v (table_at v n) c val ?e"
    have IH: "length ?e = length d" "\<forall>i. \<not> in_tables v i \<longrightarrow> ?e ! i = d ! i"
      "\<And>k j. k < fat_count (vol_bpb v) \<Longrightarrow> j < 8 * table_bytes v \<Longrightarrow> tbit ?e (table_at v k) j =
        (if k < n \<and> entry_width v * c \<le> j \<and> j < entry_width v * c + entry_width v
         then bit val (j - entry_width v * c) else tbit d (table_at v k) j)"
      using Suc by auto
    have n: "n < fat_count (vol_bpb v)" using Suc.prems by simp
    note inside = copy_inside [OF assms(1,2) n]
    have fits: "table_at v n + entry_at v c + 2 \<le> length ?e" using inside IH(1) by simp
    have "length ?e' = length d" using fits IH(1) by simp
    moreover have "?e' ! i = d ! i" if "\<not> in_tables v i" for i
    proof -
      have "i < table_at v n + entry_at v c \<or> table_at v n + entry_at v c + 2 \<le> i"
        using that inside(1) table_at_eq [of v n] by (auto simp: in_tables_def)
      then show ?thesis using nth_put_entry [OF fits] IH(2) that by simp
    qed
    moreover have "tbit ?e' (table_at v k) j =
        (if k < Suc n \<and> entry_width v * c \<le> j \<and> j < entry_width v * c + entry_width v
         then bit val (j - entry_width v * c) else tbit d (table_at v k) j)"
      if k: "k < fat_count (vol_bpb v)" and j: "j < 8 * table_bytes v" for k j
    proof (cases "k = n")
      case True
      then show ?thesis using tbit_put_entry [OF fits] IH(3) [OF k j] by simp
    next
      case False
      have "table_at v k + table_bytes v \<le> table_at v n \<or>
          table_at v n + entry_at v c + 2 \<le> table_at v k"
      proof (cases "k < n")
        case True
        then have "Suc k * table_bytes v \<le> n * table_bytes v" by (intro mult_le_mono1) simp
        then show ?thesis using table_at_eq [of v n] table_at_eq [of v k] by simp
      next
        case False
        then have "Suc n * table_bytes v \<le> k * table_bytes v"
          using \<open>k \<noteq> n\<close> by (intro mult_le_mono1) simp
        then show ?thesis
          using table_at_eq [of v n] table_at_eq [of v k] table_fits [OF assms(1,2)] by simp
      qed
      then have "tbit ?e' (table_at v k) j = tbit ?e (table_at v k) j"
        using put_entry_other_copy [OF fits _ j] by blast
      then show ?thesis using IH(3) [OF k j] False by auto
    qed
    ultimately show ?case by simp
  qed simp
  then show "length d' = length d" and "\<not> in_tables v i \<Longrightarrow> d' ! i = d ! i"
    and "k < fat_count (vol_bpb v) \<Longrightarrow> j < 8 * table_bytes v \<Longrightarrow>
      tbit d' (table_at v k) j \<longleftrightarrow>
        (if k < n \<and> entry_width v * c \<le> j \<and> j < entry_width v * c + entry_width v
         then bit val (j - entry_width v * c) else tbit d (table_at v k) j)"
    by blast+
qed

definition copies_agree :: "fat_volume \<Rightarrow> bytes \<Rightarrow> bool" where
  "copies_agree v d \<longleftrightarrow> (\<forall>k<fat_count (vol_bpb v). \<forall>j<8 * table_bytes v.
     tbit d (table_at v k) j = tbit d (table_at v 0) j)"

lemma volume_ok_cong: "volume_ok v d \<Longrightarrow> length d' = length d \<Longrightarrow> volume_ok v d'"
  by (simp add: volume_ok_def)

lemma own_run:
  assumes "i < (w :: nat)"
  shows "w * c \<le> w * c' + i \<and> w * c' + i < w * c + w \<longleftrightarrow> c' = c"
proof
  assume a: "w * c \<le> w * c' + i \<and> w * c' + i < w * c + w"
  have "(w * c' + i) div w = c'" using assms by simp
  moreover have "(w * c' + i) div w = c"
    using a by (intro div_nat_eqI) (simp_all add: mult.commute)
  ultimately show "c' = c" by simp
qed (use assms in auto)

lemma entry_run:
  assumes "entry_at v c + 2 \<le> table_bytes v" "i < entry_width v"
  shows "entry_width v * c + i < 8 * table_bytes v"
  using assms by (cases "vol_kind v"; cases "even c") (auto simp: entry_at_def entry_width_def table_index; linarith)+

lemma set_fat_entry_law:
  assumes "volume_ok v d" "c \<le> max_cluster v"
  obtains d' where "set_fat_entry v d c val = (d', Inr ())" "length d' = length d" "volume_ok v d'"
    "\<And>i. \<not> in_tables v i \<Longrightarrow> d' ! i = d ! i"
    "\<And>c'. c' \<le> max_cluster v \<Longrightarrow>
       tab v d' c' = (if c' = c then take_bit (entry_width v) val else tab v d c')"
    "copies_agree v d \<Longrightarrow> copies_agree v d'"
proof -
  let ?n = "fat_count (vol_bpb v)"
  define d' where "d' = fold (\<lambda>k. put_entry v (table_at v k) c val) [0..<?n] d"
  note put = put_copies [OF assms order_refl, where val = val, folded d'_def]
  have n: "0 < ?n" using assms(1) by (simp add: volume_ok_def)
  have ok: "volume_ok v d'" using put(1) volume_ok_cong assms(1) by blast
  have "set_fat_entry v d c val = (d', Inr ())"
    using set_copies_eq [of "[0..<?n]" v c d val] copy_inside(2) [OF assms]
    by (simp add: set_fat_entry_def d'_def)
  moreover have "tab v d' c' = (if c' = c then take_bit (entry_width v) val else tab v d c')"
    if c': "c' \<le> max_cluster v" for c'
  proof (rule bit_eqI)
    fix i
    show "bit (tab v d' c') i =
        bit (if c' = c then take_bit (entry_width v) val else tab v d c') i"
    proof (cases "i < entry_width v")
      case True
      have lt: "entry_width v * c' + i < 8 * table_bytes v"
        using entry_run [OF table_fits [OF assms(1) c'] True] .
      have "tbit d' (table_at v 0) (entry_width v * c' + i) \<longleftrightarrow>
          (if c' = c then bit val (entry_width v * c' + i - entry_width v * c)
           else tbit d (table_at v 0) (entry_width v * c' + i))"
        unfolding put(3) [OF n lt] own_run [OF True] using n by simp
      moreover have "bit (tab v d' c') i \<longleftrightarrow> tbit d' (table_at v 0) (entry_width v * c' + i)"
        unfolding entry_bits(2) [OF ok c', of i] using True by simp
      moreover have "bit (tab v d c') i \<longleftrightarrow> tbit d (table_at v 0) (entry_width v * c' + i)"
        unfolding entry_bits(2) [OF assms(1) c', of i] using True by simp
      moreover have "entry_width v * c' + i - entry_width v * c' = i" by simp
      ultimately show ?thesis using True by (cases "c' = c") (simp_all only: bit_take_bit_iff if_True if_False simp_thms)
    next
      case False
      then show ?thesis
        using entry_bits(2) [OF ok c', of i] entry_bits(2) [OF assms(1) c', of i]
        by (auto simp: bit_take_bit_iff)
    qed
  qed
  moreover have "copies_agree v d'" if "copies_agree v d"
    unfolding copies_agree_def
  proof (intro allI impI)
    fix k j assume kj: "k < ?n" "j < 8 * table_bytes v"
    have "tbit d (table_at v k) j = tbit d (table_at v 0) j"
      using that kj unfolding copies_agree_def by blast
    then show "tbit d' (table_at v k) j = tbit d' (table_at v 0) j"
      unfolding put(3) [OF kj] put(3) [OF n kj(2)] using kj(1) n by simp
  qed
  ultimately show thesis using that put(1,2) ok by blast
qed

section \<open>Walks\<close>

text \<open>The path of a chain: distinct by determinism, so the bound of the walk never cuts one off.\<close>

fun path :: "fat_volume \<Rightarrow> bytes \<Rightarrow> nat \<Rightarrow> nat list \<Rightarrow> bool" where
  "path v d a [] \<longleftrightarrow> is_end v a"
| "path v d a (c # cs) \<longleftrightarrow> a = c \<and> \<not> is_end v c \<and> 2 \<le> c \<and> c < max_cluster v \<and>
     (\<exists>next. fat_entry v d c = Inr next \<and> path v d next cs)"

lemma path_det: "path v d a cs \<Longrightarrow> path v d a cs' \<Longrightarrow> cs = cs'"
proof (induction cs arbitrary: a cs')
  case Nil
  then show ?case by (cases cs') auto
next
  case (Cons c cs)
  then show ?case by (cases cs') auto
qed

lemma path_suffix: "path v d a (xs @ c # ys) \<Longrightarrow> path v d c (c # ys)"
  by (induction xs arbitrary: a) auto

lemma path_distinct: "path v d a cs \<Longrightarrow> distinct cs"
proof (induction cs arbitrary: a)
  case (Cons c cs)
  have "c \<notin> set cs"
  proof
    assume "c \<in> set cs"
    then obtain xs ys where cs: "cs = xs @ c # ys" by (auto dest: split_list)
    then have "path v d c (c # ys)" using path_suffix [of v d a "c # xs" c ys] Cons.prems by simp
    moreover have "path v d c (c # cs)" using Cons.prems by auto
    ultimately have "c # cs = c # ys" by (rule path_det [rotated])
    then show False using cs by simp
  qed
  then show ?case using Cons by auto
qed simp

lemma path_range: "path v d a cs \<Longrightarrow> c \<in> set cs \<Longrightarrow> 2 \<le> c \<and> c < max_cluster v"
  by (induction cs arbitrary: a) auto

lemma path_length: "path v d a cs \<Longrightarrow> length cs \<le> cluster_count (vol_bpb v)"
proof -
  assume p: "path v d a cs"
  then have "set cs \<subseteq> {2..<max_cluster v}" using path_range by auto
  then have "card (set cs) \<le> card {2..<max_cluster v}" by (intro card_mono) auto
  then show ?thesis using path_distinct [OF p] by (simp add: distinct_card max_cluster_def)
qed

lemma chain_from_path:
  "chain_from v d room a = Inr cs \<longleftrightarrow> path v d a cs \<and> length cs \<le> room"
proof (induction v d room a arbitrary: cs rule: chain_from.induct)
  case (1 v d current)
  then show ?case by (cases cs) auto
next
  case (2 v d room current)
  show ?case
  proof (cases cs)
    case (Cons c ds)
    then show ?thesis
      using 2 by (auto simp: rbind_Inr_iff)
  qed (auto simp: rbind_Inr_iff)
qed

lemma chain_path: "chain v d a = Inr cs \<longleftrightarrow> path v d a cs"
  unfolding chain_def chain_from_path using path_length [of v d a cs] by (auto simp: max_cluster_def)

section \<open>A small volume\<close>

text \<open>One table of 32 bytes, two root records and three clusters of 32 bytes, all zero.\<close>

definition small_volume :: fat_volume where
  "small_volume = \<lparr>vol_offset = 0, vol_bpb = \<lparr>bytes_per_sector = 32, sectors_per_cluster = 1,
     reserved_sectors = 1, fat_count = 1, root_entries = 2, total_sectors = 7,
     sectors_per_fat = 1, sectors_per_track = 0, heads = 0, boot_label = None\<rparr>, vol_kind = Fat12\<rparr>"

definition small_device :: bytes where
  "small_device = replicate 224 0"

lemma small_ok: "volume_ok small_volume small_device"
  by (simp add: volume_ok_def small_volume_def small_device_def RECORD_def data_offset_def
      root_dir_offset_def root_dir_bytes_def fat_offset_def div_ceil_def entry_at_def
      max_cluster_def cluster_count_def table_bytes_def)

section \<open>The properties\<close>

text \<open>
  C7: Setting one entry changes that entry in every copy of the table and no other: the entries
  beside it keep their values although two FAT12 entries share a byte, no byte outside the tables
  changes, and copies that agreed still agree.
\<close>

theorem set_fat_entry_updates_one:
  assumes "volume_ok v d" "c < max_cluster v"
  shows "case set_fat_entry v d c val of
      (d', Inl e) \<Rightarrow> False
    | (d', Inr _) \<Rightarrow>
        (\<forall>c' < max_cluster v. fat_entry v d' c' =
           (if c' = c then Inr (val mod 2 ^ entry_width v) else fat_entry v d c')) \<and>
        (\<forall>i. \<not> in_tables v i \<longrightarrow> d' ! i = d ! i) \<and> length d' = length d \<and>
        (copies_agree v d \<longrightarrow> copies_agree v d')"
proof (rule set_fat_entry_law [OF assms(1) less_imp_le [OF assms(2)], where val = val])
  fix d'
  assume d': "set_fat_entry v d c val = (d', Inr ())" "length d' = length d" "volume_ok v d'"
    "\<And>i. \<not> in_tables v i \<Longrightarrow> d' ! i = d ! i"
    "\<And>c'. c' \<le> max_cluster v \<Longrightarrow>
       tab v d' c' = (if c' = c then take_bit (entry_width v) val else tab v d c')"
    "copies_agree v d \<Longrightarrow> copies_agree v d'"
  have "fat_entry v d' c' = (if c' = c then Inr (val mod 2 ^ entry_width v) else fat_entry v d c')"
    if "c' < max_cluster v" for c'
    using that d'(5) [of c'] entry_bits(1) [OF d'(3), of c'] entry_bits(1) [OF assms(1), of c']
    by (simp add: take_bit_eq_mod)
  then show ?thesis using d' by simp
qed

lemma set_fat_entry_updates_one_witness:
  "case set_fat_entry small_volume small_device 3 0x123 of
      (d', Inl e) \<Rightarrow> False
    | (d', Inr _) \<Rightarrow> fat_entry small_volume d' 3 = Inr 0x123 \<and>
        fat_entry small_volume d' 2 = fat_entry small_volume small_device 2 \<and>
        fat_entry small_volume d' 4 = fat_entry small_volume small_device 4"
proof -
  have "max_cluster small_volume = 5"
    by (simp add: max_cluster_def cluster_count_def small_volume_def data_offset_def
        root_dir_offset_def root_dir_bytes_def fat_offset_def div_ceil_def RECORD_def)
  moreover have "entry_width small_volume = 12" by (simp add: entry_width_def small_volume_def)
  ultimately show ?thesis
    using set_fat_entry_updates_one [OF small_ok, of 3 "0x123"]
    by (auto split: prod.splits sum.splits)
qed

text \<open>
  C8: The walk of a chain is total and exact: it succeeds on precisely the finite paths of the
  table through clusters of the volume to an end mark, which never visit a cluster twice; every
  other start, a loop among them, is refused.
\<close>

theorem chain_is_path:
  "chain v d first = Inr cs \<longleftrightarrow>
     path v d first cs \<and> distinct cs \<and> length cs \<le> cluster_count (vol_bpb v)"
  using chain_path path_distinct path_length by blast

end
