(* ===== verification/Fat_Space.thy ===== *)
theory Fat_Space
  imports Fat_Table Fat_File
begin

text \<open>
  The areas of a volume and what the writers do to them: free clusters are the zero entries of the
  table, releasing and linking change the table alone, and the writing of a cluster changes that
  cluster alone.
\<close>

section \<open>Areas\<close>

definition in_cluster :: "fat_volume \<Rightarrow> nat \<Rightarrow> nat \<Rightarrow> bool" where
  "in_cluster v c i \<longleftrightarrow> cluster_offset v c \<le> i \<and> i < cluster_offset v c + cluster_bytes (vol_bpb v)"

definition cluster_data :: "fat_volume \<Rightarrow> bytes \<Rightarrow> nat \<Rightarrow> bytes" where
  "cluster_data v d c = slice (cluster_offset v c) (cluster_bytes (vol_bpb v)) d"

definition a_cluster :: "fat_volume \<Rightarrow> nat \<Rightarrow> bool" where
  "a_cluster v c \<longleftrightarrow> 2 \<le> c \<and> c < max_cluster v"

lemma data_offset_multiple: "bytes_per_sector b dvd data_offset b"
  by (simp add: data_offset_def root_dir_offset_def fat_offset_def root_dir_bytes_def)

lemma cluster_bytes_pos: "volume_ok v d \<Longrightarrow> 0 < cluster_bytes (vol_bpb v)"
  by (simp add: volume_ok_def cluster_bytes_def)

lemma cluster_inside:
  assumes "volume_ok v d" "a_cluster v c"
  shows "cluster_offset v c + cluster_bytes (vol_bpb v) \<le> length d"
proof -
  let ?b = "vol_bpb v"
  let ?s = "bytes_per_sector ?b" and ?n = "cluster_count ?b"
  have c: "c - 2 < ?n" using assms(2) by (auto simp: a_cluster_def max_cluster_def)
  then have "Suc (c - 2) * cluster_bytes ?b \<le> ?n * cluster_bytes ?b" by (intro mult_le_mono1) simp
  also have "?n * cluster_bytes ?b = (?n * sectors_per_cluster ?b) * ?s"
    by (simp add: cluster_bytes_def)
  also have "\<dots> \<le> (total_sectors ?b - data_offset ?b div ?s) * ?s"
    unfolding cluster_count_def by (intro mult_le_mono1) simp
  also have "\<dots> = total_sectors ?b * ?s - data_offset ?b"
    using data_offset_multiple [of ?b] by (simp add: diff_mult_distrib)
  finally have le: "Suc (c - 2) * cluster_bytes ?b \<le> total_sectors ?b * ?s - data_offset ?b" .
  moreover have "0 < Suc (c - 2) * cluster_bytes ?b" using cluster_bytes_pos [OF assms(1)] by simp
  ultimately have "data_offset ?b + Suc (c - 2) * cluster_bytes ?b \<le> total_sectors ?b * ?s"
    by linarith
  then show ?thesis using assms(1) by (simp add: volume_ok_def cluster_offset_def)
qed

lemma clusters_apart:
  assumes "a_cluster v c" "a_cluster v c'" "c \<noteq> c'"
  shows "cluster_offset v c + cluster_bytes (vol_bpb v) \<le> cluster_offset v c' \<or>
    cluster_offset v c' + cluster_bytes (vol_bpb v) \<le> cluster_offset v c"
proof -
  have "Suc (c - 2) * k \<le> (c' - 2) * k \<or> Suc (c' - 2) * k \<le> (c - 2) * k" for k :: nat
    using assms unfolding a_cluster_def by (metis Suc_leI diff_is_0_eq diff_less_mono linorder_neqE_nat mult_le_mono1 nat_le_linear)
  from this [of "cluster_bytes (vol_bpb v)"] show ?thesis by (auto simp: cluster_offset_def)
qed

lemma in_cluster_unique: "a_cluster v c \<Longrightarrow> a_cluster v c' \<Longrightarrow> in_cluster v c i \<Longrightarrow> in_cluster v c' i \<Longrightarrow> c = c'"
  using clusters_apart [of v c c'] by (force simp: in_cluster_def)

lemma tables_before:
  assumes "volume_ok v d" "in_tables v i"
  shows "i < vol_offset v + root_dir_offset (vol_bpb v)" "\<not> in_cluster v c i"
  using assms tables_inside(1) [OF assms(1)]
  by (auto simp: in_tables_def in_cluster_def cluster_offset_def data_offset_def)

lemma root_before:
  "i < vol_offset v + root_dir_offset (vol_bpb v) + root_dir_bytes (vol_bpb v) \<Longrightarrow> \<not> in_cluster v c i"
  by (auto simp: in_cluster_def cluster_offset_def data_offset_def)

lemma root_records_inside:
  "0 < bytes_per_sector b \<Longrightarrow> root_entries b * RECORD \<le> root_dir_bytes b"
  by (auto simp: root_dir_bytes_def div_ceil_def) (metis div_mult_mod_eq add.commute add_le_cancel_left less_imp_le mod_less_divisor)

section \<open>The table as a function\<close>

text \<open>\<open>d'\<close> is \<open>d\<close> with its table now \<open>f\<close> and nothing else changed.\<close>

definition retabled :: "fat_volume \<Rightarrow> bytes \<Rightarrow> bytes \<Rightarrow> (nat \<Rightarrow> nat) \<Rightarrow> bool" where
  "retabled v d d' f \<longleftrightarrow> length d' = length d \<and> (\<forall>i. \<not> in_tables v i \<longrightarrow> d' ! i = d ! i) \<and>
     (\<forall>c\<le>max_cluster v. tab v d' c = f c)"

lemma tab_cong:
  assumes "volume_ok v d" "length d' = length d" "\<And>i. in_tables v i \<Longrightarrow> d' ! i = d ! i" "c \<le> max_cluster v"
  shows "tab v d' c = tab v d c"
proof -
  have n: "0 < fat_count (vol_bpb v)" using assms(1) by (simp add: volume_ok_def)
  note ins = copy_inside [OF assms(1,4) n]
  have "slice (table_at v 0 + entry_at v c) 2 d' = slice (table_at v 0 + entry_at v c) 2 d"
    using ins assms(2,3) by (intro nth_equalityI) (auto simp: in_tables_def)
  then show ?thesis
    using assms(2)
    by (cases "vol_kind v")
      (simp_all add: tab_def fat_entry_def image_read_def entry_at_def table_at_def Let_def)
qed

lemma copies_agree_cong:
  assumes "\<And>i. in_tables v i \<Longrightarrow> d' ! i = d ! i" "copies_agree v d"
  shows "copies_agree v d'"
  unfolding copies_agree_def
proof (intro allI impI)
  fix k j assume k: "k < fat_count (vol_bpb v)" "j < 8 * table_bytes v"
  have same: "tbit d' (table_at v k) j = tbit d (table_at v k) j" if "k < fat_count (vol_bpb v)" for k
  proof -
    have "Suc k * table_bytes v \<le> fat_count (vol_bpb v) * table_bytes v"
      using that by (intro mult_le_mono1) simp
    moreover have "j div 8 < table_bytes v"
      using k(2) by (simp add: less_mult_imp_div_less mult.commute)
    ultimately have "in_tables v (table_at v k + j div 8)"
      using table_at_eq [of v k] by (simp add: in_tables_def)
    then show ?thesis by (simp add: tbit_def assms(1))
  qed
  have "0 < fat_count (vol_bpb v)" using k(1) by simp
  then show "tbit d' (table_at v k) j = tbit d' (table_at v 0) j"
    using same k assms(2) unfolding copies_agree_def by blast
qed

lemma path_tab:
  assumes "volume_ok v d"
  shows "path v d a (c # cs) \<longleftrightarrow> a = c \<and> \<not> is_end v c \<and> a_cluster v c \<and> path v d (tab v d c) cs"
  using entry_bits(1) [OF assms, of c] by (auto simp: a_cluster_def)

lemma not_end: "volume_ok v d \<Longrightarrow> a_cluster v c \<Longrightarrow> \<not> is_end v c"
  by (auto simp: a_cluster_def volume_ok_def is_end_def split: fat_kind.splits)

lemma path_cong:
  assumes "volume_ok v d" "volume_ok v d'" "\<And>c. c \<in> set cs \<Longrightarrow> tab v d' c = tab v d c"
  shows "path v d a cs \<Longrightarrow> path v d' a cs"
  using assms(3)
proof (induction cs arbitrary: a)
  case (Cons c cs)
  then show ?case unfolding path_tab [OF assms(1)] path_tab [OF assms(2)] by simp
qed simp

lemma path_nonzero:
  assumes "volume_ok v d" "path v d a cs" "c \<in> set cs"
  shows "tab v d c \<noteq> 0" "a_cluster v c"
proof -
  obtain xs ys where cs: "cs = xs @ c # ys" using assms(3) by (auto dest: split_list)
  then have p: "path v d (tab v d c) ys" "a_cluster v c"
    using path_suffix [of v d a xs c ys] assms(2) path_tab [OF assms(1)] by auto
  then show "a_cluster v c" by simp
  show "tab v d c \<noteq> 0"
    using p(1) by (cases ys) (auto simp: is_end_def split: fat_kind.splits)
qed

text \<open>The path a linked list of clusters makes, and any table in which it is linked.\<close>

fun links :: "fat_volume \<Rightarrow> nat list \<Rightarrow> nat \<Rightarrow> nat" where
  "links v [] c = 0"
| "links v (x # xs) c = (if c = x then (case xs of [] \<Rightarrow> end_marker v | y # _ \<Rightarrow> y) else links v xs c)"

lemma path_links:
  assumes "volume_ok v d" "list_all (a_cluster v) cs" "cs \<noteq> []" "distinct cs"
    and "\<And>c. c \<in> set cs \<Longrightarrow> tab v d c = links v cs c"
  shows "path v d (hd cs) cs"
  using assms(2-5)
proof (induction cs)
  case (Cons c cs)
  have c: "a_cluster v c" using Cons.prems by simp
  have tc: "tab v d c = (case cs of [] \<Rightarrow> end_marker v | y # _ \<Rightarrow> y)"
    using Cons.prems(4) [of c] by simp
  have "path v d (tab v d c) cs"
  proof (cases cs)
    case Nil
    then show ?thesis using tc by (simp add: is_end_def end_marker_def split: fat_kind.splits)
  next
    case (Cons y ys)
    have "tab v d x = links v cs x" if "x \<in> set cs" for x
      using Cons.prems(3) Cons.prems(4) [of x] that by auto
    then have "path v d (hd cs) cs"
      using Cons.IH Cons.prems Cons by auto
    then show ?thesis using tc Cons by simp
  qed
  then show ?case using c not_end [OF assms(1) c] path_tab [OF assms(1), of c c cs] by simp
qed simp

section \<open>Free clusters\<close>

definition free_clusters :: "fat_volume \<Rightarrow> bytes \<Rightarrow> nat list" where
  "free_clusters v d = filter (\<lambda>c. tab v d c = 0) [2..<max_cluster v]"

lemma scan_free_eq:
  assumes "volume_ok v d" "list_all (a_cluster v) cs"
  shows "scan_free v d cs n = Inr (take n (filter (\<lambda>c. tab v d c = 0) cs))"
  using assms(2)
proof (induction cs arbitrary: n)
  case (Cons c cs)
  have "fat_entry v d c = Inr (tab v d c)"
    using Cons.prems entry_bits(1) [OF assms(1), of c] by (simp add: a_cluster_def)
  then show ?case using Cons by (cases n) simp_all
qed simp

lemma scan_all: "volume_ok v d \<Longrightarrow> scan_free v d [2..<max_cluster v] n = Inr (take n (free_clusters v d))"
  by (simp add: scan_free_eq free_clusters_def list_all_iff a_cluster_def)

lemma claim_clusters_eq:
  "volume_ok v d \<Longrightarrow> claim_clusters v d n =
     (if length (free_clusters v d) < n then Inl fat_no_space else Inr (take n (free_clusters v d)))"
  by (auto simp: claim_clusters_def scan_all)

lemma free_cluster_count_eq:
  "volume_ok v d \<Longrightarrow> free_cluster_count v d n = Inr (min (length (free_clusters v d)) n)"
  by (simp add: free_cluster_count_def scan_all)

lemma free_clusters_laws: "distinct (free_clusters v d)"
  "c \<in> set (free_clusters v d) \<longleftrightarrow> a_cluster v c \<and> tab v d c = 0"
  by (auto simp: free_clusters_def a_cluster_def)

lemma claimed_laws:
  assumes "cs = take n (free_clusters v d)"
  shows "distinct cs" "list_all (a_cluster v) cs" "\<forall>c\<in>set cs. tab v d c = 0"
  using assms free_clusters_laws(2) [of _ v d] free_clusters_laws(1) [of v d]
  by (auto simp: list_all_iff dest: in_set_takeD)

section \<open>Releasing and linking\<close>

lemma retabled_set:
  assumes "volume_ok v d" "c \<le> max_cluster v"
  obtains d' where "set_fat_entry v d c val = (d', Inr ())" "volume_ok v d'"
    "retabled v d d' ((tab v d)(c := take_bit (entry_width v) val))"
    "copies_agree v d \<Longrightarrow> copies_agree v d'"
proof (rule set_fat_entry_law [OF assms, where val = val])
  fix d'
  assume "set_fat_entry v d c val = (d', Inr ())" "length d' = length d" "volume_ok v d'"
    "\<And>i. \<not> in_tables v i \<Longrightarrow> d' ! i = d ! i"
    "\<And>c'. c' \<le> max_cluster v \<Longrightarrow>
       tab v d' c' = (if c' = c then take_bit (entry_width v) val else tab v d c')"
    "copies_agree v d \<Longrightarrow> copies_agree v d'"
  then show thesis by (intro that [of d']) (simp_all add: retabled_def)
qed

lemma retabled_trans:
  assumes "retabled v d d1 f" "retabled v d1 d2 g"
  shows "retabled v d d2 g"
  using assms by (simp add: retabled_def)

lemma retabled_cong:
  "retabled v d d' f \<Longrightarrow> (\<And>c. c \<le> max_cluster v \<Longrightarrow> f c = g c) \<Longrightarrow> retabled v d d' g"
  by (simp add: retabled_def)

lemma release_clusters_eq:
  assumes "volume_ok v d" "list_all (a_cluster v) cs"
  obtains d' where "release_clusters v cs d = (d', Inr ())" "volume_ok v d'"
    "retabled v d d' (\<lambda>c. if c \<in> set cs then 0 else tab v d c)"
    "copies_agree v d \<Longrightarrow> copies_agree v d'"
  using assms
proof (induction cs arbitrary: d thesis)
  case Nil
  show ?case by (rule Nil(1) [of d]) (auto simp: retabled_def Nil)
next
  case (Cons c cs)
  have "c \<le> max_cluster v" using Cons.prems(3) by (simp add: a_cluster_def)
  from retabled_set [OF Cons.prems(2) this, of 0] obtain d1 where d1:
    "set_fat_entry v d c 0 = (d1, Inr ())" "volume_ok v d1"
    "retabled v d d1 ((tab v d)(c := 0))" "copies_agree v d \<Longrightarrow> copies_agree v d1"
    by auto
  obtain d2 where d2: "release_clusters v cs d1 = (d2, Inr ())" "volume_ok v d2"
    "retabled v d1 d2 (\<lambda>c. if c \<in> set cs then 0 else tab v d1 c)"
    "copies_agree v d1 \<Longrightarrow> copies_agree v d2"
    using Cons.IH [OF _ d1(2)] Cons.prems(3) by auto
  show ?case
  proof (rule Cons.prems(1) [of d2])
    show "release_clusters v (c # cs) d = (d2, Inr ())" using d1 d2 by simp
    show "retabled v d d2 (\<lambda>x. if x \<in> set (c # cs) then 0 else tab v d x)"
      by (rule retabled_cong [OF retabled_trans [OF d1(3) d2(3)]])
        (use d1(3) in \<open>auto simp: retabled_def\<close>)
  qed (use d1 d2 in auto)
qed

lemma free_after_release:
  assumes "volume_ok v d" "path v d a cs" "retabled v d d' (\<lambda>c. if c \<in> set cs then 0 else tab v d c)"
  shows "length (free_clusters v d') = length (free_clusters v d) + length cs"
proof -
  have "set (free_clusters v d') = set (free_clusters v d) \<union> set cs"
  proof (intro set_eqI)
    fix c
    show "c \<in> set (free_clusters v d') \<longleftrightarrow> c \<in> set (free_clusters v d) \<union> set cs"
      using assms(3) path_nonzero(2) [OF assms(1,2), of c]
      by (auto simp: free_clusters_laws retabled_def a_cluster_def)
  qed
  moreover have "set (free_clusters v d) \<inter> set cs = {}"
    using path_nonzero(1) [OF assms(1,2)] free_clusters_laws(2) [of _ v d] by blast
  ultimately have "card (set (free_clusters v d')) = card (set (free_clusters v d)) + card (set cs)"
    by (simp add: card_Un_disjoint)
  then show ?thesis
    using path_distinct [OF assms(2)] free_clusters_laws(1) by (simp add: distinct_card)
qed

section \<open>Writing the contents of a chain\<close>

lemma take_bit_entry:
  assumes "volume_ok v d" "c < max_cluster v"
  shows "take_bit (entry_width v) c = c" "take_bit (entry_width v) (end_marker v) = end_marker v"
  using assms
  by (auto simp: take_bit_nat_eq_self_iff entry_width_def end_marker_def volume_ok_def split: fat_kind.splits)

lemma nth_image_write:
  assumes "image_write d off bs = (d', Inr ())"
  shows "length d' = length d" "off + length bs \<le> length d"
    "i < off \<or> off + length bs \<le> i \<Longrightarrow> d' ! i = d ! i"
    "i < length bs \<Longrightarrow> d' ! (off + i) = bs ! i"
proof -
  have d': "d' = splice off bs d" "off + length bs \<le> length d"
    using assms by (auto simp: image_write_def split: if_splits)
  then show "length d' = length d" "off + length bs \<le> length d" by simp_all
  show "i < off \<or> off + length bs \<le> i \<Longrightarrow> d' ! i = d ! i"
    unfolding d'(1) by (rule nth_splice_out [OF d'(2)])
  show "i < length bs \<Longrightarrow> d' ! (off + i) = bs ! i"
    using d' by (simp add: nth_splice)
qed

lemma length_cluster_data:
  "volume_ok v d \<Longrightarrow> a_cluster v c \<Longrightarrow> length (cluster_data v d c) = cluster_bytes (vol_bpb v)"
  using cluster_inside [of v d c] by (simp add: cluster_data_def)

lemma cluster_data_cong:
  assumes "length d' = length d" "\<And>i. in_cluster v c i \<Longrightarrow> d' ! i = d ! i"
  shows "cluster_data v d' c = cluster_data v d c"
  unfolding cluster_data_def
proof (rule nth_equalityI)
  fix i assume "i < length (slice (cluster_offset v c) (cluster_bytes (vol_bpb v)) d')"
  then have "in_cluster v c (cluster_offset v c + i)" "i < cluster_bytes (vol_bpb v)"
    "cluster_offset v c \<le> length d"
    using assms(1) by (auto simp: in_cluster_def)
  then show "slice (cluster_offset v c) (cluster_bytes (vol_bpb v)) d' ! i =
      slice (cluster_offset v c) (cluster_bytes (vol_bpb v)) d ! i"
    using assms by (simp add: slice_def)
qed (simp add: assms(1))

lemma write_contents_eq:
  assumes "volume_ok v d" "list_all (a_cluster v) cs" "distinct cs"
  obtains d' where "write_contents v cs contents d = (d', Inr ())" "volume_ok v d'"
    "length d' = length d"
    "\<And>i. \<not> in_tables v i \<Longrightarrow> (\<And>c. c \<in> set cs \<Longrightarrow> \<not> in_cluster v c i) \<Longrightarrow> d' ! i = d ! i"
    "\<And>c. c \<le> max_cluster v \<Longrightarrow> tab v d' c = (if c \<in> set cs then links v cs c else tab v d c)"
    "length contents \<le> length cs * cluster_bytes (vol_bpb v) \<Longrightarrow>
       take (length contents) (concat (map (cluster_data v d') cs)) = contents"
    "copies_agree v d \<Longrightarrow> copies_agree v d'"
  using assms
proof (induction cs arbitrary: d contents thesis)
  case Nil
  show ?case by (rule Nil(1) [of d]) (auto simp: Nil)
next
  case (Cons c cs)
  let ?cb = "cluster_bytes (vol_bpb v)"
  let ?next = "case cs of [] \<Rightarrow> end_marker v | y # _ \<Rightarrow> y"
  define padded where "padded = take ?cb contents @ replicate (?cb - length (take ?cb contents)) 0"
  have c: "a_cluster v c" "c \<le> max_cluster v" using Cons.prems(3) by (auto simp: a_cluster_def)
  have len: "length padded = ?cb" by (simp add: padded_def)
  have "take_bit (entry_width v) ?next = ?next"
    using Cons.prems(3) take_bit_entry [OF Cons.prems(2)] c(1)
    by (cases cs) (auto simp: a_cluster_def)
  with retabled_set [OF Cons.prems(2) c(2), of ?next] obtain d1 where d1:
    "set_fat_entry v d c ?next = (d1, Inr ())" "volume_ok v d1"
    "retabled v d d1 ((tab v d)(c := ?next))" "copies_agree v d \<Longrightarrow> copies_agree v d1"
    by metis
  obtain d2 where w: "image_write d1 (cluster_offset v c) padded = (d2, Inr ())"
    using cluster_inside [OF d1(2) c(1)] by (simp add: image_write_def len)
  note w2 = nth_image_write [OF w]
  have ok2: "volume_ok v d2" using volume_ok_cong [OF d1(2) w2(1)] .
  have t2: "tab v d2 x = tab v d1 x" if "x \<le> max_cluster v" for x
  proof (rule tab_cong [OF d1(2) w2(1) _ that])
    fix i assume i: "in_tables v i"
    have "i < cluster_offset v c"
      using tables_before(1) [OF d1(2) i] by (simp add: cluster_offset_def data_offset_def)
    then show "d2 ! i = d1 ! i" by (simp add: w2(3))
  qed
  have copies2: "copies_agree v d2" if "copies_agree v d1"
  proof (rule copies_agree_cong [OF _ that])
    fix i assume i: "in_tables v i"
    have "i < cluster_offset v c"
      using tables_before(1) [OF d1(2) i] by (simp add: cluster_offset_def data_offset_def)
    then show "d2 ! i = d1 ! i" by (simp add: w2(3))
  qed
  obtain d' where d': "write_contents v cs (drop ?cb contents) d2 = (d', Inr ())" "volume_ok v d'"
    "length d' = length d2"
    "\<And>i. \<not> in_tables v i \<Longrightarrow> (\<And>c. c \<in> set cs \<Longrightarrow> \<not> in_cluster v c i) \<Longrightarrow> d' ! i = d2 ! i"
    "\<And>c. c \<le> max_cluster v \<Longrightarrow> tab v d' c = (if c \<in> set cs then links v cs c else tab v d2 c)"
    "length (drop ?cb contents) \<le> length cs * ?cb \<Longrightarrow>
       take (length (drop ?cb contents)) (concat (map (cluster_data v d') cs)) = drop ?cb contents"
    "copies_agree v d2 \<Longrightarrow> copies_agree v d'"
    using Cons.IH [OF _ ok2, of "drop ?cb contents"] Cons.prems(3,4) by auto
  have cluster: "cluster_data v d' c = padded"
  proof -
    have "cluster_data v d' c = cluster_data v d2 c"
    proof (rule cluster_data_cong [OF d'(3)])
      fix i assume i: "in_cluster v c i"
      have "\<not> in_tables v i" using tables_before(2) [OF ok2] i by blast
      moreover have "\<not> in_cluster v x i" if "x \<in> set cs" for x
        using in_cluster_unique [OF c(1) _ i, of x] Cons.prems(3,4) that by (auto simp: list_all_iff)
      ultimately show "d' ! i = d2 ! i" by (rule d'(4))
    qed
    also have "\<dots> = padded"
      using w2(1,2,4) len by (intro nth_equalityI) (simp_all add: cluster_data_def)
    finally show ?thesis .
  qed
  show ?case
  proof (rule Cons.prems(1) [of d'])
    show "write_contents v (c # cs) contents d = (d', Inr ())"
      using d1(1) w d'(1) by (simp add: Let_def padded_def)
    show "length d' = length d" using d'(3) w2(1) d1(3) by (simp add: retabled_def)
    show "d' ! i = d ! i" if "\<not> in_tables v i" "\<And>x. x \<in> set (c # cs) \<Longrightarrow> \<not> in_cluster v x i" for i
    proof -
      have "d' ! i = d2 ! i" using d'(4) that by simp
      also have "\<dots> = d1 ! i"
        using that(2) [of c] by (intro w2(3)) (auto simp: in_cluster_def len)
      finally show ?thesis using d1(3) that(1) by (simp add: retabled_def)
    qed
    show "tab v d' x = (if x \<in> set (c # cs) then links v (c # cs) x else tab v d x)"
      if "x \<le> max_cluster v" for x
      using d'(5) [OF that] t2 [OF that] d1(3) that Cons.prems(4) by (auto simp: retabled_def)
    show "take (length contents) (concat (map (cluster_data v d') (c # cs))) = contents"
      if "length contents \<le> length (c # cs) * ?cb"
    proof (cases "length contents \<le> ?cb")
      case True
      then show ?thesis by (simp add: cluster padded_def)
    next
      case False
      have "take (length contents - ?cb) (concat (map (cluster_data v d') cs)) = drop ?cb contents"
        using d'(6) that by simp
      then show ?thesis using False len
        by (simp add: cluster take_append) (simp add: padded_def)
    qed
  qed (use d' d1 copies2 in auto)
qed

lemma read_clusters_eq:
  assumes "volume_ok v d" "list_all (a_cluster v) cs" "length out < sz"
  shows "read_clusters v d sz out cs =
    Inr (out @ take (sz - length out) (concat (map (cluster_data v d) cs)))"
  using assms(2,3)
proof (induction cs arbitrary: out)
  case (Cons c cs)
  let ?cb = "cluster_bytes (vol_bpb v)"
  let ?n = "min ?cb (sz - length out)"
  have c: "a_cluster v c" using Cons.prems(1) by simp
  have read: "image_read d (cluster_offset v c) ?n = Inr (take ?n (cluster_data v d c))"
    using cluster_inside [OF assms(1) c] by (simp add: image_read_def cluster_data_def slice_def)
  have len: "length (cluster_data v d c) = ?cb" by (rule length_cluster_data [OF assms(1) c])
  show ?case
  proof (cases "sz - length out \<le> ?cb")
    case True
    then show ?thesis using read len Cons.prems(2) by (simp add: Let_def)
  next
    case False
    then show ?thesis
      using read len Cons.IH [of "out @ cluster_data v d c"] Cons.prems by (simp add: Let_def)
  qed
qed simp

end
