(* ===== verification/Fat_Write.thy ===== *)
theory Fat_Write
  imports Fat_Space
begin

text \<open>
  What the writers of a FAT volume promise: a file of the root directory reads back as it was
  written, a refusal leaves the volume as it was, and the files beside it are untouched. The
  listing of a directory is followed through the replacement of one record.
\<close>

section \<open>Replacing one record of a listing\<close>

definition rewrite :: "nat \<Rightarrow> bytes \<Rightarrow> (nat \<times> bytes) list \<Rightarrow> (nat \<times> bytes) list" where
  "rewrite at r = map (\<lambda>(a, x). (a, if a = at then r else x))"

definition live :: "bytes \<Rightarrow> bool" where
  "live r \<longleftrightarrow> r ! 0 \<noteq> FREE \<and> \<not> skipped r"

lemma rewrite_simps [simp]:
  "rewrite at r [] = []" "rewrite at r ((a, x) # rs) = (a, if a = at then r else x) # rewrite at r rs"
  by (simp_all add: rewrite_def)

lemma rewrite_absent: "at \<notin> fst ` set rs \<Longrightarrow> rewrite at r rs = rs"
  by (induction rs) auto

lemma named_simps [simp]:
  "named n [] = None"
  "named n (x # xs) = (if name_matches (entry_name (fst x)) n then Some x else named n xs)"
  by (simp_all add: named_def case_prod_unfold)

lemma named_offset: "named n (live_entries rs) = Some (e, l) \<Longrightarrow> record_offset l \<in> fst ` set rs"
  by (induction rs rule: live_entries.induct) (auto simp: record_entry_def split: if_splits)

lemma name_matches_trans:
  "name_matches a n \<Longrightarrow> name_matches a m \<Longrightarrow> name_matches b n \<Longrightarrow> name_matches b m"
  by (simp add: name_matches_def eq_ignore_ascii_case_def)

lemma named_rewrite_existing:
  assumes "distinct (map fst rs)" "named n (live_entries rs) = Some (e, l)"
    and "record_offset l = at" "live r" "name_matches (read_name r) n"
  shows "named n (live_entries (rewrite at r rs)) = Some (record_entry at r)"
  using assms
proof (induction rs rule: live_entries.induct)
  case (2 a x rs)
  have below: "at \<noteq> a" if "named n (live_entries rs) = Some (e, l)"
    using named_offset [OF that] 2(3,5) by auto
  show ?case
  proof (cases "\<not> skipped x \<and> name_matches (read_name x) n")
    case True
    then have "at = a" using 2(4,5) by (auto simp: record_entry_def split: if_splits)
    then show ?thesis using 2(6,7) by (simp add: live_def record_entry_def)
  next
    case False
    then have rest: "x ! 0 \<noteq> FREE" "named n (live_entries rs) = Some (e, l)"
      using 2(4) by (auto simp: record_entry_def split: if_splits)
    then have "named n (live_entries (rewrite at r rs)) = Some (record_entry at r)"
      using 2 by (cases "skipped x") auto
    then show ?thesis using below [OF rest(2)] False rest(1) by (auto simp: record_entry_def)
  qed
qed simp

lemma named_rewrite_new:
  assumes "distinct (map fst rs)" "named n (live_entries rs) = None"
    and "first_free rs = Some at" "live r" "name_matches (read_name r) n"
  shows "named n (live_entries (rewrite at r rs)) = Some (record_entry at r)"
  using assms
proof (induction rs rule: live_entries.induct)
  case (2 a x rs)
  have "at \<in> fst ` set rs" if "first_free rs = Some at"
    using that by (induction rs rule: first_free.induct) (auto split: if_splits)
  then show ?case
    using 2 by (auto simp: live_def record_entry_def skipped_def split: if_splits)
qed simp

lemma named_rewrite_other:
  assumes "distinct (map fst rs)" "named m (live_entries rs) = Some (e, l)"
    and "record_offset l \<noteq> at" "live r" "\<not> name_matches (read_name r) m"
  shows "named m (live_entries (rewrite at r rs)) = Some (e, l)"
  using assms
proof (induction rs rule: live_entries.induct)
  case (2 a x rs)
  have "rewrite at r rs = rs" if "a = at"
    using 2(3) that by (intro rewrite_absent) auto
  then show ?case
    using 2 by (auto simp: live_def record_entry_def split: if_splits)
qed simp

section \<open>The record written\<close>

lemma record_bytes_laws:
  fixes attrs :: u8 and seconds :: nat
  assumes "length raw = 11" "c < 65536" "n < 2 ^ 32"
  defines "r \<equiv> record_bytes raw attrs c n seconds"
  shows "length r = 32" "take 11 r = raw" "r ! 11 = attrs" "fle16 r 26 = c" "fle32 r 28 = n"
proof -
  obtain date time where t: "timestamp seconds = (date, time)" by (cases "timestamp seconds")
  define a where "a = (splice 0 raw (replicate RECORD 0))[11 := attrs]"
  have a: "length a = 32" "take 11 a = raw" "a ! 11 = attrs"
    using assms(1) by (simp_all add: a_def RECORD_def splice_def nth_append)
  define b where "b = splice 24 (le_bytes 2 (unat date)) (splice 22 (le_bytes 2 (unat time)) a)"
  have b: "length b = 32" "take 11 b = raw" "b ! 11 = attrs"
    using a by (simp_all add: b_def splice_def nth_append)
  have r: "r = splice 28 (le_bytes 4 n) (splice 26 (le_bytes 2 c) b)"
    by (simp add: r_def record_bytes_def t a_def b_def)
  show "length r = 32" "take 11 r = raw" "r ! 11 = attrs"
    using b by (simp_all add: r splice_def nth_append)
  have "fle16 r 26 = le_nat (le_bytes 2 c)"
    using b(1) by (simp add: fle16_def r slice_splice_disjoint slice_splice_same)
  then show "fle16 r 26 = c" using assms(2) by simp
  have "fle32 r 28 = le_nat (le_bytes 4 n)"
    using b(1) by (simp add: fle32_def r slice_splice_same)
  then show "fle32 r 28 = n" using assms(3) by simp
qed

lemma read_name_prefix: "take 11 r = take 11 r' \<Longrightarrow> 11 \<le> length r \<Longrightarrow> 11 \<le> length r' \<Longrightarrow> read_name r = read_name r'"
proof -
  assume h: "take 11 r = take 11 r'" "11 \<le> length r" "11 \<le> length r'"
  have "take 8 r = take 8 (take 11 r)" "take 8 r' = take 8 (take 11 r')" by simp_all
  then have "take 8 r = take 8 r'" by (simp only: h(1))
  moreover have "slice 8 3 x = drop 8 (take 11 x)" for x :: bytes by (simp add: slice_def drop_take)
  then have "slice 8 3 r = slice 8 3 r'" by (simp only: h(1))
  ultimately show ?thesis by (simp only: read_name_def)
qed

text \<open>A record a store produced is live, is a file, and is named what it was stored under.\<close>

lemma file_record:
  fixes seconds :: nat
  assumes "store name = Inr raw" "c < 65536" "n < 2 ^ 32"
  defines "r \<equiv> record_bytes raw 0x20 c n seconds"
  shows "live r" "name_matches (read_name r) m \<longleftrightarrow> name_matches (to_ascii_uppercase name) m"
    "name_matches (read_name r) name" "length r = 32"
    "record_entry at r = (\<lparr>entry_name = to_ascii_uppercase name, entry_kind = FileEntry, size_bytes = n\<rparr>,
       \<lparr>attributes = 0x20, first_cluster = c, located_size = n, record_offset = at\<rparr>)"
proof -
  note st = store_laws [OF assms(1)]
  note rb = record_bytes_laws [OF st(1) assms(2,3), where attrs = "0x20" and seconds = seconds, folded r_def]
  have name: "read_name r = to_ascii_uppercase name"
    using read_name_prefix [of r raw] rb(1,2) st(1,2) by simp
  have "r ! 0 = raw ! 0" using rb(2) by (metis nth_take zero_less_numeral)
  then have r0: "r ! 0 \<noteq> FREE" "r ! 0 \<noteq> DELETED" using st(4) by (auto simp: FREE_def)
  have "read_name r \<noteq> [46]" "read_name r \<noteq> [46, 46]" using st(5,6) name by auto
  then show "live r"
    using r0 rb(3) by (simp add: live_def skipped_def ATTR_LONG_NAME_def ATTR_VOLUME_ID_def)
  show "name_matches (read_name r) m \<longleftrightarrow> name_matches (to_ascii_uppercase name) m" by (simp add: name)
  show "name_matches (read_name r) name" using st(2,3) name by simp
  show "length r = 32" by (rule rb(1))
  show "record_entry at r = (\<lparr>entry_name = to_ascii_uppercase name, entry_kind = FileEntry, size_bytes = n\<rparr>,
       \<lparr>attributes = 0x20, first_cluster = c, located_size = n, record_offset = at\<rparr>)"
    using rb name by (simp add: record_entry_def ATTR_DIRECTORY_def)
qed

section \<open>The root directory\<close>

definition root_at :: "fat_volume \<Rightarrow> nat" where
  "root_at v = vol_offset v + root_dir_offset (vol_bpb v)"

definition root_list :: "fat_volume \<Rightarrow> bytes \<Rightarrow> (nat \<times> bytes) list" where
  "root_list v d = map (\<lambda>i. (root_at v + i * RECORD, slice (root_at v + i * RECORD) RECORD d))
     [0..<root_entries (vol_bpb v)]"

lemma root_inside:
  assumes "volume_ok v d" "i < root_entries (vol_bpb v)"
  shows "root_at v + i * RECORD + RECORD \<le> root_at v + root_dir_bytes (vol_bpb v)"
    "root_at v + i * RECORD + RECORD \<le> length d"
proof -
  have "Suc i * RECORD \<le> root_entries (vol_bpb v) * RECORD" using assms(2) by (intro mult_le_mono1) simp
  also have "\<dots> \<le> root_dir_bytes (vol_bpb v)"
    using assms(1) by (intro root_records_inside) (simp add: volume_ok_def)
  finally show "root_at v + i * RECORD + RECORD \<le> root_at v + root_dir_bytes (vol_bpb v)" by simp
  then show "root_at v + i * RECORD + RECORD \<le> length d"
    using tables_inside(2) [OF assms(1)] by (simp add: root_at_def)
qed

lemma read_root:
  assumes "volume_ok v d"
  shows "read_records v d 0 = Inr (root_list v d)"
proof -
  let ?n = "root_entries (vol_bpb v)"
  have "?n * RECORD \<le> root_dir_bytes (vol_bpb v)"
    using assms by (intro root_records_inside) (simp add: volume_ok_def)
  then have fits: "root_at v + ?n * RECORD \<le> length d"
    using tables_inside(2) [OF assms] by (simp add: root_at_def)
  have "slice (i * RECORD) RECORD (slice (root_at v) (?n * RECORD) d) = slice (root_at v + i * RECORD) RECORD d"
    if "i < ?n" for i
  proof (rule slice_slice)
    have "Suc i * RECORD \<le> ?n * RECORD" using that by (intro mult_le_mono1) simp
    then show "i * RECORD + RECORD \<le> ?n * RECORD" by simp
  qed
  then show ?thesis
    using fits by (simp add: read_records_def root_records_def push_area_def image_read_def
        root_at_def root_list_def RECORD_def)
qed

lemma distinct_root: "distinct (map fst (root_list v d))"
  by (simp add: root_list_def comp_def distinct_map inj_on_def RECORD_def)

lemma root_list_cong:
  assumes "volume_ok v d" "length d' = length d"
    and "\<And>i. root_at v \<le> i \<Longrightarrow> i < root_at v + root_dir_bytes (vol_bpb v) \<Longrightarrow> d' ! i = d ! i"
  shows "root_list v d' = root_list v d"
proof -
  have "slice (root_at v + i * RECORD) RECORD d' = slice (root_at v + i * RECORD) RECORD d"
    if "i < root_entries (vol_bpb v)" for i
    using root_inside [OF assms(1) that] assms(2,3) by (intro nth_equalityI) auto
  then show ?thesis by (simp add: root_list_def)
qed

lemma root_list_write:
  assumes "volume_ok v d" "at \<in> fst ` set (root_list v d)" "length r = 32"
  obtains d' where "image_write d at r = (d', Inr ())" "length d' = length d" "volume_ok v d'"
    "root_list v d' = rewrite at r (root_list v d)"
    "\<And>i. i < root_at v \<or> root_at v + root_dir_bytes (vol_bpb v) \<le> i \<Longrightarrow> d' ! i = d ! i"
proof -
  obtain k where k: "k < root_entries (vol_bpb v)" "at = root_at v + k * RECORD"
    using assms(2) by (auto simp: root_list_def)
  note ins = root_inside [OF assms(1) k(1)]
  have len: "at + length r \<le> length d" using ins(2) k(2) assms(3) by (simp add: RECORD_def)
  let ?d = "splice at r d"
  have "slice (root_at v + i * RECORD) RECORD ?d =
      (if root_at v + i * RECORD = at then r else slice (root_at v + i * RECORD) RECORD d)"
    if "i < root_entries (vol_bpb v)" for i
  proof (cases "i = k")
    case True
    then show ?thesis using k(2) len assms(3) by (simp add: slice_splice_same RECORD_def)
  next
    case False
    then have "i * RECORD + RECORD \<le> k * RECORD \<or> k * RECORD + RECORD \<le> i * RECORD"
      by (auto simp: RECORD_def)
    then show ?thesis
      using False k(2) len assms(3) by (subst slice_splice_disjoint) (auto simp: RECORD_def)
  qed
  then have "root_list v ?d = rewrite at r (root_list v d)"
    by (auto simp: root_list_def rewrite_def)
  moreover have "image_write d at r = (?d, Inr ())" using len by (simp add: image_write_def)
  moreover have "?d ! i = d ! i" if "i < root_at v \<or> root_at v + root_dir_bytes (vol_bpb v) \<le> i" for i
    using that len ins(1) k(2) assms(3) by (intro nth_splice_out) (auto simp: RECORD_def)
  moreover have "length ?d = length d" using len by simp
  ultimately show thesis using that volume_ok_cong [OF assms(1)] by blast
qed

section \<open>Writing a file of the root directory\<close>

lemma named_found:
  "named m (live_entries rs) = Some (e, l) \<Longrightarrow>
   \<exists>x. (record_offset l, x) \<in> set rs \<and> live x \<and> name_matches (read_name x) m"
  by (induction rs rule: live_entries.induct) (auto simp: record_entry_def live_def split: if_splits)

lemma first_free_found: "first_free rs = Some at \<Longrightarrow> \<exists>x. (at, x) \<in> set rs \<and> \<not> live x"
  by (induction rs rule: first_free.induct) (auto simp: live_def skipped_def split: if_splits)

lemma same_offset: "distinct (map fst rs) \<Longrightarrow> (a, x) \<in> set rs \<Longrightarrow> (a, y) \<in> set rs \<Longrightarrow> x = y"
  by (metis eq_key_imp_eq_value)

text \<open>
  What the validation of a write found: the chain to release and a record that may be replaced by
  one of the leaf's name.
\<close>

lemma old_contents_root:
  assumes "volume_ok v d" "old_contents v d 0 leaf = Inr (old, sz, Some at)"
  shows "old = [] \<or> (\<exists>a. path v d a old)" and "at \<in> fst ` set (root_list v d)"
    and "live r \<Longrightarrow> name_matches (read_name r) leaf \<Longrightarrow>
      named leaf (live_entries (rewrite at r (root_list v d))) = Some (record_entry at r)"
    and "live r \<Longrightarrow> \<not> name_matches (read_name r) m \<Longrightarrow> \<not> name_matches m leaf \<Longrightarrow>
      named m (live_entries (root_list v d)) = Some (e, l) \<Longrightarrow>
      named m (live_entries (rewrite at r (root_list v d))) = Some (e, l)"
    and "named leaf (live_entries (root_list v d)) = Some (e', l') \<Longrightarrow> first_cluster l' \<ge> 2 \<Longrightarrow>
      chain v d (first_cluster l') = Inr old"
    and "named leaf (live_entries (root_list v d)) = None \<Longrightarrow> old = []"
proof -
  let ?rs = "root_list v d"
  note dist = distinct_root [of v d]
  note unfolded = assms(2) [unfolded old_contents_def entries_of_def find_free_record_def
      read_root [OF assms(1)]]
  consider (existing) e l where "named leaf (live_entries ?rs) = Some (e, l)" "record_offset l = at"
      "(if first_cluster l \<ge> 2 then chain v d (first_cluster l) else Inr []) = Inr old"
    | (new) "named leaf (live_entries ?rs) = None" "first_free ?rs = Some at" "old = []"
    using unfolded by (auto simp: rbind_Inr_iff split: option.splits if_splits)
  note cases = this
  show "old = [] \<or> (\<exists>a. path v d a old)"
    using cases by cases (auto simp: chain_path split: if_splits)
  show "at \<in> fst ` set ?rs"
    using cases
  proof cases
    case existing
    then show ?thesis using named_offset by fastforce
  next
    case new
    then show ?thesis using first_free_found [OF new(2)] by force
  qed
  show "named leaf (live_entries (rewrite at r ?rs)) = Some (record_entry at r)"
    if "live r" "name_matches (read_name r) leaf"
    using cases
  proof cases
    case existing
    then show ?thesis using named_rewrite_existing [OF dist existing(1,2) that] by simp
  next
    case new
    then show ?thesis using named_rewrite_new [OF dist new(1,2) that] by simp
  qed
  show "named m (live_entries (rewrite at r ?rs)) = Some (e, l)"
    if r: "live r" "\<not> name_matches (read_name r) m" and m: "\<not> name_matches m leaf"
      and l: "named m (live_entries ?rs) = Some (e, l)"
  proof (rule named_rewrite_other [OF dist l _ r])
    obtain x where x: "(record_offset l, x) \<in> set ?rs" "live x" "name_matches (read_name x) m"
      using named_found [OF l] by blast
    show "record_offset l \<noteq> at"
      using cases
    proof cases
      case (existing e' l')
      then obtain y where y: "(at, y) \<in> set ?rs" "name_matches (read_name y) leaf"
        using named_found [OF existing(1)] by blast
      show ?thesis
      proof
        assume "record_offset l = at"
        then have "x = y" using same_offset [OF dist] x(1) y(1) by blast
        then show False
          using m x(3) y(2) by (simp add: name_matches_def eq_ignore_ascii_case_def)
      qed
    next
      case new
      then show ?thesis using first_free_found [OF new(2)] x(1,2) same_offset [OF dist] by blast
    qed
  qed
  show "named leaf (live_entries ?rs) = Some (e', l') \<Longrightarrow> first_cluster l' \<ge> 2 \<Longrightarrow>
      chain v d (first_cluster l') = Inr old"
    using cases by cases auto
  show "named leaf (live_entries ?rs) = None \<Longrightarrow> old = []"
    using cases by cases auto
qed

text \<open>
  A write to the root directory either refuses with the volume unchanged or ends in a state whose
  root directory has one record replaced, whose table links the new chain and frees the old one,
  and whose clusters outside the two are what they were.
\<close>

definition file_written ::
  "fat_volume \<Rightarrow> bytes \<Rightarrow> ustring \<Rightarrow> bytes \<Rightarrow> nat list \<Rightarrow> nat list \<Rightarrow> nat \<Rightarrow> bytes \<Rightarrow> bool" where
  "file_written v d leaf contents old new at d' \<longleftrightarrow>
     volume_ok v d' \<and> length d' = length d \<and> distinct new \<and> list_all (a_cluster v) new \<and>
     length new = div_ceil (length contents) (cluster_bytes (vol_bpb v)) \<and>
     length contents \<le> length new * cluster_bytes (vol_bpb v) \<and> (new = [] \<longrightarrow> contents = []) \<and>
     (\<forall>c\<in>set new. tab v d c = 0 \<or> c \<in> set old) \<and>
     (\<exists>sz. old_contents v d 0 leaf = Inr (old, sz, Some at)) \<and>
     (\<forall>c\<le>max_cluster v. tab v d' c = (if c \<in> set new then links v new c
        else if c \<in> set old then 0 else tab v d c)) \<and>
     take (length contents) (concat (map (cluster_data v d') new)) = contents \<and>
     (\<forall>c. a_cluster v c \<longrightarrow> c \<notin> set new \<longrightarrow> cluster_data v d' c = cluster_data v d c) \<and>
     (\<exists>raw seconds. store leaf = Inr raw \<and> root_list v d' = rewrite at
        (record_bytes raw 0x20 (case new of [] \<Rightarrow> 0 | c # _ \<Rightarrow> c) (length contents) seconds)
        (root_list v d)) \<and>
     (copies_agree v d \<longrightarrow> copies_agree v d')"

lemma root_write_state:
  assumes ok: "volume_ok v d"
    and old: "old_contents v d 0 leaf = Inr (old, sz, Some at)" and raw: "store leaf = Inr raw"
    and room: "div_ceil (length contents) (cluster_bytes (vol_bpb v)) \<le> length (free_clusters v d) + length old"
  shows "\<exists>d' new. write_file clock v d [leaf] contents = (d', Inr ()) \<and>
    file_written v d leaf contents old new at d'"
proof -
  let ?cb = "cluster_bytes (vol_bpb v)"
  let ?n = "div_ceil (length contents) ?cb"
  note root = old_contents_root [OF ok old]
  have clusters: "list_all (a_cluster v) old"
    using root(1) path_nonzero(2) [OF ok] by (auto simp: list_all_iff)
  obtain d1 where d1: "release_clusters v old d = (d1, Inr ())" "volume_ok v d1"
    "retabled v d d1 (\<lambda>c. if c \<in> set old then 0 else tab v d c)" "copies_agree v d \<Longrightarrow> copies_agree v d1"
    using release_clusters_eq [OF ok clusters] by blast
  have len1: "length d1 = length d" and same1: "\<And>i. \<not> in_tables v i \<Longrightarrow> d1 ! i = d ! i"
    and tab1: "\<And>c. c \<le> max_cluster v \<Longrightarrow> tab v d1 c = (if c \<in> set old then 0 else tab v d c)"
    using d1(3) by (simp_all add: retabled_def)
  have free: "length (free_clusters v d1) = length (free_clusters v d) + length old"
  proof (cases "old = []")
    case True
    then have "free_clusters v d1 = free_clusters v d"
      using tab1 by (auto simp: free_clusters_def intro!: filter_cong)
    then show ?thesis using True by simp
  next
    case False
    then show ?thesis using root(1) free_after_release [OF ok _ d1(3)] by blast
  qed
  define new where "new = take ?n (free_clusters v d1)"
  note new = claimed_laws [OF new_def]
  have ln: "length new = ?n" using room free by (simp add: new_def)
  have claim: "claim_clusters v d1 ?n = Inr new"
    using claim_clusters_eq [OF d1(2), of ?n] room free by (simp add: new_def)
  obtain d2 where d2: "write_contents v new contents d1 = (d2, Inr ())" "volume_ok v d2" "length d2 = length d1"
    "\<And>i. \<not> in_tables v i \<Longrightarrow> (\<And>c. c \<in> set new \<Longrightarrow> \<not> in_cluster v c i) \<Longrightarrow> d2 ! i = d1 ! i"
    "\<And>c. c \<le> max_cluster v \<Longrightarrow> tab v d2 c = (if c \<in> set new then links v new c else tab v d1 c)"
    "length contents \<le> length new * ?cb \<Longrightarrow>
       take (length contents) (concat (map (cluster_data v d2) new)) = contents"
    "copies_agree v d1 \<Longrightarrow> copies_agree v d2"
    using write_contents_eq [OF d1(2) new(2,1), of contents] by blast
  have not_table: "\<not> in_tables v i" if "root_at v \<le> i" for i
    using tables_before(1) [OF ok, of i] that by (auto simp: root_at_def)
  have roots: "root_list v d2 = root_list v d"
  proof (rule root_list_cong [OF ok])
    fix i assume i: "root_at v \<le> i" "i < root_at v + root_dir_bytes (vol_bpb v)"
    then have "d2 ! i = d1 ! i" using not_table root_before [of i v] by (intro d2(4)) (auto simp: root_at_def)
    then show "d2 ! i = d ! i" using same1 not_table [OF i(1)] by simp
  qed (simp add: d2(3) len1)
  define first where "first = (case new of [] \<Rightarrow> 0 | c # _ \<Rightarrow> c)"
  define r where "r = record_bytes raw 0x20 first (length contents) (clock at)"
  have "length r = 32"
    using store_laws(1) [OF raw] by (simp add: r_def record_bytes_def RECORD_def splice_def split: prod.splits)
  moreover have "at \<in> fst ` set (root_list v d2)" using root(2) roots by simp
  ultimately obtain d' where d': "image_write d2 at r = (d', Inr ())" "length d' = length d2" "volume_ok v d'"
    "root_list v d' = rewrite at r (root_list v d)"
    "\<And>i. i < root_at v \<or> root_at v + root_dir_bytes (vol_bpb v) \<le> i \<Longrightarrow> d' ! i = d2 ! i"
    using root_list_write [OF d2(2)] roots by metis
  have tables': "d' ! i = d2 ! i" if "in_tables v i" for i
    using not_table that by (intro d'(5)) (metis not_le)
  have cluster': "cluster_data v d' c = cluster_data v d2 c" for c
    using root_before [of _ v c] by (intro cluster_data_cong [OF d'(2)] d'(5)) (auto simp: root_at_def not_less [symmetric])
  have "write_file clock v d [leaf] contents = (d', Inr ())"
    using d1(1) claim d2(1) d'(1) old raw room ok ln
    by (simp add: write_file_def walk_to_parent_def take_slot_def growth_def free_cluster_count_eq
        write_record_def r_def first_def Let_def min_def)
  moreover have "file_written v d leaf contents old new at d'"
    unfolding file_written_def
  proof (intro conjI)
    have cb: "0 < ?cb" by (rule cluster_bytes_pos [OF ok])
    have fits: "length contents \<le> ?n * ?cb"
      using cb by (auto simp: div_ceil_def)
        (metis add.commute add_le_cancel_left div_mult_mod_eq less_imp_le mod_less_divisor)
    show "length contents \<le> length new * ?cb" using fits ln by simp
    show "new = [] \<longrightarrow> contents = []" using fits ln by auto
    show "take (length contents) (concat (map (cluster_data v d') new)) = contents"
    proof -
      have "map (cluster_data v d') new = map (cluster_data v d2) new" using cluster' by (intro map_cong) auto
      moreover have "take (length contents) (concat (map (cluster_data v d2) new)) = contents"
        using d2(6) fits ln by simp
      ultimately show ?thesis by (simp only:)
    qed
    show "\<forall>c\<in>set new. tab v d c = 0 \<or> c \<in> set old"
    proof
      fix c assume c: "c \<in> set new"
      then have "c \<le> max_cluster v" using new(2) by (auto simp: list_all_iff a_cluster_def)
      then show "tab v d c = 0 \<or> c \<in> set old" using tab1 [of c] new(3) c by (auto split: if_splits)
    qed
    show "\<forall>c\<le>max_cluster v. tab v d' c = (if c \<in> set new then links v new c
        else if c \<in> set old then 0 else tab v d c)"
      using tab_cong [OF d2(2) d'(2) tables'] d2(5) tab1 by simp
    show "\<forall>c. a_cluster v c \<longrightarrow> c \<notin> set new \<longrightarrow> cluster_data v d' c = cluster_data v d c"
    proof (intro allI impI)
      fix c assume c: "a_cluster v c" "c \<notin> set new"
      have "cluster_data v d2 c = cluster_data v d c"
      proof (rule cluster_data_cong)
        fix i assume i: "in_cluster v c i"
        then have out: "\<not> in_tables v i" using tables_before(2) [OF ok] by blast
        have "\<not> in_cluster v x i" if "x \<in> set new" for x
          using in_cluster_unique [OF c(1) _ i, of x] new(2) c(2) that by (auto simp: list_all_iff)
        then show "d2 ! i = d ! i" using d2(4) [OF out] same1 [OF out] by simp
      qed (simp add: d2(3) len1)
      then show "cluster_data v d' c = cluster_data v d c" using cluster' by simp
    qed
    show "copies_agree v d \<longrightarrow> copies_agree v d'"
      using d1(4) d2(7) copies_agree_cong [of v d' d2] tables' by blast
    show "\<exists>raw seconds. store leaf = Inr raw \<and> root_list v d' = rewrite at
        (record_bytes raw 0x20 (case new of [] \<Rightarrow> 0 | c # _ \<Rightarrow> c) (length contents) seconds) (root_list v d)"
      using raw d'(4) unfolding r_def first_def by blast
  qed (use new d' d2 len1 old ln in auto)
  ultimately show ?thesis by blast
qed

text \<open>What the code's checks decide, before anything is written.\<close>

lemma root_write_refused:
  assumes ok: "volume_ok v d"
    and "write_file clock v d [leaf] contents = (d', Inl e)"
  shows "d' = d"
proof (cases "store leaf")
  case (Inr raw)
  show ?thesis
  proof (cases "old_contents v d 0 leaf")
    case (Inr p)
    obtain old sz slot where p: "p = (old, sz, slot)" by (cases p)
    show ?thesis
    proof (cases slot)
      case (Some at)
      then have old: "old_contents v d 0 leaf = Inr (old, sz, Some at)" using Inr p by simp
      show ?thesis
      proof (cases "div_ceil (length contents) (cluster_bytes (vol_bpb v)) \<le>
          length (free_clusters v d) + length old")
        case True
        then show ?thesis using root_write_state [OF ok old \<open>store leaf = Inr raw\<close> True, of clock] assms(2) by auto
      next
        case False
        then show ?thesis using assms(2) old \<open>store leaf = Inr raw\<close> ok
          by (simp add: write_file_def walk_to_parent_def growth_def free_cluster_count_eq Let_def min_def
              split: if_splits)
      qed
    qed (use assms(2) Inr p \<open>store leaf = Inr raw\<close> in
        \<open>simp add: write_file_def walk_to_parent_def growth_def\<close>)
  qed (use assms(2) Inr in \<open>simp add: write_file_def walk_to_parent_def\<close>)
qed (use assms(2) in \<open>simp add: write_file_def walk_to_parent_def\<close>)

lemma root_write_done:
  assumes ok: "volume_ok v d"
    and "write_file clock v d [leaf] contents = (d', Inr ())"
  obtains old new at where "file_written v d leaf contents old new at d'"
proof -
  obtain raw where raw: "store leaf = Inr raw"
    using assms(2) by (cases "store leaf") (simp_all add: write_file_def walk_to_parent_def)
  obtain old sz slot where p: "old_contents v d 0 leaf = Inr (old, sz, slot)"
    using assms(2) raw
    by (cases "old_contents v d 0 leaf") (auto simp: write_file_def walk_to_parent_def)
  obtain at where slot: "slot = Some at"
    using assms(2) raw p
    by (cases slot) (auto simp: write_file_def walk_to_parent_def growth_def)
  have "div_ceil (length contents) (cluster_bytes (vol_bpb v)) \<le> length (free_clusters v d) + length old"
    using assms(2) raw p slot ok
    by (auto simp: write_file_def walk_to_parent_def growth_def free_cluster_count_eq Let_def min_def
        split: if_splits)
  from root_write_state [OF ok p [unfolded slot] raw this, of clock] show thesis
    using assms(2) that by auto
qed

lemma locate_root:
  "volume_ok v d \<Longrightarrow> locate v d [name] = (case named name (live_entries (root_list v d)) of
     None \<Rightarrow> Inl fat_not_found | Some (_, l) \<Rightarrow> Inr l)"
  by (simp add: locate_def walk_to_parent_def entries_of_def read_root)

lemma written_locate:
  assumes ok: "volume_ok v d" and w: "file_written v d leaf contents old new at d'"
    and short: "length contents < 2 ^ 32"
  shows "locate v d' [leaf] = Inr \<lparr>attributes = 0x20,
      first_cluster = (case new of [] \<Rightarrow> 0 | c # _ \<Rightarrow> c),
      located_size = length contents, record_offset = at\<rparr>"
    and "\<not> name_matches m leaf \<Longrightarrow> locate v d [m] = Inr l \<Longrightarrow> locate v d' [m] = Inr l"
proof -
  let ?c = "case new of [] \<Rightarrow> 0 | c # _ \<Rightarrow> c"
  obtain raw seconds where r: "store leaf = Inr raw" "root_list v d' = rewrite at
      (record_bytes raw 0x20 ?c (length contents) seconds) (root_list v d)"
    using w by (auto simp: file_written_def)
  obtain sz where old: "old_contents v d 0 leaf = Inr (old, sz, Some at)"
    using w by (auto simp: file_written_def)
  have ok': "volume_ok v d'" using w by (simp add: file_written_def)
  have "?c < 65536"
    using w ok by (cases new) (auto simp: file_written_def a_cluster_def volume_ok_def split: fat_kind.splits)
  note rec = file_record [OF r(1) this short, where seconds = seconds]
  note oc = old_contents_root [OF ok old]
  show "locate v d' [leaf] = Inr \<lparr>attributes = 0x20, first_cluster = ?c,
      located_size = length contents, record_offset = at\<rparr>"
    using oc(3) [OF rec(1,3)] rec(5) by (simp add: locate_root [OF ok'] r(2))
  show "locate v d' [m] = Inr l" if m: "\<not> name_matches m leaf" and l: "locate v d [m] = Inr l"
  proof -
    obtain e where e: "named m (live_entries (root_list v d)) = Some (e, l)"
      using l by (auto simp: locate_root [OF ok] split: option.splits)
    have "\<not> name_matches (read_name (record_bytes raw 0x20 ?c (length contents) seconds)) m"
      using m rec(3) by (auto simp: name_matches_def eq_ignore_ascii_case_def)
    then show ?thesis using oc(4) [OF rec(1) _ m e] by (simp add: locate_root [OF ok'] r(2))
  qed
qed

lemma read_located:
  assumes ok: "volume_ok v d" and l: "locate v d segs = Inr l" and f: "\<not> is_dir l"
    and c: "located_size l > 0 \<Longrightarrow> 2 \<le> first_cluster l \<and> chain v d (first_cluster l) = Inr cs"
    and len: "located_size l \<le> length cs * cluster_bytes (vol_bpb v)"
  shows "read_file v d segs = Inr (take (located_size l) (concat (map (cluster_data v d) cs)))"
proof (cases "located_size l = 0")
  case True
  then show ?thesis using l f by (simp add: read_file_def)
next
  case False
  then have p: "path v d (first_cluster l) cs" using c by (simp add: chain_path)
  then have cl: "list_all (a_cluster v) cs" using path_nonzero(2) [OF ok p] by (simp add: list_all_iff)
  have "length (concat (map (cluster_data v d) cs)) = length cs * cluster_bytes (vol_bpb v)"
    using cl by (induction cs) (simp_all add: length_cluster_data [OF ok])
  then show ?thesis
    using l f c False len read_clusters_eq [OF ok cl, of "[]" "located_size l"]
    by (simp add: read_file_def min_def)
qed

text \<open>The clusters a path's file occupies.\<close>

definition file_chain :: "fat_volume \<Rightarrow> bytes \<Rightarrow> ustring list \<Rightarrow> nat list" where
  "file_chain v d segs =
     (case locate v d segs of
        Inl e \<Rightarrow> []
      | Inr l \<Rightarrow> if first_cluster l \<ge> 2
               then (case chain v d (first_cluster l) of Inl e \<Rightarrow> [] | Inr cs \<Rightarrow> cs) else [])"

lemma old_file_chain:
  assumes "volume_ok v d" "old_contents v d 0 leaf = Inr (old, sz, Some at)"
  shows "set old \<subseteq> set (file_chain v d [leaf])"
proof (cases "named leaf (live_entries (root_list v d))")
  case None
  then show ?thesis using old_contents_root(6) [OF assms] by simp
next
  case (Some p)
  obtain e l where p: "p = (e, l)" by (cases p)
  note entry = Some [unfolded p]
  show ?thesis
  proof (cases "first_cluster l \<ge> 2")
    case True
    then show ?thesis
      using old_contents_root(5) [OF assms entry] entry
      by (simp add: file_chain_def locate_root [OF assms(1)])
  next
    case False
    then show ?thesis
      using assms(2) entry
      by (auto simp: old_contents_def entries_of_def read_root [OF assms(1)] split: if_splits)
  qed
qed

lemma written_reads:
  assumes ok: "volume_ok v d" and w: "file_written v d leaf contents old new at d'"
    and short: "length contents < 2 ^ 32"
  shows "read_file v d' [leaf] = Inr contents"
proof -
  note loc = written_locate(1) [OF assms]
  have ok': "volume_ok v d'" using w by (simp add: file_written_def)
  show ?thesis
  proof (cases "new = []")
    case True
    then show ?thesis using w loc by (simp add: read_file_def is_dir_def ATTR_DIRECTORY_def file_written_def)
  next
    case False
    have "path v d' (hd new) new"
      using w False by (intro path_links [OF ok']) (auto simp: file_written_def list_all_iff a_cluster_def)
    moreover have "a_cluster v (hd new)" using w False by (cases new) (auto simp: file_written_def)
    ultimately show ?thesis
      using read_located [OF ok' loc, of new] w False
      by (cases new) (simp_all add: chain_path is_dir_def ATTR_DIRECTORY_def a_cluster_def file_written_def)
  qed
qed

section \<open>The properties\<close>

text \<open>
  C5: A file written to the root directory reads back byte for byte, whether the name is new or
  replaces a file, and the copies of the table stay in step.
\<close>

theorem write_file_reads_back:
  assumes "volume_ok v d" "length contents < 2 ^ 32"
  shows "case write_file clock v d [leaf] contents of
      (d', Inr _) \<Rightarrow> read_file v d' [leaf] = Inr contents \<and> length d' = length d \<and>
        (copies_agree v d \<longrightarrow> copies_agree v d')
    | (d', Inl e) \<Rightarrow> d' = d"
proof (cases "write_file clock v d [leaf] contents")
  case (Pair d' res)
  show ?thesis
  proof (cases res)
    case (Inl e)
    then show ?thesis using root_write_refused [OF assms(1)] Pair by simp
  next
    case (Inr u)
    then have "write_file clock v d [leaf] contents = (d', Inr ())" using Pair by simp
    then obtain old new at where w: "file_written v d leaf contents old new at d'"
      by (rule root_write_done [OF assms(1)])
    show ?thesis using written_reads [OF assms(1) w assms(2)] w Pair Inr by (simp add: file_written_def)
  qed
qed

text \<open>
  C6: Writing one file of the root directory leaves every other file of it reading as before, as
  long as the two share no cluster.
\<close>

theorem write_file_spares_others:
  assumes ok: "volume_ok v d" and short: "length contents < 2 ^ 32"
    and other: "\<not> name_matches m leaf" "read_file v d [m] = Inr bs"
    and apart: "set (file_chain v d [m]) \<inter> set (file_chain v d [leaf]) = {}"
    and finished: "write_file clock v d [leaf] contents = (d', Inr ())"
  shows "read_file v d' [m] = Inr bs"
proof -
  obtain old new at where w: "file_written v d leaf contents old new at d'"
    by (rule root_write_done [OF ok finished])
  have ok': "volume_ok v d'" using w by (simp add: file_written_def)
  obtain sz where "old_contents v d 0 leaf = Inr (old, sz, Some at)"
    using w by (auto simp: file_written_def)
  note old = old_file_chain [OF ok this]
  obtain l where l: "locate v d [m] = Inr l" "\<not> is_dir l"
    using other(2) by (auto simp: read_file_def rbind_Inr_iff split: if_splits)
  note l' = written_locate(2) [OF ok w short other(1) l(1)]
  show ?thesis
  proof (cases "located_size l > 0 \<and> first_cluster l \<ge> 2")
    case True
    then obtain cs where cs: "chain v d (first_cluster l) = Inr cs"
      using other(2) l by (auto simp: read_file_def rbind_Inr_iff)
    then have p: "path v d (first_cluster l) cs" by (simp add: chain_path)
    have fc: "file_chain v d [m] = cs" using True cs l(1) by (simp add: file_chain_def)
    have keep: "tab v d' c = tab v d c \<and> cluster_data v d' c = cluster_data v d c" if "c \<in> set cs" for c
    proof -
      have "c \<notin> set old" using apart old fc that by auto
      moreover have "c \<notin> set new"
        using w path_nonzero(1) [OF ok p that] \<open>c \<notin> set old\<close> by (auto simp: file_written_def)
      ultimately show ?thesis
        using w path_nonzero(2) [OF ok p that] by (auto simp: file_written_def a_cluster_def)
    qed
    have "path v d' (first_cluster l) cs" using path_cong [OF ok ok' _ p] keep by simp
    then have cs': "chain v d' (first_cluster l) = Inr cs" by (simp add: chain_path)
    have cl: "list_all (a_cluster v) cs" using path_nonzero(2) [OF ok p] by (simp add: list_all_iff)
    have data: "map (cluster_data v d') cs = map (cluster_data v d) cs" using keep by simp
    have "read_clusters v d' (located_size l) [] cs = read_clusters v d (located_size l) [] cs"
      using True read_clusters_eq [OF ok' cl, of "[]" "located_size l"]
        read_clusters_eq [OF ok cl, of "[]" "located_size l"] by (simp add: data)
    then show ?thesis using other(2) l l' cs cs' True by (simp add: read_file_def)
  next
    case False
    then show ?thesis using other(2) l l' by (auto simp: read_file_def split: if_splits)
  qed
qed

section \<open>Writing to a small volume\<close>

lemma le_nat_zero: "le_nat (replicate n 0) = 0"
  by (induction n) auto

lemma small_free: "free_clusters small_volume small_device = [2, 3, 4]"
proof -
  have "tab small_volume small_device c = 0" if "c \<le> 4" for c
  proof -
    have "slice off n small_device = replicate n 0" if "off + n \<le> 224" for off n
      using that by (simp add: slice_def small_device_def)
    moreover have "c * 3 div 2 \<le> 6" using that by simp
    ultimately show ?thesis using that
      by (simp add: tab_def fat_entry_def image_read_def small_volume_def fat_offset_def le_nat_zero
          Let_def small_device_def)
  qed
  then show ?thesis
    by (simp add: free_clusters_def max_cluster_def cluster_count_def small_volume_def upt_rec
        data_offset_def root_dir_offset_def root_dir_bytes_def fat_offset_def div_ceil_def RECORD_def)
qed

lemma small_root: "root_list small_volume small_device = [(64, replicate 32 0), (96, replicate 32 0)]"
  by (simp add: root_list_def root_at_def small_volume_def small_device_def RECORD_def upt_rec
      root_dir_offset_def fat_offset_def slice_def)

lemma store_A: "store [65] = Inr (0x41 # replicate 10 0x20)"
  by (simp add: store_def to_ascii_uppercase_def ascii_upper_def split_once_def surrounded_def
      admits_def is_ascii_uppercase_def RESERVED_DEVICES_def codes_def pad_to_def Let_def
      flip: replicate_add)

lemma store_B: "store [66] = Inr (0x42 # replicate 10 0x20)"
  by (simp add: store_def to_ascii_uppercase_def ascii_upper_def split_once_def surrounded_def
      admits_def is_ascii_uppercase_def RESERVED_DEVICES_def codes_def pad_to_def Let_def
      flip: replicate_add)

lemma small_first:
  obtains d1 new where "write_file (\<lambda>_. 0) small_volume small_device [[65]] [1, 2, 3] = (d1, Inr ())"
    "file_written small_volume small_device [65] [1, 2, 3] [] new 64 d1"
proof -
  have old: "old_contents small_volume small_device 0 [65] = Inr ([], 0, Some 64)"
    by (simp add: old_contents_def entries_of_def find_free_record_def read_root [OF small_ok]
        small_root FREE_def)
  have "cluster_bytes (vol_bpb small_volume) = 32" by (simp add: small_volume_def cluster_bytes_def)
  then show thesis
    using root_write_state [OF small_ok old store_A, of "[1, 2, 3]" "\<lambda>_. 0"] that
    by (auto simp: small_free div_ceil_def)
qed

lemma small_second:
  assumes "file_written small_volume small_device [65] [1, 2, 3] [] new 64 d1"
  shows "\<exists>d2. write_file (\<lambda>_. 0) small_volume d1 [[66]] [9] = (d2, Inr ())"
    and "file_chain small_volume d1 [[66]] = []"
proof -
  let ?v = small_volume
  have cb: "cluster_bytes (vol_bpb ?v) = 32" by (simp add: small_volume_def cluster_bytes_def)
  have ok: "volume_ok ?v d1" using assms by (simp add: file_written_def)
  define c where "c = (case new of [] \<Rightarrow> 0 | c # _ \<Rightarrow> c)"
  have "c < 65536"
    using assms by (cases new) (auto simp: c_def file_written_def a_cluster_def small_volume_def
        max_cluster_def cluster_count_def)
  obtain raw seconds where raw: "store [65] = Inr raw" "root_list ?v d1 =
      rewrite 64 (record_bytes raw 0x20 c (length [1, 2, 3 :: u8]) seconds) (root_list ?v small_device)"
    using assms unfolding file_written_def c_def by blast
  then have r: "root_list ?v d1 =
      rewrite 64 (record_bytes (0x41 # replicate 10 0x20) 0x20 c 3 seconds) (root_list ?v small_device)"
    by (simp add: store_A numeral_3_eq_3)
  define rec where "rec = record_bytes (0x41 # replicate 10 0x20) 0x20 c 3 seconds"
  note fr = file_record [OF store_A \<open>c < 65536\<close>, where n = 3 and seconds = seconds, folded rec_def]
  note entry = fr(5) [where at = 64]
  have rs: "root_list ?v d1 = [(64, rec), (96, replicate 32 0)]"
    unfolding r rec_def [symmetric] by (simp add: small_root)
  have n: "named [66] (live_entries (root_list ?v d1)) = None"
    using fr(1) entry by (simp add: rs live_def FREE_def name_matches_def
        eq_ignore_ascii_case_def to_ascii_uppercase_def ascii_upper_def)
  have "first_free (root_list ?v d1) = Some 96"
    using fr(1) by (auto simp: rs live_def skipped_def FREE_def)
  then have old: "old_contents ?v d1 0 [66] = Inr ([], 0, Some 96)"
    using n by (simp add: old_contents_def entries_of_def find_free_record_def read_root [OF ok])
  have "set (free_clusters ?v d1) \<supseteq> set [2, 3, 4] - set new"
  proof
    fix x assume x: "x \<in> set [2, 3, 4] - set new"
    then have f: "a_cluster ?v x" "tab ?v small_device x = 0"
      using free_clusters_laws(2) [of x ?v small_device] by (auto simp: small_free)
    then have "tab ?v d1 x = 0" using assms x by (auto simp: file_written_def a_cluster_def)
    then show "x \<in> set (free_clusters ?v d1)" using f by (simp add: free_clusters_laws)
  qed
  moreover have "card (set new) \<le> 1"
    using assms cb card_length [of new] by (simp add: file_written_def div_ceil_def)
  then have "card (set [2, 3, 4 :: nat] - set new) \<ge> 2"
    using diff_card_le_card_Diff [of "set new" "set [2, 3, 4 :: nat]"] by simp
  ultimately have "2 \<le> card (set (free_clusters ?v d1))"
    by (meson List.finite_set card_mono le_trans)
  then have "1 \<le> length (free_clusters ?v d1)" using card_length [of "free_clusters ?v d1"] by linarith
  then show "\<exists>d2. write_file (\<lambda>_. 0) ?v d1 [[66]] [9] = (d2, Inr ())"
    using root_write_state [OF ok old store_B, of "[9]" "\<lambda>_. 0"] cb by (auto simp: div_ceil_def)
  show "file_chain ?v d1 [[66]] = []" using n by (simp add: file_chain_def locate_root [OF ok])
qed

lemma write_file_reads_back_witness:
  "\<exists>d'. write_file (\<lambda>_. 0) small_volume small_device [[65]] [1, 2, 3] = (d', Inr ()) \<and>
     read_file small_volume d' [[65]] = Inr [1, 2, 3]"
proof -
  obtain d1 new where d1: "write_file (\<lambda>_. 0) small_volume small_device [[65]] [1, 2, 3] = (d1, Inr ())"
    by (rule small_first)
  then show ?thesis
    using write_file_reads_back [OF small_ok, where contents = "[1, 2, 3]" and clock = "\<lambda>_. 0"
        and leaf = "[65]"] by simp
qed

lemma write_file_spares_others_witness:
  "\<exists>d1 d2. write_file (\<lambda>_. 0) small_volume small_device [[65]] [1, 2, 3] = (d1, Inr ()) \<and>
     write_file (\<lambda>_. 0) small_volume d1 [[66]] [9] = (d2, Inr ()) \<and>
     read_file small_volume d2 [[65]] = Inr [1, 2, 3]"
proof -
  obtain d1 new where d1: "write_file (\<lambda>_. 0) small_volume small_device [[65]] [1, 2, 3] = (d1, Inr ())"
    "file_written small_volume small_device [65] [1, 2, 3] [] new 64 d1"
    by (rule small_first)
  obtain d2 where d2: "write_file (\<lambda>_. 0) small_volume d1 [[66]] [9] = (d2, Inr ())"
    using small_second(1) [OF d1(2)] by blast
  have rd: "read_file small_volume d1 [[65]] = Inr [1, 2, 3]"
    using written_reads [OF small_ok d1(2)] by simp
  have ok: "volume_ok small_volume d1" using d1(2) by (simp add: file_written_def)
  have nm: "\<not> name_matches [65] [66]"
    by (simp add: name_matches_def eq_ignore_ascii_case_def to_ascii_uppercase_def ascii_upper_def)
  have "read_file small_volume d2 [[65]] = Inr [1, 2, 3]"
    by (rule write_file_spares_others [OF ok _ nm rd _ d2]) (simp_all add: small_second(2) [OF d1(2)])
  then show ?thesis using d1(1) d2 by blast
qed

end
