(* ===== verification/Fat_Label.thy ===== *)
theory Fat_Label
  imports Fat_Write
begin

text \<open>
  The label of a FAT volume: what the grammar stores, and that a label set is the label read,
  answered by the root directory, with nothing outside that directory touched.
\<close>

section \<open>The grammar\<close>

lemma store_label_Inr:
  assumes "store_label label = Inr raw"
  defines "u \<equiv> to_ascii_uppercase label"
  shows "raw = pad_to 11 u" "u \<noteq> []" "length u \<le> 11" "u \<noteq> UNLABELED"
    "hd u \<noteq> 32" "List.last u \<noteq> 32" "list_all (\<lambda>c. c = 32 \<or> admits c) u"
  using assms by (auto simp: store_label_def Let_def u_def list_all_iff list_ex_iff split: if_splits)

lemma label_code: "c = 32 \<or> admits c \<Longrightarrow> unat (word_of_nat c :: u8) = c \<and> c < 128"
  using unat_code [of c] admits_range(2) [of c] by auto

lemma trim_spaces:
  assumes "s \<noteq> []" "\<not> is_whitespace (List.last s)"
  shows "trim_end (s @ replicate k 32) = s"
proof -
  have "dropWhile is_whitespace (replicate k 32 @ rev s) = dropWhile is_whitespace (rev s)"
    by (induction k) (auto simp: is_whitespace_def)
  also have "\<dots> = rev s" using assms by (cases s rule: rev_cases) simp_all
  finally show ?thesis by (simp add: trim_end_def)
qed

lemma stored_label:
  assumes "store_label label = Inr raw"
  shows "length raw = 11" "raw ! 0 \<noteq> FREE" "raw ! 0 \<noteq> DELETED"
    "field_text raw = to_ascii_uppercase label"
    "label_text (to_ascii_uppercase label) = Some (to_ascii_uppercase label)"
proof -
  let ?u = "to_ascii_uppercase label"
  note l = store_label_Inr [OF assms]
  have codes: "unat (word_of_nat c :: u8) = c \<and> c < 128" if "c \<in> set ?u" for c
    using l(7) that label_code by (auto simp: list_all_iff)
  show "length raw = 11" using l(1,3) by (simp add: pad_to_def)
  have raw0: "raw ! 0 = word_of_nat (hd ?u)" using l(1,2) by (cases ?u) (simp_all add: pad_to_def)
  have hd: "hd ?u \<in> set ?u" using l(2) by simp
  have "33 \<le> hd ?u" using l(5,7) hd admits_range(1) by (fastforce simp: list_all_iff)
  then show "raw ! 0 \<noteq> FREE" "raw ! 0 \<noteq> DELETED"
    using codes [OF hd] raw0 by (auto simp: FREE_def DELETED_def)
  have "map unat raw = ?u @ replicate (11 - length ?u) 32"
    using codes by (auto simp: l(1) pad_to_def intro!: map_idI)
  moreover have "list_all (\<lambda>b. unat b < 128) raw"
    using codes by (auto simp: l(1) pad_to_def list_all_iff)
  ultimately have "from_utf8_lossy raw = ?u @ replicate (11 - length ?u) 32" by (simp add: lossy_ascii)
  moreover have "\<not> is_whitespace (List.last ?u)"
    using l(2,6,7) last_in_set [OF l(2)] admits_range(4) by (auto simp: list_all_iff)
  ultimately show "field_text raw = ?u" using trim_spaces [OF l(2)] by (simp add: field_text_def)
  show "label_text ?u = Some ?u" using l(2,4) by (simp add: label_text_def)
qed

section \<open>The entry\<close>

definition is_volume_id :: "bytes \<Rightarrow> bool" where
  "is_volume_id r \<longleftrightarrow> r ! 0 \<noteq> FREE \<and> r ! 0 \<noteq> DELETED \<and>
     r ! 11 AND ATTR_LONG_NAME \<noteq> ATTR_LONG_NAME \<and> r ! 11 AND ATTR_VOLUME_ID \<noteq> 0"

lemma find_volume_id_in: "find_volume_id rs = Some (at, t) \<Longrightarrow> at \<in> fst ` set rs"
  by (induction rs rule: find_volume_id.induct) (auto split: if_splits)

lemma first_free_in: "first_free rs = Some at \<Longrightarrow> at \<in> fst ` set rs"
  by (induction rs rule: first_free.induct) (auto split: if_splits)

lemma find_volume_id_rewrite:
  assumes "distinct (map fst rs)" "is_volume_id r"
    and "(\<exists>t. find_volume_id rs = Some (at, t)) \<or> find_volume_id rs = None \<and> first_free rs = Some at"
  shows "find_volume_id (rewrite at r rs) = Some (at, field_text (take 11 r))"
  using assms
proof (induction rs rule: find_volume_id.induct)
  case (2 a x rs)
  show ?case
  proof (cases "a = at")
    case True
    then show ?thesis using 2(4) by (simp add: is_volume_id_def)
  next
    case False
    then have "x ! 0 \<noteq> FREE" "\<not> is_volume_id x"
      "(\<exists>t. find_volume_id rs = Some (at, t)) \<or> find_volume_id rs = None \<and> first_free rs = Some at"
      using 2(5) by (auto simp: is_volume_id_def split: if_splits)
    then show ?thesis using False 2 by (auto simp: is_volume_id_def)
  qed
qed simp

lemma root_unchanged_elsewhere:
  assumes "root_list v d' = rewrite at r (root_list v d)" "volume_ok v d" "volume_ok v d'"
    and "is_volume_id r" "(\<exists>t. find_volume_id (root_list v d) = Some (at, t)) \<or> first_free (root_list v d) = Some at"
    and "locate v d [m] = Inr l"
  shows "locate v d' [m] = Inr l"
proof -
  note dist = distinct_root [of v d]
  obtain e where e: "named m (live_entries (root_list v d)) = Some (e, l)"
    using assms(6) by (auto simp: locate_root [OF assms(2)] split: option.splits)
  obtain x where x: "(record_offset l, x) \<in> set (root_list v d)" "live x"
    using named_found [OF e] by blast
  have dead: "\<not> live y" if "(at, y) \<in> set (root_list v d)" for y
  proof -
    have "\<exists>t. find_volume_id rs = Some (at, t) \<Longrightarrow> \<exists>y. (at, y) \<in> set rs \<and> \<not> live y" for rs
      by (induction rs rule: find_volume_id.induct) (auto simp: live_def skipped_def split: if_splits)
    then obtain z where "(at, z) \<in> set (root_list v d)" "\<not> live z"
      using assms(5) first_free_found by blast
    then show ?thesis using same_offset [OF dist] that by blast
  qed
  have other: "record_offset l \<noteq> at" using dead x by blast
  have skip: "skipped r" "r ! 0 \<noteq> FREE" using assms(4) by (auto simp: is_volume_id_def skipped_def)
  have "named m (live_entries (rewrite at r rs)) = Some (e, l)"
    if "named m (live_entries rs) = Some (e, l)" "\<And>y. (at, y) \<in> set rs \<Longrightarrow> \<not> live y" for rs
    using that
  proof (induction rs rule: live_entries.induct)
    case (2 a x rs)
    then have x: "x ! 0 \<noteq> FREE" by (auto split: if_splits)
    show ?case
    proof (cases "skipped x")
      case True
      then show ?thesis using 2 x skip by (cases "a = at") auto
    next
      case False
      then have "a \<noteq> at" using 2(4) [of x] x by (auto simp: live_def)
      then show ?thesis using 2 x False by auto
    qed
  qed simp
  then show ?thesis using e dead by (simp add: locate_root [OF assms(3)] assms(1))
qed

lemma set_label_state:
  assumes "volume_ok v d" "store_label label = Inr raw"
    and "(\<exists>t. find_volume_id (root_list v d) = Some (at, t)) \<or>
      find_volume_id (root_list v d) = None \<and> first_free (root_list v d) = Some at"
  shows "\<exists>d'. set_label clock v d (Some label) = (d', Inr ()) \<and>
        label_of v d' = Inr \<lparr>label_name = Some (to_ascii_uppercase label),
          answered_by = Some ROOT_DIRECTORY_ENTRY,
          readings = [\<lparr>reading_source = ROOT_DIRECTORY_ENTRY,
                       stored = Some (to_ascii_uppercase label)\<rparr>,
                      \<lparr>reading_source = BOOT_RECORD_FIELD, stored = boot_label (vol_bpb v)\<rparr>]\<rparr> \<and>
        (\<forall>m l. locate v d [m] = Inr l \<longrightarrow> locate v d' [m] = Inr l) \<and>
        (\<forall>i. i < root_at v \<or> root_at v + root_dir_bytes (vol_bpb v) \<le> i \<longrightarrow> d' ! i = d ! i)"
proof -
  let ?rs = "root_list v d"
  note lab = stored_label [OF assms(2)]
  define r where "r = record_bytes raw ATTR_VOLUME_ID 0 0 (clock at)"
  note rb = record_bytes_laws [OF lab(1), of 0 0, where attrs = ATTR_VOLUME_ID and seconds = "clock at",
      folded r_def, simplified]
  have "at \<in> fst ` set ?rs" using find_volume_id_in first_free_in assms(3) by blast
  then obtain d' where d': "image_write d at r = (d', Inr ())" "length d' = length d" "volume_ok v d'"
    "root_list v d' = rewrite at r ?rs"
    "\<And>i. i < root_at v \<or> root_at v + root_dir_bytes (vol_bpb v) \<le> i \<Longrightarrow> d' ! i = d ! i"
    using root_list_write [OF assms(1) _ rb(1)] by blast
  have "r ! 0 = raw ! 0" using rb(2) by (metis nth_take zero_less_numeral)
  then have vol: "is_volume_id r"
    using lab(2,3) rb(3) by (simp add: is_volume_id_def ATTR_LONG_NAME_def ATTR_VOLUME_ID_def)
  have "set_label clock v d (Some label) = (d', Inr ())"
    using assms(3,2) d'(1)
    by (auto simp: set_label_def volume_id_entry_def find_free_record_def read_root [OF assms(1)]
        write_record_def r_def)
  moreover have "find_volume_id (root_list v d') = Some (at, to_ascii_uppercase label)"
    using find_volume_id_rewrite [OF distinct_root vol assms(3)] d'(4) rb(2) lab(4) by simp
  then have "label_of v d' = Inr \<lparr>label_name = Some (to_ascii_uppercase label),
        answered_by = Some ROOT_DIRECTORY_ENTRY,
        readings = [\<lparr>reading_source = ROOT_DIRECTORY_ENTRY,
                     stored = Some (to_ascii_uppercase label)\<rparr>,
                    \<lparr>reading_source = BOOT_RECORD_FIELD, stored = boot_label (vol_bpb v)\<rparr>]\<rparr>"
    using lab(5) by (simp add: label_of_def root_directory_label_def volume_id_entry_def
        read_root [OF d'(3)])
  moreover have "locate v d' [m] = Inr l" if "locate v d [m] = Inr l" for m l
    using root_unchanged_elsewhere [OF d'(4) assms(1) d'(3) vol _ that] assms(3) by blast
  ultimately show ?thesis using d'(5) by blast
qed

section \<open>The properties\<close>

text \<open>
  C11: A label that is set is the label read: the volume answers with the uppercased label from the
  root directory, the boot record's field read beside it as it stood; every file of the root
  directory is still found where it was, and no byte outside that directory changes. A refusal
  changes nothing.
\<close>

theorem set_label_reads_back:
  assumes "volume_ok v d"
  shows "case set_label clock v d (Some label) of
      (d', Inl e) \<Rightarrow> d' = d
    | (d', Inr _) \<Rightarrow>
        label_of v d' = Inr \<lparr>label_name = Some (to_ascii_uppercase label),
          answered_by = Some ROOT_DIRECTORY_ENTRY,
          readings = [\<lparr>reading_source = ROOT_DIRECTORY_ENTRY,
                       stored = Some (to_ascii_uppercase label)\<rparr>,
                      \<lparr>reading_source = BOOT_RECORD_FIELD, stored = boot_label (vol_bpb v)\<rparr>]\<rparr> \<and>
        (\<forall>m l. locate v d [m] = Inr l \<longrightarrow> locate v d' [m] = Inr l) \<and>
        (\<forall>i. i < root_at v \<or> root_at v + root_dir_bytes (vol_bpb v) \<le> i \<longrightarrow> d' ! i = d ! i)"
proof -
  let ?rs = "root_list v d"
  define slot where "slot = (case find_volume_id ?rs of Some (at, _) \<Rightarrow> Some at | None \<Rightarrow> first_free ?rs)"
  consider (bad) e where "store_label label = Inl e"
    | (full) raw where "store_label label = Inr raw" "slot = None"
    | (set) raw at where "store_label label = Inr raw" "slot = Some at"
    by (cases "store_label label"; cases slot) auto
  then show ?thesis
  proof cases
    case bad
    then show ?thesis by (simp add: set_label_def)
  next
    case full
    then show ?thesis
      by (auto simp: set_label_def slot_def volume_id_entry_def find_free_record_def
          read_root [OF assms] split: option.splits)
  next
    case set
    have at: "(\<exists>t. find_volume_id ?rs = Some (at, t)) \<or> find_volume_id ?rs = None \<and> first_free ?rs = Some at"
      using set(2) by (auto simp: slot_def split: option.splits)
    show ?thesis using set_label_state [OF assms set(1) at, of clock] by auto
  qed
qed

lemma set_label_reads_back_witness:
  "\<exists>d'. set_label (\<lambda>_. 0) small_volume small_device (Some [65]) = (d', Inr ()) \<and>
     (\<exists>answer. label_of small_volume d' = Inr answer \<and> label_name answer = Some [65])"
proof -
  have "store_label [65] = Inr (0x41 # replicate 10 0x20)"
    by (simp add: store_label_def to_ascii_uppercase_def ascii_upper_def admits_def
        is_ascii_uppercase_def UNLABELED_def codes_def pad_to_def Let_def)
  moreover have "find_volume_id (root_list small_volume small_device) = None \<and>
      first_free (root_list small_volume small_device) = Some 64"
    by (simp add: small_root FREE_def)
  ultimately obtain d' where "set_label (\<lambda>_. 0) small_volume small_device (Some [65]) = (d', Inr ())"
    using set_label_state [OF small_ok, where clock = "\<lambda>_. 0" and at = 64] by blast
  then show ?thesis
    using set_label_reads_back [OF small_ok, where clock = "\<lambda>_. 0" and label = "[65]"]
    by (simp add: to_ascii_uppercase_def ascii_upper_def)
qed

end
