(* ===== verification/Gate.thy ===== *)
theory Gate
  imports Assurance Fat_Space
begin

text \<open>
  The assurance gate over one opened image (\<open>assess\<close> in
  \<open>src/crates/remanence/src/model/disk/state.rs\<close>): what a boot record declares is compared with
  what the source holds before anything is read through it. The image is the bytes it presents
  and \<open>opened\<close> the evidence its driver gathered at the open.
\<close>

definition with_evidence :: "evidence list \<Rightarrow> assurance \<Rightarrow> assurance" where
  "with_evidence opened a = a\<lparr>evidence_lines := opened @ evidence_lines a\<rparr>"

definition assess ::
  "bytes \<Rightarrow> evidence list \<Rightarrow> bool \<Rightarrow> access_mode \<Rightarrow> claim_class \<Rightarrow> assurance result" where
  "assess img opened is_raw m cl =
     (let observed = length img
      in if \<not> is_raw \<or> observed < 512 then Inr (with_evidence opened (verified observed m cl))
         else rbind (image_read img 0 512) (\<lambda>sector.
           case declared_volume sector of
             Bounded extent metadata_end \<Rightarrow>
               if extent > observed
               then Inr (with_evidence opened (degraded
                      \<lparr>sf_declared = extent, sf_observed = observed, sf_metadata_end = metadata_end\<rparr>
                      ''boot record'' cl))
               else Inr (with_evidence opened (verified observed m cl))
           | Conflicted extent \<Rightarrow>
               if extent > observed then Inl conflicted
               else Inr (with_evidence opened (verified observed m cl))
           | Absent \<Rightarrow> Inr (with_evidence opened (verified observed m cl))))"

section \<open>What a bounded declaration says\<close>

lemma power_sector: "is_power_of_two n \<Longrightarrow> 512 \<le> n \<Longrightarrow> n \<le> 4096 \<Longrightarrow> n \<in> {512, 1024, 2048, 4096}"
  by (auto simp: is_power_of_two_def list_ex_iff upt_rec)

lemma parse_bpb_Inr:
  assumes "parse_bpb sector = Inr b"
  shows "bytes_per_sector b \<in> {512, 1024, 2048, 4096}" "0 < sectors_per_cluster b"
    "0 < fat_count b" "fat_count b \<le> 2" "0 < reserved_sectors b" "0 < sectors_per_fat b"
  using assms power_sector [of "fle16 sector 11"]
  by (auto simp: parse_bpb_def Let_def split: if_splits)

lemma fat_open_Inr:
  assumes "fat_open d off = Inr v"
  shows "vol_offset v = off" "vol_kind v = Fat12 \<and> cluster_count (vol_bpb v) < 4085 \<or>
      vol_kind v = Fat16 \<and> 4085 \<le> cluster_count (vol_bpb v) \<and> cluster_count (vol_bpb v) < 65525"
    "states_a_parameter_block (slice off 512 d) \<Longrightarrow> parse_bpb (slice off 512 d) = Inr (vol_bpb v)"
  using assms
  by (auto simp: fat_open_def rbind_Inr_iff image_read_def Let_def split: if_splits)

lemma declared_Bounded:
  assumes "declared_volume sector = Bounded extent metadata_end"
  obtains b where "parse_bpb sector = Inr b" "states_a_parameter_block sector"
    "extent = total_sectors b * bytes_per_sector b" "metadata_end = data_offset b"
    "data_offset b \<le> extent"
  using assms
  by (auto simp: declared_volume_def Let_def boot_record_def looks_like_bpb_def
      states_a_parameter_block_def fle16_def split: if_splits sum.splits)

section \<open>The properties\<close>

text \<open>
  The gate degrades exactly a raw image whose boot record declares more than the image holds,
  and then withholds writing; it refuses exactly a short image whose record contradicts itself,
  and otherwise grants the access asked for. What it declares readable is what is held.
\<close>

theorem assess_answers:
  "case assess img opened is_raw m cl of
     Inl e \<Rightarrow> e = conflicted \<and> is_raw \<and>
       (\<exists>extent. declared_volume (take 512 img) = Conflicted extent \<and> length img < extent)
   | Inr a \<Rightarrow>
       (outcome a = Degraded \<longleftrightarrow> is_raw \<and> 512 \<le> length img \<and>
          (\<exists>extent m. declared_volume (take 512 img) = Bounded extent m \<and> length img < extent)) \<and>
       (outcome a = Degraded \<longrightarrow> access a = ReadOnlyMode \<and> first_unavailable_byte a = Some (length img)) \<and>
       (outcome a \<noteq> Degraded \<longrightarrow> outcome a = Verified \<and> access a = m) \<and>
       map range_end (readable a) = [length img] \<and> (\<exists>lines. evidence_lines a = opened @ lines)"
  by (auto simp: assess_def Let_def image_read_def with_evidence_def verified_def degraded_def
      slice_def split: volume_declaration.splits)

text \<open>
  C12: Where the image holds what its boot record declares, the volume opened from that record lies
  inside the declared bytes: the leading areas end where the declaration says, every cluster of
  the volume ends inside it, and the volume is well formed when its table has an entry for every
  cluster.
\<close>

theorem held_volume_is_bounded:
  assumes "declared_volume (take 512 d) = Bounded extent metadata_end" "extent \<le> length d"
    and "fat_open d 0 = Inr v"
  shows "root_dir_offset (vol_bpb v) + root_dir_bytes (vol_bpb v) = metadata_end \<and>
    metadata_end \<le> extent \<and>
    (\<forall>c. 2 \<le> c \<and> c < max_cluster v \<longrightarrow> cluster_offset v c + cluster_bytes (vol_bpb v) \<le> extent) \<and>
    (entry_at v (max_cluster v) + 2 \<le> table_bytes v \<longrightarrow> volume_ok v d)"
proof -
  obtain b where b: "parse_bpb (take 512 d) = Inr b" "states_a_parameter_block (take 512 d)"
    "extent = total_sectors b * bytes_per_sector b" "metadata_end = data_offset b" "data_offset b \<le> extent"
    by (rule declared_Bounded [OF assms(1)])
  note v = fat_open_Inr [OF assms(3)]
  have vb: "vol_bpb v = b" using v(3) b(1,2) by (simp add: slice_def)
  note p = parse_bpb_Inr [OF b(1)]
  have sector: "0 < bytes_per_sector b" "RECORD dvd bytes_per_sector b"
    using p(1) by (auto simp: RECORD_def)
  have clusters: "cluster_offset v c + cluster_bytes b \<le> extent" if c: "2 \<le> c" "c < max_cluster v" for c
  proof -
    have "Suc (c - 2) * cluster_bytes b \<le> cluster_count b * cluster_bytes b"
      using c by (intro mult_le_mono1) (simp add: max_cluster_def vb)
    also have "\<dots> = (cluster_count b * sectors_per_cluster b) * bytes_per_sector b"
      by (simp add: cluster_bytes_def)
    also have "\<dots> \<le> (total_sectors b - data_offset b div bytes_per_sector b) * bytes_per_sector b"
      unfolding cluster_count_def by (intro mult_le_mono1) simp
    also have "\<dots> = extent - data_offset b"
      using data_offset_multiple [of b] by (simp add: diff_mult_distrib b(3))
    finally show ?thesis using b(5) v(1) by (simp add: cluster_offset_def vb)
  qed
  have "max_cluster v < (case vol_kind v of Fat12 \<Rightarrow> 0xff8 | Fat16 \<Rightarrow> 0xfff8)"
    using v(2) by (auto simp: max_cluster_def)
  then have "volume_ok v d" if "entry_at v (max_cluster v) + 2 \<le> table_bytes v"
    using that sector p b assms(2) v(1) by (simp add: volume_ok_def vb)
  then show ?thesis using clusters b(4,5) by (simp add: vb data_offset_def)
qed

section \<open>A boot record\<close>

text \<open>A record of 100 sectors of 512 bytes: one reserved, one table, sixteen root entries.\<close>

definition boot_sector :: bytes where
  "boot_sector = (replicate 512 0)[0 := 0xeb, 12 := 2, 13 := 1, 14 := 1, 16 := 1, 17 := 16,
     19 := 100, 22 := 1, 510 := 0x55, 511 := 0xaa]"

definition boot_block :: bpb where
  "boot_block = \<lparr>bytes_per_sector = 512, sectors_per_cluster = 1, reserved_sectors = 1,
     fat_count = 1, root_entries = 16, total_sectors = 100, sectors_per_fat = 1,
     sectors_per_track = 0, heads = 0, boot_label = None\<rparr>"

lemma slice_2: "off + 2 \<le> length s \<Longrightarrow> slice off 2 s = [s ! off, s ! Suc off]"
  by (auto simp: slice_def numeral_2_eq_2 take_Suc_conv_app_nth)

lemma boot_length: "length boot_sector = 512"
  by (simp add: boot_sector_def)

lemma boot_words:
  "fle16 boot_sector 11 = 512" "fle16 boot_sector 14 = 1" "fle16 boot_sector 17 = 16"
  "fle16 boot_sector 19 = 100" "fle16 boot_sector 22 = 1" "fle16 boot_sector 24 = 0"
  "fle16 boot_sector 26 = 0"
  by (simp_all add: fle16_def slice_2 boot_length) (simp_all add: boot_sector_def)

lemma boot_bytes:
  "boot_sector ! 0 = 0xeb" "boot_sector ! 13 = 1" "boot_sector ! 16 = 1" "boot_sector ! 38 = 0"
  "slice 510 2 boot_sector = [0x55, 0xaa]"
  by (simp_all add: slice_2 boot_length) (simp_all add: boot_sector_def)

lemma boot_large: "fle32 boot_sector 32 = 0"
proof -
  have "slice 32 4 boot_sector = replicate 4 0"
    by (intro nth_equalityI) (auto simp: boot_length, simp add: boot_sector_def)
  then show ?thesis by (simp add: fle32_def numeral_eq_Suc)
qed

lemma boot_parse: "parse_bpb boot_sector = Inr boot_block"
  by (simp add: parse_bpb_def boot_length boot_words boot_bytes is_power_of_two_def boot_block_def
      EXTENDED_BOOT_SIGNATURE_WITH_LABEL_def upt_rec)

lemma boot_declared: "declared_volume boot_sector = Bounded 51200 1536"
proof -
  have "boot_record boot_sector"
    using boot_words(1)
    by (simp add: boot_record_def boot_length has_signature_def boot_bytes BOOT_SIGNATURE_def
        looks_like_bpb_def is_power_of_two_def upt_rec fle16_def)
  then show ?thesis
    by (simp add: declared_volume_def boot_parse boot_large boot_words)
      (simp add: boot_block_def data_offset_def root_dir_offset_def root_dir_bytes_def
        fat_offset_def div_ceil_def RECORD_def)
qed

lemma assess_answers_witness:
  "\<exists>a. assess boot_sector [] True ReadWriteMode LibraryOpened = Inr a \<and>
     outcome a = Degraded \<and> access a = ReadOnlyMode"
  using assess_answers [where img = boot_sector and opened = "[]" and is_raw = True and m = ReadWriteMode
      and cl = LibraryOpened]
  by (cases "assess boot_sector [] True ReadWriteMode LibraryOpened")
    (auto simp: boot_length boot_declared)

lemma held_volume_is_bounded_witness:
  "fat_open (boot_sector @ replicate 50688 0) 0 =
     Inr \<lparr>vol_offset = 0, vol_bpb = boot_block, vol_kind = Fat12\<rparr> \<and>
   volume_ok \<lparr>vol_offset = 0, vol_bpb = boot_block, vol_kind = Fat12\<rparr> (boot_sector @ replicate 50688 0)"
proof -
  let ?d = "boot_sector @ replicate 50688 0" and ?v = "\<lparr>vol_offset = 0, vol_bpb = boot_block, vol_kind = Fat12\<rparr>"
  have t: "take 512 ?d = boot_sector" by (simp add: boot_length)
  have count: "cluster_count boot_block = 97"
    by (simp add: boot_block_def cluster_count_def data_offset_def root_dir_offset_def
        root_dir_bytes_def fat_offset_def div_ceil_def RECORD_def)
  have "states_a_parameter_block boot_sector"
    by (simp add: states_a_parameter_block_def boot_length boot_words is_power_of_two_def upt_rec)
  then have o: "fat_open ?d 0 = Inr ?v"
    using t by (simp add: fat_open_def image_read_def boot_length slice_def boot_parse count)
  moreover have "entry_at ?v (max_cluster ?v) + 2 \<le> table_bytes ?v"
    by (simp add: max_cluster_def count entry_at_def table_bytes_def) (simp add: boot_block_def)
  ultimately show ?thesis
    using held_volume_is_bounded [of ?d 51200 1536 ?v] t boot_declared by (simp add: boot_length)
qed

end
