(* ===== verification/Inflate.thy ===== *)
theory Inflate
  imports Device
begin

text \<open>
  The DEFLATE decoder (\<open>src/crates/remanence/src/codec/inflate.rs\<close>) over the byte sources of
  \<open>src/crates/remanence/src/io/device.rs\<close>. A source is the bytes it still delivers, whether the
  host fails where they end, and whether it has failed; the file source's chunks are read ahead of
  their use. The decoder works over any sink; the two sinks of the code are the vector and the
  spool with its window. Every loop is shown to end by the bits it consumes.
\<close>

section \<open>Byte sources\<close>

record byte_source =
  coded :: bytes
  cut :: bool
  source_failed :: bool

definition slice_source :: "bytes \<Rightarrow> byte_source" where
  "slice_source bs = \<lparr>coded = bs, cut = False, source_failed = False\<rparr>"

function file_chunks :: "bytes \<Rightarrow> nat \<Rightarrow> nat \<Rightarrow> bytes \<times> bool" where
  "file_chunks file next stop =
     (if next \<ge> stop then ([], False)
      else let n = min (stop - next) 4096
           in case file_read_exact_at file next n of
                None \<Rightarrow> ([], True)
              | Some bs \<Rightarrow> (case file_chunks file (next + n) stop of
                  (rest, c) \<Rightarrow> (bs @ rest, c)))"
  by pat_completeness auto
termination
  by (relation "measure (\<lambda>(_, next, stop). stop - next)") auto

declare file_chunks.simps [simp del]

definition file_source :: "bytes \<Rightarrow> nat \<Rightarrow> nat \<Rightarrow> byte_source" where
  "file_source file offset len =
     (case file_chunks file offset (offset + len) of
        (bs, c) \<Rightarrow> \<lparr>coded = bs, cut = c, source_failed = False\<rparr>)"

definition source_next :: "byte_source \<Rightarrow> byte_source \<times> u8 option" where
  "source_next s =
     (case coded s of
        [] \<Rightarrow> (s\<lparr>source_failed := source_failed s \<or> cut s\<rparr>, None)
      | b # bs \<Rightarrow> (s\<lparr>coded := bs\<rparr>, Some b))"

section \<open>Bits\<close>

record bit_reader =
  rd_source :: byte_source
  bit_buffer :: nat
  bit_count :: nat
  read_error :: bool

definition reader_new :: "byte_source \<Rightarrow> bit_reader" where
  "reader_new s = \<lparr>rd_source = s, bit_buffer = 0, bit_count = 0, read_error = False\<rparr>"

text \<open>
  The filling loop: the value gathered, and the reader with its count advanced and its buffer not
  yet replaced; \<open>None\<close> where the source ended first. The value has at most 20 bits and the buffer
  fewer than eight, so neither the \<open>u64\<close> nor the \<open>u32\<close> of the code wraps.
\<close>

function fill_bits :: "nat \<Rightarrow> nat \<Rightarrow> bit_reader \<Rightarrow> bit_reader \<times> nat option" where
  "fill_bits need val r =
     (if bit_count r \<ge> need then (r, Some val)
      else case source_next (rd_source r) of
             (s, None) \<Rightarrow> (r\<lparr>rd_source := s, read_error := True\<rparr>, None)
           | (s, Some b) \<Rightarrow>
               fill_bits need (val OR push_bit (bit_count r) (unat b))
                 (r\<lparr>rd_source := s, bit_count := bit_count r + 8\<rparr>))"
  by pat_completeness auto
termination
  by (relation "measure (\<lambda>(need, _, r). need - bit_count r)") auto

declare fill_bits.simps [simp del]

definition rd_bits :: "nat \<Rightarrow> bit_reader \<Rightarrow> bit_reader \<times> nat" where
  "rd_bits need r =
     (case fill_bits need (bit_buffer r) r of
        (r', None) \<Rightarrow> (r', 0)
      | (r', Some val) \<Rightarrow>
          (r'\<lparr>bit_buffer := drop_bit need val, bit_count := bit_count r' - need\<rparr>,
           take_bit need val))"

text \<open>What a reader may still consume.\<close>

definition bits_left :: "bit_reader \<Rightarrow> nat" where
  "bits_left r = 8 * length (coded (rd_source r)) + bit_count r"

lemma source_next_length:
  "source_next s = (s', Some b) \<Longrightarrow> length (coded s) = Suc (length (coded s'))"
  "source_next s = (s', None) \<Longrightarrow> coded s' = coded s"
  by (auto simp: source_next_def split: list.splits)

lemma fill_bits_left:
  "fill_bits need val r = (r', res) \<Longrightarrow> bits_left r' = bits_left r \<and>
     (res = None \<longrightarrow> read_error r') \<and>
     (res \<noteq> None \<longrightarrow> need \<le> bit_count r' \<and> read_error r' = read_error r)"
proof (induction need val r arbitrary: r' res rule: fill_bits.induct)
  case (1 need val r)
  show ?case
  proof (cases "bit_count r \<ge> need")
    case True
    then show ?thesis using "1.prems" by (subst (asm) fill_bits.simps) auto
  next
    case False
    obtain s b where s: "source_next (rd_source r) = (s, b)" by (cases "source_next (rd_source r)")
    show ?thesis
    proof (cases b)
      case None
      then show ?thesis
        using "1.prems" False s source_next_length(2) [of "rd_source r" s]
        by (subst (asm) fill_bits.simps) (auto simp: bits_left_def)
    next
      case (Some x)
      have l: "length (coded (rd_source r)) = Suc (length (coded s))"
        using source_next_length(1) [of "rd_source r" s x] s Some by simp
      have "fill_bits need (val OR push_bit (bit_count r) (unat x))
          (r\<lparr>rd_source := s, bit_count := bit_count r + 8\<rparr>) = (r', res)"
        using "1.prems" False s Some by (subst (asm) fill_bits.simps) simp
      then show ?thesis
        using "1.IH" [OF False s [symmetric] Some] l by (simp add: bits_left_def)
    qed
  qed
qed

lemma rd_bits_left:
  assumes "rd_bits need r = (r', x)"
  shows "bits_left r' \<le> bits_left r" "\<not> read_error r' \<Longrightarrow> bits_left r' + need = bits_left r \<and> \<not> read_error r"
proof -
  obtain r1 res where f: "fill_bits need (bit_buffer r) r = (r1, res)"
    by (cases "fill_bits need (bit_buffer r) r")
  show "bits_left r' \<le> bits_left r" "\<not> read_error r' \<Longrightarrow> bits_left r' + need = bits_left r \<and> \<not> read_error r"
    using assms f fill_bits_left [OF f]
    by (auto simp: rd_bits_def bits_left_def split: option.splits)
qed

section \<open>Huffman codes\<close>

definition MAX_BITS :: nat where "MAX_BITS = 15"
definition MAX_LCODES :: nat where "MAX_LCODES = 286"
definition MAX_DCODES :: nat where "MAX_DCODES = 30"
definition MAX_CODES :: nat where "MAX_CODES = MAX_LCODES + MAX_DCODES"
definition FIX_LCODES :: nat where "FIX_LCODES = 288"

record huffman =
  counts :: "nat list"
  symbols :: "nat list"

definition huffman_new :: huffman where
  "huffman_new = \<lparr>counts = replicate (MAX_BITS + 1) 0, symbols = replicate MAX_CODES 0\<rparr>"

fun decode_from :: "huffman \<Rightarrow> nat list \<Rightarrow> int \<Rightarrow> int \<Rightarrow> int \<Rightarrow> bit_reader \<Rightarrow> bit_reader \<times> nat option" where
  "decode_from h [] code first index r = (r, None)"
| "decode_from h (len # lens) code first index r =
     (case rd_bits 1 r of (r', b) \<Rightarrow>
        if read_error r' then (r', None)
        else let code1 = code OR int b; count = int (counts h ! len)
             in if code1 - count < first
                then (r', Some (symbols h ! nat (index + (code1 - first))))
                else decode_from h lens (push_bit 1 code1) (push_bit 1 (first + count))
                       (index + count) r')"

definition decode :: "bit_reader \<Rightarrow> huffman \<Rightarrow> bit_reader \<times> nat option" where
  "decode r h = decode_from h [1..<Suc MAX_BITS] 0 0 0 r"

definition count_lengths :: "nat list \<Rightarrow> nat list" where
  "count_lengths ls = foldl (\<lambda>cs l. cs[l := Suc (cs ! l)]) (replicate (MAX_BITS + 1) 0) ls"

fun not_oversubscribed :: "nat list \<Rightarrow> int \<Rightarrow> nat list \<Rightarrow> bool" where
  "not_oversubscribed cs left [] = True"
| "not_oversubscribed cs left (len # lens) =
     (let left1 = push_bit 1 left - int (cs ! len)
      in if left1 < 0 then False else not_oversubscribed cs left1 lens)"

definition offsets :: "nat list \<Rightarrow> nat list" where
  "offsets cs = foldl (\<lambda>offs len. offs[len + 1 := offs ! len + cs ! len])
     (replicate (MAX_BITS + 1) 0) [1..<MAX_BITS]"

fun place_symbols :: "nat \<Rightarrow> nat list \<Rightarrow> nat list \<Rightarrow> nat list \<Rightarrow> nat list" where
  "place_symbols symbol [] offs syms = syms"
| "place_symbols symbol (l # ls) offs syms =
     (if l \<noteq> 0 then place_symbols (Suc symbol) ls (offs[l := Suc (offs ! l)])
                      (syms[offs ! l := symbol])
      else place_symbols (Suc symbol) ls offs syms)"

definition construct :: "huffman \<Rightarrow> nat list \<Rightarrow> nat \<Rightarrow> huffman \<times> bool" where
  "construct h lengths n =
     (let ls = take n lengths; h1 = h\<lparr>counts := count_lengths ls\<rparr>
      in if counts h1 ! 0 = n then (h1, True)
         else if \<not> not_oversubscribed (counts h1) 1 [1..<Suc MAX_BITS] then (h1, False)
         else (h1\<lparr>symbols := place_symbols 0 ls (offsets (counts h1)) (symbols h1)\<rparr>, True))"

lemma decode_from_left:
  "decode_from h lens code first index r = (r', x) \<Longrightarrow> bits_left r' \<le> bits_left r \<and>
     (x \<noteq> None \<longrightarrow> bits_left r' < bits_left r)"
proof (induction h lens code first index r rule: decode_from.induct)
  case (2 h len lens code first index r)
  obtain r1 b where b: "rd_bits 1 r = (r1, b)" by (cases "rd_bits 1 r")
  note l = rd_bits_left [OF b]
  show ?case
  proof (cases "read_error r1")
    case True
    then show ?thesis using 2(2) b l by simp
  next
    case False
    then have "bits_left r1 < bits_left r" using l(2) by simp
    moreover have "decode_from h lens (push_bit 1 (code OR int b))
        (push_bit 1 (first + int (counts h ! len))) (index + int (counts h ! len)) r1 = (r', x)"
      if "\<not> (code OR int b) - int (counts h ! len) < first"
      using 2(2) b False that by (simp add: Let_def)
    ultimately show ?thesis
      using 2(1) [OF b [symmetric] False refl refl] 2(2) b False
      by (auto simp: Let_def split: if_splits)
  qed
qed simp

lemma decode_left: "decode r h = (r', Some x) \<Longrightarrow> bits_left r' < bits_left r"
  using decode_from_left [of h "[1..<Suc MAX_BITS]" 0 0 0 r r' "Some x"] by (simp add: decode_def)

text \<open>
  What every step of a reader keeps, the whole decoder keeps: the bits left never grow, and a
  source that is not cut never fails.
\<close>

definition reader_law :: "(bit_reader \<Rightarrow> bool) \<Rightarrow> bool" where
  "reader_law P \<longleftrightarrow> (\<forall>need r. P r \<longrightarrow> P (fst (rd_bits need r))) \<and>
     (\<forall>r. P r \<longrightarrow> P (r\<lparr>rd_source := fst (source_next (rd_source r))\<rparr>)) \<and>
     (\<forall>r. P r \<longrightarrow> P (r\<lparr>bit_buffer := 0, bit_count := 0\<rparr>))"

lemma reader_lawD:
  assumes "reader_law P" "P r"
  shows "rd_bits need r = (r', x) \<Longrightarrow> P r'"
    and "source_next (rd_source r) = (src, y) \<Longrightarrow> P (r\<lparr>rd_source := src\<rparr>)"
    and "P (r\<lparr>bit_buffer := 0, bit_count := 0\<rparr>)"
  using assms unfolding reader_law_def by (metis fst_conv)+

lemma source_next_left: "source_next s = (s', x) \<Longrightarrow> length (coded s') \<le> length (coded s)"
  by (auto simp: source_next_def split: list.splits)

lemma reader_law_left: "reader_law (\<lambda>r. bits_left r \<le> N)"
  unfolding reader_law_def
proof (intro conjI allI impI)
  fix need r assume "bits_left r \<le> N"
  then show "bits_left (fst (rd_bits need r)) \<le> N"
    using rd_bits_left(1) [of need r] by (cases "rd_bits need r") (auto intro: le_trans)
next
  fix r :: bit_reader assume "bits_left r \<le> N"
  then show "bits_left (r\<lparr>rd_source := fst (source_next (rd_source r))\<rparr>) \<le> N"
    using source_next_left [of "rd_source r"]
    by (cases "source_next (rd_source r)") (fastforce simp: bits_left_def)
next
  fix r :: bit_reader assume "bits_left r \<le> N"
  then show "bits_left (r\<lparr>bit_buffer := 0, bit_count := 0\<rparr>) \<le> N" by (simp add: bits_left_def)
qed

definition whole :: "bit_reader \<Rightarrow> bool" where
  "whole r \<longleftrightarrow> \<not> cut (rd_source r) \<and> \<not> source_failed (rd_source r)"

lemma fill_bits_whole: "fill_bits need val r = (r', x) \<Longrightarrow> whole r \<Longrightarrow> whole r'"
proof (induction need val r arbitrary: r' x rule: fill_bits.induct)
  case (1 need val r)
  obtain src b where n: "source_next (rd_source r) = (src, b)" by fastforce
  then have w: "\<not> cut src \<and> \<not> source_failed src"
    using "1.prems"(2) by (auto simp: whole_def source_next_def split: list.splits)
  show ?case
  proof (cases "bit_count r \<ge> need \<or> b = None")
    case True
    then show ?thesis using "1.prems" n w
      by (subst (asm) fill_bits.simps) (auto simp: whole_def split: if_splits)
  next
    case False
    then obtain y where y: "b = Some y" "\<not> bit_count r \<ge> need" by auto
    then have "fill_bits need (val OR push_bit (bit_count r) (unat y))
        (r\<lparr>rd_source := src, bit_count := bit_count r + 8\<rparr>) = (r', x)"
      using "1.prems"(1) n by (subst (asm) fill_bits.simps) simp
    then show ?thesis using "1.IH" [OF y(2) n [symmetric] y(1)] w by (simp add: whole_def)
  qed
qed

lemma reader_law_whole: "reader_law whole"
  unfolding reader_law_def
proof (intro conjI allI impI)
  fix need r assume "whole r"
  then show "whole (fst (rd_bits need r))"
    using fill_bits_whole [of need "bit_buffer r" r]
    by (cases "fill_bits need (bit_buffer r) r") (fastforce simp: rd_bits_def whole_def split: option.splits)
qed (auto simp: whole_def source_next_def split: list.splits)

lemma decode_from_keeps:
  "reader_law P \<Longrightarrow> decode_from h lens code first index r = (r', x) \<Longrightarrow> P r \<Longrightarrow> P r'"
proof (induction h lens code first index r rule: decode_from.induct)
  case (2 h len lens code first index r)
  obtain r1 b where b: "rd_bits 1 r = (r1, b)" by (cases "rd_bits 1 r")
  have "P r1" using reader_lawD(1) [OF 2(2,4) b] .
  then show ?case using 2(1) [OF b [symmetric] _ refl refl] 2(2,3) b
    by (auto simp: Let_def split: if_splits)
qed simp

lemma decode_keeps: "reader_law P \<Longrightarrow> decode r h = (r', x) \<Longrightarrow> P r \<Longrightarrow> P r'"
  using decode_from_keeps unfolding decode_def by blast

section \<open>Sinks\<close>

text \<open>What the decoder asks of a sink: both operations answer whether they could go on.\<close>

record 's sink_ops =
  sink_push :: "'s \<Rightarrow> u8 \<Rightarrow> 's \<times> bool"
  sink_copy_back :: "'s \<Rightarrow> nat \<Rightarrow> nat \<Rightarrow> 's \<times> bool"

section \<open>Blocks\<close>

definition LENGTH_BASE :: "nat list" where
  "LENGTH_BASE = [3, 4, 5, 6, 7, 8, 9, 10, 11, 13, 15, 17, 19, 23, 27, 31, 35, 43, 51, 59, 67, 83,
     99, 115, 131, 163, 195, 227, 258]"

definition LENGTH_EXTRA :: "nat list" where
  "LENGTH_EXTRA = [0, 0, 0, 0, 0, 0, 0, 0, 1, 1, 1, 1, 2, 2, 2, 2, 3, 3, 3, 3, 4, 4, 4, 4, 5, 5, 5,
     5, 0]"

definition DIST_BASE :: "nat list" where
  "DIST_BASE = [1, 2, 3, 4, 5, 7, 9, 13, 17, 25, 33, 49, 65, 97, 129, 193, 257, 385, 513, 769,
     1025, 1537, 2049, 3073, 4097, 6145, 8193, 12289, 16385, 24577]"

definition DIST_EXTRA :: "nat list" where
  "DIST_EXTRA = [0, 0, 0, 0, 1, 1, 2, 2, 3, 3, 4, 4, 5, 5, 6, 6, 7, 7, 8, 8, 9, 9, 10, 10, 11, 11,
     12, 12, 13, 13]"

text \<open>
  The back reference of a symbol past the literals: its length and distance, or \<open>None\<close> where
  a code or the stream is exhausted.
\<close>

definition back_reference :: "bit_reader \<Rightarrow> huffman \<Rightarrow> nat \<Rightarrow> bit_reader \<times> (nat \<times> nat) option" where
  "back_reference r distcode k =
     (case rd_bits (LENGTH_EXTRA ! k) r of (r2, e) \<Rightarrow>
      case decode r2 distcode of
        (r3, None) \<Rightarrow> (r3, None)
      | (r3, Some x) \<Rightarrow>
          if x \<ge> 30 then (r3, None)
          else case rd_bits (DIST_EXTRA ! x) r3 of (r4, de) \<Rightarrow>
                 if read_error r4 then (r4, None)
                 else (r4, Some (DIST_BASE ! x + de, LENGTH_BASE ! k + e)))"

lemma back_reference_keeps:
  assumes "reader_law P" "back_reference r dc k = (r', x)" "P r"
  shows "P r'"
proof -
  obtain r2 e where r2: "rd_bits (LENGTH_EXTRA ! k) r = (r2, e)" by fastforce
  obtain r3 y where r3: "decode r2 dc = (r3, y)" by fastforce
  have p: "P r2" "P r3"
    using reader_lawD(1) [OF assms(1,3) r2] decode_keeps [OF assms(1) r3] by auto
  show ?thesis
  proof (cases y)
    case (Some z)
    obtain r4 de where r4: "rd_bits (DIST_EXTRA ! z) r3 = (r4, de)" by fastforce
    then show ?thesis
      using assms(2) r2 r3 Some p reader_lawD(1) [OF assms(1) p(2) r4]
      by (auto simp: back_reference_def split: if_splits)
  qed (use assms(2) r2 r3 p in \<open>auto simp: back_reference_def\<close>)
qed

lemmas back_reference_left = back_reference_keeps [OF reader_law_left _ order_refl]

function codes_loop ::
  "'s sink_ops \<Rightarrow> huffman \<Rightarrow> huffman \<Rightarrow> bit_reader \<Rightarrow> 's \<Rightarrow> bit_reader \<times> 's \<times> bool" where
  "codes_loop k lencode distcode r s =
     (case decode r lencode of
        (r1, None) \<Rightarrow> (r1, s, False)
      | (r1, Some symbol) \<Rightarrow>
          if symbol = 256 then (r1, s, True)
          else if symbol < 256
          then (case sink_push k s (word_of_nat symbol) of (s', ok) \<Rightarrow>
                  if ok then codes_loop k lencode distcode r1 s' else (r1, s', False))
          else if symbol - 257 \<ge> 29 then (r1, s, False)
          else (case back_reference r1 distcode (symbol - 257) of
                  (r2, None) \<Rightarrow> (r2, s, False)
                | (r2, Some (dist, len)) \<Rightarrow>
                    (case sink_copy_back k s dist len of (s', ok) \<Rightarrow>
                       if ok then codes_loop k lencode distcode r2 s' else (r2, s', False))))"
  by pat_completeness auto
termination
proof (relation "measure (\<lambda>(_, _, _, r, _). bits_left r)", goal_cases)
  case (2 k lencode distcode r s x xa)
  then show ?case by (auto dest!: decode_left [OF sym])
next
  case (3 k lencode distcode r s x xa y xb)
  then show ?case using back_reference_left decode_left by (simp) (metis le_less_trans)
qed auto

declare codes_loop.simps [simp del]

text \<open>Taking bytes from the source, past the bits.\<close>

fun take_bytes :: "nat \<Rightarrow> bit_reader \<Rightarrow> bit_reader \<times> bytes option" where
  "take_bytes 0 r = (r, Some [])"
| "take_bytes (Suc n) r =
     (case source_next (rd_source r) of
        (s, None) \<Rightarrow> (r\<lparr>rd_source := s\<rparr>, None)
      | (s, Some b) \<Rightarrow>
          (case take_bytes n (r\<lparr>rd_source := s\<rparr>) of
             (r', None) \<Rightarrow> (r', None)
           | (r', Some bs) \<Rightarrow> (r', Some (b # bs))))"

fun copy_stored :: "'s sink_ops \<Rightarrow> nat \<Rightarrow> bit_reader \<Rightarrow> 's \<Rightarrow> bit_reader \<times> 's \<times> bool" where
  "copy_stored k 0 r s = (r, s, True)"
| "copy_stored k (Suc n) r s =
     (case source_next (rd_source r) of
        (src, None) \<Rightarrow> (r\<lparr>rd_source := src\<rparr>, s, False)
      | (src, Some b) \<Rightarrow>
          (case sink_push k s b of (s', ok) \<Rightarrow>
             if ok then copy_stored k n (r\<lparr>rd_source := src\<rparr>) s'
             else (r\<lparr>rd_source := src\<rparr>, s', False)))"

definition stored_block :: "'s sink_ops \<Rightarrow> bit_reader \<Rightarrow> 's \<Rightarrow> bit_reader \<times> 's \<times> bool" where
  "stored_block k r s =
     (case take_bytes 4 (r\<lparr>bit_buffer := 0, bit_count := 0\<rparr>) of
        (r1, None) \<Rightarrow> (r1, s, False)
      | (r1, Some header) \<Rightarrow>
          let len = le_nat (take 2 header); nlen = le_nat (drop 2 header)
          in if (word_of_nat len :: u16) \<noteq> NOT (word_of_nat nlen) then (r1, s, False)
             else copy_stored k len r1 s)"

definition fixed_lengths :: "nat list" where
  "fixed_lengths = map (\<lambda>symbol. if symbol < 144 then 8 else if symbol < 256 then 9
     else if symbol < 280 then 7 else 8) [0..<FIX_LCODES]"

definition fixed_block :: "'s sink_ops \<Rightarrow> bit_reader \<Rightarrow> 's \<Rightarrow> bit_reader \<times> 's \<times> bool" where
  "fixed_block k r s =
     codes_loop k (fst (construct huffman_new fixed_lengths FIX_LCODES))
       (fst (construct huffman_new (replicate MAX_DCODES 5) MAX_DCODES)) r s"

definition ORDER :: "nat list" where
  "ORDER = [16, 17, 18, 0, 8, 7, 9, 6, 10, 5, 11, 4, 12, 3, 13, 2, 14, 1, 15]"

fun read_code_lengths :: "nat list \<Rightarrow> bit_reader \<Rightarrow> nat list \<Rightarrow> bit_reader \<times> nat list" where
  "read_code_lengths [] r ls = (r, ls)"
| "read_code_lengths (at # ats) r ls =
     (case rd_bits 3 r of (r', x) \<Rightarrow> read_code_lengths ats r' (ls[at := x]))"

text \<open>The repeat a symbol of 16 and more asks for: the length repeated and how often.\<close>

definition repeat_of :: "nat \<Rightarrow> nat list \<Rightarrow> nat \<Rightarrow> bit_reader \<Rightarrow> bit_reader \<times> (nat \<times> nat) option" where
  "repeat_of symbol ls index r =
     (if symbol = 16 then
        (if index = 0 then (r, None)
         else case rd_bits 2 r of (r', x) \<Rightarrow> (r', Some (ls ! (index - 1), 3 + x)))
      else if symbol = 17 then (case rd_bits 3 r of (r', x) \<Rightarrow> (r', Some (0, 3 + x)))
      else (case rd_bits 7 r of (r', x) \<Rightarrow> (r', Some (0, 11 + x))))"

definition put_repeat :: "nat \<Rightarrow> nat \<Rightarrow> nat \<Rightarrow> nat list \<Rightarrow> nat list" where
  "put_repeat index count len ls = foldl (\<lambda>ls i. ls[i := len]) ls [index..<index + count]"

lemma repeat_of_positive: "repeat_of symbol ls index r = (r', Some (len, count)) \<Longrightarrow> 0 < count"
  by (auto simp: repeat_of_def split: if_splits prod.splits)

function read_lengths ::
  "huffman \<Rightarrow> nat \<Rightarrow> bit_reader \<Rightarrow> nat list \<Rightarrow> nat \<Rightarrow> bit_reader \<times> nat list option" where
  "read_lengths lencode want r ls index =
     (if index \<ge> want then (r, Some ls)
      else case decode r lencode of
             (r1, None) \<Rightarrow> (r1, None)
           | (r1, Some symbol) \<Rightarrow>
               if symbol < 16 then read_lengths lencode want r1 (ls[index := symbol]) (Suc index)
               else (case repeat_of symbol ls index r1 of
                       (r2, None) \<Rightarrow> (r2, None)
                     | (r2, Some (len, count)) \<Rightarrow>
                         if index + count > want then (r2, None)
                         else read_lengths lencode want r2 (put_repeat index count len ls)
                                (index + count)))"
  by pat_completeness auto
termination
  by (relation "measure (\<lambda>(_, want, _, _, index). want - index)")
    (auto dest!: repeat_of_positive [OF sym])

declare read_lengths.simps [simp del]

definition dynamic_block :: "'s sink_ops \<Rightarrow> bit_reader \<Rightarrow> 's \<Rightarrow> bit_reader \<times> 's \<times> bool" where
  "dynamic_block k r s =
     (case rd_bits 5 r of (r1, a) \<Rightarrow> case rd_bits 5 r1 of (r2, b) \<Rightarrow> case rd_bits 4 r2 of (r3, c) \<Rightarrow>
        let hlit = a + 257; hdist = b + 1; hclen = c + 4
        in if read_error r3 \<or> hlit > MAX_LCODES \<or> hdist > MAX_DCODES then (r3, s, False)
           else case read_code_lengths (take hclen ORDER) r3 (replicate 19 0) of (r4, code_lengths) \<Rightarrow>
             case construct huffman_new code_lengths 19 of
               (lencode, False) \<Rightarrow> (r4, s, False)
             | (lencode, True) \<Rightarrow>
                 (case read_lengths lencode (hlit + hdist) r4 (replicate MAX_CODES 0) 0 of
                    (r5, None) \<Rightarrow> (r5, s, False)
                  | (r5, Some lengths) \<Rightarrow>
                      if lengths ! 256 = 0 then (r5, s, False)
                      else case construct huffman_new lengths hlit of
                             (lit_code, False) \<Rightarrow> (r5, s, False)
                           | (lit_code, True) \<Rightarrow>
                               codes_loop k lit_code
                                 (fst (construct huffman_new (drop hlit lengths) hdist)) r5 s))"

section \<open>The stream\<close>

definition block :: "'s sink_ops \<Rightarrow> nat \<Rightarrow> bit_reader \<Rightarrow> 's \<Rightarrow> bit_reader \<times> 's \<times> bool" where
  "block k block_type r s =
     (if block_type = 0 then stored_block k r s
      else if block_type = 1 then fixed_block k r s
      else if block_type = 2 then dynamic_block k r s
      else (r, s, False))"

lemma codes_loop_keeps: "reader_law P \<Longrightarrow> codes_loop k lc dc r s = (r', s', ok) \<Longrightarrow> P r \<Longrightarrow> P r'"
proof (induction k lc dc r s rule: codes_loop.induct)
  case (1 k lc dc r s)
  obtain r1 x where d: "decode r lc = (r1, x)" by fastforce
  have l: "P r1" using decode_keeps "1.prems" d by blast
  show ?case
  proof (cases x)
    case None
    then show ?thesis using "1.prems"(2) d l by (subst (asm) codes_loop.simps) simp
  next
    case (Some symbol)
    consider "symbol = 256" | "symbol < 256" | "symbol > 256" by linarith
    then show ?thesis
    proof cases
      case 1
      then show ?thesis using "1.prems"(2) d Some l by (subst (asm) codes_loop.simps) simp
    next
      case 2
      obtain s1 ok1 where p: "sink_push k s (word_of_nat symbol) = (s1, ok1)" by fastforce
      show ?thesis
      proof (cases ok1)
        case True
        then have "codes_loop k lc dc r1 s1 = (r', s', ok)"
          using "1.prems"(2) d Some 2 p by (subst (asm) codes_loop.simps) simp
        then show ?thesis
          using "1.IH"(1) [of r1 x symbol s1 ok1] "1.prems"(1) l d Some 2 p True by simp
      next
        case False
        then show ?thesis using "1.prems"(2) d Some 2 p l by (subst (asm) codes_loop.simps) simp
      qed
    next
      case 3
      obtain r2 y where b: "back_reference r1 dc (symbol - 257) = (r2, y)" by fastforce
      have l2: "P r2" by (rule back_reference_keeps [OF "1.prems"(1) b l])
      show ?thesis
      proof (cases "symbol - 257 \<ge> 29 \<or> y = None")
        case True
        then show ?thesis using "1.prems"(2) d Some 3 b l l2
          by (subst (asm) codes_loop.simps) (auto split: if_splits)
      next
        case False
        then obtain dist len where y: "y = Some (dist, len)" by auto
        obtain s1 ok1 where p: "sink_copy_back k s dist len = (s1, ok1)" by fastforce
        show ?thesis
        proof (cases ok1)
          case True
          then have "codes_loop k lc dc r2 s1 = (r', s', ok)"
            using "1.prems"(2) d Some 3 b y False p by (subst (asm) codes_loop.simps) simp
          then show ?thesis
            using "1.IH"(2) [of r1 x symbol r2 y "(dist, len)" dist len s1 ok1] "1.prems"(1) l2
              d Some 3 b y False p True by simp
        next
          case False
          then show ?thesis using "1.prems"(2) d Some 3 b y \<open>\<not> (symbol - 257 \<ge> 29 \<or> y = None)\<close> p l l2
            by (subst (asm) codes_loop.simps) simp
        qed
      qed
    qed
  qed
qed

lemma take_bytes_keeps: "reader_law P \<Longrightarrow> take_bytes n r = (r', x) \<Longrightarrow> P r \<Longrightarrow> P r'"
proof (induction n r arbitrary: r' x rule: take_bytes.induct)
  case (2 n r)
  obtain src y where n: "source_next (rd_source r) = (src, y)" by fastforce
  have "P (r\<lparr>rd_source := src\<rparr>)" by (rule reader_lawD(2) [OF 2(2,4) n])
  then show ?case using 2(1) [OF n [symmetric] _ 2(2)] 2(3) n
    by (auto split: prod.splits option.splits)
qed simp

lemma copy_stored_keeps: "reader_law P \<Longrightarrow> copy_stored k n r s = (r', s', ok) \<Longrightarrow> P r \<Longrightarrow> P r'"
proof (induction k n r s arbitrary: r' s' ok rule: copy_stored.induct)
  case (2 k n r s)
  obtain src y where n: "source_next (rd_source r) = (src, y)" by fastforce
  have "P (r\<lparr>rd_source := src\<rparr>)" by (rule reader_lawD(2) [OF 2(2,4) n])
  then show ?case using 2(1) [OF n [symmetric] _ _ _ 2(2)] 2(3) n
    by (auto split: prod.splits option.splits if_splits)
qed simp

lemma stored_block_keeps:
  assumes "reader_law P" "stored_block k r s = (r', s', ok)" "P r"
  shows "P r'"
proof -
  obtain r1 x where t: "take_bytes 4 (r\<lparr>bit_buffer := 0, bit_count := 0\<rparr>) = (r1, x)" by fastforce
  have l: "P r1" using take_bytes_keeps [OF assms(1) t] reader_lawD(3) [OF assms(1,3)] by blast
  show ?thesis
  proof (cases x)
    case (Some header)
    then show ?thesis
      using assms(2) t l copy_stored_keeps [OF assms(1), of k _ r1 s r' s' ok]
      by (fastforce simp: stored_block_def Let_def split: if_splits)
  qed (use assms(2) t l in \<open>auto simp: stored_block_def\<close>)
qed

lemma read_code_lengths_keeps:
  "reader_law P \<Longrightarrow> read_code_lengths ats r ls = (r', ls') \<Longrightarrow> P r \<Longrightarrow> P r'"
proof (induction ats r ls rule: read_code_lengths.induct)
  case (2 at ats r ls)
  then show ?case using reader_lawD(1) by (fastforce split: prod.splits)
qed simp

lemma repeat_of_keeps: "reader_law P \<Longrightarrow> repeat_of symbol ls index r = (r', x) \<Longrightarrow> P r \<Longrightarrow> P r'"
  using reader_lawD(1) by (fastforce simp: repeat_of_def split: if_splits prod.splits)

lemma read_lengths_keeps:
  "reader_law P \<Longrightarrow> read_lengths h want r ls index = (r', x) \<Longrightarrow> P r \<Longrightarrow> P r'"
proof (induction h want r ls index rule: read_lengths.induct)
  case (1 h want r ls index)
  obtain r1 y where d: "decode r h = (r1, y)" by fastforce
  have l: "P r1" using decode_keeps "1.prems" d by blast
  show ?case
  proof (cases "index \<ge> want \<or> y = None")
    case True
    then show ?thesis using "1.prems"(2,3) d l by (subst (asm) read_lengths.simps) (auto split: if_splits)
  next
    case False
    then obtain symbol where y: "y = Some symbol" by auto
    show ?thesis
    proof (cases "symbol < 16")
      case True
      then have "read_lengths h want r1 (ls[index := symbol]) (Suc index) = (r', x)"
        using "1.prems"(2) d y False by (subst (asm) read_lengths.simps) simp
      then show ?thesis using "1.IH"(1) [of r1 y symbol] "1.prems"(1) l d y False True by simp
    next
      case big: False
      obtain r2 z where rp: "repeat_of symbol ls index r1 = (r2, z)" by fastforce
      note l2 = repeat_of_keeps [OF "1.prems"(1) rp l]
      show ?thesis
      proof (cases "\<exists>len count. z = Some (len, count) \<and> index + count \<le> want")
        case True
        then obtain len count where z: "z = Some (len, count)" "index + count \<le> want" by blast
        then have "read_lengths h want r2 (put_repeat index count len ls) (index + count) = (r', x)"
          using "1.prems"(2) d y False big rp by (subst (asm) read_lengths.simps) simp
        then show ?thesis
          using "1.IH"(2) [of r1 y symbol r2 z "(len, count)" len count] "1.prems"(1) l2 d y False big rp z
          by simp
      next
        case False
        then show ?thesis using "1.prems"(2) d y \<open>\<not> (index \<ge> want \<or> y = None)\<close> big rp l l2
          by (subst (asm) read_lengths.simps) (auto split: option.splits if_splits)
      qed
    qed
  qed
qed

lemma dynamic_block_keeps:
  assumes law: "reader_law P" and b: "dynamic_block k r s = (r', s', ok)" and "P r"
  shows "P r'"
proof -
  obtain r1 x1 where r1: "rd_bits 5 r = (r1, x1)" by fastforce
  obtain r2 x2 where r2: "rd_bits 5 r1 = (r2, x2)" by fastforce
  obtain r3 x3 where r3: "rd_bits 4 r2 = (r3, x3)" by fastforce
  have p3: "P r3" using reader_lawD(1) [OF law] r1 r2 r3 assms(3) by metis
  obtain r4 cl where r4: "read_code_lengths (take (x3 + 4) ORDER) r3 (replicate 19 0) = (r4, cl)"
    by fastforce
  obtain h hok where h: "construct huffman_new cl 19 = (h, hok)" by fastforce
  obtain r5 ls where r5: "read_lengths h (x1 + 257 + (x2 + 1)) r4 (replicate MAX_CODES 0) 0 = (r5, ls)"
    by fastforce
  have p4: "P r4" by (rule read_code_lengths_keeps [OF law r4 p3])
  have p5: "P r5" by (rule read_lengths_keeps [OF law r5 p4])
  obtain lit lok where lit: "construct huffman_new (the ls) (x1 + 257) = (lit, lok)" by fastforce
  define dist where "dist = fst (construct huffman_new (drop (x1 + 257) (the ls)) (x2 + 1))"
  obtain r6 s6 ok6 where c: "codes_loop k lit dist r5 s = (r6, s6, ok6)" by (metis prod_cases3)
  have "r' \<in> {r3, r4, r5, r6}"
    using b r1 r2 r3 r4 h r5 lit c unfolding dynamic_block_def dist_def
    by (cases hok; cases ls; cases lok) (auto simp: Let_def split: if_splits)
  then show ?thesis using p3 p4 p5 codes_loop_keeps [OF law c p5] by auto
qed

lemma block_keeps: "reader_law P \<Longrightarrow> block k t r s = (r', s', ok) \<Longrightarrow> P r \<Longrightarrow> P r'"
  using stored_block_keeps [of P k r s r' s' ok] dynamic_block_keeps [of P k r s r' s' ok]
    codes_loop_keeps [of P k _ _ r s r' s' ok]
  by (auto simp: block_def fixed_block_def split: if_splits)

lemmas block_left = block_keeps [OF reader_law_left _ order_refl]

function inflate_blocks :: "'s sink_ops \<Rightarrow> bit_reader \<Rightarrow> 's \<Rightarrow> bit_reader \<times> 's \<times> bool" where
  "inflate_blocks k r s =
     (case rd_bits 1 r of (r1, final) \<Rightarrow> case rd_bits 2 r1 of (r2, block_type) \<Rightarrow>
        if read_error r2 then (r2, s, False)
        else case block k block_type r2 s of
               (r3, s', ok) \<Rightarrow>
                 if \<not> ok then (r3, s', False)
                 else if final \<noteq> 0 then (r3, s', True)
                 else inflate_blocks k r3 s')"
  by pat_completeness auto
termination
proof (relation "measure (\<lambda>(_, r, _). bits_left r)", goal_cases)
  case (2 k r s r1 final r2 t r3 rest s' ok)
  have "rd_bits 1 r = (r1, final)" "rd_bits 2 r1 = (r2, t)" "block k t r2 s = (r3, s', ok)"
    using 2 by simp_all
  from rd_bits_left(2) [OF this(2) 2(3)] rd_bits_left(2) [OF this(1)] block_left [OF this(3)]
  show ?case by simp
qed simp

declare inflate_blocks.simps [simp del]

lemma inflate_blocks_keeps: "reader_law P \<Longrightarrow> inflate_blocks k r s = (r', s', ok) \<Longrightarrow> P r \<Longrightarrow> P r'"
proof (induction k r s rule: inflate_blocks.induct)
  case (1 k r s)
  obtain r1 final where r1: "rd_bits 1 r = (r1, final)" by fastforce
  obtain r2 t where r2: "rd_bits 2 r1 = (r2, t)" by fastforce
  obtain r3 s3 ok3 where b: "block k t r2 s = (r3, s3, ok3)" by (metis prod_cases3)
  have p2: "P r2" using reader_lawD(1) [OF "1.prems"(1)] r1 r2 "1.prems"(3) by metis
  have p3: "P r3" by (rule block_keeps [OF "1.prems"(1) b p2])
  show ?case
  proof (cases "\<not> read_error r2 \<and> ok3 \<and> final = 0")
    case True
    then have "inflate_blocks k r3 s3 = (r', s', ok)"
      using "1.prems"(2) r1 r2 b by (subst (asm) inflate_blocks.simps) simp
    then show ?thesis
      using "1.IH" [of r1 final r2 t r3 "(s3, ok3)" s3 ok3] "1.prems"(1) r1 r2 b True p3 by simp
  next
    case False
    then show ?thesis
      using "1.prems"(2) r1 r2 b p2 p3 by (subst (asm) inflate_blocks.simps) (auto split: if_splits)
  qed
qed

definition inflate_into :: "byte_source \<Rightarrow> 's sink_ops \<Rightarrow> 's \<Rightarrow> bit_reader \<times> 's \<times> bool" where
  "inflate_into src k s = inflate_blocks k (reader_new src) s"

section \<open>The two sinks\<close>

record vec_sink =
  vec_out :: bytes
  vec_cap :: nat

definition vec_push :: "vec_sink \<Rightarrow> u8 \<Rightarrow> vec_sink \<times> bool" where
  "vec_push s b =
     (if length (vec_out s) \<ge> vec_cap s then (s, False)
      else (s\<lparr>vec_out := vec_out s @ [b]\<rparr>, True))"

fun vec_repeat :: "nat \<Rightarrow> vec_sink \<Rightarrow> nat \<Rightarrow> vec_sink \<times> bool" where
  "vec_repeat dist s 0 = (s, True)"
| "vec_repeat dist s (Suc n) =
     (case vec_push s (vec_out s ! (length (vec_out s) - dist)) of
        (s', ok) \<Rightarrow> if ok then vec_repeat dist s' n else (s', False))"

definition vec_copy_back :: "vec_sink \<Rightarrow> nat \<Rightarrow> nat \<Rightarrow> vec_sink \<times> bool" where
  "vec_copy_back s dist len =
     (if dist = 0 \<or> dist > length (vec_out s) then (s, False) else vec_repeat dist s len)"

definition vec_ops :: "vec_sink sink_ops" where
  "vec_ops = \<lparr>sink_push = vec_push, sink_copy_back = vec_copy_back\<rparr>"

definition WINDOW_KEEP :: nat where "WINDOW_KEEP = 32 * 1024"
definition WINDOW_FULL :: nat where "WINDOW_FULL = 64 * 1024"

text \<open>The spool's file is its bytes; \<open>host\<close> says whether the host takes a write at an offset.\<close>

record spool_sink =
  spool_file :: bytes
  spool_host :: "nat \<Rightarrow> bool"
  window :: bytes
  flushed :: nat
  spool_cap :: nat
  spool_failed :: bool

definition spool_new :: "bytes \<Rightarrow> (nat \<Rightarrow> bool) \<Rightarrow> nat \<Rightarrow> spool_sink" where
  "spool_new file host cap = \<lparr>spool_file = file, spool_host = host, window = [], flushed = 0,
     spool_cap = cap, spool_failed = False\<rparr>"

definition spool_total :: "spool_sink \<Rightarrow> nat" where
  "spool_total s = flushed s + length (window s)"

definition flush_half :: "spool_sink \<Rightarrow> spool_sink \<times> bool" where
  "flush_half s =
     (if \<not> spool_host s (flushed s) then (s\<lparr>spool_failed := True\<rparr>, False)
      else (s\<lparr>spool_file := file_write_all_at (spool_file s) (flushed s) (take WINDOW_KEEP (window s)),
              flushed := flushed s + WINDOW_KEEP, window := drop WINDOW_KEEP (window s)\<rparr>, True))"

definition spool_push :: "spool_sink \<Rightarrow> u8 \<Rightarrow> spool_sink \<times> bool" where
  "spool_push s b =
     (if spool_failed s \<or> spool_total s \<ge> spool_cap s then (s, False)
      else case (if length (window s) = WINDOW_FULL then flush_half s else (s, True)) of
             (s', ok) \<Rightarrow> if ok then (s'\<lparr>window := window s' @ [b]\<rparr>, True) else (s', False))"

fun spool_repeat :: "nat \<Rightarrow> spool_sink \<Rightarrow> nat \<Rightarrow> spool_sink \<times> bool" where
  "spool_repeat dist s 0 = (s, True)"
| "spool_repeat dist s (Suc n) =
     (case spool_push s (window s ! (length (window s) - dist)) of
        (s', ok) \<Rightarrow> if ok then spool_repeat dist s' n else (s', False))"

definition spool_copy_back :: "spool_sink \<Rightarrow> nat \<Rightarrow> nat \<Rightarrow> spool_sink \<times> bool" where
  "spool_copy_back s dist len =
     (if dist = 0 \<or> dist > length (window s) then (s, False) else spool_repeat dist s len)"

definition spool_ops :: "spool_sink sink_ops" where
  "spool_ops = \<lparr>sink_push = spool_push, sink_copy_back = spool_copy_back\<rparr>"

definition spool_finish :: "spool_sink \<Rightarrow> bytes \<times> nat option" where
  "spool_finish s =
     (if spool_failed s then (spool_file s, None)
      else if window s = [] then (spool_file s, Some (flushed s))
      else if \<not> spool_host s (flushed s) then (spool_file s, None)
      else (file_write_all_at (spool_file s) (flushed s) (window s),
            Some (flushed s + length (window s))))"

section \<open>The entry points\<close>

definition inflate :: "bytes \<Rightarrow> nat \<Rightarrow> bytes option" where
  "inflate coded_bytes expected_size =
     (case inflate_into (slice_source coded_bytes) vec_ops \<lparr>vec_out = [], vec_cap = expected_size\<rparr> of
        (r, s, ok) \<Rightarrow> if ok then Some (vec_out s) else None)"

definition inflate_bounded :: "bytes \<Rightarrow> nat \<Rightarrow> bytes option" where
  "inflate_bounded coded_bytes cap =
     (case inflate_into (slice_source coded_bytes) vec_ops \<lparr>vec_out = [], vec_cap = cap\<rparr> of
        (r, s, ok) \<Rightarrow> if ok then Some (vec_out s) else None)"

definition inflate_file_to_spool ::
  "bytes \<Rightarrow> nat \<Rightarrow> nat \<Rightarrow> nat \<Rightarrow> bytes \<Rightarrow> (nat \<Rightarrow> bool) \<Rightarrow> bytes \<times> nat option result" where
  "inflate_file_to_spool file offset len expected_size spool host =
     (case inflate_into (file_source file offset len) spool_ops (spool_new spool host expected_size) of
        (r, s, ok) \<Rightarrow>
          if source_failed (rd_source r) then (spool_file s, Inl io_error)
          else if spool_failed s then (spool_file s, Inl io_error)
          else if \<not> ok then (spool_file s, Inr None)
          else case spool_finish s of
                 (f, Some n) \<Rightarrow> (f, Inr (Some n))
               | (f, None) \<Rightarrow> (f, Inl io_error))"

end
