(* ===== verification/Inflate_Sinks.thy ===== *)
theory Inflate_Sinks
  imports Inflate
begin

text \<open>
  The interface between the decoder and its sinks. A sink that takes bytes and back references as
  the plain vector does is driven by the decoder to the same answer; the vector is one, and so is
  the spool, although it keeps only the window of the format and writes the rest to its file.
\<close>

section \<open>The contract of a sink\<close>

definition vec_sink_of :: "bytes \<Rightarrow> nat \<Rightarrow> vec_sink" where
  "vec_sink_of bs cap = \<lparr>vec_out = bs, vec_cap = cap\<rparr>"

locale inflate_sink =
  fixes ops :: "'s sink_ops"
    and sink_contents :: "'s \<Rightarrow> bytes"
    and good :: "'s \<Rightarrow> bool"
    and cap :: nat
  assumes push_law: "good s \<Longrightarrow> vec_push (vec_sink_of (sink_contents s) cap) b = (t, ok) \<Longrightarrow>
      \<exists>s'. sink_push ops s b = (s', ok) \<and> good s' \<and> t = vec_sink_of (sink_contents s') cap"
    and copy_law: "good s \<Longrightarrow> dist \<le> 32768 \<Longrightarrow>
      vec_copy_back (vec_sink_of (sink_contents s) cap) dist len = (t, ok) \<Longrightarrow>
      \<exists>s'. sink_copy_back ops s dist len = (s', ok) \<and> good s' \<and> t = vec_sink_of (sink_contents s') cap"
begin

text \<open>Two runs of a step agree: the same reader, the same answer, the same bytes.\<close>

definition agree :: "bit_reader \<times> 's \<times> bool \<Rightarrow> bit_reader \<times> vec_sink \<times> bool \<Rightarrow> bool" where
  "agree x y \<longleftrightarrow> fst x = fst y \<and> snd (snd x) = snd (snd y) \<and> good (fst (snd x)) \<and>
     fst (snd y) = vec_sink_of (sink_contents (fst (snd x))) cap"

lemma agree_simp [simp]:
  "agree (r, s, ok) (r', t, ok') \<longleftrightarrow>
     r = r' \<and> ok = ok' \<and> good s \<and> t = vec_sink_of (sink_contents s) cap"
  by (simp add: agree_def)

lemma push_cases:
  assumes "good s"
  obtains s' ok where "sink_push ops s b = (s', ok)" "good s'"
    "vec_push (vec_sink_of (sink_contents s) cap) b = (vec_sink_of (sink_contents s') cap, ok)"
proof -
  obtain t ok where v: "vec_push (vec_sink_of (sink_contents s) cap) b = (t, ok)" by fastforce
  show thesis using push_law [OF assms v] v that by blast
qed

lemma copy_cases:
  assumes "good s" "dist \<le> 32768"
  obtains s' ok where "sink_copy_back ops s dist len = (s', ok)" "good s'"
    "vec_copy_back (vec_sink_of (sink_contents s) cap) dist len = (vec_sink_of (sink_contents s') cap, ok)"
proof -
  obtain t ok where v: "vec_copy_back (vec_sink_of (sink_contents s) cap) dist len = (t, ok)" by fastforce
  show thesis using copy_law [OF assms v] v that by blast
qed

lemma copy_stored_agree:
  "good s \<Longrightarrow> agree (copy_stored ops n r s) (copy_stored vec_ops n r (vec_sink_of (sink_contents s) cap))"
proof (induction n arbitrary: r s)
  case (Suc n)
  obtain src x where n: "source_next (rd_source r) = (src, x)" by fastforce
  show ?case
  proof (cases x)
    case (Some b)
    obtain s' ok where "sink_push ops s b = (s', ok)" "good s'"
      "vec_push (vec_sink_of (sink_contents s) cap) b = (vec_sink_of (sink_contents s') cap, ok)"
      by (rule push_cases [OF Suc.prems])
    then show ?thesis using n Some Suc.IH [of s'] by (simp add: vec_ops_def)
  qed (use n Suc.prems in simp)
qed simp

lemma back_reference_bound:
  assumes "back_reference r dc k = (r', Some (dist, len))"
  shows "dist \<le> 32768"
proof -
  obtain r2 e where r2: "rd_bits (LENGTH_EXTRA ! k) r = (r2, e)" by fastforce
  obtain r3 y where r3: "decode r2 dc = (r3, y)" by fastforce
  then obtain x where x: "y = Some x" "x < 30"
    using assms r2 by (cases y) (auto simp: back_reference_def not_le split: if_splits)
  obtain r4 de where r4: "rd_bits (DIST_EXTRA ! x) r3 = (r4, de)" by fastforce
  have "dist = DIST_BASE ! x + de"
    using assms r2 r3 x r4 by (auto simp: back_reference_def split: if_splits)
  moreover have "de < 2 ^ (DIST_EXTRA ! x)"
    using r4 by (auto simp: rd_bits_def split: option.splits prod.splits)
  moreover have "DIST_BASE ! x + 2 ^ (DIST_EXTRA ! x) \<le> 32769"
  proof -
    have "\<forall>i\<in>set [0..<30]. DIST_BASE ! i + 2 ^ (DIST_EXTRA ! i) \<le> 32769"
      by (simp add: DIST_BASE_def DIST_EXTRA_def upt_rec)
    then show ?thesis using x(2) by simp
  qed
  ultimately show ?thesis by linarith
qed

lemma codes_loop_agree:
  "good s \<Longrightarrow> agree (codes_loop ops lc dc r s) (codes_loop vec_ops lc dc r (vec_sink_of (sink_contents s) cap))"
proof (induction "bits_left r" arbitrary: r s rule: less_induct)
  case less
  let ?t = "vec_sink_of (sink_contents s) cap"
  obtain r1 x where d: "decode r lc = (r1, x)" by fastforce
  show ?case
  proof (cases x)
    case None
    then show ?thesis using d less.prems by (simp add: codes_loop.simps [of _ _ _ r])
  next
    case (Some symbol)
    have l: "bits_left r1 < bits_left r" using decode_left d Some by blast
    consider "symbol = 256" | "symbol < 256" | "symbol > 256" by linarith
    then show ?thesis
    proof cases
      case 1
      then show ?thesis using d Some less.prems by (simp add: codes_loop.simps [of _ _ _ r])
    next
      case 2
      obtain s' ok where "sink_push ops s (word_of_nat symbol) = (s', ok)" "good s'"
        "vec_push ?t (word_of_nat symbol) = (vec_sink_of (sink_contents s') cap, ok)"
        by (rule push_cases [OF less.prems])
      then show ?thesis
        using d Some 2 less.hyps [OF l, of s']
        by (simp add: codes_loop.simps [of _ _ _ r] vec_ops_def)
    next
      case 3
      obtain r2 y where b: "back_reference r1 dc (symbol - 257) = (r2, y)" by fastforce
      show ?thesis
      proof (cases "symbol - 257 \<ge> 29 \<or> y = None")
        case True
        then show ?thesis using d Some 3 b less.prems by (auto simp: codes_loop.simps [of _ _ _ r])
      next
        case False
        then obtain dist len where y: "y = Some (dist, len)" by auto
        have "dist \<le> 32768" using back_reference_bound b y by blast
        then obtain s' ok where "sink_copy_back ops s dist len = (s', ok)" "good s'"
          "vec_copy_back ?t dist len = (vec_sink_of (sink_contents s') cap, ok)"
          by (rule copy_cases [OF less.prems])
        moreover have "bits_left r2 < bits_left r" using back_reference_left [OF b] l by simp
        ultimately show ?thesis
          using d Some 3 b y False less.hyps [of r2 s']
          by (simp add: codes_loop.simps [of _ _ _ r] vec_ops_def)
      qed
    qed
  qed
qed

lemma stored_block_agree:
  "good s \<Longrightarrow> agree (stored_block ops r s) (stored_block vec_ops r (vec_sink_of (sink_contents s) cap))"
  using copy_stored_agree [of s] by (auto simp: stored_block_def Let_def split: prod.splits option.splits)

lemma dynamic_block_agree:
  "good s \<Longrightarrow> agree (dynamic_block ops r s) (dynamic_block vec_ops r (vec_sink_of (sink_contents s) cap))"
  using codes_loop_agree [of s]
  by (auto simp: dynamic_block_def Let_def split: prod.splits option.splits bool.splits)

lemma block_agree:
  "good s \<Longrightarrow> agree (block ops t r s) (block vec_ops t r (vec_sink_of (sink_contents s) cap))"
  using stored_block_agree dynamic_block_agree codes_loop_agree by (simp add: block_def fixed_block_def)

lemma inflate_blocks_agree:
  "good s \<Longrightarrow> agree (inflate_blocks ops r s) (inflate_blocks vec_ops r (vec_sink_of (sink_contents s) cap))"
proof (induction "bits_left r" arbitrary: r s rule: less_induct)
  case less
  let ?t = "vec_sink_of (sink_contents s) cap"
  obtain r1 final where r1: "rd_bits 1 r = (r1, final)" by fastforce
  obtain r2 t where r2: "rd_bits 2 r1 = (r2, t)" by fastforce
  obtain r3 s' ok where b: "block ops t r2 s = (r3, s', ok)" by (metis prod_cases3)
  then have v: "block vec_ops t r2 ?t = (r3, vec_sink_of (sink_contents s') cap, ok)" "good s'"
    using block_agree [OF less.prems, of t r2] by (cases "block vec_ops t r2 ?t"; simp)+
  have "bits_left r3 < bits_left r" if "\<not> read_error r2"
    using rd_bits_left(2) [OF r2 that] rd_bits_left(2) [OF r1] block_left [OF b] by simp
  then show ?case
    using r1 r2 b v less.hyps [of r3 s'] less.prems by (auto simp: inflate_blocks.simps [of _ r])
qed

lemma sink_as_vector:
  assumes "good s"
  shows "\<exists>r s' ok. inflate_into src ops s = (r, s', ok) \<and> good s' \<and>
    inflate_into src vec_ops (vec_sink_of (sink_contents s) cap) = (r, vec_sink_of (sink_contents s') cap, ok)"
proof -
  obtain r s' ok where i: "inflate_into src ops s = (r, s', ok)" by (metis prod_cases3)
  have "agree (inflate_into src ops s) (inflate_into src vec_ops (vec_sink_of (sink_contents s) cap))"
    unfolding inflate_into_def by (rule inflate_blocks_agree [OF assms])
  then show ?thesis
    unfolding i by (cases "inflate_into src vec_ops (vec_sink_of (sink_contents s) cap)") simp
qed

end

section \<open>The vector\<close>

lemma vec_sink_of_simps [simp]:
  "vec_out (vec_sink_of bs n) = bs" "vec_cap (vec_sink_of bs n) = n"
  "vec_sink_of (vec_out s) (vec_cap s) = s"
  by (simp_all add: vec_sink_of_def)

lemma vec_push_cap: "vec_push s b = (t, ok) \<Longrightarrow> vec_cap t = vec_cap s"
  by (auto simp: vec_push_def split: if_splits)

lemma vec_repeat_cap: "vec_repeat dist s n = (t, ok) \<Longrightarrow> vec_cap t = vec_cap s"
  by (induction dist s n rule: vec_repeat.induct) (auto split: prod.splits if_splits dest!: vec_push_cap)

lemma vec_copy_cap: "vec_copy_back s dist len = (t, ok) \<Longrightarrow> vec_cap t = vec_cap s"
  by (auto simp: vec_copy_back_def vec_repeat_cap split: if_splits)

lemma vec_push_bound: "vec_push s b = (t, ok) \<Longrightarrow> length (vec_out s) \<le> vec_cap s \<Longrightarrow> length (vec_out t) \<le> vec_cap t"
  by (auto simp: vec_push_def split: if_splits)

lemma vec_repeat_bound:
  "vec_repeat dist s n = (t, ok) \<Longrightarrow> length (vec_out s) \<le> vec_cap s \<Longrightarrow> length (vec_out t) \<le> vec_cap t"
  by (induction dist s n rule: vec_repeat.induct)
    (auto split: prod.splits if_splits dest: vec_push_bound)

definition vec_good :: "nat \<Rightarrow> vec_sink \<Rightarrow> bool" where
  "vec_good cap s \<longleftrightarrow> vec_cap s = cap \<and> length (vec_out s) \<le> cap"

interpretation vector: inflate_sink vec_ops "vec_out :: vec_sink \<Rightarrow> bytes" "vec_good cap" cap for cap
proof
  fix s t :: vec_sink and b ok
  assume s: "vec_good cap s" and p: "vec_push (vec_sink_of (vec_out s) cap) b = (t, ok)"
  have "vec_push s b = (t, ok)" using p s by (auto simp: vec_good_def)
  then show "\<exists>s'. sink_push vec_ops s b = (s', ok) \<and> vec_good cap s' \<and> t = vec_sink_of (vec_out s') cap"
    using vec_push_cap [of s b t ok] vec_push_bound [of s b t ok] s by (auto simp: vec_ops_def vec_good_def)
next
  fix s t :: vec_sink and dist len ok
  assume s: "vec_good cap s" and p: "vec_copy_back (vec_sink_of (vec_out s) cap) dist len = (t, ok)"
  have c: "vec_copy_back s dist len = (t, ok)" using p s by (auto simp: vec_good_def)
  then have "vec_good cap t"
    using vec_copy_cap [OF c] vec_repeat_bound [of dist s len t ok] s
    by (auto simp: vec_copy_back_def vec_good_def split: if_splits)
  then show "\<exists>s'. sink_copy_back vec_ops s dist len = (s', ok) \<and> vec_good cap s' \<and>
      t = vec_sink_of (vec_out s') cap"
    using c by (auto simp: vec_ops_def vec_good_def)
qed

text \<open>The decoder never answers more than it was given room for.\<close>

lemma inflate_bound:
  assumes "inflate_into src vec_ops (vec_sink_of [] cap) = (r, s, ok)"
  shows "length (vec_out s) \<le> cap"
  using vector.sink_as_vector [of cap "vec_sink_of [] cap" src] assms by (auto simp: vec_good_def)

section \<open>The spool\<close>

definition spool_contents :: "spool_sink \<Rightarrow> bytes" where
  "spool_contents s = take (flushed s) (spool_file s) @ window s"

definition spool_good :: "nat \<Rightarrow> spool_sink \<Rightarrow> bool" where
  "spool_good cap s \<longleftrightarrow> spool_cap s = cap \<and> \<not> spool_failed s \<and> (\<forall>k. spool_host s k) \<and>
     flushed s \<le> length (spool_file s) \<and> length (window s) \<le> WINDOW_FULL \<and>
     (flushed s > 0 \<longrightarrow> WINDOW_KEEP \<le> length (window s))"

lemma spool_total_contents: "spool_good cap s \<Longrightarrow> length (spool_contents s) = spool_total s"
  by (simp add: spool_good_def spool_contents_def spool_total_def)

lemma take_file_write:
  "off \<le> length f \<Longrightarrow> take (off + length ys) (file_write_all_at f off ys) = take off f @ ys"
  by (cases "ys = []") (simp_all add: file_write_all_at_def splice_def)

lemma spool_push_step:
  assumes "spool_good cap s" "vec_push (vec_sink_of (spool_contents s) cap) b = (t, ok)"
  shows "\<exists>s'. spool_push s b = (s', ok) \<and> spool_good cap s' \<and> t = vec_sink_of (spool_contents s') cap"
proof (cases "spool_total s \<ge> cap")
  case True
  then show ?thesis
    using assms spool_total_contents [OF assms(1)]
    by (auto simp: spool_push_def vec_push_def spool_good_def)
next
  case False
  then have t: "t = vec_sink_of (spool_contents s @ [b]) cap" "ok"
    using assms spool_total_contents [OF assms(1)] by (auto simp: vec_push_def vec_sink_of_def)
  show ?thesis
  proof (cases "length (window s) = WINDOW_FULL")
    case True
    let ?s = "s\<lparr>spool_file := file_write_all_at (spool_file s) (flushed s) (take WINDOW_KEEP (window s)),
        flushed := flushed s + WINDOW_KEEP, window := drop WINDOW_KEEP (window s) @ [b]\<rparr>"
    have k: "length (take WINDOW_KEEP (window s)) = WINDOW_KEEP"
      using True by (simp add: WINDOW_FULL_def WINDOW_KEEP_def)
    have written: "take (flushed s + WINDOW_KEEP)
        (file_write_all_at (spool_file s) (flushed s) (take WINDOW_KEEP (window s))) =
        take (flushed s) (spool_file s) @ take WINDOW_KEEP (window s)"
      using take_file_write [of "flushed s" "spool_file s" "take WINDOW_KEEP (window s)"] assms(1) k
      by (simp add: spool_good_def)
    have "spool_push s b = (?s, True)"
      using assms(1) False True by (simp add: spool_push_def flush_half_def spool_good_def)
    moreover have "flushed s + WINDOW_KEEP \<le>
        length (file_write_all_at (spool_file s) (flushed s) (take WINDOW_KEEP (window s)))"
      using arg_cong [OF written, of length] assms(1) k by (simp add: spool_good_def)
    then have "spool_good cap ?s"
      using assms(1) True by (simp add: spool_good_def WINDOW_FULL_def WINDOW_KEEP_def)
    moreover have "spool_contents ?s = spool_contents s @ [b]" by (simp add: spool_contents_def written)
    ultimately show ?thesis using t by auto
  next
    case noflush: False
    let ?s = "s\<lparr>window := window s @ [b]\<rparr>"
    have "spool_push s b = (?s, True)"
      using assms(1) False noflush by (simp add: spool_push_def spool_good_def)
    moreover have "spool_good cap ?s" using assms(1) noflush by (auto simp: spool_good_def)
    moreover have "spool_contents ?s = spool_contents s @ [b]" by (simp add: spool_contents_def)
    ultimately show ?thesis using t by auto
  qed
qed

text \<open>A back reference inside the window reads what the whole output holds there.\<close>

lemma spool_window:
  assumes "spool_good cap s" "dist \<le> 32768" "dist \<le> length (spool_contents s)" "0 < dist"
  shows "dist \<le> length (window s)"
    "window s ! (length (window s) - dist) = spool_contents s ! (length (spool_contents s) - dist)"
proof -
  have f: "length (take (flushed s) (spool_file s)) = flushed s"
    using assms(1) by (simp add: spool_good_def)
  show "dist \<le> length (window s)"
    using assms f by (cases "flushed s = 0") (auto simp: spool_good_def spool_contents_def WINDOW_KEEP_def)
  then show "window s ! (length (window s) - dist) = spool_contents s ! (length (spool_contents s) - dist)"
    using f assms(4) nth_append_length_plus [of "take (flushed s) (spool_file s)" "window s"
        "length (window s) - dist"]
    by (simp add: spool_contents_def)
qed

lemma spool_repeat_step:
  assumes "spool_good cap s" "0 < dist" "dist \<le> 32768" "dist \<le> length (spool_contents s)"
    and "vec_repeat dist (vec_sink_of (spool_contents s) cap) n = (t, ok)"
  shows "\<exists>s'. spool_repeat dist s n = (s', ok) \<and> spool_good cap s' \<and> t = vec_sink_of (spool_contents s') cap"
  using assms
proof (induction n arbitrary: s)
  case (Suc n)
  let ?t = "vec_sink_of (spool_contents s) cap"
  let ?b = "spool_contents s ! (length (spool_contents s) - dist)"
  note w = spool_window(2) [OF Suc.prems(1,3,4,2)]
  obtain t1 ok1 where p: "vec_push ?t ?b = (t1, ok1)" by fastforce
  then obtain s1 where s1: "spool_push s ?b = (s1, ok1)" "spool_good cap s1"
    "t1 = vec_sink_of (spool_contents s1) cap"
    using spool_push_step [OF Suc.prems(1)] by blast
  show ?case
  proof (cases ok1)
    case True
    have "spool_contents s1 = spool_contents s @ [?b]"
      using p s1(3) True by (auto simp: vec_push_def vec_sink_of_def split: if_splits)
    then show ?thesis
      using Suc.IH [OF s1(2) Suc.prems(2,3)] Suc.prems(4,5) p s1 True by (simp add: w)
  next
    case False
    then show ?thesis using Suc.prems(5) p s1 by (simp add: w)
  qed
qed simp

interpretation spool: inflate_sink spool_ops spool_contents "spool_good cap" cap for cap
proof
  fix s b t ok
  assume "spool_good cap s" "vec_push (vec_sink_of (spool_contents s) cap) b = (t, ok)"
  then show "\<exists>s'. sink_push spool_ops s b = (s', ok) \<and> spool_good cap s' \<and>
      t = vec_sink_of (spool_contents s') cap"
    using spool_push_step by (simp add: spool_ops_def)
next
  fix s dist len t ok
  assume s: "spool_good cap s" "dist \<le> 32768"
    and c: "vec_copy_back (vec_sink_of (spool_contents s) cap) dist len = (t, ok)"
  show "\<exists>s'. sink_copy_back spool_ops s dist len = (s', ok) \<and> spool_good cap s' \<and>
      t = vec_sink_of (spool_contents s') cap"
  proof (cases "dist = 0 \<or> dist > length (spool_contents s)")
    case True
    then have "dist = 0 \<or> dist > length (window s)" by (auto simp: spool_contents_def)
    then show ?thesis using c s True by (auto simp: spool_ops_def spool_copy_back_def vec_copy_back_def)
  next
    case False
    then have d: "0 < dist" "dist \<le> length (spool_contents s)" by auto
    then show ?thesis
      using spool_repeat_step [OF s(1) d(1) s(2) d(2)] spool_window(1) [OF s d(2,1)] c
      by (simp add: spool_ops_def spool_copy_back_def vec_copy_back_def)
  qed
qed

section \<open>The two entry points\<close>

lemma file_chunks_inside:
  "stop \<le> length f \<Longrightarrow> file_chunks f a stop = (slice a (stop - a) f, False)"
proof (induction f a stop rule: file_chunks.induct)
  case (1 f a stop)
  show ?case
  proof (cases "a \<ge> stop")
    case True
    then show ?thesis by (subst file_chunks.simps) simp
  next
    case False
    let ?n = "min (stop - a) 4096"
    have r: "file_read_exact_at f a ?n = Some (slice a ?n f)"
      using "1.prems" False by (simp add: file_read_exact_at_def)
    have "file_chunks f (a + ?n) stop = (slice (a + ?n) (stop - (a + ?n)) f, False)"
      using "1.IH" [OF False refl r "1.prems"] .
    moreover have "slice a (stop - a) f = slice a ?n f @ slice (a + ?n) (stop - (a + ?n)) f"
      using slice_append_split [of a ?n "stop - (a + ?n)" f] False by simp
    ultimately show ?thesis using False r by (subst file_chunks.simps) (simp add: Let_def)
  qed
qed

lemma file_source_inside:
  "offset + len \<le> length file \<Longrightarrow> file_source file offset len = slice_source (slice offset len file)"
  by (simp add: file_source_def slice_source_def file_chunks_inside)

lemma inflate_into_source_whole:
  assumes "inflate_into (slice_source bs) ops s = (r, s', ok)"
  shows "\<not> source_failed (rd_source r)"
proof -
  have "whole (reader_new (slice_source bs))" by (simp add: whole_def reader_new_def slice_source_def)
  then have "whole r"
    by (rule inflate_blocks_keeps [OF reader_law_whole assms [unfolded inflate_into_def]])
  then show ?thesis by (simp add: whole_def)
qed

lemma spool_new_good: "(\<And>k. host k) \<Longrightarrow> spool_good n (spool_new f host n)"
  by (simp add: spool_good_def spool_new_def)

lemma spool_finish_contents:
  assumes "spool_good n s"
  shows "\<exists>f. spool_finish s = (f, Some (length (spool_contents s))) \<and>
    take (length (spool_contents s)) f = spool_contents s"
  using assms take_file_write [of "flushed s" "spool_file s" "window s"]
  by (simp add: spool_finish_def spool_good_def spool_contents_def)

text \<open>
  C20: inflating out of a range of a file into the spool is inflating that range in memory. Where
  the in-memory decoder refuses the stream or its size, so does the spool; where it answers bytes,
  the spool reports their number and its file begins with exactly them, although the decoder only
  ever saw the last 64 KiB of its own output and read the stream in chunks.
\<close>

theorem spool_matches_inflate:
  assumes "offset + len \<le> length file" and "\<And>k. host k"
  shows "case inflate (slice offset len file) n of
      None \<Rightarrow> snd (inflate_file_to_spool file offset len n spool_bytes host) = Inr None
    | Some bs \<Rightarrow> (\<exists>f. inflate_file_to_spool file offset len n spool_bytes host =
        (f, Inr (Some (length bs))) \<and> take (length bs) f = bs)"
proof -
  let ?src = "slice_source (slice offset len file)"
  let ?s = "spool_new spool_bytes host n"
  have "spool_contents ?s = []" by (simp add: spool_contents_def spool_new_def)
  then obtain r s ok where run: "inflate_into ?src spool_ops ?s = (r, s, ok)" "spool_good n s"
    "inflate_into ?src vec_ops (vec_sink_of [] n) = (r, vec_sink_of (spool_contents s) n, ok)"
    using spool.sink_as_vector [OF spool_new_good [where host = host and n = n and f = spool_bytes], of ?src]
      assms(2) by auto
  obtain f where f: "spool_finish s = (f, Some (length (spool_contents s)))"
    "take (length (spool_contents s)) f = spool_contents s"
    using spool_finish_contents [OF run(2)] by blast
  have i: "inflate (slice offset len file) n = (if ok then Some (spool_contents s) else None)"
    using run(3) by (simp add: inflate_def vec_sink_of_def)
  have "\<not> source_failed (rd_source r)" "\<not> spool_failed s"
    using inflate_into_source_whole [OF run(1)] run(2) by (simp_all add: spool_good_def)
  then have "inflate_file_to_spool file offset len n spool_bytes host =
      (if ok then (f, Inr (Some (length (spool_contents s)))) else (spool_file s, Inr None))"
    using run(1) f(1) by (simp add: inflate_file_to_spool_def file_source_inside [OF assms(1)])
  then show ?thesis using i f(2) by simp
qed

lemma spool_matches_inflate_witness:
  "case inflate (slice 1 5 [9, 1, 0, 0, 255, 255 :: u8]) 10 of
      None \<Rightarrow> snd (inflate_file_to_spool [9, 1, 0, 0, 255, 255] 1 5 10 [7] (\<lambda>_. True)) = Inr None
    | Some bs \<Rightarrow> (\<exists>f. inflate_file_to_spool [9, 1, 0, 0, 255, 255] 1 5 10 [7] (\<lambda>_. True) =
        (f, Inr (Some (length bs))) \<and> take (length bs) f = bs)"
  by (rule spool_matches_inflate) simp_all

end
