(* ===== verification/Huffman_Code.thy ===== *)
theory Huffman_Code
  imports Inflate
begin

text \<open>
  What the decoder's bit reader and code tables mean. A reader stands for the list of the bits it
  still delivers, least significant bit of each byte first; a table built from code lengths decodes
  the canonical code of RFC 1951, section 3.2.2, which is stated here on its own terms: the codes
  of a length are consecutive, in the order of their symbols, and the first one continues the codes
  of the shorter lengths.
\<close>

unbundle bit_operations_syntax

named_theorems bit_stream

section \<open>Bit lists\<close>

definition bits_of :: "nat \<Rightarrow> nat \<Rightarrow> bool list" where
  "bits_of n v = map (bit v) [0..<n]"

definition byte_bits :: "u8 \<Rightarrow> bool list" where
  "byte_bits b = bits_of 8 (unat b)"

definition bytes_bits :: "bytes \<Rightarrow> bool list" where
  "bytes_bits bs = concat (map byte_bits bs)"

text \<open>A Huffman code goes out most significant bit first.\<close>

definition code_bits :: "nat \<Rightarrow> nat \<Rightarrow> bool list" where
  "code_bits n c = rev (bits_of n c)"

lemma length_bits_of [simp]: "length (bits_of n v) = n" by (simp add: bits_of_def)

lemma length_code_bits [simp]: "length (code_bits n v) = n" by (simp add: code_bits_def)

lemma bits_of_0 [simp]: "bits_of 0 v = []" by (simp add: bits_of_def)

lemma nth_bits_of [simp]: "i < n \<Longrightarrow> bits_of n v ! i = bit v i" by (simp add: bits_of_def)

lemma bytes_bits_simps [simp]:
  "bytes_bits [] = []" "bytes_bits (b # bs) = byte_bits b @ bytes_bits bs"
  "bytes_bits (xs @ ys) = bytes_bits xs @ bytes_bits ys"
  by (simp_all add: bytes_bits_def)

lemma length_bytes_bits [simp]: "length (bytes_bits bs) = 8 * length bs"
  by (induction bs) (simp_all add: byte_bits_def)

lemma bits_of_add: "bits_of (m + n) v = bits_of m v @ bits_of n (drop_bit m v)"
  by (rule nth_equalityI) (auto simp: nth_append bit_drop_bit_eq)

lemma bits_of_inject: "v < 2 ^ n \<Longrightarrow> w < 2 ^ n \<Longrightarrow> bits_of n v = bits_of n w \<Longrightarrow> v = w"
proof (rule bit_eqI)
  fix i assume v: "v < 2 ^ n" "w < 2 ^ n" "bits_of n v = bits_of n w"
  show "bit v i = bit w i"
  proof (cases "i < n")
    case True
    then show ?thesis using arg_cong [OF v(3), of "\<lambda>xs. xs ! i"] by simp
  next
    case False
    have "take_bit n v = v" "take_bit n w = w" using v(1,2) by (simp_all add: take_bit_nat_eq_self)
    then show ?thesis using False by (metis bit_take_bit_iff)
  qed
qed

lemma bits_of_cong: "(\<And>i. i < n \<Longrightarrow> bit v i = bit w i) \<Longrightarrow> bits_of n v = bits_of n w"
  by (simp add: bits_of_def)

lemma bits_of_mix:
  assumes "val < 2 ^ k"
  shows "bits_of (k + n) (val OR push_bit k x) = bits_of k val @ bits_of n x"
proof -
  have z: "\<not> bit val i" if "k \<le> i" for i
    using assms that by (metis bit_take_bit_iff not_less take_bit_nat_eq_self)
  show ?thesis
    unfolding bits_of_add
    by (intro arg_cong2 [where f = append] bits_of_cong)
      (auto simp: bit_or_iff bit_push_bit_iff bit_drop_bit_eq z)
qed

lemma mix_less:
  assumes "val < 2 ^ k" "x < 2 ^ n"
  shows "val OR push_bit k x < (2 :: nat) ^ (k + n)"
proof -
  have "take_bit (k + n) val = val"
    using assms(1) by (intro take_bit_nat_eq_self order_less_le_trans [OF assms(1)]) simp
  moreover have "take_bit n x = x" using assms(2) by (rule take_bit_nat_eq_self)
  ultimately have "take_bit (k + n) (val OR push_bit k x) = val OR push_bit k x"
    by (simp add: take_bit_push_bit)
  then show ?thesis by (metis take_bit_nat_less_exp)
qed

section \<open>The reader\<close>

definition pending :: "nat \<Rightarrow> bit_reader \<Rightarrow> bool list" where
  "pending val r = bits_of (bit_count r) val @ bytes_bits (coded (rd_source r))"

definition upcoming :: "bit_reader \<Rightarrow> bool list" where
  "upcoming r = pending (bit_buffer r) r"

definition tidy :: "bit_reader \<Rightarrow> bool" where
  "tidy r \<longleftrightarrow> bit_buffer r < 2 ^ bit_count r \<and> \<not> read_error r"

lemma tidy_new [simp]: "tidy (reader_new src)"
  by (simp add: tidy_def reader_new_def)

lemma upcoming_new [simp]: "upcoming (reader_new src) = bytes_bits (coded src)"
  by (simp add: upcoming_def pending_def reader_new_def)

lemma fill_bits_pending:
  assumes "val < 2 ^ bit_count r" "need \<le> length (pending val r)" "\<not> read_error r"
  shows "\<exists>r' val'. fill_bits need val r = (r', Some val') \<and> pending val' r' = pending val r \<and>
    val' < 2 ^ bit_count r' \<and> need \<le> bit_count r' \<and> \<not> read_error r'"
  using assms
proof (induction need val r rule: fill_bits.induct)
  case (1 need val r)
  show ?case
  proof (cases "bit_count r \<ge> need")
    case True
    then show ?thesis using "1.prems" by (subst fill_bits.simps) simp
  next
    case False
    then have "coded (rd_source r) \<noteq> []" using "1.prems"(2) by (auto simp: pending_def)
    then obtain b bs where c: "coded (rd_source r) = b # bs" by (cases "coded (rd_source r)") auto
    let ?src = "rd_source r\<lparr>coded := bs\<rparr>"
    let ?r = "r\<lparr>rd_source := ?src, bit_count := bit_count r + 8\<rparr>"
    let ?val = "val OR push_bit (bit_count r) (unat b)"
    have n: "source_next (rd_source r) = (?src, Some b)" by (simp add: source_next_def c)
    have p: "pending ?val ?r = pending val r"
      using bits_of_mix [OF "1.prems"(1), of 8 "unat b"] by (simp add: pending_def c byte_bits_def)
    have v: "?val < 2 ^ bit_count ?r"
      using mix_less [OF "1.prems"(1), of "unat b" 8] unsigned_less [of b] by simp
    show ?thesis
      using "1.IH" [OF False n [symmetric] refl v] "1.prems"(2,3) False
      by (subst fill_bits.simps) (simp add: n p)
  qed
qed

lemma rd_bits_upcoming [bit_stream]:
  assumes "tidy r" "upcoming r = bits_of n v @ later" "v < 2 ^ n"
  shows "\<exists>r'. rd_bits n r = (r', v) \<and> upcoming r' = later \<and> tidy r'"
proof -
  have "n \<le> length (pending (bit_buffer r) r)" using assms(2) by (simp add: upcoming_def)
  then obtain r1 val where f: "fill_bits n (bit_buffer r) r = (r1, Some val)"
    "pending val r1 = upcoming r" "val < 2 ^ bit_count r1" "n \<le> bit_count r1" "\<not> read_error r1"
    using fill_bits_pending [of "bit_buffer r" r n] assms(1) by (auto simp: tidy_def upcoming_def)
  obtain k where k: "bit_count r1 = n + k" using f(4) le_Suc_ex by blast
  have "bits_of n val @ pending (drop_bit n val) (r1\<lparr>bit_count := k\<rparr>) = bits_of n v @ later"
    using f(2) assms(2) by (simp add: pending_def k bits_of_add)
  then have e: "bits_of n val = bits_of n v" "pending (drop_bit n val) (r1\<lparr>bit_count := k\<rparr>) = later"
    by (simp_all add: append_eq_append_conv)
  have "bits_of n (take_bit n val) = bits_of n v"
    using e(1) by (simp add: bits_of_def bit_take_bit_iff)
  then have "take_bit n val = v"
    using bits_of_inject [of "take_bit n val" n v] assms(3) take_bit_nat_less_exp by blast
  moreover have "drop_bit n val < 2 ^ k"
    using f(3) by (simp add: k drop_bit_eq_div power_add less_mult_imp_div_less mult.commute)
  ultimately show ?thesis
    using f e(2) by (simp add: rd_bits_def k tidy_def upcoming_def pending_def)
qed

lemma rd_bit_upcoming:
  assumes "tidy r" "upcoming r = b # later"
  shows "\<exists>r'. rd_bits 1 r = (r', of_bool b) \<and> upcoming r' = later \<and> tidy r'"
  using rd_bits_upcoming [of r 1 "of_bool b" later] assms by (cases b) (simp_all add: bits_of_def bit_0)

section \<open>The canonical code\<close>

fun first_code :: "nat list \<Rightarrow> nat \<Rightarrow> nat" where
  "first_code ls 0 = 0"
| "first_code ls (Suc l) = 2 * (first_code ls l + (if l = 0 then 0 else count_list ls l))"

definition rank :: "nat list \<Rightarrow> nat \<Rightarrow> nat" where
  "rank ls s = count_list (take s ls) (ls ! s)"

definition canonical_code :: "nat list \<Rightarrow> nat \<Rightarrow> nat" where
  "canonical_code ls s = first_code ls (ls ! s) + rank ls s"

lemma rank_less: "s < length ls \<Longrightarrow> rank ls s < count_list ls (ls ! s)"
proof -
  assume s: "s < length ls"
  have "count_list ls (ls ! s) = count_list (take s ls) (ls ! s) + count_list (drop s ls) (ls ! s)"
    by (metis append_take_drop_id count_list_append)
  then show ?thesis using s by (simp add: rank_def flip: Cons_nth_drop_Suc)
qed

section \<open>What construct builds\<close>

lemma count_lengths_nth:
  assumes "set ls \<subseteq> {..MAX_BITS}" "l \<le> MAX_BITS"
  shows "count_lengths ls ! l = count_list ls l"
proof -
  have "length cs = Suc MAX_BITS \<Longrightarrow> set ls \<subseteq> {..MAX_BITS} \<Longrightarrow>
      foldl (\<lambda>cs l. cs[l := Suc (cs ! l)]) cs ls ! l = cs ! l + count_list ls l" for cs
    using assms(2) by (induction ls arbitrary: cs) (auto simp: nth_list_update)
  moreover have "replicate (MAX_BITS + 1) 0 ! l = (0 :: nat)"
    using assms(2) by (intro nth_replicate) simp
  ultimately show ?thesis using assms(1) unfolding count_lengths_def by simp
qed

lemma not_oversubscribed_fits:
  assumes "set ls \<subseteq> {..MAX_BITS}" "not_oversubscribed (count_lengths ls) 1 [1..<Suc MAX_BITS]"
    and "1 \<le> l" "l \<le> MAX_BITS"
  shows "first_code ls l + count_list ls l \<le> 2 ^ l"
proof -
  let ?F = "\<lambda>k. int (first_code ls k) + (if k = 0 then 0 else int (count_list ls k))"
  have "not_oversubscribed (count_lengths ls) (2 ^ k - ?F k) [Suc k..<Suc MAX_BITS] \<Longrightarrow>
      k < l \<Longrightarrow> ?F l \<le> 2 ^ l" for k
  proof (induction "l - k" arbitrary: k)
    case (Suc d)
    have u: "[Suc k..<Suc MAX_BITS] = Suc k # [Suc (Suc k)..<Suc MAX_BITS]"
      using Suc.prems(2) assms(4) by (simp add: upt_conv_Cons)
    have c: "count_lengths ls ! Suc k = count_list ls (Suc k)"
      using count_lengths_nth [OF assms(1)] Suc.prems(2) assms(4) by simp
    have e: "push_bit 1 (2 ^ k - ?F k) - int (count_list ls (Suc k)) = 2 ^ Suc k - ?F (Suc k)"
      by (simp add: push_bit_eq_mult)
    have n: "0 \<le> 2 ^ Suc k - ?F (Suc k)"
      "not_oversubscribed (count_lengths ls) (2 ^ Suc k - ?F (Suc k)) [Suc (Suc k)..<Suc MAX_BITS]"
      using Suc.prems(1) unfolding u not_oversubscribed.simps Let_def c e
      by (auto simp del: upt_Suc split: if_splits)
    show ?case
    proof (cases "Suc k = l")
      case True
      then show ?thesis using n(1) by simp
    next
      case False
      then show ?thesis using Suc.hyps(1) [of "Suc k"] Suc.hyps(2) Suc.prems(2) n(2) by simp
    qed
  qed simp
  from this [of 0] have "int (first_code ls l + count_list ls l) \<le> int (2 ^ l)"
    using assms(2,3) by (simp del: upt_Suc)
  then show ?thesis by (simp only: of_nat_le_iff)
qed

text \<open>The symbols before those of a length.\<close>

fun shorter :: "nat list \<Rightarrow> nat \<Rightarrow> nat" where
  "shorter ls 0 = 0"
| "shorter ls (Suc l) = shorter ls l + (if l = 0 then 0 else count_list ls l)"

lemma shorter_step: "1 \<le> l \<Longrightarrow> l < m \<Longrightarrow> shorter ls l + count_list ls l \<le> shorter ls m"
  by (induction m) (auto simp: less_Suc_eq)

lemma offsets_nth:
  assumes "set ls \<subseteq> {..MAX_BITS}" "1 \<le> l" "l \<le> MAX_BITS"
  shows "offsets (count_lengths ls) ! l = shorter ls l"
proof -
  let ?f = "\<lambda>offs len. offs[len + 1 := offs ! len + count_lengths ls ! len]"
  let ?z = "replicate (MAX_BITS + 1) (0 :: nat)"
  have "length (foldl ?f ?z [1..<k]) = MAX_BITS + 1 \<and>
      (\<forall>j. 1 \<le> j \<and> j \<le> k \<longrightarrow> foldl ?f ?z [1..<k] ! j = shorter ls j)" if "1 \<le> k" "k \<le> MAX_BITS" for k
    using that
  proof (induction k rule: dec_induct)
    case base
    then show ?case by (auto simp: MAX_BITS_def le_Suc_eq)
  next
    case (step k)
    then have "count_lengths ls ! k = count_list ls k" by (intro count_lengths_nth assms(1)) simp
    then show ?case using step by (auto simp: nth_list_update le_Suc_eq)
  qed
  then show ?thesis using assms by (simp add: offsets_def)
qed

definition place :: "nat list \<Rightarrow> nat list \<Rightarrow> nat \<Rightarrow> nat" where
  "place ls offs s = offs ! (ls ! s) + rank ls s"

lemma place_Suc:
  "l < length offs \<Longrightarrow> ls ! s < length offs \<Longrightarrow>
     place (l # ls) offs (Suc s) = place ls (offs[l := Suc (offs ! l)]) s"
  by (simp add: place_def rank_def)

lemma place_symbols_nth:
  assumes "set ls \<subseteq> {..<length offs}"
    and "inj_on (place ls offs) {s. s < length ls \<and> ls ! s \<noteq> 0}"
    and "\<And>s. s < length ls \<Longrightarrow> ls ! s \<noteq> 0 \<Longrightarrow> place ls offs s < length syms"
  shows "(\<forall>s. s < length ls \<longrightarrow> ls ! s \<noteq> 0 \<longrightarrow> place_symbols k ls offs syms ! place ls offs s = k + s) \<and>
    (\<forall>i. (\<forall>s. s < length ls \<longrightarrow> ls ! s \<noteq> 0 \<longrightarrow> place ls offs s \<noteq> i) \<longrightarrow>
       place_symbols k ls offs syms ! i = syms ! i)"
  using assms
proof (induction ls arbitrary: k offs syms)
  case (Cons l ls)
  let ?offs = "if l \<noteq> 0 then offs[l := Suc (offs ! l)] else offs"
  let ?syms = "if l \<noteq> 0 then syms[offs ! l := k] else syms"
  have p: "place (l # ls) offs (Suc s) = place ls ?offs s" if "s < length ls" "ls ! s \<noteq> 0" for s
  proof -
    have b: "l < length offs" "ls ! s < length offs"
      using Cons.prems(1) nth_mem [OF that(1)] by auto
    show ?thesis
    proof (cases "l = 0")
      case True
      then show ?thesis using that(2) by (simp add: place_def rank_def)
    next
      case False
      then show ?thesis using place_Suc [OF b] by simp
    qed
  qed
  have z: "place (l # ls) offs 0 = offs ! l" by (simp add: place_def rank_def)
  have "inj_on (place ls ?offs) {s. s < length ls \<and> ls ! s \<noteq> 0}"
  proof (rule inj_onI)
    fix s t assume st: "s \<in> {s. s < length ls \<and> ls ! s \<noteq> 0}" "t \<in> {s. s < length ls \<and> ls ! s \<noteq> 0}"
      "place ls ?offs s = place ls ?offs t"
    then have "place (l # ls) offs (Suc s) = place (l # ls) offs (Suc t)" using p by simp
    from inj_onD [OF Cons.prems(2) this] have "Suc s = Suc t" using st by simp
    then show "s = t" by simp
  qed
  moreover have "set ls \<subseteq> {..<length ?offs}" using Cons.prems(1) by simp
  moreover have "place ls ?offs s < length ?syms" if "s < length ls" "ls ! s \<noteq> 0" for s
    using Cons.prems(3) [of "Suc s"] p [OF that] that by (cases "l = 0") simp_all
  ultimately have ih:
    "\<forall>s. s < length ls \<longrightarrow> ls ! s \<noteq> 0 \<longrightarrow> place_symbols (Suc k) ls ?offs ?syms ! place ls ?offs s = Suc k + s"
    "\<forall>i. (\<forall>s. s < length ls \<longrightarrow> ls ! s \<noteq> 0 \<longrightarrow> place ls ?offs s \<noteq> i) \<longrightarrow>
       place_symbols (Suc k) ls ?offs ?syms ! i = ?syms ! i"
    using Cons.IH [of ?offs ?syms "Suc k"] by blast+
  have e: "place_symbols k (l # ls) offs syms = place_symbols (Suc k) ls ?offs ?syms" by simp
  have first: "place_symbols k (l # ls) offs syms ! (offs ! l) = k" if "l \<noteq> 0"
  proof -
    have "place ls ?offs s \<noteq> offs ! l" if "s < length ls" "ls ! s \<noteq> 0" for s
      using inj_onD [OF Cons.prems(2), of "Suc s" 0] p [OF that] that z \<open>l \<noteq> 0\<close> by auto
    moreover have "offs ! l < length syms" using Cons.prems(3) [of 0] z that by simp
    ultimately show ?thesis unfolding e using ih(2) that by simp
  qed
  show ?case
  proof (intro conjI allI impI)
    fix s assume s: "s < length (l # ls)" "(l # ls) ! s \<noteq> 0"
    show "place_symbols k (l # ls) offs syms ! place (l # ls) offs s = k + s"
    proof (cases s)
      case 0
      then show ?thesis using first s z by simp
    next
      case (Suc t)
      then show ?thesis using ih(1) p [of t] s e by simp
    qed
  next
    fix i assume i: "\<forall>s. s < length (l # ls) \<longrightarrow> (l # ls) ! s \<noteq> 0 \<longrightarrow> place (l # ls) offs s \<noteq> i"
    have "place ls ?offs s \<noteq> i" if "s < length ls" "ls ! s \<noteq> 0" for s
      using i [rule_format, of "Suc s"] p [OF that] that by simp
    moreover have "l \<noteq> 0 \<Longrightarrow> offs ! l \<noteq> i" using i [rule_format, of 0] z by simp
    ultimately show "place_symbols k (l # ls) offs syms ! i = syms ! i"
      unfolding e using ih(2) by auto
  qed
qed simp

definition code_ok :: "nat list \<Rightarrow> bool" where
  "code_ok ls \<longleftrightarrow> set ls \<subseteq> {..MAX_BITS} \<and> length ls \<le> MAX_CODES"

lemma code_okD:
  assumes "code_ok ls"
  shows "set ls \<subseteq> {..MAX_BITS}" "s < length ls \<Longrightarrow> ls ! s \<le> MAX_BITS"
  using assms nth_mem by (auto simp: code_ok_def)

lemma length_offsets [simp]: "length (offsets cs) = Suc MAX_BITS"
proof -
  have "length (foldl (\<lambda>offs len. offs[len + 1 := offs ! len + cs ! len]) zs is) = length zs" for zs "is"
    by (induction "is" arbitrary: zs) simp_all
  then show ?thesis by (simp add: offsets_def)
qed

lemma place_code:
  assumes "code_ok ls" "s < length ls" "ls ! s \<noteq> 0"
  shows "place ls (offsets (count_lengths ls)) s = shorter ls (ls ! s) + rank ls s"
  using offsets_nth [OF code_okD(1) [OF assms(1)], of "ls ! s"] code_okD(2) [OF assms(1,2)] assms(3)
  by (simp add: place_def)

text \<open>Symbols of one length keep their order, and no two symbols share a place.\<close>

lemma rank_mono:
  assumes "s < t" "t < length ls" "ls ! s = ls ! t"
  shows "rank ls s < rank ls t"
proof -
  have "rank (take t ls) s < count_list (take t ls) (take t ls ! s)"
    using assms by (intro rank_less) simp
  then show ?thesis using assms by (simp add: rank_def min_absorb1)
qed

lemma place_inj:
  assumes "code_ok ls"
  shows "inj_on (place ls (offsets (count_lengths ls))) {s. s < length ls \<and> ls ! s \<noteq> 0}"
proof (rule inj_onI)
  fix s t
  assume s: "s \<in> {s. s < length ls \<and> ls ! s \<noteq> 0}" and t: "t \<in> {s. s < length ls \<and> ls ! s \<noteq> 0}"
    and e: "place ls (offsets (count_lengths ls)) s = place ls (offsets (count_lengths ls)) t"
  have e: "shorter ls (ls ! s) + rank ls s = shorter ls (ls ! t) + rank ls t"
    using e place_code [OF assms] s t by simp
  have r: "rank ls s < count_list ls (ls ! s)" "rank ls t < count_list ls (ls ! t)"
    using rank_less s t by simp_all
  have "ls ! s = ls ! t"
    using shorter_step [of "ls ! s" "ls ! t" ls] shorter_step [of "ls ! t" "ls ! s" ls] e r s t
    by (cases "ls ! s" "ls ! t" rule: linorder_cases) auto
  then show "s = t"
    using e rank_mono [of s t ls] rank_mono [of t s ls] s t
    by (cases s t rule: linorder_cases) auto
qed

lemma shorter_total:
  assumes "set ls \<subseteq> {..MAX_BITS}"
  shows "shorter ls (Suc MAX_BITS) \<le> length ls"
proof -
  have "shorter ls (Suc m) = (\<Sum>l \<in> {1..m}. count_list ls l)" for m
    by (induction m) (simp_all add: atLeastAtMostSuc_conv)
  also have "(\<Sum>l \<in> {1..MAX_BITS}. count_list ls l) \<le> (\<Sum>l \<in> {..MAX_BITS}. count_list ls l)"
    by (rule sum_mono2) auto
  also have "\<dots> = length ls"
    using assms by (intro sum_count_set) auto
  finally show ?thesis .
qed

lemma place_bound:
  assumes "code_ok ls" "s < length ls" "ls ! s \<noteq> 0"
  shows "place ls (offsets (count_lengths ls)) s < MAX_CODES"
proof -
  have "shorter ls (ls ! s) + count_list ls (ls ! s) \<le> shorter ls (Suc MAX_BITS)"
    using shorter_step [of "ls ! s" "Suc MAX_BITS" ls] assms code_okD(2) [OF assms(1,2)] by simp
  then show ?thesis
    using place_code [OF assms] rank_less [OF assms(2)] shorter_total [OF code_okD(1) [OF assms(1)]] assms(1)
    by (simp add: code_ok_def)
qed

lemma count_list_less: "y \<in> set xs \<Longrightarrow> y \<noteq> x \<Longrightarrow> count_list xs x < length xs"
  by (induction xs) (use count_le_length in \<open>auto simp: less_Suc_eq_le\<close>)

lemma construct_code:
  assumes "construct huffman_new lengths n = (h, True)" "n \<le> length lengths" "code_ok (take n lengths)"
  defines "ls \<equiv> take n lengths"
  shows "counts h = count_lengths ls"
    and "s < n \<Longrightarrow> ls ! s \<noteq> 0 \<Longrightarrow> symbols h ! (shorter ls (ls ! s) + rank ls s) = s"
    and "s < n \<Longrightarrow> ls ! s \<noteq> 0 \<Longrightarrow> first_code ls (ls ! s) + count_list ls (ls ! s) \<le> 2 ^ (ls ! s)"
proof -
  note ok = assms(3) [folded ls_def]
  have len: "length ls = n" using assms(2) by (simp add: ls_def)
  show "counts h = count_lengths ls"
    using assms(1) by (auto simp: construct_def Let_def ls_def split: if_splits)
  fix s assume s: "s < n" "ls ! s \<noteq> 0"
  have "count_list ls 0 \<noteq> n"
    using count_list_less [of "ls ! s" ls 0] s len nth_mem [of s ls] by simp
  then have c: "not_oversubscribed (count_lengths ls) 1 [1..<Suc MAX_BITS]"
    "symbols h = place_symbols 0 ls (offsets (count_lengths ls)) (replicate MAX_CODES 0)"
    using assms(1) count_lengths_nth [OF code_okD(1) [OF ok], of 0]
    by (auto simp: construct_def Let_def huffman_new_def ls_def simp del: upt_Suc split: if_splits)
  show "first_code ls (ls ! s) + count_list ls (ls ! s) \<le> 2 ^ (ls ! s)"
    using not_oversubscribed_fits [OF code_okD(1) [OF ok] c(1)] s code_okD(2) [OF ok] len by simp
  have "set ls \<subseteq> {..<length (offsets (count_lengths ls))}" using code_okD(1) [OF ok] by auto
  then have "\<forall>s. s < length ls \<longrightarrow> ls ! s \<noteq> 0 \<longrightarrow>
      place_symbols 0 ls (offsets (count_lengths ls)) (replicate MAX_CODES 0) !
        place ls (offsets (count_lengths ls)) s = 0 + s"
    using place_symbols_nth [OF _ place_inj [OF ok], of "replicate MAX_CODES 0" 0] place_bound [OF ok]
    unfolding length_replicate by blast
  then show "symbols h ! (shorter ls (ls ! s) + rank ls s) = s"
    unfolding c(2) using s len by (simp flip: place_code [OF ok])
qed

section \<open>Decoding\<close>

lemma code_bits_Suc: "code_bits (Suc n) c = bit c n # code_bits n c"
  by (simp add: code_bits_def bits_of_def)

lemma drop_bit_pred: "drop_bit n c = 2 * drop_bit (Suc n) c + of_bool (bit c n)" for c :: nat
proof -
  have "drop_bit n c = 2 * (drop_bit n c div 2) + drop_bit n c mod 2" by simp
  moreover have "drop_bit n c mod 2 = of_bool (bit c n)" by (simp add: bit_iff_odd_drop_bit mod2_eq_if)
  moreover have "drop_bit n c div 2 = drop_bit (Suc n) c" 
    by (simp add: drop_bit_eq_div div_mult2_eq power_Suc2 del: power_Suc)
  ultimately show ?thesis by presburger
qed

lemma push_or_bit: "push_bit 1 (int a) OR int (of_bool b) = int (2 * a + of_bool b)"
proof -
  have "push_bit 1 (int a) OR of_bool b = 2 * int a + of_bool b"
    by (cases b) (simp_all add: push_bit_eq_mult or_one_eq)
  then show ?thesis by simp
qed

text \<open>Before its own length is reached, a canonical code lies past every code of a shorter length.\<close>

lemma first_code_grows:
  assumes "1 \<le> l" "0 < k"
  shows "(first_code ls l + count_list ls l) * 2 ^ k \<le> first_code ls (l + k)"
  using assms(2)
proof (induction k)
  case (Suc k)
  then show ?case using assms(1) by (cases "k = 0") simp_all
qed simp

lemma decode_from_code:
  assumes "construct huffman_new lengths n = (h, True)" "n \<le> length lengths" "code_ok (take n lengths)"
    and "s < n"
  defines "ls \<equiv> take n lengths"
  assumes "l + m = ls ! s" "tidy r" "upcoming r = code_bits m (canonical_code ls s) @ later"
    and "0 < m"
  shows "\<exists>r'. decode_from h [Suc l..<Suc MAX_BITS] (push_bit 1 (int (drop_bit m (canonical_code ls s))))
      (int (first_code ls (Suc l))) (int (shorter ls (Suc l))) r = (r', Some s) \<and>
    upcoming r' = later \<and> tidy r'"
  using assms(6-)
proof (induction m arbitrary: l r)
  case (Suc m)
  note ok = assms(3) [folded ls_def]
  have len: "length ls = n" using assms(2) by (simp add: ls_def)
  note c = construct_code [OF assms(1-3), folded ls_def]
  let ?c = "canonical_code ls s"
  have bound: "ls ! s \<le> MAX_BITS" using code_okD(2) [OF ok] assms(4) len by simp
  then have u: "[Suc l..<Suc MAX_BITS] = Suc l # [Suc (Suc l)..<Suc MAX_BITS]"
    using Suc.prems(1) by (simp add: upt_conv_Cons)
  obtain r1 where r1: "rd_bits 1 r = (r1, of_bool (bit ?c m))" "tidy r1"
    "upcoming r1 = code_bits m ?c @ later"
    using rd_bit_upcoming [of r "bit ?c m"] Suc.prems by (auto simp: code_bits_Suc)
  have code: "push_bit 1 (int (drop_bit (Suc m) ?c)) OR int (of_bool (bit ?c m)) = int (drop_bit m ?c)"
    unfolding push_or_bit drop_bit_pred [of m ?c] by simp
  have cnt: "counts h ! Suc l = count_list ls (Suc l)"
    unfolding c(1) using count_lengths_nth [OF code_okD(1) [OF ok]] Suc.prems(1) bound by simp
  show ?case
  proof (cases m)
    case 0
    then have l: "ls ! s = Suc l" using Suc.prems(1) by simp
    have "rank ls s < count_list ls (Suc l)" using rank_less [of s ls] assms(4) len l by simp
    moreover have "symbols h ! (shorter ls (Suc l) + rank ls s) = s"
      using c(2) [OF assms(4)] l by simp
    moreover have "nat (int (first_code ls (Suc l) + rank ls s) - int (first_code ls (Suc l))) = rank ls s"
      by simp
    ultimately show ?thesis
      using r1 0 code l cnt unfolding u
      by (simp add: Let_def tidy_def canonical_code_def code_bits_def nat_add_distrib
          flip: of_nat_add del: upt_Suc first_code.simps shorter.simps)
  next
    case (Suc k)
    have "first_code ls (Suc l) + count_list ls (Suc l) \<le> drop_bit m ?c"
      unfolding drop_bit_eq_div
      using first_code_grows [of "Suc l" m ls] Suc Suc.prems(1)
      by (simp add: canonical_code_def less_eq_div_iff_mult_less_eq del: first_code.simps)
    moreover have "int (first_code ls (Suc (Suc l))) =
        push_bit 1 (int (first_code ls (Suc l)) + int (count_list ls (Suc l)))"
      "int (shorter ls (Suc (Suc l))) = int (shorter ls (Suc l)) + int (count_list ls (Suc l))"
      by (simp_all add: push_bit_eq_mult)
    ultimately show ?thesis
      using Suc.IH [of "Suc l" r1] r1 code cnt Suc Suc.prems(1) unfolding u
      by (simp add: Let_def tidy_def del: upt_Suc first_code.simps shorter.simps)
  qed
qed simp

lemma decode_code:
  assumes "construct huffman_new lengths n = (h, True)" "n \<le> length lengths" "code_ok (take n lengths)"
    and "s < n" "lengths ! s \<noteq> 0" "tidy r"
    and "upcoming r = code_bits (lengths ! s) (canonical_code (take n lengths) s) @ later"
  shows "\<exists>r'. decode r h = (r', Some s) \<and> upcoming r' = later \<and> tidy r'"
proof -
  let ?ls = "take n lengths"
  have l: "0 + lengths ! s = ?ls ! s" using assms(4) by simp
  have "rank ?ls s < count_list ?ls (?ls ! s)" using rank_less [of s ?ls] assms(2,4) by simp
  then have "canonical_code ?ls s < 2 ^ (lengths ! s)"
    using construct_code(3) [OF assms(1-3), of s] assms(4,5) l by (simp add: canonical_code_def)
  then have z: "drop_bit (lengths ! s) (canonical_code ?ls s) = 0" by (simp add: drop_bit_eq_div)
  show ?thesis
    using decode_from_code [OF assms(1-4) l assms(6,7)] assms(5) z by (simp add: decode_def del: upt_Suc)
qed

text \<open>
  C22: a table built from code lengths decodes the canonical code of those lengths. Where
  \<open>construct\<close> accepts the lengths, the bits of any coded symbol's canonical code, most significant
  first, decode to that symbol and nothing after them is consumed.
\<close>

theorem decode_canonical:
  assumes "construct huffman_new lengths n = (h, True)" "n \<le> length lengths" "code_ok (take n lengths)"
    and "s < n" "lengths ! s \<noteq> 0" "tidy r"
    and "upcoming r = code_bits (lengths ! s) (canonical_code (take n lengths) s) @ later"
  shows "\<exists>r'. decode r h = (r', Some s) \<and> upcoming r' = later \<and> tidy r'"
  by (rule decode_code [OF assms])

lemma decode_canonical_witness:
  "\<exists>r'. decode (reader_new (slice_source [3]))
      (fst (construct huffman_new [1, 2, 2] 3)) = (r', Some 2) \<and>
    upcoming r' = [False, False, False, False, False, False] \<and> tidy r'"
proof (rule decode_canonical [where lengths = "[1, 2, 2]" and n = 3])
  show "construct huffman_new [1, 2, 2] 3 = (fst (construct huffman_new [1, 2, 2] 3), True)"
    by code_simp
  show "code_ok (take 3 [1, 2, 2])" by code_simp
  show "upcoming (reader_new (slice_source [3])) = code_bits ([1, 2, 2] ! 2)
      (canonical_code (take 3 [1, 2, 2]) 2) @ [False, False, False, False, False, False]"
    by code_simp
qed simp_all

end
