(* ===== verification/Deflate.thy ===== *)
theory Deflate
  imports Huffman_Code Checksum
begin

text \<open>
  The DEFLATE compressor and the zlib framing
  (\<open>src/crates/remanence/src/codec/deflate.rs\<close>). The writer is its bytes, buffer and count; the
  hash chains are the two lists of the code, \<open>None\<close> for \<open>usize::MAX\<close>. The tables of lengths and
  distances are the decoder's, which the encoder repeats value for value.
\<close>

unbundle bit_operations_syntax

definition WINDOW :: nat where "WINDOW = 32 * 1024"
definition MAX_MATCH :: nat where "MAX_MATCH = 258"
definition MIN_MATCH :: nat where "MIN_MATCH = 3"
definition MAX_CHAIN :: nat where "MAX_CHAIN = 128"
definition HASH_SIZE :: nat where "HASH_SIZE = 2 ^ 15"

section \<open>The bit writer\<close>

text \<open>The buffer holds fewer than 8 bits between calls, so no shift leaves its 64 bits.\<close>

record bit_writer =
  wr_out :: bytes
  wr_buffer :: nat
  wr_count :: nat

definition writer_new :: bit_writer where
  "writer_new = \<lparr>wr_out = [], wr_buffer = 0, wr_count = 0\<rparr>"

function flush_bytes :: "bit_writer \<Rightarrow> bit_writer" where
  "flush_bytes w =
     (if wr_count w \<ge> 8
      then flush_bytes (w\<lparr>wr_out := wr_out w @ [word_of_nat (wr_buffer w)],
             wr_buffer := drop_bit 8 (wr_buffer w), wr_count := wr_count w - 8\<rparr>)
      else w)"
  by pat_completeness auto
termination
  by (relation "measure wr_count") auto

declare flush_bytes.simps [simp del]

definition wr_bits :: "bit_writer \<Rightarrow> nat \<Rightarrow> nat \<Rightarrow> bit_writer" where
  "wr_bits w val count =
     flush_bytes (w\<lparr>wr_buffer := wr_buffer w OR push_bit (wr_count w) val,
       wr_count := wr_count w + count\<rparr>)"

definition reversed_code :: "nat \<Rightarrow> nat \<Rightarrow> nat" where
  "reversed_code code len =
     foldl (\<lambda>r i. r OR push_bit (len - 1 - i) (drop_bit i code AND 1)) 0 [0..<len]"

definition wr_huffman :: "bit_writer \<Rightarrow> nat \<Rightarrow> nat \<Rightarrow> bit_writer" where
  "wr_huffman w code len = wr_bits w (reversed_code code len) len"

definition wr_finish :: "bit_writer \<Rightarrow> bytes" where
  "wr_finish w = (if wr_count w > 0 then wr_out w @ [word_of_nat (wr_buffer w)] else wr_out w)"

section \<open>The codes\<close>

definition fixed_literal :: "nat \<Rightarrow> nat \<times> nat" where
  "fixed_literal symbol =
     (if symbol \<le> 143 then (0x30 + symbol, 8)
      else if symbol \<le> 255 then (0x190 + symbol - 144, 9)
      else if symbol \<le> 279 then (symbol - 256, 7)
      else (0xc0 + symbol - 280, 8))"

fun base_symbol :: "nat list \<Rightarrow> nat \<Rightarrow> nat \<Rightarrow> nat \<Rightarrow> nat" where
  "base_symbol [] index v symbol = symbol"
| "base_symbol (b # bs) index v symbol =
     (if b > v then index - 1 else base_symbol bs (Suc index) v symbol)"

definition length_code :: "nat \<Rightarrow> nat \<times> nat \<times> nat" where
  "length_code len =
     (let symbol = base_symbol LENGTH_BASE 0 len (length LENGTH_BASE - 1)
      in (257 + symbol, LENGTH_EXTRA ! symbol, len - LENGTH_BASE ! symbol))"

definition distance_code :: "nat \<Rightarrow> nat \<times> nat \<times> nat" where
  "distance_code distance =
     (let symbol = base_symbol DIST_BASE 0 distance (length DIST_BASE - 1)
      in (symbol, DIST_EXTRA ! symbol, distance - DIST_BASE ! symbol))"

section \<open>Matching\<close>

definition hash_at :: "bytes \<Rightarrow> nat \<Rightarrow> nat" where
  "hash_at data at =
     (let a = ucast (data ! at) :: u32; b = ucast (data ! (at + 1)); c = ucast (data ! (at + 2))
      in unat ((push_bit 10 a XOR push_bit 5 b XOR c) * 0x9e37) AND (HASH_SIZE - 1))"

text \<open>The match at a candidate: how far both run on alike, up to a limit.\<close>

fun match_run :: "bytes \<Rightarrow> nat \<Rightarrow> nat \<Rightarrow> nat \<Rightarrow> nat" where
  "match_run data candidate at 0 = 0"
| "match_run data candidate at (Suc limit) =
     (if data ! candidate = data ! at then Suc (match_run data (Suc candidate) (Suc at) limit) else 0)"

text \<open>The walk down a chain, \<open>chain\<close> links long at most, with the best length and distance so far.\<close>

fun best_match :: "bytes \<Rightarrow> nat option list \<Rightarrow> nat \<Rightarrow> nat \<Rightarrow> nat option \<Rightarrow> nat \<times> nat \<Rightarrow> nat \<times> nat" where
  "best_match data prev at 0 candidate best = best"
| "best_match data prev at (Suc chain) None best = best"
| "best_match data prev at (Suc chain) (Some candidate) best =
     (let distance = at - candidate
      in if distance > WINDOW then best
         else let len = match_run data candidate at (min MAX_MATCH (length data - at))
              in if len > fst best
                 then if len = MAX_MATCH then (len, distance)
                      else best_match data prev at chain (prev ! candidate) (len, distance)
                 else best_match data prev at chain (prev ! candidate) best)"

definition find_match :: "bytes \<Rightarrow> nat option list \<Rightarrow> nat option list \<Rightarrow> nat \<Rightarrow> nat \<times> nat" where
  "find_match data head prev at =
     (if at + MIN_MATCH \<le> length data
      then best_match data prev at MAX_CHAIN (head ! hash_at data at) (0, 0)
      else (0, 0))"

definition enter_chain ::
  "bytes \<Rightarrow> nat option list \<times> nat option list \<Rightarrow> nat \<Rightarrow> nat option list \<times> nat option list" where
  "enter_chain data hp at =
     (case hp of (head, prev) \<Rightarrow>
        if at + MIN_MATCH \<le> length data
        then (head[hash_at data at := Some at], prev[at := head ! hash_at data at])
        else (head, prev))"

definition wr_extra :: "bit_writer \<Rightarrow> nat \<Rightarrow> nat \<Rightarrow> bit_writer" where
  "wr_extra w extra extra_bits = (if extra_bits > 0 then wr_bits w extra extra_bits else w)"

definition wr_literal :: "bit_writer \<Rightarrow> nat \<Rightarrow> bit_writer" where
  "wr_literal w symbol = (case fixed_literal symbol of (code, len) \<Rightarrow> wr_huffman w code len)"

definition wr_match :: "bit_writer \<Rightarrow> nat \<Rightarrow> nat \<Rightarrow> bit_writer" where
  "wr_match w best_length best_distance =
     (case length_code best_length of (lsymbol, lbits, lextra) \<Rightarrow>
      case distance_code best_distance of (dsymbol, dbits, dextra) \<Rightarrow>
        wr_extra (wr_huffman (wr_extra (wr_literal w lsymbol) lextra lbits) dsymbol 5) dextra dbits)"

function deflate_from ::
  "bytes \<Rightarrow> nat option list \<times> nat option list \<Rightarrow> bit_writer \<Rightarrow> nat \<Rightarrow> bit_writer" where
  "deflate_from data hp w at =
     (if at < length data
      then case find_match data (fst hp) (snd hp) at of (best_length, best_distance) \<Rightarrow>
        if best_length \<ge> MIN_MATCH
        then deflate_from data (foldl (enter_chain data) hp [at..<at + best_length])
               (wr_match w best_length best_distance) (at + best_length)
        else deflate_from data (enter_chain data hp at) (wr_literal w (unat (data ! at))) (at + 1)
      else w)"
  by pat_completeness auto
termination
  by (relation "measure (\<lambda>(data, _, _, at). length data - at)") (auto simp: MIN_MATCH_def)

declare deflate_from.simps [simp del]

definition deflate :: "bytes \<Rightarrow> bytes" where
  "deflate data =
     wr_finish (wr_literal (deflate_from data (replicate HASH_SIZE None, replicate (length data) None)
       (wr_bits (wr_bits writer_new 1 1) 1 2) 0) 256)"

section \<open>Adler-32 and zlib\<close>

definition ADLER_MODULUS :: u32 where "ADLER_MODULUS = 65521"
definition ADLER_RUN :: nat where "ADLER_RUN = 5552"

definition adler_byte :: "u32 \<times> u32 \<Rightarrow> u8 \<Rightarrow> u32 \<times> u32" where
  "adler_byte ab byte = (case ab of (a, b) \<Rightarrow> let a' = a + ucast byte in (a', b + a'))"

function adler_runs :: "u32 \<times> u32 \<Rightarrow> bytes \<Rightarrow> u32 \<times> u32" where
  "adler_runs ab data =
     (if data = [] then ab
      else case foldl adler_byte ab (take ADLER_RUN data) of (a, b) \<Rightarrow>
        adler_runs (a mod ADLER_MODULUS, b mod ADLER_MODULUS) (drop ADLER_RUN data))"
  by pat_completeness auto
termination
  by (relation "measure (\<lambda>(_, data). length data)") (auto simp: ADLER_RUN_def)

declare adler_runs.simps [simp del]

definition adler32 :: "bytes \<Rightarrow> u32" where
  "adler32 data = (case adler_runs (1, 0) data of (a, b) \<Rightarrow> push_bit 16 b OR a)"

definition zlib_compress :: "bytes \<Rightarrow> bytes" where
  "zlib_compress data = [0x78, 0x01] @ deflate data @ rev (le_bytes 4 (unat (adler32 data)))"

definition zlib_decompress :: "bytes \<Rightarrow> nat \<Rightarrow> bytes option" where
  "zlib_decompress data cap =
     (if length data < 2 + 4 then None
      else if data ! 0 AND 0x0f \<noteq> 8 then None
      else if (unat (data ! 0) * 256 + unat (data ! 1)) mod 31 \<noteq> 0 then None
      else if data ! 1 AND 0x20 \<noteq> 0 then None
      else case inflate_bounded (slice 2 (length data - 4 - 2) data) cap of
             None \<Rightarrow> None
           | Some inflated \<Rightarrow>
               if unat (adler32 inflated) = le_nat (rev (drop (length data - 4) data))
               then Some inflated else None)"

end
