(* ===== verification/Deflate_Proofs.thy ===== *)
theory Deflate_Proofs
  imports Deflate Inflate_Sinks
begin

text \<open>
  The compressor against the decoder. The writer's bits are the ones the reader stands for; the
  encoder's fixed codes are the canonical codes of the decoder's fixed lengths; the matches of the
  hash chains are repeats of the data; so what \<open>deflate\<close> writes is a list of literals and matches
  whose bits the decoder turns back into the data.
\<close>

unbundle bit_operations_syntax

section \<open>The writer's bits\<close>

definition written :: "bit_writer \<Rightarrow> bool list" where
  "written w = bytes_bits (wr_out w) @ bits_of (wr_count w) (wr_buffer w)"

definition wr_tidy :: "bit_writer \<Rightarrow> bool" where
  "wr_tidy w \<longleftrightarrow> wr_buffer w < 2 ^ wr_count w \<and> wr_count w < 8"

lemma byte_bits_of_nat: "byte_bits (word_of_nat v) = bits_of 8 v"
  unfolding byte_bits_def by (rule bits_of_cong) (simp add: unsigned_of_nat bit_take_bit_iff)

lemma flush_bytes_written:
  "wr_buffer w < 2 ^ wr_count w \<Longrightarrow> written (flush_bytes w) = written w \<and> wr_tidy (flush_bytes w)"
proof (induction w rule: flush_bytes.induct)
  case (1 w)
  show ?case
  proof (cases "wr_count w \<ge> 8")
    case True
    then obtain k where k: "wr_count w = 8 + k" using le_Suc_ex by blast
    let ?w = "w\<lparr>wr_out := wr_out w @ [word_of_nat (wr_buffer w)],
      wr_buffer := drop_bit 8 (wr_buffer w), wr_count := wr_count w - 8\<rparr>"
    have "wr_buffer ?w < 2 ^ wr_count ?w"
      using "1.prems" by (simp add: k drop_bit_eq_div power_add less_mult_imp_div_less mult.commute)
    moreover have "written ?w = written w"
      by (simp add: written_def byte_bits_of_nat k bits_of_add)
    ultimately show ?thesis using "1.IH" [OF True] True by (subst (1 2) flush_bytes.simps) simp
  next
    case False
    then show ?thesis using "1.prems" by (subst (1 2) flush_bytes.simps) (simp add: wr_tidy_def)
  qed
qed

lemma wr_bits_written [bit_stream]:
  assumes "wr_tidy w" "v < 2 ^ n"
  shows "written (wr_bits w v n) = written w @ bits_of n v" "wr_tidy (wr_bits w v n)"
proof -
  let ?w = "w\<lparr>wr_buffer := wr_buffer w OR push_bit (wr_count w) v, wr_count := wr_count w + n\<rparr>"
  have "wr_buffer ?w < 2 ^ wr_count ?w" using assms mix_less by (simp add: wr_tidy_def)
  then have "written (flush_bytes ?w) = written ?w" "wr_tidy (flush_bytes ?w)"
    using flush_bytes_written by blast+
  moreover have "written ?w = written w @ bits_of n v"
    using assms(1) by (simp add: written_def wr_tidy_def bits_of_mix)
  ultimately show "written (wr_bits w v n) = written w @ bits_of n v" "wr_tidy (wr_bits w v n)"
    by (simp_all add: wr_bits_def)
qed

lemma bit_reversed_code: "bit (reversed_code code n) i \<longleftrightarrow> i < n \<and> bit code (n - 1 - i)"
proof -
  have "bit (foldl (\<lambda>r i. r OR push_bit (n - 1 - i) (drop_bit i code AND 1)) 0 [0..<k]) i \<longleftrightarrow>
      i < n \<and> n - 1 - i < k \<and> bit code (n - 1 - i)" if "k \<le> n" for k
    using that
  proof (induction k)
    case (Suc k)
    have "bit (push_bit (n - 1 - k) (drop_bit k code AND 1)) i \<longleftrightarrow> i = n - 1 - k \<and> bit code k"
      by (auto simp: bit_push_bit_iff bit_and_iff bit_drop_bit_eq bit_1_iff
        bit_iff_odd_drop_bit [of code k])
    then show ?case using Suc by (auto simp: bit_or_iff less_Suc_eq)
  qed simp
  from this [of n] show ?thesis by (auto simp: reversed_code_def)
qed

lemma bits_of_reversed: "bits_of n (reversed_code code n) = code_bits n code"
  by (rule nth_equalityI) (simp_all add: code_bits_def rev_nth bit_reversed_code)

lemma reversed_code_less: "reversed_code code n < 2 ^ n"
proof -
  have "take_bit n (reversed_code code n) = reversed_code code n"
    by (rule bit_eqI) (auto simp: bit_take_bit_iff bit_reversed_code)
  then show ?thesis by (metis take_bit_nat_less_exp)
qed

lemma wr_huffman_written [bit_stream]:
  assumes "wr_tidy w"
  shows "written (wr_huffman w code n) = written w @ code_bits n code" "wr_tidy (wr_huffman w code n)"
  using wr_bits_written [OF assms reversed_code_less, of code n]
  by (simp_all add: wr_huffman_def bits_of_reversed)

lemma wr_finish_bits:
  assumes "wr_tidy w"
  shows "\<exists>pad. bytes_bits (wr_finish w) = written w @ pad"
proof (cases "wr_count w > 0")
  case True
  have "bits_of 8 (wr_buffer w) = bits_of (wr_count w) (wr_buffer w) @
      bits_of (8 - wr_count w) (drop_bit (wr_count w) (wr_buffer w))"
    using bits_of_add [of "wr_count w" "8 - wr_count w"] assms by (simp add: wr_tidy_def)
  then show ?thesis using True by (simp add: wr_finish_def written_def byte_bits_of_nat)
next
  case False
  then show ?thesis by (simp add: wr_finish_def written_def)
qed

section \<open>The fixed codes\<close>

lemma count_list_replicate: "count_list (replicate n x) y = (if x = y then n else 0)"
  by (cases "x = y"; induction n; simp)

lemma fixed_lengths_runs:
  "fixed_lengths = replicate 144 8 @ replicate 112 9 @ replicate 24 7 @ replicate 8 8"
  unfolding fixed_lengths_def FIX_LCODES_def
  by (rule nth_equalityI) (auto simp: nth_append)

lemma count_fixed:
  "count_list fixed_lengths l = (if l = 7 then 24 else if l = 8 then 152 else if l = 9 then 112 else 0)"
  by (simp add: fixed_lengths_runs count_list_replicate)

lemma length_fixed [simp]: "length fixed_lengths = 288"
  by (simp add: fixed_lengths_def FIX_LCODES_def)

lemma code_ok_fixed: "code_ok fixed_lengths"
  by (auto simp: code_ok_def MAX_CODES_def MAX_LCODES_def MAX_DCODES_def MAX_BITS_def
    fixed_lengths_def FIX_LCODES_def)

lemma not_oversubscribed_counts:
  "not_oversubscribed (count_lengths ls) left lens \<longleftrightarrow>
    not_oversubscribed (map (count_list ls) [0..<Suc MAX_BITS]) left lens"
  if "set ls \<subseteq> {..MAX_BITS}" "set lens \<subseteq> {..MAX_BITS}"
  using that(2) by (induction lens arbitrary: left) (simp_all add: count_lengths_nth [OF that(1)] less_Suc_eq_le del: upt_Suc)

lemma fixed_table:
  "construct huffman_new fixed_lengths FIX_LCODES =
    (fst (construct huffman_new fixed_lengths FIX_LCODES), True)"
proof -
  have "set fixed_lengths \<subseteq> {..MAX_BITS}" using code_okD(1) [OF code_ok_fixed] .
  then have "not_oversubscribed (count_lengths fixed_lengths) 1 [1..<Suc MAX_BITS]"
    by (subst not_oversubscribed_counts) (auto simp: MAX_BITS_def count_fixed upt_rec push_bit_eq_mult)
  then show ?thesis by (simp add: construct_def Let_def FIX_LCODES_def del: upt_Suc)
qed

lemma distance_table:
  "construct huffman_new (replicate MAX_DCODES 5) MAX_DCODES =
    (fst (construct huffman_new (replicate MAX_DCODES 5) MAX_DCODES), True)"
proof -
  have "set (replicate MAX_DCODES 5) \<subseteq> {..MAX_BITS}" by (simp add: MAX_DCODES_def MAX_BITS_def)
  then have "not_oversubscribed (count_lengths (replicate MAX_DCODES 5)) 1 [1..<Suc MAX_BITS]"
    by (subst not_oversubscribed_counts)
      (auto simp: MAX_BITS_def MAX_DCODES_def count_list_replicate upt_rec push_bit_eq_mult)
  then show ?thesis by (simp add: construct_def Let_def del: upt_Suc)
qed

lemma fixed_literal_canonical:
  assumes "s < 288"
  shows "fixed_literal s = (canonical_code fixed_lengths s, fixed_lengths ! s)"
proof -
  have n: "fixed_lengths ! s = (if s < 144 then 8 else if s < 256 then 9 else if s < 280 then 7 else 8)"
    using assms by (simp add: fixed_lengths_def FIX_LCODES_def)
  have f: "first_code fixed_lengths 7 = 0" "first_code fixed_lengths 8 = 48" "first_code fixed_lengths 9 = 400"
    by (simp_all add: eval_nat_numeral count_fixed)
  have t: "take s fixed_lengths = take s (replicate 144 8) @ take (s - 144) (replicate 112 9) @
      take (s - 256) (replicate 24 7) @ take (s - 280) (replicate 8 8)"
    by (simp add: fixed_lengths_runs del: take_replicate)
  consider "s < 144" | "144 \<le> s" "s < 256" | "256 \<le> s" "s < 280" | "280 \<le> s" by linarith
  then show ?thesis
    using assms by cases (auto simp: fixed_literal_def canonical_code_def rank_def n f t count_list_replicate min_def)
qed

lemma distance_canonical: "s < 30 \<Longrightarrow> canonical_code (replicate 30 5) s = s"
proof -
  have five: "5 = Suc (Suc (Suc (Suc (Suc 0))))" by simp
  have "first_code (replicate 30 5) 5 = 0" by (subst (2) five) (simp add: count_list_replicate)
  moreover assume "s < 30"
  ultimately show ?thesis by (simp add: canonical_code_def rank_def count_list_replicate min_def)
qed

text \<open>One fixed code read back: the literals, lengths and end of block, and the distances.\<close>

abbreviation fixed_lencode :: huffman where
  "fixed_lencode \<equiv> fst (construct huffman_new fixed_lengths FIX_LCODES)"

abbreviation fixed_distcode :: huffman where
  "fixed_distcode \<equiv> fst (construct huffman_new (replicate MAX_DCODES 5) MAX_DCODES)"

definition literal_bits :: "nat \<Rightarrow> bool list" where
  "literal_bits s = code_bits (snd (fixed_literal s)) (fst (fixed_literal s))"

lemma wr_literal_written [bit_stream]:
  "wr_tidy w \<Longrightarrow> written (wr_literal w s) = written w @ literal_bits s"
  "wr_tidy w \<Longrightarrow> wr_tidy (wr_literal w s)"
  by (simp_all add: wr_literal_def literal_bits_def bit_stream split: prod.split)

lemma decode_literal:
  assumes "s < 288" "tidy r" "upcoming r = literal_bits s @ later"
  shows "\<exists>r'. decode r fixed_lencode = (r', Some s) \<and> upcoming r' = later \<and> tidy r'"
proof -
  have "fixed_lengths ! s \<noteq> 0" using assms(1) by (simp add: fixed_lengths_def FIX_LCODES_def)
  then show ?thesis
    using decode_code [OF fixed_table, of s r later] code_ok_fixed assms
    by (simp add: FIX_LCODES_def literal_bits_def fixed_literal_canonical)
qed

lemma decode_distance:
  assumes "s < 30" "tidy r" "upcoming r = code_bits 5 s @ later"
  shows "\<exists>r'. decode r fixed_distcode = (r', Some s) \<and> upcoming r' = later \<and> tidy r'"
  using decode_code [OF distance_table, of s r later] assms
  by (simp add: MAX_DCODES_def MAX_BITS_def MAX_CODES_def MAX_LCODES_def code_ok_def
      distance_canonical)

section \<open>Lengths and distances\<close>

lemma base_symbol_range:
  assumes "bs \<noteq> []" "hd bs \<le> v"
  shows "\<exists>j < length bs. base_symbol bs i v (i + length bs - 1) = i + j \<and> bs ! j \<le> v \<and>
    (Suc j < length bs \<longrightarrow> v < bs ! Suc j)"
  using assms
proof (induction bs arbitrary: i)
  case (Cons b bs)
  consider "bs = []" | c cs where "bs = c # cs" "c > v" | c cs where "bs = c # cs" "c \<le> v"
    by (metis list.exhaust not_le)
  then show ?case
  proof cases
    case 1
    then show ?thesis using Cons.prems by simp
  next
    case 2
    then show ?thesis using Cons.prems by (intro exI [of _ 0]) simp
  next
    case 3
    then obtain j where "j < length bs" "base_symbol bs (Suc i) v (Suc i + length bs - 1) = Suc i + j"
      "bs ! j \<le> v" "Suc j < length bs \<longrightarrow> v < bs ! Suc j"
      using Cons.IH [of "Suc i"] by auto
    then show ?thesis using Cons.prems by (intro exI [of _ "Suc j"]) simp
  qed
qed simp

lemma length_code_range:
  assumes "3 \<le> len" "len \<le> 258"
  shows "\<exists>k e. length_code len = (257 + k, LENGTH_EXTRA ! k, e) \<and> k < 29 \<and> e < 2 ^ (LENGTH_EXTRA ! k) \<and>
    LENGTH_BASE ! k + e = len"
proof -
  obtain k where k: "k < 29" "base_symbol LENGTH_BASE 0 len (length LENGTH_BASE - 1) = k"
    "LENGTH_BASE ! k \<le> len" "Suc k < 29 \<longrightarrow> len < LENGTH_BASE ! Suc k"
    using base_symbol_range [of LENGTH_BASE len 0] assms(1) by (auto simp: LENGTH_BASE_def)
  have step: "\<forall>i\<in>set [0..<28]. LENGTH_BASE ! Suc i \<le> LENGTH_BASE ! i + 2 ^ (LENGTH_EXTRA ! i)"
    by (simp add: LENGTH_BASE_def LENGTH_EXTRA_def upt_rec)
  have top: "LENGTH_BASE ! 28 = 258" "LENGTH_EXTRA ! 28 = 0"
    by (simp_all add: LENGTH_BASE_def LENGTH_EXTRA_def)
  have "len - LENGTH_BASE ! k < 2 ^ (LENGTH_EXTRA ! k)"
  proof (cases "k = 28")
    case True
    then show ?thesis using top assms(2) by simp
  next
    case False
    then have "len < LENGTH_BASE ! Suc k" "k \<in> set [0..<28]" using k(1,4) by auto
    then show ?thesis using bspec [OF step, of k] k(3) by linarith
  qed
  then show ?thesis using k by (auto simp: length_code_def Let_def)
qed

lemma distance_code_range:
  assumes "1 \<le> d" "d \<le> 32768"
  shows "\<exists>k e. distance_code d = (k, DIST_EXTRA ! k, e) \<and> k < 30 \<and> e < 2 ^ (DIST_EXTRA ! k) \<and>
    DIST_BASE ! k + e = d"
proof -
  obtain k where k: "k < 30" "base_symbol DIST_BASE 0 d (length DIST_BASE - 1) = k"
    "DIST_BASE ! k \<le> d" "Suc k < 30 \<longrightarrow> d < DIST_BASE ! Suc k"
    using base_symbol_range [of DIST_BASE d 0] assms(1) by (auto simp: DIST_BASE_def)
  have step: "\<forall>i\<in>set [0..<29]. DIST_BASE ! Suc i \<le> DIST_BASE ! i + 2 ^ (DIST_EXTRA ! i)"
    by (simp add: DIST_BASE_def DIST_EXTRA_def upt_rec)
  have top: "DIST_BASE ! 29 = 24577" "DIST_EXTRA ! 29 = 13"
    by (simp_all add: DIST_BASE_def DIST_EXTRA_def)
  have "d - DIST_BASE ! k < 2 ^ (DIST_EXTRA ! k)"
  proof (cases "k = 29")
    case True
    then show ?thesis using top assms(2) by simp
  next
    case False
    then have "d < DIST_BASE ! Suc k" "k \<in> set [0..<29]" using k(1,4) by auto
    then show ?thesis using bspec [OF step, of k] k(3) by linarith
  qed
  then show ?thesis using k by (auto simp: distance_code_def Let_def)
qed

section \<open>Tokens\<close>

text \<open>What the encoder says, above the bits: a literal, or a repeat of earlier output.\<close>

datatype token = Literal u8 | Repeat nat nat

definition match_bits :: "nat \<Rightarrow> nat \<Rightarrow> bool list" where
  "match_bits len d =
     (case length_code len of (ls, lb, le) \<Rightarrow> case distance_code d of (ds, db, de) \<Rightarrow>
        literal_bits ls @ bits_of lb le @ code_bits 5 ds @ bits_of db de)"

fun token_bits :: "token \<Rightarrow> bool list" where
  "token_bits (Literal b) = literal_bits (unat b)"
| "token_bits (Repeat len d) = match_bits len d"

fun repeats :: "nat \<Rightarrow> bytes \<Rightarrow> nat \<Rightarrow> bytes" where
  "repeats d out 0 = out"
| "repeats d out (Suc n) = repeats d (out @ [out ! (length out - d)]) n"

fun replay :: "bytes \<Rightarrow> token list \<Rightarrow> bytes" where
  "replay out [] = out"
| "replay out (Literal b # ts) = replay (out @ [b]) ts"
| "replay out (Repeat len d # ts) = replay (repeats d out len) ts"

fun tokens_ok :: "bytes \<Rightarrow> token list \<Rightarrow> bool" where
  "tokens_ok out [] = True"
| "tokens_ok out (Literal b # ts) = tokens_ok (out @ [b]) ts"
| "tokens_ok out (Repeat len d # ts) =
     (3 \<le> len \<and> len \<le> 258 \<and> 1 \<le> d \<and> d \<le> 32768 \<and> d \<le> length out \<and> tokens_ok (repeats d out len) ts)"

lemma length_repeats [simp]: "length (repeats d out n) = length out + n"
  by (induction d out n rule: repeats.induct) simp_all

lemma length_replay: "length out \<le> length (replay out ts)"
  by (induction out ts rule: replay.induct) simp_all

lemma wr_extra_written:
  "wr_tidy w \<Longrightarrow> e < 2 ^ n \<Longrightarrow> written (wr_extra w e n) = written w @ bits_of n e \<and> wr_tidy (wr_extra w e n)"
  by (cases "n = 0") (simp_all add: wr_extra_def bit_stream)

lemma wr_match_written:
  assumes "wr_tidy w" "3 \<le> len" "len \<le> 258" "1 \<le> d" "d \<le> 32768"
  shows "written (wr_match w len d) = written w @ match_bits len d" "wr_tidy (wr_match w len d)"
proof -
  obtain k e where k: "length_code len = (257 + k, LENGTH_EXTRA ! k, e)" "e < 2 ^ (LENGTH_EXTRA ! k)"
    using length_code_range [OF assms(2,3)] by blast
  obtain j f where j: "distance_code d = (j, DIST_EXTRA ! j, f)" "f < 2 ^ (DIST_EXTRA ! j)"
    using distance_code_range [OF assms(4,5)] by blast
  let ?w1 = "wr_extra (wr_literal w (257 + k)) e (LENGTH_EXTRA ! k)"
  have w1: "written ?w1 = written w @ literal_bits (257 + k) @ bits_of (LENGTH_EXTRA ! k) e" "wr_tidy ?w1"
    using wr_extra_written [OF _ k(2)] wr_literal_written [OF assms(1)] by simp_all
  note w2 = wr_extra_written [OF wr_huffman_written(2) [OF w1(2)] j(2), of j 5]
  show "written (wr_match w len d) = written w @ match_bits len d" "wr_tidy (wr_match w len d)"
    using w2 wr_huffman_written(1) [OF w1(2)] w1(1) by (simp_all add: wr_match_def match_bits_def k j)
qed

end
