(* ===== verification/Deflate_Roundtrip.thy ===== *)
theory Deflate_Roundtrip
  imports Deflate_Proofs
begin

text \<open>
  The two halves meet: the tokens the compressor chose replay to its data, the decoder turns their
  bits into that replay, and the zlib framing around them checks out.
\<close>

unbundle bit_operations_syntax

section \<open>Matches are repeats\<close>

lemma match_run_law:
  "match_run data c a limit \<le> limit \<and> (\<forall>j < match_run data c a limit. data ! (c + j) = data ! (a + j))"
proof (induction limit arbitrary: c a)
  case (Suc limit)
  show ?case
  proof (cases "data ! c = data ! a")
    case True
    have "data ! (c + j) = data ! (a + j)" if "j < Suc (match_run data (Suc c) (Suc a) limit)" for j
      using Suc.IH [of "Suc c" "Suc a"] that True by (cases j) auto
    then show ?thesis using Suc.IH [of "Suc c" "Suc a"] True by simp
  qed simp
qed simp

definition match_at :: "bytes \<Rightarrow> nat \<Rightarrow> nat \<times> nat \<Rightarrow> bool" where
  "match_at data at m \<longleftrightarrow> fst m \<le> MAX_MATCH \<and> fst m \<le> length data - at \<and>
     (fst m > 0 \<longrightarrow> 1 \<le> snd m \<and> snd m \<le> WINDOW \<and> snd m \<le> at \<and>
        (\<forall>j < fst m. data ! (at - snd m + j) = data ! (at + j)))"

text \<open>The chains only ever hold earlier positions.\<close>

definition chains_below :: "nat \<Rightarrow> nat option list \<times> nat option list \<Rightarrow> bool" where
  "chains_below at hp \<longleftrightarrow> (\<forall>c. Some c \<in> set (fst hp) \<longrightarrow> c < at) \<and> (\<forall>c. Some c \<in> set (snd hp) \<longrightarrow> c < at)"

lemma best_match_ok:
  assumes "\<And>c. Some c \<in> set prev \<Longrightarrow> c < at" "\<And>c. candidate = Some c \<Longrightarrow> c < at" "match_at data at best"
    and "length prev = length data" "at \<le> length data"
  shows "match_at data at (best_match data prev at chain candidate best)"
  using assms
proof (induction data prev at chain candidate best rule: best_match.induct)
  case (3 data prev at chain candidate best)
  let ?d = "at - candidate"
  let ?len = "match_run data candidate at (min MAX_MATCH (length data - at))"
  have c: "candidate < at" using "3.prems"(2) by simp
  have n: "\<And>c. prev ! candidate = Some c \<Longrightarrow> c < at"
    using "3.prems"(1,4,5) c by (metis nth_mem order_less_le_trans)
  have "match_at data at (?len, ?d)" if "?d \<le> WINDOW"
    using match_run_law [of data candidate at "min MAX_MATCH (length data - at)"] c that
    by (auto simp: match_at_def)
  then show ?case
    using "3.IH"(1) [OF refl _ refl _ _ "3.prems"(1) n _ "3.prems"(4,5)]
      "3.IH"(2) [OF refl _ refl _ "3.prems"(1) n "3.prems"(3-5)] "3.prems"(3)
    by (auto simp: Let_def)
qed simp_all

lemma hash_at_less: "hash_at data at < HASH_SIZE"
  unfolding hash_at_def Let_def HASH_SIZE_def
  by (metis (no_types, lifting) mask_eq_exp_minus_1 take_bit_eq_mask take_bit_nat_less_exp)

lemma find_match_ok:
  assumes "chains_below at (head, prev)" "length head = HASH_SIZE" "length prev = length data"
    and "at < length data"
  shows "match_at data at (find_match data head prev at)"
proof -
  have "\<And>c. head ! hash_at data at = Some c \<Longrightarrow> c < at"
    using assms(1,2) hash_at_less [of data at] nth_mem by (metis chains_below_def fst_conv)
  moreover have "match_at data at (0, 0)" by (simp add: match_at_def)
  moreover have "\<And>c. Some c \<in> set prev \<Longrightarrow> c < at" using assms(1) by (simp add: chains_below_def)
  ultimately show ?thesis
    using best_match_ok [of prev at "head ! hash_at data at" data "(0, 0)" MAX_CHAIN] assms(3,4)
    by (simp add: find_match_def)
qed

lemma enter_chain_below:
  assumes "chains_below at hp" "length (fst hp) = HASH_SIZE"
  shows "chains_below (Suc at) (enter_chain data hp at)"
    "length (fst (enter_chain data hp at)) = length (fst hp)"
    "length (snd (enter_chain data hp at)) = length (snd hp)"
proof -
  obtain head prev where hp: "hp = (head, prev)" by fastforce
  have h: "\<And>c. head ! hash_at data at = Some c \<Longrightarrow> c < at"
    using assms hp hash_at_less [of data at] nth_mem by (metis chains_below_def fst_conv)
  show "chains_below (Suc at) (enter_chain data hp at)"
    using assms(1) h hp
    by (auto simp: chains_below_def enter_chain_def less_Suc_eq dest!: subsetD [OF set_update_subset_insert])
  show "length (fst (enter_chain data hp at)) = length (fst hp)"
    "length (snd (enter_chain data hp at)) = length (snd hp)"
    by (simp_all add: enter_chain_def hp)
qed

lemma enter_chains_below:
  assumes "chains_below at hp" "length (fst hp) = HASH_SIZE"
  shows "chains_below (at + n) (foldl (enter_chain data) hp [at..<at + n]) \<and>
    length (fst (foldl (enter_chain data) hp [at..<at + n])) = HASH_SIZE \<and>
    length (snd (foldl (enter_chain data) hp [at..<at + n])) = length (snd hp)"
  using assms by (induction n) (simp_all add: enter_chain_below)

lemma repeats_data:
  assumes "\<And>j. j < n \<Longrightarrow> data ! (at - d + j) = data ! (at + j)" "1 \<le> d" "d \<le> at" "at + n \<le> length data"
  shows "repeats d (take at data) n = take (at + n) data"
  using assms
proof (induction n arbitrary: at)
  case (Suc n)
  have "take at data ! (length (take at data) - d) = data ! at"
    using Suc.prems(1) [of 0] Suc.prems(2-4) by simp
  moreover have "take at data @ [data ! at] = take (Suc at) data"
    using Suc.prems(4) by (simp add: take_Suc_conv_app_nth)
  moreover have "data ! (Suc at - d + j) = data ! (Suc at + j)" if "j < n" for j
    using Suc.prems(1) [of "Suc j"] Suc.prems(3) that by (simp add: Suc_diff_le)
  ultimately show ?case using Suc.IH [of "Suc at"] Suc.prems(2-4) by simp
qed simp

text \<open>The compressor's loop, as tokens.\<close>

lemma deflate_from_tokens:
  assumes "wr_tidy w" "chains_below at hp" "length (fst hp) = HASH_SIZE" "length (snd hp) = length data"
    and "at \<le> length data"
  shows "\<exists>ts. written (deflate_from data hp w at) = written w @ concat (map token_bits ts) \<and>
    wr_tidy (deflate_from data hp w at) \<and> tokens_ok (take at data) ts \<and> replay (take at data) ts = data"
  using assms
proof (induction data hp w at rule: deflate_from.induct)
  case (1 data hp w at)
  show ?case
  proof (cases "at < length data")
    case False
    then show ?thesis using "1.prems" by (subst (1 2) deflate_from.simps) (intro exI [of _ "[]"], simp)
  next
    case at: True
    obtain len d where m: "find_match data (fst hp) (snd hp) at = (len, d)" by fastforce
    then have ok: "match_at data at (len, d)"
      using find_match_ok [of at "fst hp" "snd hp" data] "1.prems" at by simp
    show ?thesis
    proof (cases "len \<ge> MIN_MATCH")
      case True
      let ?hp = "foldl (enter_chain data) hp [at..<at + len]"
      have r: "3 \<le> len" "len \<le> 258" "1 \<le> d" "d \<le> 32768" "d \<le> at" "at + len \<le> length data"
        using ok True at by (auto simp: match_at_def MIN_MATCH_def MAX_MATCH_def WINDOW_def)
      note wm = wr_match_written [OF "1.prems"(1) r(1-4)]
      have rep: "repeats d (take at data) len = take (at + len) data"
        using ok r by (intro repeats_data) (auto simp: match_at_def)
      obtain ts where ts: "written (deflate_from data ?hp (wr_match w len d) (at + len)) =
          written (wr_match w len d) @ concat (map token_bits ts)"
        "wr_tidy (deflate_from data ?hp (wr_match w len d) (at + len))"
        "tokens_ok (take (at + len) data) ts" "replay (take (at + len) data) ts = data"
        using "1.IH"(1) [OF at m [symmetric] True wm(2)] enter_chains_below [OF "1.prems"(2,3)]
          "1.prems"(4) r(6) by auto
      have "deflate_from data hp w at = deflate_from data ?hp (wr_match w len d) (at + len)"
        using at m True by (subst deflate_from.simps) simp
      then show ?thesis
        using ts wm(1) rep r by (intro exI [of _ "Repeat len d # ts"]) simp
    next
      case False
      let ?b = "data ! at"
      have step: "take at data @ [?b] = take (Suc at) data" using at by (simp add: take_Suc_conv_app_nth)
      note wl = wr_literal_written [OF "1.prems"(1), of "unat ?b"]
      obtain ts where ts: "written (deflate_from data (enter_chain data hp at) (wr_literal w (unat ?b)) (at + 1)) =
          written (wr_literal w (unat ?b)) @ concat (map token_bits ts)"
        "wr_tidy (deflate_from data (enter_chain data hp at) (wr_literal w (unat ?b)) (at + 1))"
        "tokens_ok (take (at + 1) data) ts" "replay (take (at + 1) data) ts = data"
        using "1.IH"(2) [OF at m [symmetric] False wl(2)] enter_chain_below [OF "1.prems"(2,3)]
          "1.prems"(3,4) at by auto
      have "deflate_from data hp w at = deflate_from data (enter_chain data hp at) (wr_literal w (unat ?b)) (at + 1)"
        using at m False by (subst deflate_from.simps) simp
      then show ?thesis
        using ts wl(1) step by (intro exI [of _ "Literal ?b # ts"]) simp
    qed
  qed
qed

section \<open>Decoding the tokens\<close>

lemma back_reference_match:
  assumes "3 \<le> len" "len \<le> 258" "1 \<le> d" "d \<le> 32768" "tidy r"
    and "upcoming r = match_bits len d @ later"
  shows "\<exists>r1 r2 k. decode r fixed_lencode = (r1, Some (257 + k)) \<and> k < 29 \<and>
    back_reference r1 fixed_distcode k = (r2, Some (d, len)) \<and> upcoming r2 = later \<and> tidy r2"
proof -
  obtain k e where k: "length_code len = (257 + k, LENGTH_EXTRA ! k, e)" "k < 29"
    "e < 2 ^ (LENGTH_EXTRA ! k)" "LENGTH_BASE ! k + e = len"
    using length_code_range [OF assms(1,2)] by blast
  obtain j f where j: "distance_code d = (j, DIST_EXTRA ! j, f)" "j < 30" "f < 2 ^ (DIST_EXTRA ! j)"
    "DIST_BASE ! j + f = d"
    using distance_code_range [OF assms(3,4)] by blast
  have up: "upcoming r = literal_bits (257 + k) @ bits_of (LENGTH_EXTRA ! k) e @ code_bits 5 j @
      bits_of (DIST_EXTRA ! j) f @ later"
    using assms(6) by (simp add: match_bits_def k(1) j(1))
  obtain r1 where r1: "decode r fixed_lencode = (r1, Some (257 + k))" "tidy r1"
    "upcoming r1 = bits_of (LENGTH_EXTRA ! k) e @ code_bits 5 j @ bits_of (DIST_EXTRA ! j) f @ later"
    using decode_literal [OF _ assms(5) up] k(2) by auto
  obtain r2 where r2: "rd_bits (LENGTH_EXTRA ! k) r1 = (r2, e)" "tidy r2"
    "upcoming r2 = code_bits 5 j @ bits_of (DIST_EXTRA ! j) f @ later"
    using rd_bits_upcoming [OF r1(2,3) k(3)] by blast
  obtain r3 where r3: "decode r2 fixed_distcode = (r3, Some j)" "tidy r3"
    "upcoming r3 = bits_of (DIST_EXTRA ! j) f @ later"
    using decode_distance [OF j(2) r2(2,3)] by blast
  obtain r4 where r4: "rd_bits (DIST_EXTRA ! j) r3 = (r4, f)" "tidy r4" "upcoming r4 = later"
    using rd_bits_upcoming [OF r3(2,3) j(3)] by blast
  have "back_reference r1 fixed_distcode k = (r4, Some (d, len))"
    using r2(1) r3(1) r4 j(2,4) k(4) by (simp add: back_reference_def tidy_def)
  then show ?thesis using r1(1) r4 k(2) by blast
qed

lemma vec_repeat_repeats:
  "length out + n \<le> cap \<Longrightarrow> vec_repeat d (vec_sink_of out cap) n = (vec_sink_of (repeats d out n) cap, True)"
  by (induction n arbitrary: out) (simp_all add: vec_push_def vec_sink_of_def)

lemma codes_loop_tokens:
  assumes "tokens_ok out ts" "tidy r"
    and "upcoming r = concat (map token_bits ts) @ literal_bits 256 @ later"
    and "length (replay out ts) \<le> cap"
  shows "\<exists>r'. codes_loop vec_ops fixed_lencode fixed_distcode r (vec_sink_of out cap) =
    (r', vec_sink_of (replay out ts) cap, True)"
  using assms
proof (induction out ts arbitrary: r rule: replay.induct)
  case (1 out)
  then obtain r1 where "decode r fixed_lencode = (r1, Some 256)"
    using decode_literal [of 256 r later] by auto
  then show ?case by (subst codes_loop.simps) simp
next
  case (2 out b ts)
  have "unat b < 2 ^ LENGTH(8)" by (rule unsigned_less)
  then have u: "unat b < 256" by simp
  obtain r1 where r1: "decode r fixed_lencode = (r1, Some (unat b))" "tidy r1"
    "upcoming r1 = concat (map token_bits ts) @ literal_bits 256 @ later"
    using decode_literal [of "unat b" r] 2(3,4) u by auto
  have "length out < cap" using length_replay [of "out @ [b]" ts] 2(5) by simp
  then have "vec_push (vec_sink_of out cap) b = (vec_sink_of (out @ [b]) cap, True)"
    by (simp add: vec_push_def vec_sink_of_def)
  then show ?case
    using 2(1) [OF _ r1(2,3)] 2(2,5) r1(1) u
    by (subst codes_loop.simps) (simp add: vec_ops_def)
next
  case (3 out len d ts)
  then have t: "3 \<le> len" "len \<le> 258" "1 \<le> d" "d \<le> 32768" "d \<le> length out" "tokens_ok (repeats d out len) ts"
    by simp_all
  have up: "upcoming r = match_bits len d @ concat (map token_bits ts) @ literal_bits 256 @ later"
    using 3(4) by simp
  obtain r1 r2 k where k: "decode r fixed_lencode = (r1, Some (257 + k))" "k < 29"
    "back_reference r1 fixed_distcode k = (r2, Some (d, len))" "tidy r2"
    "upcoming r2 = concat (map token_bits ts) @ literal_bits 256 @ later"
    using back_reference_match [OF t(1-4) 3(3) up] by blast
  have "length out + len \<le> cap" using length_replay [of "repeats d out len" ts] 3(5) by simp
  then have "vec_copy_back (vec_sink_of out cap) d len = (vec_sink_of (repeats d out len) cap, True)"
    using t by (simp add: vec_copy_back_def vec_repeat_repeats)
  then show ?case
    using 3(1) [OF t(6) k(4,5)] 3(5) k(1-3) by (subst codes_loop.simps) (simp add: vec_ops_def)
qed

section \<open>The round trips\<close>

lemma deflate_bits:
  "\<exists>ts pad. bytes_bits (deflate data) = bits_of 1 1 @ bits_of 2 1 @
     concat (map token_bits ts) @ literal_bits 256 @ pad \<and> tokens_ok [] ts \<and> replay [] ts = data"
proof -
  let ?w = "wr_bits (wr_bits writer_new 1 1) 1 2"
  let ?hp = "(replicate HASH_SIZE None, replicate (length data) None)"
  have "wr_tidy writer_new" "written writer_new = []"
    by (simp_all add: wr_tidy_def written_def writer_new_def)
  then have w: "wr_tidy ?w" "written ?w = bits_of 1 1 @ bits_of 2 1"
    using wr_bits_written [of writer_new 1 1] wr_bits_written [of "wr_bits writer_new 1 1" 1 2] by simp_all
  have "chains_below 0 ?hp" by (auto simp: chains_below_def)
  then obtain ts where ts: "written (deflate_from data ?hp ?w 0) = written ?w @ concat (map token_bits ts)"
    "wr_tidy (deflate_from data ?hp ?w 0)" "tokens_ok [] ts" "replay [] ts = data"
    using deflate_from_tokens [OF w(1), of 0 ?hp data] by auto
  obtain pad where "bytes_bits (deflate data) = written (wr_literal (deflate_from data ?hp ?w 0) 256) @ pad"
    using wr_finish_bits [OF wr_literal_written(2) [OF ts(2)], of 256] unfolding deflate_def by blast
  then show ?thesis using ts w wr_literal_written(1) [OF ts(2), of 256] by auto
qed

lemma inflate_deflate_run:
  assumes "length data \<le> cap"
  shows "\<exists>r. inflate_into (slice_source (deflate data)) vec_ops (vec_sink_of [] cap) = (r, vec_sink_of data cap, True)"
proof -
  obtain ts pad where b: "bytes_bits (deflate data) = bits_of 1 1 @ bits_of 2 1 @
      concat (map token_bits ts) @ literal_bits 256 @ pad" "tokens_ok [] ts" "replay [] ts = data"
    using deflate_bits by blast
  let ?r = "reader_new (slice_source (deflate data))"
  have up: "upcoming ?r = bits_of 1 1 @ bits_of 2 1 @ concat (map token_bits ts) @ literal_bits 256 @ pad"
    using b(1) by (simp add: slice_source_def)
  obtain r1 where r1: "rd_bits 1 ?r = (r1, 1)" "tidy r1"
    "upcoming r1 = bits_of 2 1 @ concat (map token_bits ts) @ literal_bits 256 @ pad"
    using rd_bits_upcoming [OF tidy_new up] by auto
  obtain r2 where r2: "rd_bits 2 r1 = (r2, 1)" "tidy r2"
    "upcoming r2 = concat (map token_bits ts) @ literal_bits 256 @ pad"
    using rd_bits_upcoming [OF r1(2,3)] by auto
  obtain r3 where "codes_loop vec_ops fixed_lencode fixed_distcode r2 (vec_sink_of [] cap) =
      (r3, vec_sink_of data cap, True)"
    using codes_loop_tokens [OF b(2) r2(2,3), of cap] b(3) assms by auto
  then have "block vec_ops 1 r2 (vec_sink_of [] cap) = (r3, vec_sink_of data cap, True)"
    by (simp add: block_def fixed_block_def)
  then show ?thesis
    using r1(1) r2(1,2) unfolding inflate_into_def
    by (subst inflate_blocks.simps) (simp add: tidy_def)
qed

text \<open>
  C19: decompression undoes compression. Whatever bytes \<open>deflate\<close> is given, and whatever matches
  its hash chains find, \<open>inflate\<close> turns its answer back into them, given room for them.
\<close>

theorem inflate_deflate:
  assumes "length data \<le> expected_size"
  shows "inflate (deflate data) expected_size = Some data"
  using inflate_deflate_run [OF assms] by (auto simp: inflate_def vec_sink_of_def)

lemma inflate_deflate_witness: "inflate (deflate (replicate 300 (7 :: u8))) 300 = Some (replicate 300 7)"
  by (rule inflate_deflate) simp

section \<open>Adler-32\<close>

text \<open>The sums of RFC 1950, section 8, over the natural numbers.\<close>

definition adler_a :: "bytes \<Rightarrow> nat" where
  "adler_a data = 1 + sum_list (map unat data)"

definition adler_b :: "bytes \<Rightarrow> nat" where
  "adler_b data = (\<Sum>i < length data. adler_a (take (Suc i) data))"

definition adler_nat :: "nat \<times> nat \<Rightarrow> u8 \<Rightarrow> nat \<times> nat" where
  "adler_nat ab x = (case ab of (a, b) \<Rightarrow> (a + unat x, b + (a + unat x)))"

lemma adler_nat_sums: "foldl adler_nat (1, 0) data = (adler_a data, adler_b data)"
proof (induction data rule: rev_induct)
  case (snoc x data)
  have "(\<Sum>i < length data. adler_a (take (Suc i) (data @ [x]))) = (\<Sum>i < length data. adler_a (take (Suc i) data))"
    by (intro sum.cong) auto
  then show ?case using snoc by (simp add: adler_nat_def adler_a_def adler_b_def)
qed (simp add: adler_a_def adler_b_def)

lemma adler_words:
  "foldl adler_byte (word_of_nat a, word_of_nat b) xs =
    map_prod word_of_nat word_of_nat (foldl adler_nat (a, b) xs)"
proof (induction xs arbitrary: a b)
  case (Cons x xs)
  have "(ucast x :: u32) = word_of_nat (unat x)" by (simp add: unsigned_ucast_eq)
  then show ?case using Cons [of "a + unat x" "b + (a + unat x)"]
    by (simp add: adler_byte_def adler_nat_def Let_def)
qed simp

lemma adler_nat_mod:
  "a mod m = a' mod m \<Longrightarrow> b mod m = b' mod m \<Longrightarrow>
    fst (foldl adler_nat (a, b) xs) mod m = fst (foldl adler_nat (a', b') xs) mod m \<and>
    snd (foldl adler_nat (a, b) xs) mod m = snd (foldl adler_nat (a', b') xs) mod m"
proof (induction xs arbitrary: a b a' b')
  case (Cons x xs)
  note e = mod_add_cong [OF Cons.prems(1) refl, of "unat x"]
  show ?case using Cons.IH [OF e mod_add_cong [OF Cons.prems(2) e]] by (simp add: adler_nat_def)
qed simp

text \<open>A run of 5552 bytes is as long as the sums can go unreduced without leaving 32 bits.\<close>

lemma adler_nat_bound:
  "foldl adler_nat (a, b) xs = (a', b') \<Longrightarrow>
    a' \<le> a + 255 * length xs \<and> 2 * b' \<le> 2 * b + 2 * length xs * a + 255 * (length xs * (length xs + 1))"
proof (induction xs arbitrary: a b)
  case (Cons x xs)
  have "unat x < 2 ^ LENGTH(8)" by (rule unsigned_less)
  then have u: "unat x \<le> 255" by simp
  have ih: "a' \<le> a + unat x + 255 * length xs"
    "2 * b' \<le> 2 * (b + (a + unat x)) + 2 * length xs * (a + unat x) + 255 * (length xs * (length xs + 1))"
    using Cons.IH [of "a + unat x" "b + (a + unat x)"] Cons.prems by (simp_all add: adler_nat_def)
  have "length xs * unat x \<le> length xs * 255" using u by (intro mult_left_mono) simp_all
  moreover have "2 * b' \<le> 2 * b + 2 * a + 2 * unat x + 2 * (length xs * a) + 2 * (length xs * unat x) +
      255 * (length xs * length xs) + 255 * length xs"
    using ih(2) by (simp add: algebra_simps)
  moreover have "2 * b + 2 * length (x # xs) * a + 255 * (length (x # xs) * (length (x # xs) + 1)) =
      2 * b + 2 * (length xs * a) + 2 * a + 255 * (length xs * length xs) + 765 * length xs + 510"
    by (simp add: algebra_simps)
  moreover have "a' \<le> a + 255 * length (x # xs)" using ih(1) u by simp
  ultimately show ?case using u by linarith
qed simp

lemma adler_run_fits:
  assumes "a < 65521" "b < 65521" "length xs \<le> ADLER_RUN" "foldl adler_nat (a, b) xs = (a', b')"
  shows "a' < 2 ^ 32" "b' < 2 ^ 32"
proof -
  note bound = adler_nat_bound [OF assms(4)]
  have n: "length xs \<le> 5552" using assms(3) by (simp add: ADLER_RUN_def)
  then show "a' < 2 ^ 32" using bound assms(1) by simp
  have "length xs * a \<le> 5552 * 65520" using n assms(1) by (intro mult_mono) simp_all
  moreover have "length xs * (length xs + 1) \<le> 5552 * 5553" using n by (intro mult_mono) simp_all
  moreover have "2 * b' \<le> 2 * b + 2 * (length xs * a) + 255 * (length xs * (length xs + 1))"
    using bound by (simp add: mult.assoc)
  ultimately have "2 * b' \<le> 2 * b + 2 * (5552 * 65520) + 255 * (5552 * 5553)" by linarith
  then show "b' < 2 ^ 32" using assms(2) by simp
qed

lemma unat_mod_modulus:
  "v < 2 ^ 32 \<Longrightarrow> (word_of_nat v :: u32) mod ADLER_MODULUS = word_of_nat (v mod 65521)"
  by (rule word_unat_eq_iff [THEN iffD2])
    (simp add: ADLER_MODULUS_def unat_mod_distrib unsigned_of_nat take_bit_nat_eq_self)

lemma adler_runs_nat:
  "a < 65521 \<Longrightarrow> b < 65521 \<Longrightarrow> adler_runs (word_of_nat a, word_of_nat b) data =
    map_prod (\<lambda>v. word_of_nat (v mod 65521)) (\<lambda>v. word_of_nat (v mod 65521)) (foldl adler_nat (a, b) data)"
proof (induction "length data" arbitrary: a b data rule: less_induct)
  case less
  show ?case
  proof (cases "data = []")
    case True
    then show ?thesis using less.prems by (subst adler_runs.simps) simp
  next
    case False
    obtain a' b' where ab: "foldl adler_nat (a, b) (take ADLER_RUN data) = (a', b')" by fastforce
    have fits: "a' < 2 ^ 32" "b' < 2 ^ 32" using adler_run_fits [OF less.prems _ ab] by simp_all
    have "adler_runs (word_of_nat a, word_of_nat b) data =
        adler_runs (word_of_nat (a' mod 65521), word_of_nat (b' mod 65521)) (drop ADLER_RUN data)"
      using False ab fits by (subst adler_runs.simps) (simp add: adler_words unat_mod_modulus)
    also have "\<dots> = map_prod (\<lambda>v. word_of_nat (v mod 65521)) (\<lambda>v. word_of_nat (v mod 65521))
        (foldl adler_nat (a' mod 65521, b' mod 65521) (drop ADLER_RUN data))"
      using False by (intro less.hyps) (simp_all add: ADLER_RUN_def)
    also have "\<dots> = map_prod (\<lambda>v. word_of_nat (v mod 65521)) (\<lambda>v. word_of_nat (v mod 65521))
        (foldl adler_nat (a', b') (drop ADLER_RUN data))"
      using adler_nat_mod [of "a' mod 65521" 65521 a' "b' mod 65521" b' "drop ADLER_RUN data"]
      by (simp add: prod_eq_iff)
    also have "foldl adler_nat (a', b') (drop ADLER_RUN data) = foldl adler_nat (a, b) data"
      using ab by (metis append_take_drop_id foldl_append)
    finally show ?thesis .
  qed
qed

text \<open>
  The checksum is RFC 1950's. Although the code reduces its sums only every 5552 bytes, in
  32-bit arithmetic, its answer is the two sums modulo 65521: the run is short enough that neither
  sum ever wraps.
\<close>

theorem adler32_is_rfc1950:
  "unat (adler32 data) = 65536 * (adler_b data mod 65521) + adler_a data mod 65521"
proof -
  let ?a = "adler_a data mod 65521" and ?b = "adler_b data mod 65521"
  have "adler32 data = push_bit 16 (word_of_nat ?b) OR word_of_nat ?a"
    using adler_runs_nat [of 1 0 data, unfolded adler_nat_sums] by (simp add: adler32_def)
  also have "\<dots> = word_of_nat (push_bit 16 ?b OR ?a)"
    by (simp add: of_nat_or_eq push_bit_of_nat)
  finally have "unat (adler32 data) = take_bit 32 (push_bit 16 ?b OR ?a)"
    by (simp add: unsigned_of_nat)
  moreover have "?a < 2 ^ 16" "?b < 2 ^ 16"
    by (simp_all add: order_less_le_trans [OF mod_less_divisor])
  then have "?a OR push_bit 16 ?b < 2 ^ (16 + 16)" by (rule mix_less)
  moreover have "?a OR push_bit 16 ?b = ?a + push_bit 16 ?b"
  proof (rule disjunctive_add [symmetric])
    fix n show "\<not> bit ?a n \<or> \<not> bit (push_bit 16 ?b) n"
      using \<open>?a < 2 ^ 16\<close> take_bit_nat_eq_self [of ?a 16] by (metis bit_push_bit_iff bit_take_bit_iff not_less)
  qed
  ultimately show ?thesis by (simp add: or.commute push_bit_eq_mult take_bit_nat_eq_self)
qed

section \<open>The zlib framing\<close>

lemma zlib_compress_parts:
  fixes data :: bytes
  defines "z \<equiv> zlib_compress data"
  shows "length z = 2 + length (deflate data) + 4" "z ! 0 = 0x78" "z ! 1 = 0x01"
    "slice 2 (length z - 4 - 2) z = deflate data"
    "le_nat (rev (drop (length z - 4) z)) = unat (adler32 data)"
proof -
  have z: "z = [0x78, 0x01] @ deflate data @ rev (le_bytes 4 (unat (adler32 data)))"
    by (simp add: z_def zlib_compress_def)
  show "length z = 2 + length (deflate data) + 4" "z ! 0 = 0x78" "z ! 1 = 0x01"
    "slice 2 (length z - 4 - 2) z = deflate data"
    by (simp_all add: z slice_def)
  have "unat (adler32 data) < 2 ^ LENGTH(32)" by (rule unsigned_less)
  then have "unat (adler32 data) < 256 ^ 4" by simp
  moreover have "drop (length z - 4) z = rev (le_bytes 4 (unat (adler32 data)))"
    by (simp add: z)
  ultimately show "le_nat (rev (drop (length z - 4) z)) = unat (adler32 data)"
    by (simp only: rev_rev_ident le_nat_le_bytes_id)
qed

lemma zlib_run:
  assumes "length data \<le> cap"
  shows "zlib_decompress (zlib_compress data) cap = Some data"
proof -
  note z = zlib_compress_parts [of data]
  have "inflate_bounded (deflate data) cap = Some data"
    using inflate_deflate_run [OF assms] by (auto simp: inflate_bounded_def vec_sink_of_def)
  moreover have "\<not> length (zlib_compress data) < 2 + 4" using z(1) by simp
  ultimately show ?thesis using z(2-) by (simp add: zlib_decompress_def)
qed

text \<open>
  C21: a zlib stream this library wrote unwraps to its data. The header passes its checks, the
  trailer is found past the stream and agrees with the bytes inflated.
\<close>

theorem zlib_round_trip:
  assumes "length data \<le> cap"
  shows "zlib_decompress (zlib_compress data) cap = Some data"
  by (rule zlib_run [OF assms])

lemma zlib_round_trip_witness: "zlib_decompress (zlib_compress [1, 2, 1, 2, 1, 2, 3]) 7 = Some [1, 2, 1, 2, 1, 2, 3]"
  by (rule zlib_round_trip) simp

text \<open>
  C24: no unwrapped stream goes unchecked. What \<open>zlib_decompress\<close> answers fits the room it was
  given, is what the stream between header and trailer inflates to, and has the checksum the last
  four bytes state.
\<close>

theorem zlib_answers_are_checked:
  assumes "zlib_decompress z cap = Some data"
  shows "length data \<le> cap \<and> inflate (slice 2 (length z - 4 - 2) z) cap = Some data \<and>
    le_nat (rev (drop (length z - 4) z)) = unat (adler32 data)"
proof -
  obtain r s ok where run:
    "inflate_into (slice_source (slice 2 (length z - 4 - 2) z)) vec_ops (vec_sink_of [] cap) = (r, s, ok)"
    by (metis prod_cases3)
  then have "ok" "vec_out s = data" "unat (adler32 data) = le_nat (rev (drop (length z - 4) z))"
    using assms by (auto simp: zlib_decompress_def inflate_bounded_def vec_sink_of_def split: if_splits)
  then show ?thesis using inflate_bound [OF run] run by (simp add: inflate_def vec_sink_of_def)
qed

lemma zlib_answers_are_checked_witness:
  "length [5 :: u8, 5, 5, 5] \<le> 4 \<and>
    inflate (slice 2 (length (zlib_compress [5, 5, 5, 5]) - 4 - 2) (zlib_compress [5, 5, 5, 5])) 4 = Some [5, 5, 5, 5] \<and>
    le_nat (rev (drop (length (zlib_compress [5, 5, 5, 5]) - 4) (zlib_compress [5, 5, 5, 5]))) =
      unat (adler32 [5, 5, 5, 5])"
  by (rule zlib_answers_are_checked, rule zlib_run) simp

end
