(* ===== verification/Container.thy ===== *)
theory Container
  imports Device
begin

text \<open>
  What the image containers share: the medium beneath them, which grows when it is written past its
  end, and the loop their \<open>Device\<close> implementations cut an access into blocks with.
\<close>

named_theorems container_laws

section \<open>A growing medium\<close>

text \<open>A medium that delivers its bytes, whatever it was claimed for.\<close>

definition medium_delivers :: "medium_device \<Rightarrow> bool" where
  "medium_delivers m \<longleftrightarrow> base m + medium_len m \<le> length (backing m)"

text \<open>A medium that owns its backing to the end, and so may grow.\<close>

definition medium_grows :: "medium_device \<Rightarrow> bool" where
  "medium_grows m \<longleftrightarrow> mode m = ReadWriteMode \<and> base m + medium_len m = length (backing m)"

definition device_read :: "medium_device \<Rightarrow> nat \<Rightarrow> nat \<Rightarrow> bytes result" where
  "device_read m off n = snd (medium_read_at m off n)"

lemma medium_grows_delivers [simp]: "medium_grows m \<Longrightarrow> medium_delivers m"
  by (simp add: medium_grows_def medium_delivers_def)

lemma device_read_contents [container_laws]:
  "medium_delivers m \<Longrightarrow> off + n \<le> medium_len m \<Longrightarrow> device_read m off n = Inr (slice off n (medium_contents m))"
  by (simp add: device_read_def medium_read_at_def medium_delivers_def file_read_exact_at_def
      medium_contents_def slice_slice)

lemma device_read_Inr:
  "medium_delivers m \<Longrightarrow> device_read m off n = Inr bs \<Longrightarrow>
    off + n \<le> medium_len m \<and> bs = slice off n (medium_contents m)"
  using device_read_contents [of m off n]
  by (cases "off + n \<le> medium_len m") (auto simp: device_read_def medium_read_at_def)

lemma length_medium_contents [simp]: "medium_delivers m \<Longrightarrow> length (medium_contents m) = medium_len m"
  by (simp add: medium_contents_def medium_delivers_def)

lemma length_file_write [simp]:
  "length (file_write_all_at f off bs) = (if bs = [] then length f else max (length f) (off + length bs))"
  by (auto simp: file_write_all_at_def)

lemma nth_file_write:
  assumes "i < length (file_write_all_at f off bs)"
  shows "file_write_all_at f off bs ! i =
    (if off \<le> i \<and> i < off + length bs then bs ! (i - off) else if i < length f then f ! i else 0)"
proof (cases "bs = []")
  case False
  then have "i < length (f @ replicate (off + length bs - length f) (0 :: u8))" using assms by auto
  then show ?thesis using False by (auto simp: file_write_all_at_def nth_splice nth_append)
qed (use assms in \<open>auto simp: file_write_all_at_def\<close>)

lemma file_write_twice:
  "file_write_all_at (file_write_all_at f off xs) (off + length xs) ys = file_write_all_at f off (xs @ ys)"
proof (cases "xs = [] \<or> ys = []")
  case False
  show ?thesis
  proof (rule nth_equalityI)
    fix i assume i: "i < length (file_write_all_at (file_write_all_at f off xs) (off + length xs) ys)"
    then have "i < length (file_write_all_at f off (xs @ ys))" using False by (auto split: if_splits)
    then show "file_write_all_at (file_write_all_at f off xs) (off + length xs) ys ! i =
        file_write_all_at f off (xs @ ys) ! i"
      using i False by (auto simp: nth_file_write nth_append split: if_splits)
  qed (use False in auto)
qed (auto simp: file_write_all_at_def)

lemma slice_file_write_elsewhere:
  "at + n \<le> length f \<Longrightarrow> at + n \<le> off \<or> off + length bs \<le> at \<Longrightarrow>
    slice at n (file_write_all_at f off bs) = slice at n f"
  by (rule nth_equalityI) (auto simp: slice_def nth_file_write)

lemma slice_file_write_there: "slice off (length bs) (file_write_all_at f off bs) = bs"
  by (cases "bs = []") (auto intro!: nth_equalityI simp: slice_def nth_file_write)

lemma medium_write_grows:
  assumes "medium_grows m" "bs \<noteq> []"
  shows "\<exists>m'. medium_write_at m off bs = (m', Inr ()) \<and> medium_grows m' \<and>
    medium_contents m' = file_write_all_at (medium_contents m) off bs"
proof -
  let ?m = "fst (medium_write_at m off bs)"
  have w: "medium_write_at m off bs = (?m, Inr ())" "mode ?m = ReadWriteMode" "base ?m = base m"
    "backing ?m = file_write_all_at (backing m) (base m + off) bs"
    "medium_len ?m = max (medium_len m) (off + length bs)"
    using assms by (simp_all add: medium_write_at_def medium_grows_def)
  have len: "base m + medium_len m = length (backing m)" using assms by (simp add: medium_grows_def)
  have c: "medium_contents m' = drop (base m) (backing m')"
    if "base m' = base m" "base m + medium_len m' = length (backing m')" for m'
    using that by (simp add: medium_contents_def slice_def)
  have l: "base m + medium_len ?m = length (backing ?m)" using assms(2) w len by (simp add: max_def)
  then have "medium_grows ?m" using w by (simp add: medium_grows_def)
  moreover have "medium_contents ?m = file_write_all_at (medium_contents m) off bs"
    unfolding c [OF w(3) l] c [OF refl len] w(4)
    using assms(2) len by (intro nth_equalityI) (auto simp: nth_file_write split: if_splits)
  ultimately show ?thesis using w(1) by blast
qed

text \<open>The contract of a container's host: it delivers what it holds, and grows where it is written.\<close>

locale growing_device =
  fixes dev_len :: "'d \<Rightarrow> nat"
    and dev_write :: "'d \<Rightarrow> nat \<Rightarrow> bytes \<Rightarrow> 'd \<times> unit result"
    and contents :: "'d \<Rightarrow> bytes"
    and grows :: "'d \<Rightarrow> bool"
  assumes grown_len: "grows d \<Longrightarrow> dev_len d = length (contents d)"
    and grow_law: "grows d \<Longrightarrow> bs \<noteq> [] \<Longrightarrow>
      \<exists>d'. dev_write d off bs = (d', Inr ()) \<and> grows d' \<and>
        contents d' = file_write_all_at (contents d) off bs"
begin

text \<open>Bytes written away from a range leave it as it was.\<close>

lemma write_elsewhere:
  assumes "grows d" "bs \<noteq> []" "dev_write d off bs = (d', res)"
    and "at + n \<le> length (contents d)" "at + n \<le> off \<or> off + length bs \<le> at"
  shows "slice at n (contents d') = slice at n (contents d)"
proof -
  have "contents d' = file_write_all_at (contents d) off bs"
    using grow_law [OF assms(1,2), of off] assms(3) by auto
  then show ?thesis using slice_file_write_elsewhere [OF assms(4,5)] by simp
qed

lemma write_there:
  assumes "grows d" "bs \<noteq> []" "dev_write d off bs = (d', res)"
  shows "slice off (length bs) (contents d') = bs"
proof -
  have "contents d' = file_write_all_at (contents d) off bs"
    using grow_law [OF assms(1,2), of off] assms(3) by auto
  then show ?thesis using slice_file_write_there by simp
qed

end

interpretation growing: growing_device medium_len medium_write_at medium_contents medium_grows
proof
  fix m :: medium_device assume "medium_grows m"
  then show "medium_len m = length (medium_contents m)" by simp
next
  fix m :: medium_device and bs :: bytes and off
  assume "medium_grows m" "bs \<noteq> []"
  then show "\<exists>m'. medium_write_at m off bs = (m', Inr ()) \<and> medium_grows m' \<and>
      medium_contents m' = file_write_all_at (medium_contents m) off bs"
    by (rule medium_write_grows)
qed

section \<open>Cutting an access into blocks\<close>

text \<open>
  The loop of \<open>read_at\<close>: \<open>rd\<close> reads inside one block. A header with blocks of no size is refused
  before any access, so the guard on \<open>bs\<close> is never met.
\<close>

function read_span :: "nat \<Rightarrow> (nat \<Rightarrow> nat \<Rightarrow> bytes result) \<Rightarrow> nat \<Rightarrow> nat \<Rightarrow> bytes result" where
  "read_span bs rd off n =
     (if n = 0 \<or> bs = 0 then Inr []
      else let take_n = min (bs - off mod bs) n
           in rbind (rd off take_n) (\<lambda>xs.
              rbind (read_span bs rd (off + take_n) (n - take_n)) (\<lambda>ys. Inr (xs @ ys))))"
  by pat_completeness auto
termination
  by (relation "measure (\<lambda>(_, _, _, n). n)") (auto simp: min_def not_le)

declare read_span.simps [simp del]

text \<open>The loop of \<open>write_at\<close> over a state \<open>s\<close>: \<open>wr\<close> writes inside one block.\<close>

function write_span ::
  "nat \<Rightarrow> ('s \<Rightarrow> nat \<Rightarrow> bytes \<Rightarrow> 's \<times> unit result) \<Rightarrow> 's \<Rightarrow> nat \<Rightarrow> bytes \<Rightarrow> 's \<times> unit result" where
  "write_span bs wr s off xs =
     (if xs = [] \<or> bs = 0 then (s, Inr ())
      else let take_n = min (bs - off mod bs) (length xs)
           in sbind (wr s off (take take_n xs)) (\<lambda>s' _.
              write_span bs wr s' (off + take_n) (drop take_n xs)))"
  by pat_completeness auto
termination
  by (relation "measure (\<lambda>(_, _, _, _, xs). length xs)") (auto simp: min_def not_le)

declare write_span.simps [simp del]

lemma read_span_view:
  assumes "0 < bs"
    and "\<And>a k. 0 < k \<Longrightarrow> off \<le> a \<Longrightarrow> a + k \<le> off + n \<Longrightarrow> a mod bs + k \<le> bs \<Longrightarrow> rd a k = Inr (slice a k view)"
  shows "read_span bs rd off n = Inr (slice off n view)"
  using assms(2)
proof (induction n arbitrary: off rule: less_induct)
  case (less n)
  show ?case
  proof (cases "n = 0")
    case True
    then show ?thesis by (subst read_span.simps) simp
  next
    case False
    let ?k = "min (bs - off mod bs) n"
    have m: "off mod bs < bs" using assms(1) by simp
    then have k: "0 < ?k" "?k \<le> n" "off mod bs + ?k \<le> bs" using False by auto
    have "rd off ?k = Inr (slice off ?k view)" using k by (intro less.prems) auto
    moreover have "read_span bs rd (off + ?k) (n - ?k) = Inr (slice (off + ?k) (n - ?k) view)"
      using k False by (intro less.IH less.prems) auto
    moreover have "slice off n view = slice off ?k view @ slice (off + ?k) (n - ?k) view"
      using slice_append_split [of off ?k "n - ?k" view] k(2) by simp
    ultimately show ?thesis
      using False assms(1) by (subst read_span.simps) (simp add: Let_def)
  qed
qed

lemma splice_splice:
  assumes "off + length xs + length ys \<le> length f"
  shows "splice (off + length xs) ys (splice off xs f) = splice off (xs @ ys) f"
  using assms by (simp add: splice_def ac_simps)

text \<open>
  A state whose blocks are written faithfully is written faithfully: where a block is refused,
  what came before it has landed.
\<close>

lemma write_span_view:
  assumes "0 < bs" "good s" "off + length xs \<le> length (view s)"
    and "\<And>s a ys s' res. good s \<Longrightarrow> ys \<noteq> [] \<Longrightarrow> a + length ys \<le> length (view s) \<Longrightarrow>
      a mod bs + length ys \<le> bs \<Longrightarrow> wr s a ys = (s', res) \<Longrightarrow>
      good s' \<and> view s' = (case res of Inr _ \<Rightarrow> splice a ys (view s) | Inl _ \<Rightarrow> view s)"
    and "write_span bs wr s off xs = (s', res)"
  shows "good s' \<and> (\<exists>k \<le> length xs. view s' = splice off (take k xs) (view s) \<and> (res = Inr () \<longrightarrow> k = length xs))"
  using assms(2,3,5)
proof (induction "length xs" arbitrary: s off xs rule: less_induct)
  case less
  show ?case
  proof (cases "xs = []")
    case True
    then show ?thesis using less.prems by (subst (asm) write_span.simps) (auto simp: splice_def)
  next
    case False
    define k where "k = min (bs - off mod bs) (length xs)"
    have "off mod bs < bs" using assms(1) by simp
    then have k: "0 < k" "k \<le> length xs" "off mod bs + k \<le> bs" using False by (auto simp: k_def)
    obtain s1 res1 where w: "wr s off (take k xs) = (s1, res1)" by fastforce
    have law: "good s1 \<and> view s1 = (case res1 of Inr _ \<Rightarrow> splice off (take k xs) (view s) | Inl _ \<Rightarrow> view s)"
      using k less.prems(2) False by (intro assms(4) [OF less.prems(1) _ _ _ w]) auto
    have step: "write_span bs wr s off xs =
        sbind (wr s off (take k xs)) (\<lambda>s' _. write_span bs wr s' (off + k) (drop k xs))"
      using False assms(1) by (subst write_span.simps) (simp add: Let_def k_def)
    show ?thesis
    proof (cases res1)
      case (Inl e)
      then have "(s', res) = (s1, Inl e)" using less.prems(3) w step by simp
      then show ?thesis using law Inl less.prems(2) by (intro conjI exI [of _ 0]) simp_all
    next
      case (Inr u)
      have rest: "write_span bs wr s1 (off + k) (drop k xs) = (s', res)"
        using less.prems(3) w step Inr by simp
      have v1: "view s1 = splice off (take k xs) (view s)" using law Inr by simp
      have fits: "off + k \<le> length (view s)" using less.prems(2) k(2) by simp
      then have len: "length (view s1) = length (view s)" using v1 k(2) by simp
      have "length (drop k xs) < length xs" "off + k + length (drop k xs) \<le> length (view s1)"
        using k(1,2) False less.prems(2) len by auto
      then obtain j where j: "good s'" "j \<le> length (drop k xs)"
        "view s' = splice (off + k) (take j (drop k xs)) (view s1)" "res = Inr () \<longrightarrow> j = length (drop k xs)"
        using less.hyps [OF _ _ _ rest] law by blast
      have l: "length (take k xs) = k" using k(2) by simp
      have "view s' = splice off (take k xs @ take j (drop k xs)) (view s)"
        using splice_splice [of off "take k xs" "take j (drop k xs)" "view s", unfolded l]
          j(2,3) v1 k(2) less.prems(2) by simp
      also have "take k xs @ take j (drop k xs) = take (k + j) xs" by (simp add: take_add)
      finally show ?thesis using j(1,2,4) k(2) by (intro conjI exI [of _ "k + j"]) auto
    qed
  qed
qed

end
