(* ===== verification/Vdi.thy ===== *)
theory Vdi
  imports Container
begin

text \<open>
  The VirtualBox image container (\<open>src/crates/remanence/src/image/vdi.rs\<close>): the header's gates,
  the block map read from the file at each access, copy-on-write from the parent of a differencing
  image, and the opening of a chain by identity. The host's file system is a record of the
  operations the code asks of it.
\<close>

unbundle bit_operations_syntax

section \<open>The header\<close>

definition VDI_SIGNATURE :: bytes where "VDI_SIGNATURE = le_bytes 4 0xbeda107f"
definition SIGNATURE_AT :: nat where "SIGNATURE_AT = 0x40"
definition VERSION_AT :: nat where "VERSION_AT = 0x44"
definition SUPPORTED_MAJOR :: nat where "SUPPORTED_MAJOR = 1"
definition SUPPORTED_MINOR_CEILING :: nat where "SUPPORTED_MINOR_CEILING = 1"
definition BLOCK_FREE :: nat where "BLOCK_FREE = 0xffffffff"
definition BLOCK_ZERO :: nat where "BLOCK_ZERO = 0xfffffffe"
definition FLAG_ZERO_EXPAND :: u32 where "FLAG_ZERO_EXPAND = 0x00000100"
definition VDI_MAX_CHAIN :: nat where "VDI_MAX_CHAIN = 16"
definition MAX_PARENT_CANDIDATES :: nat where "MAX_PARENT_CANDIDATES = 1024"
definition HEADER_SIZE_AT :: nat where "HEADER_SIZE_AT = 0x48"
definition IMAGE_TYPE_AT :: nat where "IMAGE_TYPE_AT = 0x4c"
definition FLAGS_AT :: nat where "FLAGS_AT = 0x50"
definition BLOCK_MAP_OFFSET_AT :: nat where "BLOCK_MAP_OFFSET_AT = 0x154"
definition DATA_OFFSET_AT :: nat where "DATA_OFFSET_AT = 0x158"
definition DISK_SIZE_AT :: nat where "DISK_SIZE_AT = 0x170"
definition BLOCK_SIZE_AT :: nat where "BLOCK_SIZE_AT = 0x178"
definition BLOCK_EXTRA_AT :: nat where "BLOCK_EXTRA_AT = 0x17c"
definition BLOCK_COUNT_AT :: nat where "BLOCK_COUNT_AT = 0x180"
definition BLOCKS_ALLOCATED_AT :: nat where "BLOCKS_ALLOCATED_AT = 0x184"
definition UUID_CREATE_AT :: nat where "UUID_CREATE_AT = 0x188"
definition UUID_LINKAGE_AT :: nat where "UUID_LINKAGE_AT = 0x1a8"
definition HEADER_READ_BYTES :: nat where "HEADER_READ_BYTES = UUID_LINKAGE_AT + 16"
definition MINIMUM_DECLARED_HEADER :: nat where
  "MINIMUM_DECLARED_HEADER = HEADER_READ_BYTES - HEADER_SIZE_AT"
definition MAXIMUM_BLOCK_SIZE :: nat where "MAXIMUM_BLOCK_SIZE = 64 * 1024 * 1024"
definition ZERO_FILL_CHUNK :: nat where "ZERO_FILL_CHUNK = 64 * 1024"

lemmas vdi_offsets =
  SIGNATURE_AT_def VERSION_AT_def HEADER_SIZE_AT_def IMAGE_TYPE_AT_def FLAGS_AT_def
  BLOCK_MAP_OFFSET_AT_def DATA_OFFSET_AT_def DISK_SIZE_AT_def BLOCK_SIZE_AT_def BLOCK_EXTRA_AT_def
  BLOCK_COUNT_AT_def BLOCKS_ALLOCATED_AT_def UUID_CREATE_AT_def UUID_LINKAGE_AT_def
  HEADER_READ_BYTES_def MINIMUM_DECLARED_HEADER_def

definition vdi_le32 :: "bytes \<Rightarrow> nat \<Rightarrow> nat" where
  "vdi_le32 bs off = le_nat (slice off 4 bs)"

definition vdi_le64 :: "bytes \<Rightarrow> nat \<Rightarrow> nat" where
  "vdi_le64 bs off = le_nat (slice off 8 bs)"

definition vdi_invalid :: error where
  "vdi_invalid = invalid_image ''vdi''"

definition vdi_unsupported :: error where
  "vdi_unsupported = categorized_image Unsupported ''vdi''"

type_synonym vdi_uuid = bytes

definition uuid_read :: "bytes \<Rightarrow> nat \<Rightarrow> vdi_uuid" where
  "uuid_read raw off = slice off 16 raw"

definition uuid_is_nil :: "vdi_uuid \<Rightarrow> bool" where
  "uuid_is_nil u \<longleftrightarrow> list_all (\<lambda>b. b = 0) u"

text \<open>The spelling: hex pairs, the first three groups read little-endian.\<close>

definition hex_pair :: "u8 \<Rightarrow> string" where
  "hex_pair b = [''0123456789abcdef'' ! (unat b div 16), ''0123456789abcdef'' ! (unat b mod 16)]"

definition uuid_text :: "vdi_uuid \<Rightarrow> string" where
  "uuid_text u =
     concat (map (\<lambda>i. hex_pair (u ! i)) [3, 2, 1, 0]) @ ''-'' @
     concat (map (\<lambda>i. hex_pair (u ! i)) [5, 4]) @ ''-'' @
     concat (map (\<lambda>i. hex_pair (u ! i)) [7, 6]) @ ''-'' @
     concat (map (\<lambda>i. hex_pair (u ! i)) [8, 9]) @ ''-'' @
     concat (map (\<lambda>i. hex_pair (u ! i)) [10, 11, 12, 13, 14, 15])"

datatype vdi_image_type = VdiDynamic | VdiFixed | VdiDifferencing

fun vdi_type_name :: "vdi_image_type \<Rightarrow> string" where
  "vdi_type_name VdiDynamic = ''dynamically allocated''"
| "vdi_type_name VdiFixed = ''fixed''"
| "vdi_type_name VdiDifferencing = ''differencing''"

record vdi_header =
  vh_major :: nat
  vh_minor :: nat
  image_type :: vdi_image_type
  block_map_offset :: nat
  data_offset :: nat
  disk_size :: nat
  block_size :: nat
  block_count :: nat
  create_id :: vdi_uuid
  parent_id :: vdi_uuid

definition vdi_version :: "bytes \<Rightarrow> nat \<times> nat" where
  "vdi_version prefix =
     (let packed = vdi_le32 prefix VERSION_AT in (drop_bit 16 packed, packed AND 0xffff))"

definition checked64 :: "nat \<Rightarrow> nat option" where
  "checked64 v = (if v < 2 ^ 64 then Some v else None)"

definition power_of_two64 :: "nat \<Rightarrow> bool" where
  "power_of_two64 n \<longleftrightarrow> list_ex (\<lambda>k. n = 2 ^ k) [0..<64]"

definition type_of_code :: "nat \<Rightarrow> vdi_image_type result" where
  "type_of_code t =
     (if t = 1 then Inr VdiDynamic
      else if t = 2 then Inr VdiFixed
      else if t = 3 then Inl vdi_unsupported
      else if t = 4 then Inr VdiDifferencing
      else Inl vdi_invalid)"

text \<open>
  The part of the parse past the image type: the declared extents against each other and against
  the file's length.
\<close>

definition vdi_extents :: "bytes \<Rightarrow> nat \<Rightarrow> vdi_image_type \<Rightarrow> unit result" where
  "vdi_extents raw file_len t =
     (let declared_header = vdi_le32 raw HEADER_SIZE_AT;
          map_offset = vdi_le32 raw BLOCK_MAP_OFFSET_AT; data_off = vdi_le32 raw DATA_OFFSET_AT;
          size_of_disk = vdi_le64 raw DISK_SIZE_AT; bsize = vdi_le32 raw BLOCK_SIZE_AT;
          bcount = vdi_le32 raw BLOCK_COUNT_AT; allocated = vdi_le32 raw BLOCKS_ALLOCATED_AT
      in if bsize = 0 \<or> \<not> power_of_two64 bsize \<or> bsize < 512 then Inl vdi_invalid
         else if bsize > MAXIMUM_BLOCK_SIZE then Inl vdi_unsupported
         else if allocated > bcount then Inl vdi_invalid
         else case checked64 (bcount * bsize) of
           None \<Rightarrow> Inl vdi_invalid
         | Some covered \<Rightarrow>
             if covered < size_of_disk then Inl vdi_invalid
             else if map_offset < HEADER_SIZE_AT + declared_header then Inl vdi_invalid
             else case checked64 (map_offset + bcount * 4) of
               None \<Rightarrow> Inl vdi_invalid
             | Some map_end \<Rightarrow>
                 if map_end > data_off then Inl vdi_invalid
                 else if map_end > file_len then Inl vdi_invalid
                 else let present = (if t = VdiFixed then bcount else allocated)
                      in case Option.bind (checked64 (present * bsize)) (\<lambda>n. checked64 (data_off + n)) of
                           None \<Rightarrow> Inl vdi_invalid
                         | Some data_end \<Rightarrow> if data_end > file_len then Inl vdi_invalid else Inr ())"

definition vdi_parse_raw :: "bytes \<Rightarrow> nat \<Rightarrow> vdi_header result" where
  "vdi_parse_raw raw file_len =
     (if slice SIGNATURE_AT 4 raw \<noteq> VDI_SIGNATURE then Inl vdi_invalid
      else case vdi_version raw of (major, minor) \<Rightarrow>
        if major < SUPPORTED_MAJOR then Inl vdi_unsupported
        else if major > SUPPORTED_MAJOR \<or> minor > SUPPORTED_MINOR_CEILING then Inl vdi_unsupported
        else if vdi_le32 raw HEADER_SIZE_AT < MINIMUM_DECLARED_HEADER then Inl vdi_invalid
        else rbind (type_of_code (vdi_le32 raw IMAGE_TYPE_AT)) (\<lambda>t.
          if (word_of_nat (vdi_le32 raw FLAGS_AT) :: u32) AND NOT FLAG_ZERO_EXPAND \<noteq> 0
          then Inl vdi_unsupported
          else if vdi_le32 raw BLOCK_EXTRA_AT \<noteq> 0 then Inl vdi_unsupported
          else rbind (vdi_extents raw file_len t) (\<lambda>_.
            let parent = uuid_read raw UUID_LINKAGE_AT
            in if t = VdiDifferencing \<and> uuid_is_nil parent then Inl vdi_invalid
               else Inr \<lparr>vh_major = major, vh_minor = minor, image_type = t,
                          block_map_offset = vdi_le32 raw BLOCK_MAP_OFFSET_AT,
                          data_offset = vdi_le32 raw DATA_OFFSET_AT,
                          disk_size = vdi_le64 raw DISK_SIZE_AT,
                          block_size = vdi_le32 raw BLOCK_SIZE_AT,
                          block_count = vdi_le32 raw BLOCK_COUNT_AT,
                          create_id = uuid_read raw UUID_CREATE_AT, parent_id = parent\<rparr>)))"

definition vdi_parse :: "medium_device \<Rightarrow> vdi_header result" where
  "vdi_parse d =
     (if medium_len d < HEADER_READ_BYTES then Inl vdi_invalid
      else rbind (device_read d 0 HEADER_READ_BYTES) (\<lambda>raw. vdi_parse_raw raw (medium_len d)))"

section \<open>The driver\<close>

datatype vdi =
  Vdi (vdi_device: medium_device) (vdi_head: vdi_header) (vdi_parent: "vdi option")

definition vdi_set_device :: "vdi \<Rightarrow> medium_device \<Rightarrow> vdi" where
  "vdi_set_device v d = Vdi d (vdi_head v) (vdi_parent v)"

definition vdi_open :: "medium_device \<Rightarrow> vdi result" where
  "vdi_open d =
     rbind (vdi_parse d) (\<lambda>h.
       if image_type h = VdiDifferencing then Inl vdi_unsupported else Inr (Vdi d h None))"

definition block_map_entry :: "medium_device \<Rightarrow> vdi_header \<Rightarrow> nat \<Rightarrow> nat result" where
  "block_map_entry d h block =
     rbind (device_read d (block_map_offset h + block * 4) 4) (\<lambda>raw. Inr (le_nat raw))"

definition data_at :: "vdi_header \<Rightarrow> nat \<Rightarrow> nat result" where
  "data_at h entry =
     (if entry \<ge> block_count h then Inl vdi_invalid
      else Inr (data_offset h + entry * block_size h))"

definition blocks_allocated :: "medium_device \<Rightarrow> nat result" where
  "blocks_allocated d = rbind (device_read d BLOCKS_ALLOCATED_AT 4) (\<lambda>raw. Inr (le_nat raw))"

text \<open>
  A parent, as a block's read sees it: the size it presents and how it reads. \<open>read_block\<close> and
  \<open>read_parent\<close> take it as an argument, so that \<open>vdi_read_at\<close> is the one recursion down the chain.
\<close>

type_synonym parent_view = "nat \<times> (nat \<Rightarrow> nat \<Rightarrow> bytes result)"

definition read_parent :: "parent_view option \<Rightarrow> nat \<Rightarrow> nat \<Rightarrow> bytes result" where
  "read_parent parent off n =
     (case parent of
        None \<Rightarrow> Inr (replicate n 0)
      | Some (parent_size, rd) \<Rightarrow>
          if off \<ge> parent_size then Inr (replicate n 0)
          else let take_n = min (parent_size - off) n
               in rbind (rd off take_n) (\<lambda>bs. Inr (bs @ replicate (n - take_n) 0)))"

definition read_block ::
  "medium_device \<Rightarrow> vdi_header \<Rightarrow> parent_view option \<Rightarrow> nat \<Rightarrow> nat \<Rightarrow> bytes result" where
  "read_block d h parent off n =
     rbind (block_map_entry d h (off div block_size h)) (\<lambda>entry.
       if entry = BLOCK_FREE then read_parent parent off n
       else if entry = BLOCK_ZERO then Inr (replicate n 0)
       else rbind (data_at h entry) (\<lambda>at. device_read d (at + off mod block_size h) n))"

fun vdi_reader :: "vdi \<Rightarrow> nat \<Rightarrow> nat \<Rightarrow> bytes result" where
  "vdi_reader (Vdi d h parent) = (\<lambda>off n.
     if off + n > disk_size h then Inl vdi_invalid
     else read_span (block_size h)
            (read_block d h
               (case parent of
                  None \<Rightarrow> None
                | Some p \<Rightarrow> Some (disk_size (vdi_head p), vdi_reader p))) off n)"

definition vdi_read_at :: "vdi \<Rightarrow> nat \<Rightarrow> nat \<Rightarrow> bytes result" where
  "vdi_read_at v off n = vdi_reader v off n"

definition parent_view_of :: "vdi \<Rightarrow> parent_view option" where
  "parent_view_of v =
     (case vdi_parent v of
        None \<Rightarrow> None
      | Some p \<Rightarrow> Some (disk_size (vdi_head p), vdi_reader p))"

text \<open>The bounded fill: \<open>src\<close> gives the bytes of each chunk.\<close>

function fill_chunks ::
  "(nat \<Rightarrow> nat \<Rightarrow> bytes result) \<Rightarrow> medium_device \<Rightarrow> nat \<Rightarrow> nat \<Rightarrow> nat \<Rightarrow> medium_device \<times> unit result" where
  "fill_chunks src d off from len =
     (if from \<ge> len then (d, Inr ())
      else let take_n = min (len - from) ZERO_FILL_CHUNK
           in case src from take_n of
                Inl e \<Rightarrow> (d, Inl e)
              | Inr bs \<Rightarrow> sbind (medium_write_at d (off + from) bs) (\<lambda>d' _.
                  fill_chunks src d' off (from + take_n) len))"
  by pat_completeness auto
termination
  by (relation "measure (\<lambda>(_, _, _, from, len). len - from)") (auto simp: ZERO_FILL_CHUNK_def)

declare fill_chunks.simps [simp del]

definition copy_from_parent ::
  "parent_view option \<Rightarrow> medium_device \<Rightarrow> nat \<Rightarrow> nat \<Rightarrow> nat \<Rightarrow> medium_device \<times> unit result" where
  "copy_from_parent parent d off guest_off len =
     fill_chunks (\<lambda>from n. read_parent parent (guest_off + from) n) d off 0 len"

definition write_zeroes :: "medium_device \<Rightarrow> nat \<Rightarrow> nat \<Rightarrow> medium_device \<times> unit result" where
  "write_zeroes d off len = fill_chunks (\<lambda>from n. Inr (replicate n 0)) d off 0 len"

text \<open>The fresh block: what stood before the write, the write, and what stands after it.\<close>

definition seed_block ::
  "vdi \<Rightarrow> nat \<Rightarrow> nat \<Rightarrow> nat \<Rightarrow> bytes \<Rightarrow> medium_device \<times> unit result" where
  "seed_block v entry at guest_off bs =
     (let d = vdi_device v; bsize = block_size (vdi_head v); inside = guest_off mod bsize;
          block_start = guest_off - inside; tail = inside + length bs; parent = parent_view_of v
      in if entry = BLOCK_FREE \<and> parent \<noteq> None
         then sbind (copy_from_parent parent d at block_start inside) (\<lambda>d1 _.
              sbind (medium_write_at d1 (at + inside) bs) (\<lambda>d2 _.
              copy_from_parent parent d2 (at + tail) (block_start + tail) (bsize - tail)))
         else sbind (write_zeroes d at inside) (\<lambda>d1 _.
              sbind (medium_write_at d1 (at + inside) bs) (\<lambda>d2 _.
              write_zeroes d2 (at + tail) (bsize - tail))))"

definition write_block :: "vdi \<Rightarrow> nat \<Rightarrow> bytes \<Rightarrow> vdi \<times> unit result" where
  "write_block v guest_off bs =
     (let d = vdi_device v; h = vdi_head v; bsize = block_size h; inside = guest_off mod bsize;
          block = guest_off div bsize
      in case block_map_entry d h block of
           Inl e \<Rightarrow> (v, Inl e)
         | Inr entry \<Rightarrow>
             if entry \<noteq> BLOCK_FREE \<and> entry \<noteq> BLOCK_ZERO
             then (case data_at h entry of
                     Inl e \<Rightarrow> (v, Inl e)
                   | Inr at \<Rightarrow> (case medium_write_at d (at + inside) bs of
                                 (d', r) \<Rightarrow> (vdi_set_device v d', r)))
             else if image_type h = VdiFixed then (v, Inl vdi_invalid)
             else case blocks_allocated d of
               Inl e \<Rightarrow> (v, Inl e)
             | Inr index \<Rightarrow>
                 if index \<ge> block_count h then (v, Inl vdi_invalid)
                 else case
                   sbind (seed_block v entry (data_offset h + index * bsize) guest_off bs) (\<lambda>d1 _.
                   sbind (medium_write_at d1 (block_map_offset h + block * 4) (le_bytes 4 index)) (\<lambda>d2 _.
                   medium_write_at d2 BLOCKS_ALLOCATED_AT (le_bytes 4 (index + 1))))
                   of (d', r) \<Rightarrow> (vdi_set_device v d', r))"

definition vdi_write_at :: "vdi \<Rightarrow> nat \<Rightarrow> bytes \<Rightarrow> vdi \<times> unit result" where
  "vdi_write_at v off bs =
     (if off + length bs > disk_size (vdi_head v) then (v, Inl vdi_invalid)
      else write_span (block_size (vdi_head v)) write_block v off bs)"

section \<open>Opening a chain\<close>

text \<open>
  What the code asks of the host: where a path leads, its directory, a name inside a directory,
  whether a path is a file, what a directory lists, whether its extension is the format's, the
  opening of a file for reading, and the reconciliation of an interrupted commit, which alone
  changes the host.
\<close>

record ('h, 'p) vdi_host =
  host_canonical :: "'h \<Rightarrow> 'p \<Rightarrow> 'p option"
  host_here :: "'p \<Rightarrow> 'p"
  host_above :: "'p \<Rightarrow> 'p option"
  host_join :: "'p \<Rightarrow> string \<Rightarrow> 'p"
  host_is_file :: "'h \<Rightarrow> 'p \<Rightarrow> bool"
  host_listing :: "'h \<Rightarrow> 'p \<Rightarrow> 'p list option"
  host_vdi_extension :: "'p \<Rightarrow> bool"
  host_open :: "'h \<Rightarrow> 'p \<Rightarrow> medium_device result"
  host_reconcile :: "'h \<Rightarrow> 'p \<Rightarrow> 'h \<times> unit result"

definition is_vdi_file :: "('h, 'p) vdi_host \<Rightarrow> 'h \<Rightarrow> 'p \<Rightarrow> bool" where
  "is_vdi_file k fs p \<longleftrightarrow> host_vdi_extension k p \<and> host_is_file k fs p"

definition identity_of :: "('h, 'p) vdi_host \<Rightarrow> 'h \<Rightarrow> 'p \<Rightarrow> vdi_uuid option result" where
  "identity_of k fs p =
     rbind (host_open k fs p) (\<lambda>d.
       if medium_len d < UUID_CREATE_AT + 16 then Inr None
       else rbind (device_read d 0 (UUID_CREATE_AT + 16)) (\<lambda>raw.
         if slice SIGNATURE_AT 4 raw \<noteq> VDI_SIGNATURE then Inr None
         else if fst (vdi_version raw) \<noteq> SUPPORTED_MAJOR then Inr None
         else Inr (Some (uuid_read raw UUID_CREATE_AT))))"

text \<open>The files named for the identity, in both spellings; \<open>Inr None\<close> where neither is there.\<close>

fun nominated :: "('h, 'p) vdi_host \<Rightarrow> 'h \<Rightarrow> vdi_uuid \<Rightarrow> 'p list \<Rightarrow> 'p option result" where
  "nominated k fs parent [] = Inr None"
| "nominated k fs parent (p # ps) =
     (if \<not> host_is_file k fs p then nominated k fs parent ps
      else rbind (identity_of k fs p) (\<lambda>found.
        case found of
          Some u \<Rightarrow> if u \<noteq> parent then Inl vdi_invalid else Inr (Some p)
        | None \<Rightarrow> Inr (Some p)))"

text \<open>The files of a directory examined in turn; a candidate that cannot be read is passed over.\<close>

fun examine ::
  "('h, 'p) vdi_host \<Rightarrow> 'h \<Rightarrow> vdi_uuid \<Rightarrow> 'p option \<Rightarrow> nat \<Rightarrow> 'p list \<Rightarrow> 'p list \<Rightarrow> 'p list result" where
  "examine k fs parent self examined matched [] = Inr matched"
| "examine k fs parent self examined matched (p # ps) =
     (if \<not> is_vdi_file k fs p then examine k fs parent self examined matched ps
      else if host_canonical k fs p = self then examine k fs parent self examined matched ps
      else if examined + 1 > MAX_PARENT_CANDIDATES then Inl vdi_unsupported
      else examine k fs parent self (examined + 1)
             (if identity_of k fs p = Inr (Some parent) then matched @ [p] else matched) ps)"

fun search_directories ::
  "('h, 'p) vdi_host \<Rightarrow> 'h \<Rightarrow> vdi_uuid \<Rightarrow> 'p option \<Rightarrow> 'p list \<Rightarrow> 'p result" where
  "search_directories k fs parent self [] = Inl not_found_error"
| "search_directories k fs parent self (dir # dirs) =
     rbind (nominated k fs parent
              [host_join k dir (''{'' @ uuid_text parent @ ''}.vdi''),
               host_join k dir (uuid_text parent @ ''.vdi'')]) (\<lambda>found.
       case found of
         Some p \<Rightarrow> Inr p
       | None \<Rightarrow>
           (case host_listing k fs dir of
              None \<Rightarrow> search_directories k fs parent self dirs
            | Some listing \<Rightarrow>
                rbind (examine k fs parent self 0 [] listing) (\<lambda>matched.
                  case matched of
                    [] \<Rightarrow> search_directories k fs parent self dirs
                  | [p] \<Rightarrow> Inr p
                  | _ \<Rightarrow> Inl vdi_invalid)))"

definition resolve_parent :: "('h, 'p) vdi_host \<Rightarrow> 'h \<Rightarrow> 'p \<Rightarrow> vdi_uuid \<Rightarrow> 'p result" where
  "resolve_parent k fs child parent =
     (let here = host_here k child
      in search_directories k fs parent (host_canonical k fs child)
           (here # (case host_above k here of None \<Rightarrow> [] | Some up \<Rightarrow> [up])))"

text \<open>
  One member and the chain beneath it; the identities already open bound the recursion.
\<close>

function open_member ::
  "('h, 'p) vdi_host \<Rightarrow> 'h \<Rightarrow> medium_device \<Rightarrow> 'p \<Rightarrow> vdi_uuid list \<Rightarrow> 'h \<times> vdi result" where
  "open_member k fs d path_of chain =
     (case vdi_parse d of
        Inl e \<Rightarrow> (fs, Inl e)
      | Inr h \<Rightarrow>
          if image_type h \<noteq> VdiDifferencing then (fs, Inr (Vdi d h None))
          else let chain' = chain @ [create_id h]
               in if parent_id h \<in> set chain' then (fs, Inl vdi_invalid)
                  else if length chain' \<ge> VDI_MAX_CHAIN then (fs, Inl vdi_unsupported)
                  else case resolve_parent k fs path_of (parent_id h) of
                    Inl e \<Rightarrow> (fs, Inl e)
                  | Inr resolved \<Rightarrow>
                      sbind (host_reconcile k fs resolved) (\<lambda>fs1 _.
                        case host_open k fs1 resolved of
                          Inl e \<Rightarrow> (fs1, Inl e)
                        | Inr parent_device \<Rightarrow>
                            sbind (open_member k fs1 parent_device resolved chain') (\<lambda>fs2 p.
                              if create_id (vdi_head p) \<noteq> parent_id h then (fs2, Inl vdi_invalid)
                              else (fs2, Inr (Vdi d h (Some p))))))"
  by pat_completeness auto
termination
  by (relation "measure (\<lambda>(_, _, _, _, chain). VDI_MAX_CHAIN - length chain)") auto

declare open_member.simps [simp del]

definition vdi_open_unnamed :: "medium_device \<Rightarrow> vdi result" where
  "vdi_open_unnamed d =
     rbind (vdi_parse d) (\<lambda>h.
       if image_type h = VdiDifferencing then Inl vdi_unsupported else Inr (Vdi d h None))"

definition vdi_open_chain ::
  "('h, 'p) vdi_host \<Rightarrow> 'h \<Rightarrow> medium_device \<Rightarrow> 'p option \<Rightarrow> 'h \<times> vdi result" where
  "vdi_open_chain k fs d path_of =
     (case path_of of
        None \<Rightarrow> (fs, vdi_open_unnamed d)
      | Some p \<Rightarrow> open_member k fs d p [])"

end
