(* ===== verification/Vdi_Proofs.thy ===== *)
theory Vdi_Proofs
  imports Vdi
begin

text \<open>
  A VDI chain is a disk: what it presents is a list of bytes, computed from the block maps of its
  members; a read answers a slice of it, and a write splices into it, growing the top file alone.
\<close>

section \<open>What a chain presents\<close>

definition entry_of :: "medium_device \<Rightarrow> vdi_header \<Rightarrow> nat \<Rightarrow> nat" where
  "entry_of d h b = le_nat (slice (block_map_offset h + b * 4) 4 (medium_contents d))"

definition allocated_of :: "medium_device \<Rightarrow> nat" where
  "allocated_of d = le_nat (slice BLOCKS_ALLOCATED_AT 4 (medium_contents d))"

fun vdi_byte :: "vdi \<Rightarrow> nat \<Rightarrow> u8" where
  "vdi_byte (Vdi d h parent) = (\<lambda>i.
     let e = entry_of d h (i div block_size h)
     in if e = BLOCK_FREE
        then (case parent of None \<Rightarrow> 0 | Some p \<Rightarrow> if i < disk_size (vdi_head p) then vdi_byte p i else 0)
        else if e = BLOCK_ZERO then 0
        else medium_contents d ! (data_offset h + e * block_size h + i mod block_size h))"

definition vdi_view :: "vdi \<Rightarrow> bytes" where
  "vdi_view v = map (vdi_byte v) [0..<disk_size (vdi_head v)]"

lemma length_vdi_view [simp]: "length (vdi_view v) = disk_size (vdi_head v)"
  by (simp add: vdi_view_def)

lemma slice_vdi_view:
  "off + n \<le> disk_size (vdi_head v) \<Longrightarrow> slice off n (vdi_view v) = map (vdi_byte v) [off..<off + n]"
  by (rule nth_equalityI) (simp_all add: vdi_view_def)

definition parent_byte :: "vdi option \<Rightarrow> nat \<Rightarrow> u8" where
  "parent_byte parent i =
     (case parent of None \<Rightarrow> 0 | Some p \<Rightarrow> if i < disk_size (vdi_head p) then vdi_byte p i else 0)"

text \<open>The header's extents, as \<open>vdi_parse\<close> checks them against the file's length.\<close>

definition extents_ok :: "vdi_header \<Rightarrow> nat \<Rightarrow> bool" where
  "extents_ok h len \<longleftrightarrow> 512 \<le> block_size h \<and> disk_size h \<le> block_count h * block_size h \<and>
     BLOCKS_ALLOCATED_AT + 4 \<le> block_map_offset h \<and>
     block_map_offset h + block_count h * 4 \<le> data_offset h \<and>
     block_map_offset h + block_count h * 4 \<le> len \<and> data_offset h < 2 ^ 32"

definition held :: "medium_device \<Rightarrow> vdi_header \<Rightarrow> nat" where
  "held d h = (if image_type h = VdiFixed then block_count h else allocated_of d)"

definition in_file :: "nat \<Rightarrow> bool" where
  "in_file e \<longleftrightarrow> e \<noteq> BLOCK_FREE \<and> e \<noteq> BLOCK_ZERO"

definition map_ok :: "medium_device \<Rightarrow> vdi_header \<Rightarrow> bool" where
  "map_ok d h \<longleftrightarrow> allocated_of d \<le> block_count h \<and> data_offset h + held d h * block_size h \<le> medium_len d \<and>
     (\<forall>b < block_count h. in_file (entry_of d h b) \<longrightarrow> entry_of d h b < held d h) \<and>
     (\<forall>b < block_count h. \<forall>c < block_count h. in_file (entry_of d h b) \<longrightarrow>
        entry_of d h b = entry_of d h c \<longrightarrow> b = c)"

fun vdi_wf :: "vdi \<Rightarrow> bool" where
  "vdi_wf (Vdi d h parent) \<longleftrightarrow> medium_delivers d \<and> extents_ok h (medium_len d) \<and> map_ok d h \<and>
     (case parent of None \<Rightarrow> True | Some p \<Rightarrow> vdi_wf p)"

section \<open>Reading\<close>

lemma block_map_entry_of:
  assumes "medium_delivers d" "extents_ok h (medium_len d)" "b < block_count h"
  shows "block_map_entry d h b = Inr (entry_of d h b)"
proof -
  have "b * 4 + 4 \<le> block_count h * 4" using assms(3) by simp
  then have "block_map_offset h + b * 4 + 4 \<le> medium_len d" using assms(2) by (simp add: extents_ok_def)
  then show ?thesis
    using assms(1) by (simp add: block_map_entry_def container_laws entry_of_def)
qed

lemma blocks_allocated_of:
  "medium_delivers d \<Longrightarrow> extents_ok h (medium_len d) \<Longrightarrow> blocks_allocated d = Inr (allocated_of d)"
  by (simp add: blocks_allocated_def container_laws allocated_of_def extents_ok_def)

lemma block_in_disk:
  assumes "extents_ok h len" "i < disk_size h"
  shows "i div block_size h < block_count h"
  using assms by (simp add: extents_ok_def less_mult_imp_div_less)

lemma written_block:
  "extents_ok h len \<Longrightarrow> ys \<noteq> [] \<Longrightarrow> a + length ys \<le> disk_size h \<Longrightarrow> a div block_size h < block_count h"
  by (cases ys) (auto intro: block_in_disk)

text \<open>An index inside a block held, in the file.\<close>

lemma block_inside:
  fixes e m bs :: nat
  assumes "e < m" "j + k \<le> bs"
  shows "e * bs + j + k \<le> m * bs"
proof -
  have "(e + 1) * bs \<le> m * bs" using assms(1) by (intro mult_le_mono1) simp
  then show ?thesis using assms(2) by simp
qed

lemma read_parent_bytes:
  assumes "\<And>p off n. parent = Some p \<Longrightarrow> off + n \<le> disk_size (vdi_head p) \<Longrightarrow>
    vdi_reader p off n = Inr (map (vdi_byte p) [off..<off + n])"
  shows "read_parent (parent_view_of (Vdi d h parent)) off n = Inr (map (parent_byte parent) [off..<off + n])"
proof (cases parent)
  case None
  then show ?thesis
    by (auto simp: read_parent_def parent_view_of_def parent_byte_def intro!: nth_equalityI)
next
  case (Some p)
  let ?m = "disk_size (vdi_head p)"
  show ?thesis
  proof (cases "off \<ge> ?m")
    case True
    then show ?thesis using Some
      by (auto simp: read_parent_def parent_view_of_def parent_byte_def intro!: nth_equalityI)
  next
    case False
    define k where "k = min (?m - off) n"
    have k: "off + k \<le> ?m" "k \<le> n" "k < n \<longrightarrow> off + k = ?m" using False by (auto simp: k_def)
    have "read_parent (parent_view_of (Vdi d h parent)) off n =
        Inr (map (vdi_byte p) [off..<off + k] @ replicate (n - k) 0)"
      using Some False assms [OF Some k(1)]
      by (simp add: read_parent_def parent_view_of_def Let_def flip: k_def)
    moreover have "map (vdi_byte p) [off..<off + k] @ replicate (n - k) 0 = map (parent_byte parent) [off..<off + n]"
      using k Some by (intro nth_equalityI) (auto simp: parent_byte_def nth_append)
    ultimately show ?thesis by simp
  qed
qed

lemma same_block:
  fixes a i k bs :: nat
  assumes "a \<le> i" "i < a + k" "a mod bs + k \<le> bs"
  shows "i div bs = a div bs" "i mod bs = a mod bs + (i - a)"
proof -
  have e: "bs * (a div bs) + a mod bs = a" by simp
  then have "bs * (a div bs) \<le> i" using assms(1) by linarith
  moreover have "i < bs * (a div bs) + bs" using e assms by linarith
  then have "i < bs * Suc (a div bs)" by simp
  ultimately show d: "i div bs = a div bs" by (rule div_nat_eqI)
  have "i mod bs = i - bs * (a div bs)" using minus_mult_div_eq_mod [of i bs] d by simp
  then show "i mod bs = a mod bs + (i - a)" using e assms(1) by linarith
qed

lemma read_block_bytes:
  assumes "vdi_wf (Vdi d h parent)" "0 < k" "a + k \<le> disk_size h" "a mod block_size h + k \<le> block_size h"
    and "\<And>off n. read_parent (parent_view_of (Vdi d h parent)) off n =
      Inr (map (parent_byte parent) [off..<off + n])"
  shows "read_block d h (parent_view_of (Vdi d h parent)) a k = Inr (map (vdi_byte (Vdi d h parent)) [a..<a + k])"
proof -
  let ?bs = "block_size h" and ?b = "a div block_size h"
  let ?e = "entry_of d h ?b"
  have w: "medium_delivers d" "extents_ok h (medium_len d)" "map_ok d h" using assms(1) by simp_all
  have b: "?b < block_count h" using block_in_disk [OF w(2)] assms(2,3) by simp
  note read = read_block_def block_map_entry_of [OF w(1,2) b]
  have byte: "vdi_byte (Vdi d h parent) i =
      (if ?e = BLOCK_FREE then parent_byte parent i else if ?e = BLOCK_ZERO then 0
       else medium_contents d ! (data_offset h + ?e * ?bs + (a mod ?bs + (i - a))))"
    if "a \<le> i" "i < a + k" for i
    unfolding vdi_byte.simps Let_def same_block [OF that assms(4)] parent_byte_def by (rule refl)
  consider "?e = BLOCK_FREE" | "?e = BLOCK_ZERO" "?e \<noteq> BLOCK_FREE" | "in_file ?e"
    unfolding in_file_def by blast
  then show ?thesis
  proof cases
    case 1
    have "map (vdi_byte (Vdi d h parent)) [a..<a + k] = map (parent_byte parent) [a..<a + k]"
      using 1 by (intro map_cong refl) (simp add: byte del: vdi_byte.simps)
    then show ?thesis using 1 by (simp add: read assms(5) del: vdi_byte.simps)
  next
    case 2
    have "map (vdi_byte (Vdi d h parent)) [a..<a + k] = map (\<lambda>_. 0) [a..<a + k]"
      using 2 by (intro map_cong refl) (simp add: byte del: vdi_byte.simps)
    then show ?thesis using 2 by (simp add: read map_replicate_const del: vdi_byte.simps)
  next
    case 3
    let ?at = "data_offset h + ?e * ?bs"
    have e: "?e < held d h" using w(3) b 3 by (simp add: map_ok_def)
    moreover have "held d h \<le> block_count h" using w(3) by (simp add: map_ok_def held_def)
    ultimately have "data_at h ?e = Inr ?at" by (simp add: data_at_def)
    moreover have "?e * ?bs + a mod ?bs + k \<le> held d h * ?bs" using block_inside [OF e assms(4)] .
    then have fits: "?at + a mod ?bs + k \<le> medium_len d" using w(3) by (simp add: map_ok_def)
    moreover have "slice (?at + a mod ?bs) k (medium_contents d) = map (vdi_byte (Vdi d h parent)) [a..<a + k]"
      using 3 fits w(1) by (intro nth_equalityI) (simp_all add: byte in_file_def slice_def add.assoc del: vdi_byte.simps)
    ultimately show ?thesis
      using 3 w(1) by (simp add: read in_file_def container_laws del: vdi_byte.simps)
  qed
qed

lemma vdi_reader_bytes:
  "vdi_wf v \<Longrightarrow> off + n \<le> disk_size (vdi_head v) \<Longrightarrow> vdi_reader v off n = Inr (map (vdi_byte v) [off..<off + n])"
proof (induction v arbitrary: off n)
  case (Vdi d h parent)
  have rp: "read_parent (parent_view_of (Vdi d h parent)) off n = Inr (map (parent_byte parent) [off..<off + n])"
    for off n
    using Vdi.IH Vdi.prems(1) by (intro read_parent_bytes) auto
  have bs: "0 < block_size h" using Vdi.prems(1) by (auto simp: extents_ok_def)
  have "read_span (block_size h) (read_block d h (parent_view_of (Vdi d h parent))) off n =
      Inr (slice off n (vdi_view (Vdi d h parent)))"
    using Vdi.prems read_block_bytes [OF Vdi.prems(1) _ _ _ rp]
    by (intro read_span_view [OF bs]) (simp add: slice_vdi_view)
  then show ?case
    using Vdi.prems(2) by (simp add: slice_vdi_view parent_view_of_def)
qed

section \<open>Writing\<close>

lemma upt_append: "i \<le> j \<Longrightarrow> j \<le> k \<Longrightarrow> [i..<j] @ [j..<k] = [i..<k]"
  by (metis le_Suc_ex upt_add_eq_append)

lemma fill_chunks_write:
  assumes "medium_grows d" "from \<le> len"
    and "\<And>a k. 0 < k \<Longrightarrow> a + k \<le> len \<Longrightarrow> src a k = Inr (map g [a..<a + k])"
  shows "\<exists>d'. fill_chunks src d off from len = (d', Inr ()) \<and> medium_grows d' \<and>
    medium_contents d' = file_write_all_at (medium_contents d) (off + from) (map g [from..<len])"
  using assms(1,2)
proof (induction "len - from" arbitrary: d "from" rule: less_induct)
  case less
  show ?case
  proof (cases "from = len")
    case True
    then show ?thesis using less.prems by (subst fill_chunks.simps) (simp add: file_write_all_at_def)
  next
    case False
    define k where "k = min (len - from) ZERO_FILL_CHUNK"
    have k: "0 < k" "from + k \<le> len" using False less.prems(2) by (auto simp: k_def ZERO_FILL_CHUNK_def)
    have s: "src from k = Inr (map g [from..<from + k])" using k by (intro assms(3))
    have "map g [from..<from + k] \<noteq> []" using k by simp
    then obtain d1 where d1: "medium_write_at d (off + from) (map g [from..<from + k]) = (d1, Inr ())"
      "medium_grows d1"
      "medium_contents d1 = file_write_all_at (medium_contents d) (off + from) (map g [from..<from + k])"
      using growing.grow_law [OF less.prems(1)] by blast
    have "len - (from + k) < len - from" using k by simp
    then obtain d2 where d2: "fill_chunks src d1 off (from + k) len = (d2, Inr ())" "medium_grows d2"
      "medium_contents d2 = file_write_all_at (medium_contents d1) (off + (from + k)) (map g [from + k..<len])"
      using less.hyps [OF _ d1(2) k(2)] by blast
    have "medium_contents d2 = file_write_all_at (medium_contents d) (off + from)
        (map g [from..<from + k] @ map g [from + k..<len])"
      using file_write_twice [of "medium_contents d" "off + from" "map g [from..<from + k]" "map g [from + k..<len]"]
        d1(3) d2(3) by (simp add: add.assoc)
    also have "map g [from..<from + k] @ map g [from + k..<len] = map g [from..<len]"
      using k upt_append [of "from" "from + k" len] by (simp flip: map_append)
    finally show ?thesis
      using d1(1) d2(1,2) s False less.prems(2)
      by (subst fill_chunks.simps) (simp add: Let_def flip: k_def)
  qed
qed

text \<open>What a fresh block holds: the bytes written, and around them what the block read as.\<close>

definition fresh_byte :: "vdi \<Rightarrow> nat \<Rightarrow> nat \<Rightarrow> bytes \<Rightarrow> nat \<Rightarrow> u8" where
  "fresh_byte v entry a ys j =
     (let inside = a mod block_size (vdi_head v)
      in if inside \<le> j \<and> j < inside + length ys then ys ! (j - inside)
         else if entry = BLOCK_FREE then parent_byte (vdi_parent v) (a - inside + j) else 0)"

lemma vdi_parent_bytes:
  "vdi_wf v \<Longrightarrow> read_parent (parent_view_of v) off n = Inr (map (parent_byte (vdi_parent v)) [off..<off + n])"
  by (cases v) (auto intro!: read_parent_bytes simp: vdi_reader_bytes)

lemma write_three:
  assumes "\<exists>d1. m1 = (d1, Inr ()) \<and> medium_grows d1 \<and> medium_contents d1 = file_write_all_at c at xs"
    and "ys \<noteq> []"
    and "\<And>d2. medium_grows d2 \<Longrightarrow> \<exists>d3. m3 d2 = (d3, Inr ()) \<and> medium_grows d3 \<and>
      medium_contents d3 = file_write_all_at (medium_contents d2) (at + length xs + length ys) zs"
  shows "\<exists>d3. sbind m1 (\<lambda>d1 _. sbind (medium_write_at d1 (at + length xs) ys) (\<lambda>d2 _. m3 d2)) = (d3, Inr ()) \<and>
    medium_grows d3 \<and> medium_contents d3 = file_write_all_at c at (xs @ ys @ zs)"
proof -
  obtain d1 where d1: "m1 = (d1, Inr ())" "medium_grows d1" "medium_contents d1 = file_write_all_at c at xs"
    using assms(1) by blast
  obtain d2 where d2: "medium_write_at d1 (at + length xs) ys = (d2, Inr ())" "medium_grows d2"
    "medium_contents d2 = file_write_all_at (medium_contents d1) (at + length xs) ys"
    using growing.grow_law [OF d1(2) assms(2)] by blast
  obtain d3 where d3: "m3 d2 = (d3, Inr ())" "medium_grows d3"
    "medium_contents d3 = file_write_all_at (medium_contents d2) (at + length xs + length ys) zs"
    using assms(3) [OF d2(2)] by blast
  have "medium_contents d3 = file_write_all_at c at (xs @ ys @ zs)"
    using file_write_twice [of c at xs ys] file_write_twice [of c at "xs @ ys" zs] d1(3) d2(3) d3(3)
    by (simp add: add.assoc)
  then show ?thesis using d1(1) d2(1) d3(1,2) by auto
qed

lemma seed_block_write:
  fixes v a ys
  defines "bsize \<equiv> block_size (vdi_head v)" and "inside \<equiv> a mod block_size (vdi_head v)"
  assumes "vdi_wf v" "medium_grows (vdi_device v)" "ys \<noteq> []" "inside + length ys \<le> bsize"
  shows "\<exists>d'. seed_block v entry at a ys = (d', Inr ()) \<and> medium_grows d' \<and>
    medium_contents d' = file_write_all_at (medium_contents (vdi_device v)) at (map (fresh_byte v entry a ys) [0..<bsize])"
proof -
  let ?d = "vdi_device v" and ?tail = "inside + length ys"
  let ?f = "\<lambda>off j. if entry = BLOCK_FREE then parent_byte (vdi_parent v) (a - inside + off + j) else 0"
  have fill: "\<exists>d'. (if entry = BLOCK_FREE \<and> parent_view_of v \<noteq> None
        then copy_from_parent (parent_view_of v) d (at + off) (a - inside + off) n else write_zeroes d (at + off) n) =
        (d', Inr ()) \<and> medium_grows d' \<and>
      medium_contents d' = file_write_all_at (medium_contents d) (at + off) (map (?f off) [0..<n])"
    if "medium_grows d" for d off n
  proof (cases "entry = BLOCK_FREE \<and> parent_view_of v \<noteq> None")
    case True
    have "read_parent (parent_view_of v) (a - inside + off + from) k = Inr (map (?f off) [from..<from + k])" for "from" k
      unfolding vdi_parent_bytes [OF assms(3)] using True
      by (auto intro!: nth_equalityI simp: add.assoc)
    then show ?thesis
      using fill_chunks_write [OF that, of 0 n _ "?f off" "at + off"] True
      by (simp add: copy_from_parent_def)
  next
    case False
    then have "?f off = (\<lambda>_. 0)" by (auto simp: parent_view_of_def parent_byte_def split: option.splits)
    then have z: "Inr (replicate k 0) = (Inr (map (?f off) [from..<from + k]) :: bytes result)" for "from" k
      by (simp add: map_replicate_const)
    show ?thesis
      unfolding if_not_P [OF False] write_zeroes_def
      using fill_chunks_write [OF that le0 z, of "at + off" n] unfolding add_0_right .
  qed
  let ?xs = "map (?f 0) [0..<inside]" and ?zs = "map (?f ?tail) [0..<bsize - ?tail]"
  let ?fill = "\<lambda>d off n. if entry = BLOCK_FREE \<and> parent_view_of v \<noteq> None
    then copy_from_parent (parent_view_of v) d (at + off) (a - inside + off) n else write_zeroes d (at + off) n"
  have "\<exists>d3. sbind (?fill ?d 0 inside) (\<lambda>d1 _. sbind (medium_write_at d1 (at + length ?xs) ys) (\<lambda>d2 _.
      ?fill d2 ?tail (bsize - ?tail))) = (d3, Inr ()) \<and> medium_grows d3 \<and>
      medium_contents d3 = file_write_all_at (medium_contents ?d) at (?xs @ ys @ ?zs)"
    using fill [OF assms(4), of 0 inside] fill [of _ ?tail "bsize - ?tail"]
    by (intro write_three assms(5)) (simp_all add: add.assoc)
  moreover have "sbind (?fill ?d 0 inside) (\<lambda>d1 _. sbind (medium_write_at d1 (at + length ?xs) ys) (\<lambda>d2 _.
      ?fill d2 ?tail (bsize - ?tail))) = seed_block v entry at a ys"
  proof (cases "entry = BLOCK_FREE \<and> parent_view_of v \<noteq> None")
    case True
    then show ?thesis
      unfolding seed_block_def Let_def bsize_def inside_def if_P [OF True] by (simp add: add.assoc)
  next
    case False
    then show ?thesis
      unfolding seed_block_def Let_def bsize_def inside_def if_not_P [OF False] by (simp add: add.assoc)
  qed
  moreover have "?xs @ ys @ ?zs = map (fresh_byte v entry a ys) [0..<bsize]"
    using assms(6)
    by (intro nth_equalityI) (auto simp: nth_append fresh_byte_def Let_def simp flip: inside_def)
  ultimately show ?thesis by simp
qed

text \<open>The bytes of a chain, from its top file's contents.\<close>

lemma vdi_byte_top:
  "vdi_byte v i =
    (let e = entry_of (vdi_device v) (vdi_head v) (i div block_size (vdi_head v))
     in if e = BLOCK_FREE then parent_byte (vdi_parent v) i
        else if e = BLOCK_ZERO then 0
        else medium_contents (vdi_device v) !
          (data_offset (vdi_head v) + e * block_size (vdi_head v) + i mod block_size (vdi_head v)))"
  by (cases v) (simp add: parent_byte_def Let_def)

lemma vdi_wfD:
  assumes "vdi_wf v"
  shows "medium_delivers (vdi_device v)" "extents_ok (vdi_head v) (medium_len (vdi_device v))"
    "map_ok (vdi_device v) (vdi_head v)"
  using assms by (cases v; simp)+

lemma vdi_wf_set_device:
  "vdi_wf v \<Longrightarrow> medium_delivers d \<Longrightarrow> extents_ok (vdi_head v) (medium_len d) \<Longrightarrow> map_ok d (vdi_head v) \<Longrightarrow>
    vdi_wf (vdi_set_device v d)"
  by (cases v) (simp add: vdi_set_device_def)

lemma vdi_set_device_simps [simp]:
  "vdi_device (vdi_set_device v d) = d" "vdi_head (vdi_set_device v d) = vdi_head v"
  "vdi_parent (vdi_set_device v d) = vdi_parent v"
  by (simp_all add: vdi_set_device_def)

lemma splice_view:
  assumes "a + length ys \<le> disk_size (vdi_head v)" "vdi_head v' = vdi_head v"
    and "\<And>i. i < disk_size (vdi_head v) \<Longrightarrow>
      vdi_byte v' i = (if a \<le> i \<and> i < a + length ys then ys ! (i - a) else vdi_byte v i)"
  shows "vdi_view v' = splice a ys (vdi_view v)"
  using assms by (intro nth_equalityI) (auto simp: vdi_view_def nth_splice)

text \<open>Writing into a block the file holds.\<close>

lemma write_held_block:
  assumes "vdi_wf v" "medium_grows (vdi_device v)" "ys \<noteq> []" "a + length ys \<le> disk_size (vdi_head v)"
    and "a mod block_size (vdi_head v) + length ys \<le> block_size (vdi_head v)"
    and "entry_of (vdi_device v) (vdi_head v) (a div block_size (vdi_head v)) = e" "in_file e"
    and "medium_grows d'" "medium_contents d' = file_write_all_at (medium_contents (vdi_device v))
      (data_offset (vdi_head v) + e * block_size (vdi_head v) + a mod block_size (vdi_head v)) ys"
  shows "vdi_wf (vdi_set_device v d') \<and> vdi_view (vdi_set_device v d') = splice a ys (vdi_view v)"
proof -
  let ?d = "vdi_device v" and ?h = "vdi_head v"
  let ?bs = "block_size ?h" and ?c = "medium_contents ?d"
  let ?at = "data_offset ?h + e * ?bs + a mod ?bs"
  note w = vdi_wfD [OF assms(1)]
  have bs: "0 < ?bs" using w(2) by (simp add: extents_ok_def)
  have b: "a div ?bs < block_count ?h" using written_block [OF w(2) assms(3,4)] .
  have e: "e < held ?d ?h" using w(3) b assms(6,7) by (auto simp: map_ok_def)
  have "e * ?bs + a mod ?bs + length ys \<le> held ?d ?h * ?bs" using block_inside [OF e assms(5)] .
  then have fits: "?at + length ys \<le> length ?c" using w(1,3) by (simp add: map_ok_def)
  then have len: "length (medium_contents d') = length ?c" "medium_len d' = medium_len ?d"
    using assms(3,8,9) length_medium_contents [of d'] w(1) by (auto simp: max_def)
  have entries: "entry_of d' ?h b = entry_of ?d ?h b" if "b < block_count ?h" for b
  proof -
    have "b * 4 + 4 \<le> block_count ?h * 4" using that by simp
    then have "block_map_offset ?h + b * 4 + 4 \<le> data_offset ?h" "block_map_offset ?h + b * 4 + 4 \<le> length ?c"
      using w(1,2) by (simp_all add: extents_ok_def)
    then show ?thesis unfolding entry_of_def assms(9) by (subst slice_file_write_elsewhere) auto
  qed
  have allocated: "allocated_of d' = allocated_of ?d"
    unfolding allocated_of_def assms(9) using w(1,2)
    by (subst slice_file_write_elsewhere) (auto simp: extents_ok_def)
  then have "held d' ?h = held ?d ?h" by (simp add: held_def)
  then have "map_ok d' ?h" using w(3) len(2) entries allocated unfolding map_ok_def by (simp, blast)
  then have "vdi_wf (vdi_set_device v d')"
    using w(2) len(2) assms(8) by (intro vdi_wf_set_device [OF assms(1)]) simp_all
  moreover have "vdi_view (vdi_set_device v d') = splice a ys (vdi_view v)"
  proof (rule splice_view [OF assms(4)])
    fix i assume i: "i < disk_size ?h"
    let ?f = "entry_of ?d ?h (i div ?bs)"
    have bi: "i div ?bs < block_count ?h" using block_in_disk [OF w(2) i] .
    show "vdi_byte (vdi_set_device v d') i = (if a \<le> i \<and> i < a + length ys then ys ! (i - a) else vdi_byte v i)"
    proof (cases "in_file ?f")
      case False
      then have "i div ?bs \<noteq> a div ?bs" using assms(6,7) by auto
      then have "\<not> (a \<le> i \<and> i < a + length ys)" using same_block(1) [OF _ _ assms(5)] by blast
      then show ?thesis using False entries [OF bi] by (auto simp: vdi_byte_top in_file_def Let_def)
    next
      case True
      let ?p = "data_offset ?h + ?f * ?bs + i mod ?bs"
      have f: "?f < held ?d ?h" using w(3) bi True by (simp add: map_ok_def)
      have "?f * ?bs + i mod ?bs + 1 \<le> held ?d ?h * ?bs"
        using block_inside [OF f, of "i mod ?bs" 1 ?bs] bs by (simp add: Suc_le_eq)
      then have p: "?p < length ?c" using w(1,3) by (simp add: map_ok_def)
      have byte: "vdi_byte (vdi_set_device v d') i =
          (if ?at \<le> ?p \<and> ?p < ?at + length ys then ys ! (?p - ?at) else ?c ! ?p)"
        "vdi_byte v i = ?c ! ?p"
        using True entries [OF bi] p len(1)
        by (simp_all add: vdi_byte_top in_file_def Let_def assms(9) nth_file_write)
      show ?thesis
      proof (cases "i div ?bs = a div ?bs")
        case same: True
        have "i div ?bs * ?bs + i mod ?bs = i" "a div ?bs * ?bs + a mod ?bs = a" by simp_all
        then have "i + a mod ?bs = a + i mod ?bs" unfolding same by linarith
        moreover have "?f = e" using same assms(6) by simp
        ultimately have pos: "(?at \<le> ?p \<and> ?p < ?at + length ys) = (a \<le> i \<and> i < a + length ys)"
          "?p - ?at = i - a"
          by auto
        show ?thesis unfolding byte pos by (rule refl)
      next
        case other: False
        then have out: "\<not> (a \<le> i \<and> i < a + length ys)" using same_block(1) [OF _ _ assms(5)] by blast
        have "?f \<noteq> e" using w(3) b bi other assms(6,7) True by (auto simp: map_ok_def)
        then have "e * ?bs + ?bs \<le> ?f * ?bs \<or> ?f * ?bs + ?bs \<le> e * ?bs"
          by (metis Suc_leI linorder_neqE_nat mult_Suc mult_le_mono1 add.commute)
        then have away: "\<not> (?at \<le> ?p \<and> ?p < ?at + length ys)"
          using assms(5) mod_less_divisor [OF bs, of i] by linarith
        show ?thesis unfolding byte if_not_P [OF away] if_not_P [OF out] by (rule refl)
      qed
    qed
  qed simp
  ultimately show ?thesis by blast
qed

text \<open>Writing into a fresh block: the block itself, its map entry, and the count.\<close>

lemma write_fresh_block:
  fixes v a ys d'
  defines "d \<equiv> vdi_device v" and "h \<equiv> vdi_head v"
  defines "bs \<equiv> block_size h" and "index \<equiv> allocated_of (vdi_device v)" and "b \<equiv> a div block_size (vdi_head v)"
  assumes "vdi_wf v" "medium_grows d" "ys \<noteq> []" "a + length ys \<le> disk_size h" "a mod bs + length ys \<le> bs"
    and "entry_of d h b = e" "\<not> in_file e" "image_type h \<noteq> VdiFixed" "index < block_count h"
    and "medium_grows d'" "medium_contents d' =
      file_write_all_at (file_write_all_at (file_write_all_at (medium_contents d)
        (data_offset h + index * bs) (map (fresh_byte v e a ys) [0..<bs]))
        (block_map_offset h + b * 4) (le_bytes 4 index)) BLOCKS_ALLOCATED_AT (le_bytes 4 (index + 1))"
  shows "vdi_wf (vdi_set_device v d') \<and> vdi_view (vdi_set_device v d') = splice a ys (vdi_view v)"
proof -
  let ?c = "medium_contents d" and ?at = "data_offset h + index * bs" and ?m = "block_map_offset h + b * 4"
  let ?c1 = "file_write_all_at ?c ?at (map (fresh_byte v e a ys) [0..<bs])"
  let ?c2 = "file_write_all_at ?c1 ?m (le_bytes 4 index)"
  note w = vdi_wfD [OF assms(6), folded d_def h_def]
  have x: "512 \<le> bs" "disk_size h \<le> block_count h * bs" "BLOCKS_ALLOCATED_AT + 4 \<le> block_map_offset h"
    "block_map_offset h + block_count h * 4 \<le> data_offset h" "data_offset h < 2 ^ 32"
    "block_map_offset h + block_count h * 4 \<le> length ?c"
    using w(1,2) by (simp_all add: extents_ok_def bs_def)
  have held: "held d h = index" using assms(13) by (simp add: held_def index_def d_def)
  then have fits: "?at \<le> length ?c" using w(1,3) by (simp add: map_ok_def bs_def)
  have b: "b < block_count h" using written_block [OF w(2) assms(8,9)] by (simp add: b_def h_def)
  have "b * 4 + 4 \<le> block_count h * 4" using b by simp
  then have m: "?m + 4 \<le> data_offset h" "?m + 4 \<le> length ?c" using x by linarith+
  have small: "index + 1 < 256 ^ 4" "index \<noteq> BLOCK_FREE" "index \<noteq> BLOCK_ZERO"
    using assms(14) x(4,5) by (simp_all add: BLOCK_FREE_def BLOCK_ZERO_def)
  have l1: "length ?c1 = max (length ?c) (?at + bs)" using x(1) by simp
  have l2: "length ?c2 = length ?c1" using m(2) by simp
  have "BLOCKS_ALLOCATED_AT + 4 \<le> length ?c" using x(3,6) by linarith
  then have l3: "length (medium_contents d') = max (length ?c) (?at + bs)"
    unfolding assms(16) using l1 l2 by simp
  then have len: "medium_len d' = max (medium_len d) (?at + bs)"
    using assms(15) w(1) length_medium_contents by (metis medium_grows_delivers)
  text \<open>Away from the map entry and the count, the contents are those before and the block.\<close>
  have outside: "medium_contents d' ! i = (if ?at \<le> i \<and> i < ?at + bs then fresh_byte v e a ys (i - ?at) else ?c ! i)"
    if "data_offset h \<le> i" "i < ?at + bs" for i
  proof -
    have "?c2 ! i = ?c1 ! i" using that m l1 l2 by (subst nth_file_write) auto
    moreover have "medium_contents d' ! i = ?c2 ! i"
      unfolding assms(16) using that x(3) m(1) l1 l2 l3 assms(16) by (subst nth_file_write) auto
    moreover have "?c1 ! i = (if ?at \<le> i \<and> i < ?at + bs then fresh_byte v e a ys (i - ?at) else ?c ! i)"
      using that fits l1 by (subst nth_file_write) auto
    ultimately show ?thesis by simp
  qed
  have entries: "entry_of d' h k = (if k = b then index else entry_of d h k)" if "k < block_count h" for k
  proof -
    have "k * 4 + 4 \<le> block_count h * 4" using that by simp
    then have k: "block_map_offset h + k * 4 + 4 \<le> data_offset h" "block_map_offset h + k * 4 + 4 \<le> length ?c"
      using x by linarith+
    have "slice (block_map_offset h + k * 4) 4 (medium_contents d') = slice (block_map_offset h + k * 4) 4 ?c2"
      unfolding assms(16) using k x(3) l1 l2 by (intro slice_file_write_elsewhere) auto
    moreover have "slice (block_map_offset h + k * 4) 4 ?c2 =
        (if k = b then le_bytes 4 index else slice (block_map_offset h + k * 4) 4 ?c1)"
    proof (cases "k = b")
      case True
      then show ?thesis using slice_file_write_there [of ?m "le_bytes 4 index" ?c1] by simp
    next
      case False
      then have "k * 4 + 4 \<le> b * 4 \<or> b * 4 + 4 \<le> k * 4" by presburger
      then show ?thesis using k l1 False by (simp, intro slice_file_write_elsewhere) auto
    qed
    moreover have "slice (block_map_offset h + k * 4) 4 ?c1 = slice (block_map_offset h + k * 4) 4 ?c"
      using k by (intro slice_file_write_elsewhere) auto
    ultimately show ?thesis using small(1) by (simp add: entry_of_def)
  qed
  have "allocated_of d' = index + 1"
    unfolding allocated_of_def assms(16)
    using slice_file_write_there [of BLOCKS_ALLOCATED_AT "le_bytes 4 (index + 1)" ?c2] small(1) by simp
  then have held': "held d' h = index + 1" "allocated_of d' \<le> block_count h"
    using assms(13,14) by (simp_all add: held_def)
  have old: "entry_of d h k < index" if "k < block_count h" "in_file (entry_of d h k)" for k
    using w(3) that held by (simp add: map_ok_def)
  have "map_ok d' h"
    unfolding map_ok_def held'(1)
  proof (intro conjI allI impI)
    show "allocated_of d' \<le> block_count h" by (rule held'(2))
    show "data_offset h + (index + 1) * block_size h \<le> medium_len d'" using len by (simp add: bs_def)
    fix k assume k: "k < block_count h" "in_file (entry_of d' h k)"
    show "entry_of d' h k < index + 1" using entries [OF k(1)] old [OF k(1)] k(2) by (cases "k = b") auto
    fix j assume j: "j < block_count h" "entry_of d' h k = entry_of d' h j"
    have inj: "entry_of d h k = entry_of d h j \<Longrightarrow> in_file (entry_of d h k) \<Longrightarrow> k = j"
      using w(3) k(1) j(1) by (simp add: map_ok_def)
    have fresh: "in_file index" using small by (simp add: in_file_def)
    consider "k = b" "j = b" | "k = b" "j \<noteq> b" | "k \<noteq> b" "j = b" | "k \<noteq> b" "j \<noteq> b" by blast
    then show "k = j"
    proof cases
      case 2
      then have "entry_of d h j = index" using entries [OF k(1)] entries [OF j(1)] j(2) by simp
      then show ?thesis using old [OF j(1)] fresh by simp
    next
      case 3
      then have "entry_of d h k = index" using entries [OF k(1)] entries [OF j(1)] j(2) by simp
      then show ?thesis using old [OF k(1)] fresh by simp
    next
      case 4
      then show ?thesis using entries [OF k(1)] entries [OF j(1)] k(2) j(2) inj by simp
    qed simp
  qed
  moreover have "extents_ok h (medium_len d')" using w(2) len by (simp add: extents_ok_def max_def)
  ultimately have "vdi_wf (vdi_set_device v d')"
    using vdi_wf_set_device [OF assms(6)] assms(15) by (simp add: h_def)
  moreover have "vdi_view (vdi_set_device v d') = splice a ys (vdi_view v)"
  proof (rule splice_view)
    show "a + length ys \<le> disk_size (vdi_head v)" using assms(9) by (simp add: h_def)
    fix i assume i: "i < disk_size (vdi_head v)"
    let ?f = "entry_of d h (i div bs)" and ?j = "i mod bs"
    have bi: "i div bs < block_count h" using block_in_disk [OF w(2), of i] i by (simp add: h_def bs_def)
    have j: "?j < bs" using x(1) by simp
    have new: "vdi_byte (vdi_set_device v d') i =
        (if entry_of d' h (i div bs) = BLOCK_FREE then parent_byte (vdi_parent v) i
         else if entry_of d' h (i div bs) = BLOCK_ZERO then 0
         else medium_contents d' ! (data_offset h + entry_of d' h (i div bs) * bs + ?j))"
      by (simp add: vdi_byte_top Let_def h_def bs_def)
    have before: "vdi_byte v i = (if ?f = BLOCK_FREE then parent_byte (vdi_parent v) i
        else if ?f = BLOCK_ZERO then 0 else ?c ! (data_offset h + ?f * bs + ?j))"
      by (simp add: vdi_byte_top Let_def h_def bs_def d_def)
    show "vdi_byte (vdi_set_device v d') i = (if a \<le> i \<and> i < a + length ys then ys ! (i - a) else vdi_byte v i)"
    proof (cases "i div bs = b")
      case True
      have f: "?f = e" using True assms(11) by simp
      have "i div bs * bs + ?j = i" "a div bs * bs + a mod bs = a" by simp_all
      then have shift: "i + a mod bs = a + ?j" unfolding True b_def [folded h_def bs_def] by linarith
      have "a mod bs \<le> a" by simp
      then have pos: "(a mod bs \<le> ?j \<and> ?j < a mod bs + length ys) = (a \<le> i \<and> i < a + length ys)"
        "?j - a mod bs = i - a" "a - a mod bs + ?j = i"
        using shift by linarith+
      have "vdi_byte (vdi_set_device v d') i = fresh_byte v e a ys ?j"
        using entries [OF bi] True small(2,3) j outside [of "?at + ?j"] by (simp add: new)
      also have "\<dots> = (if a \<le> i \<and> i < a + length ys then ys ! (i - a)
          else if e = BLOCK_FREE then parent_byte (vdi_parent v) i else 0)"
        unfolding fresh_byte_def Let_def h_def [symmetric] bs_def [symmetric] pos by (rule refl)
      finally show ?thesis using f assms(12) before by (auto simp: in_file_def)
    next
      case False
      then have out: "\<not> (a \<le> i \<and> i < a + length ys)"
        using same_block(1) [OF _ _ assms(10), of i] by (auto simp: b_def h_def bs_def)
      have same: "entry_of d' h (i div bs) = ?f" using entries [OF bi] False by simp
      show ?thesis
      proof (cases "in_file ?f")
        case True
        have "?f * bs + bs \<le> index * bs"
          using mult_le_mono1 [OF Suc_leI [OF old [OF bi True]], of bs] by simp
        then have "medium_contents d' ! (data_offset h + ?f * bs + ?j) = ?c ! (data_offset h + ?f * bs + ?j)"
          using outside [of "data_offset h + ?f * bs + ?j"] j by simp
        then show ?thesis unfolding new before same if_not_P [OF out] by simp
      next
        case False
        then show ?thesis unfolding new before same if_not_P [OF out] by (auto simp: in_file_def)
      qed
    qed
  qed simp
  ultimately show ?thesis by blast
qed

section \<open>The driver refines the disk\<close>

text \<open>The state kept while a write goes on: the parents and the header never change.\<close>

definition vdi_good :: "vdi \<Rightarrow> vdi \<Rightarrow> bool" where
  "vdi_good v0 v \<longleftrightarrow> vdi_wf v \<and> medium_grows (vdi_device v) \<and> vdi_head v = vdi_head v0 \<and>
     vdi_parent v = vdi_parent v0"

lemma vdi_good_set_device:
  "vdi_good v0 v \<Longrightarrow> vdi_wf (vdi_set_device v d) \<Longrightarrow> medium_grows d \<Longrightarrow> vdi_good v0 (vdi_set_device v d)"
  by (simp add: vdi_good_def)

lemma write_block_view:
  assumes "vdi_good v0 v" "ys \<noteq> []" "a + length ys \<le> length (vdi_view v)"
    and "a mod block_size (vdi_head v0) + length ys \<le> block_size (vdi_head v0)"
    and "write_block v a ys = (v', res)"
  shows "vdi_good v0 v' \<and> vdi_view v' = (case res of Inr _ \<Rightarrow> splice a ys (vdi_view v) | Inl _ \<Rightarrow> vdi_view v)"
proof -
  let ?d = "vdi_device v" and ?h = "vdi_head v"
  let ?b = "a div block_size ?h" and ?j = "a mod block_size ?h"
  have v: "vdi_wf v" "medium_grows ?d" "vdi_head v0 = ?h" using assms(1) by (simp_all add: vdi_good_def)
  have fit: "?j + length ys \<le> block_size ?h" "a + length ys \<le> disk_size ?h" using assms(3,4) v(3) by simp_all
  note w = vdi_wfD [OF v(1)]
  have b: "?b < block_count ?h" using written_block [OF w(2) assms(2) fit(2)] .
  note run = assms(5) [unfolded write_block_def Let_def block_map_entry_of [OF w(1,2) b]
      blocks_allocated_of [OF w(1,2)] sum.case]
  let ?e = "entry_of ?d ?h ?b" and ?index = "allocated_of ?d"
  consider "in_file ?e" | "\<not> in_file ?e" "image_type ?h = VdiFixed \<or> ?index \<ge> block_count ?h" |
    "\<not> in_file ?e" "image_type ?h \<noteq> VdiFixed" "?index < block_count ?h" by linarith
  then show ?thesis
  proof cases
    case 1
    have "?e < block_count ?h" using w(3) b 1 by (auto simp: map_ok_def held_def split: if_splits)
    then have at: "data_at ?h ?e = Inr (data_offset ?h + ?e * block_size ?h)" by (simp add: data_at_def)
    obtain d' where d': "medium_write_at ?d (data_offset ?h + ?e * block_size ?h + ?j) ys = (d', Inr ())"
      "medium_grows d'" "medium_contents d' = file_write_all_at (medium_contents ?d)
        (data_offset ?h + ?e * block_size ?h + ?j) ys"
      using growing.grow_law [OF v(2) assms(2)] by blast
    have "(v', res) = (vdi_set_device v d', Inr ())"
      using run 1 at d'(1) by (simp add: in_file_def)
    then show ?thesis
      using write_held_block [OF v(1,2) assms(2) fit(2,1) refl 1 d'(2,3)] vdi_good_set_device [OF assms(1)] d'(2)
      by simp
  next
    case 2
    then have "\<exists>e. (v', res) = (v, Inl e)" using run by (auto simp: in_file_def split: if_splits)
    then show ?thesis using assms(1) by auto
  next
    case 3
    let ?at = "data_offset ?h + ?index * block_size ?h"
    obtain d1 where d1: "seed_block v ?e ?at a ys = (d1, Inr ())" "medium_grows d1"
      "medium_contents d1 = file_write_all_at (medium_contents ?d) ?at (map (fresh_byte v ?e a ys) [0..<block_size ?h])"
      using seed_block_write [OF v(1,2) assms(2) fit(1)] by blast
    have ne: "le_bytes 4 n \<noteq> []" for n
      by (metis length_le_bytes list.size(3) zero_neq_numeral)
    obtain d2 where d2: "medium_write_at d1 (block_map_offset ?h + ?b * 4) (le_bytes 4 ?index) = (d2, Inr ())"
      "medium_grows d2" "medium_contents d2 =
        file_write_all_at (medium_contents d1) (block_map_offset ?h + ?b * 4) (le_bytes 4 ?index)"
      using growing.grow_law [OF d1(2) ne] by blast
    obtain d3 where d3: "medium_write_at d2 BLOCKS_ALLOCATED_AT (le_bytes 4 (?index + 1)) = (d3, Inr ())"
      "medium_grows d3" "medium_contents d3 =
        file_write_all_at (medium_contents d2) BLOCKS_ALLOCATED_AT (le_bytes 4 (?index + 1))"
      using growing.grow_law [OF d2(2) ne] by blast
    have r: "v' = vdi_set_device v d3" "res = Inr ()"
      using run 3 d1(1) d2(1) d3(1) by (auto simp: in_file_def split: if_splits)
    have "vdi_wf (vdi_set_device v d3) \<and> vdi_view (vdi_set_device v d3) = splice a ys (vdi_view v)"
      using d1(3) d2(3) d3(3) by (intro write_fresh_block [OF v(1,2) assms(2) fit(2,1) refl 3 d3(2)]) simp
    then show ?thesis
      unfolding r sum.case using vdi_good_set_device [OF assms(1) _ d3(2)] by blast
  qed
qed

lemma vdi_write_view:
  assumes "vdi_wf v" "medium_grows (vdi_device v)" "off + length xs \<le> disk_size (vdi_head v)"
    and "vdi_write_at v off xs = (v', res)"
  shows "vdi_good v v' \<and> (\<exists>k \<le> length xs. vdi_view v' = splice off (take k xs) (vdi_view v) \<and>
    (res = Inr () \<longrightarrow> k = length xs))"
proof -
  have good: "vdi_good v v" using assms(1,2) by (simp add: vdi_good_def)
  have bs: "0 < block_size (vdi_head v)" using vdi_wfD(2) [OF assms(1)] by (auto simp: extents_ok_def)
  have run: "write_span (block_size (vdi_head v)) write_block v off xs = (v', res)"
    using assms(3,4) by (simp add: vdi_write_at_def)
  have "off + length xs \<le> length (vdi_view v)" using assms(3) by simp
  from write_span_view [where good = "vdi_good v" and view = vdi_view, OF bs good this write_block_view run]
  show ?thesis by blast
qed

text \<open>
  C23: a read of a VDI chain answers the bytes the chain presents: the top image's own blocks, the
  parent's bytes where a block was never allocated, zeroes where it was discarded or the chain
  holds nothing.
\<close>

theorem vdi_read_presents:
  assumes "vdi_wf v" "off + n \<le> disk_size (vdi_head v)"
  shows "vdi_read_at v off n = Inr (slice off n (vdi_view v))"
  using vdi_reader_bytes [OF assms] slice_vdi_view [OF assms(2)] by (simp add: vdi_read_at_def)

text \<open>
  C22: a write to a VDI chain writes the disk it presents. Accepted, the disk presented afterwards is
  the one before with the bytes spliced in, through any mix of held, fresh and discarded blocks;
  refused, only a first part of the bytes has landed. The image stays well formed and the parent
  is never touched.
\<close>

theorem vdi_write_splices:
  assumes "vdi_wf v" "medium_grows (vdi_device v)" "off + length xs \<le> disk_size (vdi_head v)"
    and "vdi_write_at v off xs = (v', res)"
  shows "vdi_wf v' \<and> medium_grows (vdi_device v') \<and> vdi_parent v' = vdi_parent v \<and>
    (case res of
       Inr _ \<Rightarrow> vdi_view v' = splice off xs (vdi_view v)
     | Inl _ \<Rightarrow> \<exists>k \<le> length xs. vdi_view v' = splice off (take k xs) (vdi_view v))"
  using vdi_write_view [OF assms] by (cases res) (auto simp: vdi_good_def)

section \<open>What the gates establish\<close>

lemma vdi_le32_less: "vdi_le32 bs off < 2 ^ 32"
proof -
  have "le_nat (slice off 4 bs) < 256 ^ length (slice off 4 bs)" by (rule le_nat_bound)
  also have "\<dots> \<le> 256 ^ 4" by (rule power_increasing) auto
  finally show ?thesis by (simp add: vdi_le32_def)
qed

lemma vdi_extents_sound:
  assumes "vdi_extents raw len t = Inr ()" "MINIMUM_DECLARED_HEADER \<le> vdi_le32 raw HEADER_SIZE_AT"
    and "block_map_offset h = vdi_le32 raw BLOCK_MAP_OFFSET_AT" "data_offset h = vdi_le32 raw DATA_OFFSET_AT"
    and "disk_size h = vdi_le64 raw DISK_SIZE_AT" "block_size h = vdi_le32 raw BLOCK_SIZE_AT"
    and "block_count h = vdi_le32 raw BLOCK_COUNT_AT"
  shows "extents_ok h len \<and> power_of_two64 (block_size h) \<and> block_size h \<le> MAXIMUM_BLOCK_SIZE \<and>
    vdi_le32 raw BLOCKS_ALLOCATED_AT \<le> block_count h \<and>
    data_offset h + (if t = VdiFixed then block_count h else vdi_le32 raw BLOCKS_ALLOCATED_AT) * block_size h \<le> len"
  using assms vdi_le32_less [of raw DATA_OFFSET_AT]
  by (auto simp: vdi_extents_def Let_def checked64_def extents_ok_def not_less vdi_offsets split: if_splits)

lemma vdi_parse_raw_fields:
  assumes "vdi_parse_raw raw len = Inr h"
  shows "extents_ok h len \<and> power_of_two64 (block_size h) \<and> block_size h \<le> MAXIMUM_BLOCK_SIZE \<and>
    vdi_le32 raw BLOCKS_ALLOCATED_AT \<le> block_count h \<and>
    data_offset h + (if image_type h = VdiFixed then block_count h else vdi_le32 raw BLOCKS_ALLOCATED_AT) *
      block_size h \<le> len \<and>
    (image_type h = VdiDifferencing \<longrightarrow> \<not> uuid_is_nil (parent_id h))"
proof -
  obtain major minor where v: "vdi_version raw = (major, minor)" by fastforce
  obtain t u where t: "type_of_code (vdi_le32 raw IMAGE_TYPE_AT) = Inr t" "vdi_extents raw len t = Inr u"
    "MINIMUM_DECLARED_HEADER \<le> vdi_le32 raw HEADER_SIZE_AT"
    using assms v by (auto simp: vdi_parse_raw_def rbind_Inr_iff not_less split: if_splits)
  then have h: "block_map_offset h = vdi_le32 raw BLOCK_MAP_OFFSET_AT" "data_offset h = vdi_le32 raw DATA_OFFSET_AT"
    "disk_size h = vdi_le64 raw DISK_SIZE_AT" "block_size h = vdi_le32 raw BLOCK_SIZE_AT"
    "block_count h = vdi_le32 raw BLOCK_COUNT_AT" "image_type h = t"
    "\<not> (t = VdiDifferencing \<and> uuid_is_nil (parent_id h))"
    using assms v by (auto simp: vdi_parse_raw_def Let_def split: if_splits)
  have "vdi_extents raw len (image_type h) = Inr ()" using t(2) h(6) by simp
  from vdi_extents_sound [OF this t(3) h(1-5)] show ?thesis using h(6,7) by simp
qed

text \<open>
  What opening a VDI establishes. A header accepted has its block map past the header, its data
  past its map, its map and every block it says it holds inside the file, a block size that is a
  power of two between 512 bytes and 64 MiB, and blocks enough for the disk; a differencing image
  names a parent.
\<close>

theorem vdi_parse_sound:
  assumes "vdi_parse d = Inr h" "medium_delivers d"
  shows "extents_ok h (medium_len d) \<and> power_of_two64 (block_size h) \<and> block_size h \<le> MAXIMUM_BLOCK_SIZE \<and>
    allocated_of d \<le> block_count h \<and> data_offset h + held d h * block_size h \<le> medium_len d \<and>
    (case image_type h of VdiDifferencing \<Rightarrow> \<not> uuid_is_nil (parent_id h) | _ \<Rightarrow> True)"
proof -
  let ?raw = "slice 0 HEADER_READ_BYTES (medium_contents d)"
  have "HEADER_READ_BYTES \<le> medium_len d" using assms(1) by (auto simp: vdi_parse_def split: if_splits)
  then have raw: "vdi_parse_raw ?raw (medium_len d) = Inr h"
    using assms by (simp add: vdi_parse_def container_laws)
  have "vdi_le32 ?raw BLOCKS_ALLOCATED_AT = allocated_of d"
    by (simp add: vdi_le32_def allocated_of_def slice_slice vdi_offsets)
  then show ?thesis
    using vdi_parse_raw_fields [OF raw] by (auto simp: held_def split: vdi_image_type.splits)
qed

section \<open>The members of a chain\<close>

fun chain_ids :: "vdi \<Rightarrow> vdi_uuid list" where
  "chain_ids (Vdi d h parent) = create_id h # (case parent of None \<Rightarrow> [] | Some p \<Rightarrow> chain_ids p)"

text \<open>Every differencing member stands over the image it names, and the last names none.\<close>

fun chain_linked :: "vdi \<Rightarrow> bool" where
  "chain_linked (Vdi d h parent) \<longleftrightarrow>
     (case parent of
        None \<Rightarrow> image_type h \<noteq> VdiDifferencing
      | Some p \<Rightarrow> image_type h = VdiDifferencing \<and> create_id (vdi_head p) = parent_id h \<and> chain_linked p)"

lemma open_member_chain:
  assumes "open_member k fs d p chain = (fs', Inr v)" "length chain < VDI_MAX_CHAIN" "distinct chain"
    and "create_id (vdi_head v) \<notin> set chain"
  shows "chain_linked v \<and> distinct (chain @ chain_ids v) \<and> length (chain @ chain_ids v) \<le> VDI_MAX_CHAIN"
  using assms
proof (induction k fs d p chain arbitrary: fs' v rule: open_member.induct)
  case (1 k fs d path_of chain)
  obtain h where h: "vdi_parse d = Inr h"
    using "1.prems"(1) by (subst (asm) open_member.simps) (auto split: sum.splits)
  show ?case
  proof (cases "image_type h = VdiDifferencing")
    case False
    then have "v = Vdi d h None"
      using "1.prems"(1) h by (subst (asm) open_member.simps) simp
    then show ?thesis using False "1.prems" by simp
  next
    case True
    let ?chain = "chain @ [create_id h]"
    have g: "parent_id h \<notin> set ?chain" "\<not> VDI_MAX_CHAIN \<le> length ?chain"
      using "1.prems"(1) h True by (subst (asm) open_member.simps; auto simp: Let_def split: if_splits)+
    obtain resolved where resolved: "resolve_parent k fs path_of (parent_id h) = Inr resolved"
      using "1.prems"(1) h True g by (subst (asm) open_member.simps) (auto simp: Let_def split: sum.splits)
    have run: "sbind (host_reconcile k fs resolved) (\<lambda>fs1 _.
        case host_open k fs1 resolved of
          Inl e \<Rightarrow> (fs1, Inl e)
        | Inr parent_device \<Rightarrow> sbind (open_member k fs1 parent_device resolved ?chain) (\<lambda>fs2 p.
            if create_id (vdi_head p) \<noteq> parent_id h then (fs2, Inl vdi_invalid)
            else (fs2, Inr (Vdi d h (Some p))))) = (fs', Inr v)"
      using "1.prems"(1) h True g resolved by (subst (asm) open_member.simps) (simp add: Let_def)
    obtain fs1 u where rec: "host_reconcile k fs resolved = (fs1, Inr u)"
      using run by (auto simp: sbind_Inr_iff)
    obtain pd where pd: "host_open k fs1 resolved = Inr pd"
      using run rec by (auto split: sum.splits)
    obtain fs2 p where p: "open_member k fs1 pd resolved ?chain = (fs2, Inr p)"
      "create_id (vdi_head p) = parent_id h" "v = Vdi d h (Some p)"
      using run rec pd by (auto simp: sbind_Inr_iff split: if_splits)
    have "chain_linked p \<and> distinct (?chain @ chain_ids p) \<and> length (?chain @ chain_ids p) \<le> VDI_MAX_CHAIN"
      using "1.prems"(3,4) g p(2,3) True
      by (intro "1.IH" [OF h _ refl _ _ resolved rec pd p(1)]) auto
    then show ?thesis using p(2,3) True by auto
  qed
qed

text \<open>
  C24: the chain opened is the chain named. At most sixteen files, no identity twice, every
  differencing image over the very image whose identity it records, and a self-contained image at
  the end, wherever the search for each parent led and whatever reconciling it changed.
\<close>

theorem opened_chain_is_linked:
  assumes "vdi_open_chain k fs d path_of = (fs', Inr v)"
  shows "chain_linked v \<and> distinct (chain_ids v) \<and> length (chain_ids v) \<le> VDI_MAX_CHAIN"
proof (cases path_of)
  case None
  then have "\<exists>h. v = Vdi d h None \<and> image_type h \<noteq> VdiDifferencing"
    using assms by (auto simp: vdi_open_chain_def vdi_open_unnamed_def rbind_Inr_iff split: if_splits)
  then show ?thesis by (auto simp: VDI_MAX_CHAIN_def)
next
  case (Some p)
  then have "open_member k fs d p [] = (fs', Inr v)" using assms by (simp add: vdi_open_chain_def)
  from open_member_chain [OF this] show ?thesis by (simp add: VDI_MAX_CHAIN_def)
qed

section \<open>A small image\<close>

text \<open>One block of 512 bytes, never allocated, over a file that ends where its map does.\<close>

definition sample_bytes :: bytes where
  "sample_bytes = replicate 64 0 @ le_bytes 4 0xbeda107f @ le_bytes 4 0x10001 @ le_bytes 4 0x180 @
     le_bytes 4 1 @ le_bytes 4 0 @ replicate 256 0 @ le_bytes 4 0x200 @ le_bytes 4 0x204 @
     replicate 20 0 @ le_bytes 8 512 @ le_bytes 4 512 @ le_bytes 4 0 @ le_bytes 4 1 @ le_bytes 4 0 @
     replicate 16 9 @ replicate 104 0 @ le_bytes 4 0xffffffff"

definition sample_header :: vdi_header where
  "sample_header = \<lparr>vh_major = 1, vh_minor = 1, image_type = VdiDynamic, block_map_offset = 0x200,
     data_offset = 0x204, disk_size = 512, block_size = 512, block_count = 1,
     create_id = replicate 16 9, parent_id = replicate 16 0\<rparr>"

definition sample_device :: medium_device where
  "sample_device = medium_open sample_bytes IntentWrite"

lemma slice_append:
  "slice off n (xs @ ys) = slice off n xs @ slice (off - length xs) (n - (length xs - off)) ys"
  by (simp add: slice_def)

lemma slice_replicate: "slice off n (replicate k x) = replicate (min n (k - off)) x"
  by (simp add: slice_def min_def)

lemma slice_whole: "length xs = n \<Longrightarrow> slice 0 n xs = xs"
  by (simp add: slice_def)

lemma slice_past: "length xs \<le> off \<Longrightarrow> slice off n xs = []"
  by (simp add: slice_def)

lemmas sample_slices = sample_bytes_def slice_append slice_replicate slice_whole slice_past

lemma length_sample: "length sample_bytes = 516"
  by (simp add: sample_bytes_def)

lemma sample_fields:
  "slice 0x40 4 sample_bytes = le_bytes 4 0xbeda107f" "slice 0x44 4 sample_bytes = le_bytes 4 0x10001"
  "slice 0x48 4 sample_bytes = le_bytes 4 0x180" "slice 0x4c 4 sample_bytes = le_bytes 4 1"
  "slice 0x50 4 sample_bytes = le_bytes 4 0" "slice 0x154 4 sample_bytes = le_bytes 4 0x200"
  "slice 0x158 4 sample_bytes = le_bytes 4 0x204" "slice 0x170 8 sample_bytes = le_bytes 8 512"
  "slice 0x178 4 sample_bytes = le_bytes 4 512" "slice 0x17c 4 sample_bytes = le_bytes 4 0"
  "slice 0x180 4 sample_bytes = le_bytes 4 1" "slice 0x184 4 sample_bytes = le_bytes 4 0"
  "slice 0x188 16 sample_bytes = replicate 16 9" "slice 0x1a8 16 sample_bytes = replicate 16 0"
  "slice 0x200 4 sample_bytes = le_bytes 4 0xffffffff"
  by (simp_all add: sample_slices)

lemma sample_contents [simp]:
  "medium_contents sample_device = sample_bytes" "medium_len sample_device = 516"
  "medium_grows sample_device" "medium_delivers sample_device"
  by (simp_all add: sample_device_def medium_open_def medium_contents_def medium_grows_def
      medium_delivers_def length_sample)

lemma sample_power: "power_of_two64 512"
proof -
  have "(512 :: nat) = 2 ^ 9" by simp
  then show ?thesis unfolding power_of_two64_def list_ex_iff by (intro bexI [of _ 9]) auto
qed

lemma sample_parse: "vdi_parse sample_device = Inr sample_header"
proof -
  let ?raw = "slice 0 440 sample_bytes"
  have field: "slice off n ?raw = slice off n sample_bytes" if "off + n \<le> 440" for off n
    using that by (simp add: slice_slice)
  have le32: "vdi_le32 ?raw off = le_nat (slice off 4 sample_bytes)" if "off + 4 \<le> 440" for off
    using field [OF that] by (simp add: vdi_le32_def)
  have "vdi_version ?raw = (1, 1)"
    by (simp add: vdi_version_def Let_def le32 vdi_offsets sample_fields)
  moreover have "vdi_extents ?raw 516 VdiDynamic = Inr ()"
    using sample_power
    by (simp add: vdi_extents_def le32 vdi_le64_def field vdi_offsets sample_fields checked64_def
        MAXIMUM_BLOCK_SIZE_def)
  ultimately have "vdi_parse_raw ?raw 516 = Inr sample_header"
    by (simp add: vdi_parse_raw_def field le32 vdi_offsets sample_fields VDI_SIGNATURE_def SUPPORTED_MAJOR_def
        SUPPORTED_MINOR_CEILING_def type_of_code_def uuid_read_def sample_header_def vdi_le64_def)
  then show ?thesis
    by (simp add: vdi_parse_def container_laws HEADER_READ_BYTES_def UUID_LINKAGE_AT_def)
qed

definition sample_vdi :: vdi where
  "sample_vdi = Vdi sample_device sample_header None"

lemma sample_wf: "vdi_wf sample_vdi"
proof -
  have "entry_of sample_device sample_header 0 = BLOCK_FREE" "allocated_of sample_device = 0"
    by (simp_all add: entry_of_def allocated_of_def sample_header_def sample_fields BLOCK_FREE_def BLOCKS_ALLOCATED_AT_def)
  then show ?thesis
    by (simp add: sample_vdi_def extents_ok_def map_ok_def held_def in_file_def)
      (simp add: sample_header_def BLOCKS_ALLOCATED_AT_def)
qed

lemma sample_top [simp]:
  "vdi_device sample_vdi = sample_device" "vdi_head sample_vdi = sample_header" "disk_size sample_header = 512"
  by (simp_all add: sample_vdi_def sample_header_def)

lemma vdi_read_presents_witness: "vdi_read_at sample_vdi 3 9 = Inr (slice 3 9 (vdi_view sample_vdi))"
  by (rule vdi_read_presents [OF sample_wf]) simp

lemma vdi_write_splices_witness:
  fixes v' res
  defines "v' \<equiv> fst (vdi_write_at sample_vdi 3 [7, 8])" and "res \<equiv> snd (vdi_write_at sample_vdi 3 [7, 8])"
  shows "vdi_wf v' \<and> medium_grows (vdi_device v') \<and> vdi_parent v' = vdi_parent sample_vdi \<and>
    (case res of
       Inr _ \<Rightarrow> vdi_view v' = splice 3 [7, 8] (vdi_view sample_vdi)
     | Inl _ \<Rightarrow> \<exists>k \<le> length [7, 8 :: u8]. vdi_view v' = splice 3 (take k [7, 8]) (vdi_view sample_vdi))"
  by (rule vdi_write_splices [OF sample_wf]) (simp_all add: v'_def res_def)

lemma vdi_parse_sound_witness:
  "extents_ok sample_header (medium_len sample_device) \<and> power_of_two64 (block_size sample_header) \<and>
    block_size sample_header \<le> MAXIMUM_BLOCK_SIZE \<and> allocated_of sample_device \<le> block_count sample_header \<and>
    data_offset sample_header + held sample_device sample_header * block_size sample_header \<le> medium_len sample_device \<and>
    (case image_type sample_header of VdiDifferencing \<Rightarrow> \<not> uuid_is_nil (parent_id sample_header) | _ \<Rightarrow> True)"
  by (rule vdi_parse_sound [OF sample_parse]) simp

definition sample_host :: "(nat, string) vdi_host" where
  "sample_host = \<lparr>host_canonical = \<lambda>_. Some, host_here = \<lambda>_. ''/'', host_above = \<lambda>_. None,
     host_join = (@), host_is_file = \<lambda>_ _. False, host_listing = \<lambda>_ _. Some [],
     host_vdi_extension = \<lambda>_. True, host_open = \<lambda>_ _. Inl not_found_error,
     host_reconcile = \<lambda>fs _. (fs, Inr ())\<rparr>"

lemma opened_chain_is_linked_witness:
  "chain_linked sample_vdi \<and> distinct (chain_ids sample_vdi) \<and> length (chain_ids sample_vdi) \<le> VDI_MAX_CHAIN"
proof (rule opened_chain_is_linked)
  show "vdi_open_chain sample_host 0 sample_device (Some ''/disk.vdi'') = (0, Inr sample_vdi)"
    by (simp add: vdi_open_chain_def, subst open_member.simps, simp add: sample_parse sample_vdi_def)
      (simp add: sample_header_def)
qed

end
