(* ===== verification/Wire.thy ===== *)
theory Wire
  imports Errors "HOL-Library.List_Lexorder"
begin

text \<open>
  The byte grammar of a capture's records (\<open>src/crates/remanence/src/flux/capture/wire.rs\<close>), the
  markers it writes (\<open>flux/capture/records.rs\<close>) and the vocabulary of evidence
  (\<open>evidence.rs\<close>). Text is its UTF-8 bytes; a tick is an unsigned 64-bit value.
\<close>

unbundle bit_operations_syntax

section \<open>Evidence\<close>

type_synonym utf8 = bytes
type_synonym tick = nat

text \<open>Well-formed UTF-8, by the table of the Unicode standard: what \<open>str::from_utf8\<close> accepts.\<close>

definition cont_byte :: "u8 \<Rightarrow> bool" where
  "cont_byte b \<longleftrightarrow> 0x80 \<le> b \<and> b \<le> 0xbf"

fun utf8_valid :: "bytes \<Rightarrow> bool" where
  "utf8_valid [] = True"
| "utf8_valid (a # bs) =
     (if a \<le> 0x7f then utf8_valid bs
      else if 0xc2 \<le> a \<and> a \<le> 0xdf then
        (case bs of b # r \<Rightarrow> cont_byte b \<and> utf8_valid r | [] \<Rightarrow> False)
      else if 0xe0 \<le> a \<and> a \<le> 0xef then
        (case bs of
           b # c # r \<Rightarrow>
             (if a = 0xe0 then 0xa0 \<le> b \<and> b \<le> 0xbf
              else if a = 0xed then 0x80 \<le> b \<and> b \<le> 0x9f else cont_byte b) \<and>
             cont_byte c \<and> utf8_valid r
         | _ \<Rightarrow> False)
      else if 0xf0 \<le> a \<and> a \<le> 0xf4 then
        (case bs of
           b # c # d # r \<Rightarrow>
             (if a = 0xf0 then 0x90 \<le> b \<and> b \<le> 0xbf
              else if a = 0xf4 then 0x80 \<le> b \<and> b \<le> 0x8f else cont_byte b) \<and>
             cont_byte c \<and> cont_byte d \<and> utf8_valid r
         | _ \<Rightarrow> False)
      else False)"

record provenance =
  prov_source :: utf8
  prov_notes :: "utf8 list"

definition provenance_new :: "utf8 \<Rightarrow> provenance" where
  "provenance_new s = \<lparr>prov_source = s, prov_notes = []\<rparr>"

definition provenance_note :: "provenance \<Rightarrow> utf8 \<Rightarrow> provenance" where
  "provenance_note p n = p\<lparr>prov_notes := prov_notes p @ [n]\<rparr>"

record declared_loss =
  loss_code :: utf8
  loss_detail :: utf8
  loss_count :: nat

fun loss_add :: "declared_loss list \<Rightarrow> utf8 \<Rightarrow> utf8 \<Rightarrow> nat \<Rightarrow> declared_loss list" where
  "loss_add [] code detail n = [\<lparr>loss_code = code, loss_detail = detail, loss_count = n\<rparr>]"
| "loss_add (e # es) code detail n =
     (if loss_code e = code then e\<lparr>loss_count := loss_count e + n\<rparr> # es
      else e # loss_add es code detail n)"

definition loss_entries :: "declared_loss list \<Rightarrow> declared_loss list" where
  "loss_entries es = sort_key loss_code es"

section \<open>Time and markers\<close>

record time_base =
  tb_numerator :: nat
  tb_denominator :: nat

definition time_base_new :: "string \<Rightarrow> nat \<Rightarrow> nat \<Rightarrow> time_base result" where
  "time_base_new src n d =
     (if n = 0 \<or> d = 0 then Inl (invalid_image src)
      else Inr \<lparr>tb_numerator = n, tb_denominator = d\<rparr>)"

text \<open>The products are taken in 128 bits, which hold them.\<close>

definition same_rate_as :: "time_base \<Rightarrow> time_base \<Rightarrow> bool" where
  "same_rate_as a b \<longleftrightarrow> tb_numerator a * tb_denominator b = tb_numerator b * tb_denominator a"

datatype marker_kind = Index | HardSector | WriteSplice | SourceMarker utf8 nat

record marker =
  mk_position :: tick
  mk_kind :: marker_kind
  mk_payload :: bytes
  mk_provenance :: provenance

definition marker_new :: "tick \<Rightarrow> marker_kind \<Rightarrow> provenance \<Rightarrow> marker" where
  "marker_new at k p = \<lparr>mk_position = at, mk_kind = k, mk_payload = [], mk_provenance = p\<rparr>"

definition with_payload :: "marker \<Rightarrow> bytes \<Rightarrow> marker" where
  "with_payload m bs = m\<lparr>mk_payload := bs\<rparr>"

section \<open>Values and text\<close>

definition MAX_VARINT_BYTES :: nat where "MAX_VARINT_BYTES = 10"

function write_varint :: "nat \<Rightarrow> bytes" where
  "write_varint v =
     (if v \<ge> 0x80 then (word_of_nat v OR 0x80) # write_varint (drop_bit 7 v)
      else [word_of_nat v])"
  by pat_completeness auto
termination
  by (relation "measure id") (auto simp: drop_bit_eq_div)

declare write_varint.simps [simp del]

definition U64_MAX :: nat where "U64_MAX = 2 ^ 64 - 1"

function read_varint_from :: "string \<Rightarrow> bytes \<Rightarrow> nat \<Rightarrow> nat \<Rightarrow> nat \<Rightarrow> (nat \<times> nat) result" where
  "read_varint_from src bs at used val =
     (if at + used \<ge> length bs then Inl (invalid_image src)
      else if used \<ge> MAX_VARINT_BYTES then Inl (invalid_image src)
      else let byte = bs ! (at + used); grp = unat (byte AND 0x7f); shift = 7 * used
           in if shift \<ge> 64 \<or> grp > drop_bit shift U64_MAX then Inl (invalid_image src)
              else let val1 = val OR push_bit shift grp
                   in if byte AND 0x80 = 0 then Inr (val1, used + 1)
                      else read_varint_from src bs at (used + 1) val1)"
  by pat_completeness auto
termination
  by (relation "measure (\<lambda>(_, _, _, used, _). MAX_VARINT_BYTES - used)") auto

declare read_varint_from.simps [simp del]

definition read_varint :: "string \<Rightarrow> bytes \<Rightarrow> nat \<Rightarrow> (nat \<times> nat) result" where
  "read_varint src bs at = read_varint_from src bs at 0 0"

lemma read_varint_from_used: "read_varint_from src bs at used val = Inr (v, n) \<Longrightarrow> used < n"
proof (induction src bs at used val rule: read_varint_from.induct)
  case (1 src bs at used val)
  then show ?case
    by (subst (asm) read_varint_from.simps) (fastforce simp: Let_def split: if_splits)
qed

lemma read_varint_used: "read_varint src bs at = Inr (v, n) \<Longrightarrow> 0 < n"
  unfolding read_varint_def by (rule read_varint_from_used)

definition write_text :: "utf8 \<Rightarrow> bytes" where
  "write_text s = write_varint (length s) @ s"

text \<open>\<open>bytes.get(at..at + length)\<close>.\<close>

definition get_range :: "bytes \<Rightarrow> nat \<Rightarrow> nat \<Rightarrow> bytes option" where
  "get_range bs at n = (if at + n \<le> length bs then Some (slice at n bs) else None)"

definition read_text :: "string \<Rightarrow> bytes \<Rightarrow> nat \<Rightarrow> (utf8 \<times> nat) result" where
  "read_text src bs at =
     rbind (read_varint src bs at) (\<lambda>(len, used).
       case get_range bs (at + used) len of
         None \<Rightarrow> Inl (invalid_image src)
       | Some raw \<Rightarrow> if utf8_valid raw then Inr (raw, used + len) else Inl (invalid_image src))"

section \<open>Transition chunks\<close>

definition CAPTURE :: string where "CAPTURE = ''flux-capture''"

fun encode_from :: "tick \<Rightarrow> tick list \<Rightarrow> bytes result" where
  "encode_from previous [] = Inr []"
| "encode_from previous (p # ps) =
     (if p < previous then Inl (invalid_image CAPTURE)
      else rbind (encode_from p ps) (\<lambda>out. Inr (write_varint (p - previous) @ out)))"

definition encode_transitions :: "tick list \<Rightarrow> bytes result" where
  "encode_transitions ts = encode_from 0 ts"

function decode_from_tick :: "bytes \<Rightarrow> nat \<Rightarrow> tick \<Rightarrow> tick list result" where
  "decode_from_tick bs at position =
     (if at \<ge> length bs then Inr []
      else case read_varint CAPTURE bs at of
             Inl e \<Rightarrow> Inl e
           | Inr (delta, used) \<Rightarrow>
               if position + delta > U64_MAX then Inl (invalid_image CAPTURE)
               else rbind (decode_from_tick bs (at + used) (position + delta))
                      (\<lambda>ts. Inr ((position + delta) # ts)))"
  by pat_completeness auto
termination
  by (relation "measure (\<lambda>(bs, at, _). length bs - at)") (auto dest: read_varint_used)

declare decode_from_tick.simps [simp del]

definition decode_transitions :: "bytes \<Rightarrow> tick list result" where
  "decode_transitions bs = decode_from_tick bs 0 0"

record chunk =
  ck_ordinal :: nat
  ck_low :: tick
  ck_high :: tick
  ck_count :: nat
  ck_payload :: bytes

definition transition_chunk :: "nat \<times> tick list \<Rightarrow> chunk result" where
  "transition_chunk = (\<lambda>(ordinal, run).
     rbind (encode_transitions run) (\<lambda>payload.
       Inr \<lparr>ck_ordinal = ordinal, ck_low = hd run, ck_high = last run, ck_count = length run,
            ck_payload = payload\<rparr>))"

definition split_transitions :: "tick list \<Rightarrow> nat \<Rightarrow> chunk list result" where
  "split_transitions ts records =
     (if records = 0 then Inl (invalid_image CAPTURE)
      else let runs = chunks_of records ts
           in rmap transition_chunk (zip [0..<length runs] runs))"

section \<open>Marker chunks\<close>

fun kind_bytes :: "marker_kind \<Rightarrow> bytes" where
  "kind_bytes Index = write_varint 0"
| "kind_bytes HardSector = write_varint 1"
| "kind_bytes WriteSplice = write_varint 2"
| "kind_bytes (SourceMarker ns code) =
     write_varint 3 @ write_varint (length ns) @ ns @ write_varint code"

definition marker_bytes :: "marker \<Rightarrow> bytes" where
  "marker_bytes m =
     write_varint (mk_position m) @ kind_bytes (mk_kind m) @
     write_varint (length (mk_payload m)) @ mk_payload m @
     write_text (prov_source (mk_provenance m)) @
     write_varint (length (prov_notes (mk_provenance m))) @
     concat (map write_text (prov_notes (mk_provenance m)))"

definition encode_markers :: "marker list \<Rightarrow> bytes" where
  "encode_markers ms = concat (map marker_bytes ms)"

definition read_kind :: "string \<Rightarrow> bytes \<Rightarrow> nat \<Rightarrow> (marker_kind \<times> nat) result" where
  "read_kind src bs at =
     rbind (read_varint src bs at) (\<lambda>(tag, used).
       if tag = 0 then Inr (Index, at + used)
       else if tag = 1 then Inr (HardSector, at + used)
       else if tag = 2 then Inr (WriteSplice, at + used)
       else if tag = 3 then
         rbind (read_text src bs (at + used)) (\<lambda>(ns, used1).
         rbind (read_varint src bs (at + used + used1)) (\<lambda>(code, used2).
           if code \<ge> 2 ^ 32 then Inl (invalid_image src)
           else Inr (SourceMarker ns code, at + used + used1 + used2)))
       else Inl (invalid_image src))"

fun read_notes :: "string \<Rightarrow> bytes \<Rightarrow> nat \<Rightarrow> nat \<Rightarrow> provenance \<Rightarrow> (provenance \<times> nat) result" where
  "read_notes src bs at 0 p = Inr (p, at)"
| "read_notes src bs at (Suc n) p =
     rbind (read_text src bs at) (\<lambda>(note, used).
       read_notes src bs (at + used) n (provenance_note p note))"

text \<open>One record of a marker chunk, and where the next begins.\<close>

definition read_marker :: "string \<Rightarrow> bytes \<Rightarrow> utf8 list \<Rightarrow> nat \<Rightarrow> (marker \<times> nat) result" where
  "read_marker src bs known at =
     rbind (read_varint src bs at) (\<lambda>(position, used).
     rbind (read_kind src bs (at + used)) (\<lambda>(kind, at1).
     rbind (read_varint src bs at1) (\<lambda>(len, used1).
     case get_range bs (at1 + used1) len of
       None \<Rightarrow> Inl (invalid_image src)
     | Some payload \<Rightarrow>
         rbind (read_text src bs (at1 + used1 + len)) (\<lambda>(spelling, used2).
         if spelling \<notin> set known then Inl (invalid_image src)
         else rbind (read_varint src bs (at1 + used1 + len + used2)) (\<lambda>(n, used3).
              rbind (read_notes src bs (at1 + used1 + len + used2 + used3) n (provenance_new spelling))
                (\<lambda>(p, at2).
                  Inr (\<lparr>mk_position = position, mk_kind = kind, mk_payload = payload,
                         mk_provenance = p\<rparr>, at2)))))))"

lemma read_text_used: "read_text src bs at = Inr (t, n) \<Longrightarrow> 0 < n"
  by (auto simp: read_text_def rbind_Inr_iff split: option.splits if_splits dest: read_varint_used)

lemma read_kind_later: "read_kind src bs at = Inr (k, at') \<Longrightarrow> at < at'"
  by (auto simp: read_kind_def rbind_Inr_iff split: if_splits dest!: read_varint_used)

lemma read_notes_later: "read_notes src bs at n p = Inr (p', at') \<Longrightarrow> at \<le> at'"
  by (induction src bs at n p rule: read_notes.induct) (fastforce simp: rbind_Inr_iff)+

lemma read_marker_later: "read_marker src bs known at = Inr (m, at') \<Longrightarrow> at < at'"
  by (auto simp: read_marker_def rbind_Inr_iff split: option.splits if_splits
      dest!: read_varint_used read_kind_later read_notes_later)

function decode_markers_from :: "string \<Rightarrow> bytes \<Rightarrow> utf8 list \<Rightarrow> nat \<Rightarrow> marker list result" where
  "decode_markers_from src bs known at =
     (if at \<ge> length bs then Inr []
      else case read_marker src bs known at of
             Inl e \<Rightarrow> Inl e
           | Inr (m, at') \<Rightarrow> rbind (decode_markers_from src bs known at') (\<lambda>ms. Inr (m # ms)))"
  by pat_completeness auto
termination
  by (relation "measure (\<lambda>(_, bs, _, at). length bs - at)")
    (auto dest: read_marker_later)

declare decode_markers_from.simps [simp del]

definition decode_markers :: "string \<Rightarrow> bytes \<Rightarrow> utf8 list \<Rightarrow> marker list result" where
  "decode_markers src bs known = decode_markers_from src bs known 0"

definition marker_chunk :: "nat \<times> marker list \<Rightarrow> chunk" where
  "marker_chunk = (\<lambda>(ordinal, run).
     \<lparr>ck_ordinal = ordinal, ck_low = Min (mk_position ` set run), ck_high = Max (mk_position ` set run),
      ck_count = length run, ck_payload = encode_markers run\<rparr>)"

definition split_markers :: "marker list \<Rightarrow> nat \<Rightarrow> chunk list" where
  "split_markers ms records =
     (let runs = chunks_of (max records 1) ms in map marker_chunk (zip [0..<length runs] runs))"

end
