(* ===== verification/Wire_Proofs.thy ===== *)
theory Wire_Proofs
  imports Wire
begin

text \<open>
  Reading is the inverse of writing: values, text, transition chunks and marker chunks read back as
  they were written, whatever stands around them; splitting into chunks loses and reorders nothing.
\<close>

unbundle bit_operations_syntax

section \<open>Values\<close>

lemma or_push_bit:
  assumes "val < 2 ^ s"
  shows "val OR push_bit s g = val + (2 :: nat) ^ s * g"
proof -
  have "\<not> bit val n \<or> \<not> bit (push_bit s g) n" for n
    using assms take_bit_nat_eq_self [of val s] by (metis bit_push_bit_iff bit_take_bit_iff not_less)
  then have "val + push_bit s g = val OR push_bit s g" by (intro disjunctive_add) blast
  then show ?thesis by (simp add: push_bit_eq_mult mult.commute)
qed

lemma varint_byte:
  fixes v :: nat
  defines "last_byte \<equiv> (word_of_nat v :: u8)" and "more_byte \<equiv> (word_of_nat v OR 0x80 :: u8)"
  shows "unat (more_byte AND 0x7f) = v mod 128" "more_byte AND 0x80 \<noteq> 0"
    and "v < 128 \<Longrightarrow> unat (last_byte AND 0x7f) = v" "v < 128 \<Longrightarrow> last_byte AND 0x80 = 0"
proof -
  have low: "unat (w AND 0x7f) = take_bit 7 (unat w)" for w :: u8
  proof -
    have "w AND 0x7f = take_bit 7 w" by (simp add: take_bit_eq_mask mask_eq_exp_minus_1)
    then show ?thesis by (simp add: unsigned_take_bit_eq)
  qed
  have "more_byte AND 0x7f = last_byte AND 0x7f"
    unfolding more_byte_def last_byte_def by (simp add: bit.conj_disj_distrib2)
  then show "unat (more_byte AND 0x7f) = v mod 128"
    by (simp only: low last_byte_def unsigned_of_nat take_bit_take_bit) (simp add: take_bit_eq_mod mod_mod_cancel)
  have "more_byte AND 0x80 = 0x80" unfolding more_byte_def by (simp add: bit.conj_disj_distrib2)
  then show "more_byte AND 0x80 \<noteq> 0" by simp
  assume v: "v < 128"
  then show "unat (last_byte AND 0x7f) = v"
    unfolding low by (simp add: last_byte_def unsigned_of_nat take_bit_nat_eq_self)
  have u: "unat last_byte = v" using v by (simp add: last_byte_def unsigned_of_nat take_bit_nat_eq_self)
  have "bit last_byte 7 = bit (unat last_byte) 7" by (simp add: bit_unsigned_iff)
  also have "\<dots> = odd (v div 128)" unfolding u by (simp add: bit_iff_odd)
  finally have "\<not> bit last_byte 7" using v by simp
  then show "last_byte AND 0x80 = 0" using and_exp_eq_0_iff_not_bit [of last_byte 7] by simp
qed

lemma pred_div: "0 < p \<Longrightarrow> 0 < q \<Longrightarrow> (p * q - 1) div p = q - (1 :: nat)"
proof (rule div_nat_eqI)
  assume "0 < p" "0 < q"
  then show "p * (q - 1) \<le> p * q - 1" "p * q - 1 < p * Suc (q - 1)"
    by (simp_all add: diff_mult_distrib2 Suc_le_eq)
qed

lemma read_varint_from_write:
  assumes "v < 2 ^ (64 - 7 * used)" "used \<le> 9" "val < 2 ^ (7 * used)"
    and "drop (at + used) bs = write_varint v @ post"
  shows "read_varint_from src bs at used val = Inr (val + 2 ^ (7 * used) * v, used + length (write_varint v))"
  using assms
proof (induction v arbitrary: used val rule: less_induct)
  case (less v)
  let ?s = "7 * used" and ?g = "v mod 128"
  obtain b r where w: "write_varint v = b # r" by (cases "write_varint v") (use write_varint.simps [of v] in \<open>auto split: if_splits\<close>)
  have at: "at + used < length bs" "bs ! (at + used) = b"
    using less.prems(4) w by (metis append_Cons drop_all list.distinct(1) not_le, metis append_Cons nth_via_drop)
  have "?g \<le> v" by simp
  moreover have "drop_bit ?s U64_MAX = 2 ^ (64 - ?s) - 1"
  proof -
    have "(2 :: nat) ^ 64 = 2 ^ ?s * 2 ^ (64 - ?s)" using less.prems(2) by (simp flip: power_add)
    then show ?thesis unfolding U64_MAX_def drop_bit_eq_div by (simp only: pred_div zero_less_power zero_less_numeral)
  qed
  ultimately have fits: "\<not> (64 \<le> ?s \<or> ?g > drop_bit ?s U64_MAX)" using less.prems(1,2) by simp
  have val: "val OR push_bit ?s ?g = val + 2 ^ ?s * ?g" using or_push_bit [OF less.prems(3)] .
  show ?case
  proof (cases "v < 128")
    case True
    then have b: "b = word_of_nat v" "r = []" using w by (subst (asm) write_varint.simps; simp)+
    then show ?thesis
      using at fits val True varint_byte(3,4) [OF True] w less.prems(2)
      by (subst read_varint_from.simps) (simp add: MAX_VARINT_BYTES_def Let_def)
  next
    case False
    then have b: "b = word_of_nat v OR 0x80" "r = write_varint (v div 128)"
      using w by (subst (asm) write_varint.simps; simp add: drop_bit_eq_div)+
    have e: "64 - ?s = 7 + (64 - 7 * (used + 1))" if "used \<le> 8" using that by simp
    have u: "used \<le> 8"
    proof (rule ccontr)
      assume "\<not> used \<le> 8"
      then have "used = 9" using less.prems(2) by simp
      then show False using less.prems(1) False by simp
    qed
    have "v div 128 < 2 ^ (64 - 7 * (used + 1))"
      using less.prems(1) unfolding e [OF u] power_add by (simp add: less_mult_imp_div_less mult.commute)
    moreover have "val + 2 ^ ?s * ?g < 2 ^ (7 * (used + 1))"
    proof -
      have "val + 2 ^ ?s * ?g < 2 ^ ?s * (?g + 1)" using less.prems(3) by (simp add: algebra_simps)
      also have "\<dots> \<le> 2 ^ ?s * 2 ^ 7" by (intro mult_le_mono2) (simp add: Suc_leI)
      also have "\<dots> = 2 ^ (7 * (used + 1))" by (simp add: power_add mult.commute)
      finally show ?thesis .
    qed
    moreover have "drop (at + (used + 1)) bs = write_varint (v div 128) @ post"
      using less.prems(4) w b(2) by (metis add.assoc append_Cons drop_drop drop_Suc_Cons Suc_eq_plus1 add.commute drop0 list.sel(3) drop_Suc)
    ultimately have "read_varint_from src bs at (used + 1) (val + 2 ^ ?s * ?g) =
        Inr (val + 2 ^ ?s * ?g + 2 ^ (7 * (used + 1)) * (v div 128), used + 1 + length (write_varint (v div 128)))"
      using less.IH [of "v div 128" "used + 1" "val + 2 ^ ?s * ?g"] u False by simp
    moreover have "val + 2 ^ ?s * ?g + 2 ^ (7 * (used + 1)) * (v div 128) = val + 2 ^ ?s * v"
    proof -
      have "2 ^ (7 * (used + 1)) * (v div 128) = (2 :: nat) ^ ?s * (128 * (v div 128))"
        by (simp add: power_add)
      moreover have "P * v = P * (128 * (v div 128)) + P * ?g" for P :: nat
        by (metis add_mult_distrib2 mult_div_mod_eq)
      ultimately show ?thesis by simp
    qed
    moreover have "read_varint_from src bs at used val = read_varint_from src bs at (used + 1) (val + 2 ^ ?s * ?g)"
      using at fits val b varint_byte(1,2) [of v] u
      by (subst read_varint_from.simps) (simp add: MAX_VARINT_BYTES_def Let_def)
    ultimately show ?thesis using w b(2) by simp
  qed
qed

lemma read_varint_write:
  assumes "v \<le> U64_MAX" "drop at bs = write_varint v @ post"
  shows "read_varint src bs at = Inr (v, length (write_varint v))"
  using read_varint_from_write [of v 0 0 "at" bs post src] assms
  by (simp add: read_varint_def U64_MAX_def)

section \<open>Text\<close>

lemma get_range_drop:
  "drop at bs = xs @ ys \<Longrightarrow> at \<le> length bs \<Longrightarrow> get_range bs at (length xs) = Some xs"
  unfolding get_range_def slice_def
  by (metis (no_types) add_le_cancel_left append_eq_conv_conj diff_add_inverse le_add1 le_add_diff_inverse
      length_append length_drop)

lemma drop_later: "drop at bs = xs @ ys \<Longrightarrow> drop (at + length xs) bs = ys"
  by (metis add.commute append_eq_conv_conj drop_drop)

definition text_ok :: "utf8 \<Rightarrow> bool" where
  "text_ok s \<longleftrightarrow> utf8_valid s \<and> length s \<le> U64_MAX"

lemma write_varint_nonempty [simp]: "write_varint v \<noteq> []"
  by (subst write_varint.simps) simp

lemma drop_inside: "drop at bs = xs @ ys \<Longrightarrow> xs \<noteq> [] \<Longrightarrow> at < length bs"
  by (metis append_is_Nil_conv drop_all not_le)

lemma read_text_write:
  assumes "text_ok s" "drop at bs = write_text s @ post"
  shows "read_text src bs at = Inr (s, length (write_text s))"
proof -
  have d: "drop at bs = write_varint (length s) @ s @ post" using assms(2) by (simp add: write_text_def)
  note v = read_varint_write [OF _ d]
  have "at + length (write_varint (length s)) \<le> length bs"
    using arg_cong [OF d, of length] drop_inside [OF d] by simp
  then have "get_range bs (at + length (write_varint (length s))) (length s) = Some s"
    using get_range_drop [OF drop_later [OF d]] by blast
  then show ?thesis
    using v assms(1) by (simp add: read_text_def text_ok_def write_text_def)
qed

section \<open>Transitions\<close>

lemma encode_from_Inr:
  "encode_from p ts = Inr out \<Longrightarrow> sorted (p # ts)"
  by (induction p ts arbitrary: out rule: encode_from.induct) (auto simp: rbind_Inr_iff not_less split: if_splits intro: order_trans)

lemma encode_from_ok: "sorted (p # ts) \<Longrightarrow> \<exists>out. encode_from p ts = Inr out"
  by (induction p ts rule: encode_from.induct) auto

lemma decode_encode_from:
  "encode_from p ts = Inr out \<Longrightarrow> set ts \<subseteq> {..U64_MAX} \<Longrightarrow> at \<le> length bs \<Longrightarrow> drop at bs = out \<Longrightarrow>
    decode_from_tick bs at p = Inr ts"
proof (induction p ts arbitrary: out "at" rule: encode_from.induct)
  case (1 p)
  then show ?case by (subst decode_from_tick.simps) simp
next
  case (2 p t ts)
  have t: "p \<le> t" "t \<le> U64_MAX" using 2(2,3) by (auto split: if_splits)
  obtain rest_out where r: "encode_from t ts = Inr rest_out" "out = write_varint (t - p) @ rest_out"
    using 2(2) t by (auto simp: rbind_Inr_iff not_less)
  have d: "drop at bs = write_varint (t - p) @ rest_out" using 2(5) r(2) by simp
  have v: "read_varint CAPTURE bs at = Inr (t - p, length (write_varint (t - p)))"
    using read_varint_write [OF _ d] t by simp
  have "at < length bs" using drop_inside [OF d] by simp
  moreover have "at + length (write_varint (t - p)) \<le> length bs"
    using arg_cong [OF d, of length] calculation by simp
  then have "decode_from_tick bs (at + length (write_varint (t - p))) t = Inr ts"
    using 2(1) [OF _ r(1)] t 2(3) drop_later [OF d] by simp
  ultimately show ?case using v t by (subst decode_from_tick.simps) simp
qed

lemma decode_encode_transitions:
  "encode_transitions ts = Inr out \<Longrightarrow> set ts \<subseteq> {..U64_MAX} \<Longrightarrow> decode_transitions out = Inr ts"
  unfolding encode_transitions_def decode_transitions_def by (rule decode_encode_from) simp_all

lemma encode_from_lower: "encode_from p ts = Inr out \<Longrightarrow> t \<in> set ts \<Longrightarrow> p \<le> t"
  by (auto dest!: encode_from_Inr)

lemma encode_transitions_ok_iff: "(\<exists>out. encode_transitions ts = Inr out) \<longleftrightarrow> sorted ts"
  unfolding encode_transitions_def using encode_from_ok [of 0 ts] encode_from_Inr [of 0 ts] by auto

lemma sorted_parts: "sorted (concat xss) \<Longrightarrow> xs \<in> set xss \<Longrightarrow> sorted xs"
  by (induction xss) (auto simp: sorted_append)

lemma sorted_ends: "sorted xs \<Longrightarrow> xs \<noteq> [] \<Longrightarrow> hd xs = Min (set xs) \<and> last xs = Max (set xs)"
  for xs :: "nat list"
proof
  assume "sorted xs" "xs \<noteq> []"
  then show "hd xs = Min (set xs)" by (cases xs) (auto intro!: Min_eqI [symmetric])
  show "last xs = Max (set xs)"
  proof (rule Max_eqI [symmetric])
    show "y \<le> last xs" if "y \<in> set xs" for y
    proof -
      have "sorted (butlast xs @ [last xs])" using \<open>sorted xs\<close> \<open>xs \<noteq> []\<close> by simp
      moreover have "y \<in> set (butlast xs @ [last xs])" using that \<open>xs \<noteq> []\<close> by simp
      ultimately show ?thesis unfolding sorted_append by auto
    qed
  qed (use \<open>xs \<noteq> []\<close> in simp_all)
qed

lemma transition_chunk_Inr:
  "transition_chunk (k, run) = Inr c \<longleftrightarrow>
    encode_transitions run = Inr (ck_payload c) \<and> ck_ordinal c = k \<and> ck_low c = hd run \<and>
    ck_high c = last run \<and> ck_count c = length run"
  by (cases c) (auto simp: transition_chunk_def rbind_Inr_iff)

text \<open>
  C25: an ascending observation splits into chunks that decode, each on its own, to runs whose
  concatenation is the observation; the chunks are numbered in order, hold at most the stated number
  of records and never none, and state the least and greatest tick they hold.
\<close>
theorem split_transitions_round_trip:
  assumes "0 < n" "sorted ts" "set ts \<subseteq> {..U64_MAX}"
  shows "\<exists>cs runs. split_transitions ts n = Inr cs \<and>
    rmap (\<lambda>c. decode_transitions (ck_payload c)) cs = Inr runs \<and> concat runs = ts \<and>
    map ck_ordinal cs = [0..<length cs] \<and>
    list_all2 (\<lambda>c run. ck_low c = Min (set run) \<and> ck_high c = Max (set run) \<and>
      ck_count c = length run \<and> 0 < length run \<and> length run \<le> n) cs runs"
proof -
  let ?runs = "chunks_of n ts" and ?xs = "zip [0..<length (chunks_of n ts)] (chunks_of n ts)"
  have c: "concat ?runs = ts" by (rule concat_chunks [OF assms(1)])
  have run: "sorted r" "set r \<subseteq> {..U64_MAX}" "0 < length r" "length r \<le> n" if "r \<in> set ?runs" for r
    using sorted_parts [of ?runs r] c that assms(2,3) chunks_of_length [OF that] set_concat [of ?runs]
    by (auto simp del: set_concat)
  have "\<forall>x \<in> set ?xs. \<exists>y. transition_chunk x = Inr y"
  proof
    fix x assume x: "x \<in> set ?xs"
    obtain k r where kr: "x = (k, r)" by (cases x)
    then have "sorted r" using run(1) set_zip_rightD [of k r] x by blast
    then obtain out where "encode_transitions r = Inr out" using encode_transitions_ok_iff by blast
    then show "\<exists>y. transition_chunk x = Inr y" unfolding kr by (simp add: transition_chunk_def)
  qed
  then obtain cs where cs: "rmap transition_chunk ?xs = Inr cs" using rmap_ok_iff by blast
  then have l: "list_all2 (\<lambda>x c. transition_chunk x = Inr c) ?xs cs" unfolding rmap_Inr_iff .
  then have len: "length cs = length ?runs" by (auto dest: list_all2_lengthD)
  have at: "transition_chunk (k, ?runs ! k) = Inr (cs ! k)" if "k < length cs" for k
    using list_all2_nthD2 [OF l that] that len by simp
  have "rmap (\<lambda>c. decode_transitions (ck_payload c)) cs = Inr ?runs"
    unfolding rmap_Inr_iff list_all2_conv_all_nth
    using at len decode_encode_transitions run(2) by (simp add: transition_chunk_Inr)
  moreover have "map ck_ordinal cs = [0..<length cs]"
    by (rule nth_equalityI) (use at in \<open>simp_all add: transition_chunk_Inr\<close>)
  moreover have "list_all2 (\<lambda>c run. ck_low c = Min (set run) \<and> ck_high c = Max (set run) \<and>
      ck_count c = length run \<and> 0 < length run \<and> length run \<le> n) cs ?runs"
    unfolding list_all2_conv_all_nth
  proof (intro conjI allI impI)
    fix k assume "k < length cs"
    then have c: "transition_chunk (k, ?runs ! k) = Inr (cs ! k)" and r: "?runs ! k \<in> set ?runs"
      using at len by simp_all
    show "ck_low (cs ! k) = Min (set (?runs ! k))" "ck_high (cs ! k) = Max (set (?runs ! k))"
    proof -
      have ne: "?runs ! k \<noteq> []" using run(3) [OF r] by simp
      note e = sorted_ends [OF run(1) [OF r] ne]
      show "ck_low (cs ! k) = Min (set (?runs ! k))"
        using c conjunct1 [OF e] unfolding transition_chunk_Inr by (elim conjE) (rule trans)
      show "ck_high (cs ! k) = Max (set (?runs ! k))"
        using c conjunct2 [OF e] unfolding transition_chunk_Inr by (elim conjE) (rule trans)
    qed
    show "ck_count (cs ! k) = length (?runs ! k)" using c by (simp add: transition_chunk_Inr)
    show "0 < length (?runs ! k)" "length (?runs ! k) \<le> n" using run(3,4) [OF r] .
  qed (rule len)
  ultimately show ?thesis
    using cs c assms(1) unfolding split_transitions_def Let_def by auto
qed

section \<open>Markers\<close>

fun kind_ok :: "marker_kind \<Rightarrow> bool" where
  "kind_ok (SourceMarker ns code) = (text_ok ns \<and> code < 2 ^ 32)"
| "kind_ok _ = True"

text \<open>A marker the recorder can hold: 64-bit positions and lengths, text that is text, and evidence
  under a name the reader knows.\<close>

definition marker_ok :: "utf8 list \<Rightarrow> marker \<Rightarrow> bool" where
  "marker_ok known m \<longleftrightarrow>
     mk_position m \<le> U64_MAX \<and> kind_ok (mk_kind m) \<and> length (mk_payload m) \<le> U64_MAX \<and>
     text_ok (prov_source (mk_provenance m)) \<and> prov_source (mk_provenance m) \<in> set known \<and>
     length (prov_notes (mk_provenance m)) \<le> U64_MAX \<and> list_all text_ok (prov_notes (mk_provenance m))"

lemma read_kind_write:
  assumes "kind_ok k" "drop at bs = kind_bytes k @ post"
  shows "read_kind src bs at = Inr (k, at + length (kind_bytes k))"
proof (cases k)
  case (SourceMarker ns code)
  have d: "drop at bs = write_varint 3 @ write_text ns @ write_varint code @ post"
    using assms(2) SourceMarker by (simp add: write_text_def)
  have ok: "text_ok ns" "code < 2 ^ 32" using assms(1) SourceMarker by simp_all
  have v: "read_varint src bs at = Inr (3, length (write_varint 3))"
    by (rule read_varint_write [OF _ d]) (simp add: U64_MAX_def)
  note d1 = drop_later [OF d]
  note t = read_text_write [OF ok(1) d1]
  have "read_varint src bs (at + length (write_varint 3) + length (write_text ns)) =
      Inr (code, length (write_varint code))"
    by (rule read_varint_write [OF _ drop_later [OF d1]]) (use ok(2) in \<open>simp add: U64_MAX_def\<close>)
  then show ?thesis using v t ok SourceMarker by (simp add: read_kind_def write_text_def add.assoc)
qed (use assms(2) read_varint_write [of 0 "at" bs post src] read_varint_write [of 1 "at" bs post src]
      read_varint_write [of 2 "at" bs post src] in \<open>simp_all add: read_kind_def U64_MAX_def\<close>)

lemma read_notes_write:
  "list_all text_ok ns \<Longrightarrow> drop at bs = concat (map write_text ns) @ post \<Longrightarrow>
    read_notes src bs at (length ns) p =
      Inr (p\<lparr>prov_notes := prov_notes p @ ns\<rparr>, at + length (concat (map write_text ns)))"
proof (induction ns arbitrary: "at" p)
  case (Cons n ns)
  have d: "drop at bs = write_text n @ concat (map write_text ns) @ post" using Cons.prems(2) by simp
  have "read_text src bs at = Inr (n, length (write_text n))"
    by (rule read_text_write [OF _ d]) (use Cons.prems(1) in simp)
  moreover note Cons.IH [OF _ drop_later [OF d], of "provenance_note p n"]
  ultimately show ?case using Cons.prems(1) by (simp add: provenance_note_def add.assoc)
qed simp

lemma read_marker_write:
  assumes ok: "marker_ok known m" and d: "drop at bs = marker_bytes m @ post"
  shows "read_marker src bs known at = Inr (m, at + length (marker_bytes m))"
proof -
  let ?p = "mk_provenance m"
  let ?w1 = "write_varint (mk_position m)" and ?w2 = "kind_bytes (mk_kind m)"
  let ?w3 = "write_varint (length (mk_payload m))" and ?w4 = "mk_payload m"
  let ?w5 = "write_text (prov_source ?p)" and ?w6 = "write_varint (length (prov_notes ?p))"
  let ?w7 = "concat (map write_text (prov_notes ?p))"
  note parts = ok [unfolded marker_ok_def]
  have d0: "drop at bs = ?w1 @ ?w2 @ ?w3 @ ?w4 @ ?w5 @ ?w6 @ ?w7 @ post"
    using d by (simp add: marker_bytes_def)
  note d1 = drop_later [OF d0]
  note d2 = drop_later [OF d1]
  note d3 = drop_later [OF d2]
  note d4 = drop_later [OF d3]
  note d5 = drop_later [OF d4]
  note d6 = drop_later [OF d5]
  note r1 = read_varint_write [OF conjunct1 [OF parts] d0, of src]
  have r2: "read_kind src bs (at + length ?w1) = Inr (mk_kind m, at + length ?w1 + length ?w2)"
    by (rule read_kind_write [OF _ d1]) (use parts in simp)
  have r3: "read_varint src bs (at + length ?w1 + length ?w2) = Inr (length ?w4, length ?w3)"
    by (rule read_varint_write [OF _ d2]) (use parts in simp)
  have "at + length ?w1 + length ?w2 + length ?w3 \<le> length bs"
    using arg_cong [OF d2, of length] drop_inside [OF d2] by simp
  then have r4: "get_range bs (at + length ?w1 + length ?w2 + length ?w3) (length ?w4) = Some ?w4"
    by (rule get_range_drop [OF d3])
  have r5: "read_text src bs (at + length ?w1 + length ?w2 + length ?w3 + length ?w4) =
      Inr (prov_source ?p, length ?w5)"
    by (rule read_text_write [OF _ d4]) (use parts in simp)
  have r6: "read_varint src bs (at + length ?w1 + length ?w2 + length ?w3 + length ?w4 + length ?w5) =
      Inr (length (prov_notes ?p), length ?w6)"
    by (rule read_varint_write [OF _ d5]) (use parts in simp)
  have r7: "read_notes src bs (at + length ?w1 + length ?w2 + length ?w3 + length ?w4 + length ?w5 + length ?w6)
      (length (prov_notes ?p)) (provenance_new (prov_source ?p)) =
      Inr (?p, at + length ?w1 + length ?w2 + length ?w3 + length ?w4 + length ?w5 + length ?w6 + length ?w7)"
    using read_notes_write [OF _ d6, of src "provenance_new (prov_source ?p)"] parts
    by (simp add: provenance_new_def)
  show ?thesis
    using parts unfolding read_marker_def r1 rbind.simps prod.case r2 r3 r4 option.case r5 r6 r7
    by (simp add: marker_bytes_def)
qed

lemma marker_bytes_nonempty [simp]: "marker_bytes m \<noteq> []"
  by (simp add: marker_bytes_def)

lemma decode_encode_markers_from:
  "list_all (marker_ok known) ms \<Longrightarrow> at \<le> length bs \<Longrightarrow> drop at bs = encode_markers ms \<Longrightarrow>
    decode_markers_from src bs known at = Inr ms"
proof (induction ms arbitrary: "at")
  case Nil
  then show ?case by (subst decode_markers_from.simps) (simp add: encode_markers_def)
next
  case (Cons m ms)
  have d: "drop at bs = marker_bytes m @ encode_markers ms"
    using Cons.prems(3) by (simp add: encode_markers_def)
  have at: "at < length bs" using drop_inside [OF d] by simp
  then have "at + length (marker_bytes m) \<le> length bs" using arg_cong [OF d, of length] by simp
  then have "decode_markers_from src bs known (at + length (marker_bytes m)) = Inr ms"
    using Cons.IH [OF _ _ drop_later [OF d]] Cons.prems(1) by simp
  then show ?case
    using at read_marker_write [OF _ d, of known src] Cons.prems(1)
    by (subst decode_markers_from.simps) simp
qed

lemma decode_encode_markers:
  "list_all (marker_ok known) ms \<Longrightarrow> decode_markers src (encode_markers ms) known = Inr ms"
  unfolding decode_markers_def by (rule decode_encode_markers_from) simp_all

text \<open>
  C26: a marker channel splits into chunks that each decode, in the recorded order and whatever ticks
  they stand at, to the markers written: positions, kinds, payloads and evidence alike. The chunks
  hold at most the stated number (one, for a statement of none) and are numbered in order.
\<close>
theorem split_markers_round_trip:
  assumes "list_all (marker_ok known) ms"
  shows "\<exists>runs. rmap (\<lambda>c. decode_markers src (ck_payload c) known) (split_markers ms n) = Inr runs \<and>
    concat runs = ms \<and> map ck_ordinal (split_markers ms n) = [0..<length runs] \<and>
    list_all (\<lambda>run. 0 < length run \<and> length run \<le> max n 1) runs \<and>
    list_all2 (\<lambda>c run. list_all (\<lambda>m. mk_position m \<in> {ck_low c..ck_high c}) run) (split_markers ms n) runs"
proof (intro exI conjI)
  let ?runs = "chunks_of (max n 1) ms"
  have c: "concat ?runs = ms" by (rule concat_chunks) simp
  have s: "length (split_markers ms n) = length ?runs" by (simp add: split_markers_def Let_def)
  have at: "split_markers ms n ! k = marker_chunk (k, ?runs ! k)" if "k < length ?runs" for k
    using that by (simp add: split_markers_def Let_def)
  have ok: "list_all (marker_ok known) r" if "r \<in> set ?runs" for r
    using assms that set_concat [of ?runs] unfolding c list_all_iff by blast
  show "concat ?runs = ms" by (rule c)
  show "rmap (\<lambda>c. decode_markers src (ck_payload c) known) (split_markers ms n) = Inr ?runs"
    unfolding rmap_Inr_iff list_all2_conv_all_nth
    using s at decode_encode_markers ok by (simp add: marker_chunk_def)
  show "map ck_ordinal (split_markers ms n) = [0..<length ?runs]"
    by (rule nth_equalityI) (simp_all add: s at marker_chunk_def)
  show "list_all (\<lambda>run. 0 < length run \<and> length run \<le> max n 1) ?runs"
    using chunks_of_length by (auto simp: list_all_iff)
  show "list_all2 (\<lambda>c run. list_all (\<lambda>m. mk_position m \<in> {ck_low c..ck_high c}) run) (split_markers ms n) ?runs"
    unfolding list_all2_conv_all_nth
    by (simp add: s at marker_chunk_def list_all_iff)
qed

text \<open>A run of three ticks in chunks of two, and a channel with a source's own marker.\<close>

lemma split_transitions_round_trip_witness:
  "case split_transitions [5, 300, 300] 2 of Inl e \<Rightarrow> False
   | Inr cs \<Rightarrow> (case rmap (\<lambda>c. decode_transitions (ck_payload c)) cs of
       Inl e \<Rightarrow> False | Inr runs \<Rightarrow> concat runs = [5, 300, 300])"
  using split_transitions_round_trip [of 2 "[5, 300, 300]"] by (auto simp: U64_MAX_def)

lemma split_markers_round_trip_witness:
  "case rmap (\<lambda>c. decode_markers ''wire'' (ck_payload c) [[0x66]])
     (split_markers [\<lparr>mk_position = 300, mk_kind = SourceMarker [0x61] 7, mk_payload = [1, 2],
        mk_provenance = \<lparr>prov_source = [0x66], prov_notes = [[0x62]]\<rparr>\<rparr>,
       \<lparr>mk_position = 20, mk_kind = Index, mk_payload = [],
        mk_provenance = \<lparr>prov_source = [0x66], prov_notes = []\<rparr>\<rparr>] 0) of
     Inl e \<Rightarrow> False | Inr runs \<Rightarrow> map mk_position (concat runs) = [300, 20]"
  using split_markers_round_trip [of "[[0x66]]"
     "[\<lparr>mk_position = 300, mk_kind = SourceMarker [0x61] 7, mk_payload = [1, 2],
        mk_provenance = \<lparr>prov_source = [0x66], prov_notes = [[0x62]]\<rparr>\<rparr>,
       \<lparr>mk_position = 20, mk_kind = Index, mk_payload = [],
        mk_provenance = \<lparr>prov_source = [0x66], prov_notes = []\<rparr>\<rparr>]" "''wire''" 0]
  by (auto simp: marker_ok_def text_ok_def U64_MAX_def)

end
