(* ===== verification/Catalog.thy ===== *)
theory Catalog
  imports Fat_File
begin

text \<open>
  The namespace seam: the rules a storage space refuses by, the entries every filesystem answers in
  and the \<open>Catalog\<close> trait (\<open>src/crates/remanence/src/filesystem/mod.rs\<close>), the root test of
  \<open>space.rs\<close> and FAT read through a plain device (\<open>fat_catalog.rs\<close>). The trait's contract for a
  namespace without subdirectories is a locale, interpreted on CBM DOS, CP/M and HDOS.
\<close>

section \<open>Text of declared facts\<close>

text \<open>\<open>to_string\<close> of an unsigned number, \<open>{:02x}\<close> of a byte, \<open>to_string\<close> of a boolean.\<close>

definition digit :: "nat \<Rightarrow> char" where
  "digit d = char_of (if d < 10 then 48 + d else 87 + d)"

fun dec :: "nat \<Rightarrow> string" where
  "dec n = (if n < 10 then [digit n] else dec (n div 10) @ [digit (n mod 10)])"

declare dec.simps [simp del]

definition hex2 :: "u8 \<Rightarrow> string" where
  "hex2 b = [digit (unat b div 16), digit (unat b mod 16)]"

definition bool_text :: "bool \<Rightarrow> string" where
  "bool_text b = (if b then ''true'' else ''false'')"

section \<open>The rules of a storage space\<close>

datatype space_rule = NoNamespace | RecognizedNotRead | NotWritable | NotAddressable | OutsideExtent

definition ALL_SPACE_RULES :: "space_rule list" where
  "ALL_SPACE_RULES = [NoNamespace, RecognizedNotRead, NotWritable, NotAddressable, OutsideExtent]"

fun space_rule_as_str :: "space_rule \<Rightarrow> rule_identity" where
  "space_rule_as_str NoNamespace = ''no-namespace''"
| "space_rule_as_str RecognizedNotRead = ''recognized-not-read''"
| "space_rule_as_str NotWritable = ''namespace-not-writable''"
| "space_rule_as_str NotAddressable = ''not-addressable''"
| "space_rule_as_str OutsideExtent = ''outside-extent''"

definition space_rule_from_identity :: "string \<Rightarrow> space_rule option" where
  "space_rule_from_identity s = find (\<lambda>r. space_rule_as_str r = s) ALL_SPACE_RULES"

fun space_rule_category :: "space_rule \<Rightarrow> error_category" where
  "space_rule_category RecognizedNotRead = Unsupported"
| "space_rule_category NotAddressable = Unsupported"
| "space_rule_category NoNamespace = NotFound"
| "space_rule_category NotWritable = ReadOnly"
| "space_rule_category OutsideExtent = Io"

definition space_refuse :: "space_rule \<Rightarrow> error" where
  "space_refuse r = broke_rule (categorized_io (space_rule_category r)) (space_rule_as_str r)"

lemma space_refuse_facts [simp]:
  "err_category (space_refuse r) = space_rule_category r"
  "err_rule (space_refuse r) = Some (space_rule_as_str r)"
  by (simp_all add: space_refuse_def error_defs)

text \<open>A caller that reads the rule of a refusal back gets the rule that was broken.\<close>

lemma space_rule_round_trip: "space_rule_from_identity (space_rule_as_str r) = Some r"
  by (cases r) (simp_all add: space_rule_from_identity_def ALL_SPACE_RULES_def)

section \<open>Entries\<close>

datatype entry_kind = FileKind | DirectoryKind

fun entry_kind_name :: "entry_kind \<Rightarrow> string" where
  "entry_kind_name FileKind = ''file''"
| "entry_kind_name DirectoryKind = ''directory''"

record entry_fact =
  fact_key :: string
  fact_value :: string

definition fact_new :: "string \<Rightarrow> string \<Rightarrow> entry_fact" where
  "fact_new k v = \<lparr>fact_key = k, fact_value = v\<rparr>"

record entry =
  en_name :: ustring
  en_kind :: entry_kind
  en_size :: nat
  en_declared :: "entry_fact list"

definition entry_fact_of :: "entry \<Rightarrow> string \<Rightarrow> string option" where
  "entry_fact_of e k = map_option fact_value (find (\<lambda>f. fact_key f = k) (en_declared e))"

definition from_fat :: "dir_entry \<Rightarrow> entry" where
  "from_fat e =
     \<lparr>en_name = entry_name e,
      en_kind = (case entry_kind e of FileEntry \<Rightarrow> FileKind | DirectoryEntry \<Rightarrow> DirectoryKind),
      en_size = size_bytes e, en_declared = []\<rparr>"

section \<open>Paths\<close>

text \<open>\<open>path.split(['/', '\\'])\<close>.\<close>

fun split_path :: "ustring \<Rightarrow> ustring list" where
  "split_path [] = [[]]"
| "split_path (c # cs) =
     (if c = 47 \<or> c = 92 then [] # split_path cs
      else case split_path cs of s # ss \<Rightarrow> (c # s) # ss | [] \<Rightarrow> [[c]])"

definition path_is_root :: "ustring \<Rightarrow> bool" where
  "path_is_root p \<longleftrightarrow> list_all (\<lambda>s. s = [] \<or> s = codes ''.'') (split_path p)"

text \<open>\<open>Catalog::read_file_at\<close>, the default over a whole item.\<close>

definition catalog_read_at :: "bytes result \<Rightarrow> nat \<Rightarrow> nat \<Rightarrow> bytes result" where
  "catalog_read_at item off n =
     rbind item (\<lambda>bytes.
       if off + n < 2 ^ 64 \<and> off + n \<le> length bytes then Inr (slice off n bytes)
       else Inl (categorized_io NotFound))"

section \<open>FAT through a plain device\<close>

record fat_device_catalog =
  fdc_volume :: fat_volume
  fdc_device :: bytes
  fdc_offset :: nat
  fdc_label :: volume_label
  fdc_kind :: string

definition fdc_open :: "bytes \<Rightarrow> nat \<Rightarrow> fat_device_catalog result" where
  "fdc_open d off =
     rbind (fat_open d off) (\<lambda>volume.
     rbind (recognized volume d) (\<lambda>recognition.
       Inr \<lparr>fdc_volume = volume, fdc_device = d, fdc_offset = off,
            fdc_label = recognized_label recognition,
            fdc_kind = fat_kind_name (recognized_kind recognition)\<rparr>))"

definition fdc_segments :: "ustring \<Rightarrow> ustring list result" where
  "fdc_segments p =
     (let segments = filter (\<lambda>s. s \<noteq> [] \<and> s \<noteq> codes ''.'') (split_path p)
      in if codes ''..'' \<in> set segments then Inl io_error else Inr segments)"

definition fdc_entries :: "fat_device_catalog \<Rightarrow> ustring \<Rightarrow> entry list result" where
  "fdc_entries c p =
     rbind (fdc_segments p) (\<lambda>segments.
     rbind (list_directory (fdc_volume c) (fdc_device c) segments) (\<lambda>found.
       Inr (map from_fat found)))"

definition fdc_stat :: "fat_device_catalog \<Rightarrow> ustring \<Rightarrow> entry option result" where
  "fdc_stat c p =
     rbind (fdc_segments p) (\<lambda>segments.
       if segments = [] then Inl io_error
       else rbind (stat (fdc_volume c) (fdc_device c) segments) (\<lambda>found.
         Inr (map_option from_fat found)))"

definition fdc_read_file :: "fat_device_catalog \<Rightarrow> ustring \<Rightarrow> bytes result" where
  "fdc_read_file c p =
     rbind (fdc_segments p) (read_file (fdc_volume c) (fdc_device c))"

lemma split_path_nonempty [simp]: "split_path p \<noteq> []"
  by (induction p rule: split_path.induct) (auto split: list.splits)

lemma path_is_root_Nil [simp]: "path_is_root []"
  by (simp add: path_is_root_def)

text \<open>A root path is exactly one that leaves no segment to walk.\<close>

lemma path_is_root_segments: "path_is_root p \<longleftrightarrow> fdc_segments p = Inr []"
  by (auto simp: path_is_root_def fdc_segments_def Let_def list_all_iff filter_empty_conv codes_def)

section \<open>The contract of a flat namespace\<close>

text \<open>
  One root of leaves: every path but the root is refused where it is asked to hold names, a path
  names the first entry of the listing it matches, and what reads back has the size stated.
  \<open>ready\<close> is what an opened catalog holds.
\<close>

locale flat_catalog =
  fixes cat_entries :: "'c \<Rightarrow> ustring \<Rightarrow> entry list result"
    and cat_stat :: "'c \<Rightarrow> ustring \<Rightarrow> entry option result"
    and cat_read :: "'c \<Rightarrow> ustring \<Rightarrow> bytes result"
    and ready :: "'c \<Rightarrow> bool"
  assumes entries_root: "path_is_root p \<Longrightarrow> cat_entries c p = cat_entries c []"
    and entries_flat: "\<not> path_is_root p \<Longrightarrow>
      \<exists>e. cat_entries c p = Inl e \<and> err_category e = NotDirectory"
    and stat_first: "ready c \<Longrightarrow> cat_entries c [] = Inr es \<Longrightarrow>
      cat_stat c p = Inr (find (\<lambda>e. eq_ignore_ascii_case (en_name e) p) es)"
    and read_sized: "ready c \<Longrightarrow> cat_read c p = Inr bs \<Longrightarrow>
      \<exists>e. cat_stat c p = Inr (Some e) \<and> en_size e = length bs"
begin

lemma read_is_listed:
  assumes "ready c" "cat_entries c [] = Inr es" "cat_read c p = Inr bs"
  shows "\<exists>e \<in> set es. eq_ignore_ascii_case (en_name e) p \<and> en_size e = length bs"
proof -
  obtain e where "cat_stat c p = Inr (Some e)" "en_size e = length bs"
    using read_sized [OF assms(1,3)] by blast
  then show ?thesis
    using stat_first [OF assms(1,2), of p] by (auto simp: find_Some_iff)
qed

lemma absent_does_not_read: "ready c \<Longrightarrow> cat_stat c p = Inr None \<Longrightarrow> \<exists>e. cat_read c p = Inl e"
  using read_sized [of c p] by (cases "cat_read c p") auto

text \<open>A span inside the stated size of a file that reads is a slice of it; outside, a refusal.\<close>

lemma read_at_span:
  assumes "ready c" "cat_read c p = Inr bs" "cat_stat c p = Inr (Some e)" "off + n < 2 ^ 64"
  shows "catalog_read_at (cat_read c p) off n =
    (if off + n \<le> en_size e then Inr (slice off n bs) else Inl (categorized_io NotFound))"
  using read_sized [OF assms(1,2)] assms(2-) by (auto simp: catalog_read_at_def)

end

end
