(* ===== verification/Cbm_Dos.thy ===== *)
theory Cbm_Dos
  imports Catalog
begin

text \<open>
  The CBM DOS namespace (\<open>src/crates/remanence/src/filesystem/cbm_dos.rs\<close>): the map block, the
  directory chain, a file's chain, and the catalog over a source of blocks. The source is what the
  code takes as the trait \<open>BlockSource\<close>: a function from a track and a sector. The prose of a
  refusal, which one declared fact quotes, is the parameter \<open>render\<close>.
\<close>

unbundle bit_operations_syntax

section \<open>The declared facts\<close>

definition CBM_DOS :: string where "CBM_DOS = ''cbmdos''"
definition DIRECTORY_TRACK :: u8 where "DIRECTORY_TRACK = 18"
definition BAM_SECTOR :: u8 where "BAM_SECTOR = 0"
definition BLOCK_BYTES :: nat where "BLOCK_BYTES = 256"
definition LINK_BYTES :: nat where "LINK_BYTES = 2"
definition DATA_BYTES :: nat where "DATA_BYTES = BLOCK_BYTES - LINK_BYTES"
definition DOS_VERSION :: u8 where "DOS_VERSION = 0x41"
definition BAM_DISK_NAME_AT :: nat where "BAM_DISK_NAME_AT = 0x90"
definition DISK_NAME_BYTES :: nat where "DISK_NAME_BYTES = 16"
definition BAM_DISK_ID_AT :: nat where "BAM_DISK_ID_AT = 0xa2"
definition DISK_ID_BYTES :: nat where "DISK_ID_BYTES = 2"
definition BAM_DOS_TYPE_AT :: nat where "BAM_DOS_TYPE_AT = 0xa5"
definition DOS_TYPE_BYTES :: nat where "DOS_TYPE_BYTES = 2"
definition ENTRY_BYTES :: nat where "ENTRY_BYTES = 32"
definition ENTRIES_PER_BLOCK :: nat where "ENTRIES_PER_BLOCK = BLOCK_BYTES div ENTRY_BYTES"
definition ENTRY_TYPE_AT :: nat where "ENTRY_TYPE_AT = 2"
definition ENTRY_FIRST_TRACK_AT :: nat where "ENTRY_FIRST_TRACK_AT = 3"
definition ENTRY_FIRST_SECTOR_AT :: nat where "ENTRY_FIRST_SECTOR_AT = 4"
definition ENTRY_NAME_AT :: nat where "ENTRY_NAME_AT = 5"
definition ENTRY_SIDE_TRACK_AT :: nat where "ENTRY_SIDE_TRACK_AT = 21"
definition ENTRY_SIDE_SECTOR_AT :: nat where "ENTRY_SIDE_SECTOR_AT = 22"
definition ENTRY_RECORD_LENGTH_AT :: nat where "ENTRY_RECORD_LENGTH_AT = 23"
definition ENTRY_SIZE_BLOCKS_AT :: nat where "ENTRY_SIZE_BLOCKS_AT = 30"
definition NAME_PAD :: u8 where "NAME_PAD = 0xa0"
definition CHAIN_BOUND :: nat where "CHAIN_BOUND = 35 * 21"

lemmas cbm_numbers =
  BLOCK_BYTES_def LINK_BYTES_def DATA_BYTES_def DISK_NAME_BYTES_def ENTRY_BYTES_def
  ENTRIES_PER_BLOCK_def ENTRY_SIZE_BLOCKS_AT_def ENTRY_TYPE_AT_def ENTRY_NAME_AT_def

type_synonym block_at = "u8 \<times> u8"
type_synonym block_source = "u8 \<Rightarrow> u8 \<Rightarrow> bytes result"

datatype file_type = Deleted | Sequential | Program | User | Relative | Unassigned nat

definition file_type_of :: "u8 \<Rightarrow> file_type" where
  "file_type_of b =
     (let n = unat (b AND 0x0f)
      in if n = 0 then Deleted else if n = 1 then Sequential else if n = 2 then Program
         else if n = 3 then User else if n = 4 then Relative else Unassigned n)"

fun file_type_name :: "file_type \<Rightarrow> string" where
  "file_type_name Deleted = ''del''"
| "file_type_name Sequential = ''seq''"
| "file_type_name Program = ''prg''"
| "file_type_name User = ''usr''"
| "file_type_name Relative = ''rel''"
| "file_type_name (Unassigned n) = ''unassigned-'' @ dec n"

record cbm_entry =
  ce_at :: "u8 \<times> u8 \<times> nat"
  ce_type_byte :: u8
  ce_file_type :: file_type
  ce_locked :: bool
  ce_closed :: bool
  ce_first :: block_at
  ce_name_raw :: bytes
  ce_name :: ustring
  ce_side_sector :: block_at
  ce_record_length :: u8
  ce_size_blocks :: nat

definition petscii :: "u8 \<Rightarrow> nat" where
  "petscii b =
     (if 0x20 \<le> b \<and> b \<le> 0x5f then unat b
      else if 0xc1 \<le> b \<and> b \<le> 0xda then unat (b - 0xc1 + 97)
      else REPLACEMENT)"

definition cbm_read_name :: "bytes \<Rightarrow> ustring" where
  "cbm_read_name bs = map petscii (takeWhile (\<lambda>b. b \<noteq> NAME_PAD) bs)"

fun recorded :: "bytes \<Rightarrow> string" where
  "recorded [] = ''''"
| "recorded [b] = hex2 b"
| "recorded (b # bs) = hex2 b @ '' '' @ recorded bs"

definition cbm_refuse :: error where "cbm_refuse = invalid_image CBM_DOS"

section \<open>The map block\<close>

record bam =
  directory_start :: block_at
  disk_name_raw :: bytes
  disk_name :: ustring
  disk_id_raw :: bytes
  dos_type_raw :: bytes
  bam_version :: u8

definition bam_read :: "bytes \<Rightarrow> bam result" where
  "bam_read block =
     (if length block < BLOCK_BYTES then Inl cbm_refuse
      else if block ! 2 \<noteq> DOS_VERSION then Inl cbm_refuse
      else if block ! 0 = 0 then Inl cbm_refuse
      else let raw = slice BAM_DISK_NAME_AT DISK_NAME_BYTES block
           in Inr \<lparr>directory_start = (block ! 0, block ! 1), disk_name_raw = raw,
                   disk_name = cbm_read_name raw,
                   disk_id_raw = slice BAM_DISK_ID_AT DISK_ID_BYTES block,
                   dos_type_raw = slice BAM_DOS_TYPE_AT DOS_TYPE_BYTES block,
                   bam_version = block ! 2\<rparr>)"

definition bam_label :: "bam \<Rightarrow> volume_label" where
  "bam_label b =
     \<lparr>label_name = Some (disk_name b), answered_by = Some ''bam-disk-name'',
      readings =
        [\<lparr>reading_source = ''bam-disk-name'', stored = Some (disk_name b)\<rparr>,
         \<lparr>reading_source = ''bam-disk-name-petscii'', stored = Some (codes (recorded (disk_name_raw b)))\<rparr>,
         \<lparr>reading_source = ''bam-disk-id'', stored = Some (cbm_read_name (disk_id_raw b))\<rparr>,
         \<lparr>reading_source = ''bam-disk-id-petscii'', stored = Some (codes (recorded (disk_id_raw b)))\<rparr>,
         \<lparr>reading_source = ''bam-dos-type'', stored = Some (cbm_read_name (dos_type_raw b))\<rparr>]\<rparr>"

section \<open>The directory\<close>

definition slot_entry :: "block_at \<Rightarrow> bytes \<Rightarrow> nat \<Rightarrow> cbm_entry" where
  "slot_entry at block slot =
     (let e = slice (slot * ENTRY_BYTES) ENTRY_BYTES block; t = e ! ENTRY_TYPE_AT;
          raw = slice ENTRY_NAME_AT DISK_NAME_BYTES e
      in \<lparr>ce_at = (fst at, snd at, slot), ce_type_byte = t, ce_file_type = file_type_of t,
          ce_locked = (t AND 0x40 \<noteq> 0), ce_closed = (t AND 0x80 \<noteq> 0),
          ce_first = (e ! ENTRY_FIRST_TRACK_AT, e ! ENTRY_FIRST_SECTOR_AT),
          ce_name_raw = raw, ce_name = cbm_read_name raw,
          ce_side_sector = (e ! ENTRY_SIDE_TRACK_AT, e ! ENTRY_SIDE_SECTOR_AT),
          ce_record_length = e ! ENTRY_RECORD_LENGTH_AT,
          ce_size_blocks = unat (e ! ENTRY_SIZE_BLOCKS_AT) + 256 * unat (e ! (ENTRY_SIZE_BLOCKS_AT + 1))\<rparr>)"

definition block_entries :: "block_at \<Rightarrow> bytes \<Rightarrow> cbm_entry list" where
  "block_entries at block =
     map (slot_entry at block)
       (filter (\<lambda>slot. slice (slot * ENTRY_BYTES) ENTRY_BYTES block ! ENTRY_TYPE_AT \<noteq> 0)
         [0..<ENTRIES_PER_BLOCK])"

text \<open>A block a chain names: refused where the chain returns to it, runs past the bound, or it does
  not read whole.\<close>

definition chain_block :: "block_source \<Rightarrow> block_at list \<Rightarrow> block_at \<Rightarrow> bytes result" where
  "chain_block blocks visited at =
     (if at \<in> set visited then Inl cbm_refuse
      else if length visited \<ge> CHAIN_BOUND then Inl cbm_refuse
      else rbind (blocks (fst at) (snd at)) (\<lambda>block.
             if length block < BLOCK_BYTES then Inl cbm_refuse else Inr block))"

lemma chain_block_bound: "chain_block blocks visited at = Inr block \<Longrightarrow> length visited < CHAIN_BOUND"
  by (auto simp: chain_block_def split: if_splits)

function directory_from :: "block_source \<Rightarrow> block_at list \<Rightarrow> block_at \<Rightarrow> cbm_entry list result" where
  "directory_from blocks visited at =
     (if fst at = 0 then Inr []
      else case chain_block blocks visited at of
             Inl e \<Rightarrow> Inl e
           | Inr block \<Rightarrow>
               rbind (directory_from blocks (visited @ [at]) (block ! 0, block ! 1)) (\<lambda>es.
                 Inr (block_entries at block @ es)))"
  by pat_completeness auto
termination
  by (relation "measure (\<lambda>(_, visited, _). CHAIN_BOUND - length visited)")
    (auto dest: chain_block_bound)

declare directory_from.simps [simp del]

definition cbm_directory :: "block_source \<Rightarrow> bam \<Rightarrow> cbm_entry list result" where
  "cbm_directory blocks b = directory_from blocks [] (directory_start b)"

section \<open>A file's chain\<close>

record chain =
  ch_bytes :: bytes
  ch_blocks :: nat

function chain_from :: "block_source \<Rightarrow> block_at list \<Rightarrow> bytes \<Rightarrow> block_at \<Rightarrow> chain result" where
  "chain_from blocks visited bs at =
     (if fst at = 0 then Inr \<lparr>ch_bytes = bs, ch_blocks = length visited\<rparr>
      else case chain_block blocks visited at of
             Inl e \<Rightarrow> Inl e
           | Inr block \<Rightarrow>
               if block ! 0 = 0 then
                 (let l = unat (block ! 1)
                  in if l < LINK_BYTES then Inl cbm_refuse
                     else Inr \<lparr>ch_bytes = bs @ slice LINK_BYTES (min l (BLOCK_BYTES - 1) + 1 - LINK_BYTES) block,
                               ch_blocks = length (visited @ [at])\<rparr>)
               else chain_from blocks (visited @ [at]) (bs @ slice LINK_BYTES DATA_BYTES block)
                      (block ! 0, block ! 1))"
  by pat_completeness auto
termination
  by (relation "measure (\<lambda>(_, visited, _, _). CHAIN_BOUND - length visited)")
    (auto dest: chain_block_bound)

declare chain_from.simps [simp del]

definition read_chain :: "block_source \<Rightarrow> block_at \<Rightarrow> chain result" where
  "read_chain blocks first =
     (if fst first = 0 then Inr \<lparr>ch_bytes = [], ch_blocks = 0\<rparr> else chain_from blocks [] [] first)"

section \<open>The catalog\<close>

record cbm_catalog =
  cc_blocks :: block_source
  cc_bam :: bam

definition cbm_open :: "block_source \<Rightarrow> cbm_catalog result" where
  "cbm_open blocks =
     rbind (blocks DIRECTORY_TRACK BAM_SECTOR) (\<lambda>block.
     rbind (bam_read block) (\<lambda>b. Inr \<lparr>cc_blocks = blocks, cc_bam = b\<rparr>))"

definition at_text :: "block_at \<Rightarrow> string" where
  "at_text at = dec (unat (fst at)) @ ''/'' @ dec (unat (snd at))"

definition cbm_entry_facts :: "(error \<Rightarrow> string) \<Rightarrow> chain result \<Rightarrow> cbm_entry \<Rightarrow> entry_fact list" where
  "cbm_entry_facts render walked e =
     [fact_new ''type'' (file_type_name (ce_file_type e)),
      fact_new ''type-raw'' (dec (unat (ce_type_byte e))),
      fact_new ''locked'' (bool_text (ce_locked e)),
      fact_new ''closed'' (bool_text (ce_closed e)),
      fact_new ''size-blocks'' (dec (ce_size_blocks e)),
      fact_new ''size-basis''
        (case walked of Inr _ \<Rightarrow> ''chain-walked'' | Inl _ \<Rightarrow> ''size-blocks-recorded''),
      fact_new ''first-block'' (at_text (ce_first e)),
      fact_new ''name-petscii'' (recorded (ce_name_raw e)),
      fact_new ''directory-slot''
        (at_text (fst (ce_at e), fst (snd (ce_at e))) @ ''#'' @ dec (snd (snd (ce_at e))))] @
     (case walked of
        Inr c \<Rightarrow> [fact_new ''blocks-walked'' (dec (ch_blocks c))]
      | Inl err \<Rightarrow> [fact_new ''chain-refusal'' (render err)]) @
     (if ce_file_type e = Relative then
        [fact_new ''record-length'' (dec (unat (ce_record_length e))),
         fact_new ''side-sector'' (at_text (ce_side_sector e))]
      else [])"

definition cbm_entry_of :: "(error \<Rightarrow> string) \<Rightarrow> cbm_catalog \<Rightarrow> cbm_entry \<Rightarrow> entry" where
  "cbm_entry_of render c e =
     (let walked = read_chain (cc_blocks c) (ce_first e)
      in \<lparr>en_name = ce_name e, en_kind = FileKind,
          en_size = (case walked of Inr ch \<Rightarrow> length (ch_bytes ch)
                     | Inl _ \<Rightarrow> ce_size_blocks e * DATA_BYTES),
          en_declared = cbm_entry_facts render walked e\<rparr>)"

definition cbm_find :: "cbm_catalog \<Rightarrow> ustring \<Rightarrow> cbm_entry option result" where
  "cbm_find c p =
     rbind (cbm_directory (cc_blocks c) (cc_bam c)) (\<lambda>es.
       Inr (find (\<lambda>e. eq_ignore_ascii_case (ce_name e) p) es))"

definition cbm_label :: "cbm_catalog \<Rightarrow> volume_label option" where
  "cbm_label c = Some (bam_label (cc_bam c))"

definition cbm_entries :: "(error \<Rightarrow> string) \<Rightarrow> cbm_catalog \<Rightarrow> ustring \<Rightarrow> entry list result" where
  "cbm_entries render c p =
     (if \<not> path_is_root p then Inl (categorized_image NotDirectory CBM_DOS)
      else rbind (cbm_directory (cc_blocks c) (cc_bam c)) (\<lambda>es.
             Inr (map (cbm_entry_of render c) es)))"

definition cbm_stat :: "(error \<Rightarrow> string) \<Rightarrow> cbm_catalog \<Rightarrow> ustring \<Rightarrow> entry option result" where
  "cbm_stat render c p =
     rbind (cbm_find c p) (\<lambda>found. Inr (map_option (cbm_entry_of render c) found))"

definition cbm_read_file :: "cbm_catalog \<Rightarrow> ustring \<Rightarrow> bytes result" where
  "cbm_read_file c p =
     rbind (cbm_find c p) (\<lambda>found.
       case found of
         None \<Rightarrow> Inl (categorized_io NotFound)
       | Some e \<Rightarrow> rbind (read_chain (cc_blocks c) (ce_first e)) (\<lambda>ch. Inr (ch_bytes ch)))"

end
