(* ===== verification/Cbm_Dos_Proofs.thy ===== *)
theory Cbm_Dos_Proofs
  imports Cbm_Dos
begin

text \<open>
  What a chain holds, as a relation between its first block, the blocks it runs over and its bytes,
  and the walk of \<open>read_chain\<close> as its decision procedure; the directory walk likewise. The catalog
  meets the contract of a flat namespace.
\<close>

section \<open>Chains as a relation\<close>

text \<open>A block that reads whole.\<close>

definition whole_block :: "block_source \<Rightarrow> block_at \<Rightarrow> bytes \<Rightarrow> bool" where
  "whole_block blocks at block \<longleftrightarrow> blocks (fst at) (snd at) = Inr block \<and> BLOCK_BYTES \<le> length block"

inductive chain_of :: "block_source \<Rightarrow> block_at \<Rightarrow> block_at list \<Rightarrow> bytes \<Rightarrow> bool"
  for blocks :: block_source where
  nothing: "fst at = 0 \<Longrightarrow> chain_of blocks at [] []"
| end_block: "fst at \<noteq> 0 \<Longrightarrow> whole_block blocks at block \<Longrightarrow> block ! 0 = 0 \<Longrightarrow>
    2 \<le> unat (block ! 1) \<Longrightarrow> chain_of blocks at [at] (slice 2 (unat (block ! 1) - 1) block)"
| link: "fst at \<noteq> 0 \<Longrightarrow> whole_block blocks at block \<Longrightarrow> block ! 0 \<noteq> 0 \<Longrightarrow>
    chain_of blocks (block ! 0, block ! 1) path bs \<Longrightarrow>
    chain_of blocks at (at # path) (slice 2 254 block @ bs)"

inductive_cases chain_of_cases: "chain_of blocks at path bs"

lemma whole_block_unique: "whole_block blocks at b1 \<Longrightarrow> whole_block blocks at b2 \<Longrightarrow> b1 = b2"
  by (simp add: whole_block_def)

lemma chain_of_unique:
  "chain_of blocks at p1 b1 \<Longrightarrow> chain_of blocks at p2 b2 \<Longrightarrow> p1 = p2 \<and> b1 = b2"
proof (induction arbitrary: p2 b2 rule: chain_of.induct)
  case (nothing "at")
  then show ?case by (auto elim: chain_of_cases)
next
  case (end_block "at" block)
  from end_block.prems end_block.hyps(1) show ?case
  proof (cases rule: chain_of.cases)
    case (end_block b')
    then show ?thesis using end_block.hyps(2) whole_block_unique by blast
  next
    case (link b' path' bs')
    then show ?thesis using end_block.hyps(2,3) whole_block_unique by blast
  qed simp
next
  case (link "at" block path bs)
  note outer = link.hyps and IH = link.IH
  from link.prems outer(1) show ?case
  proof (cases rule: chain_of.cases)
    case (end_block b')
    then show ?thesis using outer(2,3) whole_block_unique by blast
  next
    case (link b' path' bs')
    then have "b' = block" using outer(2) whole_block_unique by blast
    then show ?thesis using link IH by blast
  qed simp
qed

text \<open>A chain that ends meets no block twice, because each block states its one successor.\<close>

lemma chain_of_tail:
  "chain_of blocks at path bs \<Longrightarrow> b \<in> set path \<Longrightarrow>
    \<exists>path' bs'. chain_of blocks b path' bs' \<and> length path' \<le> length path"
proof (induction rule: chain_of.induct)
  case (link "at" block path bs)
  show ?case
  proof (cases "b = at")
    case True
    then show ?thesis using chain_of.link [OF link.hyps] by auto
  next
    case False
    then show ?thesis using link.IH link.prems by fastforce
  qed
next
  case (end_block "at" block)
  then have "b = at" by simp
  then show ?case using chain_of.end_block [OF end_block.hyps] by auto
qed simp

lemma chain_of_distinct: "chain_of blocks at path bs \<Longrightarrow> distinct path"
proof (induction rule: chain_of.induct)
  case (link "at" block path bs)
  have "at \<notin> set path"
  proof
    assume "at \<in> set path"
    then obtain path' bs' where "chain_of blocks at path' bs'" "length path' \<le> length path"
      using chain_of_tail [OF link.hyps(4)] by blast
    moreover have "chain_of blocks at (at # path) (slice 2 254 block @ bs)"
      by (rule chain_of.link [OF link.hyps])
    ultimately show False using chain_of_unique by fastforce
  qed
  then show ?case using link.IH by simp
qed simp_all

lemma byte_below: "unat (b :: u8) < 256"
  using unsigned_less [of b] by simp

lemma chain_of_bounds:
  "chain_of blocks at path bs \<Longrightarrow> path \<noteq> [] \<Longrightarrow>
    254 * (length path - 1) < length bs \<and> length bs \<le> 254 * length path"
proof (induction rule: chain_of.induct)
  case (end_block "at" block)
  then show ?case using byte_below [of "block ! 1"] by (auto simp: whole_block_def BLOCK_BYTES_def)
next
  case (link "at" block path bs)
  then show ?case
    by (cases "path = []") (auto simp: whole_block_def BLOCK_BYTES_def elim: chain_of_cases)
qed simp

section \<open>The walk\<close>

lemma chain_block_Inr:
  "chain_block blocks visited at = Inr block \<longleftrightarrow>
    at \<notin> set visited \<and> length visited < CHAIN_BOUND \<and> whole_block blocks at block"
  by (auto simp: chain_block_def whole_block_def rbind_Inr_iff not_less)

lemma end_slice: "min (unat (b :: u8)) (BLOCK_BYTES - 1) + 1 - 2 = unat b - 1"
  using byte_below [of b] by (simp add: cbm_numbers)

text \<open>Walking on from a block, having met others, gives what the relation says of the block.\<close>

lemma chain_from_sound:
  "chain_from blocks visited acc at = Inr c \<Longrightarrow> fst at \<noteq> 0 \<Longrightarrow>
    \<exists>path bs. chain_of blocks at path bs \<and> ch_bytes c = acc @ bs \<and>
      ch_blocks c = length visited + length path \<and> ch_blocks c \<le> CHAIN_BOUND"
proof (induction blocks visited acc "at" rule: chain_from.induct)
  case (1 blocks visited acc "at")
  obtain block where b: "chain_block blocks visited at = Inr block"
    using 1(2,3) by (subst (asm) chain_from.simps) (auto split: sum.splits)
  then have w: "whole_block blocks at block" "length visited < CHAIN_BOUND"
    unfolding chain_block_Inr by simp_all
  show ?case
  proof (cases "block ! 0 = 0")
    case True
    have "(if unat (block ! 1) < 2 then Inl cbm_refuse
        else Inr \<lparr>ch_bytes = acc @ slice 2 (unat (block ! 1) - 1) block, ch_blocks = length (visited @ [at])\<rparr>) = Inr c"
      using 1(2)
      unfolding chain_from.simps [of blocks visited acc "at"] if_not_P [OF 1(3)] b sum.case if_P [OF True]
        Let_def end_slice LINK_BYTES_def .
    then have "2 \<le> unat (block ! 1)" and c: "c = \<lparr>ch_bytes = acc @ slice 2 (unat (block ! 1) - 1) block,
        ch_blocks = length (visited @ [at])\<rparr>"
      by (simp_all add: not_less split: if_splits)
    then have "chain_of blocks at [at] (slice 2 (unat (block ! 1) - 1) block)"
      using chain_of.end_block [OF 1(3) w(1) True] by simp
    then show ?thesis using c w(2) by fastforce
  next
    case False
    then have "chain_from blocks (visited @ [at]) (acc @ slice LINK_BYTES DATA_BYTES block)
        (block ! 0, block ! 1) = Inr c"
      using 1(2,3) b by (subst (asm) chain_from.simps) simp
    then obtain path bs where p: "chain_of blocks (block ! 0, block ! 1) path bs"
      "ch_bytes c = (acc @ slice 2 254 block) @ bs" "ch_blocks c = length (visited @ [at]) + length path"
      "ch_blocks c \<le> CHAIN_BOUND"
      using 1(1) [OF 1(3) b False] False by (auto simp: cbm_numbers)
    then show ?thesis using chain_of.link [OF 1(3) w(1) False p(1)] by fastforce
  qed
qed

lemma chain_from_complete:
  "chain_of blocks at path bs \<Longrightarrow> fst at \<noteq> 0 \<Longrightarrow> set path \<inter> set visited = {} \<Longrightarrow>
    length visited + length path \<le> CHAIN_BOUND \<Longrightarrow>
    chain_from blocks visited acc at = Inr \<lparr>ch_bytes = acc @ bs, ch_blocks = length visited + length path\<rparr>"
proof (induction arbitrary: visited acc rule: chain_of.induct)
  case (end_block "at" block)
  then have b: "chain_block blocks visited at = Inr block" unfolding chain_block_Inr by simp
  show ?case
    using end_block by (subst chain_from.simps) (simp add: b Let_def end_slice [simplified] LINK_BYTES_def)
next
  case (link "at" block path bs)
  have d: "at \<notin> set path" using chain_of_distinct [OF chain_of.link [OF link.hyps]] by simp
  have b: "chain_block blocks visited at = Inr block"
    using link.hyps link.prems unfolding chain_block_Inr by simp
  have "chain_from blocks visited acc at =
      chain_from blocks (visited @ [at]) (acc @ slice 2 254 block) (block ! 0, block ! 1)"
    using link.hyps by (subst chain_from.simps) (simp add: b cbm_numbers)
  also have "\<dots> = Inr \<lparr>ch_bytes = (acc @ slice 2 254 block) @ bs,
      ch_blocks = length (visited @ [at]) + length path\<rparr>"
    by (rule link.IH) (use link.hyps link.prems d in auto)
  finally show ?case by simp
qed simp

text \<open>
  C27: the walk of a file's chain is exactly the relation: it answers bytes and a count of blocks when
  the links from the first block reach a last block within the bound, and then those bytes and that
  count; a chain that loops, runs past the largest disk, meets a block that does not read or ends
  inside its own link is refused.
\<close>
theorem read_chain_is_chain_of:
  "read_chain blocks first = Inr c \<longleftrightarrow>
    (\<exists>path. chain_of blocks first path (ch_bytes c) \<and> length path = ch_blocks c \<and> ch_blocks c \<le> CHAIN_BOUND)"
proof (cases "fst first = 0")
  case True
  then have "chain_of blocks first path bs \<longleftrightarrow> path = [] \<and> bs = []" for path bs
    by (auto elim: chain_of_cases intro: chain_of.nothing)
  then show ?thesis using True by (cases c) (auto simp: read_chain_def)
next
  case False
  show ?thesis
  proof
    assume "read_chain blocks first = Inr c"
    then show "\<exists>path. chain_of blocks first path (ch_bytes c) \<and> length path = ch_blocks c \<and> ch_blocks c \<le> CHAIN_BOUND"
      using chain_from_sound [OF _ False, of blocks "[]" "[]" c] False by (auto simp: read_chain_def)
  next
    assume "\<exists>path. chain_of blocks first path (ch_bytes c) \<and> length path = ch_blocks c \<and> ch_blocks c \<le> CHAIN_BOUND"
    then show "read_chain blocks first = Inr c"
      using chain_from_complete [OF _ False, of blocks _ _ "[]" "[]"] False
      by (auto simp: read_chain_def)
  qed
qed

section \<open>The contract\<close>

text \<open>\<open>cbm_ready\<close> is what opening establishes.\<close>

definition cbm_ready :: "cbm_catalog \<Rightarrow> bool" where
  "cbm_ready c \<longleftrightarrow> cbm_open (cc_blocks c) = Inr c"

interpretation cbm: flat_catalog "cbm_entries render" "cbm_stat render" cbm_read_file cbm_ready
proof unfold_locales
  show "path_is_root p \<Longrightarrow> cbm_entries render c p = cbm_entries render c []" for c p
    by (simp add: cbm_entries_def)
  show "\<not> path_is_root p \<Longrightarrow> \<exists>e. cbm_entries render c p = Inl e \<and> err_category e = NotDirectory" for c p
    by (simp add: cbm_entries_def error_defs)
  show "cbm_stat render c p = Inr (find (\<lambda>e. eq_ignore_ascii_case (en_name e) p) es)"
    if "cbm_entries render c [] = Inr es" for c es p
    using that
    by (auto simp: cbm_entries_def cbm_stat_def cbm_find_def rbind_Inr_iff find_map comp_def
        cbm_entry_of_def Let_def)
  show "\<exists>e. cbm_stat render c p = Inr (Some e) \<and> en_size e = length bs"
    if "cbm_read_file c p = Inr bs" for c p bs
    using that
    by (auto simp: cbm_read_file_def cbm_stat_def rbind_Inr_iff cbm_entry_of_def Let_def
        split: option.splits)
qed

end
