(* ===== verification/Hdos.thy ===== *)
theory Hdos
  imports Catalog
begin

text \<open>
  The HDOS directory of a raw hard-sectored image
  (\<open>src/crates/remanence/src/filesystem/hdos.rs\<close>): the label, the group reservation table's
  chains, the listing and the reading of a file, and the catalog over both. A listing and a read
  walk the directory separately, as the code does; that they agree is the theorem here.
\<close>

unbundle bit_operations_syntax

definition SECTOR_SIZE :: nat where "SECTOR_SIZE = 256"
definition LABEL_SECTOR :: nat where "LABEL_SECTOR = 9"
definition DIR_ENTRY_SIZE :: nat where "DIR_ENTRY_SIZE = 23"
definition ENTRIES_PER_CLUSTER :: nat where "ENTRIES_PER_CLUSTER = 22"
definition DELETED_OR_EMPTY :: u8 where "DELETED_OR_EMPTY = 255"
definition END_OF_DIRECTORY :: u8 where "END_OF_DIRECTORY = 254"

definition MONTHS :: "string list" where
  "MONTHS = [''Jan'', ''Feb'', ''Mar'', ''Apr'', ''May'', ''Jun'',
             ''Jul'', ''Aug'', ''Sep'', ''Oct'', ''Nov'', ''Dec'']"

section \<open>One file\<close>

record hdos_file =
  hf_name :: ustring
  hf_extension :: ustring
  hf_size_sectors :: nat
  hf_modified_date :: u16
  hf_flags :: u8

definition joined_name :: "ustring \<Rightarrow> ustring \<Rightarrow> ustring" where
  "joined_name n e = (if e = [] then n else n @ codes ''.'' @ e)"

definition hdos_display_name :: "hdos_file \<Rightarrow> ustring" where
  "hdos_display_name f = joined_name (hf_name f) (hf_extension f)"

definition hdos_size_bytes :: "hdos_file \<Rightarrow> nat" where
  "hdos_size_bytes f = hf_size_sectors f * SECTOR_SIZE"

definition flags_string :: "hdos_file \<Rightarrow> string" where
  "flags_string f =
     (if hf_flags f AND 0x80 \<noteq> 0 then ''S'' else '''') @
     (if hf_flags f AND 0x40 \<noteq> 0 then ''L'' else '''') @
     (if hf_flags f AND 0x20 \<noteq> 0 then ''W'' else '''') @
     (if hf_flags f AND 0x10 \<noteq> 0 then ''C'' else '''')"

definition dec2 :: "nat \<Rightarrow> string" where
  "dec2 n = (if n < 10 then ''0'' @ dec n else dec n)"

definition modified_date_string :: "hdos_file \<Rightarrow> string" where
  "modified_date_string f =
     (let d = hf_modified_date f in
      if d = 0 then ''No-Date''
      else let day = unat (d AND 0x1f); month = unat (drop_bit 5 d AND 0xf);
               year = unat (drop_bit 9 d AND 0x7f) + 70
           in if \<not> (1 \<le> month \<and> month \<le> 12) \<or> \<not> (1 \<le> day \<and> day \<le> 31) then ''No-Date''
              else dec2 day @ ''-'' @ MONTHS ! (month - 1) @ ''-'' @ dec2 (year mod 100))"

section \<open>The label\<close>

definition read_le16 :: "bytes \<Rightarrow> nat \<Rightarrow> nat" where
  "read_le16 bs off = le_nat (slice off 2 bs)"

definition hdos_invalid :: error where "hdos_invalid = invalid_image ''hdos''"
definition hdos_unsupported :: error where "hdos_unsupported = categorized_image Unsupported ''hdos''"

record hdos_label =
  hl_dir_sector :: nat
  hl_grt_sector :: nat
  hl_sectors_per_group :: nat
  hl_volume_sectors :: nat
  hl_version :: u8

definition EARLY_CONVENTION_VERSIONS :: "u8 list" where
  "EARLY_CONVENTION_VERSIONS = [0x00, 0x10, 0x15, 0x16]"

definition parse_label :: "bytes \<Rightarrow> hdos_label result" where
  "parse_label img =
     (if length img < (LABEL_SECTOR + 1) * SECTOR_SIZE then Inl hdos_invalid
      else
        let label = slice (LABEL_SECTOR * SECTOR_SIZE) SECTOR_SIZE img;
            early = label ! 9 \<in> set EARLY_CONVENTION_VERSIONS;
            stated_sectors = read_le16 label 12;
            volume = (if early \<and> stated_sectors = 0 then 400 else stated_sectors);
            stated_size = read_le16 label 14;
            sector = (if early \<and> (stated_size = 0 \<or> stated_size = 255) then 256 else stated_size);
            info = \<lparr>hl_dir_sector = read_le16 label 3, hl_grt_sector = read_le16 label 5,
                    hl_sectors_per_group = unat (label ! 7), hl_volume_sectors = volume,
                    hl_version = label ! 9\<rparr>
        in if hl_sectors_per_group info \<notin> {2, 4, 8} then Inl hdos_invalid
           else if volume \<notin> {400, 800, 1600} then Inl hdos_unsupported
           else if sector \<noteq> 256 then Inl hdos_unsupported
           else if length img < volume * SECTOR_SIZE then Inl hdos_invalid
           else if hl_dir_sector info \<ge> volume \<or> hl_grt_sector info \<ge> volume then Inl hdos_invalid
           else Inr info)"

definition hdos_sector :: "bytes \<Rightarrow> nat \<Rightarrow> nat \<Rightarrow> bytes result" where
  "hdos_sector img sector volume_sectors =
     (if sector \<ge> volume_sectors then Inl hdos_invalid
      else Inr (slice (sector * SECTOR_SIZE) SECTOR_SIZE img))"

definition trim_field :: "bytes \<Rightarrow> ustring" where
  "trim_field field = map unat (takeWhile (\<lambda>b. b \<noteq> 0) field)"

section \<open>Group chains\<close>

function size_from :: "bytes \<Rightarrow> nat \<Rightarrow> nat \<Rightarrow> nat \<Rightarrow> nat \<Rightarrow> nat \<Rightarrow> nat \<Rightarrow> nat option" where
  "size_from grt last_group per clusters pos hops acc =
     (if pos \<noteq> last_group \<and> hops < clusters then
        if pos \<ge> clusters then None
        else size_from grt last_group per clusters (unat (grt ! pos)) (hops + 1) (acc + per)
      else if hops \<ge> clusters \<or> pos \<noteq> last_group then None
      else Some acc)"
  by pat_completeness auto
termination
  by (relation "measure (\<lambda>(_, _, _, clusters, _, hops, _). clusters - hops)") auto

declare size_from.simps [simp del]

definition file_size_sectors :: "bytes \<Rightarrow> nat \<Rightarrow> nat \<Rightarrow> nat \<Rightarrow> nat \<Rightarrow> nat \<Rightarrow> nat option" where
  "file_size_sectors grt first_group last_group last_sector_index per clusters =
     map_option (\<lambda>s. s + last_sector_index) (size_from grt last_group per clusters first_group 0 0)"

definition group_sector :: "bytes \<Rightarrow> hdos_label \<Rightarrow> nat \<Rightarrow> bytes result" where
  "group_sector img label absolute =
     (if absolute \<ge> 2 ^ 16 then Inl hdos_invalid else hdos_sector img absolute (hl_volume_sectors label))"

function contents_from ::
  "bytes \<Rightarrow> hdos_label \<Rightarrow> bytes \<Rightarrow> nat \<Rightarrow> nat \<Rightarrow> nat \<Rightarrow> nat \<Rightarrow> nat \<Rightarrow> bytes \<Rightarrow> bytes result" where
  "contents_from img label grt clusters last_group last_index pos hops contents =
     (let is_last = (pos = last_group) in
      if \<not> is_last \<and> hops \<ge> clusters then Inl hdos_invalid
      else if pos \<ge> clusters then Inl hdos_invalid
      else let n = (if is_last then last_index else hl_sectors_per_group label);
               first = pos * hl_sectors_per_group label
           in case rmap (group_sector img label) [first..<first + n] of
                Inl e \<Rightarrow> Inl e
              | Inr sectors \<Rightarrow>
                  if is_last then Inr (contents @ concat sectors)
                  else contents_from img label grt clusters last_group last_index
                         (unat (grt ! pos)) (hops + 1) (contents @ concat sectors))"
  by pat_completeness auto
termination
  by (relation "measure (\<lambda>(_, _, _, clusters, _, _, _, hops, _). clusters - hops)") auto

declare contents_from.simps [simp del]

section \<open>The directory\<close>

definition num_clusters :: "hdos_label \<Rightarrow> nat" where
  "num_clusters l = hl_volume_sectors l div hl_sectors_per_group l"

definition read_grt :: "bytes \<Rightarrow> hdos_label \<Rightarrow> bytes result" where
  "read_grt img l =
     rbind (hdos_sector img (hl_grt_sector l) (hl_volume_sectors l)) (\<lambda>s.
       Inr (take (min (num_clusters l) SECTOR_SIZE) s))"

definition dir_cluster :: "bytes \<Rightarrow> hdos_label \<Rightarrow> nat \<Rightarrow> bytes result" where
  "dir_cluster img l at =
     rbind (hdos_sector img at (hl_volume_sectors l)) (\<lambda>s1.
     rbind (hdos_sector img (at + 1) (hl_volume_sectors l)) (\<lambda>s2. Inr (s1 @ s2)))"

definition dir_slot :: "bytes \<Rightarrow> nat \<Rightarrow> bytes" where
  "dir_slot cluster i = slice (i * DIR_ENTRY_SIZE) DIR_ENTRY_SIZE cluster"

definition slots :: "bytes \<Rightarrow> bytes list" where
  "slots cluster = map (dir_slot cluster) [0..<ENTRIES_PER_CLUSTER]"

definition listed_file :: "hdos_label \<Rightarrow> bytes \<Rightarrow> bytes \<Rightarrow> hdos_file result" where
  "listed_file l grt e =
     (case file_size_sectors grt (unat (e ! 16)) (unat (e ! 17)) (unat (e ! 18))
             (hl_sectors_per_group l) (num_clusters l) of
        None \<Rightarrow> Inl hdos_invalid
      | Some s \<Rightarrow> Inr \<lparr>hf_name = trim_field (slice 0 8 e), hf_extension = trim_field (slice 8 3 e),
                       hf_size_sectors = s, hf_modified_date = word_of_nat (read_le16 e 21),
                       hf_flags = e ! 14\<rparr>)"

text \<open>The slots of one cluster: whether the directory ended there, and the files before the end.\<close>

fun list_slots :: "hdos_label \<Rightarrow> bytes \<Rightarrow> bytes list \<Rightarrow> (bool \<times> hdos_file list) result" where
  "list_slots l grt [] = Inr (False, [])"
| "list_slots l grt (e # es) =
     (if e ! 0 = END_OF_DIRECTORY then Inr (True, [])
      else if e ! 0 = DELETED_OR_EMPTY then list_slots l grt es
      else rbind (listed_file l grt e) (\<lambda>f.
           rbind (list_slots l grt es) (\<lambda>(ended, fs). Inr (ended, f # fs))))"

function list_from :: "bytes \<Rightarrow> hdos_label \<Rightarrow> bytes \<Rightarrow> nat \<Rightarrow> nat \<Rightarrow> hdos_file list result" where
  "list_from img l grt depth at =
     (if depth < 64 \<and> at \<noteq> 0 then
        rbind (dir_cluster img l at) (\<lambda>cluster.
        rbind (list_slots l grt (slots cluster)) (\<lambda>(ended, fs).
          let following = read_le16 cluster 510 in
          if ended \<or> following = 0 then Inr fs
          else rbind (list_from img l grt (depth + 1) following) (\<lambda>more. Inr (fs @ more))))
      else Inr [])"
  by pat_completeness auto
termination
  by (relation "measure (\<lambda>(_, _, _, depth, _). 64 - depth)") auto

declare list_from.simps [simp del]

definition list_hdos_files :: "bytes \<Rightarrow> hdos_file list result" where
  "list_hdos_files img =
     rbind (parse_label img) (\<lambda>l.
     rbind (read_grt img l) (\<lambda>grt. list_from img l grt 0 (hl_dir_sector l)))"

text \<open>The slots of one cluster read for one name: the contents, or whether the directory ended.\<close>

fun read_slots :: "bytes \<Rightarrow> hdos_label \<Rightarrow> bytes \<Rightarrow> ustring \<Rightarrow> bytes list \<Rightarrow> (bool \<times> bytes option) result" where
  "read_slots img l grt name [] = Inr (False, None)"
| "read_slots img l grt name (e # es) =
     (if e ! 0 = END_OF_DIRECTORY then Inr (True, None)
      else if e ! 0 = DELETED_OR_EMPTY then read_slots img l grt name es
      else if \<not> eq_ignore_ascii_case (joined_name (trim_field (slice 0 8 e)) (trim_field (slice 8 3 e))) name
      then read_slots img l grt name es
      else rbind (contents_from img l grt (num_clusters l) (unat (e ! 17)) (unat (e ! 18)) (unat (e ! 16)) 0 [])
             (\<lambda>contents. Inr (False, Some contents)))"

function read_hdos_from :: "bytes \<Rightarrow> hdos_label \<Rightarrow> bytes \<Rightarrow> ustring \<Rightarrow> nat \<Rightarrow> nat \<Rightarrow> bytes result" where
  "read_hdos_from img l grt name depth at =
     (if depth < 64 \<and> at \<noteq> 0 then
        rbind (dir_cluster img l at) (\<lambda>cluster.
        rbind (read_slots img l grt name (slots cluster)) (\<lambda>(ended, found).
          case found of
            Some contents \<Rightarrow> Inr contents
          | None \<Rightarrow>
              let following = read_le16 cluster 510 in
              if ended \<or> following = 0 then Inl (categorized_image NotFound ''hdos'')
              else read_hdos_from img l grt name (depth + 1) following))
      else Inl (categorized_image NotFound ''hdos''))"
  by pat_completeness auto
termination
  by (relation "measure (\<lambda>(_, _, _, _, depth, _). 64 - depth)") auto

declare read_hdos_from.simps [simp del]

definition read_hdos_file :: "bytes \<Rightarrow> ustring \<Rightarrow> bytes result" where
  "read_hdos_file img name =
     rbind (parse_label img) (\<lambda>l.
     rbind (read_grt img l) (\<lambda>grt. read_hdos_from img l grt name 0 (hl_dir_sector l)))"

section \<open>The catalog\<close>

record hdos_catalog =
  hc_image :: bytes
  hc_files :: "hdos_file list"

definition HDOS_BOUND :: nat where "HDOS_BOUND = 8 * 1024 * 1024"

definition hdos_open :: "bytes \<Rightarrow> hdos_catalog result" where
  "hdos_open volume =
     (if length volume > HDOS_BOUND then Inl (categorized_image Unsupported ''hdos'')
      else rbind (image_read volume 0 (length volume)) (\<lambda>img.
           rbind (list_hdos_files img) (\<lambda>files.
             Inr \<lparr>hc_image = img, hc_files = files\<rparr>)))"

definition hdos_entry :: "hdos_file \<Rightarrow> entry" where
  "hdos_entry f =
     \<lparr>en_name = hdos_display_name f, en_kind = FileKind, en_size = hdos_size_bytes f,
      en_declared =
        [fact_new ''size-sectors'' (dec (hf_size_sectors f)),
         fact_new ''modified-date'' (modified_date_string f),
         fact_new ''modified-date-raw'' (dec (unat (hf_modified_date f))),
         fact_new ''flags'' (flags_string f),
         fact_new ''flags-raw'' (dec (unat (hf_flags f)))]\<rparr>"

definition hdos_entries :: "hdos_catalog \<Rightarrow> ustring \<Rightarrow> entry list result" where
  "hdos_entries c p =
     (if \<not> path_is_root p then Inl (categorized_image NotDirectory ''hdos'')
      else Inr (map hdos_entry (hc_files c)))"

definition hdos_stat :: "hdos_catalog \<Rightarrow> ustring \<Rightarrow> entry option result" where
  "hdos_stat c p =
     Inr (map_option hdos_entry (find (\<lambda>f. eq_ignore_ascii_case (hdos_display_name f) p) (hc_files c)))"

definition hdos_read_file :: "hdos_catalog \<Rightarrow> ustring \<Rightarrow> bytes result" where
  "hdos_read_file c p = read_hdos_file (hc_image c) p"

end
