(* ===== verification/Hdos_Proofs.thy ===== *)
theory Hdos_Proofs
  imports Hdos
begin

text \<open>
  The listing and the reader walk the directory and the group chains by different code; where a
  directory lists, they agree on which file a name is, on how long it is and on its absence.
\<close>

section \<open>Group chains\<close>

definition label_fits :: "bytes \<Rightarrow> hdos_label \<Rightarrow> bool" where
  "label_fits img l \<longleftrightarrow> hl_volume_sectors l * SECTOR_SIZE \<le> length img"

lemma parse_label_fits: "parse_label img = Inr l \<Longrightarrow> label_fits img l"
  by (auto simp: parse_label_def label_fits_def Let_def not_less split: if_splits)

lemma hdos_sector_length:
  assumes "label_fits img l" "hdos_sector img s (hl_volume_sectors l) = Inr bs"
  shows "length bs = SECTOR_SIZE"
proof -
  have s: "s < hl_volume_sectors l" "bs = slice (s * SECTOR_SIZE) SECTOR_SIZE img"
    using assms(2) by (auto simp: hdos_sector_def split: if_splits)
  have "(s + 1) * SECTOR_SIZE \<le> hl_volume_sectors l * SECTOR_SIZE"
    by (rule mult_le_mono1) (use s(1) in simp)
  then have "s * SECTOR_SIZE + SECTOR_SIZE \<le> length img"
    using assms(1) by (simp add: label_fits_def)
  then show ?thesis using s(2) by simp
qed

lemma group_sectors_length:
  assumes "label_fits img l"
  shows "rmap (group_sector img l) xs = Inr sectors \<Longrightarrow> length (concat sectors) = length xs * SECTOR_SIZE"
proof (induction xs arbitrary: sectors)
  case (Cons x xs)
  then obtain s ss where s: "group_sector img l x = Inr s" "rmap (group_sector img l) xs = Inr ss" "sectors = s # ss"
    by (auto simp: rbind_Inr_iff)
  have "length s = SECTOR_SIZE"
    using hdos_sector_length [OF assms] s(1) by (auto simp: group_sector_def split: if_splits)
  then show ?case using Cons.IH [OF s(2)] s(3) by simp
qed simp

text \<open>One step of the reader: what the group it stands at adds, and where it goes.\<close>

lemma contents_from_step:
  assumes "contents_from img l grt clusters last_group last_index pos hops contents = Inr bs"
  shows "pos < clusters" and
    "\<exists>sectors. rmap (group_sector img l)
        [pos * hl_sectors_per_group l..<pos * hl_sectors_per_group l +
          (if pos = last_group then last_index else hl_sectors_per_group l)] = Inr sectors \<and>
      (if pos = last_group then bs = contents @ concat sectors
       else hops < clusters \<and> contents_from img l grt clusters last_group last_index (unat (grt ! pos)) (hops + 1)
         (contents @ concat sectors) = Inr bs)"
  using assms by (subst (asm) contents_from.simps; auto simp: Let_def not_le split: if_splits sum.splits)+

text \<open>The bytes a chain gives are the sectors it was sized at.\<close>

lemma contents_from_length:
  "contents_from img l grt clusters last_group last_index pos hops contents = Inr bs \<Longrightarrow>
    size_from grt last_group (hl_sectors_per_group l) clusters pos hops acc = Some s \<Longrightarrow>
    label_fits img l \<Longrightarrow> length contents = acc * SECTOR_SIZE \<Longrightarrow>
    length bs = (s + last_index) * SECTOR_SIZE"
proof (induction grt last_group "hl_sectors_per_group l" clusters pos hops acc arbitrary: contents
    rule: size_from.induct)
  case (1 grt last_group clusters pos hops acc)
  note step = contents_from_step [OF 1(2)]
  obtain sectors where r: "rmap (group_sector img l)
      [pos * hl_sectors_per_group l..<pos * hl_sectors_per_group l +
        (if pos = last_group then last_index else hl_sectors_per_group l)] = Inr sectors"
    and next_step: "if pos = last_group then bs = contents @ concat sectors
      else hops < clusters \<and> contents_from img l grt clusters last_group last_index (unat (grt ! pos)) (hops + 1)
         (contents @ concat sectors) = Inr bs"
    using step(2) by blast
  have len: "length (contents @ concat sectors) =
      (acc + (if pos = last_group then last_index else hl_sectors_per_group l)) * SECTOR_SIZE"
    using group_sectors_length [OF 1(4) r] 1(5) by (simp add: add_mult_distrib)
  show ?case
  proof (cases "pos = last_group")
    case True
    then have "s = acc" using 1(3) by (subst (asm) size_from.simps) (auto split: if_splits)
    then show ?thesis using next_step len True by simp
  next
    case False
    then have h: "hops < clusters" "contents_from img l grt clusters last_group last_index (unat (grt ! pos))
        (hops + 1) (contents @ concat sectors) = Inr bs"
      using next_step by simp_all
    have "size_from grt last_group (hl_sectors_per_group l) clusters (unat (grt ! pos)) (hops + 1)
        (acc + hl_sectors_per_group l) = Some s"
      using 1(3) False h(1) step(1) by (subst (asm) size_from.simps) simp
    then show ?thesis
      using 1(1) [OF _ _ h(2) _ 1(4)] False h(1) step(1) len by simp
  qed
qed

section \<open>One cluster of the directory\<close>

definition is_named :: "ustring \<Rightarrow> hdos_file \<Rightarrow> bool" where
  "is_named p f \<longleftrightarrow> eq_ignore_ascii_case (hdos_display_name f) p"

text \<open>The reader's answer for a cluster agrees with the files the listing took from it.\<close>

definition agrees :: "ustring \<Rightarrow> bool \<times> hdos_file list \<Rightarrow> bool \<times> bytes option \<Rightarrow> bool" where
  "agrees p listed found =
     (case find (is_named p) (snd listed) of
        None \<Rightarrow> found = (fst listed, None)
      | Some f \<Rightarrow> \<exists>bs. snd found = Some bs \<and> length bs = hdos_size_bytes f)"

lemma slots_agree:
  assumes fits: "label_fits img l"
  shows "list_slots l grt es = Inr listed \<Longrightarrow> read_slots img l grt p es = Inr found \<Longrightarrow> agrees p listed found"
proof (induction es arbitrary: listed found)
  case (Cons e es)
  consider (ended) "e ! 0 = END_OF_DIRECTORY" | (empty) "e ! 0 \<noteq> END_OF_DIRECTORY" "e ! 0 = DELETED_OR_EMPTY"
    | (live) "e ! 0 \<noteq> END_OF_DIRECTORY" "e ! 0 \<noteq> DELETED_OR_EMPTY" by blast
  then show ?case
  proof cases
    case ended
    then show ?thesis using Cons.prems by (auto simp: agrees_def)
  next
    case empty
    then show ?thesis using Cons by simp
  next
    case live
    then obtain f m fs where f: "listed_file l grt e = Inr f" "list_slots l grt es = Inr (m, fs)"
      "listed = (m, f # fs)"
      using Cons.prems(1) by (auto simp: rbind_Inr_iff)
    have name: "hdos_display_name f = joined_name (trim_field (slice 0 8 e)) (trim_field (slice 8 3 e))"
      using f(1) by (auto simp: listed_file_def hdos_display_name_def split: option.splits)
    show ?thesis
    proof (cases "is_named p f")
      case False
      then have "read_slots img l grt p es = Inr found"
        using Cons.prems(2) live by (simp add: is_named_def name)
      then show ?thesis using Cons.IH [OF f(2)] f(3) False by (auto simp: agrees_def split: option.splits)
    next
      case True
      then obtain bs where bs: "found = (False, Some bs)"
        "contents_from img l grt (num_clusters l) (unat (e ! 17)) (unat (e ! 18)) (unat (e ! 16)) 0 [] = Inr bs"
        using Cons.prems(2) live by (auto simp: is_named_def name rbind_Inr_iff)
      obtain s where s: "size_from grt (unat (e ! 17)) (hl_sectors_per_group l) (num_clusters l)
          (unat (e ! 16)) 0 0 = Some s" "hf_size_sectors f = s + unat (e ! 18)"
        using f(1) by (auto simp: listed_file_def file_size_sectors_def split: option.splits)
      have "length bs = hdos_size_bytes f"
        using contents_from_length [OF bs(2) s(1) fits] s(2) by (simp add: hdos_size_bytes_def)
      then show ?thesis using True f(3) bs(1) by (simp add: agrees_def)
    qed
  qed
qed (auto simp: agrees_def)

lemma walks_agree:
  assumes fits: "label_fits img l"
  shows "list_from img l grt depth at = Inr fs \<Longrightarrow> read_hdos_from img l grt p depth at = Inr bs \<Longrightarrow>
    \<exists>f. find (is_named p) fs = Some f \<and> length bs = hdos_size_bytes f"
proof (induction "64 - depth" arbitrary: depth "at" fs rule: less_induct)
  case less
  have go: "depth < 64" "at \<noteq> 0"
    using less.prems(2) by (subst (asm) read_hdos_from.simps; simp split: if_splits)+
  obtain cluster where c: "dir_cluster img l at = Inr cluster"
    using less.prems(1) go by (subst (asm) list_from.simps) (auto simp: rbind_Inr_iff)
  obtain ended here where ls: "list_slots l grt (slots cluster) = Inr (ended, here)"
    using less.prems(1) go c by (subst (asm) list_from.simps) (auto simp: rbind_Inr_iff)
  obtain stop found where rs: "read_slots img l grt p (slots cluster) = Inr (stop, found)"
    using less.prems(2) go c by (subst (asm) read_hdos_from.simps) (auto simp: rbind_Inr_iff)
  have a: "agrees p (ended, here) (stop, found)" by (rule slots_agree [OF fits ls rs])
  show ?case
  proof (cases "find (is_named p) here")
    case None
    then have s: "found = None" "stop = ended" using a by (auto simp: agrees_def)
    then have on: "\<not> ended" "read_le16 cluster 510 \<noteq> 0"
      "read_hdos_from img l grt p (depth + 1) (read_le16 cluster 510) = Inr bs"
      using less.prems(2) go c rs by (subst (asm) read_hdos_from.simps; simp add: Let_def split: if_splits)+
    obtain more where more: "list_from img l grt (depth + 1) (read_le16 cluster 510) = Inr more" "fs = here @ more"
      using less.prems(1) go c ls on by (subst (asm) list_from.simps) (auto simp: Let_def rbind_Inr_iff)
    show ?thesis
      using less.hyps [OF _ more(1) on(3)] go(1) more(2) None by (simp add: find_append)
  next
    case (Some f)
    then obtain bs' where "found = Some bs'" "length bs' = hdos_size_bytes f" using a by (auto simp: agrees_def)
    then have "length bs = hdos_size_bytes f"
      using less.prems(2) go c rs by (subst (asm) read_hdos_from.simps) simp
    moreover have "\<exists>more. fs = here @ more"
      using less.prems(1) go c ls by (subst (asm) list_from.simps) (auto simp: Let_def rbind_Inr_iff split: if_splits)
    ultimately show ?thesis using Some by (auto simp: find_append)
  qed
qed

lemma read_agrees_with_list:
  assumes "list_hdos_files img = Inr fs" "read_hdos_file img p = Inr bs"
  shows "\<exists>f. find (is_named p) fs = Some f \<and> length bs = hdos_size_bytes f"
proof -
  obtain l grt where l: "parse_label img = Inr l" "read_grt img l = Inr grt"
    "list_from img l grt 0 (hl_dir_sector l) = Inr fs"
    using assms(1) by (auto simp: list_hdos_files_def rbind_Inr_iff)
  then have "read_hdos_from img l grt p 0 (hl_dir_sector l) = Inr bs"
    using assms(2) by (simp add: read_hdos_file_def)
  then show ?thesis by (rule walks_agree [OF parse_label_fits [OF l(1)] l(3)])
qed

section \<open>The contract\<close>

definition hdos_ready :: "hdos_catalog \<Rightarrow> bool" where
  "hdos_ready c \<longleftrightarrow> list_hdos_files (hc_image c) = Inr (hc_files c)"

lemma hdos_open_ready: "hdos_open volume = Inr c \<Longrightarrow> hdos_ready c"
  by (auto simp: hdos_open_def hdos_ready_def rbind_Inr_iff split: if_splits)

lemma hdos_named: "(\<lambda>f. eq_ignore_ascii_case (hdos_display_name f) p) = is_named p"
  by (rule ext) (simp add: is_named_def)

interpretation hdos: flat_catalog hdos_entries hdos_stat hdos_read_file hdos_ready
proof unfold_locales
  show "path_is_root p \<Longrightarrow> hdos_entries c p = hdos_entries c []" for c p
    by (simp add: hdos_entries_def)
  show "\<not> path_is_root p \<Longrightarrow> \<exists>e. hdos_entries c p = Inl e \<and> err_category e = NotDirectory" for c p
    by (simp add: hdos_entries_def error_defs)
  show "hdos_stat c p = Inr (find (\<lambda>e. eq_ignore_ascii_case (en_name e) p) es)"
    if "hdos_entries c [] = Inr es" for c es p
    using that by (auto simp: hdos_entries_def hdos_stat_def find_map comp_def hdos_entry_def)
  show "\<exists>e. hdos_stat c p = Inr (Some e) \<and> en_size e = length bs"
    if "hdos_ready c" "hdos_read_file c p = Inr bs" for c p bs
    using read_agrees_with_list [of "hc_image c" "hc_files c" p bs] that
    by (auto simp: hdos_ready_def hdos_read_file_def hdos_stat_def hdos_named hdos_entry_def)
qed

section \<open>A small volume\<close>

text \<open>
  One file of three sectors over two groups: the directory in sectors 10 and 11, the group table in
  sector 12, the file's groups 10 and 11 chained by the table.
\<close>

definition zeros :: "nat \<Rightarrow> bytes" where "zeros n = replicate n 0"

definition small_label :: bytes where
  "small_label = [0, 0, 0, 10, 0, 12, 0, 2, 0, 0x16] @ zeros 246"

definition small_slot :: bytes where
  "small_slot = [65, 0, 0, 0, 0, 0, 0, 0, 66, 0, 0] @ [0, 0, 0, 0, 0, 10, 11, 1] @ [0, 0, 0, 0]"

definition small_directory :: bytes where
  "small_directory = small_slot @ [254] @ zeros 488"

definition small_grt :: bytes where
  "small_grt = zeros 10 @ [11] @ zeros 245"

definition small_hdos :: bytes where
  "small_hdos = zeros 2304 @ small_label @ small_directory @ small_grt @ zeros 99072"

lemma small_lengths:
  "length small_label = 256" "length small_directory = 512" "length small_grt = 256"
  "length small_hdos = 102400"
  by (simp_all add: small_label_def small_slot_def small_directory_def small_grt_def small_hdos_def zeros_def)

lemma small_parts:
  "slice 2304 256 small_hdos = small_label" "slice 2560 256 small_hdos = take 256 small_directory"
  "slice 2816 256 small_hdos = drop 256 small_directory" "slice 3072 256 small_hdos = small_grt"
  by (simp_all add: small_hdos_def slice_def small_lengths(1-3) zeros_def)

lemma small_label_fields:
  "small_label ! 7 = 2" "small_label ! 9 = 0x16" "read_le16 small_label 3 = 10"
  "read_le16 small_label 5 = 12" "read_le16 small_label 12 = 0" "read_le16 small_label 14 = 0"
proof -
  have "slice 12 2 small_label = [0, 0]" "slice 14 2 small_label = [0, 0]"
    by (simp_all add: small_label_def zeros_def slice_def numeral_2_eq_2)
  then show "read_le16 small_label 12 = 0" "read_le16 small_label 14 = 0"
    by (simp_all add: read_le16_def)
qed (simp_all add: small_label_def zeros_def nth_append read_le16_def slice_def)

lemma small_parse_label:
  "parse_label small_hdos = Inr \<lparr>hl_dir_sector = 10, hl_grt_sector = 12, hl_sectors_per_group = 2,
     hl_volume_sectors = 400, hl_version = 0x16\<rparr>"
  unfolding parse_label_def LABEL_SECTOR_def SECTOR_SIZE_def small_lengths
  by (simp add: small_parts small_label_fields EARLY_CONVENTION_VERSIONS_def)

lemma small_sector:
  "s < 400 \<Longrightarrow> hdos_sector small_hdos s 400 = Inr (slice (s * 256) 256 small_hdos)"
  by (simp add: hdos_sector_def SECTOR_SIZE_def)

definition small_info :: hdos_label where
  "small_info = \<lparr>hl_dir_sector = 10, hl_grt_sector = 12, hl_sectors_per_group = 2,
     hl_volume_sectors = 400, hl_version = 0x16\<rparr>"

lemma small_grt_table: "read_grt small_hdos small_info = Inr (take 200 small_grt)"
  by (simp add: read_grt_def small_info_def small_sector small_parts num_clusters_def SECTOR_SIZE_def)

lemma small_dir_cluster: "dir_cluster small_hdos small_info 10 = Inr small_directory"
  by (simp add: dir_cluster_def small_info_def small_sector small_parts)

lemma small_slots: "slots small_directory = small_slot # (254 # zeros 22) # map (dir_slot small_directory) [2..<22]"
  by (simp add: slots_def dir_slot_def ENTRIES_PER_CLUSTER_def DIR_ENTRY_SIZE_def upt_conv_Cons
      small_directory_def small_slot_def zeros_def slice_def)

lemma small_slot_fields:
  "small_slot ! 0 = 65" "small_slot ! 16 = 10" "small_slot ! 17 = 11" "small_slot ! 18 = 1"
  "trim_field (slice 0 8 small_slot) = [65]" "trim_field (slice 8 3 small_slot) = [66]"
  by (simp_all add: small_slot_def trim_field_def slice_def)

lemma small_next: "unat (small_grt ! 10) = 11"
  by (simp add: small_grt_def zeros_def nth_append)

lemma small_size: "file_size_sectors (take 200 small_grt) 10 11 1 2 200 = Some 3"
  by (simp add: file_size_sectors_def size_from.simps [where pos = 10] size_from.simps [where pos = 11] small_next)

definition small_file :: hdos_file where
  "small_file = \<lparr>hf_name = [65], hf_extension = [66], hf_size_sectors = 3, hf_modified_date = 0, hf_flags = 0\<rparr>"

lemma small_listed: "listed_file small_info (take 200 small_grt) small_slot = Inr small_file"
  using small_size
  by (simp add: listed_file_def small_slot_fields small_info_def num_clusters_def small_file_def)
    (simp add: small_slot_def read_le16_def slice_def)

lemma small_list: "list_hdos_files small_hdos = Inr [small_file]"
proof -
  have "list_from small_hdos small_info (take 200 small_grt) 0 10 = Inr [small_file]"
    by (subst list_from.simps)
      (simp add: small_dir_cluster small_slots small_listed small_slot_fields END_OF_DIRECTORY_def
        DELETED_OR_EMPTY_def)
  then show ?thesis
    by (simp add: list_hdos_files_def small_parse_label small_grt_table flip: small_info_def)
      (simp add: small_info_def)
qed

lemma small_contents:
  "contents_from small_hdos small_info (take 200 small_grt) 200 11 1 10 0 [] = Inr (zeros 768)"
proof -
  have s: "group_sector small_hdos small_info k = Inr (zeros 256)" if "k \<in> {20, 21, 22}" for k
  proof -
    have "slice (k * 256) 256 small_hdos = zeros 256"
      using that by (auto simp: small_hdos_def slice_def small_lengths(1-3) zeros_def)
    then show ?thesis using that by (auto simp: group_sector_def small_info_def small_sector)
  qed
  have "rmap (group_sector small_hdos small_info) [20..<22] = Inr [zeros 256, zeros 256]"
    "rmap (group_sector small_hdos small_info) [22..<23] = Inr [zeros 256]"
    by (simp_all add: upt_conv_Cons s)
  then have "contents_from small_hdos small_info (take 200 small_grt) 200 11 1 11 1 (zeros 512) = Inr (zeros 768)"
    and "contents_from small_hdos small_info (take 200 small_grt) 200 11 1 10 0 [] =
      contents_from small_hdos small_info (take 200 small_grt) 200 11 1 11 1 (zeros 512)"
    by (subst contents_from.simps,
        simp add: small_info_def small_next zeros_def flip: replicate_add)+
  then show ?thesis by simp
qed

lemma small_clusters: "num_clusters small_info = 200"
  by (simp add: num_clusters_def small_info_def)

lemma small_read: "read_hdos_file small_hdos (codes ''a.B'') = Inr (zeros 768)"
proof -
  have "eq_ignore_ascii_case (joined_name [65] [66]) (codes ''a.B'')"
    by (simp add: eq_ignore_ascii_case_def joined_name_def codes_def to_ascii_uppercase_def ascii_upper_def)
  then have "read_hdos_from small_hdos small_info (take 200 small_grt) (codes ''a.B'') 0 10 = Inr (zeros 768)"
    using small_contents
    by (subst read_hdos_from.simps)
      (simp add: small_dir_cluster small_slots small_slot_fields END_OF_DIRECTORY_def
        DELETED_OR_EMPTY_def small_clusters)
  then show ?thesis
    by (simp add: read_hdos_file_def small_parse_label small_grt_table flip: small_info_def)
      (simp add: small_info_def)
qed

section \<open>What a caller sees\<close>

text \<open>
  C28: in an opened HDOS catalog, a file that reads is the first file of the listing whose name the
  path matches, and its bytes are as many as the listing states, though the listing sizes a chain
  and the reader follows it with different code; a name the listing lacks does not read.
\<close>
theorem hdos_read_is_listed:
  assumes "hdos_open volume = Inr c"
  shows "case hdos_read_file c p of
      Inr bs \<Rightarrow> (case find (\<lambda>f. eq_ignore_ascii_case (hdos_display_name f) p) (hc_files c) of
        Some f \<Rightarrow> length bs = hdos_size_bytes f | None \<Rightarrow> False)
    | Inl _ \<Rightarrow> True"
  using hdos.read_sized [OF hdos_open_ready [OF assms], of p]
  by (auto simp: hdos_stat_def hdos_entry_def split: sum.splits option.splits)

lemma hdos_read_is_listed_witness:
  "\<exists>c bs. hdos_open small_hdos = Inr c \<and> hdos_read_file c (codes ''a.B'') = Inr bs \<and>
    (case find (\<lambda>f. eq_ignore_ascii_case (hdos_display_name f) (codes ''a.B'')) (hc_files c) of
       Some f \<Rightarrow> length bs = hdos_size_bytes f | None \<Rightarrow> False)"
proof -
  let ?c = "\<lparr>hc_image = small_hdos, hc_files = [small_file]\<rparr>"
  have o: "hdos_open small_hdos = Inr ?c"
    by (simp add: hdos_open_def small_list image_read_def small_lengths HDOS_BOUND_def)
  have r: "hdos_read_file ?c (codes ''a.B'') = Inr (zeros 768)"
    by (simp add: hdos_read_file_def small_read)
  show ?thesis
    using hdos_read_is_listed [OF o, of "codes ''a.B''"] o r by auto
qed

end
