(* ===== verification/Cpm.thy ===== *)
theory Cpm
  imports Catalog
begin

text \<open>
  The CP/M 2.2 directory read against a declared layout
  (\<open>src/crates/remanence/src/filesystem/cpm.rs\<close>): the parameter block and its check, the sector
  translation, directory entries, the joining of extents into files, and the catalog. A layout's
  prose (the account of how it came to be believed) is left out.
\<close>

unbundle bit_operations_syntax

definition CPM_PROFILE :: string where "CPM_PROFILE = ''cpm''"
definition RECORD_BYTES :: nat where "RECORD_BYTES = 128"
definition CPM_ENTRY_BYTES :: nat where "CPM_ENTRY_BYTES = 32"
definition UNUSED :: u8 where "UNUSED = 0xe5"
definition POINTER_BYTES :: nat where "POINTER_BYTES = 16"

definition cpm_refuse :: error where "cpm_refuse = invalid_image CPM_PROFILE"

section \<open>The parameter block\<close>

record dpb =
  records_per_track :: nat
  block_bytes :: nat
  dpb_blocks :: nat
  directory_entries :: nat
  reserved_tracks :: nat
  track_bytes :: nat
  skew :: "nat list"

definition directory_offset :: "dpb \<Rightarrow> nat" where
  "directory_offset p = reserved_tracks p * track_bytes p"

definition directory_bytes :: "dpb \<Rightarrow> nat" where
  "directory_bytes p = directory_entries p * CPM_ENTRY_BYTES"

definition wide_pointers :: "dpb \<Rightarrow> bool" where
  "wide_pointers p \<longleftrightarrow> dpb_blocks p > 256"

definition records_per_block :: "dpb \<Rightarrow> nat" where
  "records_per_block p = block_bytes p div RECORD_BYTES"

definition dpb_check :: "dpb \<Rightarrow> unit result" where
  "dpb_check p =
     (if block_bytes p \<notin> {1024, 2048, 4096, 8192, 16384} then Inl cpm_refuse
      else if directory_entries p = 0 then Inl cpm_refuse
      else if dpb_blocks p = 0 then Inl cpm_refuse
      else if track_bytes p = 0 \<or> records_per_track p = 0 then Inl cpm_refuse
      else if skew p = [] then Inl cpm_refuse
      else if track_bytes p mod length (skew p) \<noteq> 0 then Inl cpm_refuse
      else let seen = remdups_adj (sort (skew p))
           in if length seen \<noteq> length (skew p) \<or>
                 (if seen = [] then 0 else last seen) \<noteq> length (skew p) - 1
              then Inl cpm_refuse else Inr ())"

definition sector_bytes :: "dpb \<Rightarrow> nat" where
  "sector_bytes p = track_bytes p div length (skew p)"

definition skews :: "dpb \<Rightarrow> bool" where
  "skews p \<longleftrightarrow> list_ex (\<lambda>(logical, physical). logical \<noteq> physical) (zip [0..<length (skew p)] (skew p))"

text \<open>The sectors of one track, each copied to the place its logical number has.\<close>

fun place_sectors :: "nat \<Rightarrow> bytes \<Rightarrow> nat \<Rightarrow> nat \<Rightarrow> nat list \<Rightarrow> bytes \<Rightarrow> bytes" where
  "place_sectors sec chunk start logical [] out = out"
| "place_sectors sec chunk start logical (physical # ps) out =
     (let f = physical * sec; t = start + logical * sec
      in place_sectors sec chunk start (logical + 1) ps
           (if f + sec > length chunk \<or> t + sec > length out then out
            else splice t (slice f sec chunk) out))"

fun place_tracks :: "dpb \<Rightarrow> nat \<Rightarrow> bytes list \<Rightarrow> bytes \<Rightarrow> bytes" where
  "place_tracks p track [] out = out"
| "place_tracks p track (chunk # chunks) out =
     place_tracks p (track + 1) chunks
       (place_sectors (sector_bytes p) chunk (track * track_bytes p) 0 (skew p) out)"

definition to_logical :: "dpb \<Rightarrow> bytes \<Rightarrow> bytes" where
  "to_logical p img =
     (if \<not> skews p then img
      else place_tracks p 0 (chunks_of (track_bytes p) img) (replicate (length img) 0))"

section \<open>The declared layouts\<close>

record cpm_layout =
  layout_id :: string
  layout_name :: string
  layout_dpb :: dpb

definition CPM_HEATH_H17 :: cpm_layout where
  "CPM_HEATH_H17 = \<lparr>layout_id = ''cpm-heath-h17'',
     layout_name = ''Heath CP/M 2.2 (H-17 hard-sectored 5.25-inch)'',
     layout_dpb = \<lparr>records_per_track = 20, block_bytes = 1024, dpb_blocks = 92, directory_entries = 64,
       reserved_tracks = 3, track_bytes = 2560, skew = [0, 4, 8, 2, 6, 1, 5, 9, 3, 7]\<rparr>\<rparr>"

definition CPM_HEATH_SOFT :: cpm_layout where
  "CPM_HEATH_SOFT = \<lparr>layout_id = ''cpm-heath-soft'',
     layout_name = ''Heath CP/M 2.2 (soft-sectored 5.25-inch)'',
     layout_dpb = \<lparr>records_per_track = 20, block_bytes = 1024, dpb_blocks = 92, directory_entries = 64,
       reserved_tracks = 3, track_bytes = 2560, skew = [0, 1, 2, 3, 4, 5, 6, 7, 8, 9]\<rparr>\<rparr>"

definition LAYOUTS :: "cpm_layout list" where
  "LAYOUTS = [CPM_HEATH_H17, CPM_HEATH_SOFT]"

definition layout_of :: "string \<Rightarrow> cpm_layout option" where
  "layout_of i = find (\<lambda>l. layout_id l = i) LAYOUTS"

section \<open>Directory entries\<close>

record cpm_dirent =
  de_user :: u8
  de_name :: bytes
  de_kind :: bytes
  de_extent :: nat
  de_records :: nat
  de_blocks :: "nat list"
  de_read_only :: bool
  de_system :: bool
  de_archived :: bool

fun le_pairs :: "bytes \<Rightarrow> nat list" where
  "le_pairs (a # b # bs) = le_nat [a, b] # le_pairs bs"
| "le_pairs _ = []"

definition dirent_read :: "bytes \<Rightarrow> dpb \<Rightarrow> cpm_dirent option" where
  "dirent_read s p =
     (let user = s ! 0 in
      if user = UNUSED \<or> user > 15 then None
      else let pointers = slice 16 POINTER_BYTES s;
               blocks = (if wide_pointers p then le_pairs pointers else map unat pointers)
           in Some \<lparr>de_user = user, de_name = map (\<lambda>b. b AND 0x7f) (slice 1 8 s),
                    de_kind = map (\<lambda>b. b AND 0x7f) (slice 9 3 s),
                    de_extent = push_bit 5 (unat (s ! 14)) OR unat (s ! 12), de_records = unat (s ! 15),
                    de_blocks = filter (\<lambda>b. b \<noteq> 0) blocks,
                    de_read_only = (s ! 9 AND 0x80 \<noteq> 0), de_system = (s ! 10 AND 0x80 \<noteq> 0),
                    de_archived = (s ! 11 AND 0x80 \<noteq> 0)\<rparr>)"

definition dirent_display_name :: "cpm_dirent \<Rightarrow> ustring" where
  "dirent_display_name e =
     (let name = trim_end (from_utf8_lossy (de_name e)); kind = trim_end (from_utf8_lossy (de_kind e))
      in if kind = [] then name else name @ codes ''.'' @ kind)"

section \<open>Files\<close>

record cpm_file =
  cf_user :: u8
  cf_name :: ustring
  cf_blocks :: "nat list"
  cf_last_extent_records :: nat
  cf_extents :: nat
  cf_read_only :: bool
  cf_system :: bool
  cf_archived :: bool

definition cpm_records :: "cpm_file \<Rightarrow> nat" where
  "cpm_records f = (cf_extents f - 1) * 128 + cf_last_extent_records f"

definition cpm_size_bytes :: "cpm_file \<Rightarrow> nat" where
  "cpm_size_bytes f = cpm_records f * RECORD_BYTES"

definition attributes :: "cpm_file \<Rightarrow> ustring" where
  "attributes f =
     (let flags = codes ((if cf_read_only f then ''R/O '' else '''') @
                  (if cf_system f then ''SYS '' else '''') @
                  (if cf_archived f then ''ARC '' else ''''))
      in if flags = [] then codes ''DIR R/W'' else trim_end flags)"

definition new_file :: "cpm_dirent \<Rightarrow> ustring \<Rightarrow> cpm_file" where
  "new_file e name =
     \<lparr>cf_user = de_user e, cf_name = name, cf_blocks = de_blocks e,
      cf_last_extent_records = de_records e, cf_extents = 1, cf_read_only = de_read_only e,
      cf_system = de_system e, cf_archived = de_archived e\<rparr>"

definition extend_file :: "cpm_dirent \<Rightarrow> cpm_file \<Rightarrow> cpm_file" where
  "extend_file e f =
     f\<lparr>cf_blocks := cf_blocks f @ de_blocks e, cf_extents := cf_extents f + 1,
       cf_last_extent_records := de_records e\<rparr>"

text \<open>The first file of the entry's user and name extended by it, or a file of its own at the end.\<close>

fun join_extent :: "cpm_dirent \<Rightarrow> ustring \<Rightarrow> cpm_file list \<Rightarrow> cpm_file list" where
  "join_extent e name [] = [new_file e name]"
| "join_extent e name (f # fs) =
     (if cf_user f = de_user e \<and> cf_name f = name then extend_file e f # fs
      else f # join_extent e name fs)"

fun assemble_from :: "dpb \<Rightarrow> cpm_dirent list \<Rightarrow> cpm_file list \<Rightarrow> cpm_file list result" where
  "assemble_from p [] files = Inr files"
| "assemble_from p (e # es) files =
     (let name = dirent_display_name e in
      if name = [] then Inl cpm_refuse
      else if list_ex (\<lambda>b. b \<ge> dpb_blocks p) (de_blocks e) then Inl cpm_refuse
      else assemble_from p es (join_extent e name files))"

definition assemble :: "cpm_dirent list \<Rightarrow> dpb \<Rightarrow> cpm_file list result" where
  "assemble es p = assemble_from p es []"

section \<open>The catalog\<close>

record cpm_catalog =
  pc_image :: bytes
  pc_dpb :: dpb
  pc_declared_as :: string
  pc_files :: "cpm_file list"

definition CPM_BOUND :: nat where "CPM_BOUND = 8 * 1024 * 1024"

text \<open>\<open>chunks_exact\<close> over the directory, the slots in use, in extent order (the sort is stable).\<close>

definition directory_slots :: "dpb \<Rightarrow> bytes \<Rightarrow> cpm_dirent list" where
  "directory_slots p directory =
     List.map_filter (\<lambda>s. dirent_read s p)
       (filter (\<lambda>s. length s = CPM_ENTRY_BYTES) (chunks_of CPM_ENTRY_BYTES directory))"

definition cpm_open :: "bytes \<Rightarrow> dpb \<Rightarrow> string \<Rightarrow> cpm_catalog result" where
  "cpm_open volume p declared_as =
     rbind (dpb_check p) (\<lambda>_.
       let len = length volume in
       if len > CPM_BOUND then Inl (categorized_image Unsupported CPM_PROFILE)
       else if directory_offset p + directory_bytes p \<ge> 2 ^ 64 then Inl cpm_refuse
       else let directory_end = directory_offset p + directory_bytes p in
       if directory_end > len then Inl cpm_refuse
       else rbind (image_read volume 0 len) (\<lambda>raw.
         let img = to_logical p raw;
             entries = sort_key de_extent
               (directory_slots p (slice (directory_offset p) (directory_bytes p) img))
         in rbind (assemble entries p) (\<lambda>files.
              Inr \<lparr>pc_image = img, pc_dpb = p, pc_declared_as = declared_as, pc_files = files\<rparr>)))"

definition cpm_open_declared :: "bytes \<Rightarrow> cpm_layout \<Rightarrow> cpm_catalog result" where
  "cpm_open_declared volume l = cpm_open volume (layout_dpb l) (layout_id l)"

definition cpm_entry :: "cpm_file \<Rightarrow> entry" where
  "cpm_entry f =
     \<lparr>en_name = cf_name f, en_kind = FileKind, en_size = cpm_size_bytes f,
      en_declared =
        [fact_new ''user'' (dec (unat (cf_user f))),
         fact_new ''size-records'' (dec (cpm_records f)),
         fact_new ''extents'' (dec (cf_extents f)),
         fact_new ''attributes'' (map char_of (attributes f)),
         fact_new ''read-only'' (bool_text (cf_read_only f)),
         fact_new ''system'' (bool_text (cf_system f)),
         fact_new ''archived'' (bool_text (cf_archived f))]\<rparr>"

definition cpm_find :: "cpm_catalog \<Rightarrow> ustring \<Rightarrow> cpm_file option" where
  "cpm_find c p = find (\<lambda>f. eq_ignore_ascii_case (cf_name f) p) (pc_files c)"

definition cpm_entries :: "cpm_catalog \<Rightarrow> ustring \<Rightarrow> entry list result" where
  "cpm_entries c p =
     (if \<not> path_is_root p then Inl (categorized_image NotDirectory CPM_PROFILE)
      else Inr (map cpm_entry (pc_files c)))"

definition cpm_stat :: "cpm_catalog \<Rightarrow> ustring \<Rightarrow> entry option result" where
  "cpm_stat c p = Inr (map_option cpm_entry (cpm_find c p))"

text \<open>The blocks of a file until its records are read: the bytes, or the refusal of a block the
  image does not hold, or of records no block was claimed for.\<close>

fun read_blocks :: "cpm_catalog \<Rightarrow> nat list \<Rightarrow> nat \<Rightarrow> bytes \<Rightarrow> bytes result" where
  "read_blocks c [] wanted bs =
     (if wanted > 0 then Inl (categorized_image Unavailable CPM_PROFILE) else Inr bs)"
| "read_blocks c (b # blocks) wanted bs =
     (if wanted = 0 then Inr bs
      else let taken = min wanted (records_per_block (pc_dpb c));
               start = directory_offset (pc_dpb c) + b * block_bytes (pc_dpb c);
               stop = start + taken * RECORD_BYTES
           in if stop > length (pc_image c) then Inl (categorized_image Unavailable CPM_PROFILE)
              else read_blocks c blocks (wanted - taken) (bs @ slice start (taken * RECORD_BYTES) (pc_image c)))"

definition cpm_read_file :: "cpm_catalog \<Rightarrow> ustring \<Rightarrow> bytes result" where
  "cpm_read_file c p =
     (case cpm_find c p of
        None \<Rightarrow> Inl (categorized_image NotFound CPM_PROFILE)
      | Some f \<Rightarrow> read_blocks c (cf_blocks f) (cpm_records f) [])"

end
