(* ===== verification/Cpm_Proofs.thy ===== *)
theory Cpm_Proofs
  imports Cpm
begin

text \<open>
  A checked layout's sector map is a permutation and the translation moves every sector once, to the
  place its logical number has; joining keeps one file for each user and name, its blocks in extent
  order; a file that reads has the size stated.
\<close>

section \<open>The check\<close>

lemma distinct_remdups_adj_sorted: "sorted xs \<Longrightarrow> distinct (remdups_adj xs)"
proof (induction xs rule: remdups_adj.induct)
  case (3 x y xs)
  then show ?case by (cases "x = y") (auto simp: order.antisym)
qed simp_all

lemma skew_permutes:
  assumes "dpb_check p = Inr ()"
  shows "distinct (skew p)" "set (skew p) = {..<length (skew p)}"
proof -
  let ?xs = "skew p" and ?seen = "remdups_adj (sort (skew p))"
  have c: "?xs \<noteq> []" "length ?seen = length ?xs" "last ?seen = length ?xs - 1"
    using assms by (auto simp: dpb_check_def Let_def split: if_splits)
  have d: "distinct ?seen" by (rule distinct_remdups_adj_sorted) simp
  have "card (set ?xs) = length ?xs" using distinct_card [OF d] c(2) by simp
  then show "distinct ?xs" by (rule card_distinct)
  have "x \<le> last ?seen" if "x \<in> set ?xs" for x
  proof -
    have "x \<in> set ?seen" "sorted ?seen" using that by (simp_all add: sorted_remdups_adj)
    then show ?thesis by (metis last_in_set list.set_sel(2) empty_iff empty_set in_set_conv_nth
        last_conv_nth length_pos_if_in_set less_Suc_eq_le Suc_pred' sorted_nth_mono diff_less zero_less_one)
  qed
  then have "x < length ?xs" if "x \<in> set ?xs" for x
    using that c by (metis diff_less length_greater_0_conv less_numeral_extra(1) order_le_less_trans)
  then have "set ?xs \<subseteq> {..<length ?xs}" by auto
  then show "set ?xs = {..<length ?xs}"
    using \<open>card (set ?xs) = length ?xs\<close> by (intro card_subset_eq) simp_all
qed

lemma dpb_check_sectors:
  assumes "dpb_check p = Inr ()"
  shows "track_bytes p = length (skew p) * sector_bytes p"
  using assms by (auto simp: dpb_check_def sector_bytes_def split: if_splits)

section \<open>The translation\<close>

lemma place_sectors_length [simp]: "length (place_sectors sec chunk start logical ps out) = length out"
  by (induction sec chunk start logical ps out rule: place_sectors.induct) (auto simp: Let_def)

lemma place_sectors_before:
  "at + n \<le> start + logical * sec \<Longrightarrow>
    slice at n (place_sectors sec chunk start logical ps out) = slice at n out"
  by (induction sec chunk start logical ps out rule: place_sectors.induct)
    (auto simp: Let_def slice_splice_disjoint)

lemma place_sectors_at:
  "list_all (\<lambda>f. f * sec + sec \<le> length chunk) ps \<Longrightarrow> start + (logical + length ps) * sec \<le> length out \<Longrightarrow>
    j < length ps \<Longrightarrow>
    slice (start + (logical + j) * sec) sec (place_sectors sec chunk start logical ps out) =
    slice (ps ! j * sec) sec chunk"
proof (induction sec chunk start logical ps out arbitrary: j rule: place_sectors.induct)
  case (2 sec chunk start logical f ps out)
  let ?out = "splice (start + logical * sec) (slice (f * sec) sec chunk) out"
  have fits: "f * sec + sec \<le> length chunk" "start + logical * sec + sec \<le> length out"
    using 2(2,3) by (auto simp: algebra_simps)
  then have l: "length (slice (f * sec) sec chunk) = sec" "length ?out = length out" by simp_all
  have out: "(if f * sec + sec > length chunk \<or> start + logical * sec + sec > length out then out else ?out) = ?out"
    using fits by simp
  have step: "place_sectors sec chunk start logical (f # ps) out =
      place_sectors sec chunk start (logical + 1) ps ?out"
    unfolding place_sectors.simps Let_def out ..
  show ?case
  proof (cases j)
    case 0
    have "slice (start + logical * sec) sec ?out = slice (f * sec) sec chunk"
      by (rule slice_splice_same) (use fits l in simp_all)
    then show ?thesis
      unfolding step 0 using place_sectors_before [of "start + logical * sec" sec start "logical + 1" sec chunk ps ?out]
      by (simp add: algebra_simps)
  next
    case (Suc k)
    then show ?thesis
      unfolding step using 2(1) [OF refl refl, unfolded out, of k] 2(2-4) l by simp
  qed
qed simp

lemma place_tracks_length [simp]: "length (place_tracks p k cs out) = length out"
  by (induction p k cs out rule: place_tracks.induct) simp_all

lemma place_tracks_before:
  "at + n \<le> k * track_bytes p \<Longrightarrow> slice at n (place_tracks p k cs out) = slice at n out"
  by (induction p k cs out rule: place_tracks.induct) (auto simp: place_sectors_before)

lemma sector_within:
  assumes "dpb_check p = Inr ()" "f \<in> set (skew p)"
  shows "f * sector_bytes p + sector_bytes p \<le> track_bytes p"
proof -
  have "f + 1 \<le> length (skew p)" using skew_permutes(2) [OF assms(1)] assms(2) by auto
  then have "(f + 1) * sector_bytes p \<le> length (skew p) * sector_bytes p" by (rule mult_le_mono1)
  then show ?thesis using dpb_check_sectors [OF assms(1)] by simp
qed

lemma place_tracks_at:
  assumes ok: "dpb_check p = Inr ()"
  shows "length img = m * track_bytes p \<Longrightarrow> (k + m) * track_bytes p \<le> length out \<Longrightarrow> t < m \<Longrightarrow>
    j < length (skew p) \<Longrightarrow>
    slice ((k + t) * track_bytes p + j * sector_bytes p) (sector_bytes p)
      (place_tracks p k (chunks_of (track_bytes p) img) out) =
    slice (t * track_bytes p + skew p ! j * sector_bytes p) (sector_bytes p) img"
proof (induction m arbitrary: img k out t)
  case (Suc m)
  let ?tb = "track_bytes p" and ?sec = "sector_bytes p"
  let ?out = "place_sectors ?sec (take ?tb img) (k * ?tb) 0 (skew p) out"
  have tb: "0 < ?tb" using ok by (auto simp: dpb_check_def split: if_splits)
  then have ne: "img \<noteq> []" using Suc.prems(1) by auto
  have step: "place_tracks p k (chunks_of ?tb img) out =
      place_tracks p (k + 1) (chunks_of ?tb (drop ?tb img)) ?out"
    by (simp add: chunks_of_step [OF ne tb])
  have sj: "skew p ! j * ?sec + ?sec \<le> ?tb" using sector_within [OF ok] Suc.prems(4) by simp
  show ?case
  proof (cases t)
    case 0
    have "list_all (\<lambda>f. f * ?sec + ?sec \<le> length (take ?tb img)) (skew p)"
      using sector_within [OF ok] Suc.prems(1) by (simp add: list_all_iff)
    moreover have "k * ?tb + (0 + length (skew p)) * ?sec \<le> length out"
      using Suc.prems(2) dpb_check_sectors [OF ok] by (simp add: algebra_simps)
    ultimately have "slice (k * ?tb + (0 + j) * ?sec) ?sec ?out = slice (skew p ! j * ?sec) ?sec (take ?tb img)"
      by (rule place_sectors_at [OF _ _ Suc.prems(4)])
    also have "\<dots> = slice (skew p ! j * ?sec) ?sec img"
      using sj slice_slice [of "skew p ! j * ?sec" ?sec ?tb 0 img] by (simp add: slice_def)
    finally have s: "slice (k * ?tb + j * ?sec) ?sec ?out = slice (skew p ! j * ?sec) ?sec img" by simp
    have "(j + 1) * ?sec \<le> length (skew p) * ?sec" by (rule mult_le_mono1) (use Suc.prems(4) in simp)
    then have "k * ?tb + j * ?sec + ?sec \<le> (k + 1) * ?tb" using dpb_check_sectors [OF ok] by simp
    from place_tracks_before [OF this] show ?thesis unfolding step using s 0 by simp
  next
    case (Suc u)
    have "slice ((k + 1 + u) * ?tb + j * ?sec) ?sec (place_tracks p (k + 1) (chunks_of ?tb (drop ?tb img)) ?out) =
        slice (u * ?tb + skew p ! j * ?sec) ?sec (drop ?tb img)"
      by (rule Suc.IH) (use Suc.prems Suc in simp_all)
    then show ?thesis unfolding step using Suc by (simp add: slice_def add.assoc add.commute)
  qed
qed simp

lemma unskewed: "\<not> skews p \<Longrightarrow> j < length (skew p) \<Longrightarrow> skew p ! j = j"
proof -
  assume u: "\<not> skews p" and j: "j < length (skew p)"
  have "zip [0..<length (skew p)] (skew p) ! j \<in> set (zip [0..<length (skew p)] (skew p))"
    by (rule nth_mem) (use j in simp)
  then have "(j, skew p ! j) \<in> set (zip [0..<length (skew p)] (skew p))" using j by simp
  then show "skew p ! j = j" using u by (fastforce simp: skews_def list_ex_iff)
qed

text \<open>
  C29: for a layout that passes its check, the translation to logical order is a permutation of every
  track's sectors: it keeps the image's length, the sector at logical place j of a track is the one
  the map names, and the map names every sector of the track exactly once.
\<close>
theorem to_logical_permutes:
  assumes "dpb_check p = Inr ()" "length img = m * track_bytes p" "t < m" "j < length (skew p)"
  shows "slice (t * track_bytes p + j * sector_bytes p) (sector_bytes p) (to_logical p img) =
      slice (t * track_bytes p + skew p ! j * sector_bytes p) (sector_bytes p) img \<and>
    length (to_logical p img) = length img \<and>
    track_bytes p = length (skew p) * sector_bytes p \<and>
    bij_betw ((!) (skew p)) {..<length (skew p)} {..<length (skew p)}"
proof (intro conjI)
  show "slice (t * track_bytes p + j * sector_bytes p) (sector_bytes p) (to_logical p img) =
      slice (t * track_bytes p + skew p ! j * sector_bytes p) (sector_bytes p) img"
  proof (cases "skews p")
    case True
    then show ?thesis
      using place_tracks_at [OF assms(1,2), of 0 "replicate (length img) 0"] assms(2-) by (simp add: to_logical_def)
  qed (simp add: to_logical_def unskewed assms(4))
  show "bij_betw ((!) (skew p)) {..<length (skew p)} {..<length (skew p)}"
    using bij_betw_nth [OF skew_permutes(1) [OF assms(1)] refl skew_permutes(2) [OF assms(1), symmetric]]
    by simp
qed (simp_all add: to_logical_def dpb_check_sectors [OF assms(1)])

section \<open>Joining extents\<close>

text \<open>A file is its user and name; its extents are the entries of that identity, in order.\<close>

definition file_identity :: "cpm_file \<Rightarrow> u8 \<times> ustring" where
  "file_identity f = (cf_user f, cf_name f)"

definition entry_identity :: "cpm_dirent \<Rightarrow> u8 \<times> ustring" where
  "entry_identity e = (de_user e, dirent_display_name e)"

definition extents_of :: "cpm_dirent list \<Rightarrow> cpm_file \<Rightarrow> cpm_dirent list" where
  "extents_of es f = filter (\<lambda>e. entry_identity e = file_identity f) es"

definition made_of :: "cpm_dirent list \<Rightarrow> cpm_file \<Rightarrow> bool" where
  "made_of es f \<longleftrightarrow>
     (let xs = extents_of es f in
      xs \<noteq> [] \<and> cf_blocks f = concat (map de_blocks xs) \<and> cf_extents f = length xs \<and>
      cf_last_extent_records f = de_records (last xs))"

lemma join_identities:
  "map file_identity (join_extent e (dirent_display_name e) fs) =
    (if entry_identity e \<in> set (map file_identity fs) then map file_identity fs
     else map file_identity fs @ [entry_identity e])"
  by (induction fs) (auto simp: file_identity_def entry_identity_def extend_file_def new_file_def)

lemma join_members:
  "f \<in> set (join_extent e (dirent_display_name e) fs) \<Longrightarrow> distinct (map file_identity fs) \<Longrightarrow>
    f \<in> set fs \<and> file_identity f \<noteq> entry_identity e \<or>
    (\<exists>g \<in> set fs. file_identity g = entry_identity e \<and> f = extend_file e g) \<or>
    entry_identity e \<notin> set (map file_identity fs) \<and> f = new_file e (dirent_display_name e)"
proof (induction fs)
  case (Cons g fs)
  show ?case
  proof (cases "file_identity g = entry_identity e")
    case True
    then have "f = extend_file e g \<or> f \<in> set fs"
      using Cons.prems(1) by (auto simp: file_identity_def entry_identity_def)
    moreover have "file_identity h \<noteq> entry_identity e" if "h \<in> set fs" for h
      using Cons.prems(2) True that by (metis distinct.simps(2) image_eqI list.set_map list.simps(9))
    ultimately show ?thesis using True by auto
  next
    case False
    then have "f = g \<or> f \<in> set (join_extent e (dirent_display_name e) fs)"
      using Cons.prems(1) by (auto simp: file_identity_def entry_identity_def)
    then show ?thesis using Cons False by auto
  qed
qed simp

lemma made_of_join:
  assumes "distinct (map file_identity fs)" "\<forall>f \<in> set fs. made_of es f"
    "set (map entry_identity es) = set (map file_identity fs)"
    "f \<in> set (join_extent e (dirent_display_name e) fs)"
  shows "made_of (es @ [e]) f"
  using join_members [OF assms(4,1)]
proof (elim disjE conjE bexE)
  assume "f \<in> set fs" "file_identity f \<noteq> entry_identity e"
  then show ?thesis using assms(2) by (auto simp: made_of_def extents_of_def)
next
  fix g assume g: "g \<in> set fs" "file_identity g = entry_identity e" "f = extend_file e g"
  then have "file_identity f = file_identity g" by (simp add: file_identity_def extend_file_def)
  then show ?thesis
    using assms(2) g by (auto simp: made_of_def extents_of_def Let_def extend_file_def)
next
  assume n: "entry_identity e \<notin> set (map file_identity fs)" "f = new_file e (dirent_display_name e)"
  then have "file_identity f = entry_identity e"
    by (simp add: file_identity_def entry_identity_def new_file_def)
  moreover have "filter (\<lambda>x. entry_identity x = entry_identity e) es = []"
  proof -
    have "entry_identity e \<notin> entry_identity ` set es" using n(1) assms(3) by simp
    then show ?thesis by (intro filter_False ballI) (metis imageI)
  qed
  ultimately show ?thesis using n(2) by (simp add: made_of_def extents_of_def new_file_def)
qed

lemma assemble_from_made:
  "assemble_from p es fs = Inr files \<Longrightarrow> distinct (map file_identity fs) \<Longrightarrow>
    \<forall>f \<in> set fs. made_of seen f \<Longrightarrow> set (map entry_identity seen) = set (map file_identity fs) \<Longrightarrow>
    distinct (map file_identity files) \<and> (\<forall>f \<in> set files. made_of (seen @ es) f) \<and>
    set (map entry_identity (seen @ es)) = set (map file_identity files)"
proof (induction p es fs arbitrary: seen rule: assemble_from.induct)
  case (2 p e es fs)
  let ?fs = "join_extent e (dirent_display_name e) fs"
  have go: "dirent_display_name e \<noteq> []" "\<not> list_ex (\<lambda>b. b \<ge> dpb_blocks p) (de_blocks e)"
    "assemble_from p es ?fs = Inr files"
    using 2(2) by (auto simp: Let_def split: if_splits)
  have "distinct (map file_identity ?fs)" using 2(3) unfolding join_identities by auto
  moreover have "\<forall>f \<in> set ?fs. made_of (seen @ [e]) f"
    using made_of_join [OF 2(3-5)] by blast
  moreover have "set (map entry_identity (seen @ [e])) = set (map file_identity ?fs)"
    unfolding join_identities using 2(5) by auto
  ultimately show ?case using 2(1) [OF refl go, of "seen @ [e]"] by simp
qed simp

lemma assemble_from_within:
  "assemble_from p es fs = Inr files \<Longrightarrow> e \<in> set es \<Longrightarrow> b \<in> set (de_blocks e) \<Longrightarrow> b < dpb_blocks p"
  by (induction p es fs rule: assemble_from.induct) (auto simp: Let_def list_ex_iff not_le split: if_splits)

text \<open>
  Joining extents gives one file for each user and name the directory states and no other; each
  file's blocks are those of its extents end to end, in the order given, its count the number of them
  and its last record count the last one's; and every block lies inside the volume declared.
\<close>
theorem assemble_joins:
  assumes "assemble es p = Inr files"
  shows "distinct (map file_identity files) \<and>
    set (map file_identity files) = set (map entry_identity es) \<and>
    list_all (made_of es) files \<and> list_all (\<lambda>f. list_all (\<lambda>b. b < dpb_blocks p) (cf_blocks f)) files"
proof -
  have m: "distinct (map file_identity files) \<and> (\<forall>f \<in> set files. made_of es f) \<and>
      set (map entry_identity es) = set (map file_identity files)"
    using assemble_from_made [of p es "[]" files "[]"] assms by (simp add: assemble_def)
  moreover have "b < dpb_blocks p" if "f \<in> set files" "b \<in> set (cf_blocks f)" for f b
  proof -
    have "b \<in> set (concat (map de_blocks (extents_of es f)))"
      using that m by (auto simp: made_of_def Let_def)
    then obtain e where "e \<in> set es" "b \<in> set (de_blocks e)" by (auto simp: extents_of_def)
    then show ?thesis using assemble_from_within assms unfolding assemble_def by blast
  qed
  ultimately show ?thesis by (simp add: list_all_iff)
qed

section \<open>The contract\<close>

lemma read_blocks_length:
  "read_blocks c blocks wanted bs = Inr out \<Longrightarrow> length out = length bs + wanted * RECORD_BYTES"
proof (induction c blocks wanted bs rule: read_blocks.induct)
  case (2 c b blocks wanted bs)
  show ?case
  proof (cases "wanted = 0")
    case False
    then show ?thesis
      using 2 by (auto simp: Let_def not_less split: if_splits) (simp flip: add_mult_distrib)
  qed (use 2 in simp)
qed (auto split: if_splits)

definition cpm_ready :: "cpm_catalog \<Rightarrow> bool" where
  "cpm_ready c \<longleftrightarrow> dpb_check (pc_dpb c) = Inr ()"

interpretation cpm: flat_catalog cpm_entries cpm_stat cpm_read_file cpm_ready
proof unfold_locales
  show "path_is_root p \<Longrightarrow> cpm_entries c p = cpm_entries c []" for c p
    by (simp add: cpm_entries_def)
  show "\<not> path_is_root p \<Longrightarrow> \<exists>e. cpm_entries c p = Inl e \<and> err_category e = NotDirectory" for c p
    by (simp add: cpm_entries_def error_defs)
  show "cpm_stat c p = Inr (find (\<lambda>e. eq_ignore_ascii_case (en_name e) p) es)"
    if "cpm_entries c [] = Inr es" for c es p
    using that by (auto simp: cpm_entries_def cpm_stat_def cpm_find_def find_map comp_def cpm_entry_def)
  show "\<exists>e. cpm_stat c p = Inr (Some e) \<and> en_size e = length bs" if "cpm_read_file c p = Inr bs" for c p bs
    using that read_blocks_length [of c _ _ "[]" bs]
    by (auto simp: cpm_read_file_def cpm_stat_def cpm_entry_def cpm_size_bytes_def split: option.splits)
qed

section \<open>Witnesses\<close>

definition two_sectors :: dpb where
  "two_sectors = \<lparr>records_per_track = 2, block_bytes = 1024, dpb_blocks = 4, directory_entries = 1,
     reserved_tracks = 0, track_bytes = 4, skew = [1, 0]\<rparr>"

lemma to_logical_permutes_witness:
  "slice 4 2 (to_logical two_sectors [1, 2, 3, 4, 5, 6, 7, 8]) = [7, 8]"
proof -
  have "(4 :: nat) mod Suc (Suc 0) = 0" "(4 :: nat) div Suc (Suc 0) = 2" by presburger+
  then have c: "dpb_check two_sectors = Inr ()" and s: "sector_bytes two_sectors = 2"
    by (simp_all add: dpb_check_def sector_bytes_def two_sectors_def)
  have f: "track_bytes two_sectors = 4" "skew two_sectors = [1, 0]" by (simp_all add: two_sectors_def)
  from to_logical_permutes [OF c, of "[1, 2, 3, 4, 5, 6, 7, 8]" 2 1 0]
  show ?thesis by (simp add: f s) (simp add: slice_def)
qed

definition an_extent :: "nat \<Rightarrow> nat list \<Rightarrow> nat \<Rightarrow> cpm_dirent" where
  "an_extent n blocks records =
     \<lparr>de_user = 0, de_name = [65, 32], de_kind = [], de_extent = n, de_records = records,
      de_blocks = blocks, de_read_only = False, de_system = False, de_archived = False\<rparr>"

lemma assemble_joins_witness:
  "case assemble [an_extent 0 [2, 3] 128, an_extent 1 [1] 5] two_sectors of
     Inr files \<Rightarrow> distinct (map file_identity files) \<and> list_all (made_of [an_extent 0 [2, 3] 128, an_extent 1 [1] 5]) files
   | Inl _ \<Rightarrow> False"
proof -
  have "dirent_display_name (an_extent n bs r) = [65]" for n bs r
    by (simp add: dirent_display_name_def an_extent_def trim_end_def is_whitespace_def)
  then have "\<exists>files. assemble [an_extent 0 [2, 3] 128, an_extent 1 [1] 5] two_sectors = Inr files"
    by (simp add: assemble_def two_sectors_def an_extent_def Let_def)
  then obtain files where "assemble [an_extent 0 [2, 3] 128, an_extent 1 [1] 5] two_sectors = Inr files" ..
  then show ?thesis using assemble_joins by auto
qed

end
