(* ===== verification/Fs_Catalog.thy ===== *)
theory Fs_Catalog
  imports Cpm_Proofs Hdos_Proofs
begin

text \<open>
  The filesystem adapters and their catalog (\<open>src/crates/remanence/src/filesystem/catalog.rs\<close>):
  the probes, the strongest match, detection and the adapter a declaration names. The evidence an
  adapter states is prose and is left out; no operation branches on it. The device is the bytes it
  presents, and a catalog opened over it one of the two the built-in adapters open.
\<close>

datatype probe_result = NoMatch | Match nat

datatype fs_catalog = HdosNamespace hdos_catalog | CpmNamespace cpm_catalog

record adapter =
  ad_id :: string
  ad_name :: string
  ad_probe :: "bytes \<Rightarrow> probe_result result"
  ad_open :: "bytes \<Rightarrow> fs_catalog result"

definition recognized_not_read :: "string \<Rightarrow> error" where
  "recognized_not_read i =
     broke_rule (categorized_image Unsupported i) (space_rule_as_str RecognizedNotRead)"

section \<open>Detection\<close>

fun strongest_from :: "adapter list \<Rightarrow> bytes \<Rightarrow> nat \<Rightarrow> adapter list \<Rightarrow> (nat \<times> adapter list) result" where
  "strongest_from [] v best candidates = Inr (best, candidates)"
| "strongest_from (a # as) v best candidates =
     rbind (ad_probe a v) (\<lambda>r.
       case r of
         NoMatch \<Rightarrow> strongest_from as v best candidates
       | Match confidence \<Rightarrow>
           if confidence < best then strongest_from as v best candidates
           else strongest_from as v confidence
                  ((if confidence > best then [] else candidates) @ [a]))"

definition strongest :: "adapter list \<Rightarrow> bytes \<Rightarrow> (nat \<times> adapter list) result" where
  "strongest as v = strongest_from as v 0 []"

record identification =
  filesystem_id :: "string option"
  filesystem_name :: "string option"
  confidence :: nat

definition detect_with :: "adapter list \<Rightarrow> bytes \<Rightarrow> identification result" where
  "detect_with as v =
     rbind (strongest as v) (\<lambda>(best, candidates).
       Inr (case candidates of
              [a] \<Rightarrow> \<lparr>filesystem_id = Some (ad_id a), filesystem_name = Some (ad_name a), confidence = best\<rparr>
            | _ \<Rightarrow> \<lparr>filesystem_id = None, filesystem_name = None, confidence = 0\<rparr>))"

section \<open>The HDOS probe\<close>

definition CHUNK :: nat where "CHUNK = 4096"
definition MARKER :: string where "MARKER = ''HDOS''"

definition windows :: "nat \<Rightarrow> 'a list \<Rightarrow> 'a list list" where
  "windows n xs = map (\<lambda>i. slice i n xs) [0..<length xs + 1 - n]"

definition has_marker :: "bytes \<Rightarrow> bool" where
  "has_marker bs =
     list_ex (\<lambda>w. eq_ignore_ascii_case (map unat w) (codes MARKER)) (windows (length MARKER) bs)"

function hdos_scan :: "bytes \<Rightarrow> nat \<Rightarrow> bytes \<Rightarrow> probe_result result" where
  "hdos_scan v off carry =
     (if off < length v then
        let n = min (length v - off) CHUNK in
        case image_read v off n of
          Inl e \<Rightarrow> Inl e
        | Inr chunk \<Rightarrow>
            let carry1 = carry @ chunk in
            if has_marker carry1 then Inr (Match 80)
            else hdos_scan v (off + n)
                   (if length carry1 \<ge> length MARKER then drop (length carry1 - (length MARKER - 1)) carry1
                    else carry1)
      else Inr NoMatch)"
  by pat_completeness auto
termination
  by (relation "measure (\<lambda>(v, off, _). length v - off)") (auto simp: CHUNK_def)

declare hdos_scan.simps [simp del]

definition hdos_probe :: "bytes \<Rightarrow> probe_result result" where
  "hdos_probe v = hdos_scan v 0 []"

definition HDOS_ADAPTER :: adapter where
  "HDOS_ADAPTER =
     \<lparr>ad_id = ''hdos'', ad_name = ''Heath Disk Operating System'', ad_probe = hdos_probe,
      ad_open = (\<lambda>v. rbind (hdos_open v) (\<lambda>c. Inr (HdosNamespace c)))\<rparr>"

section \<open>The CP/M probe\<close>

definition is_cpm_name_byte :: "u8 \<Rightarrow> bool" where
  "is_cpm_name_byte b =
     (let m = unat b mod 128 in
      65 \<le> m \<and> m \<le> 90 \<or> 48 \<le> m \<and> m \<le> 57 \<or> m \<in> set (codes '' !#$%&-@^_`{}~'') \<or> m = 39)"

definition looks_like_cpm_directory_entry :: "bytes \<Rightarrow> bool" where
  "looks_like_cpm_directory_entry e =
     (if length e \<noteq> 32 \<or> e ! 0 = 0xe5 \<or> e ! 0 > 15 then False
      else let name = slice 1 11 e
           in list_ex (\<lambda>b. b \<noteq> 0x20) (take 8 name) \<and> list_all is_cpm_name_byte name)"

definition DIRECTORY_SIZE :: nat where "DIRECTORY_SIZE = 2048"
definition OFFSETS :: "nat list" where "OFFSETS = [0, 2560, 5120, 7680, 10240]"

fun count_from :: "bytes \<Rightarrow> nat list \<Rightarrow> nat \<Rightarrow> nat result" where
  "count_from v [] best = Inr best"
| "count_from v (off # offs) best =
     (if off + DIRECTORY_SIZE > length v then count_from v offs best
      else rbind (image_read v off DIRECTORY_SIZE) (\<lambda>directory.
             count_from v offs
               (max best (length (filter looks_like_cpm_directory_entry
                  (filter (\<lambda>e. length e = 32) (chunks_of 32 directory)))))))"

definition count_plausible_cpm_directory_entries :: "bytes \<Rightarrow> nat result" where
  "count_plausible_cpm_directory_entries v = count_from v OFFSETS 0"

definition cpm_probe :: "bytes \<Rightarrow> probe_result result" where
  "cpm_probe v =
     rbind (count_plausible_cpm_directory_entries v) (\<lambda>n.
       if n < 2 then Inr NoMatch else Inr (Match (60 + min n 8 * 5)))"

definition CPM_ADAPTER :: adapter where
  "CPM_ADAPTER =
     \<lparr>ad_id = ''cpm'', ad_name = ''CP/M'', ad_probe = cpm_probe,
      ad_open = (\<lambda>_. Inl (recognized_not_read ''cpm''))\<rparr>"

definition layout_adapter :: "cpm_layout \<Rightarrow> adapter" where
  "layout_adapter l =
     \<lparr>ad_id = layout_id l, ad_name = layout_name l, ad_probe = (\<lambda>_. Inr NoMatch),
      ad_open = (\<lambda>v. rbind (cpm_open_declared v l) (\<lambda>c. Inr (CpmNamespace c)))\<rparr>"

definition BUILT_INS :: "adapter list" where
  "BUILT_INS = [HDOS_ADAPTER, CPM_ADAPTER, layout_adapter CPM_HEATH_H17, layout_adapter CPM_HEATH_SOFT]"

definition detect :: "bytes \<Rightarrow> identification result" where
  "detect v = detect_with BUILT_INS v"

definition by_id :: "string \<Rightarrow> adapter result" where
  "by_id i =
     (case find (\<lambda>a. ad_id a = i) BUILT_INS of
        Some a \<Rightarrow> Inr a
      | None \<Rightarrow> Inl (categorized_io Unsupported))"

section \<open>The scan finds what the whole volume holds\<close>

lemma has_marker_iff:
  "has_marker bs \<longleftrightarrow>
    (\<exists>i. i + 4 \<le> length bs \<and> eq_ignore_ascii_case (map unat (slice i 4 bs)) (codes MARKER))"
proof -
  have "length MARKER = 4" by (simp add: MARKER_def)
  moreover have "i \<in> set [0..<length bs + 1 - 4] \<longleftrightarrow> i + 4 \<le> length bs" for i by auto
  ultimately show ?thesis
    by (simp only: has_marker_def windows_def list_ex_iff set_map bex_simps) blast
qed

lemma has_marker_split:
  assumes "k \<le> n" "n \<le> length v"
  shows "has_marker (take n v) \<longleftrightarrow> has_marker (take k v) \<or> has_marker (drop (k - 3) (take n v))"
proof
  assume "has_marker (take n v)"
  then obtain i where i: "i + 4 \<le> n"
    "eq_ignore_ascii_case (map unat (slice i 4 (take n v))) (codes MARKER)"
    using assms by (auto simp: has_marker_iff)
  show "has_marker (take k v) \<or> has_marker (drop (k - 3) (take n v))"
  proof (cases "i + 4 \<le> k")
    case True
    then have "slice i 4 (take k v) = slice i 4 (take n v)"
      using i(1) by (simp add: slice_def drop_take min_def)
    then show ?thesis using True i(2) assms by (auto simp: has_marker_iff)
  next
    case False
    then have "slice (i - (k - 3)) 4 (drop (k - 3) (take n v)) = slice i 4 (take n v)"
      by (simp add: slice_def)
    moreover have "i - (k - 3) + 4 \<le> length (drop (k - 3) (take n v))" using False i(1) assms by simp
    ultimately show ?thesis unfolding has_marker_iff using i(2) by metis
  qed
next
  assume "has_marker (take k v) \<or> has_marker (drop (k - 3) (take n v))"
  then show "has_marker (take n v)"
  proof
    assume "has_marker (take k v)"
    then obtain i where i: "i + 4 \<le> k"
      "eq_ignore_ascii_case (map unat (slice i 4 (take k v))) (codes MARKER)"
      using assms by (auto simp: has_marker_iff)
    moreover have "slice i 4 (take k v) = slice i 4 (take n v)"
      using i(1) assms by (simp add: slice_def drop_take min_def)
    ultimately show ?thesis unfolding has_marker_iff using assms by (intro exI [of _ i]) simp
  next
    assume "has_marker (drop (k - 3) (take n v))"
    then obtain i where i: "i + 4 \<le> length (drop (k - 3) (take n v))"
      "eq_ignore_ascii_case (map unat (slice i 4 (drop (k - 3) (take n v)))) (codes MARKER)"
      unfolding has_marker_iff by blast
    moreover have "slice i 4 (drop (k - 3) (take n v)) = slice (i + (k - 3)) 4 (take n v)"
      by (simp add: slice_def)
    ultimately show ?thesis unfolding has_marker_iff using i(1) by (intro exI [of _ "i + (k - 3)"]) (auto simp: min_def split: if_splits)
  qed
qed

lemma hdos_scan_finds:
  "off \<le> length v \<Longrightarrow> \<not> has_marker (take off v) \<Longrightarrow> carry = drop (off - 3) (take off v) \<Longrightarrow>
    hdos_scan v off carry = Inr (if has_marker v then Match 80 else NoMatch)"
proof (induction v off carry rule: hdos_scan.induct)
  case (1 v off carry)
  show ?case
  proof (cases "off < length v")
    case True
    define n where "n = min (length v - off) CHUNK"
    let ?prefix = "take (off + n) v"
    have n: "off + n \<le> length v" "0 < n" using True by (auto simp: n_def CHUNK_def)
    have r: "image_read v off n = Inr (slice off n v)" by (rule image_read_Inr [OF n(1)])
    have grown: "carry @ slice off n v = drop (off - 3) ?prefix"
      using 1(4) n by (simp add: slice_def take_add)
    have split: "has_marker ?prefix \<longleftrightarrow> has_marker (carry @ slice off n v)"
      using has_marker_split [of off "off + n" v] n 1(3) unfolding grown by simp
    show ?thesis
    proof (cases "has_marker (carry @ slice off n v)")
      case True
      then have "has_marker ?prefix" using split by simp
      then have "has_marker v"
        using has_marker_split [of "off + n" "length v" v] n(1) by simp
      then show ?thesis
        using \<open>off < length v\<close> True r by (subst hdos_scan.simps) (simp add: Let_def flip: n_def)
    next
      case False
      let ?carry = "carry @ slice off n v"
      define kept where "kept = (if length ?carry \<ge> length MARKER then
          drop (length ?carry - (length MARKER - 1)) ?carry else ?carry)"
      have "kept = drop (off + n - 3) ?prefix"
        unfolding kept_def grown using n by (auto simp: MARKER_def)
      then have "hdos_scan v (off + n) kept = Inr (if has_marker v then Match 80 else NoMatch)"
        using 1(1) [OF \<open>off < length v\<close> n_def r refl False] n(1) False split unfolding kept_def by simp
      then show ?thesis
        using \<open>off < length v\<close> False r
        by (subst hdos_scan.simps) (simp add: Let_def kept_def flip: n_def)
    qed
  next
    case False
    then show ?thesis using 1(2,3) by (subst hdos_scan.simps) simp
  qed
qed

text \<open>
  The HDOS probe, which reads the volume in chunks and carries three bytes between them, matches
  exactly when the marker stands anywhere in the volume, in either case, across a chunk's edge or not.
\<close>
theorem hdos_probe_is_search:
  "hdos_probe v = Inr (if \<exists>i. i + 4 \<le> length v \<and> eq_ignore_ascii_case (map unat (slice i 4 v)) (codes ''HDOS'')
     then Match 80 else NoMatch)"
  using hdos_scan_finds [of 0 v "[]"] by (simp add: hdos_probe_def has_marker_iff MARKER_def)

section \<open>Detection names the one strongest match\<close>

definition matched :: "bytes \<Rightarrow> adapter \<Rightarrow> nat option" where
  "matched v a = (case ad_probe a v of Inr (Match c) \<Rightarrow> Some c | _ \<Rightarrow> None)"

lemma strongest_from_spec:
  "strongest_from as v best candidates = Inr (s, cs) \<Longrightarrow>
    best \<le> s \<and> list_all (\<lambda>a. case matched v a of Some c \<Rightarrow> c \<le> s | None \<Rightarrow> True) as \<and>
    cs = (if s = best then candidates else []) @ filter (\<lambda>a. matched v a = Some s) as \<and>
    (s = best \<or> filter (\<lambda>a. matched v a = Some s) as \<noteq> [])"
proof (induction as v best candidates rule: strongest_from.induct)
  case (2 a as v best candidates)
  obtain r where r: "ad_probe a v = Inr r" using 2(4) by (cases "ad_probe a v") auto
  show ?case
  proof (cases r)
    case NoMatch
    then show ?thesis using 2(1) [OF r NoMatch] 2(4) r by (simp add: matched_def)
  next
    case (Match c)
    then have m: "matched v a = Some c" using r by (simp add: matched_def)
    show ?thesis
    proof (cases "c < best")
      case True
      then show ?thesis using 2(2) [OF r Match True] 2(4) r Match m by auto
    next
      case False
      then show ?thesis using 2(3) [OF r Match False] 2(4) r Match m by (cases "s = c") (auto split: if_splits)
    qed
  qed
qed simp

text \<open>
  Detection names a filesystem exactly where one adapter alone reached the greatest confidence
  any probe reached, and then that adapter and that confidence; a tie, or no match at all, names none.
\<close>
theorem detection_is_the_one_strongest:
  assumes "detect_with as v = Inr d"
  shows "\<exists>s. list_all (\<lambda>a. case matched v a of Some c \<Rightarrow> c \<le> s | None \<Rightarrow> True) as \<and>
    (s = 0 \<or> list_ex (\<lambda>a. matched v a = Some s) as) \<and>
    (case filter (\<lambda>a. matched v a = Some s) as of
       [a] \<Rightarrow> filesystem_id d = Some (ad_id a) \<and> filesystem_name d = Some (ad_name a) \<and> confidence d = s
     | _ \<Rightarrow> filesystem_id d = None \<and> filesystem_name d = None \<and> confidence d = 0)"
proof -
  obtain s cs where s: "strongest_from as v 0 [] = Inr (s, cs)"
    "d = (case cs of [a] \<Rightarrow> \<lparr>filesystem_id = Some (ad_id a), filesystem_name = Some (ad_name a), confidence = s\<rparr>
       | _ \<Rightarrow> \<lparr>filesystem_id = None, filesystem_name = None, confidence = 0\<rparr>)"
    using assms by (auto simp: detect_with_def strongest_def rbind_Inr_iff)
  note spec = strongest_from_spec [OF s(1)]
  then have "cs = filter (\<lambda>a. matched v a = Some s) as" by simp
  then show ?thesis
    using spec s(2) by (intro exI [of _ s]) (auto simp: list_ex_iff filter_empty_conv split: list.splits)
qed

definition marked :: bytes where "marked = [0x68, 0x44, 0x4f, 0x53]"

lemma marked_length: "length marked = 4"
  by (simp add: marked_def)

lemma marked_probe: "hdos_scan marked 0 [] = Inr (Match 80)"
proof -
  have "has_marker marked"
    unfolding has_marker_iff
    by (intro exI [of _ 0])
      (simp add: marked_def slice_def MARKER_def codes_def eq_ignore_ascii_case_def to_ascii_uppercase_def
        ascii_upper_def)
  then show ?thesis using hdos_scan_finds [of 0 marked "[]"] by (simp add: has_marker_iff)
qed

lemma detection_is_the_one_strongest_witness:
  "case detect marked of Inr d \<Rightarrow> filesystem_id d = Some ''hdos'' \<and> confidence d = 80 | Inl _ \<Rightarrow> False"
proof -
  have probes: "ad_probe HDOS_ADAPTER marked = Inr (Match 80)" "ad_probe CPM_ADAPTER marked = Inr NoMatch"
    "ad_probe (layout_adapter l) marked = Inr NoMatch" for l
    by (simp_all add: HDOS_ADAPTER_def hdos_probe_def marked_probe CPM_ADAPTER_def cpm_probe_def
        layout_adapter_def count_plausible_cpm_directory_entries_def OFFSETS_def DIRECTORY_SIZE_def
        marked_length)
  then have m: "matched marked HDOS_ADAPTER = Some 80" "matched marked CPM_ADAPTER = None"
    "matched marked (layout_adapter l) = None" for l
    by (simp_all add: matched_def)
  obtain d where d: "detect_with BUILT_INS marked = Inr d"
    by (simp add: detect_with_def strongest_def BUILT_INS_def probes)
  obtain s where s: "list_all (\<lambda>a. case matched marked a of Some c \<Rightarrow> c \<le> s | None \<Rightarrow> True) BUILT_INS"
    "s = 0 \<or> list_ex (\<lambda>a. matched marked a = Some s) BUILT_INS"
    "case filter (\<lambda>a. matched marked a = Some s) BUILT_INS of
       [a] \<Rightarrow> filesystem_id d = Some (ad_id a) \<and> filesystem_name d = Some (ad_name a) \<and> confidence d = s
     | _ \<Rightarrow> filesystem_id d = None \<and> filesystem_name d = None \<and> confidence d = 0"
    using detection_is_the_one_strongest [OF d] by blast
  then have "s = 80" by (auto simp: BUILT_INS_def m)
  then show ?thesis using s(3) d by (simp add: BUILT_INS_def m detect_def) (simp add: HDOS_ADAPTER_def)
qed

end
