(* ===== verification/Sections.thy ===== *)
theory Sections
  imports Wire_Proofs Checksum Device
begin

text \<open>
  The section-addressable backing of the flux models
  (\<open>src/crates/remanence/src/flux/capture/sections.rs\<close>): what a backing may be keyed by, the
  writer that appends sections and seals the index behind them, the reader that walks footer, root
  and leaf to one section, and the bounded working set of sections served. The keys of a capture's
  own sections are here, over the positions of \<open>records.rs\<close>.

  \<open>SectionAddress\<close> is a record of its operations and of the key order; \<open>ByteSource\<close> and
  \<open>ByteSink\<close> are the read and the append themselves. A cache's map from keys is an association
  list: its order never matters, because the marks entries are chosen by are all different.
\<close>

unbundle bit_operations_syntax

section \<open>Positions and tracks\<close>

fun gcd_steps :: "nat \<Rightarrow> nat \<Rightarrow> nat" where
  "gcd_steps a b = (if b = 0 then a else gcd_steps b (a mod b))"

declare gcd_steps.simps [simp del]

definition greatest_common_divisor :: "nat \<Rightarrow> nat \<Rightarrow> nat" where
  "greatest_common_divisor a b = max (gcd_steps a b) 1"

record source_position =
  sp_numerator :: nat
  sp_denominator :: nat

definition position_whole :: "nat \<Rightarrow> source_position" where
  "position_whole n = \<lparr>sp_numerator = n, sp_denominator = 1\<rparr>"

definition position_fraction :: "string \<Rightarrow> nat \<Rightarrow> nat \<Rightarrow> source_position result" where
  "position_fraction src n d =
     (if d = 0 then Inl (invalid_image src)
      else let g = greatest_common_divisor n d
           in Inr \<lparr>sp_numerator = n div g, sp_denominator = d div g\<rparr>)"

definition position_le :: "source_position \<Rightarrow> source_position \<Rightarrow> bool" where
  "position_le p q \<longleftrightarrow> sp_numerator p * sp_denominator q \<le> sp_numerator q * sp_denominator p"

record track_key =
  tk_namespace :: string
  tk_position :: source_position
  tk_head :: "nat option"

definition track_key_new :: "string \<Rightarrow> nat \<Rightarrow> nat \<Rightarrow> track_key" where
  "track_key_new ns p h = \<lparr>tk_namespace = ns, tk_position = position_whole p, tk_head = Some h\<rparr>"

section \<open>A capture's section keys\<close>

datatype scope_id = TrackScope | RunScope nat | ObservationScope nat

datatype section_kind =
  TrackMetadata | CaptureRunMetadata | ObservationMetadata | TransitionChunk | MarkerChunk | IssueChunk

record section_key =
  sk_track :: track_key
  sk_scope :: scope_id
  sk_kind :: section_kind
  sk_ordinal :: nat

definition utf8_of :: "string \<Rightarrow> bytes" where
  "utf8_of s = map of_char s"

fun scope_bytes :: "scope_id \<Rightarrow> bytes" where
  "scope_bytes TrackScope = write_varint 0"
| "scope_bytes (RunScope i) = write_varint 1 @ write_varint i"
| "scope_bytes (ObservationScope i) = write_varint 2 @ write_varint i"

fun kind_code :: "section_kind \<Rightarrow> nat" where
  "kind_code TrackMetadata = 0"
| "kind_code CaptureRunMetadata = 1"
| "kind_code ObservationMetadata = 2"
| "kind_code TransitionChunk = 3"
| "kind_code MarkerChunk = 4"
| "kind_code IssueChunk = 5"

definition kind_of_code :: "nat \<Rightarrow> section_kind option" where
  "kind_of_code n =
     (if n = 0 then Some TrackMetadata else if n = 1 then Some CaptureRunMetadata
      else if n = 2 then Some ObservationMetadata else if n = 3 then Some TransitionChunk
      else if n = 4 then Some MarkerChunk else if n = 5 then Some IssueChunk else None)"

definition head_code :: "nat option \<Rightarrow> nat" where
  "head_code h = (case h of None \<Rightarrow> 0 | Some k \<Rightarrow> min (k + 1) U64_MAX)"

definition write_section_key :: "section_key \<Rightarrow> bytes" where
  "write_section_key k =
     write_varint (length (utf8_of (tk_namespace (sk_track k)))) @ utf8_of (tk_namespace (sk_track k)) @
     write_varint (sp_numerator (tk_position (sk_track k))) @
     write_varint (sp_denominator (tk_position (sk_track k))) @
     write_varint (head_code (tk_head (sk_track k))) @
     scope_bytes (sk_scope k) @ write_varint (kind_code (sk_kind k)) @ write_varint (sk_ordinal k)"

text \<open>The namespace a key opens with, one of those the reader can place, and where it ends.\<close>

definition read_namespace :: "string \<Rightarrow> bytes \<Rightarrow> nat \<Rightarrow> string list \<Rightarrow> (string \<times> nat) result" where
  "read_namespace src bs at known =
     rbind (read_varint src bs at) (\<lambda>(len, used).
     case get_range bs (at + used) len of
       None \<Rightarrow> Inl (invalid_image src)
     | Some raw \<Rightarrow>
         if \<not> utf8_valid raw then Inl (invalid_image src)
         else case find (\<lambda>n. utf8_of n = raw) known of
                None \<Rightarrow> Inl (invalid_image src)
              | Some n \<Rightarrow> Inr (n, at + used + len))"

definition read_scope :: "string \<Rightarrow> bytes \<Rightarrow> nat \<Rightarrow> (scope_id \<times> nat) result" where
  "read_scope src bs at =
     rbind (read_varint src bs at) (\<lambda>(tag, used).
       if tag = 0 then Inr (TrackScope, at + used)
       else if tag = 1 \<or> tag = 2 then
         rbind (read_varint src bs (at + used)) (\<lambda>(i, used1).
           Inr (if tag = 1 then RunScope i else ObservationScope i, at + used + used1))
       else Inl (invalid_image src))"

definition read_section_key :: "string \<Rightarrow> bytes \<Rightarrow> nat \<Rightarrow> string list \<Rightarrow> (section_key \<times> nat) result" where
  "read_section_key src bs at known =
     rbind (read_namespace src bs at known) (\<lambda>(ns, c0).
     rbind (read_varint src bs c0) (\<lambda>(n, u1).
     rbind (read_varint src bs (c0 + u1)) (\<lambda>(d, u2).
     if d = 0 then Inl (invalid_image src)
     else if greatest_common_divisor n d \<noteq> 1 then Inl (invalid_image src)
     else
     rbind (read_varint src bs (c0 + u1 + u2)) (\<lambda>(head, u3).
     rbind (read_scope src bs (c0 + u1 + u2 + u3)) (\<lambda>(scope, c4).
     rbind (read_varint src bs c4) (\<lambda>(tag, u5).
     case kind_of_code tag of
       None \<Rightarrow> Inl (invalid_image src)
     | Some kind \<Rightarrow>
         rbind (read_varint src bs (c4 + u5)) (\<lambda>(ordinal, u6).
           Inr (\<lparr>sk_track = \<lparr>tk_namespace = ns, tk_position = \<lparr>sp_numerator = n, sp_denominator = d\<rparr>,
                               tk_head = (if head = 0 then None else Some (head - 1))\<rparr>,
                  sk_scope = scope, sk_kind = kind, sk_ordinal = ordinal\<rparr>,
                c4 + u5 + u6 - at))))))))"

text \<open>The derived order: namespace, position, head, scope, kind, ordinal.\<close>

definition lex_le :: "'a \<Rightarrow> 'a \<Rightarrow> ('a \<Rightarrow> 'a \<Rightarrow> bool) \<Rightarrow> bool \<Rightarrow> bool" where
  "lex_le x y le on_tie \<longleftrightarrow> le x y \<and> (le y x \<longrightarrow> on_tie)"

fun option_rank :: "nat option \<Rightarrow> nat" where
  "option_rank None = 0"
| "option_rank (Some n) = Suc n"

fun scope_rank :: "scope_id \<Rightarrow> nat \<times> nat" where
  "scope_rank TrackScope = (0, 0)"
| "scope_rank (RunScope i) = (1, i)"
| "scope_rank (ObservationScope i) = (2, i)"

definition scope_le :: "scope_id \<Rightarrow> scope_id \<Rightarrow> bool" where
  "scope_le a b \<longleftrightarrow> fst (scope_rank a) < fst (scope_rank b) \<or>
     fst (scope_rank a) = fst (scope_rank b) \<and> snd (scope_rank a) \<le> snd (scope_rank b)"

definition section_key_le :: "section_key \<Rightarrow> section_key \<Rightarrow> bool" where
  "section_key_le a b \<longleftrightarrow>
     lex_le (utf8_of (tk_namespace (sk_track a))) (utf8_of (tk_namespace (sk_track b))) (\<le>)
      (lex_le (tk_position (sk_track a)) (tk_position (sk_track b)) position_le
        (lex_le (option_rank (tk_head (sk_track a))) (option_rank (tk_head (sk_track b))) (\<le>)
          (lex_le (sk_scope a) (sk_scope b) scope_le
            (lex_le (kind_code (sk_kind a)) (kind_code (sk_kind b)) (\<le>)
              (sk_ordinal a \<le> sk_ordinal b)))))"

section \<open>What a backing is keyed by, written to and read from\<close>

record 'k address =
  ad_space :: "'k \<Rightarrow> string"
  ad_write :: "'k \<Rightarrow> bytes"
  ad_read :: "string \<Rightarrow> bytes \<Rightarrow> nat \<Rightarrow> string list \<Rightarrow> ('k \<times> nat) result"
  ad_le :: "'k \<Rightarrow> 'k \<Rightarrow> bool"

definition capture_address :: "section_key address" where
  "capture_address =
     \<lparr>ad_space = (\<lambda>k. tk_namespace (sk_track k)), ad_write = write_section_key,
      ad_read = read_section_key, ad_le = section_key_le\<rparr>"

type_synonym byte_source = "nat \<Rightarrow> nat \<Rightarrow> bytes result"
type_synonym 's byte_sink = "'s \<Rightarrow> bytes \<Rightarrow> 's result"

definition vec_append :: "bytes byte_sink" where
  "vec_append s bs = Inr (s @ bs)"

text \<open>Private session storage: a file and what has gone into it. Whether the host accepts a write is
  its own affair: \<open>host\<close> says so of the offset and length.\<close>

record session_backing =
  sb_file :: bytes
  sb_written :: nat

definition session_append :: "(nat \<Rightarrow> nat \<Rightarrow> bool) \<Rightarrow> session_backing byte_sink" where
  "session_append host b bs =
     (if host (sb_written b) (length bs) then
        Inr \<lparr>sb_file = file_write_all_at (sb_file b) (sb_written b) bs,
             sb_written = sb_written b + length bs\<rparr>
      else Inl io_error)"

definition memory_source :: "string \<Rightarrow> bytes \<Rightarrow> byte_source" where
  "memory_source src bs off n =
     (if off + n \<le> length bs then Inr (slice off n bs) else Inl (invalid_image src))"

definition session_source :: "(nat \<Rightarrow> nat \<Rightarrow> bool) \<Rightarrow> bytes \<Rightarrow> byte_source" where
  "session_source host f off n =
     (if host off n then
        (case file_read_exact_at f off n of Some bs \<Rightarrow> Inr bs | None \<Rightarrow> Inl io_error)
      else Inl io_error)"

section \<open>The writer\<close>

record section_location =
  loc_offset :: nat
  loc_length :: nat
  loc_checksum :: u32

definition LEAF_ENTRIES :: nat where "LEAF_ENTRIES = 64"
definition FOOTER_MAGIC :: nat where "FOOTER_MAGIC = 0x464c5831"
definition FOOTER_VERSION :: nat where "FOOTER_VERSION = 1"
definition FOOTER_BYTES :: nat where "FOOTER_BYTES = 4 + 4 + 8 + 8"

record ('k, 's) section_writer =
  sw_sink :: 's
  sw_written :: nat
  sw_entries :: "('k \<times> section_location) list"
  sw_last :: "'k option"
  sw_leaf_entries :: nat

definition to_sink :: "'s \<Rightarrow> nat \<Rightarrow> ('k, 's) section_writer" where
  "to_sink s leaf_entries =
     \<lparr>sw_sink = s, sw_written = 0, sw_entries = [], sw_last = None,
      sw_leaf_entries = max leaf_entries 1\<rparr>"

definition section_append ::
  "'k address \<Rightarrow> 's byte_sink \<Rightarrow> ('k, 's) section_writer \<Rightarrow> 'k \<Rightarrow> bytes \<Rightarrow> ('k, 's) section_writer result" where
  "section_append A put w key payload =
     (if (case sw_last w of Some l \<Rightarrow> ad_le A key l | None \<Rightarrow> False) then Inl (invalid_image (ad_space A key))
      else rbind (put (sw_sink w) payload) (\<lambda>s.
             Inr (w\<lparr>sw_sink := s, sw_written := sw_written w + length payload,
                    sw_entries := sw_entries w @
                      [(key, \<lparr>loc_offset = sw_written w, loc_length = length payload,
                              loc_checksum = crc32 payload\<rparr>)],
                    sw_last := Some key\<rparr>)))"

definition leaf_entry_bytes :: "'k address \<Rightarrow> 'k \<times> section_location \<Rightarrow> bytes" where
  "leaf_entry_bytes A e =
     ad_write A (fst e) @ write_varint (loc_offset (snd e)) @ write_varint (loc_length (snd e)) @
     write_varint (unat (loc_checksum (snd e)))"

definition leaf_bytes :: "'k address \<Rightarrow> ('k \<times> section_location) list \<Rightarrow> bytes" where
  "leaf_bytes A run = write_varint (length run) @ concat (map (leaf_entry_bytes A) run)"

text \<open>The leaves in order: the sink, what has been written, and each leaf's first key and place.\<close>

fun write_leaves ::
  "'k address \<Rightarrow> 's byte_sink \<Rightarrow> ('k \<times> section_location) list list \<Rightarrow> 's \<Rightarrow> nat \<Rightarrow>
    ('s \<times> nat \<times> ('k \<times> nat \<times> nat) list) result" where
  "write_leaves A put [] s written = Inr (s, written, [])"
| "write_leaves A put (run # runs) s written =
     (let leaf = leaf_bytes A run in
      rbind (put s leaf) (\<lambda>s1.
      rbind (write_leaves A put runs s1 (written + length leaf)) (\<lambda>(s2, written2, leaves).
        Inr (s2, written2, (fst (hd run), written, length leaf) # leaves))))"

definition root_entry_bytes :: "'k address \<Rightarrow> 'k \<times> nat \<times> nat \<Rightarrow> bytes" where
  "root_entry_bytes A e = ad_write A (fst e) @ write_varint (fst (snd e)) @ write_varint (snd (snd e))"

definition root_bytes :: "'k address \<Rightarrow> ('k \<times> nat \<times> nat) list \<Rightarrow> bytes" where
  "root_bytes A leaves = write_varint (length leaves) @ concat (map (root_entry_bytes A) leaves)"

definition footer_bytes :: "nat \<Rightarrow> nat \<Rightarrow> bytes" where
  "footer_bytes root_offset root_length =
     le_bytes 4 FOOTER_MAGIC @ le_bytes 4 FOOTER_VERSION @ le_bytes 8 root_offset @ le_bytes 8 root_length"

definition seal :: "'k address \<Rightarrow> 's byte_sink \<Rightarrow> ('k, 's) section_writer \<Rightarrow> ('s \<times> nat) result" where
  "seal A put w =
     rbind (write_leaves A put (chunks_of (sw_leaf_entries w) (sw_entries w)) (sw_sink w) (sw_written w))
       (\<lambda>(s1, root_offset, leaves).
         let root = root_bytes A leaves; footer = footer_bytes root_offset (length root) in
         rbind (put s1 root) (\<lambda>s2.
         rbind (put s2 footer) (\<lambda>s3.
           Inr (s3, root_offset + length root + length footer))))"

section \<open>The reader\<close>

definition read_span :: "byte_source \<Rightarrow> string \<Rightarrow> nat \<Rightarrow> nat \<Rightarrow> nat \<Rightarrow> bytes result" where
  "read_span source ns total_bytes off len =
     (if off + len > U64_MAX \<or> off + len > total_bytes then Inl (invalid_image ns) else source off len)"

text \<open>The last leaf whose first key does not exceed the wanted one.\<close>

fun scan_root ::
  "'k address \<Rightarrow> string \<Rightarrow> bytes \<Rightarrow> string list \<Rightarrow> 'k \<Rightarrow> nat \<Rightarrow> nat \<Rightarrow> (nat \<times> nat) option \<Rightarrow>
    (nat \<times> nat) option result" where
  "scan_root A ns root known key at 0 chosen = Inr chosen"
| "scan_root A ns root known key at (Suc n) chosen =
     rbind (ad_read A ns root at known) (\<lambda>(first, u0).
     rbind (read_varint ns root (at + u0)) (\<lambda>(off, u1).
     rbind (read_varint ns root (at + u0 + u1)) (\<lambda>(len, u2).
       if ad_le A first key then scan_root A ns root known key (at + u0 + u1 + u2) n (Some (off, len))
       else Inr chosen)))"

fun scan_leaf ::
  "'k address \<Rightarrow> string \<Rightarrow> bytes \<Rightarrow> string list \<Rightarrow> 'k \<Rightarrow> nat \<Rightarrow> nat \<Rightarrow> section_location option result" where
  "scan_leaf A ns leaf known key at 0 = Inr None"
| "scan_leaf A ns leaf known key at (Suc n) =
     rbind (ad_read A ns leaf at known) (\<lambda>(held, u0).
     rbind (read_varint ns leaf (at + u0)) (\<lambda>(off, u1).
     rbind (read_varint ns leaf (at + u0 + u1)) (\<lambda>(len, u2).
     rbind (read_varint ns leaf (at + u0 + u1 + u2)) (\<lambda>(check, u3).
       if held = key then
         if check \<ge> 2 ^ 32 then Inl (invalid_image ns)
         else Inr (Some \<lparr>loc_offset = off, loc_length = len, loc_checksum = word_of_nat check\<rparr>)
       else scan_leaf A ns leaf known key (at + u0 + u1 + u2 + u3) n))))"

definition locate_section ::
  "'k address \<Rightarrow> byte_source \<Rightarrow> nat \<Rightarrow> 'k \<Rightarrow> string list \<Rightarrow> section_location option result" where
  "locate_section A source total_bytes key known =
     (let ns = ad_space A key in
      if total_bytes < FOOTER_BYTES then Inl (invalid_image ns)
      else
      rbind (source (total_bytes - FOOTER_BYTES) FOOTER_BYTES) (\<lambda>footer.
        if le_nat (slice 0 4 footer) \<noteq> FOOTER_MAGIC then Inl (invalid_image ns)
        else if le_nat (slice 4 4 footer) \<noteq> FOOTER_VERSION then Inl (invalid_image ns)
        else
        rbind (read_span source ns total_bytes (le_nat (slice 8 8 footer)) (le_nat (slice 16 8 footer))) (\<lambda>root.
        rbind (read_varint ns root 0) (\<lambda>(n, used).
        rbind (scan_root A ns root known key used n None) (\<lambda>chosen.
          case chosen of
            None \<Rightarrow> Inr None
          | Some (off, len) \<Rightarrow>
              rbind (read_span source ns total_bytes off len) (\<lambda>leaf.
              rbind (read_varint ns leaf 0) (\<lambda>(m, used1).
                scan_leaf A ns leaf known key used1 m)))))))"

definition read_section ::
  "'k address \<Rightarrow> byte_source \<Rightarrow> nat \<Rightarrow> 'k \<Rightarrow> string list \<Rightarrow> bytes result" where
  "read_section A source total_bytes key known =
     rbind (locate_section A source total_bytes key known) (\<lambda>found.
       case found of
         None \<Rightarrow> Inl (invalid_image (ad_space A key))
       | Some loc \<Rightarrow>
           rbind (read_span source (ad_space A key) total_bytes (loc_offset loc) (loc_length loc)) (\<lambda>payload.
             if crc32 payload \<noteq> loc_checksum loc then Inl (invalid_image (ad_space A key))
             else Inr payload))"

section \<open>The working set\<close>

record 'k section_cache =
  sc_resident :: "('k \<times> bytes \<times> nat) list"
  sc_bytes_resident :: nat
  sc_bound :: nat
  sc_clock :: nat

definition cache_with_bytes :: "nat \<Rightarrow> 'k section_cache" where
  "cache_with_bytes n = \<lparr>sc_resident = [], sc_bytes_resident = 0, sc_bound = n, sc_clock = 0\<rparr>"

definition cache_holds :: "'k section_cache \<Rightarrow> 'k \<Rightarrow> bool" where
  "cache_holds c k \<longleftrightarrow> k \<in> fst ` set (sc_resident c)"

text \<open>\<open>min_by_key\<close>: the entry of the least mark.\<close>

fun coldest :: "('k \<times> bytes \<times> nat) list \<Rightarrow> ('k \<times> bytes \<times> nat)" where
  "coldest [] = undefined"
| "coldest [e] = e"
| "coldest (e # es) = (if snd (snd e) \<le> snd (snd (coldest es)) then e else coldest es)"

lemma coldest_in: "es \<noteq> [] \<Longrightarrow> coldest es \<in> set es"
  by (induction es rule: coldest.induct) auto

function make_room :: "'k section_cache \<Rightarrow> nat \<Rightarrow> 'k section_cache" where
  "make_room c wanted =
     (if sc_resident c \<noteq> [] \<and> sc_bytes_resident c + wanted > sc_bound c then
        let (k, payload, _) = coldest (sc_resident c) in
        make_room (c\<lparr>sc_resident := filter (\<lambda>e. fst e \<noteq> k) (sc_resident c),
                     sc_bytes_resident := sc_bytes_resident c - length payload\<rparr>) wanted
      else c)"
  by pat_completeness auto
termination
proof (relation "measure (\<lambda>(c, _). length (sc_resident c))")
  fix c :: "'a section_cache" and wanted x k y payload z
  assume go: "sc_resident c \<noteq> [] \<and> sc_bytes_resident c + wanted > sc_bound c"
    and "x = coldest (sc_resident c)" "(k, y) = x" "(payload, z) = y"
  then have "(k, payload, z) \<in> set (sc_resident c)" using coldest_in [of "sc_resident c"] by simp
  then have "filter (\<lambda>e. fst e \<noteq> k) (sc_resident c) \<noteq> sc_resident c"
    by (metis (mono_tags, lifting) filter_id_conv fst_conv)
  then show "((c\<lparr>sc_resident := filter (\<lambda>e. fst e \<noteq> k) (sc_resident c),
      sc_bytes_resident := sc_bytes_resident c - length payload\<rparr>, wanted), c, wanted)
      \<in> measure (\<lambda>(c, _). length (sc_resident c))"
    by (simp add: length_filter_less [OF _] ) (metis (mono_tags, lifting) filter_True length_filter_less)
qed simp

declare make_room.simps [simp del]

fun mark_used :: "'k \<Rightarrow> nat \<Rightarrow> ('k \<times> bytes \<times> nat) list \<Rightarrow> ('k \<times> bytes \<times> nat) list" where
  "mark_used k clock [] = []"
| "mark_used k clock ((k', payload, used) # es) =
     (if k' = k then (k', payload, clock) # es else (k', payload, used) # mark_used k clock es)"

definition cache_section ::
  "'k address \<Rightarrow> 'k section_cache \<Rightarrow> byte_source \<Rightarrow> nat \<Rightarrow> 'k \<Rightarrow> string list \<Rightarrow>
    'k section_cache \<times> bytes result" where
  "cache_section A c source total_bytes key known =
     (let c1 = c\<lparr>sc_clock := sc_clock c + 1\<rparr> in
      case map_of (sc_resident c1) key of
        Some (payload, _) \<Rightarrow>
          (c1\<lparr>sc_resident := mark_used key (sc_clock c1) (sc_resident c1)\<rparr>, Inr payload)
      | None \<Rightarrow>
          (case read_section A source total_bytes key known of
             Inl e \<Rightarrow> (c1, Inl e)
           | Inr payload \<Rightarrow>
               let c2 = make_room c1 (length payload) in
               (c2\<lparr>sc_bytes_resident := sc_bytes_resident c2 + length payload,
                   sc_resident := (key, payload, sc_clock c2) # sc_resident c2\<rparr>, Inr payload)))"

text \<open>A run of appends, and a run of requests through one working set.\<close>

fun append_sections ::
  "'k address \<Rightarrow> 's byte_sink \<Rightarrow> ('k, 's) section_writer \<Rightarrow> ('k \<times> bytes) list \<Rightarrow> ('k, 's) section_writer result" where
  "append_sections A put w [] = Inr w"
| "append_sections A put w ((key, payload) # ps) =
     rbind (section_append A put w key payload) (\<lambda>w1. append_sections A put w1 ps)"

fun serve_sections ::
  "'k address \<Rightarrow> 'k section_cache \<Rightarrow> byte_source \<Rightarrow> nat \<Rightarrow> string list \<Rightarrow> 'k list \<Rightarrow>
    'k section_cache \<times> bytes result list" where
  "serve_sections A c source total_bytes known [] = (c, [])"
| "serve_sections A c source total_bytes known (key # keys) =
     (let (c1, r) = cache_section A c source total_bytes key known;
          (c2, rs) = serve_sections A c1 source total_bytes known keys
      in (c2, r # rs))"

end
