(* ===== verification/Sections_Proofs.thy ===== *)
theory Sections_Proofs
  imports Sections
begin

text \<open>
  What the backing promises. Two contracts: an address writes itself so that it reads back wherever
  it stands, under an order total on well-formed keys; a sink holds what was appended. Over both, a
  sealed backing serves every section appended and no other, and the working set serves what the
  backing would.
\<close>

section \<open>The contracts\<close>

locale section_address =
  fixes A :: "'k address" and known :: "string list" and key_ok :: "'k \<Rightarrow> bool"
  assumes read_write: "key_ok k \<Longrightarrow> drop at bs = ad_write A k @ post \<Longrightarrow>
      ad_read A src bs at known = Inr (k, length (ad_write A k))"
    and write_nonempty: "ad_write A k \<noteq> []"
    and le_total: "key_ok a \<Longrightarrow> key_ok b \<Longrightarrow> ad_le A a b \<or> ad_le A b a"
    and le_antisym: "key_ok a \<Longrightarrow> key_ok b \<Longrightarrow> ad_le A a b \<Longrightarrow> ad_le A b a \<Longrightarrow> a = b"
    and le_trans: "key_ok a \<Longrightarrow> key_ok b \<Longrightarrow> key_ok c \<Longrightarrow> ad_le A a b \<Longrightarrow> ad_le A b c \<Longrightarrow> ad_le A a c"

locale byte_sink =
  fixes put :: "'s byte_sink" and sink_bytes :: "'s \<Rightarrow> bytes"
  assumes put_law: "put s bs = Inr s' \<Longrightarrow> sink_bytes s' = sink_bytes s @ bs"

interpretation vec: byte_sink vec_append "\<lambda>s. s"
  by unfold_locales (simp add: vec_append_def)

definition session_bytes :: "session_backing \<Rightarrow> bytes" where
  "session_bytes b = take (sb_written b) (sb_file b @ replicate (sb_written b) 0)"

interpretation session: byte_sink "session_append host" session_bytes
proof unfold_locales
  fix b :: session_backing and bs :: bytes and b' :: session_backing
  assume "session_append host b bs = Inr b'"
  then have b': "b' = \<lparr>sb_file = file_write_all_at (sb_file b) (sb_written b) bs,
      sb_written = sb_written b + length bs\<rparr>"
    by (auto simp: session_append_def split: if_splits)
  let ?n = "sb_written b" and ?f = "sb_file b"
  have padded: "take ?n (?f @ replicate m 0) = take ?n ?f @ replicate (?n - length ?f) 0"
    if "?n - length ?f \<le> m" for m :: nat
    using that by (simp add: min_def)
  show "session_bytes b' = session_bytes b @ bs"
  proof (cases "bs = []")
    case True
    then show ?thesis unfolding b' by (simp add: session_bytes_def file_write_all_at_def)
  next
    case False
    let ?g = "?f @ replicate (?n + length bs - length ?f) 0"
    have "session_bytes b' = take (?n + length bs) (splice ?n bs ?g @ replicate (?n + length bs) 0)"
      unfolding b' session_bytes_def using False by (simp add: file_write_all_at_def)
    also have "\<dots> = take ?n ?g @ bs" by (simp add: splice_def)
    also have "take ?n ?g = session_bytes b" unfolding session_bytes_def by (subst (1 2) padded) simp_all
    finally show ?thesis .
  qed
qed

section \<open>Sections in their places\<close>

text \<open>The entries of sections laid end to end from an offset, and the leaves of an index likewise.\<close>

fun placed :: "nat \<Rightarrow> ('k \<times> bytes) list \<Rightarrow> ('k \<times> section_location) list" where
  "placed off [] = []"
| "placed off ((k, p) # ps) =
     (k, \<lparr>loc_offset = off, loc_length = length p, loc_checksum = crc32 p\<rparr>) # placed (off + length p) ps"

fun leaf_index ::
  "'k address \<Rightarrow> nat \<Rightarrow> ('k \<times> section_location) list list \<Rightarrow> ('k \<times> nat \<times> nat) list" where
  "leaf_index A off [] = []"
| "leaf_index A off (r # rs) =
     (fst (hd r), off, length (leaf_bytes A r)) # leaf_index A (off + length (leaf_bytes A r)) rs"

lemma placed_append: "placed off (ps @ qs) = placed off ps @ placed (off + length (concat (map snd ps))) qs"
  by (induction off ps rule: placed.induct) (auto simp: add.assoc)

lemma placed_keys [simp]: "map fst (placed off ps) = map fst ps"
  by (induction off ps rule: placed.induct) auto

lemma placed_reads:
  "map_of (placed off ps) k = Some loc \<Longrightarrow>
    \<exists>p. map_of ps k = Some p \<and> loc_length loc = length p \<and> loc_checksum loc = crc32 p \<and>
      off \<le> loc_offset loc \<and> loc_offset loc + length p \<le> off + length (concat (map snd ps)) \<and>
      slice (loc_offset loc - off) (length p) (concat (map snd ps)) = p"
proof (induction off ps rule: placed.induct)
  case (2 off k' p ps)
  show ?case
  proof (cases "k = k'")
    case True
    then show ?thesis using 2(2) by (auto simp: slice_def)
  next
    case False
    then obtain q where "map_of ps k = Some q" "loc_length loc = length q" "loc_checksum loc = crc32 q"
      "off + length p \<le> loc_offset loc"
      "loc_offset loc + length q \<le> off + length p + length (concat (map snd ps))"
      "slice (loc_offset loc - (off + length p)) (length q) (concat (map snd ps)) = q"
      using 2 by auto
    then show ?thesis using False by (auto simp: slice_def)
  qed
qed simp

lemma placed_none: "map_of (placed off ps) k = None \<longleftrightarrow> map_of ps k = None"
  by (simp add: map_of_eq_None_iff flip: set_map)

lemma placed_within:
  "e \<in> set (placed off ps) \<Longrightarrow> loc_offset (snd e) + loc_length (snd e) \<le> off + length (concat (map snd ps))"
  by (induction off ps rule: placed.induct) auto

lemma leaf_index_keys: "map fst (leaf_index A off rs) = map (\<lambda>r. fst (hd r)) rs"
  by (induction A off rs rule: leaf_index.induct) auto

lemma leaf_index_length [simp]: "length (leaf_index A off rs) = length rs"
  by (induction A off rs rule: leaf_index.induct) auto

lemma leaf_index_at:
  "i < length rs \<Longrightarrow> B = pre @ concat (map (leaf_bytes A) rs) @ post \<Longrightarrow> length pre = off \<Longrightarrow>
    \<exists>at n. leaf_index A off rs ! i = (fst (hd (rs ! i)), at, n) \<and> n = length (leaf_bytes A (rs ! i)) \<and>
      at + n \<le> length B \<and> slice at n B = leaf_bytes A (rs ! i)"
proof (induction A off rs arbitrary: i pre rule: leaf_index.induct)
  case (2 A off r rs)
  show ?case
  proof (cases i)
    case 0
    then show ?thesis using 2(3,4) by (auto simp: slice_def)
  next
    case (Suc j)
    then show ?thesis using 2(1) [of j "pre @ leaf_bytes A r"] 2(2-4) by simp
  qed
qed simp

lemma entry_bytes_pair:
  "leaf_entry_bytes A (k, loc) = ad_write A k @ write_varint (loc_offset loc) @
     write_varint (loc_length loc) @ write_varint (unat (loc_checksum loc))"
  "root_entry_bytes A (k, off, len) = ad_write A k @ write_varint off @ write_varint len"
  by (simp_all add: leaf_entry_bytes_def root_entry_bytes_def)

context section_address
begin

definition key_lt :: "'k \<Rightarrow> 'k \<Rightarrow> bool" where
  "key_lt a b \<longleftrightarrow> ad_le A a b \<and> a \<noteq> b"

definition ascending :: "'k list \<Rightarrow> bool" where
  "ascending ks \<longleftrightarrow> sorted_wrt key_lt ks \<and> list_all key_ok ks"

lemma le_refl: "key_ok a \<Longrightarrow> ad_le A a a"
  using le_total by blast

lemma ascending_append:
  "ascending (xs @ ys) \<longleftrightarrow> ascending xs \<and> ascending ys \<and> (\<forall>x \<in> set xs. \<forall>y \<in> set ys. key_lt x y)"
  by (auto simp: ascending_def sorted_wrt_append)

lemma ascending_snoc:
  assumes "ascending ks" "key_ok k" "ks = [] \<or> \<not> ad_le A k (last ks)"
  shows "ascending (ks @ [k])"
proof -
  have "key_lt x k" if "x \<in> set ks" for x
  proof -
    have l: "ks \<noteq> []" "\<not> ad_le A k (last ks)" using that assms(3) by auto
    then have ok: "key_ok (last ks)" "key_ok x"
      using assms(1) that by (auto simp: ascending_def list_all_iff)
    have lk: "ad_le A (last ks) k" using le_total [OF ok(1) assms(2)] l(2) by blast
    have "x = last ks \<or> key_lt x (last ks)"
    proof -
      have "sorted_wrt key_lt (butlast ks @ [last ks])" "x \<in> set (butlast ks @ [last ks])"
        using assms(1) l(1) that by (simp_all add: ascending_def)
      then show ?thesis by (auto simp: sorted_wrt_append)
    qed
    then have "ad_le A x k" using lk le_trans [OF ok(2,1) assms(2)] by (auto simp: key_lt_def)
    moreover have "x \<noteq> k"
    proof
      assume "x = k"
      then have "ad_le A k (last ks)" using \<open>x = last ks \<or> key_lt x (last ks)\<close> le_refl ok
        by (auto simp: key_lt_def)
      then show False using l(2) by simp
    qed
    ultimately show ?thesis by (simp add: key_lt_def)
  qed
  then show ?thesis unfolding ascending_append using assms(1,2) by (auto simp: ascending_def)
qed

text \<open>Only the last leaf that opens at or before a key can hold it.\<close>

lemma map_of_run:
  fixes rs :: "('k \<times> 'v) list list"
  assumes "key_ok key"
  shows "ascending (map fst (concat rs)) \<Longrightarrow> [] \<notin> set rs \<Longrightarrow>
    map_of (concat rs) key =
      (case rev (takeWhile (\<lambda>r. ad_le A (fst (hd r)) key) rs) of [] \<Rightarrow> None | r # _ \<Rightarrow> map_of r key)"
proof (induction rs)
  case (Cons r rs)
  let ?tw = "takeWhile (\<lambda>r. ad_le A (fst (hd r)) key) rs"
  have asc: "ascending (map fst r)" "ascending (map fst (concat rs))"
    "\<forall>x \<in> set (map fst r). \<forall>y \<in> set (map fst (concat rs)). key_lt x y"
    using Cons.prems(1) by (simp_all add: ascending_append)
  have IH: "map_of (concat rs) key = (case rev ?tw of [] \<Rightarrow> None | r # _ \<Rightarrow> map_of r key)"
    using Cons.IH asc(2) Cons.prems(2) by simp
  have first: "x \<in> set (map fst xs) \<Longrightarrow> ascending (map fst xs) \<Longrightarrow> key_ok x \<and> ad_le A (fst (hd xs)) x"
    for xs :: "('k \<times> 'v) list" and x
    by (cases xs) (auto simp: ascending_def key_lt_def le_refl list_all_iff)
  have rne: "r \<noteq> []" using Cons.prems(2) by auto
  show ?case
  proof (cases "ad_le A (fst (hd r)) key")
    case True
    show ?thesis
    proof (cases "?tw = []")
      case True': True
      have "map_of (concat rs) key = None" using IH True' by simp
      then show ?thesis using True True' by (auto simp: map_add_def split: option.splits)
    next
      case False
      then obtain r1 rs1 where rs: "rs = r1 # rs1" "ad_le A (fst (hd r1)) key"
        by (cases rs) (auto split: if_splits)
      then have r1: "r1 \<noteq> []" "fst (hd r1) \<in> set (map fst (concat rs))"
        using Cons.prems(2) by auto
      have "key \<notin> set (map fst r)"
      proof
        assume k: "key \<in> set (map fst r)"
        then have lt: "key_lt key (fst (hd r1))" using asc(3) r1(2) by blast
        have "key_ok (fst (hd r1))" using asc(2) r1(2) unfolding ascending_def list_all_iff by blast
        then show False using lt rs(2) le_antisym [OF assms] by (auto simp: key_lt_def)
      qed
      then have "map_of r key = None" by (simp add: map_of_eq_None_iff)
      moreover have "rev (r # ?tw) = rev ?tw @ [r]" "rev ?tw \<noteq> []" using False by simp_all
      ultimately show ?thesis
        using True IH by (auto simp: map_add_def split: option.splits list.splits)
    qed
  next
    case False
    have "key \<notin> set (map fst (concat (r # rs)))"
    proof
      assume "key \<in> set (map fst (concat (r # rs)))"
      then have "ad_le A (fst (hd (concat (r # rs)))) key"
        using first [of key "concat (r # rs)"] Cons.prems(1) by blast
      then show False using False rne by simp
    qed
    then have "map_of (concat (r # rs)) key = None" by (simp add: map_of_eq_None_iff)
    then show ?thesis using False by simp
  qed
qed simp

section \<open>Reading the index back\<close>

lemma scan_leaf_reads:
  assumes "key_ok key"
  shows "list_all key_ok (map fst run) \<Longrightarrow>
    list_all (\<lambda>e. loc_offset (snd e) \<le> U64_MAX \<and> loc_length (snd e) \<le> U64_MAX) run \<Longrightarrow>
    drop at leaf = concat (map (leaf_entry_bytes A) run) @ post \<Longrightarrow>
    scan_leaf A ns leaf known key at (length run) = Inr (map_of run key)"
proof (induction run arbitrary: "at")
  case (Cons e run)
  obtain k loc where e: "e = (k, loc)" by (cases e)
  let ?w0 = "ad_write A k" and ?w1 = "write_varint (loc_offset loc)"
  let ?w2 = "write_varint (loc_length loc)" and ?w3 = "write_varint (unat (loc_checksum loc))"
  have d0: "drop at leaf = ?w0 @ ?w1 @ ?w2 @ ?w3 @ concat (map (leaf_entry_bytes A) run) @ post"
    using Cons.prems(3) by (simp add: e entry_bytes_pair)
  note d1 = drop_later [OF d0]
  note d2 = drop_later [OF d1]
  note d3 = drop_later [OF d2]
  note d4 = drop_later [OF d3]
  have check: "unat (loc_checksum loc) < 2 ^ 32" using unsigned_less [of "loc_checksum loc"] by simp
  have r0: "ad_read A ns leaf at known = Inr (k, length ?w0)"
    by (rule read_write [OF _ d0]) (use Cons.prems(1) e in simp)
  have r1: "read_varint ns leaf (at + length ?w0) = Inr (loc_offset loc, length ?w1)"
    by (rule read_varint_write [OF _ d1]) (use Cons.prems(2) e in simp)
  have r2: "read_varint ns leaf (at + length ?w0 + length ?w1) = Inr (loc_length loc, length ?w2)"
    by (rule read_varint_write [OF _ d2]) (use Cons.prems(2) e in simp)
  have r3: "read_varint ns leaf (at + length ?w0 + length ?w1 + length ?w2) =
      Inr (unat (loc_checksum loc), length ?w3)"
    by (rule read_varint_write [OF _ d3]) (use check in \<open>simp add: U64_MAX_def\<close>)
  have "scan_leaf A ns leaf known key (at + length ?w0 + length ?w1 + length ?w2 + length ?w3) (length run) =
      Inr (map_of run key)"
    by (rule Cons.IH [OF _ _ d4]) (use Cons.prems in simp_all)
  then show ?case
    using check
    unfolding list.size add_0_right add_Suc_right One_nat_def scan_leaf.simps r0 rbind.simps prod.case r1 r2 r3
    by (auto simp: e)
qed simp

lemma scan_root_reads:
  assumes "key_ok key"
  shows "list_all key_ok (map fst ls) \<Longrightarrow>
    list_all (\<lambda>e. fst (snd e) \<le> U64_MAX \<and> snd (snd e) \<le> U64_MAX) ls \<Longrightarrow>
    drop at root = concat (map (root_entry_bytes A) ls) @ post \<Longrightarrow>
    scan_root A ns root known key at (length ls) chosen =
      Inr (case rev (takeWhile (\<lambda>e. ad_le A (fst e) key) ls) of [] \<Rightarrow> chosen | e # _ \<Rightarrow> Some (snd e))"
proof (induction ls arbitrary: "at" chosen)
  case (Cons e ls)
  obtain k o1 l1 where e: "e = (k, o1, l1)" by (cases e)
  let ?w0 = "ad_write A k" and ?w1 = "write_varint o1" and ?w2 = "write_varint l1"
  have d0: "drop at root = ?w0 @ ?w1 @ ?w2 @ concat (map (root_entry_bytes A) ls) @ post"
    using Cons.prems(3) by (simp add: e entry_bytes_pair)
  note d1 = drop_later [OF d0]
  note d2 = drop_later [OF d1]
  note d3 = drop_later [OF d2]
  have r0: "ad_read A ns root at known = Inr (k, length ?w0)"
    by (rule read_write [OF _ d0]) (use Cons.prems(1) e in simp)
  have r1: "read_varint ns root (at + length ?w0) = Inr (o1, length ?w1)"
    by (rule read_varint_write [OF _ d1]) (use Cons.prems(2) e in simp)
  have r2: "read_varint ns root (at + length ?w0 + length ?w1) = Inr (l1, length ?w2)"
    by (rule read_varint_write [OF _ d2]) (use Cons.prems(2) e in simp)
  have step: "scan_root A ns root known key at (length (e # ls)) chosen =
      (if ad_le A k key
       then scan_root A ns root known key (at + length ?w0 + length ?w1 + length ?w2) (length ls) (Some (o1, l1))
       else Inr chosen)"
    unfolding list.size add_0_right add_Suc_right One_nat_def scan_root.simps r0 rbind.simps prod.case r1 r2 by (rule refl)
  show ?case
  proof (cases "ad_le A k key")
    case True
    have IH: "scan_root A ns root known key (at + length ?w0 + length ?w1 + length ?w2) (length ls) (Some (o1, l1)) =
        Inr (case rev (takeWhile (\<lambda>e. ad_le A (fst e) key) ls) of [] \<Rightarrow> Some (o1, l1) | e # _ \<Rightarrow> Some (snd e))"
      by (rule Cons.IH [OF _ _ d3]) (use Cons.prems in simp_all)
    show ?thesis unfolding step IH using True by (auto simp: e split: list.splits)
  next
    case False
    then show ?thesis unfolding step by (simp add: e)
  qed
qed simp

end

section \<open>A sealed backing\<close>

definition delivers :: "byte_source \<Rightarrow> bytes \<Rightarrow> bool" where
  "delivers source B \<longleftrightarrow> (\<forall>off n. off + n \<le> length B \<longrightarrow> source off n = Inr (slice off n B))"

lemma deliversD: "delivers source B \<Longrightarrow> off + n \<le> length B \<Longrightarrow> source off n = Inr (slice off n B)"
  by (simp add: delivers_def)

lemma memory_delivers: "delivers (memory_source src B) B"
  by (simp add: delivers_def memory_source_def)

lemma length_le_concat: "(\<And>x. x \<in> set xs \<Longrightarrow> f x \<noteq> []) \<Longrightarrow> length xs \<le> length (concat (map f xs))"
proof (induction xs)
  case (Cons x xs)
  have "length xs \<le> length (concat (map f xs))" by (rule Cons.IH) (use Cons.prems in simp)
  moreover have "0 < length (f x)" using Cons.prems by simp
  ultimately show ?case unfolding list.map concat.simps length_append list.size by linarith
qed simp

lemma footer_fields:
  assumes "a \<le> U64_MAX" "b \<le> U64_MAX"
  shows "length (footer_bytes a b) = FOOTER_BYTES"
    "le_nat (slice 0 4 (footer_bytes a b)) = FOOTER_MAGIC"
    "le_nat (slice 4 4 (footer_bytes a b)) = FOOTER_VERSION"
    "le_nat (slice 8 8 (footer_bytes a b)) = a" "le_nat (slice 16 8 (footer_bytes a b)) = b"
  using assms
  by (simp_all add: footer_bytes_def FOOTER_BYTES_def slice_def FOOTER_MAGIC_def FOOTER_VERSION_def U64_MAX_def)

lemma rev_takeWhile:
  "rev (takeWhile P xs) = (let n = length (takeWhile P xs) in
     if n = 0 then [] else xs ! (n - 1) # rev (take (n - 1) xs))"
proof (cases "length (takeWhile P xs)")
  case (Suc m)
  then have m: "m < length xs" using length_takeWhile_le [of P xs] by simp
  have "takeWhile P xs = take (Suc m) xs" using takeWhile_eq_take [of P xs] Suc by simp
  then have "rev (takeWhile P xs) = xs ! m # rev (take m xs)" using m by (simp add: take_Suc_conv_app_nth)
  then show ?thesis using Suc by (simp add: Let_def)
qed simp

locale backing = section_address A known key_ok + byte_sink put sink_bytes
  for A :: "'k address" and known key_ok and put :: "'s byte_sink" and sink_bytes
begin

text \<open>A writer that holds these sections, in this order.\<close>

definition writer_holds :: "('k, 's) section_writer \<Rightarrow> ('k \<times> bytes) list \<Rightarrow> bool" where
  "writer_holds w ps \<longleftrightarrow>
     sink_bytes (sw_sink w) = concat (map snd ps) \<and> sw_written w = length (concat (map snd ps)) \<and>
     sw_entries w = placed 0 ps \<and> sw_last w = (if ps = [] then None else Some (fst (last ps))) \<and>
     ascending (map fst ps) \<and> 0 < sw_leaf_entries w"

lemma holds_new: "sink_bytes s = [] \<Longrightarrow> writer_holds (to_sink s n) []"
  by (simp add: writer_holds_def to_sink_def ascending_def)

lemma holds_append:
  assumes "writer_holds w ps" "key_ok key" "section_append A put w key p = Inr w'"
  shows "writer_holds w' (ps @ [(key, p)])"
proof -
  have last: "ps = [] \<or> \<not> ad_le A key (fst (last ps))"
    using assms(1,3) by (auto simp: writer_holds_def section_append_def split: if_splits)
  then obtain s where s: "put (sw_sink w) p = Inr s"
    "w' = w\<lparr>sw_sink := s, sw_written := sw_written w + length p,
            sw_entries := sw_entries w @ [(key, \<lparr>loc_offset = sw_written w, loc_length = length p,
              loc_checksum = crc32 p\<rparr>)], sw_last := Some key\<rparr>"
    using assms(1,3) by (auto simp: writer_holds_def section_append_def rbind_Inr_iff split: if_splits)
  have "ascending (map fst ps @ [key])"
    using assms(1,2) last by (intro ascending_snoc) (auto simp: writer_holds_def last_map)
  then show ?thesis
    using assms(1) s put_law [OF s(1)] by (simp add: writer_holds_def placed_append)
qed

lemma write_leaves_bytes:
  "write_leaves A put rs s written = Inr (s2, written2, leaves) \<Longrightarrow>
    sink_bytes s2 = sink_bytes s @ concat (map (leaf_bytes A) rs) \<and>
    written2 = written + length (concat (map (leaf_bytes A) rs)) \<and> leaves = leaf_index A written rs"
proof (induction rs arbitrary: s written s2 written2 leaves)
  case (Cons run runs)
  let ?leaf = "leaf_bytes A run"
  obtain s1 leaves1 where s1: "put s ?leaf = Inr s1"
    "write_leaves A put runs s1 (written + length ?leaf) = Inr (s2, written2, leaves1)"
    "leaves = (fst (hd run), written, length ?leaf) # leaves1"
    using Cons.prems by (auto simp: Let_def rbind_Inr_iff)
  then show ?case using Cons.IH [OF s1(2)] put_law [OF s1(1)] by simp
qed simp

lemma holds_appends:
  "writer_holds w qs \<Longrightarrow> list_all (\<lambda>e. key_ok (fst e)) ps \<Longrightarrow> append_sections A put w ps = Inr w' \<Longrightarrow>
    writer_holds w' (qs @ ps)"
proof (induction ps arbitrary: w qs)
  case (Cons e ps)
  obtain k p where e: "e = (k, p)" by (cases e)
  obtain w1 where w1: "section_append A put w k p = Inr w1" "append_sections A put w1 ps = Inr w'"
    using Cons.prems(3) by (auto simp: e rbind_Inr_iff)
  have "writer_holds w1 (qs @ [(k, p)])"
    by (rule holds_append [OF Cons.prems(1) _ w1(1)]) (use Cons.prems(2) e in simp)
  from Cons.IH [OF this _ w1(2)] show ?case using Cons.prems(2) e by simp
qed simp

text \<open>The layout of a sealed backing: sections, leaves, root, footer.\<close>

lemma sealed_layout:
  assumes "writer_holds w ps" "seal A put w = Inr (s, len)"
  shows "\<exists>runs. concat runs = placed 0 ps \<and> [] \<notin> set runs \<and> len = length (sink_bytes s) \<and>
    (let body = concat (map snd ps); ls = concat (map (leaf_bytes A) runs);
         root = root_bytes A (leaf_index A (length body) runs)
     in sink_bytes s = body @ ls @ root @ footer_bytes (length body + length ls) (length root))"
proof (intro exI conjI)
  let ?runs = "chunks_of (sw_leaf_entries w) (sw_entries w)"
  have n: "0 < sw_leaf_entries w" using assms(1) by (simp add: writer_holds_def)
  show "concat ?runs = placed 0 ps" using assms(1) concat_chunks [OF n] by (simp add: writer_holds_def)
  show "[] \<notin> set ?runs" using chunks_of_length by blast
  let ?body = "concat (map snd ps)" and ?ls = "concat (map (leaf_bytes A) ?runs)"
  have sb: "sink_bytes (sw_sink w) = ?body" "sw_written w = length ?body"
    using assms(1) by (simp_all add: writer_holds_def)
  obtain s1 root_offset leaves s2 where
    l: "write_leaves A put ?runs (sw_sink w) (sw_written w) = Inr (s1, root_offset, leaves)"
    and r: "put s1 (root_bytes A leaves) = Inr s2"
    and f: "put s2 (footer_bytes root_offset (length (root_bytes A leaves))) = Inr s"
    and t: "len = root_offset + length (root_bytes A leaves) +
      length (footer_bytes root_offset (length (root_bytes A leaves)))"
    using assms(2) by (auto simp: seal_def Let_def rbind_Inr_iff)
  note parts = write_leaves_bytes [OF l] put_law [OF r] put_law [OF f]
  show "let body = ?body; ls = ?ls; root = root_bytes A (leaf_index A (length body) ?runs)
     in sink_bytes s = body @ ls @ root @ footer_bytes (length body + length ls) (length root)"
    unfolding Let_def using parts sb by simp
  then show "len = length (sink_bytes s)" using t parts sb unfolding Let_def by simp
qed

lemma sealed_locates:
  assumes holds: "writer_holds w ps" and seal: "seal A put w = Inr (s, len)" and small: "len \<le> U64_MAX"
    and source: "delivers source (sink_bytes s)" and key: "key_ok key"
  shows "locate_section A source len key known = Inr (map_of (placed 0 ps) key)"
proof -
  let ?B = "sink_bytes s" and ?ns = "ad_space A key"
  obtain runs where runs: "concat runs = placed 0 ps" "[] \<notin> set runs" "len = length ?B" and
    layout: "let body = concat (map snd ps); ls = concat (map (leaf_bytes A) runs);
         root = root_bytes A (leaf_index A (length body) runs)
       in ?B = body @ ls @ root @ footer_bytes (length body + length ls) (length root)"
    using sealed_layout [OF holds seal] by blast
  define body where "body = concat (map snd ps)"
  define ls where "ls = concat (map (leaf_bytes A) runs)"
  define idx where "idx = leaf_index A (length body) runs"
  define root where "root = root_bytes A idx"
  define foot where "foot = footer_bytes (length body + length ls) (length root)"
  have B: "?B = body @ ls @ root @ foot"
    using layout unfolding Let_def body_def ls_def idx_def root_def foot_def .
  have fit: "length body + length ls + length root + length foot = len" using B runs(3) by simp
  have foot: "length foot = FOOTER_BYTES" "le_nat (slice 0 4 foot) = FOOTER_MAGIC"
    "le_nat (slice 4 4 foot) = FOOTER_VERSION" "le_nat (slice 8 8 foot) = length body + length ls"
    "le_nat (slice 16 8 foot) = length root"
    unfolding foot_def using fit small by (simp_all add: footer_fields)
  have r_foot: "source (len - FOOTER_BYTES) FOOTER_BYTES = Inr foot"
    using deliversD [OF source, of "len - FOOTER_BYTES" FOOTER_BYTES] fit foot(1) runs(3) B
    by (simp add: slice_def)
  have span: "read_span source ?ns len off n = Inr (slice off n ?B)" if "off + n \<le> len" for off n
    using that small deliversD [OF source, of off n] runs(3) by (simp add: read_span_def)
  have r_root: "read_span source ?ns len (length body + length ls) (length root) = Inr root"
    using span [of "length body + length ls" "length root"] fit B by (simp add: slice_def)
  have ok: "list_all key_ok (map fst (concat runs))"
    using holds unfolding runs(1) by (simp add: writer_holds_def ascending_def)
  have asc: "ascending (map fst (concat runs))"
    using holds unfolding runs(1) by (simp add: writer_holds_def)
  have idx_at: "\<exists>at n. idx ! i = (fst (hd (runs ! i)), at, n) \<and> n = length (leaf_bytes A (runs ! i)) \<and>
      at + n \<le> len \<and> slice at n ?B = leaf_bytes A (runs ! i)" if "i < length runs" for i
    using leaf_index_at [OF that, of ?B body A "root @ foot" "length body"] B runs(3)
    unfolding idx_def ls_def by simp
  have idx_ok: "list_all key_ok (map fst idx)"
    "list_all (\<lambda>e. fst (snd e) \<le> U64_MAX \<and> snd (snd e) \<le> U64_MAX) idx"
  proof -
    have "key_ok (fst (hd r))" if "r \<in> set runs" for r
    proof -
      have "r \<noteq> []" using that runs(2) by auto
      then show ?thesis using ok that by (auto simp: list_all_iff)
    qed
    then show "list_all key_ok (map fst idx)"
      unfolding idx_def leaf_index_keys by (simp add: list_all_iff)
    show "list_all (\<lambda>e. fst (snd e) \<le> U64_MAX \<and> snd (snd e) \<le> U64_MAX) idx"
      unfolding list_all_length using idx_at small by (fastforce simp: idx_def)
  qed
  have few: "length idx \<le> U64_MAX"
  proof -
    have "length idx \<le> length (concat (map (root_entry_bytes A) idx))"
      by (rule length_le_concat) (use write_nonempty in \<open>simp add: root_entry_bytes_def\<close>)
    also have "\<dots> \<le> length root" by (simp add: root_def root_bytes_def)
    finally show ?thesis using fit small by simp
  qed
  let ?used = "length (write_varint (length idx))"
  have d_root: "drop 0 root = write_varint (length idx) @ concat (map (root_entry_bytes A) idx) @ []"
    by (simp add: root_def root_bytes_def)
  have n_root: "read_varint ?ns root 0 = Inr (length idx, ?used)"
    by (rule read_varint_write [OF few d_root])
  have "drop ?used root = concat (map (root_entry_bytes A) idx) @ []"
    using drop_later [OF d_root] by simp
  note chosen = scan_root_reads [OF key idx_ok this, of ?ns None]
  let ?P = "\<lambda>r. ad_le A (fst (hd r)) key"
  let ?n = "length (takeWhile ?P runs)"
  have same: "length (takeWhile (\<lambda>e. ad_le A (fst e) key) idx) = ?n"
  proof -
    have "length (takeWhile (\<lambda>e. ad_le A (fst e) key) idx) =
        length (takeWhile (\<lambda>k. ad_le A k key) (map fst idx))" by (simp add: takeWhile_map comp_def)
    also have "\<dots> = ?n" unfolding idx_def leaf_index_keys by (simp add: takeWhile_map comp_def)
    finally show ?thesis .
  qed
  have found: "map_of (placed 0 ps) key = (case rev (takeWhile ?P runs) of [] \<Rightarrow> None | r # _ \<Rightarrow> map_of r key)"
    using map_of_run [OF key asc runs(2)] unfolding runs(1) .
  note steps = locate_section_def Let_def r_foot rbind.simps foot(2-5) r_root n_root prod.case
  have enough: "\<not> len < FOOTER_BYTES" using fit foot(1) by simp
  show ?thesis
  proof (cases "?n = 0")
    case True
    then have "scan_root A ?ns root known key ?used (length idx) None = Inr None"
      using chosen same unfolding rev_takeWhile Let_def by simp
    moreover have "map_of (placed 0 ps) key = None" using found True unfolding rev_takeWhile Let_def by simp
    ultimately show ?thesis using enough by (simp add: steps)
  next
    case False
    define r where "r = runs ! (?n - 1)"
    have i: "?n - 1 < length runs" using False length_takeWhile_le [of ?P runs] by linarith
    obtain "at" n where e: "idx ! (?n - 1) = (fst (hd r), at, n)" "n = length (leaf_bytes A r)"
      "at + n \<le> len" "slice at n ?B = leaf_bytes A r"
      using idx_at [OF i] unfolding r_def by blast
    have c: "scan_root A ?ns root known key ?used (length idx) None = Inr (Some (at, n))"
      using chosen same False e(1) unfolding rev_takeWhile Let_def by simp
    have r_leaf: "read_span source ?ns len at n = Inr (leaf_bytes A r)" using span [OF e(3)] e(4) by simp
    have r_in: "set r \<subseteq> set (concat runs)" using nth_mem [OF i] unfolding r_def by auto
    have keys: "list_all key_ok (map fst r)" using ok r_in by (auto simp: list_all_iff)
    have locs: "list_all (\<lambda>e. loc_offset (snd e) \<le> U64_MAX \<and> loc_length (snd e) \<le> U64_MAX) r"
      unfolding list_all_iff
    proof
      fix x assume "x \<in> set r"
      then have "x \<in> set (placed 0 ps)" using r_in runs(1) by auto
      from placed_within [OF this] show "loc_offset (snd x) \<le> U64_MAX \<and> loc_length (snd x) \<le> U64_MAX"
        using fit small unfolding body_def by simp
    qed
    have few_r: "length r \<le> U64_MAX"
    proof -
      have "length r \<le> length (concat (map (leaf_entry_bytes A) r))"
        by (rule length_le_concat) (use write_nonempty in \<open>simp add: leaf_entry_bytes_def\<close>)
      also have "\<dots> \<le> n" unfolding e(2) by (simp add: leaf_bytes_def)
      finally show ?thesis using e(3) small by simp
    qed
    let ?used1 = "length (write_varint (length r))"
    have d: "drop 0 (leaf_bytes A r) = write_varint (length r) @ concat (map (leaf_entry_bytes A) r) @ []"
      by (simp add: leaf_bytes_def)
    have n_leaf: "read_varint ?ns (leaf_bytes A r) 0 = Inr (length r, ?used1)"
      by (rule read_varint_write [OF few_r d])
    have d1: "drop ?used1 (leaf_bytes A r) = concat (map (leaf_entry_bytes A) r) @ []"
      using drop_later [OF d] by simp
    have "scan_leaf A ?ns (leaf_bytes A r) known key ?used1 (length r) = Inr (map_of r key)"
      by (rule scan_leaf_reads [OF key keys locs d1])
    moreover have "map_of (placed 0 ps) key = map_of r key"
      using found False unfolding rev_takeWhile Let_def r_def by simp
    ultimately show ?thesis using enough by (simp add: steps c r_leaf n_leaf)
  qed
qed

lemma sealed_reads:
  assumes "writer_holds w ps" "seal A put w = Inr (s, len)" "len \<le> U64_MAX"
    "delivers source (sink_bytes s)" "key_ok key"
  shows "read_section A source len key known =
    (case map_of ps key of Some p \<Rightarrow> Inr p | None \<Rightarrow> Inl (invalid_image (ad_space A key)))"
proof (cases "map_of (placed 0 ps) key")
  case None
  then show ?thesis
    using sealed_locates [OF assms] by (simp add: read_section_def) (simp add: placed_none)
next
  case (Some loc)
  obtain p where p: "map_of ps key = Some p" "loc_length loc = length p" "loc_checksum loc = crc32 p"
    "loc_offset loc + length p \<le> length (concat (map snd ps))"
    "slice (loc_offset loc) (length p) (concat (map snd ps)) = p"
    using placed_reads [OF Some] by auto
  obtain rest_bytes where B: "sink_bytes s = concat (map snd ps) @ rest_bytes" "len = length (sink_bytes s)"
    using sealed_layout [OF assms(1,2)] unfolding Let_def by blast
  have "slice (loc_offset loc) (length p) (sink_bytes s) = p"
    using p(4,5) unfolding B(1) by (simp add: slice_def)
  moreover have "loc_offset loc + length p \<le> len" using p(4) B by simp
  ultimately have "read_span source (ad_space A key) len (loc_offset loc) (length p) = Inr p"
    using deliversD [OF assms(4), of "loc_offset loc" "length p"] B(2) assms(3) by (simp add: read_span_def)
  then show ?thesis using sealed_locates [OF assms] Some p(1-3) by (simp add: read_section_def)
qed

end

section \<open>The working set\<close>

text \<open>Every section resident is what the backing serves, once, and the bytes are counted.\<close>

definition cache_true :: "('k \<Rightarrow> bytes result) \<Rightarrow> 'k section_cache \<Rightarrow> bool" where
  "cache_true serve c \<longleftrightarrow>
     distinct (map fst (sc_resident c)) \<and>
     sc_bytes_resident c = sum_list (map (\<lambda>e. length (fst (snd e))) (sc_resident c)) \<and>
     list_all (\<lambda>e. serve (fst e) = Inr (fst (snd e))) (sc_resident c)"

lemma cache_true_new: "cache_true serve (cache_with_bytes n)"
  by (simp add: cache_true_def cache_with_bytes_def)

lemma sum_list_filter_key:
  "distinct (map fst es) \<Longrightarrow> (k, payload, m) \<in> set es \<Longrightarrow>
    sum_list (map (\<lambda>e. length (fst (snd e))) (filter (\<lambda>e. fst e \<noteq> k) es)) =
    sum_list (map (\<lambda>e. length (fst (snd e))) es) - length payload"
proof (induction es)
  case (Cons e es)
  show ?case
  proof (cases "fst e = k")
    case True
    then have "k \<notin> fst ` set es" using Cons.prems(1) by auto
    then have "filter (\<lambda>e. fst e \<noteq> k) es = es" "e = (k, payload, m)"
      using Cons.prems(2) True by (auto simp: filter_id_conv rev_image_eqI)
    then show ?thesis by simp
  next
    case False
    then have m: "(k, payload, m) \<in> set es" using Cons.prems(2) by auto
    then have "length payload \<le> sum_list (map (\<lambda>e. length (fst (snd e))) es)"
      using member_le_sum_list [of "length payload" "map (\<lambda>e. length (fst (snd e))) es"] by force
    then show ?thesis using Cons.IH m Cons.prems(1) False by simp
  qed
qed simp

lemma make_room_true:
  "cache_true serve c \<Longrightarrow> cache_true serve (make_room c wanted) \<and>
    set (sc_resident (make_room c wanted)) \<subseteq> set (sc_resident c) \<and>
    sc_bound (make_room c wanted) = sc_bound c \<and> sc_clock (make_room c wanted) = sc_clock c \<and>
    (sc_resident (make_room c wanted) = [] \<or> sc_bytes_resident (make_room c wanted) + wanted \<le> sc_bound c)"
proof (induction c wanted rule: make_room.induct)
  case (1 c wanted)
  show ?case
  proof (cases "sc_resident c \<noteq> [] \<and> sc_bytes_resident c + wanted > sc_bound c")
    case True
    obtain k payload m where e: "coldest (sc_resident c) = (k, payload, m)" by (cases "coldest (sc_resident c)")
    then have i: "(k, payload, m) \<in> set (sc_resident c)" using coldest_in True by metis
    let ?c = "c\<lparr>sc_resident := filter (\<lambda>e. fst e \<noteq> k) (sc_resident c),
                sc_bytes_resident := sc_bytes_resident c - length payload\<rparr>"
    have "cache_true serve ?c"
      using 1(2) sum_list_filter_key [OF _ i] by (auto simp: cache_true_def distinct_map_filter list_all_iff)
    then have IH: "cache_true serve (make_room ?c wanted) \<and>
        set (sc_resident (make_room ?c wanted)) \<subseteq> set (sc_resident ?c) \<and>
        sc_bound (make_room ?c wanted) = sc_bound ?c \<and> sc_clock (make_room ?c wanted) = sc_clock ?c \<and>
        (sc_resident (make_room ?c wanted) = [] \<or> sc_bytes_resident (make_room ?c wanted) + wanted \<le> sc_bound ?c)"
      using 1(1) [OF True e [symmetric] refl refl] by blast
    have step: "make_room c wanted = make_room ?c wanted"
      using True by (subst make_room.simps) (simp add: e)
    show ?thesis unfolding step using IH by auto
  next
    case False
    then show ?thesis using 1(2) by (subst (1 2 3 4 5 6) make_room.simps) auto
  qed
qed

lemma mark_used_true:
  "map fst (mark_used k t es) = map fst es \<and>
    map (\<lambda>e. fst (snd e)) (mark_used k t es) = map (\<lambda>e. fst (snd e)) es"
  by (induction k t es rule: mark_used.induct) auto

lemma cache_true_pairs:
  "cache_true serve c \<longleftrightarrow>
     distinct (map fst (sc_resident c)) \<and>
     sc_bytes_resident c = sum_list (map length (map (\<lambda>e. fst (snd e)) (sc_resident c))) \<and>
     map serve (map fst (sc_resident c)) = map Inr (map (\<lambda>e. fst (snd e)) (sc_resident c))"
  by (auto simp: cache_true_def list_all_iff comp_def)

text \<open>Serving through the working set is serving from the backing; what stays resident is bounded by
  the declared bound, or is the one section that is larger than it.\<close>

lemma cache_section_serves:
  assumes "cache_true (\<lambda>k. read_section A source len k known) c"
  shows "snd (cache_section A c source len key known) = read_section A source len key known \<and>
    cache_true (\<lambda>k. read_section A source len k known) (fst (cache_section A c source len key known)) \<and>
    sc_bound (fst (cache_section A c source len key known)) = sc_bound c"
proof (cases "map_of (sc_resident c) key")
  case (Some e)
  then obtain payload m where e: "map_of (sc_resident c) key = Some (payload, m)" by (cases e) auto
  then have "read_section A source len key known = Inr payload"
    using assms map_of_SomeD [OF e] by (auto simp: cache_true_def list_all_iff)
  then show ?thesis
    using e assms mark_used_true [of key "sc_clock c + 1" "sc_resident c"]
    unfolding cache_true_pairs cache_section_def by simp
next
  case None
  show ?thesis
  proof (cases "read_section A source len key known")
    case (Inl e)
    then show ?thesis using None assms by (simp add: cache_section_def cache_true_def)
  next
    case (Inr payload)
    let ?c1 = "c\<lparr>sc_clock := sc_clock c + 1\<rparr>"
    have "cache_true (\<lambda>k. read_section A source len k known) ?c1" using assms by (simp add: cache_true_def)
    note room = make_room_true [OF this, of "length payload"]
    have "key \<notin> fst ` set (sc_resident (make_room ?c1 (length payload)))"
      using None room by (force simp: map_of_eq_None_iff)
    then show ?thesis using None Inr room by (auto simp: cache_section_def cache_true_def Let_def)
  qed
qed

lemma serve_sections_serves:
  "cache_true (\<lambda>k. read_section A source len k known) c \<Longrightarrow>
    snd (serve_sections A c source len known keys) = map (\<lambda>k. read_section A source len k known) keys"
proof (induction keys arbitrary: c)
  case (Cons key keys)
  obtain c1 r where c1: "cache_section A c source len key known = (c1, r)" by force
  obtain c2 rs where c2: "serve_sections A c1 source len known keys = (c2, rs)" by force
  show ?case using cache_section_serves [OF Cons.prems, of key] Cons.IH [of c1] c1 c2 by simp
qed simp

context backing
begin

lemma sealed_serves:
  assumes "sink_bytes s0 = []" "append_sections A put (to_sink s0 leaf_entries) ps = Inr w"
    and "list_all (\<lambda>e. key_ok (fst e)) ps" "seal A put w = Inr (s, len)" "len \<le> U64_MAX"
    and "delivers source (sink_bytes s)" "list_all key_ok keys"
  shows "snd (serve_sections A (cache_with_bytes bound) source len known keys) =
    map (\<lambda>k. case map_of ps k of Some p \<Rightarrow> Inr p | None \<Rightarrow> Inl (invalid_image (ad_space A k))) keys"
proof -
  have h: "writer_holds w ps"
    using holds_appends [OF holds_new [OF assms(1)] assms(3,2)] by simp
  show ?thesis
    unfolding serve_sections_serves [OF cache_true_new]
    by (intro map_cong refl sealed_reads [OF h assms(4-6)]) (use assms(7) in \<open>simp add: list_all_iff\<close>)
qed

end

text \<open>A sink that accepts everything seals whatever it holds.\<close>

lemma seal_total: "(\<And>s bs. \<exists>s'. put s bs = Inr s') \<Longrightarrow> \<exists>s len. seal A put w = Inr (s, len)"
proof -
  assume put: "\<And>s bs. \<exists>s'. put s bs = Inr s'"
  have leaves: "\<exists>r. write_leaves A put rs s written = Inr r" for rs s written
  proof (induction rs arbitrary: s written)
    case (Cons r rs)
    obtain s1 where "put s (leaf_bytes A r) = Inr s1" using put by blast
    moreover obtain q where "write_leaves A put rs s1 (written + length (leaf_bytes A r)) = Inr q"
      using Cons by blast
    ultimately show ?case by (cases q) (simp add: Let_def)
  qed simp
  obtain s1 n ls where l: "write_leaves A put (chunks_of (sw_leaf_entries w) (sw_entries w)) (sw_sink w)
      (sw_written w) = Inr (s1, n, ls)" using leaves by (metis prod.exhaust)
  obtain s2 where s2: "put s1 (root_bytes A ls) = Inr s2" using put by blast
  obtain s3 where "put s2 (footer_bytes n (length (root_bytes A ls))) = Inr s3" using put by blast
  then show ?thesis unfolding seal_def l rbind.simps prod.case Let_def s2 by simp
qed

lemma length_write_varint: "v < 128 ^ n \<Longrightarrow> 0 < n \<Longrightarrow> length (write_varint v) \<le> n"
proof (induction n arbitrary: v)
  case (Suc n)
  show ?case
  proof (cases "v < 128")
    case True
    then show ?thesis by (subst write_varint.simps) simp
  next
    case False
    then have "0 < n" using Suc.prems(1) by (cases n) auto
    moreover have "v div 128 < 128 ^ n" using Suc.prems(1) by (simp add: less_mult_imp_div_less mult.commute)
    ultimately show ?thesis using Suc.IH False by (subst write_varint.simps) (simp add: drop_bit_eq_div)
  qed
qed simp

end
