(* ===== verification/Capture_Keys.thy ===== *)
theory Capture_Keys
  imports Sections_Proofs
begin

text \<open>
  The capture's section keys keep the contract of an address: positions are reduced fractions compared
  exactly, keys are totally ordered, and a key reads back as it was written. So a capture's backing
  serves every section it was sealed with.
\<close>

section \<open>Positions\<close>

lemma gcd_steps_gcd: "gcd_steps a b = gcd a b"
  by (induction a b rule: gcd_steps.induct) (subst gcd_steps.simps, simp add: gcd_red_nat [symmetric])

lemma greatest_common_divisor_gcd: "0 < b \<Longrightarrow> greatest_common_divisor a b = gcd a b"
  by (simp add: greatest_common_divisor_def gcd_steps_gcd Suc_leI)

definition position_ok :: "source_position \<Rightarrow> bool" where
  "position_ok p \<longleftrightarrow> 0 < sp_denominator p \<and> coprime (sp_numerator p) (sp_denominator p) \<and>
     sp_numerator p \<le> U64_MAX \<and> sp_denominator p \<le> U64_MAX"

lemma position_fraction_ok:
  assumes "position_fraction src n d = Inr p" "n \<le> U64_MAX" "d \<le> U64_MAX"
  shows "position_ok p" "sp_numerator p * d = n * sp_denominator p"
proof -
  have d: "0 < d" and p: "p = \<lparr>sp_numerator = n div gcd n d, sp_denominator = d div gcd n d\<rparr>"
    using assms(1) by (auto simp: position_fraction_def Let_def greatest_common_divisor_gcd split: if_splits)
  have "0 < d div gcd n d" using d by (simp add: div_greater_zero_iff gcd_le2_nat)
  moreover have "coprime (n div gcd n d) (d div gcd n d)" using d by (simp add: div_gcd_coprime)
  ultimately show "position_ok p"
    using le_trans [OF div_le_dividend assms(2)] le_trans [OF div_le_dividend assms(3)]
    unfolding p position_ok_def by simp
  show "sp_numerator p * d = n * sp_denominator p"
    unfolding p by (simp add: dvd_div_mult dvd_div_mult_self div_mult_swap mult.commute)
qed

lemma position_le_total: "position_le p q \<or> position_le q p"
  by (auto simp: position_le_def)

lemma position_le_antisym:
  assumes "position_ok p" "position_ok q" "position_le p q" "position_le q p"
  shows "p = q"
proof -
  have "sp_numerator p * sp_denominator q = sp_numerator q * sp_denominator p"
    using assms(3,4) by (simp add: position_le_def)
  then have "sp_numerator p = sp_numerator q \<and> sp_denominator p = sp_denominator q"
    using assms(1,2) coprime_crossproduct_nat [of "sp_numerator p" "sp_denominator p"
        "sp_numerator q" "sp_denominator q"]
    by (auto simp: position_ok_def coprime_commute mult.commute)
  then show ?thesis by (cases p; cases q) simp
qed

lemma position_le_trans:
  assumes "position_ok q" "position_le p q" "position_le q r"
  shows "position_le p r"
proof -
  let ?a = "sp_numerator p" and ?b = "sp_denominator p" and ?c = "sp_numerator q"
  let ?d = "sp_denominator q" and ?e = "sp_numerator r" and ?f = "sp_denominator r"
  have "?a * ?d * ?f \<le> ?c * ?b * ?f" by (rule mult_le_mono1) (use assms(2) in \<open>simp add: position_le_def\<close>)
  also have "\<dots> = ?c * ?f * ?b" by (simp only: mult_ac)
  also have "\<dots> \<le> ?e * ?d * ?b" by (rule mult_le_mono1) (use assms(3) in \<open>simp add: position_le_def\<close>)
  finally have "?d * (?a * ?f) \<le> ?d * (?e * ?b)" by (simp only: mult_ac)
  then show ?thesis using assms(1) by (simp add: position_le_def position_ok_def)
qed

section \<open>Keys\<close>

definition head_ok :: "nat option \<Rightarrow> bool" where
  "head_ok h \<longleftrightarrow> (case h of None \<Rightarrow> True | Some k \<Rightarrow> k < U64_MAX)"

fun scope_ok :: "scope_id \<Rightarrow> bool" where
  "scope_ok TrackScope = True"
| "scope_ok (RunScope i) = (i \<le> U64_MAX)"
| "scope_ok (ObservationScope i) = (i \<le> U64_MAX)"

definition space_ok :: "string list \<Rightarrow> string \<Rightarrow> bool" where
  "space_ok known ns \<longleftrightarrow> ns \<in> set known \<and> utf8_valid (utf8_of ns) \<and> length ns \<le> U64_MAX"

text \<open>A key of 64-bit parts, at a reduced position, under a namespace the reader can place. The last
  head number is excluded: a key writes it as the one before it.\<close>

definition section_key_ok :: "string list \<Rightarrow> section_key \<Rightarrow> bool" where
  "section_key_ok known k \<longleftrightarrow>
     space_ok known (tk_namespace (sk_track k)) \<and> position_ok (tk_position (sk_track k)) \<and>
     head_ok (tk_head (sk_track k)) \<and> scope_ok (sk_scope k) \<and> sk_ordinal k \<le> U64_MAX"

lemma byte_of_char: "unat (of_char c :: u8) = of_char c"
proof -
  have "(of_char c :: nat) < 256" using nat_of_char_less_256 by simp
  then have "unat (of_nat (of_char c) :: u8) = of_char c" by (simp add: unat_of_nat)
  then show ?thesis unfolding of_nat_of_char .
qed

lemma utf8_of_inj: "utf8_of a = utf8_of b \<Longrightarrow> a = b"
proof -
  have "inj (of_char :: char \<Rightarrow> u8)" by (rule injI) (metis byte_of_char of_char_eq_iff)
  then show "utf8_of a = utf8_of b \<Longrightarrow> a = b" unfolding utf8_of_def by (simp add: inj_map_eq_map)
qed

lemma read_namespace_write:
  assumes "space_ok known ns" "drop at bs = write_varint (length (utf8_of ns)) @ utf8_of ns @ post"
  shows "read_namespace src bs at known =
    Inr (ns, at + length (write_varint (length (utf8_of ns))) + length (utf8_of ns))"
proof -
  let ?raw = "utf8_of ns"
  have v: "read_varint src bs at = Inr (length ?raw, length (write_varint (length ?raw)))"
    by (rule read_varint_write [OF _ assms(2)]) (use assms(1) in \<open>simp add: space_ok_def utf8_of_def\<close>)
  have "at + length (write_varint (length ?raw)) \<le> length bs"
    using arg_cong [OF assms(2), of length] drop_inside [OF assms(2)] by simp
  then have g: "get_range bs (at + length (write_varint (length ?raw))) (length ?raw) = Some ?raw"
    by (rule get_range_drop [OF drop_later [OF assms(2)]])
  obtain n where "find (\<lambda>n. utf8_of n = ?raw) known = Some n"
    using assms(1) by (cases "find (\<lambda>n. utf8_of n = ?raw) known") (auto simp: find_None_iff space_ok_def)
  moreover from this have "n = ns" by (auto simp: find_Some_iff intro: utf8_of_inj)
  ultimately show ?thesis using assms(1) by (simp add: read_namespace_def v g space_ok_def)
qed

lemma read_scope_write:
  assumes "scope_ok s" "drop at bs = scope_bytes s @ post"
  shows "read_scope src bs at = Inr (s, at + length (scope_bytes s))"
proof (cases s)
  case TrackScope
  then show ?thesis
    using assms(2) read_varint_write [of 0 "at" bs post src] by (simp add: read_scope_def)
next
  case (RunScope i)
  then have d: "drop at bs = write_varint 1 @ write_varint i @ post" using assms(2) by simp
  show ?thesis
    using RunScope assms(1) read_varint_write [OF _ d, of src] read_varint_write [OF _ drop_later [OF d], of src]
    by (simp add: read_scope_def U64_MAX_def)
next
  case (ObservationScope i)
  then have d: "drop at bs = write_varint 2 @ write_varint i @ post" using assms(2) by simp
  show ?thesis
    using ObservationScope assms(1) read_varint_write [OF _ d, of src] read_varint_write [OF _ drop_later [OF d], of src]
    by (simp add: read_scope_def U64_MAX_def)
qed

lemma kind_code_round_trip [simp]: "kind_of_code (kind_code k) = Some k" "kind_code k \<le> U64_MAX"
  by (cases k; simp add: kind_of_code_def U64_MAX_def)+

lemma head_code_round_trip:
  "head_ok h \<Longrightarrow> (if head_code h = 0 then None else Some (head_code h - 1)) = h"
  by (auto simp: head_ok_def head_code_def split: option.splits)

lemma read_section_key_write:
  assumes ok: "section_key_ok known k" and d: "drop at bs = write_section_key k @ post"
  shows "read_section_key src bs at known = Inr (k, length (write_section_key k))"
proof -
  let ?ns = "tk_namespace (sk_track k)" and ?p = "tk_position (sk_track k)" and ?h = "tk_head (sk_track k)"
  let ?w0 = "write_varint (length (utf8_of ?ns)) @ utf8_of ?ns"
  let ?w1 = "write_varint (sp_numerator ?p)" and ?w2 = "write_varint (sp_denominator ?p)"
  let ?w3 = "write_varint (head_code ?h)" and ?w4 = "scope_bytes (sk_scope k)"
  let ?w5 = "write_varint (kind_code (sk_kind k))" and ?w6 = "write_varint (sk_ordinal k)"
  note parts = ok [unfolded section_key_ok_def]
  have d0: "drop at bs = ?w0 @ ?w1 @ ?w2 @ ?w3 @ ?w4 @ ?w5 @ ?w6 @ post"
    using d by (simp add: write_section_key_def)
  note d1 = drop_later [OF d0]
  note d2 = drop_later [OF d1]
  note d3 = drop_later [OF d2]
  note d4 = drop_later [OF d3]
  note d5 = drop_later [OF d4]
  note d6 = drop_later [OF d5]
  have r0: "read_namespace src bs at known = Inr (?ns, at + length ?w0)"
    using read_namespace_write [OF conjunct1 [OF parts], of "at" bs "?w1 @ ?w2 @ ?w3 @ ?w4 @ ?w5 @ ?w6 @ post" src] d0
    by (simp add: add.assoc)
  have p: "sp_numerator ?p \<le> U64_MAX" "sp_denominator ?p \<le> U64_MAX" "sp_denominator ?p \<noteq> 0"
    "greatest_common_divisor (sp_numerator ?p) (sp_denominator ?p) = 1"
    using parts by (auto simp: position_ok_def greatest_common_divisor_gcd)
  have reduced: "\<not> greatest_common_divisor (sp_numerator ?p) (sp_denominator ?p) \<noteq> 1" using p(4) by simp
  note r1 = read_varint_write [OF p(1) d1, of src] and r2 = read_varint_write [OF p(2) d2, of src]
  have r3: "read_varint src bs (at + length ?w0 + length ?w1 + length ?w2) = Inr (head_code ?h, length ?w3)"
    by (rule read_varint_write [OF _ d3]) (simp add: head_code_def split: option.split)
  have r4: "read_scope src bs (at + length ?w0 + length ?w1 + length ?w2 + length ?w3) =
      Inr (sk_scope k, at + length ?w0 + length ?w1 + length ?w2 + length ?w3 + length ?w4)"
    by (rule read_scope_write [OF _ d4]) (use parts in simp)
  have r5: "read_varint src bs (at + length ?w0 + length ?w1 + length ?w2 + length ?w3 + length ?w4) =
      Inr (kind_code (sk_kind k), length ?w5)"
    by (rule read_varint_write [OF _ d5]) simp
  have r6: "read_varint src bs (at + length ?w0 + length ?w1 + length ?w2 + length ?w3 + length ?w4 + length ?w5) =
      Inr (sk_ordinal k, length ?w6)"
    by (rule read_varint_write [OF _ d6]) (use parts in simp)
  have head: "(if head_code ?h = 0 then None else Some (head_code ?h - 1)) = ?h"
    by (rule head_code_round_trip) (use parts in simp)
  have len: "at + length ?w0 + length ?w1 + length ?w2 + length ?w3 + length ?w4 + length ?w5 + length ?w6 - at =
      length (write_section_key k)"
    by (simp add: write_section_key_def)
  show ?thesis
    unfolding read_section_key_def r0 rbind.simps prod.case r1 r2 if_not_P [OF p(3)]
      if_not_P [OF reduced] r3 r4 r5 kind_code_round_trip option.case r6 head len
    by simp
qed

section \<open>The order\<close>

lemma lex_le_total:
  "le x y \<or> le y x \<Longrightarrow> s \<or> t \<Longrightarrow> lex_le x y le s \<or> lex_le y x le t"
  by (auto simp: lex_le_def)

lemma lex_le_antisym: "lex_le x y le s \<Longrightarrow> lex_le y x le t \<Longrightarrow> le x y \<and> le y x \<and> s \<and> t"
  by (auto simp: lex_le_def)

lemma lex_le_trans:
  assumes "lex_le x y le s" "lex_le y z le t"
    and "\<And>a b c. {a, b, c} \<subseteq> {x, y, z} \<Longrightarrow> le a b \<Longrightarrow> le b c \<Longrightarrow> le a c" and "s \<Longrightarrow> t \<Longrightarrow> u"
  shows "lex_le x z le u"
proof -
  have xyz: "le x y" "le y z" using assms(1,2) by (auto simp: lex_le_def)
  have "le x z" by (rule assms(3) [OF _ xyz]) simp
  moreover have "u" if "le z x"
  proof -
    have "le z y" by (rule assms(3) [OF _ that xyz(1)]) simp
    moreover have "le y x" by (rule assms(3) [OF _ xyz(2) that]) simp
    ultimately show u using assms(1,2,4) by (auto simp: lex_le_def)
  qed
  ultimately show ?thesis by (auto simp: lex_le_def)
qed

lemma scope_le_laws:
  "scope_le a b \<or> scope_le b a" "scope_le a b \<Longrightarrow> scope_le b a \<Longrightarrow> a = b"
  "scope_le a b \<Longrightarrow> scope_le b c \<Longrightarrow> scope_le a c"
  by (cases a; cases b; cases c; auto simp: scope_le_def)+

lemma kind_code_inj: "kind_code a = kind_code b \<Longrightarrow> a = b"
  by (metis kind_code_round_trip(1) option.inject)

lemma option_rank_inj: "option_rank a = option_rank b \<Longrightarrow> a = b"
  by (cases a; cases b) simp_all

lemma section_key_le_total: "section_key_le a b \<or> section_key_le b a"
  unfolding section_key_le_def
  by (intro lex_le_total linear position_le_total scope_le_laws(1))

lemma section_key_le_antisym:
  assumes "section_key_ok known a" "section_key_ok known b" "section_key_le a b" "section_key_le b a"
  shows "a = b"
proof -
  note l1 = lex_le_antisym [OF assms(3,4) [unfolded section_key_le_def]]
  then have "tk_namespace (sk_track a) = tk_namespace (sk_track b)"
    by (intro utf8_of_inj order.antisym) simp_all
  moreover have "tk_position (sk_track a) = tk_position (sk_track b)"
  proof (rule position_le_antisym)
    show "position_le (tk_position (sk_track a)) (tk_position (sk_track b))"
      "position_le (tk_position (sk_track b)) (tk_position (sk_track a))"
      using l1 by (auto simp: lex_le_def)
  qed (use assms(1,2) in \<open>simp_all add: section_key_ok_def\<close>)
  moreover have "tk_head (sk_track a) = tk_head (sk_track b)"
    using l1 by (intro option_rank_inj order.antisym) (auto simp: lex_le_def)
  moreover have "sk_scope a = sk_scope b"
    using l1 by (intro scope_le_laws(2)) (auto simp: lex_le_def)
  moreover have "sk_kind a = sk_kind b"
    using l1 by (intro kind_code_inj order.antisym) (auto simp: lex_le_def)
  moreover have "sk_ordinal a = sk_ordinal b" using l1 by (auto simp: lex_le_def)
  ultimately show ?thesis by (cases a; cases b; cases "sk_track a"; cases "sk_track b") simp
qed

lemma section_key_le_trans:
  assumes "section_key_ok known a" "section_key_ok known b" "section_key_ok known c"
    "section_key_le a b" "section_key_le b c"
  shows "section_key_le a c"
proof -
  have pos: "position_le p r" if "{p, q, r} \<subseteq> {tk_position (sk_track a), tk_position (sk_track b),
      tk_position (sk_track c)}" "position_le p q" "position_le q r" for p q r
    using that assms(1-3) by (intro position_le_trans [OF _ that(2,3)]) (auto simp: section_key_ok_def)
  have "section_key_le a b \<Longrightarrow> section_key_le b c \<Longrightarrow> section_key_le a c"
    unfolding section_key_le_def
    by (erule (1) lex_le_trans, erule (1) order.trans, erule (1) lex_le_trans, erule (2) pos,
        erule (1) lex_le_trans, erule (1) order.trans, erule (1) lex_le_trans, erule (1) scope_le_laws(3),
        erule (1) lex_le_trans, erule (1) order.trans, erule (1) order.trans)
  then show ?thesis using assms(4,5) by blast
qed

interpretation capture: section_address capture_address known "section_key_ok known"
proof unfold_locales
  show "ad_read capture_address src bs at known = Inr (k, length (ad_write capture_address k))"
    if "section_key_ok known k" "drop at bs = ad_write capture_address k @ post" for k "at" bs post src
    using read_section_key_write [OF that(1), of "at" bs post src] that(2) by (simp add: capture_address_def)
  show "ad_write capture_address k \<noteq> []" for k
    by (simp add: capture_address_def write_section_key_def)
next
  show "ad_le capture_address a b \<or> ad_le capture_address b a" for a b
    using section_key_le_total [of a b] by (simp add: capture_address_def)
  show "a = b" if "section_key_ok known a" "section_key_ok known b" "ad_le capture_address a b"
    "ad_le capture_address b a" for a b
    using section_key_le_antisym [OF that(1,2)] that(3,4) by (simp add: capture_address_def)
  show "ad_le capture_address a c" if "section_key_ok known a" "section_key_ok known b" "section_key_ok known c"
    "ad_le capture_address a b" "ad_le capture_address b c" for a b c
    using section_key_le_trans [OF that(1-3)] that(4,5) by (simp add: capture_address_def)
qed

section \<open>A capture's backing\<close>

lemma capture_space [simp]: "ad_space capture_address k = tk_namespace (sk_track k)"
  by (simp add: capture_address_def)

interpretation capture_store:
  backing capture_address known "section_key_ok known" "session_append host" session_bytes
  by unfold_locales

definition empty_backing :: session_backing where
  "empty_backing = \<lparr>sb_file = [], sb_written = 0\<rparr>"

text \<open>
  C30: a capture's backing, streamed into session storage section by section and sealed, serves exactly
  its sections: whatever keys are asked for, in whatever order and under whatever bound on the working
  set, each answer is the bytes appended under that key, and a key never appended is refused under its
  own namespace. The index read on the way is the one the writer wrote: footer, root and leaf.
\<close>
theorem capture_backing_serves:
  assumes "append_sections capture_address (session_append host) (to_sink empty_backing leaf_entries) ps = Inr w"
    and "list_all (\<lambda>e. section_key_ok known (fst e)) ps"
    and "seal capture_address (session_append host) w = Inr (b, len)" "len \<le> U64_MAX"
    and "delivers source (session_bytes b)" "list_all (section_key_ok known) keys"
  shows "snd (serve_sections capture_address (cache_with_bytes bound) source len known keys) =
    map (\<lambda>k. case map_of ps k of Some p \<Rightarrow> Inr p | None \<Rightarrow> Inl (invalid_image (tk_namespace (sk_track k)))) keys"
proof -
  have "session_bytes empty_backing = []" by (simp add: session_bytes_def empty_backing_def)
  from capture_store.sealed_serves [OF this assms] show ?thesis unfolding capture_space .
qed

definition a_key :: "nat \<Rightarrow> section_key" where
  "a_key n = \<lparr>sk_track = track_key_new ''scp'' n 0, sk_scope = TrackScope, sk_kind = TrackMetadata, sk_ordinal = 0\<rparr>"

lemma a_key_ok: "n \<le> U64_MAX \<Longrightarrow> section_key_ok [''scp''] (a_key n)"
  by (simp add: section_key_ok_def a_key_def track_key_new_def position_whole_def space_ok_def position_ok_def
      head_ok_def utf8_of_def U64_MAX_def of_char_def)

lemma a_key_not_le: "\<not> section_key_le (a_key 2) (a_key 1)"
  by (simp add: section_key_le_def lex_le_def a_key_def track_key_new_def position_whole_def position_le_def)

lemma small_varint: "v < 128 \<Longrightarrow> length (write_varint v) = 1"
  by (subst write_varint.simps) simp

lemma a_key_length: "n < 128 \<Longrightarrow> length (write_section_key (a_key n)) = 10"
  by (simp add: write_section_key_def a_key_def track_key_new_def position_whole_def utf8_of_def head_code_def
      U64_MAX_def small_varint)

lemma check_length: "length (write_varint (unat (c :: u32))) \<le> 10"
proof (rule length_write_varint)
  have "unat c < 2 ^ 32" using unsigned_less [of c, where ?'a = nat] by simp
  then show "unat c < 128 ^ 10" by simp
qed simp

lemma two_sections_length:
  assumes "append_sections capture_address vec (to_sink s 64) [(a_key 1, [7]), (a_key 2, [])] = Inr w"
    and "seal capture_address vec w = Inr (b, len)"
  shows "len \<le> U64_MAX"
proof -
  let ?e = "[(a_key 1, \<lparr>loc_offset = 0, loc_length = 1, loc_checksum = crc32 [7]\<rparr>),
             (a_key 2, \<lparr>loc_offset = 1, loc_length = 0, loc_checksum = crc32 []\<rparr>)]"
  have w: "sw_entries w = ?e" "sw_written w = 1" "sw_leaf_entries w = 64"
    using assms(1) by (auto simp: section_append_def to_sink_def rbind_Inr_iff split: if_splits)
  have runs: "chunks_of 64 ?e = [?e]" by (simp add: chunks_of_step)
  let ?leaf = "leaf_bytes capture_address ?e"
  have leaf: "length ?leaf \<le> 100"
    using check_length [of "crc32 [7]"] check_length [of "crc32 []"]
    by (simp add: leaf_bytes_def leaf_entry_bytes_def capture_address_def small_varint a_key_length)
  let ?root = "root_bytes capture_address [(a_key 1, 1, length ?leaf)]"
  have root: "length ?root \<le> 100"
    using leaf by (simp add: root_bytes_def root_entry_bytes_def capture_address_def small_varint a_key_length)
  have "len = 1 + length ?leaf + length ?root + length (footer_bytes (1 + length ?leaf) (length ?root))"
    using assms(2) unfolding seal_def w runs by (auto simp: Let_def rbind_Inr_iff)
  then show ?thesis using leaf root by (simp add: footer_bytes_def U64_MAX_def)
qed

lemma capture_backing_serves_witness:
  "\<exists>w b len. append_sections capture_address (session_append (\<lambda>_ _. True)) (to_sink empty_backing 64)
      [(a_key 1, [7]), (a_key 2, [])] = Inr w \<and>
    seal capture_address (session_append (\<lambda>_ _. True)) w = Inr (b, len) \<and>
    snd (serve_sections capture_address (cache_with_bytes 0) (memory_source ''scp'' (session_bytes b)) len
      [''scp''] [a_key 2, a_key 1, a_key 3]) = [Inr [], Inr [7], Inl (invalid_image ''scp'')]"
proof -
  let ?put = "session_append (\<lambda>_ _. True)" and ?ps = "[(a_key 1, [7]), (a_key 2, [])] :: (section_key \<times> bytes) list"
  obtain w where w: "append_sections capture_address ?put (to_sink empty_backing 64) ?ps = Inr w"
    using a_key_not_le by (simp add: section_append_def to_sink_def session_append_def capture_address_def)
  obtain b len where b: "seal capture_address ?put w = Inr (b, len)"
    using seal_total [of ?put capture_address w] by (auto simp: session_append_def)
  have ok: "list_all (\<lambda>e. section_key_ok [''scp''] (fst e)) ?ps"
    "list_all (section_key_ok [''scp'']) [a_key 2, a_key 1, a_key 3]"
    by (simp_all add: a_key_ok U64_MAX_def)
  have "len \<le> U64_MAX" by (rule two_sections_length [OF w b])
  from capture_backing_serves [OF w ok(1) b this memory_delivers ok(2), of 0 "''scp''"]
  show ?thesis using w b by (auto simp: a_key_def track_key_new_def position_whole_def)
qed

end
