(* ===== verification/Flux_Image.thy ===== *)
theory Flux_Image
  imports Sections_Proofs
begin

text \<open>
  The remanence image (\<open>src/crates/remanence/src/flux/remanence/image.rs\<close>): the physical stratum of
  the flux family. An orbit is a circular array of points, each stating the magnetization in force from
  its angle; its points are packed words chunked into the section-addressable backing and decoded back
  through the bounded working set. Here are the model's values and their gates, the reading of an
  orbit, an orbit turned over, an orbit's unread spans filled from a donor, the builder, and the image
  as it stands.

  Widths, radii and counts are the 64-bit values of the source as naturals; a packed point is a
  \<open>32 word\<close>. The lock on the working set is left out: the set is a part of the image's state.
\<close>

unbundle bit_operations_syntax

definition REMANENCE :: string where "REMANENCE = ''remanence''"

definition ANGULAR_DIVISIONS :: nat where "ANGULAR_DIVISIONS = 2 ^ 28"

section \<open>Values\<close>

datatype media_form_factor = Inch8 | Inch525 | Inch35

datatype magnetization = Positive | Negative | Unaligned | Inert

fun is_coherent :: "magnetization \<Rightarrow> bool" where
  "is_coherent Positive = True"
| "is_coherent Negative = True"
| "is_coherent Unaligned = False"
| "is_coherent Inert = False"

fun opposite :: "magnetization \<Rightarrow> magnetization option" where
  "opposite Positive = Some Negative"
| "opposite Negative = Some Positive"
| "opposite Unaligned = None"
| "opposite Inert = None"

fun mag_code :: "magnetization \<Rightarrow> u32" where
  "mag_code Positive = 0"
| "mag_code Negative = 1"
| "mag_code Unaligned = 2"
| "mag_code Inert = 3"

definition mag_from_code :: "u32 \<Rightarrow> magnetization option" where
  "mag_from_code c =
     (if c = 0 then Some Positive else if c = 1 then Some Negative
      else if c = 2 then Some Unaligned else if c = 3 then Some Inert else None)"

record write_widths =
  plateau_microns :: nat
  guard_microns :: nat

definition widths_new :: "nat \<Rightarrow> nat \<Rightarrow> write_widths result" where
  "widths_new plateau guard =
     (if plateau = 0 then Inl (invalid_image REMANENCE)
      else if guard < plateau then Inl (invalid_image REMANENCE)
      else Inr \<lparr>plateau_microns = plateau, guard_microns = guard\<rparr>)"

record turn_fraction =
  tf_numerator :: nat
  tf_denominator :: nat

definition fraction_new :: "nat \<Rightarrow> nat \<Rightarrow> turn_fraction result" where
  "fraction_new n d =
     (if d = 0 then Inl (invalid_image REMANENCE)
      else let g = greatest_common_divisor (max n 1) d
           in Inr \<lparr>tf_numerator = n div g, tf_denominator = d div g\<rparr>)"

definition fraction_less :: "turn_fraction \<Rightarrow> turn_fraction \<Rightarrow> bool" where
  "fraction_less a b \<longleftrightarrow> tf_numerator a * tf_denominator b < tf_numerator b * tf_denominator a"

record hole =
  center_angle :: turn_fraction
  angular_extent :: turn_fraction

definition hole_new :: "turn_fraction \<Rightarrow> turn_fraction \<Rightarrow> hole result" where
  "hole_new center extent =
     (if tf_numerator center \<ge> tf_denominator center then Inl (invalid_image REMANENCE)
      else if tf_numerator extent = 0 \<or> tf_numerator extent > tf_denominator extent
      then Inl (invalid_image REMANENCE)
      else Inr \<lparr>center_angle = center, angular_extent = extent\<rparr>)"

record orbit_point =
  pt_angle :: nat
  pt_mag :: magnetization
  pt_widths :: "write_widths option"

definition states_widths :: "orbit_point \<Rightarrow> bool" where
  "states_widths p \<longleftrightarrow> pt_widths p \<noteq> None"

definition point_stating :: "nat \<Rightarrow> magnetization \<Rightarrow> write_widths option \<Rightarrow> orbit_point result" where
  "point_stating a m w =
     (if a \<ge> ANGULAR_DIVISIONS then Inl (invalid_image REMANENCE)
      else if w \<noteq> None \<and> \<not> is_coherent m then Inl (invalid_image REMANENCE)
      else Inr \<lparr>pt_angle = a, pt_mag = m, pt_widths = w\<rparr>)"

definition point_new :: "nat \<Rightarrow> magnetization \<Rightarrow> orbit_point result" where
  "point_new a m = point_stating a m None"

text \<open>The packed word: the angle high, the states-widths flag on bit 2, the state on the low two bits.\<close>

definition packed :: "orbit_point \<Rightarrow> u32" where
  "packed p =
     (let flags = (if states_widths p then 4 else 0) OR mag_code (pt_mag p)
      in push_bit 4 (word_of_nat (pt_angle p)) OR flags)"

section \<open>Addresses\<close>

datatype orbit_key = OrbitKey (ok_surface: nat) (ok_radius: nat)

definition orbit_key_new :: "nat \<Rightarrow> nat \<Rightarrow> orbit_key result" where
  "orbit_key_new s r = (if r = 0 then Inl (invalid_image REMANENCE) else Inr (OrbitKey s r))"

instantiation orbit_key :: linorder
begin

definition less_eq_orbit_key :: "orbit_key \<Rightarrow> orbit_key \<Rightarrow> bool" where
  "less_eq_orbit_key a b \<longleftrightarrow>
     ok_surface a < ok_surface b \<or> ok_surface a = ok_surface b \<and> ok_radius a \<le> ok_radius b"

definition less_orbit_key :: "orbit_key \<Rightarrow> orbit_key \<Rightarrow> bool" where
  "less_orbit_key a b \<longleftrightarrow>
     ok_surface a < ok_surface b \<or> ok_surface a = ok_surface b \<and> ok_radius a < ok_radius b"

instance
  by standard (auto simp: less_eq_orbit_key_def less_orbit_key_def orbit_key.expand)

end

record orbit =
  ob_key :: orbit_key
  ob_points :: nat
  ob_coherent :: nat
  ob_unaligned :: nat
  ob_chunks :: nat

datatype remanence_section_kind = OrbitMetadata | PointChunk

fun rem_kind_code :: "remanence_section_kind \<Rightarrow> nat" where
  "rem_kind_code OrbitMetadata = 0"
| "rem_kind_code PointChunk = 1"

datatype remanence_section_key =
  RemanenceKey (rk_orbit: orbit_key) (rk_kind: remanence_section_kind) (rk_ordinal: nat)

instantiation remanence_section_key :: linorder
begin

definition less_eq_remanence_section_key :: "remanence_section_key \<Rightarrow> remanence_section_key \<Rightarrow> bool" where
  "less_eq_remanence_section_key a b \<longleftrightarrow>
     rk_orbit a < rk_orbit b \<or> rk_orbit a = rk_orbit b \<and>
      (rem_kind_code (rk_kind a) < rem_kind_code (rk_kind b) \<or>
       rk_kind a = rk_kind b \<and> rk_ordinal a \<le> rk_ordinal b)"

definition less_remanence_section_key :: "remanence_section_key \<Rightarrow> remanence_section_key \<Rightarrow> bool" where
  "less_remanence_section_key a b \<longleftrightarrow> a \<le> b \<and> a \<noteq> b"

instance
proof
  fix x y z :: remanence_section_key
  have total_codes: "rem_kind_code a < rem_kind_code b \<or> a = b \<or> rem_kind_code b < rem_kind_code a" for a b
    by (cases a; cases b) auto
  show "x < y \<longleftrightarrow> x \<le> y \<and> \<not> y \<le> x"
    by (cases x; cases y) (auto simp: less_remanence_section_key_def less_eq_remanence_section_key_def)
  show "x \<le> x" by (simp add: less_eq_remanence_section_key_def)
  show "x \<le> z" if "x \<le> y" "y \<le> z"
    using that by (auto simp: less_eq_remanence_section_key_def)
  show "x = y" if "x \<le> y" "y \<le> x"
    using that by (cases x; cases y) (auto simp: less_eq_remanence_section_key_def)
  show "x \<le> y \<or> y \<le> x"
    using total_codes [of "rk_kind x" "rk_kind y"] linear [of "rk_ordinal x" "rk_ordinal y"]
    by (cases "rk_orbit x" "rk_orbit y" rule: linorder_cases) (auto simp: less_eq_remanence_section_key_def)
qed

end

definition write_remanence_key :: "remanence_section_key \<Rightarrow> bytes" where
  "write_remanence_key k =
     write_varint (length (utf8_of REMANENCE)) @ utf8_of REMANENCE @
     write_varint (ok_surface (rk_orbit k)) @ write_varint (ok_radius (rk_orbit k)) @
     write_varint (rem_kind_code (rk_kind k)) @ write_varint (rk_ordinal k)"

definition read_remanence_key :: "string \<Rightarrow> bytes \<Rightarrow> nat \<Rightarrow> string list \<Rightarrow> (remanence_section_key \<times> nat) result" where
  "read_remanence_key src bs at known =
     rbind (read_varint src bs at) (\<lambda>(len, u0).
     case get_range bs (at + u0) len of
       None \<Rightarrow> Inl (invalid_image src)
     | Some raw \<Rightarrow>
         if \<not> utf8_valid raw then Inl (invalid_image src)
         else if \<not> list_ex (\<lambda>n. utf8_of n = raw) known then Inl (invalid_image src)
         else
         let c0 = at + u0 + len in
         rbind (read_varint src bs c0) (\<lambda>(surface, u1).
         rbind (read_varint src bs (c0 + u1)) (\<lambda>(radius, u2).
         if radius = 0 then Inl (invalid_image src)
         else
         rbind (read_varint src bs (c0 + u1 + u2)) (\<lambda>(tag, u3).
         if tag > 1 then Inl (invalid_image src)
         else
         rbind (read_varint src bs (c0 + u1 + u2 + u3)) (\<lambda>(ordinal, u4).
           Inr (RemanenceKey (OrbitKey surface radius)
                  (if tag = 0 then OrbitMetadata else PointChunk) ordinal,
                c0 + u1 + u2 + u3 + u4 - at))))))"

definition remanence_address :: "remanence_section_key address" where
  "remanence_address =
     \<lparr>ad_space = (\<lambda>_. REMANENCE), ad_write = write_remanence_key,
      ad_read = read_remanence_key, ad_le = (\<le>)\<rparr>"

section \<open>Reading an orbit\<close>

fun validate_pairs :: "orbit_point list \<Rightarrow> unit result" where
  "validate_pairs (b # p # ps) =
     (if pt_angle p \<le> pt_angle b then Inl (invalid_image REMANENCE)
      else if is_coherent (pt_mag b) \<and> pt_mag b = pt_mag p \<and> \<not> states_widths p
      then Inl (invalid_image REMANENCE)
      else validate_pairs (p # ps))"
| "validate_pairs ps = Inr ()"

definition validate_orbit_points :: "orbit_point list \<Rightarrow> unit result" where
  "validate_orbit_points ps =
     (case find (\<lambda>p. is_coherent (pt_mag p)) ps of
        Some p \<Rightarrow> if \<not> states_widths p then Inl (invalid_image REMANENCE) else validate_pairs ps
      | None \<Rightarrow> validate_pairs ps)"

definition orbit_asserts :: "orbit_point list \<Rightarrow> bool" where
  "orbit_asserts ps \<longleftrightarrow> list_ex (\<lambda>p. pt_mag p \<noteq> Unaligned) ps"

fun force_from :: "magnetization option \<Rightarrow> orbit_point list \<Rightarrow> nat \<Rightarrow> magnetization option" where
  "force_from m [] a = m"
| "force_from m (p # ps) a = (if pt_angle p \<le> a then force_from (Some (pt_mag p)) ps a else m)"

definition state_at :: "orbit_point list \<Rightarrow> nat \<Rightarrow> magnetization option" where
  "state_at ps a =
     (case force_from None ps a of
        Some m \<Rightarrow> Some m
      | None \<Rightarrow> if ps = [] then None else Some (pt_mag (last ps)))"

fun crossings :: "nat \<Rightarrow> nat \<Rightarrow> orbit_point list \<Rightarrow> nat list option" where
  "crossings from to [] = Some []"
| "crossings from to (p # ps) =
     (let inside = filter (\<lambda>c. from < c \<and> c < to) [pt_angle p, pt_angle p + ANGULAR_DIVISIONS]
      in if inside \<noteq> [] \<and> \<not> is_coherent (pt_mag p) then None
         else map_option (\<lambda>rest. map (\<lambda>c. c mod ANGULAR_DIVISIONS) inside @ rest) (crossings from to ps))"

definition transitions_across :: "orbit_point list \<Rightarrow> nat \<Rightarrow> nat \<Rightarrow> nat list option" where
  "transitions_across ps from to =
     (if ps = [] \<or> to \<le> from then None
      else case state_at ps (from mod ANGULAR_DIVISIONS) of
             None \<Rightarrow> None
           | Some opening \<Rightarrow> if \<not> is_coherent opening then None else crossings from to ps)"

definition span_end_after :: "orbit_point list \<Rightarrow> nat \<Rightarrow> nat" where
  "span_end_after ps i =
     (if i + 1 < length ps then pt_angle (ps ! (i + 1)) else pt_angle (ps ! 0) + ANGULAR_DIVISIONS)"

section \<open>An orbit turned over\<close>

fun carry_widths :: "write_widths option \<Rightarrow> orbit_point list \<Rightarrow> write_widths option list" where
  "carry_widths w [] = []"
| "carry_widths w (p # ps) =
     (let w1 = (if states_widths p then pt_widths p else w) in w1 # carry_widths w1 ps)"

definition widths_in_force :: "orbit_point list \<Rightarrow> write_widths option list" where
  "widths_in_force ps =
     carry_widths (case find states_widths (rev ps) of None \<Rightarrow> None | Some p \<Rightarrow> pt_widths p) ps"

type_synonym span = "nat \<times> magnetization \<times> write_widths option"

text \<open>The polarity laid fresh: the sense in force, the widths standing, and whether any coherent point
  has been laid.\<close>

fun relay_from :: "magnetization option \<Rightarrow> write_widths option \<Rightarrow> bool \<Rightarrow> span list \<Rightarrow> orbit_point list result" where
  "relay_from sense standing opened [] = Inr []"
| "relay_from sense standing opened ((a, was, w) # spans) =
     (if \<not> is_coherent was then
        rbind (point_new a was) (\<lambda>p.
        rbind (relay_from None standing opened spans) (\<lambda>ps. Inr (p # ps)))
      else
        let nxt = (case sense of None \<Rightarrow> Positive | Some current \<Rightarrow> the (opposite current))
        in rbind (if \<not> opened \<or> standing \<noteq> w then point_stating a nxt w else point_new a nxt) (\<lambda>p.
           rbind (relay_from (Some nxt) w True spans) (\<lambda>ps. Inr (p # ps))))"

definition relay_polarity :: "span list \<Rightarrow> orbit_point list result" where
  "relay_polarity spans = relay_from None None False spans"

text \<open>The span that point \<open>i\<close> opens, turned: its leading edge is the image of its trailing point.\<close>

definition turned :: "orbit_point list \<Rightarrow> span list" where
  "turned ps =
     map (\<lambda>i. ((ANGULAR_DIVISIONS - pt_angle (ps ! ((i + 1) mod length ps))) mod ANGULAR_DIVISIONS,
               pt_mag (ps ! i), widths_in_force ps ! i)) [0..<length ps]"

definition reversed_points :: "orbit_point list \<Rightarrow> orbit_point list result" where
  "reversed_points ps = (if ps = [] then Inr [] else relay_polarity (sort_key fst (turned ps)))"

section \<open>An orbit's unread spans filled from a donor\<close>

record refinement =
  orbits_gained :: nat
  spans_read :: nat
  transitions_gained :: nat
  spans_still_unread :: nat
  contested :: nat

definition gained_anything :: "refinement \<Rightarrow> bool" where
  "gained_anything r \<longleftrightarrow> orbits_gained r > 0 \<or> spans_read r > 0"

definition fill_span :: "orbit_point list \<Rightarrow> orbit_point list \<Rightarrow> span list \<times> refinement \<Rightarrow> nat \<Rightarrow> span list \<times> refinement" where
  "fill_span mine donor = (\<lambda>(placed, r) i.
     let p = mine ! i; w = widths_in_force mine ! i; recovered = transitions_across donor (pt_angle p) (span_end_after mine i)
     in if pt_mag p \<noteq> Unaligned then
          (placed @ [(pt_angle p, pt_mag p, w)],
           if pt_mag p = Inert \<and> recovered \<noteq> None then r\<lparr>contested := contested r + 1\<rparr> else r)
        else case recovered of
          None \<Rightarrow> (placed @ [(pt_angle p, Unaligned, None)], r\<lparr>spans_still_unread := spans_still_unread r + 1\<rparr>)
        | Some found \<Rightarrow>
            (placed @ [(pt_angle p, Positive, w)] @ map (\<lambda>a. (a, Positive, w)) found,
             r\<lparr>transitions_gained := transitions_gained r + length found, spans_read := spans_read r + 1\<rparr>))"

definition fill_from :: "orbit_point list \<Rightarrow> orbit_point list \<Rightarrow> (orbit_point list \<times> refinement) result" where
  "fill_from mine donor =
     (let (placed, r) = foldl (fill_span mine donor)
            ([], \<lparr>orbits_gained = 0, spans_read = 0, transitions_gained = 0, spans_still_unread = 0, contested = 0\<rparr>)
            [0..<length mine]
      in rbind (relay_polarity (sort_key fst placed)) (\<lambda>rebuilt. Inr (rebuilt, r)))"

section \<open>Point chunks\<close>

definition widths_bytes :: "write_widths \<Rightarrow> bytes" where
  "widths_bytes w = write_varint (plateau_microns w) @ write_varint (guard_microns w)"

definition point_bytes :: "orbit_point \<Rightarrow> bytes" where
  "point_bytes p =
     le_bytes 4 (unat (packed p)) @ (case pt_widths p of None \<Rightarrow> [] | Some w \<Rightarrow> widths_bytes w)"

definition encode_point_chunk :: "orbit_point list \<Rightarrow> bytes" where
  "encode_point_chunk ps = concat (map point_bytes ps)"

definition read_widths :: "bytes \<Rightarrow> nat \<Rightarrow> (write_widths \<times> nat) result" where
  "read_widths bs at =
     rbind (read_varint REMANENCE bs at) (\<lambda>(plateau, u0).
     rbind (read_varint REMANENCE bs (at + u0)) (\<lambda>(guard, u1).
     rbind (widths_new plateau guard) (\<lambda>w. Inr (w, u0 + u1))))"

function decode_chunk_from :: "bytes \<Rightarrow> nat \<Rightarrow> orbit_point list result" where
  "decode_chunk_from payload at =
     (if at \<ge> length payload then Inr []
      else case get_range payload at 4 of
        None \<Rightarrow> Inl (invalid_image REMANENCE)
      | Some raw \<Rightarrow>
          let word = word_of_nat (le_nat raw) :: u32; mag = the (mag_from_code (word AND 3))
          in rbind (if word AND 4 \<noteq> 0
                    then rbind (read_widths payload (at + 4)) (\<lambda>(w, u). Inr (Some w, u))
                    else Inr (None, 0)) (\<lambda>(w, u).
             rbind (point_stating (unat (drop_bit 4 word)) mag w) (\<lambda>p.
             rbind (decode_chunk_from payload (at + 4 + u)) (\<lambda>ps. Inr (p # ps)))))"
  by pat_completeness auto
termination
  by (relation "measure (\<lambda>(payload, at). length payload - at)") auto

declare decode_chunk_from.simps [simp del]

definition decode_point_chunk :: "bytes \<Rightarrow> orbit_point list \<Rightarrow> orbit_point list result" where
  "decode_point_chunk payload into = rbind (decode_chunk_from payload 0) (\<lambda>ps. Inr (into @ ps))"

section \<open>The image\<close>

record flux_backing =
  fb_bytes :: byte_source
  fb_total :: nat
  fb_cache :: "remanence_section_key section_cache"
  fb_known :: "string list"

record flux_image =
  fi_form_factor :: media_form_factor
  fi_holes :: "hole list"
  fi_orbits :: "(orbit_key, orbit) omap"
  fi_provenance :: provenance
  fi_backing :: "flux_backing option"
  fi_artifact :: "(string \<times> access_mode) option"

definition attach_backing :: "flux_image \<Rightarrow> byte_source \<Rightarrow> nat \<Rightarrow> nat \<Rightarrow> flux_image" where
  "attach_backing img source total_bytes cache_bytes =
     img\<lparr>fi_backing := Some \<lparr>fb_bytes = source, fb_total = total_bytes,
           fb_cache = cache_with_bytes cache_bytes, fb_known = [REMANENCE]\<rparr>\<rparr>"

definition attach_artifact :: "flux_image \<Rightarrow> string \<Rightarrow> access_mode \<Rightarrow> flux_image" where
  "attach_artifact img p m = img\<lparr>fi_artifact := Some (p, m)\<rparr>"

definition backing_bytes :: "flux_image \<Rightarrow> nat" where
  "backing_bytes img = (case fi_backing img of None \<Rightarrow> 0 | Some b \<Rightarrow> fb_total b)"

definition resident_bytes :: "flux_image \<Rightarrow> nat" where
  "resident_bytes img = (case fi_backing img of None \<Rightarrow> 0 | Some b \<Rightarrow> sc_bytes_resident (fb_cache b))"

fun points_from ::
  "byte_source \<Rightarrow> nat \<Rightarrow> string list \<Rightarrow> orbit_key \<Rightarrow> nat list \<Rightarrow> remanence_section_key section_cache \<Rightarrow>
    orbit_point list \<Rightarrow> remanence_section_key section_cache \<times> orbit_point list result" where
  "points_from source total_bytes known key [] c ps = (c, Inr ps)"
| "points_from source total_bytes known key (ordinal # ordinals) c ps =
     (case cache_section remanence_address c source total_bytes (RemanenceKey key PointChunk ordinal) known of
        (c1, Inl e) \<Rightarrow> (c1, Inl e)
      | (c1, Inr payload) \<Rightarrow>
          (case decode_point_chunk payload ps of
             Inl e \<Rightarrow> (c1, Inl e)
           | Inr ps1 \<Rightarrow> points_from source total_bytes known key ordinals c1 ps1))"

definition image_points :: "flux_image \<Rightarrow> orbit \<Rightarrow> flux_image \<times> orbit_point list result" where
  "image_points img ob =
     (case fi_backing img of
        None \<Rightarrow> (img, Inl (invalid_image REMANENCE))
      | Some b \<Rightarrow>
          let (c, r) = points_from (fb_bytes b) (fb_total b) (fb_known b) (ob_key ob) [0..<ob_chunks ob] (fb_cache b) []
          in (img\<lparr>fi_backing := Some (b\<lparr>fb_cache := c\<rparr>)\<rparr>,
              rbind r (\<lambda>ps. if length ps \<noteq> ob_points ob then Inl (invalid_image REMANENCE) else Inr ps)))"

record flux_hole =
  center_numerator :: nat
  center_denominator :: nat
  extent_numerator :: nat
  extent_denominator :: nat

record flux_orbit =
  fo_surface :: nat
  fo_radius_microns :: nat
  fo_points :: nat
  fo_coherent_points :: nat
  fo_unaligned_spans :: nat

record flux_image_report =
  rp_form_factor :: string
  rp_angular_divisions :: nat
  rp_holes :: "flux_hole list"
  rp_surfaces :: "nat list"
  rp_orbits :: "flux_orbit list"
  rp_provenance :: "utf8 list"

fun form_factor_str :: "media_form_factor \<Rightarrow> string" where
  "form_factor_str Inch8 = ''8-inch''"
| "form_factor_str Inch525 = ''5.25-inch''"
| "form_factor_str Inch35 = ''3.5-inch''"

definition inspect :: "flux_image \<Rightarrow> flux_image_report" where
  "inspect img =
     \<lparr>rp_form_factor = form_factor_str (fi_form_factor img),
      rp_angular_divisions = ANGULAR_DIVISIONS,
      rp_holes = map (\<lambda>h. \<lparr>center_numerator = tf_numerator (center_angle h),
                          center_denominator = tf_denominator (center_angle h),
                          extent_numerator = tf_numerator (angular_extent h),
                          extent_denominator = tf_denominator (angular_extent h)\<rparr>) (fi_holes img),
      rp_surfaces = remdups_adj (map (\<lambda>e. ok_surface (fst e)) (fi_orbits img)),
      rp_orbits = map (\<lambda>e. \<lparr>fo_surface = ok_surface (ob_key (snd e)),
                           fo_radius_microns = ok_radius (ob_key (snd e)),
                           fo_points = ob_points (snd e),
                           fo_coherent_points = ob_coherent (snd e),
                           fo_unaligned_spans = ob_unaligned (snd e)\<rparr>) (fi_orbits img),
      rp_provenance = prov_notes (fi_provenance img)\<rparr>"

section \<open>The builder\<close>

definition METADATA_VERSION :: nat where "METADATA_VERSION = 1"

record 's flux_image_builder =
  bd_writer :: "(remanence_section_key, 's) section_writer"
  bd_image :: flux_image
  bd_chunk_records :: nat

fun holes_ordered :: "hole list \<Rightarrow> bool" where
  "holes_ordered (b # h # hs) \<longleftrightarrow> fraction_less (center_angle b) (center_angle h) \<and> holes_ordered (h # hs)"
| "holes_ordered hs = True"

definition builder_to_sink ::
  "media_form_factor \<Rightarrow> hole list \<Rightarrow> provenance \<Rightarrow> 's \<Rightarrow> nat \<Rightarrow> 's flux_image_builder result" where
  "builder_to_sink ff holes policy sink chunk_records =
     (if prov_notes policy = [] then Inl (invalid_image REMANENCE)
      else if \<not> holes_ordered holes then Inl (invalid_image REMANENCE)
      else Inr \<lparr>bd_writer = to_sink sink LEAF_ENTRIES,
                bd_image = \<lparr>fi_form_factor = ff, fi_holes = holes, fi_orbits = [], fi_provenance = policy,
                            fi_backing = None, fi_artifact = None\<rparr>,
                bd_chunk_records = max chunk_records 1\<rparr>)"

definition orbit_metadata :: "orbit \<Rightarrow> bytes" where
  "orbit_metadata ob =
     write_varint METADATA_VERSION @ write_varint (ob_points ob) @ write_varint (ob_coherent ob) @
     write_varint (ob_unaligned ob) @ write_varint (ob_chunks ob)"

fun append_chunks ::
  "'s byte_sink \<Rightarrow> orbit_key \<Rightarrow> nat \<Rightarrow> orbit_point list list \<Rightarrow> (remanence_section_key, 's) section_writer \<Rightarrow>
    (remanence_section_key, 's) section_writer result" where
  "append_chunks put key ordinal [] w = Inr w"
| "append_chunks put key ordinal (run # runs) w =
     rbind (section_append remanence_address put w (RemanenceKey key PointChunk ordinal) (encode_point_chunk run))
       (\<lambda>w1. append_chunks put key (ordinal + 1) runs w1)"

definition orbit_of :: "nat \<Rightarrow> orbit_key \<Rightarrow> orbit_point list \<Rightarrow> orbit" where
  "orbit_of chunk_records key ps =
     \<lparr>ob_key = key, ob_points = length ps,
      ob_coherent = length (filter (\<lambda>p. is_coherent (pt_mag p)) ps),
      ob_unaligned = length (filter (\<lambda>p. pt_mag p = Unaligned) ps),
      ob_chunks = length (chunks_of chunk_records ps)\<rparr>"

definition add_orbit ::
  "'s byte_sink \<Rightarrow> 's flux_image_builder \<Rightarrow> orbit_key \<Rightarrow> orbit_point list \<Rightarrow> ('s flux_image_builder \<times> bool) result" where
  "add_orbit put b key ps =
     rbind (validate_orbit_points ps) (\<lambda>_.
     if \<not> orbit_asserts ps then Inr (b, False)
     else if map_of (fi_orbits (bd_image b)) key \<noteq> None then Inl (invalid_image REMANENCE)
     else
     let ob = orbit_of (bd_chunk_records b) key ps in
     rbind (section_append remanence_address put (bd_writer b) (RemanenceKey key OrbitMetadata 0) (orbit_metadata ob)) (\<lambda>w1.
     rbind (append_chunks put key 0 (chunks_of (bd_chunk_records b) ps) w1) (\<lambda>w2.
       Inr (b\<lparr>bd_writer := w2,
              bd_image := (bd_image b)\<lparr>fi_orbits := oinsert key ob (fi_orbits (bd_image b))\<rparr>\<rparr>, True))))"

definition builder_seal :: "'s byte_sink \<Rightarrow> 's flux_image_builder \<Rightarrow> (flux_image \<times> 's \<times> nat) result" where
  "builder_seal put b =
     rbind (seal remanence_address put (bd_writer b)) (\<lambda>(s, total_bytes). Inr (bd_image b, s, total_bytes))"

end
