(* ===== verification/Flux_Image_Proofs.thy ===== *)
theory Flux_Image_Proofs
  imports Flux_Image
begin

text \<open>
  What the remanence image promises. A packed point unpacks to itself, a chunk decodes to the points it
  was written from, and the keys of the image's backing keep the contract of an address, so an image's
  points, read through the index and the working set, are the points its builder was given.
\<close>

unbundle bit_operations_syntax

lemma mag_code_round_trip [simp]: "mag_from_code (mag_code m) = Some m"
  by (cases m) (simp_all add: mag_from_code_def)

lemma opposite_coherent: "is_coherent m \<Longrightarrow> \<exists>m'. opposite m = Some m' \<and> is_coherent m' \<and> m' \<noteq> m"
  by (cases m) auto

section \<open>Points\<close>

definition widths_ok :: "write_widths \<Rightarrow> bool" where
  "widths_ok w \<longleftrightarrow> 0 < plateau_microns w \<and> plateau_microns w \<le> guard_microns w \<and> guard_microns w \<le> U64_MAX"

definition point_ok :: "orbit_point \<Rightarrow> bool" where
  "point_ok p \<longleftrightarrow> pt_angle p < ANGULAR_DIVISIONS \<and>
     (case pt_widths p of None \<Rightarrow> True | Some w \<Rightarrow> is_coherent (pt_mag p) \<and> widths_ok w)"

lemma point_stating_ok:
  "point_stating a m w = Inr p \<Longrightarrow> (case w of None \<Rightarrow> True | Some v \<Rightarrow> widths_ok v) \<Longrightarrow> point_ok p"
  by (auto simp: point_stating_def point_ok_def split: if_splits option.splits)

lemma point_stating_again: "point_ok p \<Longrightarrow> point_stating (pt_angle p) (pt_mag p) (pt_widths p) = Inr p"
  by (auto simp: point_stating_def point_ok_def split: option.splits)

lemma flag_words:
  fixes a :: u32
  assumes "f \<in> {0, 1, 2, 3, 4, 5, 6, 7}"
  shows "(push_bit 4 a OR f) AND 3 = f AND 3" "(push_bit 4 a OR f) AND 4 = f AND 4"
    "drop_bit 4 (push_bit 4 a OR f) = drop_bit 4 (push_bit 4 a)"
proof -
  have "push_bit 4 a AND mask 3 = 0" by (simp add: take_bit_push_bit flip: take_bit_eq_mask)
  then have seven: "push_bit 4 a AND 7 = 0" by (simp add: mask_eq_exp_minus_1)
  have low: "push_bit 4 a AND 3 = 0" "push_bit 4 a AND 4 = 0"
    using arg_cong [OF seven, of "\<lambda>x. x AND 3"] arg_cong [OF seven, of "\<lambda>x. x AND 4"]
    by (simp_all add: and.assoc del: push_bit_numeral)
  show "(push_bit 4 a OR f) AND 3 = f AND 3" "(push_bit 4 a OR f) AND 4 = f AND 4"
    by (simp_all add: bit.conj_disj_distrib2 low)
  have "drop_bit 4 f = 0" using assms by auto
  then show "drop_bit 4 (push_bit 4 a OR f) = drop_bit 4 (push_bit 4 a)" by simp
qed

lemma unat_angle:
  assumes "a < ANGULAR_DIVISIONS"
  shows "unat (drop_bit 4 (push_bit 4 (word_of_nat a :: u32))) = a"
proof -
  have "push_bit 4 (word_of_nat a :: u32) = word_of_nat (a * 16)"
    by (simp add: push_bit_eq_mult mult.commute)
  moreover have "unat (word_of_nat (a * 16) :: u32) = a * 16"
    unfolding unat_of_nat using assms by (simp add: ANGULAR_DIVISIONS_def take_bit_eq_mod)
  ultimately have "unat (push_bit 4 (word_of_nat a :: u32)) = a * 16" by metis
  then show ?thesis unfolding unat_drop_bit_eq unfolding drop_bit_eq_div by simp
qed

lemma packed_fields:
  assumes "pt_angle p < ANGULAR_DIVISIONS"
  shows "mag_from_code (packed p AND 3) = Some (pt_mag p)" "packed p AND 4 \<noteq> 0 \<longleftrightarrow> states_widths p"
    "unat (drop_bit 4 (packed p)) = pt_angle p"
proof -
  define f where "f = (if states_widths p then 4 else 0) OR mag_code (pt_mag p)"
  have f: "f \<in> {0, 1, 2, 3, 4, 5, 6, 7}" "f AND 3 = mag_code (pt_mag p)" "f AND 4 = (if states_widths p then 4 else 0)"
    unfolding f_def by (cases "pt_mag p"; simp)+
  have p: "packed p = push_bit 4 (word_of_nat (pt_angle p)) OR f" by (simp add: packed_def f_def)
  show "mag_from_code (packed p AND 3) = Some (pt_mag p)" "packed p AND 4 \<noteq> 0 \<longleftrightarrow> states_widths p"
    unfolding p flag_words [OF f(1)] f(2,3) by simp_all
  show "unat (drop_bit 4 (packed p)) = pt_angle p"
    unfolding p flag_words [OF f(1)] by (rule unat_angle [OF assms])
qed

lemma read_widths_write:
  assumes "widths_ok w" "drop at bs = widths_bytes w @ post"
  shows "read_widths bs at = Inr (w, length (widths_bytes w))"
proof -
  have d: "drop at bs = write_varint (plateau_microns w) @ write_varint (guard_microns w) @ post"
    using assms(2) by (simp add: widths_bytes_def)
  have u: "plateau_microns w \<le> U64_MAX" "guard_microns w \<le> U64_MAX"
    using assms(1) by (auto simp: widths_ok_def)
  show ?thesis
    using read_varint_write [OF u(1) d] read_varint_write [OF u(2) drop_later [OF d]] assms(1)
    by (simp add: read_widths_def widths_bytes_def widths_new_def widths_ok_def)
qed

lemma decode_chunk_from_encode:
  "list_all point_ok ps \<Longrightarrow> drop at bs = encode_point_chunk ps \<Longrightarrow> decode_chunk_from bs at = Inr ps"
proof (induction ps arbitrary: "at")
  case Nil
  then show ?case by (subst decode_chunk_from.simps) (simp add: encode_point_chunk_def)
next
  case (Cons p ps)
  have ok: "point_ok p" "list_all point_ok ps" using Cons.prems(1) by simp_all
  then have angle: "pt_angle p < ANGULAR_DIVISIONS" by (simp add: point_ok_def)
  define wb where "wb = (case pt_widths p of None \<Rightarrow> [] | Some w \<Rightarrow> widths_bytes w)"
  define pw where "pw = le_bytes 4 (unat (packed p))"
  have len: "length pw = 4" unfolding pw_def by (rule length_le_bytes)
  have d0: "drop at bs = pw @ wb @ encode_point_chunk ps"
    using Cons.prems(2) unfolding encode_point_chunk_def point_bytes_def wb_def pw_def list.map concat.simps append_assoc .
  have in0: "at < length bs" by (rule drop_inside [OF d0]) (use len in auto)
  have g: "get_range bs at 4 = Some pw"
    using get_range_drop [OF d0] in0 len by simp
  have d1: "drop (at + 4) bs = wb @ encode_point_chunk ps" using drop_later [OF d0] len by simp
  have "unat (packed p) < 256 ^ 4" using unsigned_less [of "packed p", where ?'a = nat] by simp
  note small = this
  have word: "word_of_nat (le_nat pw) = packed p" unfolding pw_def
    unfolding le_nat_le_bytes_id [OF small] of_nat_unat by (rule ucast_id)
  have w: "(if packed p AND 4 \<noteq> 0 then rbind (read_widths bs (at + 4)) (\<lambda>(w, u). Inr (Some w, u)) else Inr (None, 0)) =
      Inr (pt_widths p, length wb)"
  proof (cases "pt_widths p")
    case None
    then show ?thesis using packed_fields(2) [OF angle] by (simp add: states_widths_def wb_def)
  next
    case (Some v)
    then have v: "widths_ok v" "wb = widths_bytes v" using ok(1) by (simp_all add: point_ok_def wb_def)
    then have "drop (at + 4) bs = widths_bytes v @ encode_point_chunk ps" using d1 by simp
    from read_widths_write [OF v(1) this] show ?thesis
      using Some v packed_fields(2) [OF angle] by (simp add: states_widths_def)
  qed
  have rest: "decode_chunk_from bs (at + 4 + length wb) = Inr ps"
    by (rule Cons.IH [OF ok(2)]) (rule drop_later [OF d1])
  show ?case
    using in0 g w rest point_stating_again [OF ok(1)] packed_fields(1,3) [OF angle]
    by (subst decode_chunk_from.simps) (simp only: Let_def word option.case option.sel rbind.simps prod.case not_le [symmetric] if_False)
qed

lemma decode_encode_chunk: "list_all point_ok ps \<Longrightarrow> decode_point_chunk (encode_point_chunk ps) into = Inr (into @ ps)"
  by (simp add: decode_point_chunk_def decode_chunk_from_encode)

section \<open>Addresses\<close>

definition orbit_key_ok :: "orbit_key \<Rightarrow> bool" where
  "orbit_key_ok k \<longleftrightarrow> ok_surface k \<le> U64_MAX \<and> 0 < ok_radius k \<and> ok_radius k \<le> U64_MAX"

definition remanence_key_ok :: "remanence_section_key \<Rightarrow> bool" where
  "remanence_key_ok k \<longleftrightarrow> orbit_key_ok (rk_orbit k) \<and> rk_ordinal k \<le> U64_MAX"

lemma remanence_text: "utf8_valid (utf8_of REMANENCE)" "length (utf8_of REMANENCE) \<le> U64_MAX"
  by (simp_all add: REMANENCE_def utf8_of_def of_char_def U64_MAX_def)

lemma read_remanence_key_write:
  assumes ok: "remanence_key_ok k" and known: "REMANENCE \<in> set known"
    and d: "drop at bs = write_remanence_key k @ post"
  shows "read_remanence_key src bs at known = Inr (k, length (write_remanence_key k))"
proof -
  define raw where "raw = utf8_of REMANENCE"
  define w0 where "w0 = write_varint (length raw)"
  define w1 where "w1 = write_varint (ok_surface (rk_orbit k))"
  define w2 where "w2 = write_varint (ok_radius (rk_orbit k))"
  define w3 where "w3 = write_varint (rem_kind_code (rk_kind k))"
  define w4 where "w4 = write_varint (rk_ordinal k)"
  note parts = ok [unfolded remanence_key_ok_def orbit_key_ok_def]
  have d0: "drop at bs = w0 @ raw @ w1 @ w2 @ w3 @ w4 @ post"
    using d by (simp add: write_remanence_key_def w0_def w1_def w2_def w3_def w4_def raw_def)
  note d1 = drop_later [OF d0]
  note d2 = drop_later [OF d1]
  note d3 = drop_later [OF d2]
  note d4 = drop_later [OF d3]
  note d5 = drop_later [OF d4]
  have r0: "read_varint src bs at = Inr (length raw, length w0)"
    unfolding w0_def by (rule read_varint_write [OF _ d0 [unfolded w0_def]]) (use remanence_text in \<open>simp add: raw_def\<close>)
  have "w1 \<noteq> []" by (simp add: w1_def)
  then have "at + length w0 + length raw < length bs" using drop_inside [OF d2] by simp
  then have g: "get_range bs (at + length w0) (length raw) = Some raw" by (intro get_range_drop [OF d1]) simp
  have r1: "read_varint src bs (at + length w0 + length raw) = Inr (ok_surface (rk_orbit k), length w1)"
    unfolding w1_def by (rule read_varint_write [OF _ d2 [unfolded w1_def]]) (use parts in simp)
  have r2: "read_varint src bs (at + length w0 + length raw + length w1) = Inr (ok_radius (rk_orbit k), length w2)"
    unfolding w2_def by (rule read_varint_write [OF _ d3 [unfolded w2_def]]) (use parts in simp)
  have r3: "read_varint src bs (at + length w0 + length raw + length w1 + length w2) =
      Inr (rem_kind_code (rk_kind k), length w3)"
    unfolding w3_def by (rule read_varint_write [OF _ d4 [unfolded w3_def]]) (cases "rk_kind k"; simp add: U64_MAX_def)
  have r4: "read_varint src bs (at + length w0 + length raw + length w1 + length w2 + length w3) =
      Inr (rk_ordinal k, length w4)"
    unfolding w4_def by (rule read_varint_write [OF _ d5 [unfolded w4_def]]) (use parts in simp)
  have held: "utf8_valid raw" "list_ex (\<lambda>n. utf8_of n = raw) known"
    using remanence_text known by (auto simp: raw_def list_ex_iff)
  have kind: "\<not> rem_kind_code (rk_kind k) > 1"
    "(if rem_kind_code (rk_kind k) = 0 then OrbitMetadata else PointChunk) = rk_kind k"
    by (cases "rk_kind k"; simp)+
  have len: "at + length w0 + length raw + length w1 + length w2 + length w3 + length w4 - at = length (write_remanence_key k)"
    by (simp add: write_remanence_key_def w0_def w1_def w2_def w3_def w4_def raw_def)
  have radius: "ok_radius (rk_orbit k) \<noteq> 0" using parts by simp
  show ?thesis
    unfolding read_remanence_key_def r0 rbind.simps prod.case g option.case Let_def r1 r2 if_not_P [OF radius]
      r3 if_not_P [OF kind(1)] kind(2) r4 len
    using held by simp
qed

interpretation remanence: section_address remanence_address "[REMANENCE]" remanence_key_ok
proof unfold_locales
  show "ad_read remanence_address src bs at [REMANENCE] = Inr (k, length (ad_write remanence_address k))"
    if "remanence_key_ok k" "drop at bs = ad_write remanence_address k @ post" for k "at" bs post src
    using read_remanence_key_write [OF that(1), of "[REMANENCE]" "at" bs post src] that(2)
    by (simp add: remanence_address_def)
  show "ad_write remanence_address k \<noteq> []" for k
    by (simp add: remanence_address_def write_remanence_key_def)
next
  show "ad_le remanence_address a b \<or> ad_le remanence_address b a" for a b
    by (simp add: remanence_address_def linear)
qed (auto simp: remanence_address_def)

lemma remanence_space [simp]: "ad_space remanence_address k = REMANENCE"
  and remanence_le [simp]: "ad_le remanence_address = (\<le>)"
  by (simp_all add: remanence_address_def)

section \<open>The builder\<close>

text \<open>An image's orbits: each one's key and points.\<close>

type_synonym orbit_points = "(orbit_key \<times> orbit_point list) list"

fun chunk_sections :: "orbit_key \<Rightarrow> nat \<Rightarrow> orbit_point list list \<Rightarrow> (remanence_section_key \<times> bytes) list" where
  "chunk_sections key ordinal [] = []"
| "chunk_sections key ordinal (run # runs) =
     (RemanenceKey key PointChunk ordinal, encode_point_chunk run) # chunk_sections key (ordinal + 1) runs"

lemma chunk_sections_at:
  "i < length runs \<Longrightarrow>
    (RemanenceKey key PointChunk (ordinal + i), encode_point_chunk (runs ! i)) \<in> set (chunk_sections key ordinal runs)"
proof (induction runs arbitrary: ordinal i)
  case (Cons run runs)
  then show ?case using Cons.IH [of "i - 1" "ordinal + 1"] by (cases i) auto
qed simp

lemma chunk_sections_keys: "(k, p) \<in> set (chunk_sections key ordinal runs) \<Longrightarrow> rk_orbit k = key"
  by (induction key ordinal runs rule: chunk_sections.induct) auto

definition orbit_sections :: "nat \<Rightarrow> orbit_key \<times> orbit_point list \<Rightarrow> (remanence_section_key \<times> bytes) list" where
  "orbit_sections n e =
     (RemanenceKey (fst e) OrbitMetadata 0, orbit_metadata (orbit_of n (fst e) (snd e))) #
     chunk_sections (fst e) 0 (chunks_of n (snd e))"

lemma orbit_sections_keys: "(k, p) \<in> set (orbit_sections n e) \<Longrightarrow> rk_orbit k = fst e"
  by (auto simp: orbit_sections_def dest: chunk_sections_keys)

definition orbits_of :: "nat \<Rightarrow> orbit_points \<Rightarrow> (orbit_key, orbit) omap" where
  "orbits_of n os = map (\<lambda>e. (fst e, orbit_of n (fst e) (snd e))) os"

lemma orbits_of_keys [simp]: "map fst (orbits_of n os) = map fst os"
  by (simp add: orbits_of_def)

text \<open>An orbit a builder keeps: valid points of 64-bit parts that assert something.\<close>

definition orbit_ok :: "orbit_key \<times> orbit_point list \<Rightarrow> bool" where
  "orbit_ok e \<longleftrightarrow> orbit_key_ok (fst e) \<and> list_all point_ok (snd e) \<and> length (snd e) \<le> U64_MAX"

definition orbit_kept :: "orbit_key \<times> orbit_point list \<Rightarrow> bool" where
  "orbit_kept e \<longleftrightarrow> orbit_ok e \<and> validate_orbit_points (snd e) = Inr () \<and> orbit_asserts (snd e)"

lemma length_chunks: "0 < n \<Longrightarrow> length (chunks_of n xs) \<le> length xs"
proof -
  assume "0 < n"
  have "length cs \<le> length (concat cs)" if "\<forall>c \<in> set cs. c \<noteq> []" for cs :: "'a list list"
    using that by (induction cs) (auto simp: Suc_le_eq neq_Nil_conv)
  then show ?thesis using concat_chunks [OF \<open>0 < n\<close>] chunks_of_length by metis
qed

lemma oinsert_last: "\<forall>k' \<in> fst ` set m. k' < k \<Longrightarrow> oinsert k v m = m @ [(k, v)]"
  by (induction m) auto

lemma chunks_points_ok: "list_all P xs \<Longrightarrow> 0 < n \<Longrightarrow> c \<in> set (chunks_of n xs) \<Longrightarrow> list_all P c"
  using concat_chunks [of n xs] by (metis (no_types, lifting) UN_I list_all_iff set_concat)

locale image_store = byte_sink put sink_bytes
  for put :: "'s byte_sink" and sink_bytes

sublocale image_store \<subseteq> store: backing remanence_address "[REMANENCE]" remanence_key_ok put sink_bytes
  by unfold_locales

interpretation image_in_memory: image_store vec_append "\<lambda>s. s"
  by unfold_locales

interpretation image_in_session: image_store "session_append host" session_bytes
  by unfold_locales

context image_store
begin

definition builder_holds :: "nat \<Rightarrow> 's flux_image_builder \<Rightarrow> orbit_points \<Rightarrow> bool" where
  "builder_holds n b os \<longleftrightarrow>
     store.writer_holds (bd_writer b) (concat (map (orbit_sections n) os)) \<and>
     bd_chunk_records b = n \<and> 0 < n \<and> fi_orbits (bd_image b) = orbits_of n os \<and>
     sorted_wrt (<) (map fst os) \<and> list_all orbit_kept os"

lemma builder_holds_new:
  assumes "builder_to_sink ff holes policy s n = Inr b" "sink_bytes s = []"
  shows "builder_holds (max n 1) b []" "fi_form_factor (bd_image b) = ff" "fi_holes (bd_image b) = holes"
    "fi_provenance (bd_image b) = policy" "fi_backing (bd_image b) = None" "bd_writer b = to_sink s LEAF_ENTRIES"
  using assms store.holds_new [OF assms(2)]
  by (auto simp: builder_to_sink_def builder_holds_def orbits_of_def split: if_splits)

lemma append_chunks_holds:
  "store.writer_holds w S \<Longrightarrow> orbit_key_ok key \<Longrightarrow> ordinal + length runs \<le> U64_MAX + 1 \<Longrightarrow>
    append_chunks put key ordinal runs w = Inr w' \<Longrightarrow>
    store.writer_holds w' (S @ chunk_sections key ordinal runs)"
proof (induction runs arbitrary: S w ordinal)
  case (Cons run runs)
  obtain w1 where w1: "section_append remanence_address put w (RemanenceKey key PointChunk ordinal) (encode_point_chunk run) = Inr w1"
    "append_chunks put key (ordinal + 1) runs w1 = Inr w'"
    using Cons.prems(4) by (auto simp: rbind_Inr_iff)
  have "store.writer_holds w1 (S @ [(RemanenceKey key PointChunk ordinal, encode_point_chunk run)])"
    by (rule store.holds_append [OF Cons.prems(1) _ w1(1)]) (use Cons.prems(2,3) in \<open>simp add: remanence_key_ok_def\<close>)
  from Cons.IH [OF this Cons.prems(2) _ w1(2)] show ?case using Cons.prems(3) by simp
qed simp

lemma append_goes:
  assumes "store.writer_holds w S" "\<And>s bs. \<exists>s'. put s bs = Inr s'" "\<forall>k \<in> fst ` set S. k < key"
  shows "\<exists>w'. section_append remanence_address put w key p = Inr w'"
proof -
  obtain s where s: "put (sw_sink w) p = Inr s" using assms(2) by blast
  have "\<not> (case sw_last w of Some l \<Rightarrow> ad_le remanence_address key l | None \<Rightarrow> False)"
    using assms(1,3) by (auto simp: store.writer_holds_def not_le split: option.splits if_splits)
  then show ?thesis using s by (simp add: section_append_def)
qed

lemma append_chunks_goes:
  "store.writer_holds w S \<Longrightarrow> (\<And>s bs. \<exists>s'. put s bs = Inr s') \<Longrightarrow> orbit_key_ok key \<Longrightarrow>
    ordinal + length runs \<le> U64_MAX + 1 \<Longrightarrow> \<forall>k \<in> fst ` set S. k < RemanenceKey key PointChunk ordinal \<Longrightarrow>
    \<exists>w'. append_chunks put key ordinal runs w = Inr w'"
proof (induction runs arbitrary: S w ordinal)
  case (Cons run runs)
  let ?k = "RemanenceKey key PointChunk ordinal"
  obtain w1 where w1: "section_append remanence_address put w ?k (encode_point_chunk run) = Inr w1"
    using append_goes [OF Cons.prems(1,2,5)] by blast
  have h: "store.writer_holds w1 (S @ [(?k, encode_point_chunk run)])"
    by (rule store.holds_append [OF Cons.prems(1) _ w1]) (use Cons.prems(3,4) in \<open>simp add: remanence_key_ok_def\<close>)
  have next_key: "?k < RemanenceKey key PointChunk (ordinal + 1)"
    by (simp add: less_remanence_section_key_def less_eq_remanence_section_key_def)
  have "\<exists>w'. append_chunks put key (ordinal + 1) runs w1 = Inr w'"
    by (rule Cons.IH [OF h Cons.prems(2,3)])
      (use Cons.prems(4,5) next_key in \<open>auto intro: order.strict_trans\<close>)
  then show ?case using w1 by auto
qed simp

lemma sections_keys: "(k, p) \<in> set (concat (map (orbit_sections n) os)) \<Longrightarrow> rk_orbit k \<in> fst ` set os"
  by (auto dest: orbit_sections_keys)

lemma below_key: "rk_orbit k < key \<Longrightarrow> k < RemanenceKey key kind ordinal"
  by (auto simp: less_remanence_section_key_def less_eq_remanence_section_key_def)

lemma chunks_fit: "0 < n \<Longrightarrow> orbit_ok (key, ps) \<Longrightarrow> length (chunks_of n ps) \<le> U64_MAX"
  using length_chunks [of n ps] by (simp add: orbit_ok_def)

lemma add_orbit_holds:
  assumes h: "builder_holds n b os" and ok: "orbit_ok (key, ps)" and add: "add_orbit put b key ps = Inr (b', kept)"
  shows "builder_holds n b' (os @ (if kept then [(key, ps)] else []))" "kept \<longleftrightarrow> orbit_asserts ps"
    "\<exists>m. bd_image b' = (bd_image b)\<lparr>fi_orbits := m\<rparr>"
proof -
  note hs = h [unfolded builder_holds_def]
  have v: "validate_orbit_points ps = Inr ()" using add by (cases "validate_orbit_points ps") (auto simp: add_orbit_def)
  have "builder_holds n b' (os @ (if kept then [(key, ps)] else [])) \<and> (kept \<longleftrightarrow> orbit_asserts ps) \<and>
    (\<exists>m. bd_image b' = (bd_image b)\<lparr>fi_orbits := m\<rparr>)"
  proof (cases "orbit_asserts ps")
    case False
    have "\<exists>m. bd_image b = (bd_image b)\<lparr>fi_orbits := m\<rparr>"
      by (rule exI [of _ "fi_orbits (bd_image b)"]) simp
    then show ?thesis using add h v False by (auto simp: add_orbit_def)
  next
    case True
    let ?S = "concat (map (orbit_sections n) os)" and ?ob = "orbit_of n key ps"
    have new: "key \<notin> fst ` set os"
      using add v True hs by (auto simp: add_orbit_def map_of_eq_None_iff orbits_of_def image_image split: if_splits)
    obtain w1 w2 where w: "section_append remanence_address put (bd_writer b) (RemanenceKey key OrbitMetadata 0) (orbit_metadata ?ob) = Inr w1"
      "append_chunks put key 0 (chunks_of n ps) w1 = Inr w2"
      and b': "b' = b\<lparr>bd_writer := w2, bd_image := (bd_image b)\<lparr>fi_orbits := oinsert key ?ob (fi_orbits (bd_image b))\<rparr>\<rparr>" "kept"
      using add v True hs by (auto simp: add_orbit_def Let_def rbind_Inr_iff split: if_splits)
    have h1: "store.writer_holds w1 (?S @ [(RemanenceKey key OrbitMetadata 0, orbit_metadata ?ob)])"
      by (rule store.holds_append [OF _ _ w(1)]) (use hs ok in \<open>simp_all add: remanence_key_ok_def orbit_ok_def\<close>)
    have n: "0 < n" using hs by simp
    have h2: "store.writer_holds w2 ((?S @ [(RemanenceKey key OrbitMetadata 0, orbit_metadata ?ob)]) @
        chunk_sections key 0 (chunks_of n ps))"
      by (rule append_chunks_holds [OF h1 _ _ w(2)])
        (use ok chunks_fit [OF n ok] in \<open>simp_all add: orbit_ok_def\<close>)
    have above_all: "\<forall>k \<in> fst ` set os. k < key"
    proof
      fix k assume k: "k \<in> fst ` set os"
      then obtain e where e: "e \<in> set os" "fst e = k" by auto
      have "remanence.ascending (map fst (?S @ [(RemanenceKey key OrbitMetadata 0, orbit_metadata ?ob)]))"
        using h1 by (simp add: store.writer_holds_def)
      then have "\<forall>x \<in> set ?S. fst x \<le> RemanenceKey key OrbitMetadata 0"
        by (simp add: remanence.ascending_append remanence.key_lt_def)
      moreover have "(RemanenceKey k OrbitMetadata 0, orbit_metadata (orbit_of n k (snd e))) \<in> set ?S"
        using e by (auto simp: orbit_sections_def intro: bexI [of _ e])
      ultimately have "RemanenceKey k OrbitMetadata 0 \<le> RemanenceKey key OrbitMetadata 0" by fastforce
      then have "k \<le> key" by (auto simp: less_eq_remanence_section_key_def)
      then show "k < key" using k new by (auto simp: order.strict_iff_order)
    qed
    have "oinsert key ?ob (fi_orbits (bd_image b)) = orbits_of n (os @ [(key, ps)])"
      using oinsert_last [of "orbits_of n os" key ?ob] above_all hs by (auto simp: orbits_of_def)
    moreover have "sorted_wrt (<) (map fst (os @ [(key, ps)]))"
      using hs above_all by (auto simp: sorted_wrt_append)
    moreover have "orbit_kept (key, ps)" using ok v True by (simp add: orbit_kept_def)
    ultimately have "builder_holds n b' (os @ [(key, ps)])"
      using h2 hs b'(1) by (simp add: builder_holds_def orbit_sections_def)
    then show ?thesis using b' True by auto
  qed
  then show "builder_holds n b' (os @ (if kept then [(key, ps)] else []))" "kept \<longleftrightarrow> orbit_asserts ps"
    "\<exists>m. bd_image b' = (bd_image b)\<lparr>fi_orbits := m\<rparr>" by blast+
qed

lemma add_orbit_goes:
  assumes h: "builder_holds n b os" and put: "\<And>s bs. \<exists>s'. put s bs = Inr s'"
    and kept: "orbit_kept (key, ps)" and above_all: "\<forall>k \<in> fst ` set os. k < key"
  shows "\<exists>b'. add_orbit put b key ps = Inr (b', True)"
proof -
  note hs = h [unfolded builder_holds_def]
  have ok: "orbit_ok (key, ps)" using kept by (simp add: orbit_kept_def)
  let ?S = "concat (map (orbit_sections n) os)" and ?ob = "orbit_of n key ps"
  have below: "\<forall>k \<in> fst ` set ?S. k < RemanenceKey key kind i" for kind i
  proof
    fix k assume "k \<in> fst ` set ?S"
    then obtain p where "(k, p) \<in> set ?S" by (metis imageE prod.collapse)
    then have "rk_orbit k \<in> fst ` set os" by (rule sections_keys)
    then show "k < RemanenceKey key kind i" using above_all by (intro below_key) blast
  qed
  obtain w1 where w1: "section_append remanence_address put (bd_writer b) (RemanenceKey key OrbitMetadata 0) (orbit_metadata ?ob) = Inr w1"
    using append_goes [OF conjunct1 [OF hs] put below] by blast
  have h1: "store.writer_holds w1 (?S @ [(RemanenceKey key OrbitMetadata 0, orbit_metadata ?ob)])"
    by (rule store.holds_append [OF _ _ w1]) (use hs ok in \<open>simp_all add: remanence_key_ok_def orbit_ok_def\<close>)
  have "RemanenceKey key OrbitMetadata 0 < RemanenceKey key PointChunk 0"
    by (simp add: less_remanence_section_key_def less_eq_remanence_section_key_def)
  then have "\<exists>w2. append_chunks put key 0 (chunks_of n ps) w1 = Inr w2"
    by (intro append_chunks_goes [OF h1 put])
      (use ok chunks_fit [OF _ ok, of n] hs below in \<open>auto simp: orbit_ok_def\<close>)
  moreover have "key \<notin> fst ` set os" using above_all by blast
  ultimately show ?thesis
    using kept hs w1 by (auto simp: add_orbit_def orbit_kept_def Let_def map_of_eq_None_iff orbits_of_def image_image)
qed

end

section \<open>The image read back\<close>

text \<open>An image whose backing serves the point chunks of these orbits.\<close>

definition image_serves :: "flux_backing \<Rightarrow> remanence_section_key \<Rightarrow> bytes result" where
  "image_serves b k = read_section remanence_address (fb_bytes b) (fb_total b) k (fb_known b)"

definition image_holds :: "nat \<Rightarrow> flux_image \<Rightarrow> orbit_points \<Rightarrow> bool" where
  "image_holds n img os \<longleftrightarrow>
     0 < n \<and> fi_orbits img = orbits_of n os \<and> sorted_wrt (<) (map fst os) \<and> list_all orbit_kept os \<and>
     (\<exists>b. fi_backing img = Some b \<and> cache_true (image_serves b) (fb_cache b) \<and>
       (\<forall>e \<in> set os. \<forall>i < length (chunks_of n (snd e)).
         image_serves b (RemanenceKey (fst e) PointChunk i) = Inr (encode_point_chunk (chunks_of n (snd e) ! i))))"

lemma points_from_reads:
  "cache_true (\<lambda>k. read_section remanence_address source len k known) c \<Longrightarrow>
    \<forall>i \<in> set is. read_section remanence_address source len (RemanenceKey key PointChunk i) known =
      Inr (encode_point_chunk (f i)) \<and> list_all point_ok (f i) \<Longrightarrow>
    \<exists>c'. points_from source len known key is c ps = (c', Inr (ps @ concat (map f is))) \<and>
      cache_true (\<lambda>k. read_section remanence_address source len k known) c'"
proof (induction "is" arbitrary: c ps)
  case (Cons i "is")
  let ?k = "RemanenceKey key PointChunk i"
  obtain c1 r where c1: "cache_section remanence_address c source len ?k known = (c1, r)" by force
  have s: "r = Inr (encode_point_chunk (f i))" "cache_true (\<lambda>k. read_section remanence_address source len k known) c1"
    using cache_section_serves [OF Cons.prems(1), of ?k] c1 Cons.prems(2) by simp_all
  have "decode_point_chunk (encode_point_chunk (f i)) ps = Inr (ps @ f i)"
    by (rule decode_encode_chunk) (use Cons.prems(2) in simp)
  then show ?case using Cons.IH [OF s(2), of "ps @ f i"] Cons.prems(2) c1 s(1) by simp
qed simp

lemma image_points_reads:
  assumes "image_holds n img os" "(key, ps) \<in> set os"
  shows "\<exists>b. image_points img (orbit_of n key ps) = (img\<lparr>fi_backing := Some b\<rparr>, Inr ps) \<and>
    image_holds n (img\<lparr>fi_backing := Some b\<rparr>) os"
proof -
  obtain b where b: "fi_backing img = Some b" "cache_true (image_serves b) (fb_cache b)"
    "\<forall>e \<in> set os. \<forall>i < length (chunks_of n (snd e)).
         image_serves b (RemanenceKey (fst e) PointChunk i) = Inr (encode_point_chunk (chunks_of n (snd e) ! i))"
    and n: "0 < n" and kept: "list_all orbit_kept os"
    using assms(1) unfolding image_holds_def by blast
  let ?cs = "chunks_of n ps"
  have "list_all point_ok ps" using kept assms(2) by (auto simp: list_all_iff orbit_kept_def orbit_ok_def)
  then have ok: "list_all point_ok c" if "c \<in> set ?cs" for c by (rule chunks_points_ok [OF _ n that])
  have t: "cache_true (\<lambda>k. read_section remanence_address (fb_bytes b) (fb_total b) k (fb_known b)) (fb_cache b)"
    using b(2) by (simp add: image_serves_def [abs_def])
  have serves: "\<forall>i \<in> set [0..<length ?cs]. read_section remanence_address (fb_bytes b) (fb_total b)
      (RemanenceKey key PointChunk i) (fb_known b) = Inr (encode_point_chunk (?cs ! i)) \<and> list_all point_ok (?cs ! i)"
    using bspec [OF b(3) assms(2)] ok by (simp add: image_serves_def)
  obtain c where c: "points_from (fb_bytes b) (fb_total b) (fb_known b) key [0..<length ?cs] (fb_cache b) [] =
      (c, Inr (concat (map ((!) ?cs) [0..<length ?cs])))"
    "cache_true (\<lambda>k. read_section remanence_address (fb_bytes b) (fb_total b) k (fb_known b)) c"
    using points_from_reads [OF t serves, of "[]"] by auto
  have ps: "concat (map ((!) ?cs) [0..<length ?cs]) = ps" unfolding map_nth by (rule concat_chunks [OF n])
  let ?b = "b\<lparr>fb_cache := c\<rparr>"
  have same: "image_serves ?b = image_serves b" by (simp add: image_serves_def [abs_def])
  have "image_points img (orbit_of n key ps) = (img\<lparr>fi_backing := Some ?b\<rparr>, Inr ps)"
    using b(1) c(1) ps by (simp add: image_points_def orbit_of_def)
  moreover have "image_holds n (img\<lparr>fi_backing := Some ?b\<rparr>) os"
    using assms(1) b(3) c(2) unfolding image_holds_def by (auto simp: same) (simp add: image_serves_def [abs_def])
  ultimately show ?thesis by blast
qed

context image_store
begin

lemma sections_distinct: "store.writer_holds w S \<Longrightarrow> distinct (map fst S)"
proof -
  have "sorted_wrt remanence.key_lt ks \<Longrightarrow> distinct ks" for ks
    by (induction ks) (auto simp: remanence.key_lt_def)
  then show "store.writer_holds w S \<Longrightarrow> distinct (map fst S)"
    by (simp add: store.writer_holds_def remanence.ascending_def)
qed

lemma sealed_image_holds:
  assumes h: "builder_holds n b os" and seal: "builder_seal put b = Inr (img, s, len)" and len: "len \<le> U64_MAX"
    and source: "delivers source (sink_bytes s)"
  shows "img = bd_image b" "image_holds n (attach_backing img source len cache_bytes) os"
proof -
  note hs = h [unfolded builder_holds_def]
  let ?S = "concat (map (orbit_sections n) os)"
  have w: "store.writer_holds (bd_writer b) ?S" using hs by simp
  have sealed: "seal remanence_address put (bd_writer b) = Inr (s, len)" "img = bd_image b"
    using seal by (auto simp: builder_seal_def rbind_Inr_iff)
  show "img = bd_image b" by (rule sealed(2))
  have "read_section remanence_address source len (RemanenceKey (fst e) PointChunk i) [REMANENCE] =
      Inr (encode_point_chunk (chunks_of n (snd e) ! i))"
    if e: "e \<in> set os" and i: "i < length (chunks_of n (snd e))" for e i
  proof -
    let ?k = "RemanenceKey (fst e) PointChunk i"
    have ok: "orbit_ok e" using hs e by (auto simp: list_all_iff orbit_kept_def)
    then have "length (chunks_of n (snd e)) \<le> U64_MAX" using chunks_fit [of n "fst e" "snd e"] hs by simp
    then have "remanence_key_ok ?k" using ok i by (simp add: remanence_key_ok_def orbit_ok_def)
    note reads = store.sealed_reads [OF w sealed(1) len source this]
    have "(?k, encode_point_chunk (chunks_of n (snd e) ! i)) \<in> set ?S"
      using e chunk_sections_at [OF i, of "fst e" 0] by (auto simp: orbit_sections_def intro: bexI [of _ e])
    from map_of_is_SomeI [OF sections_distinct [OF w] this] show ?thesis using reads by simp
  qed
  then show "image_holds n (attach_backing img source len cache_bytes) os"
    using hs sealed(2) cache_true_new
    by (simp add: image_holds_def attach_backing_def image_serves_def [abs_def])
qed

end

end
