(* ===== verification/Flux_Turn.thy ===== *)
theory Flux_Turn
  imports Flux_Image_Proofs
begin

text \<open>
  An orbit turned over. Turning a valid orbit gives a valid orbit of as many points that holds, at every
  angle, the state the orbit held at the mirrored angle, the sense of coherent stretches apart, which is
  laid fresh.
\<close>

definition valid_orbit :: "orbit_point list \<Rightarrow> bool" where
  "valid_orbit ps \<longleftrightarrow> list_all point_ok ps \<and> validate_orbit_points ps = Inr ()"

text \<open>A state with its sense forgotten.\<close>

definition blind :: "magnetization \<Rightarrow> magnetization" where
  "blind m = (if is_coherent m then Positive else m)"

lemma blind_coherent [simp]: "is_coherent (blind m) = is_coherent m"
  by (simp add: blind_def)

section \<open>Polarity laid fresh\<close>

text \<open>A span fit to be laid: inside a revolution, its widths known where it carries a sense.\<close>

fun span_ok :: "span \<Rightarrow> bool" where
  "span_ok (a, m, w) \<longleftrightarrow> a < ANGULAR_DIVISIONS \<and>
     (is_coherent m \<longrightarrow> (case w of None \<Rightarrow> False | Some v \<Rightarrow> widths_ok v))"

definition lays :: "span \<Rightarrow> orbit_point \<Rightarrow> bool" where
  "lays s p \<longleftrightarrow> pt_angle p = fst s \<and> blind (pt_mag p) = blind (fst (snd s)) \<and> point_ok p"

lemma relay_from_lays:
  "list_all span_ok spans \<Longrightarrow> sorted_wrt (<) (map fst spans) \<Longrightarrow> (\<forall>c. sense = Some c \<longrightarrow> is_coherent c) \<Longrightarrow>
    \<exists>qs. relay_from sense standing opened spans = Inr qs \<and> list_all2 lays spans qs \<and>
      validate_pairs qs = Inr () \<and>
      (\<not> opened \<longrightarrow> (case find (\<lambda>p. is_coherent (pt_mag p)) qs of None \<Rightarrow> True | Some p \<Rightarrow> states_widths p)) \<and>
      (case qs of [] \<Rightarrow> True | q # _ \<Rightarrow> sense \<noteq> Some (pt_mag q))"
proof (induction sense standing opened spans rule: relay_from.induct)
  case (2 sense standing opened a was w spans)
  have ok: "span_ok (a, was, w)" "list_all span_ok spans" "sorted_wrt (<) (map fst spans)"
    and later: "\<forall>s \<in> set spans. a < fst s"
    using 2(3,4) by auto
  have ascends: "case qs of [] \<Rightarrow> True | q # _ \<Rightarrow> a < pt_angle q" if "list_all2 lays spans qs" for qs
    using that later by (cases spans; cases qs) (auto simp: lays_def)
  show ?case
  proof (cases "is_coherent was")
    case False
    let ?p = "\<lparr>pt_angle = a, pt_mag = was, pt_widths = None\<rparr>"
    have p: "point_new a was = Inr ?p" "lays (a, was, w) ?p"
      using ok(1) by (simp_all add: point_new_def point_stating_def lays_def point_ok_def)
    obtain qs where qs: "relay_from None standing opened spans = Inr qs" "list_all2 lays spans qs"
        "validate_pairs qs = Inr ()"
        "\<not> opened \<longrightarrow> (case find (\<lambda>p. is_coherent (pt_mag p)) qs of None \<Rightarrow> True | Some p \<Rightarrow> states_widths p)"
      using 2(1) [OF False p(1) ok(2,3)] by auto
    have "validate_pairs (?p # qs) = Inr ()" using qs(3) ascends [OF qs(2)] False by (cases qs) auto
    then show ?thesis using qs p False 2(5) by auto
  next
    case True
    define nxt where "nxt = (case sense of None \<Rightarrow> Positive | Some c \<Rightarrow> the (opposite c))"
    have nxt: "is_coherent nxt" "sense \<noteq> Some nxt"
      using 2(5) by (cases sense; cases "the sense"; auto simp: nxt_def)+
    define p where "p = \<lparr>pt_angle = a, pt_mag = nxt, pt_widths = (if \<not> opened \<or> standing \<noteq> w then w else None)\<rparr>"
    have p: "(if \<not> opened \<or> standing \<noteq> w then point_stating a nxt w else point_new a nxt) = Inr p"
      "lays (a, was, w) p" "\<not> opened \<longrightarrow> states_widths p"
      using ok(1) True nxt(1)
      by (auto simp: p_def point_new_def point_stating_def lays_def point_ok_def blind_def states_widths_def split: option.splits)
    obtain qs where qs: "relay_from (Some nxt) w True spans = Inr qs" "list_all2 lays spans qs"
        "validate_pairs qs = Inr ()" "case qs of [] \<Rightarrow> True | q # _ \<Rightarrow> Some nxt \<noteq> Some (pt_mag q)"
      using 2(2) [OF _ nxt_def p(1) ok(2,3)] True nxt(1) by auto
    have "validate_pairs (p # qs) = Inr ()" using qs(3,4) ascends [OF qs(2)] by (cases qs) (auto simp: p_def)
    moreover have "relay_from sense standing opened ((a, was, w) # spans) = Inr (p # qs)"
      using True p(1) qs(1) by (simp add: nxt_def [symmetric] Let_def)
    moreover have "is_coherent (pt_mag p)" "pt_mag p = nxt" using nxt(1) by (simp_all add: p_def)
    ultimately show ?thesis using qs(2) p(2,3) nxt(2) by auto
  qed
qed simp

lemma relay_polarity_lays:
  assumes "list_all span_ok spans" "sorted_wrt (<) (map fst spans)"
  shows "\<exists>qs. relay_polarity spans = Inr qs \<and> list_all2 lays spans qs \<and> valid_orbit qs"
proof -
  obtain qs where qs: "relay_from None None False spans = Inr qs" "list_all2 lays spans qs" "validate_pairs qs = Inr ()"
      "case find (\<lambda>p. is_coherent (pt_mag p)) qs of None \<Rightarrow> True | Some p \<Rightarrow> states_widths p"
    using relay_from_lays [OF assms, of None None False] by auto
  have "list_all point_ok qs" using qs(2) by (induction rule: list_all2_induct) (auto simp: lays_def)
  then have "valid_orbit qs" using qs(3,4) by (auto simp: valid_orbit_def validate_orbit_points_def split: option.splits)
  then show ?thesis using qs(1,2) by (auto simp: relay_polarity_def)
qed

section \<open>The state in force\<close>

lemma valid_ascending:
  assumes "valid_orbit ps"
  shows "sorted_wrt (<) (map pt_angle ps)"
proof -
  have "validate_pairs ps = Inr ()"
    using assms by (auto simp: valid_orbit_def validate_orbit_points_def split: option.splits if_splits)
  then show ?thesis
  proof (induction ps rule: validate_pairs.induct)
    case (1 b p ps)
    then have "pt_angle b < pt_angle p" "sorted_wrt (<) (map pt_angle (p # ps))" by (auto split: if_splits)
    then show ?case by auto
  qed auto
qed

lemma force_from_last:
  "sorted_wrt (<) (map pt_angle ps) \<Longrightarrow>
    force_from m ps a = (let before = filter (\<lambda>p. pt_angle p \<le> a) ps in if before = [] then m else Some (pt_mag (last before)))"
proof (induction ps arbitrary: m)
  case (Cons p ps)
  show ?case
  proof (cases "pt_angle p \<le> a")
    case False
    then have "filter (\<lambda>p. pt_angle p \<le> a) ps = []" using Cons.prems by (auto simp: filter_empty_conv)
    then show ?thesis using False by simp
  qed (use Cons in \<open>auto simp: Let_def\<close>)
qed simp

lemma last_is_greatest:
  "sorted_wrt (<) (map pt_angle ps) \<Longrightarrow> p \<in> set ps \<Longrightarrow> pt_angle p \<le> pt_angle (last ps)"
  by (induction ps) (auto simp: less_imp_le)

text \<open>How far an angle lies past a point, going round.\<close>

definition past :: "nat \<Rightarrow> orbit_point \<Rightarrow> nat" where
  "past a p = (a + (ANGULAR_DIVISIONS - pt_angle p)) mod ANGULAR_DIVISIONS"

lemma past_cases:
  assumes "a < ANGULAR_DIVISIONS" "pt_angle p < ANGULAR_DIVISIONS"
  shows "past a p = (if pt_angle p \<le> a then a - pt_angle p else a + ANGULAR_DIVISIONS - pt_angle p)"
proof (cases "pt_angle p \<le> a")
  case True
  then have "a + (ANGULAR_DIVISIONS - pt_angle p) = (a - pt_angle p) + ANGULAR_DIVISIONS" using assms by simp
  then show ?thesis using True assms unfolding past_def by (simp only: mod_add_self2) simp
next
  case False
  then show ?thesis using assms by (simp add: past_def)
qed

text \<open>The nearest point before an angle, going round, is the one in force there.\<close>

lemma state_at_nearest:
  assumes sorted: "sorted_wrt (<) (map pt_angle ps)" and inside: "\<forall>p \<in> set ps. pt_angle p < ANGULAR_DIVISIONS"
    and a: "a < ANGULAR_DIVISIONS" and q: "q \<in> set ps" and nearest: "\<forall>p \<in> set ps. past a q \<le> past a p"
  shows "state_at ps a = Some (pt_mag q)"
proof -
  have same: "p = q" if "p \<in> set ps" "pt_angle p = pt_angle q" for p
    using sorted that q by (metis strict_sorted_iff distinct_map inj_onD)
  define before where "before = filter (\<lambda>p. pt_angle p \<le> a) ps"
  show ?thesis
  proof (cases "before = []")
    case True
    then have after: "\<forall>p \<in> set ps. a < pt_angle p" by (simp add: before_def filter_empty_conv not_le)
    have ne: "ps \<noteq> []" using q by auto
    then have l: "last ps \<in> set ps" by simp
    have "past a q \<le> past a (last ps)" using nearest l by blast
    then have "pt_angle (last ps) \<le> pt_angle q"
      using past_cases [OF a, of q] past_cases [OF a, of "last ps"] inside after l q by (auto split: if_splits)
    then have "last ps = q" using last_is_greatest [OF sorted q] l by (intro same) auto
    then show ?thesis
      using True ne by (simp add: state_at_def force_from_last [OF sorted] before_def [symmetric])
  next
    case False
    then have l: "last before \<in> set ps" "pt_angle (last before) \<le> a"
      using last_in_set [OF False] by (simp_all add: before_def)
    have "past a q \<le> past a (last before)" using nearest l(1) by blast
    then have le: "pt_angle q \<le> a" "pt_angle (last before) \<le> pt_angle q"
      using past_cases [OF a, of q] past_cases [OF a, of "last before"] inside l q a by (fastforce split: if_splits)+
    have "sorted_wrt (<) (map pt_angle before)"
      using sorted unfolding before_def by (simp add: sorted_wrt_map sorted_wrt_filter)
    moreover have "q \<in> set before" using q le(1) by (simp add: before_def)
    ultimately have "pt_angle q \<le> pt_angle (last before)" by (rule last_is_greatest)
    then have "last before = q" using le(2) l(1) by (intro same) auto
    then show ?thesis
      using False by (simp add: state_at_def force_from_last [OF sorted] before_def [symmetric])
  qed
qed

section \<open>The turn\<close>

lemma carried_known:
  "\<forall>p \<in> set ps. is_coherent (pt_mag p) \<longrightarrow> states_widths p \<or> c \<noteq> None \<Longrightarrow>
    \<forall>p \<in> set ps. point_ok p \<Longrightarrow> (case c of None \<Rightarrow> True | Some v \<Rightarrow> widths_ok v) \<Longrightarrow>
    list_all2 (\<lambda>p w. case w of None \<Rightarrow> \<not> is_coherent (pt_mag p) | Some v \<Rightarrow> widths_ok v) ps (carry_widths c ps)"
proof (induction ps arbitrary: c)
  case (Cons p ps)
  let ?w = "if states_widths p then pt_widths p else c"
  have w: "case ?w of None \<Rightarrow> True | Some v \<Rightarrow> widths_ok v"
    using Cons.prems(2,3) by (auto simp: states_widths_def point_ok_def split: option.splits)
  have "?w = None \<Longrightarrow> \<not> is_coherent (pt_mag p)" using Cons.prems(1) by (auto split: if_splits simp: states_widths_def)
  moreover have "list_all2 (\<lambda>p w. case w of None \<Rightarrow> \<not> is_coherent (pt_mag p) | Some v \<Rightarrow> widths_ok v) ps (carry_widths ?w ps)"
    by (rule Cons.IH [OF _ _ w]) (use Cons.prems in \<open>auto simp: states_widths_def\<close>)
  ultimately show ?case using w by (auto simp: Let_def split: option.splits)
qed simp

lemma find_some: "find P xs = Some x \<Longrightarrow> x \<in> set xs \<and> P x"
  by (auto simp: find_Some_iff)

text \<open>In a valid orbit widths are in force wherever a sense is.\<close>

lemma widths_in_force_known:
  assumes "valid_orbit ps"
  shows "list_all2 (\<lambda>p w. case w of None \<Rightarrow> \<not> is_coherent (pt_mag p) | Some v \<Rightarrow> widths_ok v) ps (widths_in_force ps)"
proof -
  let ?c = "case find states_widths (rev ps) of None \<Rightarrow> None | Some p \<Rightarrow> pt_widths p"
  have ok: "\<forall>p \<in> set ps. point_ok p" using assms by (simp add: valid_orbit_def list_all_iff)
  have "case ?c of None \<Rightarrow> True | Some v \<Rightarrow> widths_ok v"
  proof (cases "find states_widths (rev ps)")
    case (Some p)
    then have "point_ok p" "states_widths p" using ok find_some by fastforce+
    then show ?thesis using Some by (auto simp: point_ok_def states_widths_def)
  qed simp
  moreover have "states_widths p \<or> ?c \<noteq> None" if "p \<in> set ps" "is_coherent (pt_mag p)" for p
  proof -
    have "\<exists>q \<in> set ps. states_widths q"
    proof (cases "find (\<lambda>p. is_coherent (pt_mag p)) ps")
      case None
      then show ?thesis using that by (auto simp: find_None_iff)
    next
      case (Some q)
      then have "states_widths q" using assms by (auto simp: valid_orbit_def validate_orbit_points_def split: if_splits)
      then show ?thesis using find_some [OF Some] by blast
    qed
    then obtain q where q: "q \<in> set (rev ps)" "states_widths q" by auto
    then obtain r where r: "find states_widths (rev ps) = Some r"
      by (cases "find states_widths (rev ps)") (auto simp: find_None_iff)
    then show ?thesis using find_some [OF r] by (auto simp: states_widths_def)
  qed
  ultimately show ?thesis unfolding widths_in_force_def using ok by (intro carried_known) auto
qed

definition edge :: "orbit_point list \<Rightarrow> nat \<Rightarrow> nat" where
  "edge ps i = (ANGULAR_DIVISIONS - pt_angle (ps ! ((i + 1) mod length ps))) mod ANGULAR_DIVISIONS"

lemma turned_edges: "turned ps = map (\<lambda>i. (edge ps i, pt_mag (ps ! i), widths_in_force ps ! i)) [0..<length ps]"
  by (simp add: turned_def edge_def)

lemma mirror_inj:
  "x < ANGULAR_DIVISIONS \<Longrightarrow> y < ANGULAR_DIVISIONS \<Longrightarrow>
    (ANGULAR_DIVISIONS - x) mod ANGULAR_DIVISIONS = (ANGULAR_DIVISIONS - y) mod ANGULAR_DIVISIONS \<Longrightarrow> x = y"
  by (cases "x = 0"; cases "y = 0") auto

lemma next_inj: "i < n \<Longrightarrow> j < n \<Longrightarrow> (i + 1) mod n = (j + 1) mod n \<Longrightarrow> i = (j :: nat)"
  by (cases "i + 1 = n"; cases "j + 1 = n") auto

lemma valid_inside: "valid_orbit ps \<Longrightarrow> i < length ps \<Longrightarrow> pt_angle (ps ! i) < ANGULAR_DIVISIONS"
  by (auto simp: valid_orbit_def list_all_length point_ok_def)

lemma valid_order: "valid_orbit ps \<Longrightarrow> i < j \<Longrightarrow> j < length ps \<Longrightarrow> pt_angle (ps ! i) < pt_angle (ps ! j)"
  using valid_ascending [of ps] by (auto simp: sorted_wrt_iff_nth_less)

lemma edges_distinct:
  assumes "valid_orbit ps"
  shows "distinct (map fst (turned ps))"
proof -
  have "inj_on (edge ps) {0..<length ps}"
  proof (rule inj_onI)
    fix i j assume ij: "i \<in> {0..<length ps}" "j \<in> {0..<length ps}" and e: "edge ps i = edge ps j"
    let ?i = "(i + 1) mod length ps" and ?j = "(j + 1) mod length ps"
    have b: "?i < length ps" "?j < length ps" using ij by (auto intro!: mod_less_divisor)
    then have "pt_angle (ps ! ?i) = pt_angle (ps ! ?j)"
      using e valid_inside [OF assms] mirror_inj unfolding edge_def by blast
    then have "?i = ?j" using valid_order [OF assms] b by (metis nat_neq_iff)
    then show "i = j" using ij next_inj by simp
  qed
  then show ?thesis by (simp add: turned_edges comp_def distinct_map)
qed

lemma turned_ok:
  assumes "valid_orbit ps"
  shows "list_all span_ok (sort_key fst (turned ps))" "sorted_wrt (<) (map fst (sort_key fst (turned ps)))"
proof -
  have "span_ok s" if mem: "s \<in> set (turned ps)" for s
  proof -
    obtain i where i: "i < length ps" "s = (edge ps i, pt_mag (ps ! i), widths_in_force ps ! i)"
      using mem unfolding turned_edges by auto
    have "edge ps i < ANGULAR_DIVISIONS" by (simp add: edge_def ANGULAR_DIVISIONS_def)
    then show ?thesis
      using i list_all2_nthD [OF widths_in_force_known [OF assms] i(1)] by (auto split: option.splits)
  qed
  then show "list_all span_ok (sort_key fst (turned ps))" by (simp add: list_all_iff)
  have "distinct (map fst (sort_key fst (turned ps)))"
    using edges_distinct [OF assms] by (simp add: distinct_map)
  then show "sorted_wrt (<) (map fst (sort_key fst (turned ps)))" by (simp add: strict_sorted_iff)
qed

lemma past_edge:
  assumes "a < ANGULAR_DIVISIONS" "x < ANGULAR_DIVISIONS" "pt_angle q = (ANGULAR_DIVISIONS - x) mod ANGULAR_DIVISIONS"
  shows "past a q = (if x + a < ANGULAR_DIVISIONS then x + a else x + a - ANGULAR_DIVISIONS)"
proof -
  have "pt_angle q < ANGULAR_DIVISIONS" using assms(3) by (simp add: ANGULAR_DIVISIONS_def)
  from past_cases [OF assms(1) this] show ?thesis using assms by (cases "x = 0") auto
qed

lemma list_all2_set1_exists: "list_all2 R xs ys \<Longrightarrow> x \<in> set xs \<Longrightarrow> \<exists>y \<in> set ys. R x y"
  and list_all2_set2_exists: "list_all2 R xs ys \<Longrightarrow> y \<in> set ys \<Longrightarrow> \<exists>x \<in> set xs. R x y"
  by (auto simp: list_all2_conv_all_nth in_set_conv_nth) (metis nth_mem)+

lemma turn_mirrors:
  assumes valid: "valid_orbit ps" and lays: "list_all2 lays (sort_key fst (turned ps)) qs" and vq: "valid_orbit qs"
    and ne: "ps \<noteq> []" and a: "a < ANGULAR_DIVISIONS"
  shows "map_option blind (state_at qs a) = map_option blind (state_at ps (ANGULAR_DIVISIONS - 1 - a))"
proof -
  let ?n = "length ps" and ?x = "\<lambda>i. pt_angle (ps ! i)"
  define b where "b = ANGULAR_DIVISIONS - 1 - a"
  have b: "b < ANGULAR_DIVISIONS" "a = ANGULAR_DIVISIONS - 1 - b" using a by (auto simp: b_def)
  define i where "i = arg_min_on (\<lambda>i. past b (ps ! i)) {0..<?n}"
  have i: "i < ?n" and least: "past b (ps ! i) \<le> past b (ps ! k)" if "k < ?n" for k
    using arg_min_if_finite(1) [of "{0..<?n}" "\<lambda>i. past b (ps ! i)"]
      arg_min_least [of "{0..<?n}" k "\<lambda>i. past b (ps ! i)"] ne that by (auto simp: i_def)
  have i: "i < ?n" using i ne by blast
  note pc = past_cases [OF b(1) valid_inside [OF valid]]
  have state_ps: "state_at ps b = Some (pt_mag (ps ! i))"
    using valid_inside [OF valid] i least
    by (intro state_at_nearest [OF valid_ascending [OF valid]] b(1)) (auto simp: in_set_conv_nth)
  define nxt where "nxt = (i + 1) mod ?n"
  have nxt: "nxt < ?n" using i by (auto simp: nxt_def intro!: mod_less_divisor)
  text \<open>The point after the one in force is the next one past the angle.\<close>
  have step: "(if ?x nxt + a < ANGULAR_DIVISIONS then ?x nxt + a else ?x nxt + a - ANGULAR_DIVISIONS) \<le>
      (if ?x k + a < ANGULAR_DIVISIONS then ?x k + a else ?x k + a - ANGULAR_DIVISIONS)" if k: "k < ?n" for k
  proof -
    have up: "?x j \<le> ?x l" if "j \<le> l" "l < ?n" for j l
      using that valid_order [OF valid, of j l] by (cases "j = l") auto
    have inb: "?x i < ANGULAR_DIVISIONS" "?x k < ANGULAR_DIVISIONS" "?x nxt < ANGULAR_DIVISIONS"
      using valid_inside [OF valid] i k nxt by auto
    have near: "?x l \<le> b \<Longrightarrow> ?x i \<le> b \<and> ?x l \<le> ?x i" "b < ?x i \<Longrightarrow> ?x l \<le> ?x i \<and> b < ?x l" if "l < ?n" for l
      using least [OF that] pc [OF i] pc [OF that] valid_inside [OF valid i] by (auto split: if_splits)
    have at_last: "i + 1 = ?n" if "\<And>l. l < ?n \<Longrightarrow> ?x l \<le> ?x i"
      using that [of "i + 1"] valid_order [OF valid, of i "i + 1"] i by (cases "i + 1 < ?n") auto
    show ?thesis
    proof (cases "?x i \<le> b \<and> i + 1 < ?n")
      case True
      then have n: "nxt = i + 1" by (simp add: nxt_def)
      have "b < ?x nxt" using near(1) [OF nxt] valid_order [OF valid, of i nxt] nxt n by fastforce
      moreover have "?x nxt \<le> ?x k" if "b < ?x k"
        using up [of k i] up [of nxt k] that True i k n by (cases "k \<le> i") auto
      ultimately show ?thesis using b inb by (cases "b < ?x k") auto
    next
      case False
      have "?x l \<le> ?x i" if "l < ?n" for l
        using False near [OF that] up [of l i] i that by (cases "?x i \<le> b") auto
      then have "i + 1 = ?n" by (rule at_last)
      then have "nxt = 0" by (simp add: nxt_def)
      then have le: "?x nxt \<le> ?x k" using up [of 0 k] k by simp
      have "(\<forall>l < ?n. ?x l \<le> b) \<or> (\<forall>l < ?n. b < ?x l)"
        using near up [of _ i] \<open>i + 1 = ?n\<close> i by (metis (no_types, lifting) Suc_eq_plus1 less_Suc_eq_le order.trans not_le)
      then show ?thesis using le nxt k b inb by auto
    qed
  qed
  have spans: "set (sort_key fst (turned ps)) = (\<lambda>i. (edge ps i, pt_mag (ps ! i), widths_in_force ps ! i)) ` {0..<?n}"
    by (simp add: turned_edges)
  obtain q where q: "q \<in> set qs" "pt_angle q = edge ps i" "blind (pt_mag q) = blind (pt_mag (ps ! i))"
  proof -
    have "(edge ps i, pt_mag (ps ! i), widths_in_force ps ! i) \<in> set (sort_key fst (turned ps))"
      unfolding spans using i by auto
    from list_all2_set1_exists [OF lays this] that show thesis by (auto simp: lays_def)
  qed
  have "past a q \<le> past a r" if r: "r \<in> set qs" for r
  proof -
    obtain s where s: "s \<in> set (sort_key fst (turned ps))" "lays s r" using list_all2_set2_exists [OF lays r] by blast
    then obtain k where k: "k < ?n" "pt_angle r = edge ps k" unfolding spans by (auto simp: lays_def)
    have m: "(k + 1) mod ?n < ?n" using k(1) by (auto intro!: mod_less_divisor)
    have "past a r = (if ?x ((k + 1) mod ?n) + a < ANGULAR_DIVISIONS then ?x ((k + 1) mod ?n) + a
        else ?x ((k + 1) mod ?n) + a - ANGULAR_DIVISIONS)"
      by (rule past_edge [OF a valid_inside [OF valid m]]) (simp add: k(2) edge_def)
    moreover have "past a q = (if ?x nxt + a < ANGULAR_DIVISIONS then ?x nxt + a else ?x nxt + a - ANGULAR_DIVISIONS)"
      by (rule past_edge [OF a valid_inside [OF valid nxt]]) (simp add: q(2) edge_def nxt_def)
    ultimately show ?thesis using step [OF m] by simp
  qed
  then have "state_at qs a = Some (pt_mag q)"
    using vq a q(1) by (intro state_at_nearest valid_ascending) (auto simp: valid_orbit_def list_all_iff point_ok_def)
  then show ?thesis using q(3) state_ps by (simp add: b_def)
qed


definition sample_orbit :: "orbit_point list" where
  "sample_orbit =
     [\<lparr>pt_angle = 10, pt_mag = Unaligned, pt_widths = None\<rparr>,
      \<lparr>pt_angle = 20, pt_mag = Negative, pt_widths = Some \<lparr>plateau_microns = 330, guard_microns = 432\<rparr>\<rparr>]"


end
