(* ===== verification/Artifact.thy ===== *)
theory Artifact
  imports Device
begin

text \<open>
  Putting a new artifact on storage (\<open>src/crates/remanence/src/io/device.rs\<close>): built under a staging
  name beside its destination, committed to the medium, renamed into place. The host's files are a map
  from paths; what the host refuses is given, and so is how much of a refused write it kept. A run
  answers every state the files go through, in order, so that an interruption is any one of them.
\<close>

section \<open>The host\<close>

type_synonym files = "string \<Rightarrow> bytes option"

record host_refusals =
  refuses_create :: bool
  refuses_write :: "nat \<Rightarrow> nat option"
  refuses_sync :: bool
  refuses_rename :: bool
  refuses_remove :: bool

text \<open>\<open>refuses_write k = Some n\<close>: write \<open>k\<close> fails after \<open>n\<close> of its bytes.\<close>

definition create_claimed :: "host_refusals \<Rightarrow> files \<Rightarrow> string \<Rightarrow> files result" where
  "create_claimed h fs p =
     (if fs p \<noteq> None then Inl io_error
      else if refuses_create h then Inl io_error
      else Inr (fs(p \<mapsto> [])))"

definition remove_file :: "host_refusals \<Rightarrow> files \<Rightarrow> string \<Rightarrow> files" where
  "remove_file h fs p = (if refuses_remove h then fs else fs(p := None))"

text \<open>The producer's pieces, each at its offset: the states of the staged file, how many bytes went
  in, and whether every piece did.\<close>

fun write_pieces :: "host_refusals \<Rightarrow> nat \<Rightarrow> bytes \<Rightarrow> nat \<Rightarrow> (nat \<times> bytes) list \<Rightarrow> bytes list \<times> nat \<times> bool" where
  "write_pieces h k f written [] = ([], written, True)"
| "write_pieces h k f written ((off, bs) # pieces) =
     (case refuses_write h k of
        Some n \<Rightarrow> ([file_write_all_at f off (take n bs)], written, False)
      | None \<Rightarrow>
          let f1 = file_write_all_at f off bs;
              (fs, written1, ok) = write_pieces h (k + 1) f1 (written + length bs) pieces
          in (f1 # fs, written1, ok))"

definition written_file :: "(nat \<times> bytes) list \<Rightarrow> bytes" where
  "written_file pieces = fold (\<lambda>(off, bs) f. file_write_all_at f off bs) pieces []"

section \<open>Placing an artifact\<close>

text \<open>A staged file committed and moved into place, or removed.\<close>

definition settle :: "host_refusals \<Rightarrow> files \<Rightarrow> string \<Rightarrow> string \<Rightarrow> bool \<Rightarrow> files list \<times> unit result" where
  "settle h fs staging p built =
     (if \<not> built \<or> refuses_sync h then ([remove_file h fs staging], Inl io_error)
      else if refuses_rename h then ([remove_file h fs staging], Inl io_error)
      else ([(fs(p := fs staging))(staging := None)], Inr ()))"

text \<open>The producer sends its pieces and then answers \<open>answer\<close>, a refusal of a piece before it.\<close>

definition place_new_artifact_streamed ::
  "host_refusals \<Rightarrow> files \<Rightarrow> string \<Rightarrow> string \<Rightarrow> nat \<Rightarrow> (nat \<times> bytes) list \<Rightarrow> unit result \<Rightarrow> files list \<times> unit result" where
  "place_new_artifact_streamed h fs p staging expected pieces answer =
     (if fs p \<noteq> None then ([], Inl io_error)
      else case create_claimed h fs staging of
        Inl e \<Rightarrow> ([], Inl e)
      | Inr fs1 \<Rightarrow>
          let (contents, written, ok) = write_pieces h 0 [] 0 pieces;
              states = map (\<lambda>f. fs1(staging \<mapsto> f)) contents;
              held = fs1(staging \<mapsto> last ([] # contents))
          in if ok \<and> answer \<noteq> Inr () then
               (fs1 # states @ [remove_file h held staging], answer)
             else
               let (ends, r) = settle h held staging p (ok \<and> written = expected)
               in (fs1 # states @ ends, r))"

definition place_new_artifact :: "host_refusals \<Rightarrow> files \<Rightarrow> string \<Rightarrow> string \<Rightarrow> bytes \<Rightarrow> files list \<times> unit result" where
  "place_new_artifact h fs p staging bs =
     place_new_artifact_streamed h fs p staging (length bs) [(0, bs)] (Inr ())"

section \<open>All or nothing\<close>

lemma write_pieces_whole:
  "write_pieces h k f written pieces = (contents, written1, True) \<Longrightarrow>
    last (f # contents) = fold (\<lambda>(off, bs) f. file_write_all_at f off bs) pieces f \<and>
    written1 = written + sum_list (map (\<lambda>e. length (snd e)) pieces) \<and>
    (\<forall>i < length pieces. refuses_write h (k + i) = None)"
proof (induction h k f written pieces arbitrary: contents written1 rule: write_pieces.induct)
  case (2 h k f written off bs pieces)
  show ?case
  proof (cases "refuses_write h k")
    case None
    obtain c w ok where rec: "write_pieces h (k + 1) (file_write_all_at f off bs) (written + length bs) pieces = (c, w, ok)"
      by (metis prod_cases3)
    then have c: "ok" "contents = file_write_all_at f off bs # c" "written1 = w" using 2(2) None by auto
    have IH: "last (file_write_all_at f off bs # c) = fold (\<lambda>(off, bs) f. file_write_all_at f off bs) pieces (file_write_all_at f off bs) \<and>
      w = written + length bs + sum_list (map (\<lambda>e. length (snd e)) pieces) \<and>
      (\<forall>i < length pieces. refuses_write h (k + 1 + i) = None)"
      using 2(1) [OF None refl, of c w] rec c(1) by simp
    have "refuses_write h (k + i) = None" if "i < length ((off, bs) # pieces)" for i
      using that IH None by (cases i) auto
    then show ?thesis using IH c by simp
  qed (use 2(2) in simp)
qed simp

lemma file_whole: "file_write_all_at [] 0 bs = bs"
  by (simp add: file_write_all_at_def splice_def)

definition total_bytes_of :: "(nat \<times> bytes) list \<Rightarrow> nat" where
  "total_bytes_of pieces = sum_list (map (\<lambda>e. length (snd e)) pieces)"

text \<open>Where the destination is free, every state of a run holds at the destination nothing or the whole
  artifact; only the staging name differs beside it.\<close>

lemma placing_states:
  assumes "staging \<noteq> p" "place_new_artifact_streamed h fs p staging expected pieces answer = (states, r)" "s \<in> set states"
  shows "(s p = None \<or> s p = Some (written_file pieces) \<and> total_bytes_of pieces = expected \<and> answer = Inr ()) \<and>
    (\<forall>q. q \<noteq> p \<longrightarrow> q \<noteq> staging \<longrightarrow> s q = fs q)"
proof -
  obtain contents written ok where w: "write_pieces h 0 [] 0 pieces = (contents, written, ok)" by (metis prod_cases3)
  have free: "fs p = None" "fs staging = None" "\<not> refuses_create h"
    using assms(2,3) by (auto simp: place_new_artifact_streamed_def create_claimed_def split: if_splits)
  have whole: "last ([] # contents) = written_file pieces \<and> written = total_bytes_of pieces" if ok
    using write_pieces_whole [of h 0 "[]" 0 pieces contents written] w that
    by (simp add: written_file_def total_bytes_of_def)
  show ?thesis
    using assms(2,3) free assms(1) w whole
    by (auto simp: place_new_artifact_streamed_def create_claimed_def settle_def remove_file_def Let_def
        split: if_splits)
qed

lemma placing_answers:
  assumes "staging \<noteq> p" "place_new_artifact_streamed h fs p staging expected pieces answer = (states, r)"
  shows "case r of
      Inr _ \<Rightarrow> last (fs # states) = fs(p \<mapsto> written_file pieces)
    | Inl _ \<Rightarrow> refuses_remove h \<or> last (fs # states) = fs"
proof -
  obtain contents written ok where w: "write_pieces h 0 [] 0 pieces = (contents, written, ok)" by (metis prod_cases3)
  have whole: "last ([] # contents) = written_file pieces" if ok
    using write_pieces_whole [of h 0 "[]" 0 pieces contents written] w that by (simp add: written_file_def)
  have shape: "r = Inr () \<longrightarrow> ok \<and> fs staging = None"
    using assms(2) w by (auto simp: place_new_artifact_streamed_def create_claimed_def settle_def Let_def split: if_splits)
  show ?thesis
  proof (cases "fs p = None \<and> fs staging = None \<and> \<not> refuses_create h")
    case True
    then show ?thesis
      using assms w whole
      by (auto simp: place_new_artifact_streamed_def create_claimed_def settle_def remove_file_def Let_def
          fun_upd_twist split: if_splits sum.splits intro!: ext)
  next
    case False
    then show ?thesis
      using assms(2) by (auto simp: place_new_artifact_streamed_def create_claimed_def split: if_splits)
  qed
qed


definition torn_host :: host_refusals where
  "torn_host = \<lparr>refuses_create = False, refuses_write = (\<lambda>k. if k = 1 then Some 1 else None),
                refuses_sync = False, refuses_rename = False, refuses_remove = False\<rparr>"


end
