(* ===== verification/Remanence_Format.thy ===== *)
theory Remanence_Format
  imports Flux_Image_Proofs Deflate_Roundtrip Artifact Cache
begin

text \<open>
  The \<open>.remanence\<close> artifact (\<open>src/crates/remanence/src/flux/remanence/format.rs\<close>): magic, sentinel and
  version, then one zlib stream holding form factor, holes, surfaces, orbits outermost first, and
  points as tagged angle deltas. Both directions are here, and the opening and writing of an artifact
  file; the host's storage is that of \<open>Artifact\<close>.
\<close>

unbundle bit_operations_syntax

type_synonym i64 = "64 word"

definition MAGIC :: bytes where "MAGIC = utf8_of ''REMANENCE_PHYSICAL_DISK''"
definition SENTINEL :: u8 where "SENTINEL = 0x1a"
definition REMANENCE_VERSION :: u8 where "REMANENCE_VERSION = 1"
definition HEADER_BYTES :: nat where "HEADER_BYTES = length MAGIC + 2"
definition CHUNK_RECORDS :: nat where "CHUNK_RECORDS = 4096"
definition DECOMPRESSED_CAP :: nat where "DECOMPRESSED_CAP = 256 * 1024 * 1024"

section \<open>Codes and signed values\<close>

fun form_factor_code :: "media_form_factor \<Rightarrow> u8" where
  "form_factor_code Inch8 = 0"
| "form_factor_code Inch525 = 1"
| "form_factor_code Inch35 = 2"

definition form_factor_of :: "u8 \<Rightarrow> media_form_factor result" where
  "form_factor_of c =
     (if c = 0 then Inr Inch8 else if c = 1 then Inr Inch525 else if c = 2 then Inr Inch35
      else Inl (invalid_image REMANENCE))"

definition magnetization_of :: "u8 \<Rightarrow> magnetization result" where
  "magnetization_of c =
     (case mag_from_code (ucast c) of Some m \<Rightarrow> Inr m | None \<Rightarrow> Inl (invalid_image REMANENCE))"

definition write_signed :: "i64 \<Rightarrow> bytes" where
  "write_signed v = write_varint (unat (push_bit 1 v XOR signed_drop_bit 63 v))"

definition read_signed :: "bytes \<Rightarrow> nat \<Rightarrow> (i64 \<times> nat) result" where
  "read_signed bs at =
     rbind (read_varint REMANENCE bs at) (\<lambda>(zigzag, used).
       let z = word_of_nat zigzag :: i64 in Inr (drop_bit 1 z XOR (- (z AND 1)), used))"

definition has_signature :: "bytes \<Rightarrow> bool" where
  "has_signature bs \<longleftrightarrow> length bs \<ge> length MAGIC \<and> take (length MAGIC) bs = MAGIC"

section \<open>Reading\<close>

definition read_fraction :: "bytes \<Rightarrow> nat \<Rightarrow> (turn_fraction \<times> nat) result" where
  "read_fraction payload at =
     rbind (read_signed payload at) (\<lambda>(n, u0).
     rbind (read_varint REMANENCE payload (at + u0)) (\<lambda>(d, u1).
     if sint n < 0 then Inl (invalid_image REMANENCE)
     else rbind (fraction_new (unat n) d) (\<lambda>f. Inr (f, u0 + u1))))"

fun read_holes :: "bytes \<Rightarrow> nat \<Rightarrow> nat \<Rightarrow> (hole list \<times> nat) result" where
  "read_holes payload at 0 = Inr ([], at)"
| "read_holes payload at (Suc n) =
     rbind (read_fraction payload at) (\<lambda>(center, u0).
     rbind (read_fraction payload (at + u0)) (\<lambda>(extent, u1).
     rbind (hole_new center extent) (\<lambda>h.
     rbind (read_holes payload (at + u0 + u1) n) (\<lambda>(hs, at1). Inr (h # hs, at1)))))"

text \<open>A point's sense: stated, or the opposite of the coherent one before it.\<close>

definition read_sense :: "bytes \<Rightarrow> nat \<Rightarrow> bool \<Rightarrow> magnetization option \<Rightarrow> (magnetization \<times> nat) result" where
  "read_sense payload at stated last_sense =
     (if stated then
        if at < length payload
        then rbind (magnetization_of (payload ! at)) (\<lambda>m. Inr (m, at + 1))
        else Inl (invalid_image REMANENCE)
      else case Option.bind last_sense opposite of
             Some m \<Rightarrow> Inr (m, at)
           | None \<Rightarrow> Inl (invalid_image REMANENCE))"

fun read_points ::
  "bytes \<Rightarrow> nat \<Rightarrow> nat \<Rightarrow> magnetization option \<Rightarrow> nat \<Rightarrow> (orbit_point list \<times> nat) result" where
  "read_points payload at angle last_sense 0 = Inr ([], at)"
| "read_points payload at angle last_sense (Suc n) =
     rbind (read_varint REMANENCE payload at) (\<lambda>(tagged, u0).
     let tag = tagged AND 3; angle1 = angle + drop_bit 2 tagged in
     rbind (read_sense payload (at + u0) (tag AND 1 \<noteq> 0) last_sense) (\<lambda>(m, at1).
     rbind (if tag AND 2 \<noteq> 0
            then rbind (read_widths payload at1) (\<lambda>(w, u). Inr (Some w, at1 + u))
            else Inr (None, at1)) (\<lambda>(w, at2).
     rbind (point_stating angle1 m w) (\<lambda>p.
     rbind (read_points payload at2 angle1 (if is_coherent m then Some m else None) n) (\<lambda>(ps, at3).
       Inr (p # ps, at3))))))"

definition read_orbit :: "bytes \<Rightarrow> nat \<Rightarrow> nat \<Rightarrow> (orbit_key \<times> orbit_point list \<times> nat) result" where
  "read_orbit payload at surface =
     rbind (read_varint REMANENCE payload at) (\<lambda>(radius, u0).
     rbind (orbit_key_new surface radius) (\<lambda>key.
     rbind (read_varint REMANENCE payload (at + u0)) (\<lambda>(n, u1).
     rbind (read_points payload (at + u0 + u1) 0 None n) (\<lambda>(ps, at1).
       Inr (key, ps, at1 - at)))))"

fun read_orbits :: "bytes \<Rightarrow> nat \<Rightarrow> nat \<Rightarrow> nat \<Rightarrow> (orbit_points \<times> nat) result" where
  "read_orbits payload at surface 0 = Inr ([], at)"
| "read_orbits payload at surface (Suc n) =
     rbind (read_orbit payload at surface) (\<lambda>(key, ps, used).
     rbind (read_orbits payload (at + used) surface n) (\<lambda>(os, at1). Inr ((key, ps) # os, at1)))"

fun add_orbits :: "'s byte_sink \<Rightarrow> 's flux_image_builder \<Rightarrow> orbit_points \<Rightarrow> 's flux_image_builder result" where
  "add_orbits put b [] = Inr b"
| "add_orbits put b ((key, ps) # os) =
     rbind (add_orbit put b key ps) (\<lambda>(b1, kept). add_orbits put b1 os)"

fun read_surfaces ::
  "'s byte_sink \<Rightarrow> bytes \<Rightarrow> nat \<Rightarrow> nat option \<Rightarrow> nat \<Rightarrow> 's flux_image_builder \<Rightarrow> ('s flux_image_builder \<times> nat) result" where
  "read_surfaces put payload at last_surface 0 b = Inr (b, at)"
| "read_surfaces put payload at last_surface (Suc n) b =
     rbind (read_varint REMANENCE payload at) (\<lambda>(surface, u0).
     if (case last_surface of Some l \<Rightarrow> surface \<le> l | None \<Rightarrow> False) then Inl (invalid_image REMANENCE)
     else
     rbind (read_varint REMANENCE payload (at + u0)) (\<lambda>(count, u1).
     rbind (read_orbits payload (at + u0 + u1) surface count) (\<lambda>(os, at1).
     rbind (add_orbits put b (rev os)) (\<lambda>b1.
       read_surfaces put payload at1 (Some surface) n b1))))"

definition decoded_provenance :: provenance where
  "decoded_provenance =
     provenance_note (provenance_new (utf8_of REMANENCE)) (utf8_of ''decoded from a remanence artifact'')"

definition decode_payload :: "'s byte_sink \<Rightarrow> bytes \<Rightarrow> 's \<Rightarrow> nat \<Rightarrow> (flux_image \<times> 's \<times> nat) result" where
  "decode_payload put payload sink chunk_records =
     (case payload of
        [] \<Rightarrow> Inl (invalid_image REMANENCE)
      | c # _ \<Rightarrow>
        rbind (form_factor_of c) (\<lambda>ff.
        rbind (read_varint REMANENCE payload 1) (\<lambda>(hole_count, u0).
        rbind (read_holes payload (1 + u0) hole_count) (\<lambda>(holes, at1).
        rbind (read_varint REMANENCE payload at1) (\<lambda>(surface_count, u1).
        rbind (builder_to_sink ff holes decoded_provenance sink chunk_records) (\<lambda>b.
        rbind (read_surfaces put payload (at1 + u1) None surface_count b) (\<lambda>(b1, at2).
          if at2 \<noteq> length payload then Inl (invalid_image REMANENCE)
          else builder_seal put b1)))))))"

definition decode_remanence :: "'s byte_sink \<Rightarrow> bytes \<Rightarrow> 's \<Rightarrow> nat \<Rightarrow> (flux_image \<times> 's \<times> nat) result" where
  "decode_remanence put bs sink chunk_records =
     (if length bs < HEADER_BYTES then Inl (invalid_image REMANENCE)
      else if \<not> has_signature bs then Inl (invalid_image REMANENCE)
      else if bs ! length MAGIC \<noteq> SENTINEL then Inl (invalid_image REMANENCE)
      else if bs ! (length MAGIC + 1) \<noteq> REMANENCE_VERSION then Inl (invalid_image REMANENCE)
      else case zlib_decompress (drop HEADER_BYTES bs) DECOMPRESSED_CAP of
             None \<Rightarrow> Inl (invalid_image REMANENCE)
           | Some payload \<Rightarrow> decode_payload put payload sink chunk_records)"

definition from_bytes :: "bytes \<Rightarrow> flux_image result" where
  "from_bytes bs =
     rbind (decode_remanence vec_append bs [] CHUNK_RECORDS) (\<lambda>(img, sink, total_bytes).
       Inr (attach_backing img (memory_source REMANENCE sink) total_bytes DEFAULT_CACHE_BYTES))"

section \<open>Writing\<close>

definition hole_bytes :: "hole \<Rightarrow> bytes" where
  "hole_bytes h =
     write_signed (word_of_nat (tf_numerator (center_angle h))) @ write_varint (tf_denominator (center_angle h)) @
     write_signed (word_of_nat (tf_numerator (angular_extent h))) @ write_varint (tf_denominator (angular_extent h))"

definition derivable :: "magnetization option \<Rightarrow> orbit_point \<Rightarrow> bool" where
  "derivable last_sense p \<longleftrightarrow> is_coherent (pt_mag p) \<and> Option.bind last_sense opposite = Some (pt_mag p)"

fun points_bytes :: "nat \<Rightarrow> magnetization option \<Rightarrow> orbit_point list \<Rightarrow> bytes" where
  "points_bytes previous_angle last_sense [] = []"
| "points_bytes previous_angle last_sense (p # ps) =
     (let tag = (if derivable last_sense p then 0 else 1) OR (if states_widths p then 2 else 0) in
      write_varint (push_bit 2 (pt_angle p - previous_angle) OR tag) @
      (if derivable last_sense p then [] else [ucast (mag_code (pt_mag p))]) @
      (case pt_widths p of None \<Rightarrow> [] | Some w \<Rightarrow> widths_bytes w) @
      points_bytes (pt_angle p) (if is_coherent (pt_mag p) then Some (pt_mag p) else None) ps)"

text \<open>The points of each orbit come from the image's backing, through its working set.\<close>

fun orbits_bytes :: "flux_image \<Rightarrow> orbit list \<Rightarrow> flux_image \<times> bytes result" where
  "orbits_bytes img [] = (img, Inr [])"
| "orbits_bytes img (ob # obs) =
     (case image_points img ob of
        (img1, Inl e) \<Rightarrow> (img1, Inl e)
      | (img1, Inr ps) \<Rightarrow>
          (let (img2, r) = orbits_bytes img1 obs
           in (img2, rbind r (\<lambda>after. Inr
                 (write_varint (ok_radius (ob_key ob)) @ write_varint (ob_points ob) @
                  points_bytes 0 None ps @ after)))))"

fun surfaces_bytes :: "flux_image \<Rightarrow> nat list \<Rightarrow> flux_image \<times> bytes result" where
  "surfaces_bytes img [] = (img, Inr [])"
| "surfaces_bytes img (surface # surfaces) =
     (let held = filter (\<lambda>ob. ok_surface (ob_key ob) = surface) (map snd (fi_orbits img)) in
      case orbits_bytes img (rev held) of
        (img1, Inl e) \<Rightarrow> (img1, Inl e)
      | (img1, Inr held_bytes) \<Rightarrow>
          (let (img2, r) = surfaces_bytes img1 surfaces
           in (img2, rbind r (\<lambda>after. Inr
                 (write_varint surface @ write_varint (length held) @ held_bytes @ after)))))"

definition to_payload :: "flux_image \<Rightarrow> flux_image \<times> bytes result" where
  "to_payload img =
     (let surfaces = remdups_adj (map (\<lambda>ob. ok_surface (ob_key ob)) (map snd (fi_orbits img)));
          (img1, r) = surfaces_bytes img surfaces
      in (img1, rbind r (\<lambda>blocks. Inr
           ([form_factor_code (fi_form_factor img)] @
            write_varint (length (fi_holes img)) @ concat (map hole_bytes (fi_holes img)) @
            write_varint (length surfaces) @ blocks))))"

definition to_bytes :: "flux_image \<Rightarrow> flux_image \<times> bytes result" where
  "to_bytes img =
     (let (img1, r) = to_payload img
      in (img1, rbind r (\<lambda>payload. Inr (MAGIC @ [SENTINEL, REMANENCE_VERSION] @ zlib_compress payload))))"

section \<open>An artifact file\<close>

definition open_with_cache ::
  "(nat \<Rightarrow> nat \<Rightarrow> bool) \<Rightarrow> (nat \<Rightarrow> nat \<Rightarrow> bool) \<Rightarrow> files \<Rightarrow> string \<Rightarrow> nat \<Rightarrow> flux_image result" where
  "open_with_cache host_writes host_reads fs p cache_bytes =
     (case fs p of
        None \<Rightarrow> Inl io_error
      | Some bs \<Rightarrow>
          if length bs > DECOMPRESSED_CAP then Inl (invalid_image REMANENCE)
          else
          rbind (decode_remanence (session_append host_writes) bs \<lparr>sb_file = [], sb_written = 0\<rparr> CHUNK_RECORDS)
            (\<lambda>(img, backing, total_bytes).
              Inr (attach_artifact
                    (attach_backing img (session_source host_reads (sb_file backing)) total_bytes cache_bytes)
                    p ReadOnlyMode)))"

definition open_artifact :: "(nat \<Rightarrow> nat \<Rightarrow> bool) \<Rightarrow> (nat \<Rightarrow> nat \<Rightarrow> bool) \<Rightarrow> files \<Rightarrow> string \<Rightarrow> flux_image result" where
  "open_artifact host_writes host_reads fs p = open_with_cache host_writes host_reads fs p DEFAULT_CACHE_BYTES"

record flux_write_report =
  wr_path :: string
  wr_artifact_bytes :: nat
  wr_orbits :: nat
  wr_points :: nat

definition write_new_artifact ::
  "host_refusals \<Rightarrow> files \<Rightarrow> flux_image \<Rightarrow> string \<Rightarrow> string \<Rightarrow> flux_image \<times> files list \<times> flux_write_report result" where
  "write_new_artifact h fs img p staging =
     (if fs p \<noteq> None then (img, [], Inl io_error)
      else case to_bytes img of
        (img1, Inl e) \<Rightarrow> (img1, [], Inl e)
      | (img1, Inr artifact) \<Rightarrow>
          (let (states, r) = place_new_artifact h fs p staging artifact
           in (img1, states, rbind r (\<lambda>_. Inr
                 \<lparr>wr_path = p, wr_artifact_bytes = length artifact, wr_orbits = length (fi_orbits img1),
                  wr_points = sum_list (map ob_points (map snd (fi_orbits img1)))\<rparr>))))"

end
