(* ===== verification/Remanence_Format_Proofs.thy ===== *)
theory Remanence_Format_Proofs
  imports Remanence_Format Capture_Keys
begin

text \<open>
  What the artifact promises: an image written and read back is the image, form factor, holes, orbits
  and every point. Each part reads back where it stands in the payload; the groups by surface are the
  orbits in key order, so the builder takes them as the image held them.
\<close>

unbundle bit_operations_syntax

section \<open>Signed values and fractions\<close>

lemma signed_half:
  assumes "n < 2 ^ 63"
  shows "unat (push_bit 1 (word_of_nat n :: i64) XOR signed_drop_bit 63 (word_of_nat n)) = 2 * n"
    "drop_bit 1 (word_of_nat (2 * n) :: i64) XOR (- (word_of_nat (2 * n) AND 1)) = word_of_nat n"
    "\<not> sint (word_of_nat n :: i64) < 0" "unat (word_of_nat n :: i64) = n"
proof -
  have u: "unat (word_of_nat n :: i64) = n" "unat (word_of_nat (2 * n) :: i64) = 2 * n"
    unfolding unat_of_nat using assms by (simp_all add: take_bit_eq_mod)
  have s: "sint (word_of_nat n :: i64) = int n"
    using assms by (simp add: sint_uint word_size signed_take_bit_int_eq_self uint_nat u(1) del: of_nat_unat)
  have z: "signed_drop_bit 63 (word_of_nat n :: i64) = 0"
  proof -
    have "sint (signed_drop_bit 63 (word_of_nat n :: i64)) = 0"
      unfolding sint_signed_drop_bit_eq s using assms by (simp add: drop_bit_eq_div)
    then show ?thesis by (simp only: signed_eq_0_iff)
  qed
  have "push_bit 1 (word_of_nat n :: i64) = word_of_nat (2 * n)" by (simp add: push_bit_eq_mult)
  then show "unat (push_bit 1 (word_of_nat n :: i64) XOR signed_drop_bit 63 (word_of_nat n)) = 2 * n"
    unfolding z using u(2) by (metis xor.right_neutral)
  have "word_of_nat (2 * n) AND 1 = (0 :: i64)"
  proof -
    have "unat (word_of_nat (2 * n) mod 2 :: i64) = 0" unfolding unat_mod_distrib u(2) by simp
    then show ?thesis unfolding and_one_eq unat_eq_zero .
  qed
  moreover have "drop_bit 1 (word_of_nat (2 * n) :: i64) = word_of_nat n"
    unfolding word_unat_eq_iff unat_drop_bit_eq u by (simp add: drop_bit_eq_div)
  ultimately show "drop_bit 1 (word_of_nat (2 * n) :: i64) XOR (- (word_of_nat (2 * n) AND 1)) = word_of_nat n" by simp
  show "\<not> sint (word_of_nat n :: i64) < 0" using s by simp
  show "unat (word_of_nat n :: i64) = n" by (rule u(1))
qed

lemma read_signed_write:
  assumes "n < 2 ^ 63" "drop at bs = write_signed (word_of_nat n) @ post"
  shows "read_signed bs at = Inr (word_of_nat n, length (write_signed (word_of_nat n)))"
proof -
  note h = signed_half [OF assms(1)]
  have w: "write_signed (word_of_nat n) = write_varint (2 * n)" unfolding write_signed_def h(1) by (rule refl)
  have "2 * n \<le> U64_MAX" using assms(1) by (simp add: U64_MAX_def)
  from read_varint_write [OF this assms(2) [unfolded w]] show ?thesis
    unfolding read_signed_def w Let_def by (simp only: rbind.simps prod.case h(2))
qed

text \<open>A fraction as the model holds it, of a numerator the signed form can carry.\<close>

definition fraction_ok :: "turn_fraction \<Rightarrow> bool" where
  "fraction_ok f \<longleftrightarrow> tf_numerator f < 2 ^ 63 \<and> 0 < tf_denominator f \<and> tf_denominator f \<le> U64_MAX \<and>
     greatest_common_divisor (max (tf_numerator f) 1) (tf_denominator f) = 1"

definition hole_ok :: "hole \<Rightarrow> bool" where
  "hole_ok h \<longleftrightarrow> fraction_ok (center_angle h) \<and> fraction_ok (angular_extent h) \<and>
     hole_new (center_angle h) (angular_extent h) = Inr h"

definition fraction_bytes :: "turn_fraction \<Rightarrow> bytes" where
  "fraction_bytes f = write_signed (word_of_nat (tf_numerator f)) @ write_varint (tf_denominator f)"

lemma hole_bytes_fractions: "hole_bytes h = fraction_bytes (center_angle h) @ fraction_bytes (angular_extent h)"
  by (simp add: hole_bytes_def fraction_bytes_def)

lemma read_fraction_write:
  assumes ok: "fraction_ok f" and d: "drop at bs = fraction_bytes f @ post"
  shows "read_fraction bs at = Inr (f, length (fraction_bytes f))"
proof -
  define w0 where "w0 = write_signed (word_of_nat (tf_numerator f))"
  note parts = ok [unfolded fraction_ok_def]
  have d0: "drop at bs = w0 @ write_varint (tf_denominator f) @ post"
    using d by (simp add: fraction_bytes_def w0_def)
  have r0: "read_signed bs at = Inr (word_of_nat (tf_numerator f), length w0)"
    unfolding w0_def by (rule read_signed_write [OF _ d0 [unfolded w0_def]]) (use parts in simp)
  have r1: "read_varint REMANENCE bs (at + length w0) = Inr (tf_denominator f, length (write_varint (tf_denominator f)))"
    by (rule read_varint_write [OF _ drop_later [OF d0]]) (use parts in simp)
  have n: "\<not> sint (word_of_nat (tf_numerator f) :: i64) < 0" "unat (word_of_nat (tf_numerator f) :: i64) = tf_numerator f"
    using signed_half(3,4) parts by blast+
  have "fraction_new (tf_numerator f) (tf_denominator f) = Inr f"
    using parts by (cases f) (simp add: fraction_new_def)
  then show ?thesis
    unfolding read_fraction_def r0 rbind.simps prod.case r1 if_not_P [OF n(1)] n(2)
    by (simp add: fraction_bytes_def w0_def)
qed

lemma read_holes_write:
  "list_all hole_ok hs \<Longrightarrow> drop at bs = concat (map hole_bytes hs) @ post \<Longrightarrow>
    read_holes bs at (length hs) = Inr (hs, at + length (concat (map hole_bytes hs)))"
proof (induction hs arbitrary: "at")
  case (Cons h hs)
  have ok: "fraction_ok (center_angle h)" "fraction_ok (angular_extent h)"
    "hole_new (center_angle h) (angular_extent h) = Inr h"
    using Cons.prems(1) by (simp_all add: hole_ok_def)
  have d0: "drop at bs = fraction_bytes (center_angle h) @ fraction_bytes (angular_extent h) @
      concat (map hole_bytes hs) @ post"
    using Cons.prems(2) by (simp add: hole_bytes_fractions [of h])
  note d1 = drop_later [OF d0]
  note d2 = drop_later [OF d1]
  show ?case
    using read_fraction_write [OF ok(1) d0] read_fraction_write [OF ok(2) d1] ok(3) Cons.IH [OF _ d2] Cons.prems(1)
    by (simp add: hole_bytes_fractions [of h] add.assoc)
qed simp

section \<open>Points\<close>

lemma tagged_parts:
  fixes d t :: nat
  assumes "t < 4"
  shows "push_bit 2 d OR t = 4 * d + t" "(push_bit 2 d OR t) AND 3 = t" "drop_bit 2 (push_bit 2 d OR t) = d"
proof -
  have "take_bit 2 t = t" using assms by (simp add: take_bit_eq_mod)
  moreover have "push_bit 2 d AND take_bit 2 t = 0" by (auto simp: bit_eq_iff bit_simps)
  ultimately have "push_bit 2 d OR t = push_bit 2 d + take_bit 2 t" by (simp add: disjunctive_add_eq_or)
  then show s: "push_bit 2 d OR t = 4 * d + t" using assms by (simp add: push_bit_eq_mult take_bit_eq_mod)
  have "(4 * d + t) AND mask 2 = t" unfolding take_bit_eq_mask [symmetric] using assms by (simp add: take_bit_eq_mod)
  then show "(push_bit 2 d OR t) AND 3 = t" unfolding s by (simp add: mask_eq_exp_minus_1)
  show "drop_bit 2 (push_bit 2 d OR t) = d" unfolding s using assms by (simp add: drop_bit_eq_div)
qed

lemma read_sense_write:
  assumes "drop at bs = (if derivable last_sense p then [] else [ucast (mag_code (pt_mag p))]) @ post"
  shows "read_sense bs at (\<not> derivable last_sense p) last_sense =
    Inr (pt_mag p, at + (if derivable last_sense p then 0 else 1))"
proof (cases "derivable last_sense p")
  case True
  then show ?thesis by (simp add: read_sense_def derivable_def)
next
  case False
  then have d: "drop at bs = ucast (mag_code (pt_mag p)) # post" using assms by simp
  then have "at < length bs" by (metis drop_all list.discI not_le)
  moreover have "bs ! at = ucast (mag_code (pt_mag p))" using d by (metis Cons_nth_drop_Suc calculation list.inject)
  moreover have "magnetization_of (ucast (mag_code (pt_mag p))) = Inr (pt_mag p)"
    by (cases "pt_mag p") (simp_all add: magnetization_of_def mag_from_code_def)
  ultimately show ?thesis using False by (simp add: read_sense_def)
qed

lemma read_points_write:
  "list_all point_ok ps \<Longrightarrow> sorted_wrt (<) (map pt_angle ps) \<Longrightarrow> \<forall>p \<in> set ps. prev \<le> pt_angle p \<Longrightarrow>
    drop at bs = points_bytes prev last_sense ps @ post \<Longrightarrow>
    read_points bs at prev last_sense (length ps) = Inr (ps, at + length (points_bytes prev last_sense ps))"
proof (induction ps arbitrary: "at" prev last_sense)
  case (Cons p ps)
  define t :: nat where "t = (if derivable last_sense p then 0 else 1) OR (if states_widths p then 2 else 0)"
  define tagged where "tagged = push_bit 2 (pt_angle p - prev) OR t"
  define w0 where "w0 = write_varint tagged"
  define w1 where "w1 = (if derivable last_sense p then [] else [ucast (mag_code (pt_mag p))] :: bytes)"
  define w2 where "w2 = (case pt_widths p of None \<Rightarrow> [] | Some w \<Rightarrow> widths_bytes w)"
  define sense where "sense = (if is_coherent (pt_mag p) then Some (pt_mag p) else None)"
  have ok: "point_ok p" and angle: "pt_angle p < 2 ^ 28"
    using Cons.prems(1) by (simp_all add: point_ok_def ANGULAR_DIVISIONS_def)
  have t: "t < 4" "t AND 1 \<noteq> 0 \<longleftrightarrow> \<not> derivable last_sense p" "t AND 2 \<noteq> 0 \<longleftrightarrow> states_widths p"
    unfolding t_def by (cases "derivable last_sense p"; cases "states_widths p"; simp)+
  note tag = tagged_parts [OF t(1), of "pt_angle p - prev", folded tagged_def]
  have d0: "drop at bs = w0 @ w1 @ w2 @ points_bytes (pt_angle p) sense ps @ post"
    using Cons.prems(4) by (simp add: w0_def w1_def w2_def tagged_def t_def sense_def)
  note d1 = drop_later [OF d0]
  note d2 = drop_later [OF d1]
  note d3 = drop_later [OF d2]
  have "tagged \<le> U64_MAX" unfolding tag(1) using t(1) angle by (simp add: U64_MAX_def)
  then have r0: "read_varint REMANENCE bs at = Inr (tagged, length w0)"
    unfolding w0_def by (rule read_varint_write [OF _ d0 [unfolded w0_def]])
  have r1: "read_sense bs (at + length w0) ((tagged AND 3) AND 1 \<noteq> 0) last_sense = Inr (pt_mag p, at + length w0 + length w1)"
    unfolding tag(2) t(2) using read_sense_write [OF d1 [unfolded w1_def]] by (simp add: w1_def)
  have r2: "(if (tagged AND 3) AND 2 \<noteq> 0
            then rbind (read_widths bs (at + length w0 + length w1)) (\<lambda>(w, u). Inr (Some w, at + length w0 + length w1 + u))
            else Inr (None, at + length w0 + length w1)) = Inr (pt_widths p, at + length w0 + length w1 + length w2)"
  proof (cases "pt_widths p")
    case None
    then show ?thesis unfolding tag(2) t(3) by (simp add: states_widths_def w2_def)
  next
    case (Some v)
    then have v: "widths_ok v" "w2 = widths_bytes v" using ok by (simp_all add: point_ok_def w2_def)
    show ?thesis unfolding tag(2) t(3) using Some read_widths_write [OF v(1) d2 [unfolded v(2)]]
      by (simp add: states_widths_def v(2))
  qed
  have a: "prev + drop_bit 2 tagged = pt_angle p" unfolding tag(3) using Cons.prems(3) by simp
  have rest: "read_points bs (at + length w0 + length w1 + length w2) (pt_angle p) sense (length ps) =
      Inr (ps, at + length w0 + length w1 + length w2 + length (points_bytes (pt_angle p) sense ps))"
    by (rule Cons.IH [OF _ _ _ d3]) (use Cons.prems(1,2) in \<open>auto intro: less_imp_le\<close>)
  have len: "at + length w0 + length w1 + length w2 + length (points_bytes (pt_angle p) sense ps) =
      at + length (points_bytes prev last_sense (p # ps))"
    by (simp add: w0_def w1_def w2_def tagged_def t_def sense_def)
  show ?case
    unfolding list.size read_points.simps add_Suc_right add_0_right r0 rbind.simps prod.case Let_def r1 r2 a
      point_stating_again [OF ok] sense_def [symmetric] rest len ..
qed simp

section \<open>Orbits\<close>

definition orbit_bytes :: "orbit_key \<times> orbit_point list \<Rightarrow> bytes" where
  "orbit_bytes e =
     write_varint (ok_radius (fst e)) @ write_varint (length (snd e)) @ points_bytes 0 None (snd e)"

lemma validated_ascending: "validate_pairs ps = Inr () \<Longrightarrow> sorted_wrt (<) (map pt_angle ps)"
proof (induction ps rule: validate_pairs.induct)
  case (1 b p ps)
  then have "pt_angle b < pt_angle p" "sorted_wrt (<) (map pt_angle (p # ps))" by (auto split: if_splits)
  then show ?case by auto
qed auto

lemma validated_pairs: "validate_orbit_points ps = Inr () \<Longrightarrow> validate_pairs ps = Inr ()"
  by (auto simp: validate_orbit_points_def split: option.splits if_splits)

lemma read_orbit_write:
  assumes kept: "orbit_kept e" and d: "drop at bs = orbit_bytes e @ post"
  shows "read_orbit bs at (ok_surface (fst e)) = Inr (fst e, snd e, length (orbit_bytes e))"
proof -
  define w0 where "w0 = write_varint (ok_radius (fst e))"
  define w1 where "w1 = write_varint (length (snd e))"
  have d0: "drop at bs = w0 @ w1 @ points_bytes 0 None (snd e) @ post"
    using d by (simp add: orbit_bytes_def w0_def w1_def)
  note d1 = drop_later [OF d0]
  note d2 = drop_later [OF d1]
  have ok: "orbit_key_ok (fst e)" "list_all point_ok (snd e)" "length (snd e) \<le> U64_MAX"
    using kept by (simp_all add: orbit_kept_def orbit_ok_def)
  have r0: "read_varint REMANENCE bs at = Inr (ok_radius (fst e), length w0)"
    unfolding w0_def by (rule read_varint_write [OF _ d0 [unfolded w0_def]]) (use ok(1) in \<open>simp add: orbit_key_ok_def\<close>)
  have r1: "read_varint REMANENCE bs (at + length w0) = Inr (length (snd e), length w1)"
    unfolding w1_def by (rule read_varint_write [OF ok(3) d1 [unfolded w1_def]])
  have r2: "read_points bs (at + length w0 + length w1) 0 None (length (snd e)) =
      Inr (snd e, at + length w0 + length w1 + length (points_bytes 0 None (snd e)))"
    by (rule read_points_write [OF ok(2) _ _ d2])
      (use kept in \<open>auto simp: orbit_kept_def intro: validated_ascending validated_pairs\<close>)
  have key: "orbit_key_new (ok_surface (fst e)) (ok_radius (fst e)) = Inr (fst e)"
    using ok(1) by (simp add: orbit_key_new_def orbit_key_ok_def)
  show ?thesis
    unfolding read_orbit_def r0 rbind.simps prod.case key r1 r2
    by (simp add: orbit_bytes_def w0_def w1_def)
qed

lemma read_orbits_write:
  "list_all orbit_kept es \<Longrightarrow> \<forall>e \<in> set es. ok_surface (fst e) = surface \<Longrightarrow>
    drop at bs = concat (map orbit_bytes es) @ post \<Longrightarrow>
    read_orbits bs at surface (length es) = Inr (es, at + length (concat (map orbit_bytes es)))"
proof (induction es arbitrary: "at")
  case (Cons e es)
  have d0: "drop at bs = orbit_bytes e @ concat (map orbit_bytes es) @ post" using Cons.prems(3) by simp
  have "ok_surface (fst e) = surface" "orbit_kept e" using Cons.prems(1,2) by simp_all
  then have r: "read_orbit bs at surface = Inr (fst e, snd e, length (orbit_bytes e))"
    using read_orbit_write [OF _ d0] by metis
  show ?case
    using r Cons.IH [OF _ _ drop_later [OF d0]] Cons.prems(1,2) by (simp add: add.assoc)
qed simp

section \<open>Surfaces\<close>

definition on_surface :: "orbit_points \<Rightarrow> nat \<Rightarrow> orbit_points" where
  "on_surface os surface = filter (\<lambda>e. ok_surface (fst e) = surface) os"

definition surfaces_of :: "orbit_points \<Rightarrow> nat list" where
  "surfaces_of os = remdups_adj (map (\<lambda>e. ok_surface (fst e)) os)"

definition surface_bytes :: "orbit_points \<Rightarrow> nat \<Rightarrow> bytes" where
  "surface_bytes os surface =
     write_varint surface @ write_varint (length (on_surface os surface)) @
     concat (map orbit_bytes (rev (on_surface os surface)))"

lemma remdups_adj_strict: "sorted xs \<Longrightarrow> sorted_wrt (<) (remdups_adj (xs :: nat list))"
proof (induction xs rule: remdups_adj.induct)
  case (3 x y xs)
  then show ?case by (auto simp: order.strict_iff_order dest: remdups_adj_set [THEN equalityD1, THEN subsetD])
qed simp_all

lemma concat_groups:
  fixes f :: "'a \<Rightarrow> nat"
  shows "sorted (map f xs) \<Longrightarrow> concat (map (\<lambda>s. filter (\<lambda>x. f x = s) xs) (remdups_adj (map f xs))) = xs"
proof (induction xs)
  case (Cons x xs)
  show ?case
  proof (cases xs)
    case (Cons y ys)
    let ?R = "remdups_adj (map f xs)"
    have R: "?R = f y # tl ?R" by (simp add: Cons)
    have strict: "sorted_wrt (<) ?R" using Cons.prems by (intro remdups_adj_strict) simp
    have IH: "concat (map (\<lambda>s. filter (\<lambda>x. f x = s) xs) ?R) = xs" using Cons.IH Cons.prems by simp
    show ?thesis
    proof (cases "f x = f y")
      case True
      have "f x \<notin> set (tl ?R)" using strict R True by (metis order.irrefl sorted_wrt.simps(2))
      then have later: "map (\<lambda>s. filter (\<lambda>z. f z = s) (x # xs)) (tl ?R) = map (\<lambda>s. filter (\<lambda>z. f z = s) xs) (tl ?R)"
        by (intro map_cong) auto
      have folded: "remdups_adj (map f (x # xs)) = f y # tl ?R" using R True by (simp add: Cons)
      have "concat (map (\<lambda>s. filter (\<lambda>z. f z = s) (x # xs)) (remdups_adj (map f (x # xs)))) =
          (x # filter (\<lambda>z. f z = f y) xs) @ concat (map (\<lambda>s. filter (\<lambda>z. f z = s) xs) (tl ?R))"
        unfolding folded unfolding list.simps(9) concat.simps later using True by simp
      also have "\<dots> = x # concat (map (\<lambda>s. filter (\<lambda>z. f z = s) xs) (f y # tl ?R))" by simp
      also have "\<dots> = x # xs" unfolding R [symmetric] IH ..
      finally show ?thesis .
    next
      case False
      have "\<forall>z \<in> set xs. f x < f z"
        using Cons.prems False Cons by (auto simp: order.strict_iff_order)
      then have alone: "filter (\<lambda>z. f z = f x) xs = []" "f x \<notin> set ?R" by (auto simp: filter_empty_conv)
      have split: "remdups_adj (map f (x # xs)) = f x # ?R" using False by (simp add: Cons)
      have others: "map (\<lambda>s. filter (\<lambda>z. f z = s) (x # xs)) ?R = map (\<lambda>s. filter (\<lambda>z. f z = s) xs) ?R"
        using alone(2) by (intro map_cong) auto
      show ?thesis unfolding split unfolding list.simps(9) concat.simps others IH using alone(1) by simp
    qed
  qed simp
qed simp

lemma surfaces_partition:
  assumes "sorted_wrt (<) (map fst os)"
  shows "concat (map (on_surface os) (surfaces_of os)) = os"
proof -
  have "sorted_wrt (\<lambda>a b. ok_surface (fst a) \<le> ok_surface (fst b)) os"
    using assms unfolding sorted_wrt_map
    by (rule sorted_wrt_mono_rel [rotated]) (auto simp: less_orbit_key_def)
  then have "sorted (map (\<lambda>e. ok_surface (fst e)) os)" by (simp add: sorted_map)
  from concat_groups [OF this] show ?thesis unfolding surfaces_of_def on_surface_def [abs_def] .
qed

lemma surfaces_strict:
  assumes "sorted_wrt (<) (map fst os)"
  shows "sorted_wrt (<) (surfaces_of os)"
proof -
  have "sorted_wrt (\<lambda>a b. ok_surface (fst a) \<le> ok_surface (fst b)) os"
    using assms unfolding sorted_wrt_map
    by (rule sorted_wrt_mono_rel [rotated]) (auto simp: less_orbit_key_def)
  then show ?thesis unfolding surfaces_of_def by (intro remdups_adj_strict) (simp add: sorted_map)
qed

text \<open>The payload of an image of these orbits.\<close>

definition payload_of :: "media_form_factor \<Rightarrow> hole list \<Rightarrow> orbit_points \<Rightarrow> bytes" where
  "payload_of ff holes os =
     [form_factor_code ff] @ write_varint (length holes) @ concat (map hole_bytes holes) @
     write_varint (length (surfaces_of os)) @ concat (map (surface_bytes os) (surfaces_of os))"

context image_store
begin

lemma add_orbits_goes:
  "builder_holds n b os \<Longrightarrow> (\<And>s bs. \<exists>s'. put s bs = Inr s') \<Longrightarrow> list_all orbit_kept es \<Longrightarrow>
    sorted_wrt (<) (map fst (os @ es)) \<Longrightarrow>
    \<exists>b' m. add_orbits put b es = Inr b' \<and> builder_holds n b' (os @ es) \<and> bd_image b' = (bd_image b)\<lparr>fi_orbits := m\<rparr>"
proof (induction es arbitrary: b os)
  case Nil
  then show ?case by (auto intro: exI [of _ "fi_orbits (bd_image b)"])
next
  case (Cons e es)
  obtain key ps where e: "e = (key, ps)" by (cases e)
  have kept: "orbit_kept (key, ps)" "orbit_ok (key, ps)" using Cons.prems(3) by (simp_all add: e orbit_kept_def)
  have "\<forall>k \<in> fst ` set os. k < key" using Cons.prems(4) by (auto simp: e sorted_wrt_append)
  then obtain b1 where b1: "add_orbit put b key ps = Inr (b1, True)"
    using add_orbit_goes [OF Cons.prems(1,2) kept(1)] by blast
  note h1 = add_orbit_holds [OF Cons.prems(1) kept(2) b1]
  have "builder_holds n b1 (os @ [e])" using h1(1) by (simp add: e)
  then obtain b' m where "add_orbits put b1 es = Inr b'" "builder_holds n b' ((os @ [e]) @ es)"
      "bd_image b' = (bd_image b1)\<lparr>fi_orbits := m\<rparr>"
    using Cons.IH [OF _ Cons.prems(2), of b1 "os @ [e]"] Cons.prems(3,4) by auto
  then show ?case using h1(3) b1 by (auto simp: e)
qed

lemma read_surfaces_write:
  "builder_holds n b got \<Longrightarrow> (\<And>s bs. \<exists>s'. put s bs = Inr s') \<Longrightarrow> list_all orbit_kept os \<Longrightarrow> length os \<le> U64_MAX \<Longrightarrow>
    sorted_wrt (<) (map fst (got @ concat (map (on_surface os) ss))) \<Longrightarrow>
    sorted_wrt (<) ss \<Longrightarrow> \<forall>s \<in> set ss. s \<le> U64_MAX \<and> (case last_surface of None \<Rightarrow> True | Some l \<Rightarrow> l < s) \<Longrightarrow>
    drop at bs = concat (map (surface_bytes os) ss) @ post \<Longrightarrow>
    \<exists>b' m. read_surfaces put bs at last_surface (length ss) b =
        Inr (b', at + length (concat (map (surface_bytes os) ss))) \<and>
      builder_holds n b' (got @ concat (map (on_surface os) ss)) \<and> bd_image b' = (bd_image b)\<lparr>fi_orbits := m\<rparr>"
proof (induction ss arbitrary: "at" got last_surface b)
  case Nil
  then show ?case by (auto intro: exI [of _ "fi_orbits (bd_image b)"])
next
  case (Cons s ss)
  let ?es = "on_surface os s"
  define w0 where "w0 = write_varint s"
  define w1 where "w1 = write_varint (length ?es)"
  define w2 where "w2 = concat (map orbit_bytes (rev ?es))"
  have d0: "drop at bs = w0 @ w1 @ w2 @ concat (map (surface_bytes os) ss) @ post"
    using Cons.prems(8) by (simp add: surface_bytes_def [of os s] w0_def w1_def w2_def)
  note d1 = drop_later [OF d0]
  note d2 = drop_later [OF d1]
  note d3 = drop_later [OF d2]
  have r0: "read_varint REMANENCE bs at = Inr (s, length w0)"
    unfolding w0_def by (rule read_varint_write [OF _ d0 [unfolded w0_def]]) (use Cons.prems(7) in simp)
  have "length ?es \<le> U64_MAX"
    using length_filter_le [of _ os] Cons.prems(4) unfolding on_surface_def by (rule order.trans)
  then have r1: "read_varint REMANENCE bs (at + length w0) = Inr (length ?es, length w1)"
    unfolding w1_def by (rule read_varint_write [OF _ d1 [unfolded w1_def]])
  have kept: "list_all orbit_kept ?es" using Cons.prems(3) by (auto simp: on_surface_def list_all_iff)
  have r2: "read_orbits bs (at + length w0 + length w1) s (length ?es) = Inr (rev ?es, at + length w0 + length w1 + length w2)"
  proof -
    have "list_all orbit_kept (rev ?es)" "\<forall>e \<in> set (rev ?es). ok_surface (fst e) = s"
      using kept by (simp_all add: on_surface_def)
    from read_orbits_write [OF this d2 [unfolded w2_def]] show ?thesis by (simp only: length_rev w2_def)
  qed
  have ascends: "\<not> (case last_surface of Some l \<Rightarrow> s \<le> l | None \<Rightarrow> False)"
    using Cons.prems(7) by (auto split: option.splits)
  obtain b1 m1 where b1: "add_orbits put b ?es = Inr b1" "builder_holds n b1 (got @ ?es)"
      "bd_image b1 = (bd_image b)\<lparr>fi_orbits := m1\<rparr>"
    using add_orbits_goes [OF Cons.prems(1,2) kept] Cons.prems(5) by (auto simp: sorted_wrt_append)
  have "\<exists>b' m. read_surfaces put bs (at + length w0 + length w1 + length w2) (Some s) (length ss) b1 =
        Inr (b', at + length w0 + length w1 + length w2 + length (concat (map (surface_bytes os) ss))) \<and>
      builder_holds n b' ((got @ ?es) @ concat (map (on_surface os) ss)) \<and> bd_image b' = (bd_image b1)\<lparr>fi_orbits := m\<rparr>"
    by (rule Cons.IH [OF b1(2) Cons.prems(2-4) _ _ _ d3]) (use Cons.prems(5-7) in simp_all)
  then obtain b' m where b': "read_surfaces put bs (at + length w0 + length w1 + length w2) (Some s) (length ss) b1 =
        Inr (b', at + length w0 + length w1 + length w2 + length (concat (map (surface_bytes os) ss)))"
      "builder_holds n b' ((got @ ?es) @ concat (map (on_surface os) ss))" "bd_image b' = (bd_image b1)\<lparr>fi_orbits := m\<rparr>"
    by blast
  have "read_surfaces put bs at last_surface (length (s # ss)) b =
      Inr (b', at + length (concat (map (surface_bytes os) (s # ss))))"
    unfolding list.size read_surfaces.simps add_Suc_right add_0_right r0 rbind.simps prod.case if_not_P [OF ascends] r1 r2
      rev_rev_ident b1(1) b'(1)
    by (simp add: surface_bytes_def [of os s] w0_def w1_def w2_def)
  then show ?case using b'(2,3) b1(3) by auto
qed

lemma decode_payload_write:
  assumes put: "\<And>s bs. \<exists>s'. put s bs = Inr s'" and s: "sink_bytes s = []"
    and holes: "list_all hole_ok holes" "length holes \<le> U64_MAX" "holes_ordered holes"
    and os: "list_all orbit_kept os" "length os \<le> U64_MAX" "sorted_wrt (<) (map fst os)"
  shows "\<exists>b m. decode_payload put (payload_of ff holes os) s n = builder_seal put b \<and> builder_holds (max n 1) b os \<and>
    bd_image b = \<lparr>fi_form_factor = ff, fi_holes = holes, fi_orbits = m, fi_provenance = decoded_provenance,
      fi_backing = None, fi_artifact = None\<rparr>"
proof -
  define p where "p = payload_of ff holes os"
  define w1 where "w1 = write_varint (length holes)"
  define w2 where "w2 = concat (map hole_bytes holes)"
  define w3 where "w3 = write_varint (length (surfaces_of os))"
  define w4 where "w4 = concat (map (surface_bytes os) (surfaces_of os))"
  have p: "p = form_factor_code ff # w1 @ w2 @ w3 @ w4"
    by (simp add: p_def payload_of_def w1_def w2_def w3_def w4_def)
  have d1: "drop 1 p = w1 @ w2 @ w3 @ w4" by (simp add: p)
  note d2 = drop_later [OF d1]
  note d3 = drop_later [OF d2]
  have d4: "drop (1 + length w1 + length w2 + length w3) p = w4 @ []" using drop_later [OF d3] by simp
  have r1: "read_varint REMANENCE p 1 = Inr (length holes, length w1)"
    unfolding w1_def by (rule read_varint_write [OF holes(2) d1 [unfolded w1_def]])
  have r2: "read_holes p (1 + length w1) (length holes) = Inr (holes, 1 + length w1 + length w2)"
    unfolding w2_def by (rule read_holes_write [OF holes(1) d2 [unfolded w2_def]])
  have "length (surfaces_of os) \<le> U64_MAX"
    using remdups_adj_length [of "map (\<lambda>e. ok_surface (fst e)) os"] os(2) by (simp add: surfaces_of_def)
  then have r3: "read_varint REMANENCE p (1 + length w1 + length w2) = Inr (length (surfaces_of os), length w3)"
    unfolding w3_def by (rule read_varint_write [OF _ d3 [unfolded w3_def]])
  have ff: "form_factor_of (form_factor_code ff) = Inr ff" by (cases ff) (simp_all add: form_factor_of_def)
  obtain b where b: "builder_to_sink ff holes decoded_provenance s n = Inr b"
    using holes(3) by (simp add: builder_to_sink_def decoded_provenance_def provenance_note_def provenance_new_def)
  note new = builder_holds_new [OF b s]
  have image_new: "bd_image b = \<lparr>fi_form_factor = ff, fi_holes = holes, fi_orbits = [], fi_provenance = decoded_provenance,
      fi_backing = None, fi_artifact = None\<rparr>"
    using b by (auto simp: builder_to_sink_def split: if_splits)
  have "\<forall>k \<in> set (surfaces_of os). k \<le> U64_MAX \<and> (case None of None \<Rightarrow> True | Some l \<Rightarrow> l < k)"
    using os(1) by (auto simp: surfaces_of_def list_all_iff orbit_kept_def orbit_ok_def orbit_key_ok_def)
  from read_surfaces_write [OF new(1) put os(1,2) _ surfaces_strict [OF os(3)] this d4 [unfolded w4_def]]
  obtain b' m where b': "read_surfaces put p (1 + length w1 + length w2 + length w3) None (length (surfaces_of os)) b =
        Inr (b', 1 + length w1 + length w2 + length w3 + length w4)"
      "builder_holds (max n 1) b' os" "bd_image b' = (bd_image b)\<lparr>fi_orbits := m\<rparr>"
    using os(3) by (auto simp: surfaces_partition [OF os(3)] w4_def)
  have whole: "\<not> 1 + length w1 + length w2 + length w3 + length w4 \<noteq> length p" by (simp add: p)
  have pick: "(case p of [] \<Rightarrow> x | c # _ \<Rightarrow> g c) = g (form_factor_code ff)" for x :: "(flux_image \<times> 's \<times> nat) result" and g
    by (simp add: p)
  have "decode_payload put p s n = builder_seal put b'"
    unfolding decode_payload_def pick ff rbind.simps r1 prod.case r2 r3 b b'(1) if_not_P [OF whole] ..
  then show ?thesis using b'(2,3) image_new unfolding p_def by auto
qed

end

section \<open>The writer\<close>

abbreviation shape_of :: "nat \<Rightarrow> orbit_key \<times> orbit_point list \<Rightarrow> orbit" where
  "shape_of n e \<equiv> orbit_of n (fst e) (snd e)"

lemma orbits_bytes_writes:
  "image_holds n img os \<Longrightarrow> set es \<subseteq> set os \<Longrightarrow>
    \<exists>b. orbits_bytes img (map (shape_of n) es) = (img\<lparr>fi_backing := b\<rparr>, Inr (concat (map orbit_bytes es))) \<and>
      image_holds n (img\<lparr>fi_backing := b\<rparr>) os"
proof (induction es arbitrary: img)
  case Nil
  then show ?case by (auto intro!: exI [of _ "fi_backing img"])
next
  case (Cons e es)
  have "(fst e, snd e) \<in> set os" using Cons.prems(2) by simp
  from image_points_reads [OF Cons.prems(1) this] obtain c where
    c: "image_points img (shape_of n e) = (img\<lparr>fi_backing := Some c\<rparr>, Inr (snd e))"
      "image_holds n (img\<lparr>fi_backing := Some c\<rparr>) os" by blast
  have "set es \<subseteq> set os" using Cons.prems(2) by simp
  from Cons.IH [OF c(2) this] obtain b where
    b: "orbits_bytes (img\<lparr>fi_backing := Some c\<rparr>) (map (shape_of n) es) = (img\<lparr>fi_backing := b\<rparr>, Inr (concat (map orbit_bytes es)))"
      "image_holds n (img\<lparr>fi_backing := b\<rparr>) os" by auto
  have "orbits_bytes img (map (shape_of n) (e # es)) = (img\<lparr>fi_backing := b\<rparr>, Inr (concat (map orbit_bytes (e # es))))"
    by (simp add: c(1) b(1)) (simp add: orbit_bytes_def orbit_of_def)
  then show ?case using b(2) by blast
qed

lemma surfaces_bytes_writes:
  "image_holds n img os \<Longrightarrow>
    \<exists>b. surfaces_bytes img ss = (img\<lparr>fi_backing := b\<rparr>, Inr (concat (map (surface_bytes os) ss))) \<and>
      image_holds n (img\<lparr>fi_backing := b\<rparr>) os"
proof (induction ss arbitrary: img)
  case Nil
  then show ?case by (auto intro!: exI [of _ "fi_backing img"])
next
  case (Cons s ss)
  have orbits: "map snd (fi_orbits img) = map (shape_of n) os"
    using Cons.prems by (simp add: image_holds_def orbits_of_def)
  have held: "filter (\<lambda>ob. ok_surface (ob_key ob) = s) (map snd (fi_orbits img)) = map (shape_of n) (on_surface os s)"
    unfolding orbits on_surface_def filter_map by (simp add: comp_def orbit_of_def)
  have "set (rev (on_surface os s)) \<subseteq> set os" by (auto simp: on_surface_def)
  from orbits_bytes_writes [OF Cons.prems this] obtain b where
    b: "orbits_bytes img (rev (map (shape_of n) (on_surface os s))) =
        (img\<lparr>fi_backing := b\<rparr>, Inr (concat (map orbit_bytes (rev (on_surface os s)))))"
      "image_holds n (img\<lparr>fi_backing := b\<rparr>) os" by (auto simp: rev_map)
  from Cons.IH [OF b(2)] obtain c where
    "surfaces_bytes (img\<lparr>fi_backing := b\<rparr>) ss = (img\<lparr>fi_backing := c\<rparr>, Inr (concat (map (surface_bytes os) ss)))"
      "image_holds n (img\<lparr>fi_backing := c\<rparr>) os" by auto
  then show ?case using b(1) by (auto simp: held surface_bytes_def [of os s])
qed

lemma to_payload_writes:
  assumes "image_holds n img os"
  shows "\<exists>b. to_payload img = (img\<lparr>fi_backing := b\<rparr>, Inr (payload_of (fi_form_factor img) (fi_holes img) os)) \<and>
      image_holds n (img\<lparr>fi_backing := b\<rparr>) os"
proof -
  have surfaces: "remdups_adj (map (\<lambda>ob. ok_surface (ob_key ob)) (map snd (fi_orbits img))) = surfaces_of os"
    using assms by (simp add: image_holds_def orbits_of_def surfaces_of_def comp_def orbit_of_def)
  obtain b where b: "surfaces_bytes img (surfaces_of os) = (img\<lparr>fi_backing := b\<rparr>,
      Inr (concat (map (surface_bytes os) (surfaces_of os))))" "image_holds n (img\<lparr>fi_backing := b\<rparr>) os"
    using surfaces_bytes_writes [OF assms] by blast
  have "to_payload img = (img\<lparr>fi_backing := b\<rparr>, Inr (payload_of (fi_form_factor img) (fi_holes img) os))"
    unfolding to_payload_def surfaces Let_def b(1) prod.case rbind.simps payload_of_def ..
  then show ?thesis using b(2) by blast
qed

section \<open>The round trip\<close>

lemma header_parts:
  "length MAGIC = 23" "HEADER_BYTES = 25" "length (MAGIC @ [SENTINEL, REMANENCE_VERSION] @ z) = 25 + length z"
  "has_signature (MAGIC @ [SENTINEL, REMANENCE_VERSION] @ z)"
  "(MAGIC @ [SENTINEL, REMANENCE_VERSION] @ z) ! length MAGIC = SENTINEL"
  "(MAGIC @ [SENTINEL, REMANENCE_VERSION] @ z) ! (length MAGIC + 1) = REMANENCE_VERSION"
  "drop HEADER_BYTES (MAGIC @ [SENTINEL, REMANENCE_VERSION] @ z) = z"
proof -
  show l: "length MAGIC = 23" by (simp add: MAGIC_def utf8_of_def)
  show "HEADER_BYTES = 25" by (simp add: HEADER_BYTES_def l)
  show "length (MAGIC @ [SENTINEL, REMANENCE_VERSION] @ z) = 25 + length z" by (simp add: l)
  show "has_signature (MAGIC @ [SENTINEL, REMANENCE_VERSION] @ z)" by (simp add: has_signature_def)
  show "(MAGIC @ [SENTINEL, REMANENCE_VERSION] @ z) ! length MAGIC = SENTINEL"
    "(MAGIC @ [SENTINEL, REMANENCE_VERSION] @ z) ! (length MAGIC + 1) = REMANENCE_VERSION"
    by (simp_all add: nth_append)
  show "drop HEADER_BYTES (MAGIC @ [SENTINEL, REMANENCE_VERSION] @ z) = z" by (simp add: HEADER_BYTES_def)
qed

lemma decode_artifact:
  assumes "length payload \<le> DECOMPRESSED_CAP"
  shows "decode_remanence put (MAGIC @ [SENTINEL, REMANENCE_VERSION] @ zlib_compress payload) s n =
    decode_payload put payload s n"
proof -
  define bs where "bs = MAGIC @ [SENTINEL, REMANENCE_VERSION] @ zlib_compress payload"
  note h = header_parts(3-7) [of "zlib_compress payload", folded bs_def]
  have "\<not> length bs < HEADER_BYTES" unfolding h(1) header_parts(2) by simp
  then show ?thesis
    unfolding bs_def [symmetric] decode_remanence_def h(3,4,5) zlib_run [OF assms] using h(2) by simp
qed

text \<open>An image fit for the artifact: holes of 63-bit numerators in order, orbits as a builder keeps them.\<close>

definition image_fits :: "nat \<Rightarrow> flux_image \<Rightarrow> orbit_points \<Rightarrow> bool" where
  "image_fits n img os \<longleftrightarrow> image_holds n img os \<and> list_all hole_ok (fi_holes img) \<and>
     length (fi_holes img) \<le> U64_MAX \<and> holes_ordered (fi_holes img) \<and> length os \<le> U64_MAX \<and>
     length (payload_of (fi_form_factor img) (fi_holes img) os) \<le> DECOMPRESSED_CAP"

lemma artifact_decodes:
  assumes "image_fits n img os"
  shows "\<exists>img1 bs img2. to_bytes img = (img1, Inr bs) \<and> image_holds n img1 os \<and> from_bytes bs = Inr img2 \<and>
    fi_form_factor img2 = fi_form_factor img \<and> fi_holes img2 = fi_holes img \<and>
    fi_orbits img2 = orbits_of CHUNK_RECORDS os \<and> fi_provenance img2 = decoded_provenance \<and>
    (backing_bytes img2 \<le> U64_MAX \<longrightarrow> image_holds CHUNK_RECORDS img2 os)"
proof -
  note fits = assms [unfolded image_fits_def]
  have held: "list_all orbit_kept os" "sorted_wrt (<) (map fst os)"
    using fits by (auto simp: image_holds_def)
  let ?p = "payload_of (fi_form_factor img) (fi_holes img) os"
  obtain c where c: "to_payload img = (img\<lparr>fi_backing := c\<rparr>, Inr ?p)" "image_holds n (img\<lparr>fi_backing := c\<rparr>) os"
    using to_payload_writes fits by blast
  let ?bs = "MAGIC @ [SENTINEL, REMANENCE_VERSION] @ zlib_compress ?p"
  have w: "to_bytes img = (img\<lparr>fi_backing := c\<rparr>, Inr ?bs)" by (simp add: to_bytes_def c(1))
  have put: "\<exists>s'. vec_append s bs = Inr s'" for s bs by (simp add: vec_append_def)
  have "max CHUNK_RECORDS 1 = CHUNK_RECORDS" by (simp add: CHUNK_RECORDS_def)
  with image_in_memory.decode_payload_write [OF put refl, of "fi_holes img" os "fi_form_factor img" CHUNK_RECORDS] fits held
  obtain b m where b: "decode_payload vec_append ?p [] CHUNK_RECORDS = builder_seal vec_append b"
      "image_in_memory.builder_holds CHUNK_RECORDS b os"
      "bd_image b = \<lparr>fi_form_factor = fi_form_factor img, fi_holes = fi_holes img, fi_orbits = m,
        fi_provenance = decoded_provenance, fi_backing = None, fi_artifact = None\<rparr>" by auto
  have m: "fi_orbits (bd_image b) = orbits_of CHUNK_RECORDS os"
    using b(2) by (simp add: image_in_memory.builder_holds_def)
  obtain s len where s: "seal remanence_address vec_append (bd_writer b) = Inr (s, len)"
    using seal_total [of vec_append] put by blast
  then have seal: "builder_seal vec_append b = Inr (bd_image b, s, len)" by (simp add: builder_seal_def)
  let ?img2 = "attach_backing (bd_image b) (memory_source REMANENCE s) len DEFAULT_CACHE_BYTES"
  have d: "decode_remanence vec_append ?bs [] CHUNK_RECORDS = Inr (bd_image b, s, len)"
    using decode_artifact [of ?p vec_append "[]" CHUNK_RECORDS] fits b(1) seal by simp
  have r: "from_bytes ?bs = Inr ?img2" unfolding from_bytes_def d by simp
  have "image_holds CHUNK_RECORDS ?img2 os" if "backing_bytes ?img2 \<le> U64_MAX"
    by (rule image_in_memory.sealed_image_holds(2) [OF b(2) seal _ memory_delivers])
      (use that in \<open>simp add: backing_bytes_def attach_backing_def\<close>)
  moreover have "fi_form_factor ?img2 = fi_form_factor img" "fi_holes ?img2 = fi_holes img"
    "fi_orbits ?img2 = orbits_of CHUNK_RECORDS os" "fi_provenance ?img2 = decoded_provenance"
    using m by (simp_all add: attach_backing_def b(3))
  ultimately show ?thesis using w r c(2) by blast
qed

text \<open>
  C31: an image written as a \<open>.remanence\<close> artifact and read back is the image. Through framing, DEFLATE,
  form factor, hole fractions, surface groups and tagged angle deltas, the decoded image has the form
  factor, the holes and every orbit of the one written, of the same counts; and each orbit's points,
  served through the new backing's index and working set, are the points the written image served,
  sense, angle and widths.
\<close>

theorem remanence_round_trip:
  assumes "image_fits n img os"
  shows "\<exists>img1 bs img2. to_bytes img = (img1, Inr bs) \<and> from_bytes bs = Inr img2 \<and>
    fi_form_factor img2 = fi_form_factor img \<and> fi_holes img2 = fi_holes img \<and>
    fi_orbits img2 = orbits_of CHUNK_RECORDS os \<and>
    list_all (\<lambda>e. snd (image_points img (orbit_of n (fst e) (snd e))) = Inr (snd e)) os \<and>
    (backing_bytes img2 \<le> U64_MAX \<longrightarrow>
      list_all (\<lambda>e. snd (image_points img2 (orbit_of CHUNK_RECORDS (fst e) (snd e))) = Inr (snd e)) os)"
proof -
  have serves: "list_all (\<lambda>e. snd (image_points i (orbit_of m (fst e) (snd e))) = Inr (snd e)) os"
    if "image_holds m i os" for m i
    using image_points_reads [OF that] by (fastforce simp: list_all_iff)
  show ?thesis
    using artifact_decodes [OF assms] serves [OF conjunct1 [OF assms [unfolded image_fits_def]]] serves by blast
qed

subsection \<open>A sample image\<close>

lemma single_leaf_length:
  assumes seal: "seal A put w = Inr (s, len)" and es: "sw_entries w = es" "es \<noteq> []" "length es \<le> sw_leaf_entries w"
    and entries: "length (leaf_bytes A es) \<le> K"
    and root: "length (root_bytes A [(fst (hd es), sw_written w, length (leaf_bytes A es))]) \<le> K"
  shows "len \<le> sw_written w + K + K + 24"
proof -
  have "chunks_of (sw_leaf_entries w) es = [es]"
    using es by (subst chunks_of_step) (auto simp: Suc_le_eq neq_Nil_conv)
  then have "len = sw_written w + length (leaf_bytes A es) +
      length (root_bytes A [(fst (hd es), sw_written w, length (leaf_bytes A es))]) +
      length (footer_bytes (sw_written w + length (leaf_bytes A es))
        (length (root_bytes A [(fst (hd es), sw_written w, length (leaf_bytes A es))])))"
    using seal unfolding seal_def es(1) by (auto simp: Let_def rbind_Inr_iff)
  moreover have "length (footer_bytes a b) = 24" for a b by (simp add: footer_bytes_def)
  ultimately show ?thesis using entries root by simp
qed

definition sample_points :: "orbit_point list" where
  "sample_points =
     [\<lparr>pt_angle = 0, pt_mag = Positive, pt_widths = Some \<lparr>plateau_microns = 330, guard_microns = 432\<rparr>\<rparr>,
      \<lparr>pt_angle = 500, pt_mag = Negative, pt_widths = None\<rparr>]"

definition sample_key :: orbit_key where "sample_key = OrbitKey 0 57150"

definition sample_hole :: hole where
  "sample_hole = \<lparr>center_angle = \<lparr>tf_numerator = 3, tf_denominator = 8\<rparr>,
                  angular_extent = \<lparr>tf_numerator = 1, tf_denominator = 100\<rparr>\<rparr>"

lemma sample_kept: "orbit_kept (sample_key, sample_points)"
  by (simp add: orbit_kept_def orbit_ok_def orbit_key_ok_def sample_key_def sample_points_def point_ok_def widths_ok_def
      ANGULAR_DIVISIONS_def U64_MAX_def validate_orbit_points_def states_widths_def orbit_asserts_def)

lemma sample_hole_ok: "hole_ok sample_hole"
proof -
  have "gcd (3 :: nat) 8 = 1" by code_simp
  then show ?thesis
    by (simp add: hole_ok_def sample_hole_def fraction_ok_def U64_MAX_def hole_new_def greatest_common_divisor_gcd)
qed

lemma varint_length: "v \<le> U64_MAX \<Longrightarrow> length (write_varint v) \<le> 10"
  by (rule length_write_varint) (simp_all add: U64_MAX_def)

lemma remanence_key_length: "remanence_key_ok k \<Longrightarrow> length (write_remanence_key k) \<le> 50"
proof -
  assume ok: "remanence_key_ok k"
  have "length (utf8_of REMANENCE) = 9" by (simp add: utf8_of_def REMANENCE_def)
  moreover have "length (write_varint 9) = 1" by (simp add: small_varint)
  moreover have "length (write_varint (rem_kind_code (rk_kind k))) = 1" by (cases "rk_kind k") (simp_all add: small_varint)
  ultimately show ?thesis
    using varint_length [of "ok_surface (rk_orbit k)"] varint_length [of "ok_radius (rk_orbit k)"]
      varint_length [of "rk_ordinal k"] ok
    by (simp add: write_remanence_key_def remanence_key_ok_def orbit_key_ok_def)
qed

lemma section_append_leaf: "section_append A put w k p = Inr w' \<Longrightarrow> sw_leaf_entries w' = sw_leaf_entries w"
  by (auto simp: section_append_def rbind_Inr_iff split: if_splits)

lemma append_chunks_leaf: "append_chunks put key i runs w = Inr w' \<Longrightarrow> sw_leaf_entries w' = sw_leaf_entries w"
  by (induction put key i runs w rule: append_chunks.induct) (auto simp: rbind_Inr_iff dest: section_append_leaf)

lemma add_orbits_leaf:
  "add_orbits put b es = Inr b' \<Longrightarrow> sw_leaf_entries (bd_writer b') = sw_leaf_entries (bd_writer b)"
proof (induction put b es rule: add_orbits.induct)
  case (2 put b key ps es)
  have "sw_leaf_entries (bd_writer b1) = sw_leaf_entries (bd_writer b)" if "add_orbit put b key ps = Inr (b1, k)" for b1 k
    using that by (auto simp: add_orbit_def Let_def rbind_Inr_iff split: if_splits
        dest!: append_chunks_leaf section_append_leaf)
  then show ?case using 2 by (fastforce simp: rbind_Inr_iff)
qed simp

lemma sample_image_holds:
  "\<exists>img. image_holds 4096 img [(sample_key, sample_points)] \<and> fi_form_factor img = Inch525 \<and> fi_holes img = [sample_hole]"
proof -
  let ?put = "vec_append" and ?os = "[(sample_key, sample_points)]"
  have put: "\<exists>s'. vec_append s bs = Inr s'" for s bs by (simp add: vec_append_def)
  obtain b0 where b0: "builder_to_sink Inch525 [sample_hole] decoded_provenance ([] :: bytes) 4096 = Inr b0"
    by (simp add: builder_to_sink_def decoded_provenance_def provenance_note_def provenance_new_def)
  note new = image_in_memory.builder_holds_new [OF b0 refl]
  have new_holds: "image_in_memory.builder_holds 4096 b0 []" using new(1) by simp
  obtain b m where add: "add_orbits ?put b0 ?os = Inr b" and h: "image_in_memory.builder_holds 4096 b ?os"
    and same: "bd_image b = (bd_image b0)\<lparr>fi_orbits := m\<rparr>"
    using image_in_memory.add_orbits_goes [OF new_holds put, of ?os] sample_kept by auto
  obtain s len where seal: "seal remanence_address ?put (bd_writer b) = Inr (s, len)"
    using seal_total [of ?put] put by blast
  let ?k0 = "RemanenceKey sample_key OrbitMetadata 0" and ?k1 = "RemanenceKey sample_key PointChunk 0"
  let ?m = "orbit_metadata (orbit_of 4096 sample_key sample_points)" and ?c = "encode_point_chunk sample_points"
  have "chunks_of 4096 sample_points = [sample_points]" by (subst chunks_of_step) (simp_all add: sample_points_def)
  then have S: "concat (map (orbit_sections 4096) ?os) = [(?k0, ?m), (?k1, ?c)]"
    and ob: "orbit_of 4096 sample_key sample_points =
      \<lparr>ob_key = sample_key, ob_points = 2, ob_coherent = 2, ob_unaligned = 0, ob_chunks = 1\<rparr>"
    by (simp_all add: orbit_sections_def orbit_of_def) (simp add: sample_points_def)
  have sizes: "length ?m = 5" "length ?c \<le> 28"
    unfolding ob orbit_metadata_def using varint_length [of 330] varint_length [of 432]
    by (simp_all add: METADATA_VERSION_def small_varint encode_point_chunk_def sample_points_def
        point_bytes_def widths_bytes_def U64_MAX_def)
  have keys: "length (write_remanence_key ?k0) \<le> 50" "length (write_remanence_key ?k1) \<le> 50"
    by (rule remanence_key_length, simp add: remanence_key_ok_def orbit_key_ok_def sample_key_def U64_MAX_def)+
  have w: "image_in_memory.store.writer_holds (bd_writer b) [(?k0, ?m), (?k1, ?c)]"
    using h S by (simp add: image_in_memory.builder_holds_def)
  have written: "sw_written (bd_writer b) = length ?m + length ?c"
    and entries: "sw_entries (bd_writer b) = placed 0 [(?k0, ?m), (?k1, ?c)]"
    using w by (simp_all add: image_in_memory.store.writer_holds_def)
  have leaf: "sw_leaf_entries (bd_writer b) = 64"
    using add_orbits_leaf [OF add] new(6) by (simp add: to_sink_def LEAF_ENTRIES_def)
  let ?e = "placed 0 [(?k0, ?m), (?k1, ?c)]"
  have one_leaf: "length (leaf_bytes remanence_address ?e) \<le> 200"
    using keys sizes check_length [of "crc32 ?m"] check_length [of "crc32 ?c"] varint_length [of "length ?c"]
    by (simp add: leaf_bytes_def leaf_entry_bytes_def remanence_address_def small_varint U64_MAX_def)
  have one_root: "length (root_bytes remanence_address
      [(fst (hd ?e), sw_written (bd_writer b), length (leaf_bytes remanence_address ?e))]) \<le> 200"
    using keys sizes one_leaf varint_length [of "length ?m + length ?c"]
      varint_length [of "length (leaf_bytes remanence_address ?e)"]
    by (simp add: root_bytes_def root_entry_bytes_def remanence_address_def small_varint U64_MAX_def written)
  have "len \<le> sw_written (bd_writer b) + 200 + 200 + 24"
    by (rule single_leaf_length [OF seal entries _ _ one_leaf one_root]) (simp_all add: leaf)
  then have len: "len \<le> U64_MAX" using written sizes by (simp add: U64_MAX_def)
  have sealed: "builder_seal ?put b = Inr (bd_image b, s, len)" by (simp add: builder_seal_def seal)
  let ?img = "attach_backing (bd_image b) (memory_source REMANENCE s) len 0"
  have "image_holds 4096 ?img ?os"
    by (rule image_in_memory.sealed_image_holds(2) [OF h sealed len memory_delivers])
  moreover have "fi_form_factor ?img = Inch525" "fi_holes ?img = [sample_hole]"
    using new(2,3) by (simp_all add: attach_backing_def same)
  ultimately show ?thesis by blast
qed

lemma sample_fits: "\<exists>img. image_fits 4096 img [(sample_key, sample_points)]"
proof -
  obtain img where img: "image_holds 4096 img [(sample_key, sample_points)]" "fi_form_factor img = Inch525"
    "fi_holes img = [sample_hole]" using sample_image_holds by blast
  have surfaces: "surfaces_of [(sample_key, sample_points)] = [0]"
    "on_surface [(sample_key, sample_points)] 0 = [(sample_key, sample_points)]"
    by (simp_all add: surfaces_of_def on_surface_def sample_key_def)
  have signed: "write_signed (word_of_nat n) = write_varint (2 * n)" if "n < 2 ^ 63" for n
    unfolding write_signed_def signed_half(1) [OF that] ..
  have hole: "length (hole_bytes sample_hole) \<le> 40"
    using varint_length [of 6] varint_length [of 8] varint_length [of 2] varint_length [of 100]
      signed [of 3] signed [of 1]
    by (simp add: hole_bytes_def sample_hole_def U64_MAX_def)
  have point: "length (points_bytes 0 None sample_points) \<le> 100"
    using varint_length [of 3] varint_length [of 2000] varint_length [of 330] varint_length [of 432]
    by (simp add: sample_points_def derivable_def states_widths_def widths_bytes_def U64_MAX_def push_bit_eq_mult)
  have parts: "ok_radius sample_key = 57150" "length sample_points = 2"
    by (simp_all add: sample_key_def sample_points_def)
  have "length (payload_of Inch525 [sample_hole] [(sample_key, sample_points)]) \<le> 1000"
    using hole point varint_length [of 57150] parts
    by (simp add: payload_of_def surfaces surface_bytes_def orbit_bytes_def small_varint U64_MAX_def)
  then show ?thesis
    using img sample_hole_ok by (auto simp: image_fits_def DECOMPRESSED_CAP_def U64_MAX_def)
qed

lemma remanence_round_trip_witness:
  "\<exists>img img1 bs img2. fi_form_factor img2 = fi_form_factor img \<and> to_bytes img = (img1, Inr bs) \<and>
    from_bytes bs = Inr img2 \<and> fi_holes img2 = fi_holes img \<and>
    fi_orbits img2 = [(sample_key, \<lparr>ob_key = sample_key, ob_points = 2, ob_coherent = 2, ob_unaligned = 0, ob_chunks = 1\<rparr>)]"
proof -
  obtain img where "image_fits 4096 img [(sample_key, sample_points)]" using sample_fits by blast
  from remanence_round_trip [OF this] obtain img1 bs img2 where
    "to_bytes img = (img1, Inr bs)" "from_bytes bs = Inr img2" "fi_form_factor img2 = fi_form_factor img"
    "fi_holes img2 = fi_holes img" "fi_orbits img2 = orbits_of CHUNK_RECORDS [(sample_key, sample_points)]" by blast
  moreover have "chunks_of 4096 sample_points = [sample_points]" by (subst chunks_of_step) (simp_all add: sample_points_def)
  then have "orbits_of CHUNK_RECORDS [(sample_key, sample_points)] =
      [(sample_key, \<lparr>ob_key = sample_key, ob_points = 2, ob_coherent = 2, ob_unaligned = 0, ob_chunks = 1\<rparr>)]"
    by (simp add: orbits_of_def orbit_of_def CHUNK_RECORDS_def) (simp add: sample_points_def)
  ultimately show ?thesis by metis
qed

end
