(* ===== verification/Imd.thy ===== *)
theory Imd
  imports Device "HOL-Library.Product_Lexorder"
begin

text \<open>
  The ImageDisk reader (\<open>src/crates/remanence/src/image/imd.rs\<close>): track records whose sectors stand in
  physical order under a map of stated ids, laid out in cylinder, head and id order, with the extents of
  sectors never recovered held as holes that a read is refused on. The header's comment and the prose of
  the account are left out; what the account counts is kept.
\<close>

unbundle bit_operations_syntax

definition IMD_MAGIC :: bytes where "IMD_MAGIC = map of_char ''IMD ''"
definition HEADER_END :: u8 where "HEADER_END = 0x1a"
definition IMD_BOUND :: nat where "IMD_BOUND = 8 * 1024 * 1024"

definition imd_refuse :: error where "imd_refuse = invalid_image ''imd''"

definition mode_known :: "u8 \<Rightarrow> bool" where "mode_known m \<longleftrightarrow> m \<le> 5"

record disk_descriptor =
  dd_sector_size :: nat
  dd_cylinders :: nat
  dd_sides :: nat
  dd_sectors_per_track :: nat

definition expected_size :: "disk_descriptor \<Rightarrow> nat" where
  "expected_size d = dd_sector_size d * dd_cylinders d * dd_sides d * dd_sectors_per_track d"

section \<open>Records\<close>

record record_kind =
  unavailable :: bool
  compressed :: bool
  deleted :: bool
  errored :: bool

definition kind_read :: "u8 \<Rightarrow> record_kind result" where
  "kind_read b =
     (if b > 8 then Inl imd_refuse
      else if b = 0 then
        Inr \<lparr>unavailable = True, compressed = False, deleted = False, errored = False\<rparr>
      else let at = b - 1 in
        Inr \<lparr>unavailable = False, compressed = (at mod 2 = 1), deleted = (at div 2 mod 2 = 1),
             errored = (at \<ge> 4)\<rparr>)"

record imd_track =
  it_mode :: u8
  it_cylinder :: u8
  it_head :: u8
  it_sector_bytes :: nat
  it_ids :: "u8 list"
  it_records :: "(record_kind \<times> bytes) list"

definition need :: "bytes \<Rightarrow> nat \<Rightarrow> nat \<Rightarrow> unit result" where
  "need bs at n = (if at + n > length bs then Inl imd_refuse else Inr ())"

text \<open>An optional map of the track's sectors, every entry of which must say the same; where it ends.\<close>

definition read_map :: "bytes \<Rightarrow> nat \<Rightarrow> bool \<Rightarrow> nat \<Rightarrow> u8 \<Rightarrow> nat result" where
  "read_map bs at present sectors stated =
     (if \<not> present then Inr at
      else rbind (need bs at sectors) (\<lambda>_.
        if list_ex (\<lambda>b. b \<noteq> stated) (slice at sectors bs) then Inl imd_refuse else Inr (at + sectors)))"

fun read_records :: "bytes \<Rightarrow> nat \<Rightarrow> nat \<Rightarrow> nat \<Rightarrow> ((record_kind \<times> bytes) list \<times> nat) result" where
  "read_records bs at sz 0 = Inr ([], at)"
| "read_records bs at sz (Suc n) =
     rbind (need bs at 1) (\<lambda>_.
     rbind (kind_read (bs ! at)) (\<lambda>k.
     if unavailable k then
       rbind (read_records bs (at + 1) sz n) (\<lambda>(rs, at1). Inr ((k, []) # rs, at1))
     else if compressed k then
       rbind (need bs (at + 1) 1) (\<lambda>_.
       rbind (read_records bs (at + 2) sz n) (\<lambda>(rs, at1). Inr ((k, replicate sz (bs ! (at + 1))) # rs, at1)))
     else
       rbind (need bs (at + 1) sz) (\<lambda>_.
       rbind (read_records bs (at + 1 + sz) sz n) (\<lambda>(rs, at1). Inr ((k, slice (at + 1) sz bs) # rs, at1)))))"

definition read_track :: "bytes \<Rightarrow> nat \<Rightarrow> (imd_track \<times> nat) result" where
  "read_track bs at =
     rbind (need bs at 5) (\<lambda>_.
     let m = bs ! at; cylinder = bs ! (at + 1); head_byte = bs ! (at + 2);
         sectors = unat (bs ! (at + 3)); size_code = bs ! (at + 4); at0 = at + 5 in
     if \<not> mode_known m then Inl imd_refuse
     else if size_code > 6 then Inl imd_refuse
     else
     let sector_bytes = 128 * 2 ^ unat size_code in
     if sectors = 0 then Inl imd_refuse
     else
     rbind (need bs at0 sectors) (\<lambda>_.
     let ids = slice at0 sectors bs; head = head_byte AND 0x3f in
     rbind (read_map bs (at0 + sectors) (head_byte AND 0x80 \<noteq> 0) sectors cylinder) (\<lambda>at1.
     rbind (read_map bs at1 (head_byte AND 0x40 \<noteq> 0) sectors head) (\<lambda>at2.
     if \<not> distinct ids then Inl imd_refuse
     else
     rbind (read_records bs at2 sector_bytes sectors) (\<lambda>(records, at3).
       Inr (\<lparr>it_mode = m, it_cylinder = cylinder, it_head = head, it_sector_bytes = sector_bytes,
             it_ids = ids, it_records = records\<rparr>, at3))))))"

lemma need_ok [simp]: "need bs at n = Inr u \<longleftrightarrow> at + n \<le> length bs"
  by (auto simp: need_def)

lemma read_map_at: "read_map bs at p n s = Inr at1 \<Longrightarrow> at \<le> at1"
  by (auto simp: read_map_def rbind_Inr_iff split: if_splits)

lemma read_records_at: "read_records bs at sz n = Inr (rs, at1) \<Longrightarrow> at \<le> at1"
proof (induction n arbitrary: "at" rs)
  case (Suc n)
  then show ?case by (fastforce simp: rbind_Inr_iff split: if_splits)
qed simp

lemma read_track_at:
  assumes "read_track bs at = Inr (t, at1)"
  shows "at < at1"
  using assms by (fastforce simp: read_track_def Let_def rbind_Inr_iff split: if_splits
      dest!: read_map_at read_records_at)

text \<open>The track records from the end of the header to the end of the artifact.\<close>

function read_tracks :: "bytes \<Rightarrow> nat \<Rightarrow> imd_track list result" where
  "read_tracks bs at =
     (if at \<ge> length bs then Inr []
      else rbind (read_track bs at) (\<lambda>(t, at1).
           rbind (read_tracks bs at1) (\<lambda>ts. Inr (t # ts))))"
  by pat_completeness auto
termination
  by (relation "measure (\<lambda>(bs, at). length bs - at)") (auto dest: read_track_at)

declare read_tracks.simps [simp del]

section \<open>The layout\<close>

record imd_tally =
  tally_unavailable :: nat
  tally_deleted :: nat
  tally_errored :: nat
  tally_compressed :: nat

record imd_content =
  ic_data :: bytes
  ic_holes :: "(nat \<times> nat) list"
  ic_geometry :: "disk_descriptor option"
  ic_tally :: imd_tally

definition slot_order :: "imd_track \<Rightarrow> nat list" where
  "slot_order t = sort_key (\<lambda>slot. it_ids t ! slot) [0..<length (it_ids t)]"

definition lay_sector ::
  "imd_track \<Rightarrow> bytes \<times> (nat \<times> nat) list \<times> imd_tally \<Rightarrow> nat \<Rightarrow> bytes \<times> (nat \<times> nat) list \<times> imd_tally" where
  "lay_sector t = (\<lambda>(d, holes, n) slot.
     let (k, payload) = it_records t ! slot; start = length d;
         n1 = n\<lparr>tally_deleted := tally_deleted n + of_bool (deleted k),
               tally_errored := tally_errored n + of_bool (errored k),
               tally_compressed := tally_compressed n + of_bool (compressed k)\<rparr>
     in if unavailable k then
          (d @ replicate (it_sector_bytes t) 0, holes @ [(start, start + it_sector_bytes t)],
           n1\<lparr>tally_unavailable := tally_unavailable n + 1\<rparr>)
        else (d @ payload, holes, n1))"

definition lay_track ::
  "bytes \<times> (nat \<times> nat) list \<times> imd_tally \<Rightarrow> imd_track \<Rightarrow> bytes \<times> (nat \<times> nat) list \<times> imd_tally" where
  "lay_track s t = foldl (lay_sector t) s (slot_order t)"

definition track_order :: "imd_track list \<Rightarrow> imd_track list" where
  "track_order ts = sort_key (\<lambda>t. (it_cylinder t, it_head t)) ts"

definition uniform_geometry :: "imd_track list \<Rightarrow> disk_descriptor option" where
  "uniform_geometry ts =
     (case ts of
        [] \<Rightarrow> None
      | first # _ \<Rightarrow>
          let sectors = length (it_ids first); sz = it_sector_bytes first in
          if list_ex (\<lambda>t. length (it_ids t) \<noteq> sectors \<or> it_sector_bytes t \<noteq> sz) ts then None
          else
          let heads = remdups_adj (sort (map it_head ts)); cylinders = remdups_adj (sort (map it_cylinder ts)) in
          if length cylinders * length heads \<noteq> length ts then None
          else Some \<lparr>dd_sector_size = sz, dd_cylinders = length cylinders, dd_sides = length heads,
                     dd_sectors_per_track = sectors\<rparr>)"

definition assemble_imd :: "imd_track list \<Rightarrow> imd_content" where
  "assemble_imd ts =
     (let sorted_ts = track_order ts;
          (d, holes, n) = foldl lay_track ([], [],
             \<lparr>tally_unavailable = 0, tally_deleted = 0, tally_errored = 0, tally_compressed = 0\<rparr>) sorted_ts
      in \<lparr>ic_data = d, ic_holes = holes, ic_geometry = uniform_geometry sorted_ts, ic_tally = n\<rparr>)"

fun header_end_from :: "bytes \<Rightarrow> nat option" where
  "header_end_from [] = None"
| "header_end_from (b # bs) = (if b = HEADER_END then Some 0 else map_option Suc (header_end_from bs))"

definition imd_decode :: "bytes \<Rightarrow> imd_content result" where
  "imd_decode bs =
     (if take (length IMD_MAGIC) bs \<noteq> IMD_MAGIC then Inl imd_refuse
      else case header_end_from bs of
        None \<Rightarrow> Inl imd_refuse
      | Some header_end \<Rightarrow>
          rbind (read_tracks bs (header_end + 1)) (\<lambda>ts.
            if ts = [] then Inl imd_refuse else Inr (assemble_imd ts)))"

section \<open>Serving the extent\<close>

record imd_extent =
  ie_data :: bytes
  ie_holes :: "(nat \<times> nat) list"

definition extent_new :: "imd_content \<Rightarrow> imd_extent" where
  "extent_new c = \<lparr>ie_data = ic_data c, ie_holes = ic_holes c\<rparr>"

definition extent_check :: "imd_extent \<Rightarrow> nat \<Rightarrow> nat \<Rightarrow> unit result" where
  "extent_check e offset n =
     (let stop = min (offset + n) (2 ^ 64 - 1)
      in if list_ex (\<lambda>(a, b). offset < b \<and> a < stop) (ie_holes e)
         then Inl (categorized_image Unavailable ''imd'') else Inr ())"

definition extent_bound :: "nat \<Rightarrow> unit result" where
  "extent_bound n = (if n > IMD_BOUND then Inl (categorized_image Unsupported ''imd'') else Inr ())"

definition extent_len :: "imd_extent \<Rightarrow> nat" where
  "extent_len e = length (ie_data e)"

definition extent_read_at :: "imd_extent \<Rightarrow> nat \<Rightarrow> nat \<Rightarrow> bytes result" where
  "extent_read_at e offset n =
     rbind (extent_check e offset n) (\<lambda>_.
       if offset + n \<le> length (ie_data e) then Inr (slice offset n (ie_data e))
       else Inl (categorized_image Unavailable ''imd''))"

definition extent_write_at :: "imd_extent \<Rightarrow> nat \<Rightarrow> bytes \<Rightarrow> unit result" where
  "extent_write_at e offset bs = Inl (categorized_image Unsupported ''imd'')"

end
