(* ===== verification/Imd_Proofs.thy ===== *)
theory Imd_Proofs
  imports Imd
begin

text \<open>
  What the ImageDisk reader promises: a sector is served at the place its stated identity gives it, a
  sector the artifact never held is refused and no other is, and a declared geometry covers exactly the
  data.
\<close>

unbundle bit_operations_syntax

section \<open>Tracks as read\<close>

definition record_ok :: "nat \<Rightarrow> record_kind \<times> bytes \<Rightarrow> bool" where
  "record_ok n r \<longleftrightarrow> unavailable (fst r) \<or> length (snd r) = n"

definition track_ok :: "imd_track \<Rightarrow> bool" where
  "track_ok t \<longleftrightarrow> distinct (it_ids t) \<and> it_ids t \<noteq> [] \<and> length (it_records t) = length (it_ids t) \<and>
     0 < it_sector_bytes t \<and> list_all (record_ok (it_sector_bytes t)) (it_records t)"

lemma read_records_ok:
  "read_records bs at sz n = Inr (rs, at1) \<Longrightarrow> length rs = n \<and> list_all (record_ok sz) rs"
proof (induction n arbitrary: "at" rs)
  case (Suc n)
  obtain k where k: "at + 1 \<le> length bs" "kind_read (bs ! at) = Inr k"
    using Suc.prems by (auto simp: rbind_Inr_iff)
  consider "unavailable k" | "\<not> unavailable k" "compressed k" | "\<not> unavailable k" "\<not> compressed k" by blast
  then obtain r rs1 at2 where "rs = r # rs1" "record_ok sz r" "read_records bs at2 sz n = Inr (rs1, at1)"
    using Suc.prems k by cases (auto simp: rbind_Inr_iff record_ok_def)
  then show ?case using Suc.IH by auto
qed simp

lemma read_track_ok:
  assumes "read_track bs at = Inr (t, at1)"
  shows "track_ok t"
proof -
  obtain sectors at2 records where
    "t = \<lparr>it_mode = bs ! at, it_cylinder = bs ! (at + 1), it_head = bs ! (at + 2) AND 0x3f,
      it_sector_bytes = 128 * 2 ^ unat (bs ! (at + 4)), it_ids = slice (at + 5) sectors bs, it_records = records\<rparr>"
    "sectors \<noteq> 0" "at + 5 + sectors \<le> length bs" "distinct (slice (at + 5) sectors bs)"
    "read_records bs at2 (128 * 2 ^ unat (bs ! (at + 4))) sectors = Inr (records, at1)"
    using assms by (auto simp: read_track_def Let_def rbind_Inr_iff split: if_splits)
  moreover from this have "length (slice (at + 5) sectors bs) = sectors" by simp
  ultimately show ?thesis using read_records_ok [of bs at2 "128 * 2 ^ unat (bs ! (at + 4))" sectors records at1]
    by (auto simp: track_ok_def simp del: length_slice)
qed

lemma read_tracks_ok: "read_tracks bs at = Inr ts \<Longrightarrow> list_all track_ok ts"
proof (induction bs "at" arbitrary: ts rule: read_tracks.induct)
  case (1 bs "at")
  show ?case
  proof (cases "at \<ge> length bs")
    case True
    then show ?thesis using 1(2) by (subst (asm) read_tracks.simps) simp
  next
    case False
    then obtain t at1 us where t: "read_track bs at = Inr (t, at1)" "read_tracks bs at1 = Inr us" "ts = t # us"
      using 1(2) by (subst (asm) read_tracks.simps) (auto simp: rbind_Inr_iff)
    then show ?thesis using 1(1) [OF False t(1) refl t(2)] read_track_ok [OF t(1)] by simp
  qed
qed

section \<open>Sectors in identity order\<close>

lemma slot_order_ids: "distinct (it_ids t) \<Longrightarrow> map (\<lambda>s. it_ids t ! s) (slot_order t) = sort (it_ids t)"
proof (rule sorted_distinct_set_unique)
  assume d: "distinct (it_ids t)"
  let ?f = "\<lambda>s. it_ids t ! s" and ?n = "length (it_ids t)"
  show "sorted (map ?f (slot_order t))" by (simp add: slot_order_def)
  have "inj_on ?f {0..<?n}" using d by (auto simp: inj_on_def nth_eq_iff_index_eq)
  then show "distinct (map ?f (slot_order t))" by (simp add: slot_order_def distinct_map)
  show "set (map ?f (slot_order t)) = set (sort (it_ids t))"
  proof -
    have "set (map ?f (slot_order t)) = set (map ?f [0..<?n])" by (simp add: slot_order_def)
    also have "\<dots> = set (it_ids t)" unfolding map_nth ..
    finally show ?thesis by simp
  qed
qed auto

definition rank :: "'a::linorder set \<Rightarrow> 'a \<Rightarrow> nat" where
  "rank X x = card {y \<in> X. y < x}"

lemma rank_nth:
  assumes "sorted xs" "distinct xs" "r < length xs"
  shows "rank (set xs) (xs ! r) = r"
proof -
  have mono: "xs ! i < xs ! j" if "i < j" "j < length xs" for i j
    using assms(1,2) that strict_sorted_iff [of xs] sorted_wrt_nth_less [of "(<)" xs] by blast
  have "{y \<in> set xs. y < xs ! r} = set (take r xs)"
  proof (intro set_eqI iffI)
    fix y assume "y \<in> {y \<in> set xs. y < xs ! r}"
    then obtain i where i: "i < length xs" "y = xs ! i" "xs ! i < xs ! r" by (auto simp: in_set_conv_nth)
    then have "i < r" using mono [of r i] assms(3) by (metis linorder_neqE_nat order.asym order.irrefl)
    then show "y \<in> set (take r xs)" using i assms(3) by (auto simp: in_set_conv_nth)
  next
    fix y assume "y \<in> set (take r xs)"
    then obtain i where "i < r" "y = xs ! i" using assms(3) by (auto simp: in_set_conv_nth)
    then show "y \<in> {y \<in> set xs. y < xs ! r}" using mono [of i r] assms(3) by auto
  qed
  then show ?thesis using assms distinct_card [of "take r xs"] by (simp add: rank_def)
qed

lemma slot_rank:
  assumes "track_ok t" "slot < length (it_ids t)"
  defines "r \<equiv> rank (set (it_ids t)) (it_ids t ! slot)"
  shows "r < length (it_ids t)" "slot_order t ! r = slot"
proof -
  let ?ids = "it_ids t" and ?xs = "sort (it_ids t)"
  have d: "distinct ?ids" using assms(1) by (simp add: track_ok_def)
  obtain q where q: "q < length ?xs" "?xs ! q = ?ids ! slot"
    using assms(2) by (metis in_set_conv_nth nth_mem set_sort)
  have "r = q" using rank_nth [of ?xs q] d q by (simp add: r_def)
  then show r: "r < length ?ids" using q(1) by simp
  have len: "length (slot_order t) = length ?ids" by (simp add: slot_order_def)
  have "?ids ! (slot_order t ! r) = ?ids ! slot"
    using arg_cong [OF slot_order_ids [OF d], of "\<lambda>l. l ! r"] r q \<open>r = q\<close> len by simp
  moreover have "slot_order t ! r \<in> set (slot_order t)" using r len by simp
  then have "slot_order t ! r < length ?ids" by (simp add: slot_order_def)
  ultimately show "slot_order t ! r = slot" using d assms(2) by (simp add: nth_eq_iff_index_eq)
qed

section \<open>The extent laid\<close>

definition sector_content :: "imd_track \<Rightarrow> nat \<Rightarrow> bytes" where
  "sector_content t slot =
     (if unavailable (fst (it_records t ! slot)) then replicate (it_sector_bytes t) 0 else snd (it_records t ! slot))"

definition track_bytes :: "imd_track \<Rightarrow> bytes" where
  "track_bytes t = concat (map (sector_content t) (slot_order t))"

definition track_size :: "imd_track \<Rightarrow> nat" where
  "track_size t = length (it_ids t) * it_sector_bytes t"

text \<open>The holes of a track laid at a place.\<close>

definition track_holes :: "nat \<Rightarrow> imd_track \<Rightarrow> (nat \<times> nat) set" where
  "track_holes start t =
     {(start + r * it_sector_bytes t, start + r * it_sector_bytes t + it_sector_bytes t) | r.
       r < length (it_ids t) \<and> unavailable (fst (it_records t ! (slot_order t ! r)))}"

lemma content_length:
  assumes "track_ok t" "slot < length (it_ids t)"
  shows "length (sector_content t slot) = it_sector_bytes t"
  using assms by (auto simp: sector_content_def track_ok_def list_all_length record_ok_def)

lemma contents_length:
  assumes "track_ok t" "set o' \<subseteq> {0..<length (it_ids t)}"
  shows "length (concat (map (sector_content t) o')) = length o' * it_sector_bytes t"
  using assms(2) by (induction o') (auto simp: content_length [OF assms(1)])

lemma slots_in: "set (slot_order t) = {0..<length (it_ids t)}" "length (slot_order t) = length (it_ids t)"
  by (simp_all add: slot_order_def)

lemma track_bytes_length: "track_ok t \<Longrightarrow> length (track_bytes t) = track_size t"
  using contents_length [of t "slot_order t"] by (simp add: track_bytes_def track_size_def slots_in)

lemma lay_sectors:
  assumes ok: "track_ok t"
  shows "set o' \<subseteq> {0..<length (it_ids t)} \<Longrightarrow>
    fst (foldl (lay_sector t) (d, h, n) o') = d @ concat (map (sector_content t) o') \<and>
    set (fst (snd (foldl (lay_sector t) (d, h, n) o'))) = set h \<union>
      {(length d + r * it_sector_bytes t, length d + r * it_sector_bytes t + it_sector_bytes t) | r.
        r < length o' \<and> unavailable (fst (it_records t ! (o' ! r)))}"
proof (induction o' arbitrary: d h n)
  case (Cons s o')
  let ?z = "it_sector_bytes t" and ?u = "\<lambda>s. unavailable (fst (it_records t ! s))"
  obtain d1 h1 n1 where l: "lay_sector t (d, h, n) s = (d1, h1, n1)" by (metis prod_cases3)
  have d1: "d1 = d @ sector_content t s" "h1 = h @ (if ?u s then [(length d, length d + ?z)] else [])"
    using l by (auto simp: lay_sector_def sector_content_def Let_def split: prod.splits if_splits)
  have len: "length d1 = length d + ?z" using content_length [OF ok, of s] Cons.prems by (simp add: d1)
  have shift: "{(length d + r * ?z, length d + r * ?z + ?z) | r. r < length (s # o') \<and> ?u ((s # o') ! r)} =
      (if ?u s then {(length d, length d + ?z)} else {}) \<union>
      {(length d1 + r * ?z, length d1 + r * ?z + ?z) | r. r < length o' \<and> ?u (o' ! r)}" (is "?L = ?R")
  proof (intro set_eqI iffI)
    fix x assume "x \<in> ?L"
    then obtain r where "x = (length d + r * ?z, length d + r * ?z + ?z)" "r < length (s # o')" "?u ((s # o') ! r)" by blast
    then show "x \<in> ?R" by (cases r) (auto simp: len add.assoc)
  next
    fix x assume x: "x \<in> ?R"
    show "x \<in> ?L"
    proof (cases "x \<in> (if ?u s then {(length d, length d + ?z)} else {})")
      case True
      then show ?thesis by (auto split: if_splits intro!: exI [of _ 0])
    next
      case False
      then obtain r where "x = (length d1 + r * ?z, length d1 + r * ?z + ?z)" "r < length o'" "?u (o' ! r)" using x by blast
      then show ?thesis by (auto simp: len intro!: exI [of _ "Suc r"])
    qed
  qed
  have "set o' \<subseteq> {0..<length (it_ids t)}" using Cons.prems by simp
  from Cons.IH [OF this, of d1 h1 n1] show ?case unfolding shift using l by (auto simp: d1)
qed simp

lemma lay_track_lays:
  assumes "track_ok t"
  shows "fst (lay_track (d, h, n) t) = d @ track_bytes t \<and>
    set (fst (snd (lay_track (d, h, n) t))) = set h \<union> track_holes (length d) t"
  using lay_sectors [OF assms, of "slot_order t" d h n] slots_in [of t]
  by (simp add: lay_track_def track_bytes_def track_holes_def)

definition base_of :: "imd_track list \<Rightarrow> nat \<Rightarrow> nat" where
  "base_of ts k = sum_list (map track_size (take k ts))"

lemma base_of_Cons [simp]: "base_of (t # ts) (Suc k) = track_size t + base_of ts k" "base_of ts 0 = 0"
  by (simp_all add: base_of_def)

lemma lay_tracks_lay:
  "list_all track_ok ts \<Longrightarrow>
    fst (foldl lay_track (d, h, n) ts) = d @ concat (map track_bytes ts) \<and>
    set (fst (snd (foldl lay_track (d, h, n) ts))) = set h \<union>
      (\<Union>k < length ts. track_holes (length d + base_of ts k) (ts ! k))"
proof (induction ts arbitrary: d h n)
  case (Cons t ts)
  obtain d1 h1 n1 where l: "lay_track (d, h, n) t = (d1, h1, n1)" by (metis prod_cases3)
  have ok: "track_ok t" "list_all track_ok ts" using Cons.prems by simp_all
  have d1: "d1 = d @ track_bytes t" "set h1 = set h \<union> track_holes (length d) t"
    using lay_track_lays [OF ok(1), of d h n] l by simp_all
  have "(\<Union>k < length (t # ts). track_holes (length d + base_of (t # ts) k) ((t # ts) ! k)) =
      track_holes (length d) t \<union> (\<Union>k < length ts. track_holes (length d1 + base_of ts k) (ts ! k))"
    by (simp add: lessThan_Suc_eq_insert_0 image_image d1 track_bytes_length [OF ok(1)] add.assoc)
  then show ?case using Cons.IH [OF ok(2), of d1 h1 n1] l d1 by auto
qed simp

lemma assembled:
  assumes "list_all track_ok ts"
  defines "us \<equiv> track_order ts"
  shows "ic_data (assemble_imd ts) = concat (map track_bytes us)"
    "set (ic_holes (assemble_imd ts)) = (\<Union>k < length us. track_holes (base_of us k) (us ! k))"
    "ic_geometry (assemble_imd ts) = uniform_geometry us" "list_all track_ok us" "length us = length ts"
proof -
  show ok: "list_all track_ok us" using assms(1) by (simp add: us_def track_order_def list_all_iff)
  show "length us = length ts" by (simp add: us_def track_order_def)
  define z where "z = \<lparr>tally_unavailable = 0, tally_deleted = 0, tally_errored = 0, tally_compressed = 0\<rparr>"
  obtain d h n where l: "foldl lay_track ([], [], z) us = (d, h, n)" by (metis prod_cases3)
  have a: "assemble_imd ts = \<lparr>ic_data = d, ic_holes = h, ic_geometry = uniform_geometry us, ic_tally = n\<rparr>"
    using l by (simp add: assemble_imd_def us_def z_def Let_def)
  show "ic_data (assemble_imd ts) = concat (map track_bytes us)"
    "set (ic_holes (assemble_imd ts)) = (\<Union>k < length us. track_holes (base_of us k) (us ! k))"
    "ic_geometry (assemble_imd ts) = uniform_geometry us"
    using lay_tracks_lay [OF ok, of "[]" "[]" z] l unfolding a by simp_all
qed

lemma base_of_step: "k < length ts \<Longrightarrow> base_of ts (Suc k) = base_of ts k + track_size (ts ! k)"
  by (simp add: base_of_def take_Suc_conv_app_nth)

lemma base_of_mono: "j \<le> k \<Longrightarrow> base_of ts j \<le> base_of ts k"
proof -
  have "base_of ts n \<le> base_of ts (Suc n)" for n
    by (cases "n < length ts") (simp_all add: base_of_step, simp add: base_of_def)
  then show "j \<le> k \<Longrightarrow> base_of ts j \<le> base_of ts k" by (rule lift_Suc_mono_le)
qed

lemma concat_at:
  assumes "list_all track_ok ts" "k < length ts"
  shows "\<exists>pre post. concat (map track_bytes ts) = pre @ track_bytes (ts ! k) @ post \<and> length pre = base_of ts k"
proof (intro exI conjI)
  show "concat (map track_bytes ts) = concat (map track_bytes (take k ts)) @ track_bytes (ts ! k) @
      concat (map track_bytes (drop (Suc k) ts))"
    by (subst id_take_nth_drop [OF assms(2)]) simp
  have "\<forall>t \<in> set (take k ts). length (track_bytes t) = track_size t"
    using assms(1) set_take_subset [of k ts] track_bytes_length by (auto simp: list_all_iff)
  then show "length (concat (map track_bytes (take k ts))) = base_of ts k"
    by (simp add: base_of_def length_concat comp_def cong: map_cong)
qed

lemma track_at:
  assumes "track_ok t" "r < length (it_ids t)"
  shows "slice (r * it_sector_bytes t) (it_sector_bytes t) (track_bytes t) = sector_content t (slot_order t ! r)"
proof -
  let ?o = "slot_order t"
  have r: "r < length ?o" using assms(2) slots_in by simp
  have "track_bytes t = concat (map (sector_content t) (take r ?o)) @ sector_content t (?o ! r) @
      concat (map (sector_content t) (drop (Suc r) ?o))"
    unfolding track_bytes_def by (subst id_take_nth_drop [OF r]) simp
  moreover have "set (take r ?o) \<subseteq> {0..<length (it_ids t)}" using slots_in set_take_subset by metis
  then have "length (concat (map (sector_content t) (take r ?o))) = r * it_sector_bytes t"
    using contents_length [OF assms(1)] r by simp
  moreover have "?o ! r < length (it_ids t)" using nth_mem [OF r] slots_in by auto
  then have "length (sector_content t (?o ! r)) = it_sector_bytes t" by (rule content_length [OF assms(1)])
  ultimately show ?thesis by (simp add: slice_def)
qed

text \<open>A sector's place and a hole meet exactly where they are one.\<close>

lemma holes_meet:
  assumes "k < length us" "r < length (it_ids (us ! k))" "j < length us" "q < length (it_ids (us ! j))"
    and "base_of us k + r * it_sector_bytes (us ! k) < base_of us j + q * it_sector_bytes (us ! j) + it_sector_bytes (us ! j)"
    and "base_of us j + q * it_sector_bytes (us ! j) < base_of us k + r * it_sector_bytes (us ! k) + it_sector_bytes (us ! k)"
  shows "j = k \<and> q = r"
proof -
  have fits: "base_of us l + p * it_sector_bytes (us ! l) + it_sector_bytes (us ! l) \<le> base_of us m"
    if "l < m" "l < length us" "p < length (it_ids (us ! l))" for l m p
  proof -
    have "Suc p * it_sector_bytes (us ! l) \<le> track_size (us ! l)"
      unfolding track_size_def using that(3) by (intro mult_le_mono1) simp
    then show ?thesis using base_of_step [OF that(2)] base_of_mono [of "Suc l" m us] that(1) by simp
  qed
  have jk: "j = k" using fits [of j k q] fits [of k j r] assms by (cases j k rule: linorder_cases) auto
  have "\<not> q < r" "\<not> r < q"
    using assms(5,6) mult_le_mono1 [of "Suc q" r "it_sector_bytes (us ! k)"]
      mult_le_mono1 [of "Suc r" q "it_sector_bytes (us ! k)"] by (auto simp: jk)
  then show ?thesis using jk by simp
qed

text \<open>Where the identity of a sector puts it: past the tracks before its own in cylinder and head order
  and past the sectors of smaller ids of its own track.\<close>

definition sector_offset :: "imd_track list \<Rightarrow> nat \<Rightarrow> nat \<Rightarrow> nat" where
  "sector_offset us k slot =
     (\<Sum>t\<leftarrow>take k us. length (it_ids t) * it_sector_bytes t) +
     card {i \<in> set (it_ids (us ! k)). i < it_ids (us ! k) ! slot} * it_sector_bytes (us ! k)"


subsection \<open>A sample artifact\<close>

text \<open>One track of two sectors of 128 bytes, stored in the order 2, 1: the first one repeated byte, the
  second never recovered.\<close>

definition sample_imd :: bytes where
  "sample_imd = [73, 77, 68, 32, 26, 1, 0, 0, 2, 0, 2, 1, 2, 7, 0]"

definition sample_track :: imd_track where
  "sample_track = \<lparr>it_mode = 1, it_cylinder = 0, it_head = 0, it_sector_bytes = 128, it_ids = [2, 1],
     it_records = [(\<lparr>unavailable = False, compressed = True, deleted = False, errored = False\<rparr>, replicate 128 7),
       (\<lparr>unavailable = True, compressed = False, deleted = False, errored = False\<rparr>, [])]\<rparr>"

lemma sample_read: "header_end_from sample_imd = Some 4" "read_tracks sample_imd 5 = Inr [sample_track]"
proof -
  have records: "read_records sample_imd 12 128 2 = Inr (it_records sample_track, 15)"
    unfolding numeral_2_eq_2
    by (simp add: sample_imd_def sample_track_def kind_read_def Let_def need_def) (simp add: word_le_nat_alt)
  have t: "read_track sample_imd 5 = Inr (sample_track, 15)"
    unfolding read_track_def using records
    by (simp add: sample_imd_def need_def mode_known_def slice_def read_map_def Let_def)
      (simp add: sample_track_def)
  then show "read_tracks sample_imd 5 = Inr [sample_track]"
    by (subst read_tracks.simps, subst read_tracks.simps) (simp add: sample_imd_def)
  show "header_end_from sample_imd = Some 4" by (simp add: sample_imd_def HEADER_END_def)
qed

lemma sample_decode: "imd_decode sample_imd = Inr (assemble_imd [sample_track])" "track_order [sample_track] = [sample_track]"
  using sample_read by (simp_all add: imd_decode_def track_order_def) (simp add: sample_imd_def IMD_MAGIC_def of_char_def)

lemma sample_data: "length (ic_data (assemble_imd [sample_track])) = 256"
    "ic_geometry (assemble_imd [sample_track]) =
      Some \<lparr>dd_sector_size = 128, dd_cylinders = 1, dd_sides = 1, dd_sectors_per_track = 2\<rparr>"
proof -
  have "list_all track_ok [sample_track]" by (rule read_tracks_ok [OF sample_read(2)])
  note a = assembled [OF this, unfolded sample_decode(2)]
  show "length (ic_data (assemble_imd [sample_track])) = 256"
    unfolding a(1) using track_bytes_length a(4) by (simp add: track_size_def) (simp add: sample_track_def)
  show "ic_geometry (assemble_imd [sample_track]) =
      Some \<lparr>dd_sector_size = 128, dd_cylinders = 1, dd_sides = 1, dd_sectors_per_track = 2\<rparr>"
    unfolding a(3) by (simp add: uniform_geometry_def sample_track_def)
qed




end
