(* ===== verification/Geometry.thy ===== *)
theory Geometry
  imports Imd Mbr Fat
begin

text \<open>
  Discovered geometry (\<open>src/crates/remanence/src/model/geometry.rs\<close>): the sources that may state a
  recording's coordinates, each one's reading, the settling of the readings against one another, and the
  coordinates a sector verb addresses in. A \<open>u32\<close> is a word of 32 bits; the sector size and byte counts are
  \<open>u64\<close> values, with the wrap-around of \<open>offset_of\<close> and \<open>total_bytes\<close> written out. The readings' prose is
  left out; where a reading was taken is kept, since a conflict names it.
\<close>

datatype geometry_source =
  FormatDeclaration | BootRecord | PartitionTable | ExtentArithmetic | Authorship | Recording

definition all_sources :: "geometry_source list" where
  "all_sources = [FormatDeclaration, BootRecord, PartitionTable, ExtentArithmetic, Authorship, Recording]"

fun source_as_str :: "geometry_source \<Rightarrow> string" where
  "source_as_str FormatDeclaration = ''format-declaration''"
| "source_as_str BootRecord = ''boot-record''"
| "source_as_str PartitionTable = ''partition-table''"
| "source_as_str ExtentArithmetic = ''extent-arithmetic''"
| "source_as_str Authorship = ''authorship''"
| "source_as_str Recording = ''recording''"

definition source_from_id :: "string \<Rightarrow> geometry_source option" where
  "source_from_id i = List.find (\<lambda>s. source_as_str s = i) all_sources"

datatype geometry_outcome = Unstated | Determined | Undetermined

fun state_as_str :: "geometry_outcome \<Rightarrow> string" where
  "state_as_str Unstated = ''unstated''"
| "state_as_str Determined = ''determined''"
| "state_as_str Undetermined = ''undetermined''"

datatype geometry_rule =
  NotSectorAddressed | GeometryUnstated | GeometryUndetermined | OutsideGeometry | PartialSector

definition all_geometry_rules :: "geometry_rule list" where
  "all_geometry_rules =
     [NotSectorAddressed, GeometryUnstated, GeometryUndetermined, OutsideGeometry, PartialSector]"

fun geometry_rule_str :: "geometry_rule \<Rightarrow> rule_identity" where
  "geometry_rule_str NotSectorAddressed = ''not-sector-addressed''"
| "geometry_rule_str GeometryUnstated = ''geometry-unstated''"
| "geometry_rule_str GeometryUndetermined = ''geometry-undetermined''"
| "geometry_rule_str OutsideGeometry = ''outside-geometry''"
| "geometry_rule_str PartialSector = ''partial-sector''"

definition geometry_rule_of :: "string \<Rightarrow> geometry_rule option" where
  "geometry_rule_of i = List.find (\<lambda>r. geometry_rule_str r = i) all_geometry_rules"

definition geometry_refuse :: "geometry_rule \<Rightarrow> error" where
  "geometry_refuse r =
     broke_rule (categorized_io (case r of OutsideGeometry \<Rightarrow> NotFound | _ \<Rightarrow> Unsupported)) (geometry_rule_str r)"

section \<open>Coordinates\<close>

record recording_geometry =
  rg_cylinders :: u32
  rg_heads :: u32
  rg_sectors_per_track :: u32
  rg_sector_bytes :: nat

definition total_sectors :: "recording_geometry \<Rightarrow> nat" where
  "total_sectors g = unat (rg_cylinders g) * unat (rg_heads g) * unat (rg_sectors_per_track g) mod 2 ^ 64"

definition total_bytes :: "recording_geometry \<Rightarrow> nat" where
  "total_bytes g = total_sectors g * rg_sector_bytes g mod 2 ^ 64"

definition checked_mul :: "nat \<Rightarrow> nat \<Rightarrow> nat option" where
  "checked_mul a b = (if a * b < 2 ^ 64 then Some (a * b) else None)"

definition checked_total_bytes :: "recording_geometry \<Rightarrow> nat option" where
  "checked_total_bytes g =
     Option.bind (checked_mul (unat (rg_cylinders g)) (unat (rg_heads g))) (\<lambda>tracks.
     Option.bind (checked_mul tracks (unat (rg_sectors_per_track g))) (\<lambda>sectors.
       checked_mul sectors (rg_sector_bytes g)))"

definition offset_of :: "recording_geometry \<Rightarrow> u32 \<Rightarrow> u32 \<Rightarrow> u32 \<Rightarrow> nat result" where
  "offset_of g cylinder head sector =
     (if cylinder \<ge> rg_cylinders g \<or> head \<ge> rg_heads g \<or> sector = 0 \<or> sector > rg_sectors_per_track g
      then Inl (geometry_refuse OutsideGeometry)
      else let track = unat cylinder * unat (rg_heads g) + unat head;
               index = (track * unat (rg_sectors_per_track g) + unat (sector - 1)) mod 2 ^ 64
           in Inr (index * rg_sector_bytes g mod 2 ^ 64))"

section \<open>Readings and what they settle\<close>

text \<open>Where a reading was taken: the words the code quotes, as a value.\<close>

datatype reading_at =
  AtFormat string | AtDeclaredBlocks | AtTableUnit | AtEndTuple nat | AtBootRecord nat | AtExtent
| AtRecordAs | AtNewMedia

record geometry_reading =
  gr_source :: geometry_source
  gr_at :: reading_at
  gr_cylinders :: "u32 option"
  gr_heads :: "u32 option"
  gr_sectors_per_track :: "u32 option"
  gr_sector_bytes :: "nat option"

definition reading_new :: "geometry_source \<Rightarrow> reading_at \<Rightarrow> geometry_reading" where
  "reading_new s p = \<lparr>gr_source = s, gr_at = p, gr_cylinders = None, gr_heads = None,
     gr_sectors_per_track = None, gr_sector_bytes = None\<rparr>"

definition states_anything :: "geometry_reading \<Rightarrow> bool" where
  "states_anything r \<longleftrightarrow> gr_cylinders r \<noteq> None \<or> gr_heads r \<noteq> None \<or> gr_sectors_per_track r \<noteq> None
     \<or> gr_sector_bytes r \<noteq> None"

datatype coordinate_part = CYLINDERS | HEADS | SECTORS_PER_TRACK | SECTOR_BYTES

record geometry_conflict =
  gc_part :: coordinate_part
  gc_from :: reading_at
  gc_first :: nat
  gc_elsewhere :: reading_at
  gc_other :: nat

record geometry =
  geo_determined :: "recording_geometry option"
  geo_conflicts :: "geometry_conflict list"
  geo_unsettled :: "coordinate_part list"
  geo_readings :: "geometry_reading list"

text \<open>The value a part settles on, with the conflict where two readings state different values.\<close>

definition settle_part ::
  "coordinate_part \<Rightarrow> geometry_reading list \<Rightarrow> (geometry_reading \<Rightarrow> nat option) \<Rightarrow> geometry_conflict list
    \<Rightarrow> geometry_conflict list \<times> nat option" where
  "settle_part part rs stated_by conflicts =
     (case List.map_filter (\<lambda>r. case stated_by r of
               Some v \<Rightarrow> if v \<noteq> 0 then Some (v, r) else None | None \<Rightarrow> None) rs of
        [] \<Rightarrow> (conflicts, None)
      | (v1, r1) # rest_rs \<Rightarrow>
          (case List.find (\<lambda>(v, _). v \<noteq> v1) ((v1, r1) # rest_rs) of
             Some (v2, r2) \<Rightarrow>
               (conflicts @ [\<lparr>gc_part = part, gc_from = gr_at r1, gc_first = v1,
                              gc_elsewhere = gr_at r2, gc_other = v2\<rparr>], None)
           | None \<Rightarrow> (conflicts, Some v1)))"

definition div_ceil :: "nat \<Rightarrow> nat \<Rightarrow> nat" where
  "div_ceil a b = (if a mod b = 0 then a div b else a div b + 1)"

definition extent_reading :: "nat \<Rightarrow> nat \<Rightarrow> nat \<Rightarrow> nat \<Rightarrow> geometry_reading option" where
  "extent_reading extent_bytes sector_bytes hs spt =
     (let sectors = extent_bytes div sector_bytes; per_cylinder = hs * spt in
      if sectors = 0 then None
      else let cylinders = div_ceil sectors per_cylinder in
      if cylinders > 2 ^ 32 - 1 then None
      else Some ((reading_new ExtentArithmetic AtExtent)\<lparr>gr_cylinders := Some (of_nat cylinders)\<rparr>))"

definition with_extent_reading ::
  "geometry_reading list \<Rightarrow> nat \<Rightarrow> nat option \<Rightarrow> nat option \<Rightarrow> nat option \<Rightarrow> geometry_reading list" where
  "with_extent_reading rs extent_bytes sb hs spt =
     (case (sb, hs, spt) of
        (Some sector_bytes, Some h, Some s) \<Rightarrow>
          (case extent_reading extent_bytes sector_bytes h s of Some r \<Rightarrow> rs @ [r] | None \<Rightarrow> rs)
      | _ \<Rightarrow> rs)"

definition settle_readings :: "geometry_reading list \<Rightarrow> nat \<Rightarrow> geometry" where
  "settle_readings rs extent_bytes =
     (let (c1, sb) = settle_part SECTOR_BYTES rs gr_sector_bytes [];
          (c2, hs) = settle_part HEADS rs (\<lambda>r. map_option unat (gr_heads r)) c1;
          (c3, spt) = settle_part SECTORS_PER_TRACK rs (\<lambda>r. map_option unat (gr_sectors_per_track r)) c2;
          rs1 = with_extent_reading rs extent_bytes sb hs spt;
          (c4, cyls) = settle_part CYLINDERS rs1 (\<lambda>r. map_option unat (gr_cylinders r)) c3
      in \<lparr>geo_determined =
            (case (cyls, hs, spt, sb) of
               (Some c, Some h, Some s, Some b) \<Rightarrow>
                 Some \<lparr>rg_cylinders = of_nat c, rg_heads = of_nat h, rg_sectors_per_track = of_nat s,
                       rg_sector_bytes = b\<rparr>
             | _ \<Rightarrow> None),
          geo_conflicts = c4,
          geo_unsettled = map fst (filter (\<lambda>(_, settled). settled = None)
            [(CYLINDERS, cyls), (HEADS, hs), (SECTORS_PER_TRACK, spt), (SECTOR_BYTES, sb)]),
          geo_readings = rs1\<rparr>)"

section \<open>A medium's geometry\<close>

definition geometry_unstated :: geometry where
  "geometry_unstated = settle_readings [] 0"

definition stating :: "geometry_source \<Rightarrow> reading_at \<Rightarrow> recording_geometry \<Rightarrow> geometry_reading" where
  "stating s p g = (reading_new s p)\<lparr>gr_cylinders := Some (rg_cylinders g), gr_heads := Some (rg_heads g),
     gr_sectors_per_track := Some (rg_sectors_per_track g), gr_sector_bytes := Some (rg_sector_bytes g)\<rparr>"

definition geometry_recorded :: "recording_geometry \<Rightarrow> geometry" where
  "geometry_recorded g = \<lparr>geo_determined = Some g, geo_conflicts = [], geo_unsettled = [],
     geo_readings = [stating Recording AtRecordAs g]\<rparr>"

definition geometry_authored :: "recording_geometry \<Rightarrow> geometry" where
  "geometry_authored g = \<lparr>geo_determined = Some g, geo_conflicts = [], geo_unsettled = [],
     geo_readings = [stating Authorship AtNewMedia g]\<rparr>"

definition geometry_state :: "geometry \<Rightarrow> geometry_outcome" where
  "geometry_state g =
     (if geo_determined g \<noteq> None then Determined
      else if geo_conflicts g = [] then Unstated else Undetermined)"

definition geometry_require :: "geometry \<Rightarrow> recording_geometry result" where
  "geometry_require g =
     (case geo_determined g of
        Some c \<Rightarrow> Inr c
      | None \<Rightarrow> (case geometry_state g of
                   Undetermined \<Rightarrow> Inl (geometry_refuse GeometryUndetermined)
                 | _ \<Rightarrow> Inl (geometry_refuse GeometryUnstated)))"

record geometry_sources =
  gs_format_id :: string
  gs_format_disk :: "disk_descriptor option"
  gs_declared_sector_bytes :: "nat option"
  gs_reads_table :: bool
  gs_boot_records :: "(nat \<times> nat) list"
  gs_extent_bytes :: nat

definition TABLE_BLOCK_BYTES :: nat where "TABLE_BLOCK_BYTES = SECTOR"

definition format_readings :: "geometry_sources \<Rightarrow> geometry_reading list" where
  "format_readings src =
     (case gs_format_disk src of
        Some disk \<Rightarrow>
          [(reading_new FormatDeclaration (AtFormat (gs_format_id src)))
             \<lparr>gr_cylinders := Some (of_nat (dd_cylinders disk)), gr_heads := Some (of_nat (dd_sides disk)),
              gr_sectors_per_track := Some (of_nat (dd_sectors_per_track disk)),
              gr_sector_bytes := Some (dd_sector_size disk)\<rparr>]
      | None \<Rightarrow>
          (case gs_declared_sector_bytes src of
             Some b \<Rightarrow> [(reading_new FormatDeclaration AtDeclaredBlocks)\<lparr>gr_sector_bytes := Some b\<rparr>]
           | None \<Rightarrow> []))"

definition implied_reading :: "implied \<Rightarrow> geometry_reading" where
  "implied_reading i = (reading_new PartitionTable (AtEndTuple (implied_entry i)))
     \<lparr>gr_heads := Some (of_nat (implied_heads i)), gr_sectors_per_track := Some (of_nat (implied_sectors i))\<rparr>"

definition table_readings :: "bytes \<Rightarrow> geometry_sources \<Rightarrow> geometry_reading list" where
  "table_readings d src =
     (if gs_reads_table src then
        (reading_new PartitionTable AtTableUnit)\<lparr>gr_sector_bytes := Some TABLE_BLOCK_BYTES\<rparr>
          # map implied_reading (implied_geometry d)
      else [])"

fun boot_readings :: "bytes \<Rightarrow> (nat \<times> nat) list \<Rightarrow> geometry_reading list" where
  "boot_readings d [] = []"
| "boot_readings d ((ordinal, start) # rest_brs) =
     (case image_read d start 512 of
        Inl e \<Rightarrow> boot_readings d rest_brs
      | Inr sector \<Rightarrow>
          (case declared_geometry sector of
             None \<Rightarrow> boot_readings d rest_brs
           | Some dg \<Rightarrow>
               let r = (reading_new BootRecord (AtBootRecord ordinal))
                         \<lparr>gr_sector_bytes := Some (geometry_bytes dg),
                          gr_sectors_per_track := map_option of_nat (geometry_track dg),
                          gr_heads := map_option of_nat (geometry_heads dg)\<rparr>
               in if states_anything r then r # boot_readings d rest_brs else boot_readings d rest_brs))"

definition geometry_establish :: "bytes \<Rightarrow> geometry_sources \<Rightarrow> geometry" where
  "geometry_establish d src =
     settle_readings (format_readings src @ table_readings d src @ boot_readings d (gs_boot_records src))
       (gs_extent_bytes src)"

end
