(* ===== verification/Geometry_Proofs.thy ===== *)
theory Geometry_Proofs
  imports Geometry
begin

text \<open>
  What settling establishes: a part of the coordinates is settled exactly when the readings that state it
  state one value, and no reading counts for more than another or for where it stands in the list.
\<close>

definition said :: "(geometry_reading \<Rightarrow> nat option) \<Rightarrow> geometry_reading list \<Rightarrow> nat set" where
  "said f rs = {v. v \<noteq> 0 \<and> (\<exists>r\<in>set rs. f r = Some v)}"

lemma said_append: "said f (rs @ rs1) = said f rs \<union> said f rs1"
  by (auto simp: said_def)

lemma said_filter:
  "said f rs = fst ` set (List.map_filter (\<lambda>r. case f r of
     Some v \<Rightarrow> if v \<noteq> 0 then Some (v, r) else None | None \<Rightarrow> None) rs)"
proof (induction rs)
  case (Cons r rs)
  have "said f (r # rs) = said f [r] \<union> said f rs" using said_append [of f "[r]" rs] by simp
  then show ?case using Cons by (auto simp: List.map_filter_simps said_def split: option.splits)
qed (simp add: said_def List.map_filter_simps)

lemma find_None: "List.find P xs = None \<longleftrightarrow> (\<forall>x\<in>set xs. \<not> P x)"
  by (induction xs) auto

lemma find_SomeD: "List.find P xs = Some x \<Longrightarrow> x \<in> set xs \<and> P x"
  by (induction xs) (auto split: if_splits)

lemma settle_part_value:
  "snd (settle_part part rs f cs) = Some v \<longleftrightarrow> said f rs = {v}"
proof -
  define xs where "xs = List.map_filter (\<lambda>r. case f r of
     Some v \<Rightarrow> if v \<noteq> 0 then Some (v, r) else None | None \<Rightarrow> None) rs"
  show ?thesis
  proof (cases xs)
    case Nil
    then show ?thesis by (simp add: settle_part_def said_filter flip: xs_def)
  next
    case (Cons x ys)
    obtain v1 r1 where x: "x = (v1, r1)" by (cases x)
    have "said f rs = {v} \<longleftrightarrow> v = v1 \<and> List.find (\<lambda>(w, _). w \<noteq> v1) xs = None"
      unfolding said_filter xs_def [symmetric] find_None by (auto simp: Cons x)
    then show ?thesis
      by (auto simp: settle_part_def Cons x simp flip: xs_def split: option.splits prod.splits if_splits)
  qed
qed

lemma settle_part_conflicts:
  "fst (settle_part part rs f cs) =
     (if \<exists>v w. v \<noteq> w \<and> v \<in> said f rs \<and> w \<in> said f rs
      then fst (settle_part part rs f cs) else cs) \<and>
   ((\<exists>v w. v \<noteq> w \<and> v \<in> said f rs \<and> w \<in> said f rs) \<longrightarrow> fst (settle_part part rs f cs) \<noteq> []) \<and>
   (cs \<noteq> [] \<longrightarrow> fst (settle_part part rs f cs) \<noteq> [])"
proof -
  define xs where "xs = List.map_filter (\<lambda>r. case f r of
     Some v \<Rightarrow> if v \<noteq> 0 then Some (v, r) else None | None \<Rightarrow> None) rs"
  show ?thesis
  proof (cases xs)
    case Nil
    then show ?thesis by (simp add: settle_part_def said_filter flip: xs_def)
  next
    case (Cons x ys)
    obtain v1 r1 where x: "x = (v1, r1)" by (cases x)
    have s: "said f rs = fst ` set xs" unfolding said_filter xs_def [symmetric] ..
    show ?thesis
    proof (cases "List.find (\<lambda>(w, _). w \<noteq> v1) xs")
      case None
      then have "said f rs = {v1}" unfolding s find_None by (auto simp: Cons x)
      moreover have "fst (settle_part part rs f cs) = cs"
        using None by (simp add: settle_part_def Cons x flip: xs_def split: if_splits)
      ultimately show ?thesis by simp
    next
      case (Some p)
      then have "p \<in> set xs" "fst p \<noteq> v1"
        by (auto dest: find_SomeD)
      then have "\<exists>v w. v \<noteq> w \<and> v \<in> said f rs \<and> w \<in> said f rs"
        unfolding s by (intro exI [of _ "fst p"] exI [of _ v1]) (auto simp: Cons x)
      moreover have "fst (settle_part part rs f cs) \<noteq> []"
        using Some by (cases p) (auto simp: settle_part_def Cons x simp flip: xs_def split: if_splits)
      ultimately show ?thesis by simp
    qed
  qed
qed

lemma settle_part_free:
  "fst (settle_part part rs f cs) = [] \<longleftrightarrow> cs = [] \<and> \<not> (\<exists>v w. v \<noteq> w \<and> v \<in> said f rs \<and> w \<in> said f rs)"
  using settle_part_conflicts [of part rs f cs] by (metis (no_types, lifting))

text \<open>What the readings and, once the track is settled, the extent say of each part.\<close>

definition track_said :: "geometry_reading list \<Rightarrow> nat \<Rightarrow> nat \<Rightarrow> nat \<Rightarrow> bool" where
  "track_said rs b h s \<longleftrightarrow> said gr_sector_bytes rs = {b} \<and> said (\<lambda>r. map_option unat (gr_heads r)) rs = {h} \<and>
     said (\<lambda>r. map_option unat (gr_sectors_per_track r)) rs = {s}"

definition extent_says :: "geometry_reading list \<Rightarrow> nat \<Rightarrow> nat set" where
  "extent_says rs n = {c. \<exists>b h s. track_said rs b h s \<and> 0 < n div b \<and>
     c = div_ceil (n div b) (h * s) \<and> c \<le> 2 ^ 32 - 1}"

fun part_values :: "geometry_reading list \<Rightarrow> nat \<Rightarrow> coordinate_part \<Rightarrow> nat set" where
  "part_values rs n SECTOR_BYTES = said gr_sector_bytes rs"
| "part_values rs n HEADS = said (\<lambda>r. map_option unat (gr_heads r)) rs"
| "part_values rs n SECTORS_PER_TRACK = said (\<lambda>r. map_option unat (gr_sectors_per_track r)) rs"
| "part_values rs n CYLINDERS = said (\<lambda>r. map_option unat (gr_cylinders r)) rs \<union> extent_says rs n"

lemma div_ceil_pos: "0 < a \<Longrightarrow> 0 < b \<Longrightarrow> 0 < div_ceil a b"
  by (auto simp: div_ceil_def elim: dvdE)

lemma said_pos: "said f rs = {v} \<Longrightarrow> 0 < v"
  by (auto simp: said_def)

lemma extent_said:
  "said (\<lambda>r. map_option unat (gr_cylinders r)) (with_extent_reading rs n
      (snd (settle_part SECTOR_BYTES rs gr_sector_bytes c1))
      (snd (settle_part HEADS rs (\<lambda>r. map_option unat (gr_heads r)) c2))
      (snd (settle_part SECTORS_PER_TRACK rs (\<lambda>r. map_option unat (gr_sectors_per_track r)) c3))) =
    part_values rs n CYLINDERS"
proof (cases "\<exists>b h s. track_said rs b h s")
  case True
  then obtain b h s where t: "track_said rs b h s" by blast
  then have settled: "snd (settle_part SECTOR_BYTES rs gr_sector_bytes c1) = Some b"
    "snd (settle_part HEADS rs (\<lambda>r. map_option unat (gr_heads r)) c2) = Some h"
    "snd (settle_part SECTORS_PER_TRACK rs (\<lambda>r. map_option unat (gr_sectors_per_track r)) c3) = Some s"
    by (simp_all add: track_said_def settle_part_value)
  have pos: "0 < h * s" using t by (auto simp: track_said_def dest: said_pos)
  have only: "track_said rs b1 h1 s1 \<longleftrightarrow> b1 = b \<and> h1 = h \<and> s1 = s" for b1 h1 s1
    using t by (auto simp: track_said_def)
  have "extent_says rs n = (case extent_reading n b h s of None \<Rightarrow> {}
      | Some r \<Rightarrow> said (\<lambda>r. map_option unat (gr_cylinders r)) [r])"
  proof -
    define c where "c = div_ceil (n div b) (h * s)"
    have e: "extent_says rs n = {x. 0 < n div b \<and> x = c \<and> x \<le> 2 ^ 32 - 1}"
      by (simp add: extent_says_def only c_def)
    show ?thesis
    proof (cases "n div b = 0 \<or> c > 2 ^ 32 - 1")
      case True
      then have "extent_reading n b h s = None" by (auto simp: extent_reading_def Let_def c_def)
      then show ?thesis using True by (auto simp: e)
    next
      case False
      then have "0 < c" using div_ceil_pos [OF _ pos, of "n div b"] by (simp add: c_def)
      moreover have "unat (of_nat c :: u32) = c" using False by (simp add: unat_of_nat)
      moreover have "extent_reading n b h s =
          Some ((reading_new ExtentArithmetic AtExtent)\<lparr>gr_cylinders := Some (of_nat c)\<rparr>)"
        using False by (simp add: extent_reading_def Let_def c_def)
      ultimately show ?thesis using False by (auto simp: e said_def)
    qed
  qed
  then show ?thesis
    by (simp add: settled with_extent_reading_def said_append split: option.splits)
next
  case False
  then have "extent_says rs n = {}" by (auto simp: extent_says_def)
  moreover have "snd (settle_part SECTOR_BYTES rs gr_sector_bytes c1) = None \<or>
    snd (settle_part HEADS rs (\<lambda>r. map_option unat (gr_heads r)) c2) = None \<or>
    snd (settle_part SECTORS_PER_TRACK rs (\<lambda>r. map_option unat (gr_sectors_per_track r)) c3) = None"
  proof (rule ccontr)
    assume "\<not> ?thesis"
    then obtain b h s where "snd (settle_part SECTOR_BYTES rs gr_sector_bytes c1) = Some b"
      "snd (settle_part HEADS rs (\<lambda>r. map_option unat (gr_heads r)) c2) = Some h"
      "snd (settle_part SECTORS_PER_TRACK rs (\<lambda>r. map_option unat (gr_sectors_per_track r)) c3) = Some s" by (auto simp only: not_None_eq de_Morgan_disj)
    then have "track_said rs b h s" by (simp only: track_said_def settle_part_value)
    then show False using False by blast
  qed
  ultimately show ?thesis
    by (elim disjE) (simp_all add: with_extent_reading_def split: option.split)
qed

lemma said_word:
  assumes "said (\<lambda>r. map_option unat (f r :: u32 option)) rs = {x}"
  shows "unat (of_nat x :: u32) = x"
proof -
  have "x \<in> said (\<lambda>r. map_option unat (f r)) rs" unfolding assms by simp
  then show ?thesis by (auto simp: said_def)
qed

lemma all_parts: "(\<forall>part. Q part) \<longleftrightarrow> Q CYLINDERS \<and> Q HEADS \<and> Q SECTORS_PER_TRACK \<and> Q SECTOR_BYTES"
  by (metis coordinate_part.exhaust)

lemma unsettled_value: "(\<And>x. q = Some x \<longleftrightarrow> A = {x}) \<Longrightarrow> q = None \<longleftrightarrow> \<not> is_singleton A"
  by (cases q) (auto simp: is_singleton_def)

text \<open>
  C36: settling ranks no source: each part takes the values any reading states of it, with the extent
  counted as a source of the cylinders once the track is agreed; the geometry is determined exactly as
  the coordinates all parts agree on, undetermined exactly where some part is stated two ways and
  unstated otherwise, and the unsettled parts are those without one value, in the order they are named.
\<close>

theorem settling_is_agreement:
  "(case geo_determined (settle_readings rs n) of
      Some g \<Rightarrow> part_values rs n CYLINDERS = {unat (rg_cylinders g)} \<and>
        part_values rs n HEADS = {unat (rg_heads g)} \<and>
        part_values rs n SECTORS_PER_TRACK = {unat (rg_sectors_per_track g)} \<and>
        part_values rs n SECTOR_BYTES = {rg_sector_bytes g} \<and>
        geometry_state (settle_readings rs n) = Determined
    | None \<Rightarrow> geo_unsettled (settle_readings rs n) \<noteq> [] \<and>
        geometry_state (settle_readings rs n) =
          (if \<exists>part v w. v \<noteq> w \<and> {v, w} \<subseteq> part_values rs n part then Undetermined else Unstated)) \<and>
   geo_unsettled (settle_readings rs n) =
     filter (\<lambda>part. \<not> is_singleton (part_values rs n part)) [CYLINDERS, HEADS, SECTORS_PER_TRACK, SECTOR_BYTES]"
proof -
  define p1 where "p1 = settle_part SECTOR_BYTES rs gr_sector_bytes []"
  define p2 where "p2 = settle_part HEADS rs (\<lambda>r. map_option unat (gr_heads r)) (fst p1)"
  define p3 where "p3 = settle_part SECTORS_PER_TRACK rs (\<lambda>r. map_option unat (gr_sectors_per_track r)) (fst p2)"
  define rs1 where "rs1 = with_extent_reading rs n (snd p1) (snd p2) (snd p3)"
  define p4 where "p4 = settle_part CYLINDERS rs1 (\<lambda>r. map_option unat (gr_cylinders r)) (fst p3)"
  let ?V = "part_values rs n"
  have cyl: "said (\<lambda>r. map_option unat (gr_cylinders r)) rs1 = ?V CYLINDERS"
    unfolding rs1_def p1_def p2_def p3_def by (rule extent_said)
  have v: "snd p1 = Some x \<longleftrightarrow> ?V SECTOR_BYTES = {x}" "snd p2 = Some x \<longleftrightarrow> ?V HEADS = {x}"
    "snd p3 = Some x \<longleftrightarrow> ?V SECTORS_PER_TRACK = {x}" "snd p4 = Some x \<longleftrightarrow> ?V CYLINDERS = {x}" for x
    by (simp_all add: p1_def p2_def p3_def p4_def settle_part_value cyl del: part_values.simps(4))
  have none: "snd p1 = None \<longleftrightarrow> \<not> is_singleton (?V SECTOR_BYTES)" "snd p2 = None \<longleftrightarrow> \<not> is_singleton (?V HEADS)"
    "snd p3 = None \<longleftrightarrow> \<not> is_singleton (?V SECTORS_PER_TRACK)" "snd p4 = None \<longleftrightarrow> \<not> is_singleton (?V CYLINDERS)"
    by (rule unsettled_value, rule v)+
  have fits: "unat (of_nat x :: u32) = x" if "snd p2 = Some x \<or> snd p3 = Some x \<or> snd p4 = Some x" for x
    using that unfolding v cyl [symmetric] part_values.simps(2,3) by (elim disjE) (erule said_word)+
  have free: "fst p4 = [] \<longleftrightarrow> \<not> (\<exists>part x y. x \<noteq> y \<and> {x, y} \<subseteq> ?V part)"
  proof -
    have parts: "said gr_sector_bytes rs = ?V SECTOR_BYTES" "said (\<lambda>r. map_option unat (gr_heads r)) rs = ?V HEADS"
      "said (\<lambda>r. map_option unat (gr_sectors_per_track r)) rs = ?V SECTORS_PER_TRACK"
      by simp_all
    have "fst p4 = [] \<longleftrightarrow> (\<forall>part. \<not> (\<exists>x y. x \<noteq> y \<and> x \<in> ?V part \<and> y \<in> ?V part))"
      unfolding all_parts p4_def settle_part_free cyl
      unfolding p3_def settle_part_free
      unfolding p2_def settle_part_free
      unfolding p1_def settle_part_free
      unfolding parts by (simp only: simp_thms conj_ac)
    then show ?thesis by simp
  qed
  have eq: "settle_readings rs n = \<lparr>geo_determined =
        (case (snd p4, snd p2, snd p3, snd p1) of
           (Some c, Some h, Some s, Some b) \<Rightarrow>
             Some \<lparr>rg_cylinders = of_nat c, rg_heads = of_nat h, rg_sectors_per_track = of_nat s, rg_sector_bytes = b\<rparr>
         | _ \<Rightarrow> None),
      geo_conflicts = fst p4,
      geo_unsettled = map fst (filter (\<lambda>(_, settled). settled = None)
        [(CYLINDERS, snd p4), (HEADS, snd p2), (SECTORS_PER_TRACK, snd p3), (SECTOR_BYTES, snd p1)]),
      geo_readings = rs1\<rparr>"
    by (simp only: settle_readings_def Let_def case_prod_beta p1_def [symmetric] p2_def [symmetric]
        p3_def [symmetric] rs1_def [symmetric] p4_def [symmetric])
  have uns: "geo_unsettled (settle_readings rs n) =
      filter (\<lambda>part. \<not> is_singleton (?V part)) [CYLINDERS, HEADS, SECTORS_PER_TRACK, SECTOR_BYTES]"
    by (simp add: eq none del: part_values.simps)
  have con: "geo_conflicts (settle_readings rs n) = fst p4" by (simp add: eq)
  show ?thesis
  proof (cases "snd p1 = None \<or> snd p2 = None \<or> snd p3 = None \<or> snd p4 = None")
    case True
    then have det: "geo_determined (settle_readings rs n) = None" by (auto simp: eq split: option.split)
    have "geo_unsettled (settle_readings rs n) \<noteq> []"
      using True unfolding uns none by (auto simp del: part_values.simps)
    then show ?thesis
      unfolding geometry_state_def det con free option.case using uns by simp
  next
    case False
    then obtain b h s c where p: "snd p1 = Some b" "snd p2 = Some h" "snd p3 = Some s" "snd p4 = Some c" by auto
    then have det: "geo_determined (settle_readings rs n) = Some \<lparr>rg_cylinders = of_nat c, rg_heads = of_nat h,
        rg_sectors_per_track = of_nat s, rg_sector_bytes = b\<rparr>"
      by (simp add: eq)
    have "?V CYLINDERS = {c}" "?V HEADS = {h}" "?V SECTORS_PER_TRACK = {s}" "?V SECTOR_BYTES = {b}"
      using p v by simp_all
    then show ?thesis
      unfolding geometry_state_def det option.case using uns p fits by (simp del: part_values.simps)
  qed
qed

end
