(* ===== verification/Rendition.thy ===== *)
theory Rendition
  imports Geometry Artifact Wire
begin

text \<open>
  The sector verbs of a medium (\<open>src/crates/remanence/src/model/media.rs\<close>: \<open>sector_coordinates\<close>,
  \<open>sector_offset\<close>) and the raw rendition (\<open>src/crates/remanence/src/model/rendition.rs\<close>): the plan, what it
  cannot carry, and the sectors streamed into a new artifact in the recording's own order.
\<close>

section \<open>Sector verbs\<close>

datatype addressing = Sector | Block

text \<open>
  What a medium answers for the verbs: for an authored one whether its kind is addressed by coordinates,
  else what its device type declares, where a device recorded it; its geometry; the size it presents.
\<close>

record sector_medium =
  sm_authored :: "bool option"
  sm_device :: "addressing option"
  sm_geometry :: geometry
  sm_presented_size :: "nat result"

definition sector_coordinates :: "sector_medium \<Rightarrow> recording_geometry result" where
  "sector_coordinates m =
     (case sm_authored m of
        Some addressed \<Rightarrow>
          if \<not> addressed then Inl (geometry_refuse NotSectorAddressed) else geometry_require (sm_geometry m)
      | None \<Rightarrow>
          (case sm_device m of
             None \<Rightarrow> Inl (geometry_refuse NotSectorAddressed)
           | Some a \<Rightarrow>
               if a \<noteq> Sector then Inl (geometry_refuse NotSectorAddressed)
               else geometry_require (sm_geometry m)))"

definition sector_offset :: "sector_medium \<Rightarrow> u32 \<Rightarrow> u32 \<Rightarrow> u32 \<Rightarrow> nat \<Rightarrow> nat result" where
  "sector_offset m cylinder head sector n =
     rbind (sector_coordinates m) (\<lambda>g.
       if n \<noteq> rg_sector_bytes g then Inl (geometry_refuse PartialSector)
       else rbind (offset_of g cylinder head sector) (\<lambda>offset.
            rbind (sm_presented_size m) (\<lambda>held.
              if offset + rg_sector_bytes g > held then Inl (geometry_refuse OutsideGeometry)
              else Inr offset)))"

section \<open>The raw rendition\<close>

record raw_plan =
  rp_geometry :: recording_geometry
  rp_uncommitted_extents :: nat
  rp_loss :: "declared_loss list"

record raw_facts =
  rf_device_type :: "string option"
  rf_authored_as :: "string option"
  rf_recorded_as :: "string option"
  rf_evidence_lines :: nat

record raw_report =
  rr_path :: "string option"
  rr_artifact_bytes :: nat
  rr_geometry :: recording_geometry
  rr_sectors_written :: nat
  rr_uncommitted_extents :: nat
  rr_declared_loss :: "declared_loss list"

definition raw_artifact_bytes :: "raw_plan \<Rightarrow> nat" where
  "raw_artifact_bytes plan = total_bytes (rp_geometry plan)"

definition raw_sectors :: "raw_plan \<Rightarrow> nat" where
  "raw_sectors plan = total_sectors (rp_geometry plan)"

definition raw_report_of :: "raw_plan \<Rightarrow> string option \<Rightarrow> raw_report" where
  "raw_report_of plan p = \<lparr>rr_path = p, rr_artifact_bytes = raw_artifact_bytes plan,
     rr_geometry = rp_geometry plan, rr_sectors_written = raw_sectors plan,
     rr_uncommitted_extents = rp_uncommitted_extents plan, rr_declared_loss = rp_loss plan\<rparr>"

definition ascii :: "string \<Rightarrow> utf8" where "ascii s = map of_char s"

text \<open>What a raw artifact cannot hold; the sentence of each entry is left out.\<close>

definition raw_loss :: "raw_facts \<Rightarrow> nat \<Rightarrow> nat \<Rightarrow> declared_loss list" where
  "raw_loss facts content_bytes addressed =
     (let note_loss = (\<lambda>code n es. loss_add es (ascii code) [] n);
          l1 = note_loss ''article'' 1 [];
          l2 = note_loss ''device-type'' 1 l1;
          l3 = (if rf_authored_as facts \<noteq> None then note_loss ''authored-provenance'' 1 l2 else l2);
          l4 = (if rf_recorded_as facts \<noteq> None then note_loss ''recorded-layout'' 1 l3 else l3);
          l5 = (if rf_evidence_lines facts > 0
                then note_loss ''provenance-evidence'' (rf_evidence_lines facts) l4 else l4)
      in if content_bytes > addressed
         then note_loss ''content-past-the-coordinates'' (content_bytes - addressed) l5 else l5)"

definition plan_raw :: "geometry \<Rightarrow> nat \<Rightarrow> nat \<Rightarrow> raw_facts \<Rightarrow> raw_plan result" where
  "plan_raw geo content_bytes uncommitted facts =
     rbind (geometry_require geo) (\<lambda>coordinates.
       case checked_total_bytes coordinates of
         None \<Rightarrow> Inl (geometry_refuse NotSectorAddressed)
       | Some addressed \<Rightarrow>
           if addressed > content_bytes then Inl unsupported_error
           else Inr \<lparr>rp_geometry = coordinates, rp_uncommitted_extents = uncommitted,
                     rp_loss = raw_loss facts content_bytes addressed\<rparr>)"

text \<open>The coordinates in the recording's order: cylinders, then heads, then sectors from one.\<close>

definition sector_walk :: "recording_geometry \<Rightarrow> (u32 \<times> u32 \<times> u32) list" where
  "sector_walk g =
     concat (map (\<lambda>c. concat (map (\<lambda>h. map (\<lambda>s. (of_nat c, of_nat h, of_nat s))
        [1..<Suc (unat (rg_sectors_per_track g))]) [0..<unat (rg_heads g)])) [0..<unat (rg_cylinders g)])"

text \<open>The sectors handed to the sink, each with the place it lands at, and what the walk answers.\<close>

fun raw_pieces ::
  "(nat \<Rightarrow> nat \<Rightarrow> bytes result) \<Rightarrow> recording_geometry \<Rightarrow> (u32 \<times> u32 \<times> u32) list \<Rightarrow> nat
    \<Rightarrow> (nat \<times> bytes) list \<times> unit result" where
  "raw_pieces rd g [] at = ([], Inr ())"
| "raw_pieces rd g ((c, h, s) # walk) at =
     (case rbind (offset_of g c h s) (\<lambda>offset. rd offset (rg_sector_bytes g)) of
        Inl e \<Rightarrow> ([], Inl e)
      | Inr sector \<Rightarrow>
          (case raw_pieces rd g walk (at + rg_sector_bytes g) of
             (pieces, r) \<Rightarrow> ((at, sector) # pieces, r)))"

definition write_raw_artifact ::
  "host_refusals \<Rightarrow> files \<Rightarrow> string \<Rightarrow> string \<Rightarrow> raw_plan \<Rightarrow> (nat \<Rightarrow> nat \<Rightarrow> bytes result)
    \<Rightarrow> files list \<times> unit result" where
  "write_raw_artifact host fs p staging plan committed =
     (let (pieces, answer) = raw_pieces committed (rp_geometry plan) (sector_walk (rp_geometry plan)) 0
      in place_new_artifact_streamed host fs p staging (raw_artifact_bytes plan) pieces answer)"

section \<open>The recording's order is the content's order\<close>

lemma concat_ranges: "concat (map (\<lambda>i. map (\<lambda>j. i * n + j) [0..<n]) [0..<m]) = [0..<m * n]" for n m :: nat
proof (induction m)
  case (Suc m)
  have "map (\<lambda>j. m * n + j) [0..<n] = [m * n..<m * n + n]"
    by (simp add: map_add_upt add.commute)
  then show ?case using Suc upt_add_eq_append [of 0 "m * n" n] by (simp add: add.commute)
qed simp

lemma concat_map_concat: "concat (map f (concat (map g xs))) = concat (map (\<lambda>x. concat (map f (g x))) xs)"
  by (induction xs) auto

lemma checked_total:
  assumes "checked_total_bytes g = Some n"
  shows "n = unat (rg_cylinders g) * unat (rg_heads g) * unat (rg_sectors_per_track g) * rg_sector_bytes g"
    "n < 2 ^ 64" "unat (rg_cylinders g) * unat (rg_heads g) * unat (rg_sectors_per_track g) < 2 ^ 64"
  using assms by (auto simp: checked_total_bytes_def checked_mul_def split: if_splits Option.bind_splits)

lemma total_bytes_checked: "checked_total_bytes g = Some n \<Longrightarrow> total_bytes g = n"
  using checked_total [of g n] by (simp add: total_bytes_def total_sectors_def)

lemma index_below:
  fixes c h s C H S :: nat
  assumes "c < C" "h < H" "s < S"
  shows "(c * H + h) * S + s < C * H * S"
proof -
  have "c * H + h < C * H"
    using assms mult_le_mono1 [of "Suc c" C H] by (simp add: add.commute)
  then have "Suc (c * H + h) * S \<le> C * H * S" by (intro mult_le_mono1) simp
  then show ?thesis using assms by simp
qed

lemma u32_below: "unat (x :: u32) < 2 ^ 32"
  using unsigned_less [of x] by simp

lemma offset_of_coordinate:
  assumes "checked_total_bytes g = Some n" "0 < rg_sector_bytes g"
    "c < unat (rg_cylinders g)" "h < unat (rg_heads g)" "s < unat (rg_sectors_per_track g)"
  shows "offset_of g (of_nat c) (of_nat h) (of_nat (Suc s)) =
    Inr (((c * unat (rg_heads g) + h) * unat (rg_sectors_per_track g) + s) * rg_sector_bytes g)"
proof -
  let ?i = "(c * unat (rg_heads g) + h) * unat (rg_sectors_per_track g) + s"
  have u: "unat (of_nat c :: u32) = c" "unat (of_nat h :: u32) = h" "unat (of_nat (Suc s) :: u32) = Suc s"
    using assms(3-5) u32_below [of "rg_cylinders g"] u32_below [of "rg_heads g"]
      u32_below [of "rg_sectors_per_track g"]
    by (simp_all add: unat_of_nat del: of_nat_Suc)
  have s0: "(of_nat (Suc s) :: u32) \<noteq> 0" using u(3) by (metis unat_0 nat.distinct(1))
  then have s1: "unat ((of_nat (Suc s) :: u32) - 1) = s" by (simp only: unat_minus_one u(3) diff_Suc_1 not_False_eq_True)
  have below: "?i < unat (rg_cylinders g) * unat (rg_heads g) * unat (rg_sectors_per_track g)"
    using index_below [OF assms(3-5)] .
  moreover have "?i * rg_sector_bytes g < n"
    unfolding checked_total(1) [OF assms(1)] using below assms(2) by (intro mult_less_mono1)
  ultimately show ?thesis
    using assms(3-5) checked_total(2,3) [OF assms(1)] s0 s1
    by (simp add: offset_of_def Let_def word_le_nat_alt word_less_nat_alt u del: of_nat_Suc)
qed

lemma walk_offsets:
  assumes "checked_total_bytes g = Some n" "0 < rg_sector_bytes g"
  shows "map (\<lambda>(c, h, s). offset_of g c h s) (sector_walk g) =
    map (\<lambda>k. Inr (k * rg_sector_bytes g)) [0..<total_sectors g]"
proof -
  let ?C = "unat (rg_cylinders g)" let ?H = "unat (rg_heads g)" let ?S = "unat (rg_sectors_per_track g)"
  let ?b = "rg_sector_bytes g"
  have inner: "map (\<lambda>s. offset_of g (of_nat c) (of_nat h) (of_nat s)) [1..<Suc ?S] =
      map (\<lambda>k. Inr (k * ?b)) (map (\<lambda>j. (c * ?H + h) * ?S + j) [0..<?S])"
    if "c < ?C" "h < ?H" for c h
    using offset_of_coordinate [OF assms that]
    by (simp add: map_Suc_upt [symmetric] del: map_Suc_upt upt_Suc of_nat_Suc)
  have per_c: "concat (map (\<lambda>h. map (\<lambda>s. offset_of g (of_nat c) (of_nat h) (of_nat s)) [1..<Suc ?S]) [0..<?H]) =
      map (\<lambda>k. Inr (k * ?b)) (concat (map (\<lambda>t. map (\<lambda>j. t * ?S + j) [0..<?S]) (map (\<lambda>h. c * ?H + h) [0..<?H])))"
    if "c < ?C" for c
    unfolding map_concat map_map comp_def
    by (rule arg_cong [of _ _ concat], rule map_cong [OF refl])
      (use inner [OF that] in \<open>simp add: comp_def del: upt_Suc\<close>)
  have "map (\<lambda>(c, h, s). offset_of g c h s) (sector_walk g) =
      concat (map (\<lambda>c. concat (map (\<lambda>h. map (\<lambda>s. offset_of g (of_nat c) (of_nat h) (of_nat s)) [1..<Suc ?S])
        [0..<?H])) [0..<?C])"
    by (simp add: sector_walk_def map_concat comp_def del: upt_Suc)
  also have "\<dots> = concat (map (\<lambda>c. map (\<lambda>k. Inr (k * ?b)) (concat (map (\<lambda>t. map (\<lambda>j. t * ?S + j) [0..<?S])
      (map (\<lambda>h. c * ?H + h) [0..<?H])))) [0..<?C])"
    by (rule arg_cong [of _ _ concat], rule map_cong [OF refl]) (rule per_c, simp)
  also have "\<dots> = map (\<lambda>k. Inr (k * ?b)) (concat (map (\<lambda>c. concat (map (\<lambda>t. map (\<lambda>j. t * ?S + j) [0..<?S])
      (map (\<lambda>h. c * ?H + h) [0..<?H]))) [0..<?C]))"
    by (simp only: map_concat map_map comp_def)
  also have "\<dots> = map (\<lambda>k. Inr (k * ?b)) (concat (map (\<lambda>t. map (\<lambda>j. t * ?S + j) [0..<?S])
      (concat (map (\<lambda>c. map (\<lambda>h. c * ?H + h) [0..<?H]) [0..<?C]))))"
    by (simp only: concat_map_concat)
  also have "\<dots> = map (\<lambda>k. Inr (k * ?b)) [0..<?C * ?H * ?S]"
    by (simp only: concat_ranges)
  finally show ?thesis
    using checked_total(3) [OF assms(1)] by (simp add: total_sectors_def)
qed

lemma in_concat_map: "x \<in> set (concat (map f xs)) \<longleftrightarrow> (\<exists>i\<in>set xs. x \<in> set (f i))"
  by auto

lemma walk_set:
  "(c, h, s) \<in> set (sector_walk g) \<longleftrightarrow>
    c < rg_cylinders g \<and> h < rg_heads g \<and> s \<noteq> 0 \<and> s \<le> rg_sectors_per_track g"
proof
  assume "(c, h, s) \<in> set (sector_walk g)"
  then obtain c1 h1 s1 where m: "c = of_nat c1" "h = of_nat h1" "s = of_nat s1" "c1 < unat (rg_cylinders g)"
    "h1 < unat (rg_heads g)" "0 < s1" "s1 \<le> unat (rg_sectors_per_track g)"
    by (auto simp: sector_walk_def simp del: upt_Suc)
  moreover have "unat (of_nat c1 :: u32) = c1" "unat (of_nat h1 :: u32) = h1" "unat (of_nat s1 :: u32) = s1"
    using m(4,5,7) u32_below [of "rg_cylinders g"] u32_below [of "rg_heads g"]
      u32_below [of "rg_sectors_per_track g"] by (simp_all add: unat_of_nat)
  ultimately show "c < rg_cylinders g \<and> h < rg_heads g \<and> s \<noteq> 0 \<and> s \<le> rg_sectors_per_track g"
    by (auto simp: word_less_nat_alt word_le_nat_alt)
next
  assume a: "c < rg_cylinders g \<and> h < rg_heads g \<and> s \<noteq> 0 \<and> s \<le> rg_sectors_per_track g"
  have c: "unat c \<in> set [0..<unat (rg_cylinders g)]" and h: "unat h \<in> set [0..<unat (rg_heads g)]"
    and s: "unat s \<in> set [1..<Suc (unat (rg_sectors_per_track g))]"
    using a by (auto simp: word_less_nat_alt word_le_nat_alt Suc_le_eq unat_gt_0 simp del: upt_Suc)
  have "(of_nat (unat c), of_nat (unat h), of_nat (unat s)) \<in> set (sector_walk g)"
    unfolding sector_walk_def in_concat_map
    by (intro bexI [OF _ c] bexI [OF _ h], unfold set_map) (rule image_eqI [OF refl s])
  then show "(c, h, s) \<in> set (sector_walk g)" by simp
qed

text \<open>
  C37: coordinates whose bytes are countable address the content in the recording's order: the walk by
  cylinder, head and sector from one visits the offsets of sectors 0, 1, 2 and so on to the last, a
  coordinate is on that walk exactly when the address is answered, and no two coordinates share an offset.
\<close>

theorem coordinates_address_in_order:
  assumes "checked_total_bytes g = Some n" "0 < rg_sector_bytes g"
  shows "map (\<lambda>(c, h, s). offset_of g c h s) (sector_walk g) =
      map (\<lambda>k. Inr (k * rg_sector_bytes g)) [0..<total_sectors g] \<and>
    distinct (sector_walk g) \<and> total_sectors g * rg_sector_bytes g = n \<and>
    (\<forall>c h s. (case offset_of g c h s of Inr _ \<Rightarrow> (c, h, s) \<in> set (sector_walk g)
       | Inl e \<Rightarrow> e = geometry_refuse OutsideGeometry \<and> (c, h, s) \<notin> set (sector_walk g)))"
proof (intro conjI allI)
  show offs: "map (\<lambda>(c, h, s). offset_of g c h s) (sector_walk g) =
      map (\<lambda>k. Inr (k * rg_sector_bytes g)) [0..<total_sectors g]"
    by (rule walk_offsets [OF assms])
  have "distinct (map (\<lambda>k. Inr (k * rg_sector_bytes g) :: nat result) [0..<total_sectors g])"
    using assms(2) by (simp add: distinct_map inj_on_def)
  then show "distinct (sector_walk g)" unfolding offs [symmetric] distinct_map by (rule conjunct1)
  show "total_sectors g * rg_sector_bytes g = n"
    using checked_total [OF assms(1)] by (simp add: total_sectors_def)
  show "case offset_of g c h s of Inr _ \<Rightarrow> (c, h, s) \<in> set (sector_walk g)
       | Inl e \<Rightarrow> e = geometry_refuse OutsideGeometry \<and> (c, h, s) \<notin> set (sector_walk g)" for c h s
    unfolding walk_set by (auto simp: offset_of_def Let_def)
qed

definition sample_geometry :: recording_geometry where
  "sample_geometry = \<lparr>rg_cylinders = 2, rg_heads = 1, rg_sectors_per_track = 1, rg_sector_bytes = 2\<rparr>"

lemma sample_total: "checked_total_bytes sample_geometry = Some 4" "rg_sector_bytes sample_geometry = 2"
  by (simp_all add: checked_total_bytes_def checked_mul_def sample_geometry_def)

lemma coordinates_address_in_order_witness:
  "map (\<lambda>(c, h, s). offset_of sample_geometry c h s) (sector_walk sample_geometry) = [Inr 0, Inr 2]"
proof -
  have "0 < rg_sector_bytes sample_geometry" by (simp add: sample_total)
  note all = coordinates_address_in_order [OF sample_total(1) this, unfolded sample_total(2)]
  have "total_sectors sample_geometry = 2" by (simp add: total_sectors_def sample_geometry_def)
  with conjunct1 [OF all] show ?thesis by (simp add: upt_rec)
qed

section \<open>The artifact holds the recording\<close>

lemma raw_pieces_serve:
  assumes "map (\<lambda>(c, h, s). offset_of g c h s) walk = map (\<lambda>k. Inr (k * rg_sector_bytes g)) [i..<j]" "i \<le> j"
    "j * rg_sector_bytes g \<le> length content"
  shows "raw_pieces (image_read content) g walk (i * rg_sector_bytes g) =
    (map (\<lambda>k. (k * rg_sector_bytes g, slice (k * rg_sector_bytes g) (rg_sector_bytes g) content)) [i..<j], Inr ())"
  using assms
proof (induction walk arbitrary: i)
  case (Cons t walk)
  obtain c h s where t: "t = (c, h, s)" by (cases t)
  from Cons.prems(1,2) have ij: "i < j" by (cases "i = j") simp_all
  with Cons.prems(1) t have o: "offset_of g c h s = Inr (i * rg_sector_bytes g)"
    and o1: "map (\<lambda>(c, h, s). offset_of g c h s) walk = map (\<lambda>k. Inr (k * rg_sector_bytes g)) [Suc i..<j]"
    by (simp_all add: upt_conv_Cons)
  have "Suc i * rg_sector_bytes g \<le> j * rg_sector_bytes g" using ij by (intro mult_le_mono1) simp
  then have r: "image_read content (i * rg_sector_bytes g) (rg_sector_bytes g) =
      Inr (slice (i * rg_sector_bytes g) (rg_sector_bytes g) content)"
    using Cons.prems(3) by (simp add: image_read_def)
  have "raw_pieces (image_read content) g walk (i * rg_sector_bytes g + rg_sector_bytes g) =
      (map (\<lambda>k. (k * rg_sector_bytes g, slice (k * rg_sector_bytes g) (rg_sector_bytes g) content)) [Suc i..<j], Inr ())"
    using Cons.IH [OF o1] ij Cons.prems(3) by (simp add: add.commute)
  then show ?case using ij by (simp add: t o r upt_conv_Cons)
qed simp

lemma grow_by_slice:
  assumes "0 < b" "Suc k * b \<le> length content"
  shows "file_write_all_at (take (k * b) content) (k * b) (slice (k * b) b content) = take (Suc k * b) content"
proof -
  have n: "slice (k * b) b content \<noteq> []" "length (slice (k * b) b content) = b"
    using assms by (auto simp: slice_def)
  have "take (Suc k * b) content = take (k * b) content @ slice (k * b) b content"
    by (simp add: slice_def take_add add.commute [of b])
  then show ?thesis
    using n assms by (simp add: file_write_all_at_def splice_def)
qed

lemma slices_written:
  assumes "0 < b" "j * b \<le> length content" "i \<le> j"
  shows "fold (\<lambda>(off, bs) f. file_write_all_at f off bs) (map (\<lambda>k. (k * b, slice (k * b) b content)) [i..<j])
    (take (i * b) content) = take (j * b) content"
  using assms(2,3)
proof (induction j)
  case (Suc j)
  show ?case
  proof (cases "i = Suc j")
    case False
    then show ?thesis
      using Suc grow_by_slice [OF assms(1) Suc.prems(1)] by simp
  qed simp
qed simp

lemma rendition_pieces:
  assumes "checked_total_bytes g = Some n" "0 < rg_sector_bytes g" "n \<le> length content"
  shows "\<exists>pieces. raw_pieces (image_read content) g (sector_walk g) 0 = (pieces, Inr ()) \<and>
    written_file pieces = take n content"
proof -
  have n: "n = total_sectors g * rg_sector_bytes g"
    using checked_total [OF assms(1)] by (simp add: total_sectors_def)
  show ?thesis
    using raw_pieces_serve [OF walk_offsets [OF assms(1,2)]] assms(3)
      slices_written [OF assms(2), of "total_sectors g" content 0]
    by (simp add: n written_file_def)
qed


definition willing_host :: host_refusals where
  "willing_host = \<lparr>refuses_create = False, refuses_write = (\<lambda>k. None), refuses_sync = False,
     refuses_rename = False, refuses_remove = False\<rparr>"

definition sample_facts :: raw_facts where
  "sample_facts = \<lparr>rf_device_type = None, rf_authored_as = Some ''blank'', rf_recorded_as = None,
     rf_evidence_lines = 0\<rparr>"


end
