(* ===== verification/Gcr.thy ===== *)
theory Gcr
  imports Wire
begin

text \<open>
  The Commodore 1541's declarations and its group code: the density map, the codec and the record grammar
  (\<open>flux/drive_profile/mod.rs\<close>, \<open>flux/drive_profile/entries.rs\<close>, \<open>flux/c1541/declarations.rs\<close>), the byte
  records of a bytestream (\<open>flux/bytestream.rs\<close>), and the transition from clocked bits to framed bytes
  (\<open>flux/c1541/presentation.rs\<close>), all under \<open>src/crates/remanence/src\<close>. A bitstream is the list of its
  locations with their cells, a bytestream the list of its locations with their records and facts; the
  section backing both are held in is modelled by \<open>Sections\<close>. Provenance notes are left out.
\<close>

unbundle bit_operations_syntax

section \<open>Declarations\<close>

record density_zone =
  dz_first_location :: nat
  dz_last_location :: nat
  dz_rate_numerator :: nat
  dz_rate_denominator :: nat
  dz_records :: nat

definition C1541_DENSITY :: "density_zone list" where
  "C1541_DENSITY =
     [\<lparr>dz_first_location = 1, dz_last_location = 17, dz_rate_numerator = 16000000, dz_rate_denominator = 52,
       dz_records = 21\<rparr>,
      \<lparr>dz_first_location = 18, dz_last_location = 24, dz_rate_numerator = 16000000, dz_rate_denominator = 56,
       dz_records = 19\<rparr>,
      \<lparr>dz_first_location = 25, dz_last_location = 30, dz_rate_numerator = 16000000, dz_rate_denominator = 60,
       dz_records = 18\<rparr>,
      \<lparr>dz_first_location = 31, dz_last_location = 35, dz_rate_numerator = 16000000, dz_rate_denominator = 64,
       dz_records = 17\<rparr>]"

definition zone_for_ratio :: "density_zone list \<Rightarrow> nat \<Rightarrow> nat \<Rightarrow> (nat \<times> density_zone) option" where
  "zone_for_ratio density numerator denominator =
     (let d = max denominator 1 in
      List.find (\<lambda>(_, zone). dz_first_location zone * d \<le> numerator \<and> numerator \<le> dz_last_location zone * d)
        (enumerate 0 density))"

record group_codec =
  gc_symbol_bits :: nat
  gc_data_bits :: nat
  gc_symbols :: "nat list"

definition symbols_per_byte :: "group_codec \<Rightarrow> nat option" where
  "symbols_per_byte codec =
     (if gc_data_bits codec > 0 \<and> 8 mod gc_data_bits codec = 0 then Some (8 div gc_data_bits codec) else None)"

fun symbol_at :: "nat list \<Rightarrow> nat \<Rightarrow> nat option" where
  "symbol_at [] symbol = None"
| "symbol_at (s # ss) symbol = (if s = symbol then Some 0 else map_option Suc (symbol_at ss symbol))"

definition value_of :: "group_codec \<Rightarrow> nat \<Rightarrow> u8 option" where
  "value_of codec symbol = map_option of_nat (symbol_at (gc_symbols codec) symbol)"

definition C1541_GCR_SYMBOLS :: "nat list" where
  "C1541_GCR_SYMBOLS =
     [0b01010, 0b01011, 0b10010, 0b10011, 0b01110, 0b01111, 0b10110, 0b10111, 0b01001, 0b11001,
      0b11010, 0b11011, 0b01101, 0b11101, 0b11110, 0b10101]"

definition CODEC :: group_codec where
  "CODEC = \<lparr>gc_symbol_bits = 5, gc_data_bits = 4, gc_symbols = C1541_GCR_SYMBOLS\<rparr>"

definition ALIGNMENT_ONE_BITS :: nat where "ALIGNMENT_ONE_BITS = 10"

text \<open>Every checked byte exclusive-ored together: the family's one checksum rule.\<close>

definition xor_over :: "bytes \<Rightarrow> u8" where "xor_over bs = fold (\<lambda>b s. s XOR b) bs 0"

record block_shape =
  bk_mark :: u8
  bk_bytes :: nat
  bk_checksum_at :: nat
  bk_checked_from :: nat
  bk_checked_to :: nat

record record_grammar =
  rg_header :: block_shape
  rg_data :: block_shape
  rg_track_at :: nat
  rg_sector_at :: nat
  rg_id_high_at :: nat
  rg_id_low_at :: nat
  rg_payload_from :: nat
  rg_payload_to :: nat

definition RECORD :: record_grammar where
  "RECORD = \<lparr>rg_header = \<lparr>bk_mark = 0x08, bk_bytes = 8, bk_checksum_at = 1, bk_checked_from = 2, bk_checked_to = 6\<rparr>,
     rg_data = \<lparr>bk_mark = 0x07, bk_bytes = 260, bk_checksum_at = 257, bk_checked_from = 1, bk_checked_to = 257\<rparr>,
     rg_track_at = 3, rg_sector_at = 2, rg_id_high_at = 5, rg_id_low_at = 4, rg_payload_from = 1,
     rg_payload_to = 257\<rparr>"

definition block_of :: "record_grammar \<Rightarrow> u8 \<Rightarrow> block_shape option" where
  "block_of grammar mark =
     (if mark = bk_mark (rg_header grammar) then Some (rg_header grammar)
      else if mark = bk_mark (rg_data grammar) then Some (rg_data grammar) else None)"

definition payload_bytes :: "record_grammar \<Rightarrow> nat" where
  "payload_bytes grammar = rg_payload_to grammar - rg_payload_from grammar"

datatype alignment_policy = Landmark | Origin
datatype unassigned_policy = RefuseUnassigned | DeclareUnassigned

record gcr_codec_policy =
  cp_alignment :: alignment_policy
  cp_unassigned :: unassigned_policy

definition CODEC_POLICY :: gcr_codec_policy where
  "CODEC_POLICY = \<lparr>cp_alignment = Landmark, cp_unassigned = DeclareUnassigned\<rparr>"

section \<open>The bytestream\<close>

record location_key =
  lk_profile :: string
  lk_numerator :: nat
  lk_denominator :: nat
  lk_surface :: "nat option"

datatype byte_outcome = Resolved u8 | Unresolved nat

record byte_record =
  br_at_bit :: nat
  br_outcome :: byte_outcome

definition br_value :: "byte_record \<Rightarrow> u8 option" where
  "br_value r = (case br_outcome r of Resolved v \<Rightarrow> Some v | Unresolved _ \<Rightarrow> None)"

datatype bytestream_fact = Alignment nat nat | Unframed nat nat

text \<open>What one location holds, beside what the transition reports of it.\<close>

record bytestream_location =
  bl_key :: location_key
  bl_records :: "byte_record list"
  bl_facts :: "bytestream_fact list"
  bl_unassigned_groups :: nat
  bl_alignments :: nat
  bl_longest_landmark_bits :: nat
  bl_unframed_bits :: nat

record bytestream =
  by_profile :: string
  by_locations :: "bytestream_location list"
  by_loss :: "declared_loss list"

text \<open>A clocked cell: its bit, and whether the medium recorded it rather than a rule resolving it.\<close>

record bitstream =
  bi_profile :: string
  bi_locations :: "(location_key \<times> (bool \<times> bool) list) list"

definition C1541_ID :: string where "C1541_ID = ''c1541''"

definition gcr_refuse :: error where "gcr_refuse = invalid_image C1541_ID"

definition note_loss :: "declared_loss list \<Rightarrow> string \<Rightarrow> nat \<Rightarrow> declared_loss list" where
  "note_loss es code n = loss_add es (map of_char code) [] n"

section \<open>The codec\<close>

fun resolve_from :: "group_codec \<Rightarrow> nat \<Rightarrow> nat \<Rightarrow> u8 \<Rightarrow> nat list \<Rightarrow> u8 option" where
  "resolve_from codec per group_bits value [] = Some value"
| "resolve_from codec per group_bits value (at # ats) =
     (let shift = gc_symbol_bits codec * (per - 1 - at);
          symbol = drop_bit shift group_bits AND (2 ^ gc_symbol_bits codec - 1)
      in if symbol \<ge> 2 ^ 16 then None
         else case value_of codec symbol of
                None \<Rightarrow> None
              | Some v \<Rightarrow> resolve_from codec per group_bits (push_bit (gc_data_bits codec) value OR v) ats)"

definition resolve_group :: "group_codec \<Rightarrow> nat \<Rightarrow> nat \<Rightarrow> u8 option" where
  "resolve_group codec per g = resolve_from codec per g 0 [0..<per]"

record framed =
  fr_landmarks :: "(nat \<times> nat) list"
  fr_segments :: "(nat \<times> nat) list"
  fr_unframed :: "(nat \<times> nat) list"

text \<open>Every landmark-length run of ones, as its place and length.\<close>

function scan_landmarks :: "nat \<Rightarrow> bool list \<Rightarrow> nat \<Rightarrow> (nat \<times> nat) list" where
  "scan_landmarks landmark [] at = []"
| "scan_landmarks landmark (False # bs) at = scan_landmarks landmark bs (at + 1)"
| "scan_landmarks landmark (True # bs) at =
     (let run = Suc (length (takeWhile id bs)); later = scan_landmarks landmark (dropWhile id bs) (at + run)
      in if run \<ge> landmark then (at, run) # later else later)"
  by pat_completeness auto
termination
  by (relation "measure (\<lambda>(_, bs, _). length bs)") (auto simp: le_imp_less_Suc length_dropWhile_le)

fun place_segments ::
  "alignment_policy \<Rightarrow> nat \<Rightarrow> (nat \<times> nat) list \<Rightarrow> nat \<Rightarrow> bool \<Rightarrow> (nat \<times> nat) list \<times> (nat \<times> nat) list" where
  "place_segments alignment len [] cursor before =
     (if cursor < len then
        if before \<and> alignment = Landmark then ([], [(cursor, len - cursor)]) else ([(cursor, len)], [])
      else ([], []))"
| "place_segments alignment len ((start, run) # marks) cursor before =
     (case place_segments alignment len marks (start + run) False of
        (segments, unframed) \<Rightarrow>
          if start > cursor then
            if before \<and> alignment = Landmark then (segments, (cursor, start - cursor) # unframed)
            else ((cursor, start) # segments, unframed)
          else (segments, unframed))"

definition framed_resolve :: "bool list \<Rightarrow> nat \<Rightarrow> alignment_policy \<Rightarrow> framed" where
  "framed_resolve bits landmark alignment =
     (let marks = scan_landmarks landmark bits 0;
          (segments, unframed) = place_segments alignment (length bits) marks 0 True
      in \<lparr>fr_landmarks = marks, fr_segments = segments, fr_unframed = unframed\<rparr>)"

definition group_bits :: nat where
  "group_bits = (case symbols_per_byte CODEC of Some n \<Rightarrow> n * gc_symbol_bits CODEC | None \<Rightarrow> 0)"

lemma group_bits_10 [simp]: "symbols_per_byte CODEC = Some 2" "group_bits = 10"
  by (simp_all add: group_bits_def symbols_per_byte_def CODEC_def)

definition bits_value :: "bool list \<Rightarrow> nat" where
  "bits_value bs = fold (\<lambda>b v. push_bit 1 v OR of_bool b) bs 0"

text \<open>The groups of one framed span: its records, and where the last whole group ends.\<close>

function frame_groups :: "unassigned_policy \<Rightarrow> bool list \<Rightarrow> nat \<Rightarrow> nat \<Rightarrow> (byte_record list \<times> nat) result" where
  "frame_groups policy bits at stop =
     (if at + group_bits \<le> stop then
        let g = bits_value (slice at group_bits bits); outcome = resolve_group CODEC 2 g
        in if outcome = None \<and> policy = RefuseUnassigned then Inl gcr_refuse
           else rbind (frame_groups policy bits (at + group_bits) stop) (\<lambda>(records, done_at).
             Inr (\<lparr>br_at_bit = at, br_outcome = (case outcome of Some v \<Rightarrow> Resolved v | None \<Rightarrow> Unresolved g)\<rparr>
                    # records, done_at))
      else Inr ([], at))"
  by pat_completeness auto
termination
  by (relation "measure (\<lambda>(_, _, at, stop). stop - at)") auto

declare frame_groups.simps [simp del]

fun frame_segments ::
  "unassigned_policy \<Rightarrow> bool list \<Rightarrow> (nat \<times> nat) list \<Rightarrow> (byte_record list \<times> bytestream_fact list) result" where
  "frame_segments policy bits [] = Inr ([], [])"
| "frame_segments policy bits ((start, stop) # segments) =
     rbind (frame_groups policy bits start stop) (\<lambda>(records, at).
     rbind (frame_segments policy bits segments) (\<lambda>(records1, facts).
       Inr (records @ records1, (if at < stop then [Unframed at (stop - at)] else []) @ facts)))"

fun fact_unframed :: "bytestream_fact \<Rightarrow> nat" where
  "fact_unframed (Unframed at n) = n"
| "fact_unframed (Alignment at run) = 0"

definition loss_if :: "nat \<Rightarrow> string \<Rightarrow> declared_loss list \<Rightarrow> declared_loss list" where
  "loss_if n code es = (if n > 0 then note_loss es code n else es)"

definition materialize_location ::
  "gcr_codec_policy \<Rightarrow> location_key \<Rightarrow> (bool \<times> bool) list \<Rightarrow> declared_loss list
    \<Rightarrow> (bytestream_location \<times> declared_loss list) result" where
  "materialize_location policy key cells loss =
     (let bits = map fst cells; unrecorded = length (filter (\<lambda>c. \<not> snd c) cells);
          fr = framed_resolve bits ALIGNMENT_ONE_BITS (cp_alignment policy)
      in rbind (frame_segments (cp_unassigned policy) bits (fr_segments fr)) (\<lambda>(records, tails).
         let facts = map (\<lambda>(at, run). Alignment at run) (fr_landmarks fr) @ tails
               @ map (\<lambda>(at, n). Unframed at n) (fr_unframed fr);
             unassigned = length (filter (\<lambda>r. br_value r = None) records);
             unframed = sum_list (map fact_unframed facts);
             landmark_bits = sum_list (map snd (fr_landmarks fr))
         in if lk_profile key \<noteq> C1541_ID then Inl gcr_refuse
            else Inr (\<lparr>bl_key = key, bl_records = records, bl_facts = facts, bl_unassigned_groups = unassigned,
                  bl_alignments = length (fr_landmarks fr),
                  bl_longest_landmark_bits = fold max (map snd (fr_landmarks fr)) 0,
                  bl_unframed_bits = unframed\<rparr>,
                loss_if unrecorded ''resolved-bit-evidence'' (loss_if unassigned ''unassigned-symbol''
                  (loss_if unframed ''unframed-bits'' (loss_if landmark_bits ''alignment-landmark'' loss))))))"

fun materialize_locations ::
  "gcr_codec_policy \<Rightarrow> (location_key \<times> (bool \<times> bool) list) list \<Rightarrow> declared_loss list
    \<Rightarrow> (bytestream_location list \<times> declared_loss list) result" where
  "materialize_locations policy [] loss = Inr ([], loss)"
| "materialize_locations policy ((key, cells) # locs) loss =
     rbind (materialize_location policy key cells loss) (\<lambda>(l, loss1).
     rbind (materialize_locations policy locs loss1) (\<lambda>(ls, loss2). Inr (l # ls, loss2)))"

definition materialize_bytestream :: "bitstream \<Rightarrow> gcr_codec_policy \<Rightarrow> bytestream result" where
  "materialize_bytestream bi policy =
     (if bi_profile bi \<noteq> C1541_ID then Inl gcr_refuse
      else if symbols_per_byte CODEC = None then Inl gcr_refuse
      else if ALIGNMENT_ONE_BITS = 0 then Inl gcr_refuse
      else rbind (materialize_locations policy (bi_locations bi) []) (\<lambda>(ls, loss).
        Inr \<lparr>by_profile = C1541_ID, by_locations = ls, by_loss = loss\<rparr>))"

definition materialize_declared :: "bitstream \<Rightarrow> bytestream result" where
  "materialize_declared bi = materialize_bytestream bi CODEC_POLICY"

end
