(* ===== verification/Gcr_Proofs.thy ===== *)
theory Gcr_Proofs
  imports Gcr
begin

text \<open>
  The group code read back: no run of coded bytes holds a landmark, so on a track of synchronized blocks
  framing begins after each run of sync ones and yields the block's bytes, but for a last byte whose closing
  ones the next sync absorbs.
\<close>

section \<open>What a writer lays down\<close>

text \<open>The published table, each symbol as it is recorded.\<close>

definition NIBBLES :: "bool list list" where
  "NIBBLES =
     [[False, True, False, True, False],
      [False, True, False, True, True],
      [True, False, False, True, False],
      [True, False, False, True, True],
      [False, True, True, True, False],
      [False, True, True, True, True],
      [True, False, True, True, False],
      [True, False, True, True, True],
      [False, True, False, False, True],
      [True, True, False, False, True],
      [True, True, False, True, False],
      [True, True, False, True, True],
      [False, True, True, False, True],
      [True, True, True, False, True],
      [True, True, True, True, False],
      [True, False, True, False, True]]"

definition nibble_bits :: "nat \<Rightarrow> bool list" where
  "nibble_bits n = (if n < 16 then NIBBLES ! n else NIBBLES ! 0)"

definition gcr_byte :: "u8 \<Rightarrow> bool list" where
  "gcr_byte b = nibble_bits (unat b div 16) @ nibble_bits (unat b mod 16)"

definition gcr_bytes :: "bytes \<Rightarrow> bool list" where
  "gcr_bytes bs = concat (map gcr_byte bs)"

lemma gcr_bytes_simps [simp]: "gcr_bytes [] = []" "gcr_bytes (b # bs) = gcr_byte b @ gcr_bytes bs"
  "gcr_bytes (bs @ cs) = gcr_bytes bs @ gcr_bytes cs"
  by (simp_all add: gcr_bytes_def)

lemma upt_16: "[0..<16] = [0, 1, 2, 3, 4, 5, 6, 7, 8, 9, 10, 11, 12, 13, 14, 15 :: nat]"
  by (simp add: upt_rec)

lemma nibble_table: "map nibble_bits [0..<16] = NIBBLES"
  by (simp add: upt_16 nibble_bits_def NIBBLES_def)

lemma nibble_in: "n < 16 \<Longrightarrow> nibble_bits n \<in> set NIBBLES"
  unfolding nibble_table [symmetric] by (simp del: upt_Suc upt_rec_numeral)

lemma nibble_length: "length (nibble_bits n) = 5"
proof -
  have "list_all (\<lambda>x. length x = 5) NIBBLES" by (simp add: NIBBLES_def)
  then show ?thesis by (simp add: nibble_bits_def list_all_iff NIBBLES_def [THEN arg_cong [of _ _ length]])
qed

lemma length_gcr [simp]: "length (gcr_byte b) = 10" "length (gcr_bytes bs) = 10 * length bs"
proof -
  show b: "length (gcr_byte b) = 10" for b by (simp add: gcr_byte_def nibble_length)
  show "length (gcr_bytes bs) = 10 * length bs" by (induction bs) (simp_all add: b)
qed

section \<open>One group\<close>

lemma bits_value_fold: "bits_value bs = fold (\<lambda>b v. 2 * v + of_bool b) bs 0"
proof -
  have "(\<lambda>b v :: nat. push_bit 1 v OR of_bool b) = (\<lambda>b v. 2 * v + of_bool b)"
  proof (intro ext)
    fix b and v :: nat
    show "push_bit 1 v OR of_bool b = 2 * v + of_bool b" by (cases b) (simp_all add: or_Suc_0_eq mult.commute)
  qed
  then show ?thesis by (simp add: bits_value_def)
qed

lemma horner: "fold (\<lambda>b v. 2 * v + of_bool b) bs v = v * 2 ^ length bs + fold (\<lambda>b v. 2 * v + of_bool b) bs (0 :: nat)"
proof (induction bs arbitrary: v)
  case (Cons x bs)
  let ?F = "fold (\<lambda>b v. 2 * v + of_bool b) bs (0 :: nat)"
  have "fold (\<lambda>b v. 2 * v + of_bool b) (x # bs) v = (2 * v + of_bool x) * 2 ^ length bs + ?F"
    using Cons [of "2 * v + of_bool x"] by (simp only: fold_simps)
  also have "\<dots> = v * 2 ^ length (x # bs) + (of_bool x * 2 ^ length bs + ?F)" by (simp add: algebra_simps)
  also have "of_bool x * 2 ^ length bs + ?F = fold (\<lambda>b v. 2 * v + of_bool b) (x # bs) 0"
    using Cons [of "of_bool x"] by (simp only: fold_simps mult_0_right add_0)
  finally show ?case .
qed simp

lemma bits_value_append: "bits_value (a @ b) = bits_value a * 2 ^ length b + bits_value b"
  unfolding bits_value_fold fold_append comp_apply by (rule horner)

lemma symbol_values: "map bits_value NIBBLES = C1541_GCR_SYMBOLS"
  by (simp add: NIBBLES_def C1541_GCR_SYMBOLS_def bits_value_fold)

lemma symbol_table:
  "list_all (\<lambda>n. value_of CODEC (C1541_GCR_SYMBOLS ! n) = Some (of_nat n) \<and> C1541_GCR_SYMBOLS ! n < 32) [0..<16]"
  by (simp add: upt_16 C1541_GCR_SYMBOLS_def value_of_def CODEC_def)

lemma nibble_back:
  assumes "n < 16"
  shows "value_of CODEC (bits_value (nibble_bits n)) = Some (of_nat n)" "bits_value (nibble_bits n) < 32"
proof -
  have "length NIBBLES = 16" by (simp add: NIBBLES_def)
  then have "bits_value (nibble_bits n) = C1541_GCR_SYMBOLS ! n"
    using assms by (simp add: nibble_bits_def flip: symbol_values)
  moreover have "n \<in> set [0..<16]" using assms by (simp del: upt_Suc upt_rec_numeral)
  ultimately have "value_of CODEC (bits_value (nibble_bits n)) = Some (of_nat n) \<and> bits_value (nibble_bits n) < 32"
    using symbol_table unfolding list_all_iff by simp
  then show "value_of CODEC (bits_value (nibble_bits n)) = Some (of_nat n)" "bits_value (nibble_bits n) < 32"
    by simp_all
qed

lemma resolve_gcr_byte: "resolve_group CODEC 2 (bits_value (gcr_byte b)) = Some b"
proof -
  define h where "h = unat b div 16"
  define l where "l = unat b mod 16"
  have b: "unat b < 256" using unsigned_less [of b] by simp
  have hl: "h < 16" "l < 16" using b by (auto simp: h_def l_def)
  note nb = nibble_back
  have v: "bits_value (gcr_byte b) = bits_value (nibble_bits h) * 32 + bits_value (nibble_bits l)"
    by (simp add: gcr_byte_def bits_value_append h_def l_def nibble_length)
  define x where "x = bits_value (nibble_bits h)"
  define y where "y = bits_value (nibble_bits l)"
  have xy: "x < 32" "y < 32" "value_of CODEC x = Some (of_nat h)" "value_of CODEC y = Some (of_nat l)"
    using nb [OF hl(1)] nb [OF hl(2)] by (simp_all add: x_def y_def)
  have m: "z AND 31 = z mod 32" for z :: nat using take_bit_eq_mask [of 5 z] by (simp add: take_bit_eq_mod mask_eq_exp_minus_1)
  have parts: "drop_bit 5 (x * 32 + y) AND 31 = x" "(x * 32 + y) AND 31 = y"
    using xy(1,2) by (simp_all add: m drop_bit_eq_div)
  have word: "push_bit 4 (of_nat h) OR of_nat l = b"
  proof -
    have "h = unat (drop_bit 4 b)" by (simp add: h_def unat_div drop_bit_eq_div)
    then have "(of_nat h :: u8) = drop_bit 4 b" by (simp only: of_nat_unat ucast_id)
    moreover have "l = unat (take_bit 4 b)" by (simp add: l_def unat_mod take_bit_eq_mod)
    then have "(of_nat l :: u8) = take_bit 4 b" by (simp only: of_nat_unat ucast_id)
    ultimately show ?thesis by (auto intro!: bit_eqI simp: bit_simps)
  qed
  show ?thesis
    using xy parts word
    by (simp add: resolve_group_def upt_rec v x_def [symmetric] y_def [symmetric] CODEC_def [THEN arg_cong [of _ _ gc_symbol_bits]]
      CODEC_def [THEN arg_cong [of _ _ gc_data_bits]] Let_def)
qed

section \<open>Coded bytes hold no landmark\<close>

text \<open>Every run of ones, the first lengthened by \<open>c\<close>, is shorter than a landmark.\<close>

fun bounded :: "nat \<Rightarrow> bool list \<Rightarrow> bool" where
  "bounded c [] = (c < 10)"
| "bounded c (False # bs) = (c < 10 \<and> bounded 0 bs)"
| "bounded c (True # bs) = bounded (Suc c) bs"

lemma bounded_run: "bounded c bs \<Longrightarrow> c + length (takeWhile id bs) < 10 \<and> bounded 0 (dropWhile id bs)"
  by (induction c bs rule: bounded.induct) auto

lemma bounded_scan: "bounded 0 bs \<Longrightarrow> scan_landmarks 10 bs at = []"
proof (induction "10 :: nat" bs "at" rule: scan_landmarks.induct)
  case (3 bs "at")
  then show ?case using bounded_run [of 1 bs] by (simp add: Let_def)
qed simp_all

lemma bounded_nibble:
  assumes "x \<in> set NIBBLES" "c \<le> 4" "\<And>c. c \<le> 4 \<Longrightarrow> bounded c rest"
  shows "bounded c (x @ rest)"
proof -
  have "list_all (\<lambda>x. bounded c (x @ rest)) NIBBLES"
    using assms(2) assms(3) [of 0] assms(3) [of 1] assms(3) [of 2] assms(3) [of 3] assms(3) [of 4]
    by (simp add: NIBBLES_def numeral_eq_Suc)
  then show ?thesis using assms(1) by (simp add: list_all_iff)
qed

lemma bounded_gcr:
  assumes "\<And>c. c \<le> 4 \<Longrightarrow> bounded c rest" "c \<le> 4"
  shows "bounded c (gcr_bytes bs @ rest)"
  using assms(2)
proof (induction bs arbitrary: c)
  case (Cons b bs)
  have "unat b < 256" using unsigned_less [of b] by simp
  then have "unat b div 16 < 16" "unat b mod 16 < 16" by auto
  then show ?case
    unfolding gcr_bytes_simps gcr_byte_def append_assoc
    by (intro bounded_nibble nibble_in Cons)
qed (simp add: assms)

lemma gcr_holds_no_landmark: "scan_landmarks 10 (gcr_bytes bs) at = []"
  using bounded_scan [OF bounded_gcr [of "[]" 0 bs]] by simp

lemma bounded_prefix: "bounded c (xs @ ys) \<Longrightarrow> \<not> last xs \<Longrightarrow> xs \<noteq> [] \<Longrightarrow> bounded c xs"
proof (induction c xs rule: bounded.induct)
  case (3 c bs)
  then show ?case by (cases bs) auto
next
  case (2 c bs)
  then show ?case by (cases bs) auto
qed simp

section \<open>The closing ones of a block\<close>

definition tail_ones :: "bytes \<Rightarrow> nat" where
  "tail_ones bs = length (takeWhile id (rev (gcr_bytes bs)))"

lemma split_tail:
  assumes "n = length (takeWhile id (rev xs))"
  shows "xs = take (length xs - n) xs @ replicate n True \<and> n \<le> length xs \<and>
    (take (length xs - n) xs \<noteq> [] \<longrightarrow> \<not> last (take (length xs - n) xs))"
proof -
  define d where "d = rev (dropWhile id (rev xs))"
  have "rev xs = takeWhile id (rev xs) @ dropWhile id (rev xs)" by simp
  then have "xs = d @ rev (takeWhile id (rev xs))"
    unfolding d_def by (metis rev_append rev_rev_ident)
  moreover have "takeWhile id (rev xs) = replicate n True"
    unfolding assms by (rule replicate_eqI) (auto dest: set_takeWhileD)
  ultimately have x: "xs = d @ replicate n True" by simp
  have end_d: "d \<noteq> [] \<Longrightarrow> \<not> last d"
    using hd_dropWhile [of id "rev xs"] by (auto simp: d_def last_rev)
  have len: "length xs = length d + n" using arg_cong [OF x, of length] by simp
  have "take (length d) xs = d" by (subst x) simp
  then show ?thesis using end_d x by (simp add: len)
qed

lemma tail_of_nibble: "x \<in> set NIBBLES \<Longrightarrow> length (takeWhile id (rev (ys @ x))) \<le> 4"
proof -
  have "list_all (\<lambda>x. length (takeWhile id (rev (ys @ x))) \<le> 4) NIBBLES" by (simp add: NIBBLES_def)
  then show "x \<in> set NIBBLES \<Longrightarrow> length (takeWhile id (rev (ys @ x))) \<le> 4" by (simp add: list_all_iff)
qed

lemma tail_ones_le: "bs \<noteq> [] \<Longrightarrow> tail_ones bs \<le> 4"
proof (cases bs rule: rev_cases)
  case (snoc cs b)
  have "nibble_bits (unat b mod 16) \<in> set NIBBLES" by (rule nibble_in) simp
  from tail_of_nibble [OF this, of "gcr_bytes cs @ nibble_bits (unat b div 16)"]
  show ?thesis by (simp add: tail_ones_def snoc gcr_byte_def)
qed simp

lemma nonempty_length: "xs \<noteq> [] \<Longrightarrow> 1 \<le> length xs"
  by (cases xs) simp_all

lemma gcr_split:
  assumes "bs \<noteq> []"
  obtains front where "gcr_bytes bs = front @ replicate (tail_ones bs) True" "front \<noteq> []" "\<not> last front"
    "length front = 10 * length bs - tail_ones bs"
proof -
  let ?f = "take (length (gcr_bytes bs) - tail_ones bs) (gcr_bytes bs)"
  have "gcr_bytes bs = ?f @ replicate (tail_ones bs) True" "?f \<noteq> [] \<longrightarrow> \<not> last ?f"
    using split_tail [OF tail_ones_def, of bs] by blast+
  moreover have len: "length ?f = 10 * length bs - tail_ones bs" by simp
  moreover have "0 < length ?f" unfolding len using tail_ones_le [OF assms] nonempty_length [OF assms] by linarith
  then have "?f \<noteq> []" unfolding length_greater_0_conv .
  ultimately show thesis using that by blast
qed

section \<open>Framing a track\<close>

type_synonym written_block = "nat \<times> bytes"

definition track_bits :: "written_block list \<Rightarrow> bool list" where
  "track_bits blocks = concat (map (\<lambda>(n, bs). replicate n True @ gcr_bytes bs) blocks)"

definition block_ok :: "written_block \<Rightarrow> bool" where
  "block_ok b \<longleftrightarrow> fst b \<ge> 10 \<and> snd b \<noteq> [] \<and> \<not> hd (gcr_bytes (snd b))"

lemma block_ok_pair: "block_ok (n, bs) \<longleftrightarrow> n \<ge> 10 \<and> bs \<noteq> [] \<and> \<not> hd (gcr_bytes bs)"
  by (simp add: block_ok_def)

definition block_span :: "written_block \<Rightarrow> nat" where
  "block_span b = fst b + 10 * length (snd b)"

lemma track_bits_Cons [simp]:
  "track_bits [] = []" "track_bits (b # blocks) = replicate (fst b) True @ gcr_bytes (snd b) @ track_bits blocks"
  by (simp_all add: track_bits_def case_prod_beta)

lemma length_track: "length (track_bits blocks) = sum_list (map block_span blocks)"
  by (induction blocks) (simp_all add: block_span_def)

text \<open>The landmarks of a track whose blocks start at \<open>pos\<close>, \<open>t\<close> closing ones standing before it.\<close>

fun marks_of :: "nat \<Rightarrow> nat \<Rightarrow> written_block list \<Rightarrow> (nat \<times> nat) list" where
  "marks_of pos t [] = []"
| "marks_of pos t (b # blocks) = (pos - t, t + fst b) # marks_of (pos + block_span b) (tail_ones (snd b)) blocks"

lemma takeWhile_ones: "takeWhile id (replicate n True @ xs) = replicate n True @ takeWhile id xs"
  "dropWhile id (replicate n True @ xs) = dropWhile id xs"
  by (induction n) simp_all

lemma scan_ones:
  assumes "0 < k" "xs = [] \<or> \<not> hd xs"
  shows "scan_landmarks 10 (replicate k True @ xs) at = (if k \<ge> 10 then [(at, k)] else []) @ scan_landmarks 10 xs (at + k)"
proof -
  obtain j where k: "k = Suc j" using assms(1) by (cases k) auto
  have "takeWhile id xs = []" "dropWhile id xs = xs" using assms(2) by (cases xs; simp)+
  then show ?thesis by (simp add: k takeWhile_ones Let_def)
qed

lemma scan_front:
  assumes "xs \<noteq> []" "\<not> last xs"
  shows "scan_landmarks 10 (xs @ ys) at = scan_landmarks 10 xs at @ scan_landmarks 10 ys (at + length xs)"
  using assms
proof (induction "10 :: nat" xs "at" rule: scan_landmarks.induct)
  case (2 bs "at")
  then show ?case by (cases "bs = []") simp_all
next
  case (3 bs "at")
  then have ne: "bs \<noteq> []" "\<not> last bs" by (cases bs; simp)+
  then obtain x where x: "x \<in> set bs" "\<not> id x" by (metis id_apply last_in_set)
  have d: "dropWhile id bs \<noteq> []" using x by (auto simp: dropWhile_eq_Nil_conv)
  have l: "\<not> last (dropWhile id bs)" using ne d
    by (metis last_appendR takeWhile_dropWhile_id)
  have len: "length (takeWhile id bs) + length (dropWhile id bs) = length bs"
    by (metis length_append takeWhile_dropWhile_id)
  show ?case
    using 3(1) [OF refl d l] x len
    by (simp add: Let_def takeWhile_append1 [of x bs id, OF x] dropWhile_append1 [of x bs id, OF x] add.assoc)
qed simp

lemma scan_track:
  assumes "list_all block_ok blocks" "t \<le> 4" "t \<le> pos"
  shows "scan_landmarks 10 (replicate t True @ track_bits blocks) (pos - t) = marks_of pos t blocks"
  using assms
proof (induction blocks arbitrary: pos t)
  case Nil
  have "scan_landmarks 10 (replicate t True @ []) (pos - t) = []"
    using scan_ones [of t "[]"] Nil by (cases "t = 0") simp_all
  then show ?case by simp
next
  case (Cons b blocks)
  obtain n bs where b: "b = (n, bs)" by (cases b)
  from Cons.prems(1) have ok: "n \<ge> 10" "bs \<noteq> []" "\<not> hd (gcr_bytes bs)" "list_all block_ok blocks"
    by (simp_all add: b block_ok_pair)
  obtain front where f: "gcr_bytes bs = front @ replicate (tail_ones bs) True" "front \<noteq> []" "\<not> last front"
    "length front = 10 * length bs - tail_ones bs" using gcr_split [OF ok(2)] .
  let ?Y = "replicate (tail_ones bs) True @ track_bits blocks"
  have t4: "tail_ones bs \<le> 4" "tail_ones bs \<le> 10 * length bs"
    using tail_ones_le [OF ok(2)] ok(2) by (cases bs; simp)+
  have none: "scan_landmarks 10 front at = []" for at
  proof (rule bounded_scan)
    have "bounded 0 (gcr_bytes bs)" using bounded_gcr [of "[]" 0 bs] by simp
    then show "bounded 0 front" unfolding f(1) by (rule bounded_prefix [OF _ f(3,2)])
  qed
  have "scan_landmarks 10 (replicate t True @ track_bits (b # blocks)) (pos - t) =
      scan_landmarks 10 (replicate (t + n) True @ (front @ ?Y)) (pos - t)"
    by (simp add: b f(1) replicate_add)
  also have "\<dots> = (pos - t, t + n) # scan_landmarks 10 (front @ ?Y) (pos - t + (t + n))"
    using scan_ones [of "t + n" "front @ ?Y" "pos - t"] ok f(2) f(1) by simp
  also have "scan_landmarks 10 (front @ ?Y) (pos - t + (t + n)) =
      scan_landmarks 10 ?Y (pos + block_span b - tail_ones bs)"
    using scan_front [OF f(2,3), of ?Y] none f(4) t4 Cons.prems(3) by (simp add: b block_span_def add.assoc)
  also have "\<dots> = marks_of (pos + block_span b) (tail_ones bs) blocks"
    using Cons.IH [OF ok(4) t4(1), of "pos + block_span b"] t4(2) by (simp add: b block_span_def)
  finally show ?case by (simp add: b)
qed

text \<open>Where each block's bytes begin, and the bytes framing leaves of it.\<close>

fun framed_blocks :: "nat \<Rightarrow> written_block list \<Rightarrow> (nat \<times> bytes) list" where
  "framed_blocks pos [] = []"
| "framed_blocks pos (b # blocks) =
     (pos + fst b, if blocks = [] \<or> tail_ones (snd b) = 0 then snd b else butlast (snd b))
       # framed_blocks (pos + block_span b) blocks"

fun spans_of :: "nat \<Rightarrow> written_block list \<Rightarrow> (nat \<times> nat) list" where
  "spans_of pos [] = []"
| "spans_of pos (b # blocks) =
     (pos + fst b, pos + block_span b - (if blocks = [] then 0 else tail_ones (snd b)))
       # spans_of (pos + block_span b) blocks"

lemma place_track:
  assumes "list_all block_ok blocks" "cursor < pos - t" "t \<le> pos"
  shows "place_segments Landmark (pos + length (track_bits blocks)) (marks_of pos t blocks) cursor False =
    ((cursor, if blocks = [] then pos else pos - t) # spans_of pos blocks, [])"
  using assms
proof (induction blocks arbitrary: pos t cursor)
  case (Cons b blocks)
  obtain n bs where b: "b = (n, bs)" by (cases b)
  from Cons.prems(1) have ok: "bs \<noteq> []" "list_all block_ok blocks" by (simp_all add: b block_ok_pair)
  have t4: "tail_ones bs \<le> 4" "1 \<le> length bs" using tail_ones_le [OF ok(1)] nonempty_length [OF ok(1)] by auto
  have "pos + n < pos + block_span b - tail_ones bs" "tail_ones bs \<le> pos + block_span b"
    using t4 unfolding b block_span_def fst_conv snd_conv by linarith+
  from Cons.IH [OF ok(2) this] show ?case
    using Cons.prems(2,3) by (simp add: b block_span_def add.assoc)
qed simp

lemma framed_track:
  assumes "list_all block_ok blocks" "blocks \<noteq> []"
  shows "framed_resolve (track_bits blocks) 10 Landmark =
    \<lparr>fr_landmarks = marks_of 0 0 blocks, fr_segments = spans_of 0 blocks, fr_unframed = []\<rparr>"
proof -
  have marks: "scan_landmarks 10 (track_bits blocks) 0 = marks_of 0 0 blocks"
    using scan_track [OF assms(1), of 0 0] by simp
  obtain n bs more where b: "blocks = (n, bs) # more" using assms(2) by (cases blocks) auto
  from assms(1) have ok: "bs \<noteq> []" "list_all block_ok more" by (simp_all add: b block_ok_pair)
  have t4: "tail_ones bs \<le> 4" "1 \<le> length bs" using tail_ones_le [OF ok(1)] nonempty_length [OF ok(1)] by auto
  have "n < block_span (n, bs) - tail_ones bs" "tail_ones bs \<le> block_span (n, bs)"
    using t4 unfolding block_span_def fst_conv snd_conv by linarith+
  from place_track [OF ok(2) this]
  have "place_segments Landmark (length (track_bits blocks)) (marks_of 0 0 blocks) 0 True = (spans_of 0 blocks, [])"
    by (simp add: b block_span_def add.assoc)
  then show ?thesis by (simp add: framed_resolve_def marks)
qed

section \<open>The bytes of a framed span\<close>

definition records_of :: "nat \<Rightarrow> bytes \<Rightarrow> byte_record list" where
  "records_of s bs = map (\<lambda>i. \<lparr>br_at_bit = s + 10 * i, br_outcome = Resolved (bs ! i)\<rparr>) [0..<length bs]"

lemma records_of_Cons: "records_of s (b # bs) =
    \<lparr>br_at_bit = s, br_outcome = Resolved b\<rparr> # records_of (s + 10) bs"
  unfolding records_of_def list.size add_Suc_right add_0_right
  by (subst map_upt_Suc) (simp add: algebra_simps)

lemma frame_groups_gcr:
  assumes "drop s bits = gcr_bytes bs @ rest" "s + 10 * length bs \<le> stop" "stop < s + 10 * length bs + 10"
  shows "frame_groups policy bits s stop = Inr (records_of s bs, s + 10 * length bs)"
  using assms
proof (induction bs arbitrary: s)
  case Nil
  then show ?case by (subst frame_groups.simps) (simp add: records_of_def)
next
  case (Cons b bs)
  have at_s: "slice s 10 bits = gcr_byte b" using Cons.prems(1) by (simp add: slice_def)
  have "drop (s + 10) bits = drop 10 (drop s bits)" by (simp add: add.commute)
  then have later: "drop (s + 10) bits = gcr_bytes bs @ rest" using Cons.prems(1) by simp
  have "frame_groups policy bits (s + 10) stop = Inr (records_of (s + 10) bs, s + 10 + 10 * length bs)"
    using Cons.IH [OF later] Cons.prems(2,3) by simp
  then show ?case
    using Cons.prems(2) by (subst frame_groups.simps) (simp add: at_s resolve_gcr_byte records_of_Cons)
qed

lemma butlast_gcr: "bs \<noteq> [] \<Longrightarrow> gcr_bytes bs = gcr_bytes (butlast bs) @ gcr_byte (last bs)"
  by (cases bs rule: rev_cases) simp_all

lemma frame_block:
  assumes "drop s bits = gcr_bytes bs @ rest" "bs \<noteq> []"
    "stop = s + 10 * length bs - (if final then 0 else tail_ones bs)"
  shows "\<exists>at. frame_groups policy bits s stop =
      Inr (records_of s (if final \<or> tail_ones bs = 0 then bs else butlast bs), at)"
proof (cases "final \<or> tail_ones bs = 0")
  case True
  then have "stop = s + 10 * length bs" using assms(3) by auto
  then show ?thesis using frame_groups_gcr [OF assms(1), of stop policy] True by simp
next
  case False
  have "drop s bits = gcr_bytes (butlast bs) @ (gcr_byte (last bs) @ rest)"
    using assms(1) butlast_gcr [OF assms(2)] by simp
  moreover have "s + 10 * length (butlast bs) \<le> stop" "stop < s + 10 * length (butlast bs) + 10"
    using False tail_ones_le [OF assms(2)] nonempty_length [OF assms(2)] unfolding assms(3) length_butlast by auto
  ultimately show ?thesis using frame_groups_gcr [of s bits "butlast bs"] False by auto
qed

text \<open>All the blocks of a track: their records, and no fact but tails no group covers.\<close>

lemma frame_track:
  assumes "list_all block_ok blocks" "drop pos bits = track_bits blocks"
  shows "\<exists>tails. frame_segments policy bits (spans_of pos blocks) =
      Inr (concat (map (\<lambda>(s, bs). records_of s bs) (framed_blocks pos blocks)), tails) \<and>
    list_all (\<lambda>f. case f of Unframed _ _ \<Rightarrow> True | Alignment _ _ \<Rightarrow> False) tails"
  using assms
proof (induction blocks arbitrary: pos)
  case (Cons b blocks)
  obtain n bs where b: "b = (n, bs)" by (cases b)
  from Cons.prems(1) have ok: "bs \<noteq> []" "list_all block_ok blocks" by (simp_all add: b block_ok_pair)
  have "drop (pos + n) bits = drop n (drop pos bits)" by (simp add: add.commute)
  then have d: "drop (pos + n) bits = gcr_bytes bs @ track_bits blocks" using Cons.prems(2) by (simp add: b)
  have "drop (pos + block_span b) bits = drop (10 * length bs) (drop (pos + n) bits)"
    by (simp add: b block_span_def ac_simps)
  then have "drop (pos + block_span b) bits = track_bits blocks" using d by simp
  from Cons.IH [OF ok(2) this] obtain tails where tails: "frame_segments policy bits (spans_of (pos + block_span b) blocks) =
      Inr (concat (map (\<lambda>(s, bs). records_of s bs) (framed_blocks (pos + block_span b) blocks)), tails)"
    "list_all (\<lambda>f. case f of Unframed _ _ \<Rightarrow> True | Alignment _ _ \<Rightarrow> False) tails" by blast
  define stop where "stop = pos + block_span b - (if blocks = [] then 0 else tail_ones bs)"
  define kept where "kept = (if blocks = [] \<or> tail_ones bs = 0 then bs else butlast bs)"
  have sp: "spans_of pos (b # blocks) = (pos + n, stop) # spans_of (pos + block_span b) blocks"
    "framed_blocks pos (b # blocks) = (pos + n, kept) # framed_blocks (pos + block_span b) blocks"
    by (simp_all add: b stop_def kept_def)
  have "stop = pos + n + 10 * length bs - (if blocks = [] then 0 else tail_ones bs)"
    by (simp add: stop_def b block_span_def add.assoc)
  from frame_block [OF d ok(1) this, of policy] obtain at_end where
    g: "frame_groups policy bits (pos + n) stop = Inr (records_of (pos + n) kept, at_end)"
    unfolding kept_def by blast
  show ?case
    unfolding sp using tails by (simp add: g)
qed (simp add: list_all_iff)

end
