(* ===== verification/C1541_Sectors.thy ===== *)
theory C1541_Sectors
  imports Gcr "HOL-Library.Product_Lexorder"
begin

text \<open>
  The C1541 sector layer (\<open>src/crates/remanence/src/flux/c1541/sectors.rs\<close>): framed runs read as header and
  data blocks, paired in recording order round the circle, each record a claim with its evidence, and one
  sector read by the address the recording states for it. The payloads the code keeps in a section
  backing (see \<open>Sections\<close>) stand beside their claims; sentences are left out.
\<close>

section \<open>Rules\<close>

datatype sector_rule =
  NoSuchAddress | AddressNotReadable | AddressDisagrees | BlockFailedChecksum | BlockUnresolved
| BlockTruncated | RecordUnpaired | NoRecordRecognized

definition all_sector_rules :: "sector_rule list" where
  "all_sector_rules = [NoSuchAddress, AddressNotReadable, AddressDisagrees, BlockFailedChecksum, BlockUnresolved,
     BlockTruncated, RecordUnpaired, NoRecordRecognized]"

fun sector_rule_str :: "sector_rule \<Rightarrow> rule_identity" where
  "sector_rule_str NoSuchAddress = ''no-such-address''"
| "sector_rule_str AddressNotReadable = ''address-not-readable''"
| "sector_rule_str AddressDisagrees = ''address-disagrees''"
| "sector_rule_str BlockFailedChecksum = ''block-failed-checksum''"
| "sector_rule_str BlockUnresolved = ''block-unresolved''"
| "sector_rule_str BlockTruncated = ''block-truncated''"
| "sector_rule_str RecordUnpaired = ''record-unpaired''"
| "sector_rule_str NoRecordRecognized = ''no-record-recognized''"

definition sector_rule_of :: "string \<Rightarrow> sector_rule option" where
  "sector_rule_of i = List.find (\<lambda>r. sector_rule_str r = i) all_sector_rules"

fun sector_rule_category :: "sector_rule \<Rightarrow> error_category" where
  "sector_rule_category NoSuchAddress = NotFound"
| "sector_rule_category AddressNotReadable = Unavailable"
| "sector_rule_category AddressDisagrees = Unavailable"
| "sector_rule_category _ = InvalidImage"

definition sector_refuse :: "sector_rule \<Rightarrow> error" where
  "sector_refuse r = broke_rule (categorized_image (sector_rule_category r) C1541_ID) (sector_rule_str r)"

datatype failure_policy = RefuseIt | DeclareLoss

record sector_policy =
  sp_checksum_failure :: failure_policy
  sp_unpaired_record :: failure_policy

definition SECTOR_POLICY :: sector_policy where
  "SECTOR_POLICY = \<lparr>sp_checksum_failure = DeclareLoss, sp_unpaired_record = DeclareLoss\<rparr>"

section \<open>Runs of framed bytes\<close>

record framed_run =
  ru_at_bit :: nat
  ru_head :: "u8 option list"
  ru_length :: nat

record runs =
  rs_expected :: "nat option"
  rs_current :: "framed_run option"
  rs_closed :: "framed_run list"

definition runs_new :: runs where
  "runs_new = \<lparr>rs_expected = None, rs_current = None, rs_closed = []\<rparr>"

definition runs_push :: "nat \<Rightarrow> nat \<Rightarrow> nat set \<Rightarrow> runs \<Rightarrow> byte_record \<Rightarrow> runs" where
  "runs_push keep stride starts st r =
     (let opens = rs_expected st \<noteq> Some (br_at_bit r) \<or> br_at_bit r \<in> starts;
          closed = (if opens then rs_closed st @ (case rs_current st of Some run \<Rightarrow> [run] | None \<Rightarrow> [])
                    else rs_closed st);
          run = (case (if opens then None else rs_current st) of
                   Some run \<Rightarrow> run
                 | None \<Rightarrow> \<lparr>ru_at_bit = br_at_bit r, ru_head = [], ru_length = 0\<rparr>);
          run1 = (if length (ru_head run) < keep then run\<lparr>ru_head := ru_head run @ [br_value r]\<rparr> else run)
      in \<lparr>rs_expected = Some (br_at_bit r + stride),
          rs_current = Some (run1\<lparr>ru_length := ru_length run1 + 1\<rparr>), rs_closed = closed\<rparr>)"

definition runs_finish :: "runs \<Rightarrow> framed_run list" where
  "runs_finish st = rs_closed st @ (case rs_current st of Some run \<Rightarrow> [run] | None \<Rightarrow> [])"

definition runs_of :: "nat \<Rightarrow> nat \<Rightarrow> nat set \<Rightarrow> byte_record list \<Rightarrow> framed_run list" where
  "runs_of keep stride starts rs = runs_finish (foldl (runs_push keep stride starts) runs_new rs)"

section \<open>Blocks and their pairing\<close>

record block_reading =
  bd_at_bit :: nat
  bd_bytes :: "u8 option list"
  bd_unresolved :: nat
  bd_truncated :: bool
  bd_covered :: nat
  bd_stated :: u8
  bd_computed :: u8

text \<open>The byte at a place of a block, where the block holds it and the codec resolved it.\<close>

definition byte_at :: "u8 option list \<Rightarrow> nat \<Rightarrow> u8 option" where
  "byte_at bs i = (if i < length bs then bs ! i else None)"

definition byte_or_zero :: "u8 option \<Rightarrow> u8" where
  "byte_or_zero b = (case b of Some v \<Rightarrow> v | None \<Rightarrow> 0)"

definition block_read :: "block_shape \<Rightarrow> framed_run \<Rightarrow> block_reading" where
  "block_read shape run =
     (let want = bk_bytes shape; bs = take want (ru_head run);
          checked = map (\<lambda>i. byte_or_zero (byte_at bs i)) [bk_checked_from shape..<bk_checked_to shape]
      in \<lparr>bd_at_bit = ru_at_bit run, bd_bytes = bs,
          bd_unresolved = length (filter (\<lambda>b. b = None) bs) + (want - length bs),
          bd_truncated = ru_length run < bk_bytes shape, bd_covered = min (ru_length run) (bk_bytes shape),
          bd_stated = byte_or_zero (byte_at bs (bk_checksum_at shape)), bd_computed = xor_over checked\<rparr>)"

type_synonym paired = "block_reading \<times> block_reading option"

text \<open>
  One pass over a location's runs: the records so far, the header awaiting its data, the data block that
  stood before any header, and the runs holding no record; then the closing of the circle.
\<close>

fun pair_runs ::
  "record_grammar \<Rightarrow> framed_run list \<Rightarrow> paired list \<Rightarrow> block_reading option \<Rightarrow> block_reading option \<Rightarrow> nat
    \<Rightarrow> paired list \<times> nat" where
  "pair_runs g [] records pending leading without =
     (case pending of
        Some header \<Rightarrow> (records @ [(header, leading)], without)
      | None \<Rightarrow> (records, if leading \<noteq> None then without + 1 else without))"
| "pair_runs g (run # runs) records pending leading without =
     (case Option.bind (byte_at (ru_head run) 0) (block_of g) of
        None \<Rightarrow> pair_runs g runs records pending leading (without + 1)
      | Some shape \<Rightarrow>
          if bk_mark shape = bk_mark (rg_header g) then
            pair_runs g runs (case pending of Some header \<Rightarrow> records @ [(header, None)] | None \<Rightarrow> records)
              (Some (block_read (rg_header g) run)) leading without
          else let data = block_read (rg_data g) run in
            case pending of
              Some header \<Rightarrow> pair_runs g runs (records @ [(header, Some data)]) None leading without
            | None \<Rightarrow>
                if leading = None \<and> records = [] then pair_runs g runs records None (Some data) without
                else pair_runs g runs records None leading (without + 1))"

definition pair_up :: "record_grammar \<Rightarrow> framed_run list \<Rightarrow> paired list \<times> nat" where
  "pair_up g runs = pair_runs g runs [] None None 0"

definition unreadable_because :: "block_reading \<Rightarrow> block_reading option \<Rightarrow> sector_rule option" where
  "unreadable_because header data =
     (if bd_truncated header then Some BlockTruncated
      else if bd_unresolved header > 0 then Some BlockUnresolved
      else if bd_stated header \<noteq> bd_computed header then Some BlockFailedChecksum
      else case data of
        None \<Rightarrow> Some RecordUnpaired
      | Some d \<Rightarrow>
          if bd_truncated d then Some BlockTruncated
          else if bd_unresolved d > 0 then Some BlockUnresolved
          else if bd_stated d \<noteq> bd_computed d then Some BlockFailedChecksum
          else None)"

definition within_declaration :: "u8 \<Rightarrow> u8 \<Rightarrow> bool" where
  "within_declaration track sector =
     (case zone_for_ratio C1541_DENSITY (unat track) 1 of
        Some (_, zone) \<Rightarrow> unat sector < dz_records zone
      | None \<Rightarrow> False)"

section \<open>Claims\<close>

record sector_claim =
  sc_key :: location_key
  sc_at_bit :: nat
  sc_track :: u8
  sc_sector :: u8
  sc_id_high :: u8
  sc_id_low :: u8
  sc_header_stated :: u8
  sc_header_computed :: u8
  sc_has_data :: bool
  sc_data_at_bit :: nat
  sc_data_stated :: u8
  sc_data_computed :: u8
  sc_unresolved_bytes :: nat
  sc_within_declaration :: bool
  sc_readable :: bool
  sc_rule :: "sector_rule option"

record sector_location =
  sl_key :: location_key
  sl_records_declared :: "nat option"
  sl_headers :: nat
  sl_records :: nat
  sl_readable :: nat
  sl_failed_checksum :: nat
  sl_runs_without_a_record :: nat

record contested_address =
  ca_track :: u8
  ca_sector :: u8
  ca_readable_claims :: nat

record c1541_sectors =
  cs_locations :: "sector_location list"
  cs_claims :: "sector_claim list"
  cs_payloads :: "bytes option list"
  cs_contested :: "contested_address list"
  cs_loss :: "declared_loss list"

text \<open>One record's claim with the payload it serves, or the refusal the policy asks for.\<close>

definition claim_of :: "sector_policy \<Rightarrow> location_key \<Rightarrow> paired \<Rightarrow> (sector_claim \<times> bytes option) result" where
  "claim_of policy key record =
     (let (header, data) = record; rule = unreadable_because header data;
          field = (\<lambda>i. byte_or_zero (byte_at (bd_bytes header) i));
          track = field (rg_track_at RECORD); sector = field (rg_sector_at RECORD)
      in if rule = Some BlockFailedChecksum \<and> sp_checksum_failure policy = RefuseIt then
           Inl (sector_refuse BlockFailedChecksum)
         else if rule = Some RecordUnpaired \<and> sp_unpaired_record policy = RefuseIt then
           Inl (sector_refuse RecordUnpaired)
         else Inr (\<lparr>sc_key = key, sc_at_bit = bd_at_bit header, sc_track = track, sc_sector = sector,
             sc_id_high = field (rg_id_high_at RECORD), sc_id_low = field (rg_id_low_at RECORD),
             sc_header_stated = bd_stated header, sc_header_computed = bd_computed header,
             sc_has_data = (data \<noteq> None),
             sc_data_at_bit = (case data of Some d \<Rightarrow> bd_at_bit d | None \<Rightarrow> 0),
             sc_data_stated = (case data of Some d \<Rightarrow> bd_stated d | None \<Rightarrow> 0),
             sc_data_computed = (case data of Some d \<Rightarrow> bd_computed d | None \<Rightarrow> 0),
             sc_unresolved_bytes = bd_unresolved header + (case data of Some d \<Rightarrow> bd_unresolved d | None \<Rightarrow> 0),
             sc_within_declaration = within_declaration track sector,
             sc_readable = (rule = None), sc_rule = rule\<rparr>,
           if rule = None then
             map_option (\<lambda>d. map (\<lambda>i. byte_or_zero (byte_at (bd_bytes d) i))
               [rg_payload_from RECORD..<rg_payload_to RECORD]) data
           else None))"

fun claims_of :: "sector_policy \<Rightarrow> location_key \<Rightarrow> paired list \<Rightarrow> (sector_claim \<times> bytes option) list result" where
  "claims_of policy key [] = Inr []"
| "claims_of policy key (r # rs) =
     rbind (claim_of policy key r) (\<lambda>c. rbind (claims_of policy key rs) (\<lambda>cs. Inr (c # cs)))"

text \<open>Where the layer below said framing began, which is where a record may open.\<close>

definition framing_starts :: "bytestream_fact list \<Rightarrow> nat set" where
  "framing_starts facts = set (List.map_filter (\<lambda>f. case f of
     Alignment at run \<Rightarrow> Some (at + run) | Unframed _ _ \<Rightarrow> None) facts)"

definition recognize_location ::
  "sector_policy \<Rightarrow> bytestream_location \<Rightarrow> declared_loss list
    \<Rightarrow> (sector_location \<times> (sector_claim \<times> bytes option) list \<times> declared_loss list) result" where
  "recognize_location policy loc loss =
     (let keep = max (bk_bytes (rg_header RECORD)) (bk_bytes (rg_data RECORD));
          (records, without) = pair_up RECORD
             (runs_of keep group_bits (framing_starts (bl_facts loc)) (bl_records loc));
          covered = sum_list (map (\<lambda>(h, d). bd_covered h + (case d of Some b \<Rightarrow> bd_covered b | None \<Rightarrow> 0)) records);
          rules = map (\<lambda>(h, d). unreadable_because h d) records;
          key = bl_key loc
      in rbind (claims_of policy key records) (\<lambda>claims.
         let loss1 = note_loss loss ''byte-outside-a-record'' (length (bl_records loc) - covered);
             loss2 = loss_if without ''run-without-a-record'' loss1
         in Inr (\<lparr>sl_key = key,
               sl_records_declared = map_option (\<lambda>(_, zone). dz_records zone)
                  (zone_for_ratio C1541_DENSITY (lk_numerator key) (lk_denominator key)),
               sl_headers = length records, sl_records = length (filter (\<lambda>(h, d). d \<noteq> None) records),
               sl_readable = length (filter (\<lambda>r. r = None) rules),
               sl_failed_checksum = length (filter (\<lambda>r. r = Some BlockFailedChecksum) rules),
               sl_runs_without_a_record = without\<rparr>, claims, loss2)))"

fun recognize_locations ::
  "sector_policy \<Rightarrow> bytestream_location list \<Rightarrow> declared_loss list
    \<Rightarrow> (sector_location list \<times> (sector_claim \<times> bytes option) list \<times> declared_loss list) result" where
  "recognize_locations policy [] loss = Inr ([], [], loss)"
| "recognize_locations policy (l # ls) loss =
     rbind (recognize_location policy l loss) (\<lambda>(s, cs, loss1).
     rbind (recognize_locations policy ls loss1) (\<lambda>(ss, cs1, loss2). Inr (s # ss, cs @ cs1, loss2)))"

definition contested_addresses :: "sector_claim list \<Rightarrow> contested_address list" where
  "contested_addresses claims =
     (let addresses = map (\<lambda>c. (sc_track c, sc_sector c)) (filter sc_readable claims);
          held = (\<lambda>a. length (filter (\<lambda>b. b = a) addresses))
      in map (\<lambda>a. \<lparr>ca_track = fst a, ca_sector = snd a, ca_readable_claims = held a\<rparr>)
           (filter (\<lambda>a. held a > 1) (sort (remdups addresses))))"

definition account_for :: "declared_loss list \<Rightarrow> sector_claim list \<Rightarrow> declared_loss list" where
  "account_for loss claims =
     (let count_rule = (\<lambda>r. length (filter (\<lambda>c. sc_rule c = Some r) claims));
          add_rule = (\<lambda>r es. loss_if (count_rule r) (sector_rule_str r) es);
          loss1 = fold add_rule [BlockFailedChecksum, BlockUnresolved, BlockTruncated, RecordUnpaired] loss
      in loss_if (length (filter (\<lambda>c. \<not> sc_within_declaration c) claims)) ''address-outside-declaration'' loss1)"

definition c1541_recognize :: "bytestream \<Rightarrow> sector_policy \<Rightarrow> c1541_sectors result" where
  "c1541_recognize by policy =
     (if by_profile by \<noteq> C1541_ID then Inl gcr_refuse
      else if symbols_per_byte CODEC = None then Inl gcr_refuse
      else rbind (recognize_locations policy (by_locations by) []) (\<lambda>(locations, held, loss).
        if held = [] then Inl (sector_refuse NoRecordRecognized)
        else let claims = map fst held in
          Inr \<lparr>cs_locations = locations, cs_claims = claims, cs_payloads = map snd held,
               cs_contested = contested_addresses claims, cs_loss = account_for loss claims\<rparr>))"

definition c1541_recognize_declared :: "bytestream \<Rightarrow> c1541_sectors result" where
  "c1541_recognize_declared by = c1541_recognize by SECTOR_POLICY"

section \<open>Reading by address\<close>

definition claim_payload :: "c1541_sectors \<Rightarrow> nat \<Rightarrow> bytes result" where
  "claim_payload cs at =
     (case (if at < length (cs_payloads cs) then cs_payloads cs ! at else None) of
        Some p \<Rightarrow> Inr p
      | None \<Rightarrow> Inl gcr_refuse)"

fun all_agree :: "c1541_sectors \<Rightarrow> bytes \<Rightarrow> nat list \<Rightarrow> unit result" where
  "all_agree cs payload [] = Inr ()"
| "all_agree cs payload (other # others) =
     rbind (claim_payload cs other) (\<lambda>p.
       if p \<noteq> payload then Inl (sector_refuse AddressDisagrees) else all_agree cs payload others)"

definition c1541_read_sector :: "c1541_sectors \<Rightarrow> u8 \<Rightarrow> u8 \<Rightarrow> bytes result" where
  "c1541_read_sector cs track sector =
     (let stating = filter (\<lambda>i. sc_track (cs_claims cs ! i) = track \<and> sc_sector (cs_claims cs ! i) = sector)
            [0..<length (cs_claims cs)]
      in case filter (\<lambda>i. sc_readable (cs_claims cs ! i)) stating of
           [] \<Rightarrow> (if filter (\<lambda>i. \<not> sc_readable (cs_claims cs ! i)) stating = []
                  then Inl (sector_refuse NoSuchAddress) else Inl (sector_refuse AddressNotReadable))
         | first # others \<Rightarrow>
             rbind (claim_payload cs first) (\<lambda>payload.
             rbind (all_agree cs payload others) (\<lambda>_. Inr payload)))"

end
