(* ===== verification/C1541_Proofs.thy ===== *)
theory C1541_Proofs
  imports C1541_Sectors Gcr_Proofs
begin

text \<open>
  The C1541 ladder from end to end: a track written in the family's own way, block by block behind its
  syncs, is framed, read into runs, paired and claimed, and every sector reads back by the address its header
  states; and whatever the recording holds, what reads is the payload of a readable claim of that address.
\<close>

section \<open>Runs of a framed track\<close>

lemma push_within:
  assumes "length hs \<le> keep" "\<forall>i<length bs. s + 10 * i \<notin> starts"
  shows "foldl (runs_push keep 10 starts)
      \<lparr>rs_expected = Some s, rs_current = Some \<lparr>ru_at_bit = a, ru_head = hs, ru_length = n\<rparr>, rs_closed = cl\<rparr>
      (records_of s bs) =
    \<lparr>rs_expected = Some (s + 10 * length bs),
     rs_current = Some \<lparr>ru_at_bit = a, ru_head = take keep (hs @ map Some bs), ru_length = n + length bs\<rparr>,
     rs_closed = cl\<rparr>"
  using assms
proof (induction bs arbitrary: s hs n)
  case Nil
  then show ?case by (simp add: records_of_def)
next
  case (Cons b bs)
  have s: "s \<notin> starts" using Cons.prems(2) by (metis add_0_right length_greater_0_conv list.distinct(1) mult_0_right)
  let ?hs = "if length hs < keep then hs @ [Some b] else hs"
  have later: "\<forall>i<length bs. s + 10 + 10 * i \<notin> starts"
  proof (intro allI impI)
    fix i assume "i < length bs"
    then show "s + 10 + 10 * i \<notin> starts" using Cons.prems(2) [rule_format, of "Suc i"] by (simp add: ac_simps)
  qed
  have step: "runs_push keep 10 starts
      \<lparr>rs_expected = Some s, rs_current = Some \<lparr>ru_at_bit = a, ru_head = hs, ru_length = n\<rparr>, rs_closed = cl\<rparr>
      \<lparr>br_at_bit = s, br_outcome = Resolved b\<rparr> =
    \<lparr>rs_expected = Some (s + 10), rs_current = Some \<lparr>ru_at_bit = a, ru_head = ?hs, ru_length = n + 1\<rparr>, rs_closed = cl\<rparr>"
    using s by (simp add: runs_push_def br_value_def)
  have "take keep (?hs @ map Some bs) = take keep (hs @ map Some (b # bs))"
    using Cons.prems(1) by (auto simp: take_Cons')
  moreover have "length ?hs \<le> keep" using Cons.prems(1) by auto
  ultimately show ?case
    unfolding records_of_Cons foldl_Cons step using Cons.IH [of ?hs "s + 10" "n + 1", OF _ later]
    by (simp add: ac_simps)
qed

definition current_runs :: "runs \<Rightarrow> framed_run list" where
  "current_runs st = (case rs_current st of Some run \<Rightarrow> [run] | None \<Rightarrow> [])"

definition run_over :: "nat \<Rightarrow> nat \<times> bytes \<Rightarrow> framed_run" where
  "run_over keep b = \<lparr>ru_at_bit = fst b, ru_head = take keep (map Some (snd b)), ru_length = length (snd b)\<rparr>"

lemma push_block:
  assumes "0 < keep" "s \<in> starts" "bs \<noteq> []" "\<forall>i<length bs. 0 < i \<longrightarrow> s + 10 * i \<notin> starts"
  shows "foldl (runs_push keep 10 starts) st (records_of s bs) =
    \<lparr>rs_expected = Some (s + 10 * length bs), rs_current = Some (run_over keep (s, bs)),
     rs_closed = rs_closed st @ current_runs st\<rparr>"
proof -
  obtain b more where bs: "bs = b # more" using assms(3) by (cases bs) auto
  have step: "runs_push keep 10 starts st \<lparr>br_at_bit = s, br_outcome = Resolved b\<rparr> =
    \<lparr>rs_expected = Some (s + 10), rs_current = Some \<lparr>ru_at_bit = s, ru_head = [Some b], ru_length = 1\<rparr>,
     rs_closed = rs_closed st @ current_runs st\<rparr>"
    using assms(1,2) by (simp add: runs_push_def br_value_def current_runs_def)
  have later: "\<forall>i<length more. s + 10 + 10 * i \<notin> starts"
  proof (intro allI impI)
    fix i assume "i < length more"
    then show "s + 10 + 10 * i \<notin> starts" using assms(4) [rule_format, of "Suc i"] by (simp add: bs ac_simps)
  qed
  have "length [Some b] \<le> keep" using assms(1) by simp
  from push_within [OF this later] show ?thesis
    unfolding bs records_of_Cons foldl_Cons step by (simp add: run_over_def ac_simps)
qed

definition separated :: "(nat \<times> bytes) list \<Rightarrow> bool" where
  "separated fbs \<longleftrightarrow> sorted_wrt (\<lambda>a b. fst a + 10 * length (snd a) \<le> fst b) fbs \<and> list_all (\<lambda>b. snd b \<noteq> []) fbs"

lemma separated_inner:
  assumes "separated fbs" "b \<in> set fbs" "0 < i" "i < length (snd b)"
  shows "fst b + 10 * i \<notin> fst ` set fbs"
proof
  assume "fst b + 10 * i \<in> fst ` set fbs"
  then obtain c where c: "c \<in> set fbs" "fst c = fst b + 10 * i" by auto
  obtain j k where jk: "j < length fbs" "fbs ! j = b" "k < length fbs" "fbs ! k = c"
    using assms(2) c(1) by (metis in_set_conv_nth)
  have ord: "fst (fbs ! x) + 10 * length (snd (fbs ! x)) \<le> fst (fbs ! y)" if "x < y" "y < length fbs" for x y
    using assms(1) that by (auto simp: separated_def sorted_wrt_iff_nth_less)
  have "snd c \<noteq> []" using assms(1) c(1) by (auto simp: separated_def list_all_iff)
  show False
  proof (cases rule: linorder_cases [of j k])
    case less
    then show False using ord [OF less jk(3)] c(2) assms(4) jk by simp
  next
    case equal
    then show False using jk c(2) assms(3) by simp
  next
    case greater
    then show False using ord [OF greater jk(1)] c(2) assms(3) jk by simp
  qed
qed

lemma push_blocks:
  assumes "0 < keep" "list_all (\<lambda>b. fst b \<in> starts \<and> snd b \<noteq> [] \<and> (\<forall>i<length (snd b). 0 < i \<longrightarrow> fst b + 10 * i \<notin> starts)) fbs"
  shows "runs_finish (foldl (runs_push keep 10 starts) st (concat (map (\<lambda>(s, bs). records_of s bs) fbs))) =
    runs_finish st @ map (run_over keep) fbs"
  using assms(2)
proof (induction fbs arbitrary: st)
  case (Cons b fbs)
  obtain s bs where b: "b = (s, bs)" by (cases b)
  have p: "foldl (runs_push keep 10 starts) st (records_of s bs) =
    \<lparr>rs_expected = Some (s + 10 * length bs), rs_current = Some (run_over keep (s, bs)),
     rs_closed = rs_closed st @ current_runs st\<rparr>"
    using push_block [OF assms(1)] Cons.prems by (simp add: b)
  then show ?case
    using Cons by (simp add: b runs_finish_def current_runs_def)
qed simp

lemma framed_blocks_from: "b \<in> set (framed_blocks pos blocks) \<Longrightarrow> pos \<le> fst b"
proof (induction blocks arbitrary: pos)
  case (Cons c blocks)
  then show ?case by (auto dest!: Cons.IH)
qed simp

lemma framed_blocks_separated:
  assumes "list_all (\<lambda>b. 2 \<le> length (snd b)) blocks"
  shows "separated (framed_blocks pos blocks)"
  using assms
proof (induction blocks arbitrary: pos)
  case (Cons b blocks)
  have "butlast (snd b) \<noteq> []" "snd b \<noteq> []" using Cons.prems by (auto simp: butlast_conv_take)
  then show ?case
    using Cons framed_blocks_from [of _ "pos + block_span b" blocks]
    by (fastforce simp: separated_def block_span_def)
qed (simp add: separated_def)

lemma runs_of_track:
  assumes "list_all (\<lambda>b. 2 \<le> length (snd b)) blocks" "0 < keep"
  shows "runs_of keep 10 (fst ` set (framed_blocks pos blocks))
      (concat (map (\<lambda>(s, bs). records_of s bs) (framed_blocks pos blocks))) =
    map (run_over keep) (framed_blocks pos blocks)"
proof -
  have sep: "separated (framed_blocks pos blocks)" by (rule framed_blocks_separated [OF assms(1)])
  have "list_all (\<lambda>b. fst b \<in> fst ` set (framed_blocks pos blocks) \<and> snd b \<noteq> [] \<and>
      (\<forall>i<length (snd b). 0 < i \<longrightarrow> fst b + 10 * i \<notin> fst ` set (framed_blocks pos blocks))) (framed_blocks pos blocks)"
    using sep separated_inner [OF sep] by (simp add: list_all_iff separated_def)
  from push_blocks [OF assms(2) this, of runs_new] show ?thesis
    by (simp add: runs_of_def runs_new_def runs_finish_def)
qed

section \<open>Written sectors\<close>

record written_sector =
  ws_sync1 :: nat
  ws_track :: u8
  ws_sector :: u8
  ws_id_high :: u8
  ws_id_low :: u8
  ws_pad1 :: u8
  ws_pad2 :: u8
  ws_gap1 :: bytes
  ws_sync2 :: nat
  ws_payload :: bytes
  ws_pad3 :: u8
  ws_pad4 :: u8
  ws_gap2 :: bytes

definition header_bytes :: "written_sector \<Rightarrow> bytes" where
  "header_bytes w = [0x08, xor_over [ws_sector w, ws_track w, ws_id_low w, ws_id_high w], ws_sector w, ws_track w,
     ws_id_low w, ws_id_high w, ws_pad1 w, ws_pad2 w]"

definition data_bytes :: "written_sector \<Rightarrow> bytes" where
  "data_bytes w = 0x07 # ws_payload w @ [xor_over (ws_payload w), ws_pad3 w, ws_pad4 w]"

definition sector_ok :: "written_sector \<Rightarrow> bool" where
  "sector_ok w \<longleftrightarrow> ws_sync1 w \<ge> 10 \<and> ws_sync2 w \<ge> 10 \<and> ws_gap1 w \<noteq> [] \<and> ws_gap2 w \<noteq> [] \<and> length (ws_payload w) = 256"

definition sector_blocks :: "written_sector list \<Rightarrow> written_block list" where
  "sector_blocks ws = concat (map (\<lambda>w. [(ws_sync1 w, header_bytes w @ ws_gap1 w), (ws_sync2 w, data_bytes w @ ws_gap2 w)]) ws)"

lemma marks_open_low: "\<not> hd (gcr_bytes (0x08 # bs))" "\<not> hd (gcr_bytes (0x07 # bs))"
  by (simp_all add: gcr_byte_def nibble_bits_def NIBBLES_def)

lemma sector_blocks_ok:
  assumes "list_all sector_ok ws"
  shows "list_all block_ok (sector_blocks ws)" "list_all (\<lambda>b. 2 \<le> length (snd b)) (sector_blocks ws)"
  using assms marks_open_low unfolding sector_blocks_def
  by (auto simp: list_all_iff block_ok_pair sector_ok_def header_bytes_def data_bytes_def simp del: gcr_bytes_simps)

text \<open>A run that begins with a block, whatever follows it.\<close>

definition begins_with :: "framed_run \<Rightarrow> bytes \<Rightarrow> bool" where
  "begins_with run bs \<longleftrightarrow> (\<exists>extra. ru_head run = take 260 (map Some (bs @ extra)) \<and> ru_length run = length bs + length extra)"

fun runs_hold :: "written_sector list \<Rightarrow> framed_run list \<Rightarrow> bool" where
  "runs_hold [] [] = True"
| "runs_hold (w # ws) (h # d # runs) = (begins_with h (header_bytes w) \<and> begins_with d (data_bytes w) \<and> runs_hold ws runs)"
| "runs_hold _ _ = False"

lemma run_begins:
  assumes "gap \<noteq> []"
  shows "begins_with (run_over 260 (s, if c then bs @ gap else butlast (bs @ gap))) bs"
proof -
  have "(if c then bs @ gap else butlast (bs @ gap)) = bs @ (if c then gap else butlast gap)"
    using assms by (simp add: butlast_append)
  then show ?thesis unfolding begins_with_def run_over_def by fastforce
qed

lemma sector_runs:
  assumes "list_all sector_ok ws"
  shows "runs_hold ws (map (run_over 260) (framed_blocks pos (sector_blocks ws)))"
  using assms
proof (induction ws arbitrary: pos)
  case (Cons w ws)
  then have g: "ws_gap1 w \<noteq> []" "ws_gap2 w \<noteq> []" by (simp_all add: sector_ok_def)
  let ?h = "(ws_sync1 w, header_bytes w @ ws_gap1 w)" let ?d = "(ws_sync2 w, data_bytes w @ ws_gap2 w)"
  have "sector_blocks (w # ws) = ?h # ?d # sector_blocks ws" by (simp add: sector_blocks_def)
  moreover have "runs_hold ws (map (run_over 260) (framed_blocks (pos + block_span ?h + block_span ?d) (sector_blocks ws)))"
    using Cons by simp
  ultimately show ?case
    by (simp only: framed_blocks.simps fst_conv snd_conv list.map runs_hold.simps run_begins [OF g(1)]
        run_begins [OF g(2)] simp_thms)
qed (simp add: sector_blocks_def)

lemma block_begins:
  assumes "begins_with run bs" "length bs = bk_bytes shape" "bk_bytes shape \<le> 260"
  shows "bd_bytes (block_read shape run) = map Some bs" "bd_unresolved (block_read shape run) = 0"
    "\<not> bd_truncated (block_read shape run)"
proof -
  obtain extra where e: "ru_head run = take 260 (map Some (bs @ extra))" "ru_length run = length bs + length extra"
    using assms(1) by (auto simp: begins_with_def)
  have t: "take (bk_bytes shape) (ru_head run) = map Some bs"
    using assms(2,3) by (simp add: e min_def flip: assms(2))
  show "bd_bytes (block_read shape run) = map Some bs" "bd_unresolved (block_read shape run) = 0"
    "\<not> bd_truncated (block_read shape run)"
    unfolding block_read_def Let_def t using assms(2) by (simp_all add: e)
qed

lemma block_sums:
  assumes "begins_with run bs" "length bs = bk_bytes shape" "bk_bytes shape \<le> 260" "bk_checksum_at shape < length bs"
    "bk_checked_to shape \<le> length bs"
  shows "bd_stated (block_read shape run) = bs ! bk_checksum_at shape"
    "bd_computed (block_read shape run) = xor_over (slice (bk_checked_from shape) (bk_checked_to shape - bk_checked_from shape) bs)"
proof -
  have t: "take (bk_bytes shape) (ru_head run) = map Some bs"
    using block_begins(1) [OF assms(1-3)] by (simp add: block_read_def Let_def)
  have field: "byte_or_zero (byte_at (map Some bs) i) = bs ! i" if "i < length bs" for i
    using that by (simp add: byte_at_def byte_or_zero_def)
  show "bd_stated (block_read shape run) = bs ! bk_checksum_at shape"
    unfolding block_read_def Let_def t using field [OF assms(4)] by simp
  have "map (\<lambda>i. byte_or_zero (byte_at (map Some bs) i)) [bk_checked_from shape..<bk_checked_to shape] =
      map (\<lambda>i. bs ! i) [bk_checked_from shape..<bk_checked_to shape]"
    using field assms(5) by simp
  also have "\<dots> = slice (bk_checked_from shape) (bk_checked_to shape - bk_checked_from shape) bs"
    using assms(5) by (intro nth_equalityI) (auto simp: slice_def)
  finally show "bd_computed (block_read shape run) =
      xor_over (slice (bk_checked_from shape) (bk_checked_to shape - bk_checked_from shape) bs)"
    unfolding block_read_def Let_def t by simp
qed

section \<open>Pairing and claims\<close>

definition read_as :: "written_sector \<Rightarrow> paired \<Rightarrow> bool" where
  "read_as w r \<longleftrightarrow> (\<exists>rh rd. begins_with rh (header_bytes w) \<and> begins_with rd (data_bytes w) \<and>
     r = (block_read (rg_header RECORD) rh, Some (block_read (rg_data RECORD) rd)))"

lemma opens_with: "begins_with run (b # bs) \<Longrightarrow> byte_at (ru_head run) 0 = Some b"
  by (auto simp: begins_with_def byte_at_def take_Cons')

lemma opening_shapes: "block_of RECORD 8 = Some (rg_header RECORD)" "block_of RECORD 7 = Some (rg_data RECORD)"
  "bk_mark (rg_header RECORD) = 8" "bk_mark (rg_data RECORD) = 7"
  by (simp_all add: block_of_def RECORD_def)

lemma pairs_held:
  assumes "runs_hold ws runs"
  shows "\<exists>records. pair_runs RECORD runs acc None None 0 = (acc @ records, 0) \<and> list_all2 read_as ws records"
  using assms
proof (induction ws runs arbitrary: acc rule: runs_hold.induct)
  case (2 w ws h d runs)
  then have b: "begins_with h (header_bytes w)" "begins_with d (data_bytes w)" "runs_hold ws runs" by auto
  define r where "r = (block_read (rg_header RECORD) h, Some (block_read (rg_data RECORD) d))"
  have "byte_at (ru_head h) 0 = Some 8" "byte_at (ru_head d) 0 = Some 7"
    using opens_with b(1,2) by (auto simp: header_bytes_def data_bytes_def)
  then have step: "pair_runs RECORD (h # d # runs) acc None None 0 = pair_runs RECORD runs (acc @ [r]) None None 0"
    by (simp add: opening_shapes r_def)
  from 2(1) [OF b(3), of "acc @ [r]"] obtain records where
    "pair_runs RECORD runs (acc @ [r]) None None 0 = ((acc @ [r]) @ records, 0)" "list_all2 read_as ws records" by blast
  moreover have "read_as w r" using b by (auto simp: read_as_def r_def)
  ultimately show ?case unfolding step by (intro exI [of _ "r # records"]) simp
qed simp_all

definition claims_as :: "written_sector \<Rightarrow> sector_claim \<times> bytes option \<Rightarrow> bool" where
  "claims_as w c \<longleftrightarrow> sc_track (fst c) = ws_track w \<and> sc_sector (fst c) = ws_sector w \<and> sc_readable (fst c) \<and>
     snd c = Some (ws_payload w)"

lemma shapes: "bk_bytes (rg_header RECORD) = 8" "bk_bytes (rg_data RECORD) = 260"
  "bk_checksum_at (rg_header RECORD) = 1" "bk_checksum_at (rg_data RECORD) = 257"
  "bk_checked_from (rg_header RECORD) = 2" "bk_checked_from (rg_data RECORD) = 1"
  "bk_checked_to (rg_header RECORD) = 6" "bk_checked_to (rg_data RECORD) = 257"
  "rg_track_at RECORD = 3" "rg_sector_at RECORD = 2" "rg_payload_from RECORD = 1" "rg_payload_to RECORD = 257"
  by (simp_all add: RECORD_def)

lemma claim_held:
  assumes "read_as w r" "sector_ok w"
  shows "\<exists>c. claim_of SECTOR_POLICY key r = Inr c \<and> claims_as w c"
proof -
  obtain rh rd where b: "begins_with rh (header_bytes w)" "begins_with rd (data_bytes w)"
    and r: "r = (block_read (rg_header RECORD) rh, Some (block_read (rg_data RECORD) rd))"
    using assms(1) by (auto simp: read_as_def)
  have n: "length (ws_payload w) = 256" using assms(2) by (simp add: sector_ok_def)
  have lens: "length (header_bytes w) = bk_bytes (rg_header RECORD)" "length (data_bytes w) = bk_bytes (rg_data RECORD)"
    by (simp_all add: header_bytes_def data_bytes_def n shapes)
  define h where "h = block_read (rg_header RECORD) rh"
  define d where "d = block_read (rg_data RECORD) rd"
  have h: "bd_bytes h = map Some (header_bytes w)" "bd_unresolved h = 0" "\<not> bd_truncated h"
    unfolding h_def using block_begins [OF b(1) lens(1)] by (simp_all add: shapes)
  have d: "bd_bytes d = map Some (data_bytes w)" "bd_unresolved d = 0" "\<not> bd_truncated d"
    unfolding d_def using block_begins [OF b(2) lens(2)] by (simp_all add: shapes)
  have "bd_stated h = header_bytes w ! 1" "bd_computed h = xor_over (slice 2 4 (header_bytes w))"
    unfolding h_def using block_sums [OF b(1) lens(1)] by (simp_all add: shapes lens)
  then have hs: "bd_stated h = bd_computed h" by (simp add: header_bytes_def slice_def)
  have "bd_stated d = data_bytes w ! 257" "bd_computed d = xor_over (slice 1 256 (data_bytes w))"
    unfolding d_def using block_sums [OF b(2) lens(2)] by (simp_all add: shapes lens)
  moreover have "data_bytes w ! 257 = xor_over (ws_payload w)" "slice 1 256 (data_bytes w) = ws_payload w"
    using n by (simp_all add: data_bytes_def slice_def nth_append)
  ultimately have ds: "bd_stated d = bd_computed d" by simp
  have readable: "unreadable_because h (Some d) = None" using h d hs ds by (simp add: unreadable_because_def)
  have fields: "byte_or_zero (byte_at (bd_bytes h) 3) = ws_track w" "byte_or_zero (byte_at (bd_bytes h) 2) = ws_sector w"
    by (simp_all add: h(1) header_bytes_def byte_at_def byte_or_zero_def)
  have "map (\<lambda>i. byte_or_zero (byte_at (bd_bytes d) i)) [1..<257] = ws_payload w"
  proof (rule nth_equalityI)
    fix i assume "i < length (map (\<lambda>i. byte_or_zero (byte_at (bd_bytes d) i)) [1..<257])"
    then have "i < 256" by simp
    then show "map (\<lambda>i. byte_or_zero (byte_at (bd_bytes d) i)) [1..<257] ! i = ws_payload w ! i"
      by (simp add: d(1) data_bytes_def byte_at_def byte_or_zero_def nth_append n del: upt_rec_numeral)
  qed (simp add: n)
  then show ?thesis
    using readable fields unfolding r h_def [symmetric] d_def [symmetric]
    by (simp add: claim_of_def claims_as_def shapes Let_def del: upt_rec_numeral)
qed

lemma claims_held:
  assumes "list_all2 read_as ws records" "list_all sector_ok ws"
  shows "\<exists>cs. claims_of SECTOR_POLICY key records = Inr cs \<and> list_all2 claims_as ws cs"
  using assms
proof (induction ws records rule: list_all2_induct)
  case (Cons w ws r rs)
  obtain c where "claim_of SECTOR_POLICY key r = Inr c" "claims_as w c"
    using claim_held [OF Cons(1), of key] Cons.prems by fastforce
  moreover obtain cs where "claims_of SECTOR_POLICY key rs = Inr cs" "list_all2 claims_as ws cs"
    using Cons by auto
  ultimately show ?case by simp
qed simp

section \<open>A whole disk\<close>

lemma marks_starts:
  assumes "list_all block_ok blocks" "t \<le> pos"
  shows "(\<lambda>(a, run). a + run) ` set (marks_of pos t blocks) = fst ` set (framed_blocks pos blocks)"
  using assms
proof (induction blocks arbitrary: pos t)
  case (Cons b blocks)
  obtain n bs where b: "b = (n, bs)" by (cases b)
  have ok: "bs \<noteq> []" "list_all block_ok blocks" using Cons.prems(1) by (simp_all add: b block_ok_pair)
  have "tail_ones bs \<le> pos + block_span b"
    using tail_ones_le [OF ok(1)] nonempty_length [OF ok(1)] unfolding b block_span_def fst_conv snd_conv by linarith
  then show ?case using Cons.IH [OF ok(2), of "tail_ones bs" "pos + block_span b"] Cons.prems(2) by (simp add: b)
qed simp

lemma starts_of_facts:
  assumes "list_all (\<lambda>f. case f of Unframed _ _ \<Rightarrow> True | Alignment _ _ \<Rightarrow> False) tails"
  shows "framing_starts (map (\<lambda>(at, run). Alignment at run) marks @ tails @ []) = (\<lambda>(a, run). a + run) ` set marks"
proof -
  have "List.map_filter (\<lambda>f. case f of Alignment at run \<Rightarrow> Some (at + run) | Unframed _ _ \<Rightarrow> None) tails = []"
    using assms by (induction tails) (auto simp: List.map_filter_simps split: bytestream_fact.splits)
  moreover have "List.map_filter (\<lambda>f. case f of Alignment at run \<Rightarrow> Some (at + run) | Unframed _ _ \<Rightarrow> None)
      (map (\<lambda>(at, run). Alignment at run) marks) = map (\<lambda>(a, run). a + run) marks"
    by (induction marks) (auto simp: List.map_filter_simps)
  ultimately show ?thesis by (simp add: framing_starts_def map_filter_def)
qed

definition written_location :: "location_key \<times> (bool \<times> bool) list \<Rightarrow> written_sector list \<Rightarrow> bool" where
  "written_location l ws \<longleftrightarrow> lk_profile (fst l) = C1541_ID \<and> map fst (snd l) = track_bits (sector_blocks ws) \<and>
     ws \<noteq> [] \<and> list_all sector_ok ws"

lemma location_materializes:
  assumes "written_location (key, cells) ws"
  shows "\<exists>l loss1. materialize_location CODEC_POLICY key cells loss = Inr (l, loss1) \<and> bl_key l = key \<and>
    runs_of 260 10 (framing_starts (bl_facts l)) (bl_records l) =
      map (run_over 260) (framed_blocks 0 (sector_blocks ws))"
proof -
  let ?blocks = "sector_blocks ws" let ?bits = "track_bits (sector_blocks ws)"
  have ok: "list_all block_ok ?blocks" "list_all (\<lambda>b. 2 \<le> length (snd b)) ?blocks" "?blocks \<noteq> []"
    "lk_profile key = C1541_ID" "map fst cells = ?bits"
    using assms sector_blocks_ok by (auto simp: written_location_def sector_blocks_def)
  obtain tails where t: "frame_segments DeclareUnassigned ?bits (spans_of 0 ?blocks) =
      Inr (concat (map (\<lambda>(s, bs). records_of s bs) (framed_blocks 0 ?blocks)), tails)"
    "list_all (\<lambda>f. case f of Unframed _ _ \<Rightarrow> True | Alignment _ _ \<Rightarrow> False) tails"
    using frame_track [OF ok(1), of 0 ?bits] by auto
  obtain l loss1 where m: "materialize_location CODEC_POLICY key cells loss = Inr (l, loss1)"
    "bl_key l = key" "bl_records l = concat (map (\<lambda>(s, bs). records_of s bs) (framed_blocks 0 ?blocks))"
    "bl_facts l = map (\<lambda>(at, run). Alignment at run) (marks_of 0 0 ?blocks) @ tails @ []"
    unfolding materialize_location_def ok(5) ALIGNMENT_ONE_BITS_def CODEC_POLICY_def
    by (simp add: framed_track [OF ok(1,3)] t(1) ok(4) Let_def)
  have "framing_starts (bl_facts l) = fst ` set (framed_blocks 0 ?blocks)"
    unfolding m(4) starts_of_facts [OF t(2)] by (rule marks_starts [OF ok(1)]) simp
  then show ?thesis using m runs_of_track [OF ok(2), of 260 0] by auto
qed

lemma location_recognized:
  assumes "list_all sector_ok ws"
    "runs_of 260 10 (framing_starts (bl_facts l)) (bl_records l) = map (run_over 260) (framed_blocks 0 (sector_blocks ws))"
  shows "\<exists>s cs loss1. recognize_location SECTOR_POLICY l loss = Inr (s, cs, loss1) \<and> list_all2 claims_as ws cs"
proof -
  obtain records where r: "pair_up RECORD (map (run_over 260) (framed_blocks 0 (sector_blocks ws))) = (records, 0)"
    "list_all2 read_as ws records"
    using pairs_held [OF sector_runs [OF assms(1)], of 0 "[]"] by (auto simp: pair_up_def)
  obtain cs where "claims_of SECTOR_POLICY (bl_key l) records = Inr cs" "list_all2 claims_as ws cs"
    using claims_held [OF r(2) assms(1)] by blast
  then show ?thesis
    by (simp add: recognize_location_def shapes assms(2) r(1) Let_def)
qed

lemma locations_read:
  assumes "list_all2 written_location ls tracks"
  shows "\<exists>bls loss1. materialize_locations CODEC_POLICY ls loss = Inr (bls, loss1) \<and>
    (\<forall>loss2. \<exists>ss cs loss3. recognize_locations SECTOR_POLICY bls loss2 = Inr (ss, cs, loss3) \<and>
      list_all2 claims_as (concat tracks) cs)"
  using assms
proof (induction ls tracks arbitrary: loss rule: list_all2_induct)
  case (Cons l ls ws tracks)
  obtain key cells where l: "l = (key, cells)" by (cases l)
  obtain bl loss1 where m: "materialize_location CODEC_POLICY key cells loss = Inr (bl, loss1)"
    "runs_of 260 10 (framing_starts (bl_facts bl)) (bl_records bl) = map (run_over 260) (framed_blocks 0 (sector_blocks ws))"
    using location_materializes [OF Cons(1) [unfolded l]] by blast
  obtain bls loss2 where ms: "materialize_locations CODEC_POLICY ls loss1 = Inr (bls, loss2)"
    and later: "\<forall>loss2. \<exists>ss cs loss3. recognize_locations SECTOR_POLICY bls loss2 = Inr (ss, cs, loss3) \<and>
      list_all2 claims_as (concat tracks) cs"
    using Cons(3) [of loss1] by blast
  have ok: "list_all sector_ok ws" using Cons(1) by (simp add: written_location_def)
  have "\<exists>ss cs loss3. recognize_locations SECTOR_POLICY (bl # bls) loss0 = Inr (ss, cs, loss3) \<and>
      list_all2 claims_as (concat (ws # tracks)) cs" for loss0
  proof -
    obtain s cs0 lossa where r: "recognize_location SECTOR_POLICY bl loss0 = Inr (s, cs0, lossa)" "list_all2 claims_as ws cs0"
      using location_recognized [OF ok m(2)] by blast
    obtain ss cs lossb where "recognize_locations SECTOR_POLICY bls lossa = Inr (ss, cs, lossb)"
      "list_all2 claims_as (concat tracks) cs" using later by blast
    with r show ?thesis by (simp add: list_all2_appendI)
  qed
  then show ?case by (simp add: l m(1) ms)
qed simp

section \<open>Reading by address\<close>

lemma payloads_agree:
  assumes "\<forall>i\<in>set is. claim_payload cs i = Inr p"
  shows "all_agree cs p is = Inr ()"
  using assms by (induction "is") simp_all

lemma agreeing_claims_read:
  assumes "list_all2 claims_as ws (zip (cs_claims cs) (cs_payloads cs))" "length (cs_claims cs) = length (cs_payloads cs)"
    "w \<in> set ws" "\<forall>v\<in>set ws. ws_track v = ws_track w \<longrightarrow> ws_sector v = ws_sector w \<longrightarrow> ws_payload v = ws_payload w"
  shows "c1541_read_sector cs (ws_track w) (ws_sector w) = Inr (ws_payload w)"
proof -
  let ?n = "length (cs_claims cs)"
  have n: "length ws = ?n" using list_all2_lengthD [OF assms(1)] assms(2) by simp
  have each: "sc_track (cs_claims cs ! i) = ws_track (ws ! i)" "sc_sector (cs_claims cs ! i) = ws_sector (ws ! i)"
    "sc_readable (cs_claims cs ! i)" "cs_payloads cs ! i = Some (ws_payload (ws ! i))" if "i < ?n" for i
    using list_all2_nthD [OF assms(1), of i] that n assms(2) by (simp_all add: claims_as_def)
  define stating where "stating = filter (\<lambda>i. sc_track (cs_claims cs ! i) = ws_track w \<and>
    sc_sector (cs_claims cs ! i) = ws_sector w) [0..<?n]"
  have all: "filter (\<lambda>i. sc_readable (cs_claims cs ! i)) stating = stating"
    by (rule filter_True) (auto simp: stating_def each)
  obtain k where "k < ?n" "ws ! k = w" using assms(3) n by (metis in_set_conv_nth)
  then have "k \<in> set stating" by (simp add: stating_def each)
  then obtain first others where st: "stating = first # others" by (cases stating) auto
  have pay: "claim_payload cs i = Inr (ws_payload w)" if "i \<in> set stating" for i
  proof -
    have i: "i < ?n" "ws_track (ws ! i) = ws_track w" "ws_sector (ws ! i) = ws_sector w"
      using that each by (auto simp: stating_def)
    then have "ws_payload (ws ! i) = ws_payload w" using assms(4) n by simp
    then show ?thesis using each(4) [OF i(1)] i(1) assms(2) by (simp add: claim_payload_def)
  qed
  show ?thesis
    unfolding c1541_read_sector_def Let_def stating_def [symmetric] all
    using pay payloads_agree [of others cs] by (simp add: st)
qed

text \<open>
  C39: a disk written the family's way reads back: where every location holds sectors each laid down as a
  header block and a data block behind their syncs, with any identity, padding and gap bytes, the group
  code and the record grammar recover every sector, and reading by the address a header states answers its
  payload, wherever sectors stating one address carry one payload.
\<close>

theorem c1541_disk_reads_back:
  assumes "bi_profile bi = C1541_ID" "list_all2 written_location (bi_locations bi) tracks" "tracks \<noteq> []"
    "\<forall>w\<in>set (concat tracks). \<forall>v\<in>set (concat tracks).
      ws_track v = ws_track w \<longrightarrow> ws_sector v = ws_sector w \<longrightarrow> ws_payload v = ws_payload w"
  shows "\<exists>by cs. materialize_declared bi = Inr by \<and> c1541_recognize_declared by = Inr cs \<and>
    length (cs_claims cs) = length (concat tracks) \<and>
    (\<forall>w\<in>set (concat tracks). c1541_read_sector cs (ws_track w) (ws_sector w) = Inr (ws_payload w))"
proof -
  obtain bls loss1 ss held loss3 where m: "materialize_locations CODEC_POLICY (bi_locations bi) [] = Inr (bls, loss1)"
    "recognize_locations SECTOR_POLICY bls [] = Inr (ss, held, loss3)" "list_all2 claims_as (concat tracks) held"
    using locations_read [OF assms(2), of "[]"] by blast
  have "concat tracks \<noteq> []"
    using assms(2,3) by (cases tracks) (auto simp: list_all2_Cons2 written_location_def)
  then have ne: "held \<noteq> []" using m(3) by auto
  define cs where "cs = \<lparr>cs_locations = ss, cs_claims = map fst held, cs_payloads = map snd held,
    cs_contested = contested_addresses (map fst held), cs_loss = account_for loss3 (map fst held)\<rparr>"
  let ?by = "\<lparr>by_profile = C1541_ID, by_locations = bls, by_loss = loss1\<rparr>"
  have "materialize_declared bi = Inr ?by"
    by (simp add: materialize_declared_def materialize_bytestream_def assms(1) m(1) ALIGNMENT_ONE_BITS_def)
  moreover have "c1541_recognize_declared ?by = Inr cs"
    by (simp add: c1541_recognize_declared_def c1541_recognize_def m(2) ne cs_def Let_def)
  moreover have "c1541_read_sector cs (ws_track w) (ws_sector w) = Inr (ws_payload w)" if "w \<in> set (concat tracks)" for w
  proof (rule agreeing_claims_read [OF _ _ that])
    show "list_all2 claims_as (concat tracks) (zip (cs_claims cs) (cs_payloads cs))"
      using m(3) by (simp add: cs_def zip_map_fst_snd)
    show "length (cs_claims cs) = length (cs_payloads cs)" by (simp add: cs_def)
    show "\<forall>v\<in>set (concat tracks). ws_track v = ws_track w \<longrightarrow> ws_sector v = ws_sector w \<longrightarrow> ws_payload v = ws_payload w"
      using that assms(4) by blast
  qed
  moreover have "length (cs_claims cs) = length (concat tracks)" using list_all2_lengthD [OF m(3)] by (simp add: cs_def)
  ultimately show ?thesis by blast
qed

definition sample_sector :: written_sector where
  "sample_sector = \<lparr>ws_sync1 = 40, ws_track = 18, ws_sector = 1, ws_id_high = 0x41, ws_id_low = 0x42, ws_pad1 = 0x0f,
     ws_pad2 = 0x0f, ws_gap1 = replicate 9 0x55, ws_sync2 = 40, ws_payload = replicate 256 0x2a, ws_pad3 = 0,
     ws_pad4 = 0, ws_gap2 = replicate 8 0x55\<rparr>"

definition sample_disk :: bitstream where
  "sample_disk = \<lparr>bi_profile = C1541_ID,
     bi_locations = [(\<lparr>lk_profile = C1541_ID, lk_numerator = 18, lk_denominator = 1, lk_surface = Some 0\<rparr>,
       map (\<lambda>b. (b, True)) (track_bits (sector_blocks [sample_sector])))]\<rparr>"

lemma c1541_disk_reads_back_witness:
  "\<exists>by cs. materialize_declared sample_disk = Inr by \<and> c1541_recognize_declared by = Inr cs \<and>
    c1541_read_sector cs 18 1 = Inr (replicate 256 0x2a)"
proof -
  have a: "bi_profile sample_disk = C1541_ID" "list_all2 written_location (bi_locations sample_disk) [[sample_sector]]"
    by (simp_all add: sample_disk_def written_location_def comp_def sector_ok_def sample_sector_def)
  have "[[sample_sector]] \<noteq> []" "\<forall>w\<in>set (concat [[sample_sector]]). \<forall>v\<in>set (concat [[sample_sector]]).
      ws_track v = ws_track w \<longrightarrow> ws_sector v = ws_sector w \<longrightarrow> ws_payload v = ws_payload w" by simp_all
  from c1541_disk_reads_back [OF a this] obtain y cs where
    r: "materialize_declared sample_disk = Inr y" "c1541_recognize_declared y = Inr cs"
    "c1541_read_sector cs (ws_track sample_sector) (ws_sector sample_sector) = Inr (ws_payload sample_sector)"
    by auto
  have "ws_track sample_sector = 18" "ws_sector sample_sector = 1" "ws_payload sample_sector = replicate 256 0x2a"
    by (simp_all add: sample_sector_def)
  with r show ?thesis by metis
qed

section \<open>What reads is claimed\<close>

definition block_pair :: "paired \<Rightarrow> bool" where
  "block_pair r \<longleftrightarrow> (case snd r of None \<Rightarrow> True | Some d \<Rightarrow> \<exists>run. d = block_read (rg_data RECORD) run)"

lemma pair_runs_blocks:
  assumes "pair_runs RECORD runs records pending leading without = (out, n)"
    "list_all block_pair records" "\<forall>d. leading = Some d \<longrightarrow> (\<exists>run. d = block_read (rg_data RECORD) run)"
  shows "list_all block_pair out"
  using assms
proof (induction RECORD runs records pending leading without rule: pair_runs.induct)
  case (1 records pending leading without)
  then show ?case by (auto simp: block_pair_def split: option.splits)
next
  case (2 run runs records pending leading without)
  show ?case
  proof (cases "Option.bind (byte_at (ru_head run) 0) (block_of RECORD)")
    case None
    then show ?thesis using 2 by simp
  next
    case (Some shape)
    show ?thesis
    proof (cases "bk_mark shape = bk_mark (rg_header RECORD)")
      case True
      have "list_all block_pair (case pending of Some header \<Rightarrow> records @ [(header, None)] | None \<Rightarrow> records)"
        using "2.prems"(2) by (simp add: block_pair_def split: option.splits)
      then show ?thesis using 2 Some True by simp
    next
      case False
      show ?thesis
      proof (cases pending)
        case None
        then show ?thesis using 2 Some False by (auto split: if_splits)
      next
        case (Some header)
        then show ?thesis
          using 2 \<open>Option.bind (byte_at (ru_head run) 0) (block_of RECORD) = Some shape\<close> False
          by (auto simp: block_pair_def)
      qed
    qed
  qed
qed

text \<open>A claim that reads: both blocks whole, resolved and checked, its payload what the data's check covers.\<close>

definition claim_sound :: "sector_claim \<times> bytes option \<Rightarrow> bool" where
  "claim_sound c \<longleftrightarrow> (if sc_readable (fst c) then
       sc_has_data (fst c) \<and> sc_unresolved_bytes (fst c) = 0 \<and> sc_header_stated (fst c) = sc_header_computed (fst c) \<and>
       sc_data_stated (fst c) = sc_data_computed (fst c) \<and>
       (case snd c of None \<Rightarrow> False | Some p \<Rightarrow> length p = 256 \<and> xor_over p = sc_data_stated (fst c))
     else snd c = None)"

lemma claim_of_sound:
  assumes "claim_of policy key r = Inr c" "block_pair r"
  shows "claim_sound c"
proof -
  obtain h d where r: "r = (h, d)" by (cases r)
  show ?thesis
  proof (cases "unreadable_because h d")
    case None
    then obtain b where d: "d = Some b" and ok: "bd_stated h = bd_computed h" "bd_unresolved h = 0"
      "bd_stated b = bd_computed b" "bd_unresolved b = 0"
      by (auto simp: unreadable_because_def split: if_splits option.splits)
    obtain run where run: "b = block_read (rg_data RECORD) run" using assms(2) by (auto simp: block_pair_def r d)
    define p where "p = map (\<lambda>i. byte_or_zero (byte_at (bd_bytes b) i)) [1..<257]"
    have "bd_computed b = xor_over p"
      unfolding p_def run by (simp add: block_read_def Let_def shapes del: upt_rec_numeral)
    moreover have "length p = 256" by (simp add: p_def)
    ultimately show ?thesis
      using assms(1) None ok by (auto simp: claim_of_def claim_sound_def r d shapes p_def Let_def simp del: upt_rec_numeral)
  next
    case (Some rule)
    then show ?thesis
      using assms(1) by (auto simp: claim_of_def claim_sound_def r Let_def split: if_splits)
  qed
qed

lemma claims_of_sound: "claims_of policy key rs = Inr cs \<Longrightarrow> list_all block_pair rs \<Longrightarrow> list_all claim_sound cs"
  by (induction rs arbitrary: cs) (auto simp: rbind_Inr_iff dest: claim_of_sound)

lemma recognize_location_sound:
  assumes "recognize_location policy l loss = Inr (s, cs, loss1)"
  shows "list_all claim_sound cs"
proof -
  obtain records without where p: "pair_up RECORD (runs_of (max (bk_bytes (rg_header RECORD)) (bk_bytes (rg_data RECORD)))
      10 (framing_starts (bl_facts l)) (bl_records l)) = (records, without)" by (meson surj_pair)
  have "list_all block_pair records"
    by (rule pair_runs_blocks [OF p [unfolded pair_up_def]]) simp_all
  moreover have "claims_of policy (bl_key l) records = Inr cs"
    using assms by (auto simp: recognize_location_def p rbind_Inr_iff Let_def)
  ultimately show ?thesis using claims_of_sound by blast
qed

lemma recognize_locations_sound:
  "recognize_locations policy ls loss = Inr (ss, cs, loss1) \<Longrightarrow> list_all claim_sound cs"
  by (induction ls arbitrary: loss ss cs loss1) (fastforce simp: rbind_Inr_iff dest: recognize_location_sound)+

lemma all_agree_ok: "all_agree cs p is = Inr () \<Longrightarrow> i \<in> set is \<Longrightarrow> claim_payload cs i = Inr p"
  by (induction "is") (auto simp: rbind_Inr_iff split: if_splits)

lemma claim_payload_ok: "claim_payload cs i = Inr p \<Longrightarrow> i < length (cs_payloads cs) \<and> cs_payloads cs ! i = Some p"
  by (auto simp: claim_payload_def split: if_splits option.splits)

text \<open>
  C40: whatever the recording holds, a sector that reads is the payload of a readable claim of that address
  whose two blocks are whole, resolved and agree with the checksums they state, and every readable claim of
  the address holds those same bytes; so no damaged block is served and no contradiction is resolved.
\<close>

theorem c1541_reads_are_claims:
  assumes "c1541_recognize stream policy = Inr cs" "c1541_read_sector cs track sector = Inr p"
  shows "length p = 256 \<and>
    list_ex (\<lambda>(c, held). sc_track c = track \<and> sc_sector c = sector \<and> sc_readable c \<and> held = Some p \<and>
      sc_unresolved_bytes c = 0 \<and> sc_header_stated c = sc_header_computed c \<and> xor_over p = sc_data_stated c)
      (zip (cs_claims cs) (cs_payloads cs)) \<and>
    list_all (\<lambda>(c, held). sc_track c = track \<and> sc_sector c = sector \<and> sc_readable c \<longrightarrow> held = Some p)
      (zip (cs_claims cs) (cs_payloads cs))"
proof -
  obtain held where h: "cs_claims cs = map fst held" "cs_payloads cs = map snd held" "list_all claim_sound held"
    using assms(1) by (auto simp: c1541_recognize_def rbind_Inr_iff Let_def split: if_splits
        dest!: recognize_locations_sound)
  have z: "zip (cs_claims cs) (cs_payloads cs) = held" by (simp add: h zip_map_fst_snd)
  define reading where "reading = filter (\<lambda>i. sc_readable (cs_claims cs ! i)) (filter (\<lambda>i. sc_track (cs_claims cs ! i) = track \<and>
    sc_sector (cs_claims cs ! i) = sector) [0..<length (cs_claims cs)])"
  have mem: "i \<in> set reading \<longleftrightarrow> i < length held \<and> sc_track (fst (held ! i)) = track \<and> sc_sector (fst (held ! i)) = sector \<and>
      sc_readable (fst (held ! i))" for i
    by (auto simp: reading_def h)
  obtain first others where r: "reading = first # others" "claim_payload cs first = Inr p" "all_agree cs p others = Inr ()"
    using assms(2) unfolding c1541_read_sector_def Let_def reading_def [symmetric]
    by (auto simp: rbind_Inr_iff split: list.splits if_splits)
  have pay: "snd (held ! i) = Some p" if "i \<in> set reading" for i
  proof -
    have "claim_payload cs i = Inr p" using that r all_agree_ok by auto
    then show ?thesis using claim_payload_ok that mem by (fastforce simp: h)
  qed
  have "first \<in> set reading" by (simp add: r)
  then have f: "first < length held" "sc_track (fst (held ! first)) = track" "sc_sector (fst (held ! first)) = sector"
    "sc_readable (fst (held ! first))" "snd (held ! first) = Some p" using mem pay by auto
  have sound: "claim_sound (held ! first)" using h(3) f(1) by (simp add: list_all_length)
  have one: "list_ex (\<lambda>(c, held). sc_track c = track \<and> sc_sector c = sector \<and> sc_readable c \<and> held = Some p \<and>
      sc_unresolved_bytes c = 0 \<and> sc_header_stated c = sc_header_computed c \<and> xor_over p = sc_data_stated c) held"
    using sound f unfolding list_ex_length
    by (intro exI [of _ first]) (auto simp: claim_sound_def split: prod.splits)
  have all: "list_all (\<lambda>(c, held). sc_track c = track \<and> sc_sector c = sector \<and> sc_readable c \<longrightarrow> held = Some p) held"
    unfolding list_all_length case_prod_beta using mem pay by blast
  have "length p = 256" using sound f by (simp add: claim_sound_def)
  then show ?thesis using one all unfolding z by blast
qed

lemma c1541_reads_are_claims_witness:
  "\<exists>y cs. c1541_recognize y SECTOR_POLICY = Inr cs \<and> c1541_read_sector cs 18 1 = Inr (replicate 256 0x2a) \<and>
    list_ex (\<lambda>(c, held). sc_track c = 18 \<and> sc_sector c = 1 \<and> sc_readable c) (zip (cs_claims cs) (cs_payloads cs))"
proof -
  have a: "list_all2 written_location (bi_locations sample_disk) [[sample_sector]]"
    by (simp_all add: sample_disk_def written_location_def comp_def sector_ok_def sample_sector_def)
  obtain bls ss held loss3 where m: "recognize_locations SECTOR_POLICY bls [] = Inr (ss, held, loss3)"
    "list_all2 claims_as (concat [[sample_sector]]) held"
    using locations_read [OF a, of "[]"] by blast
  define cs where "cs = \<lparr>cs_locations = ss, cs_claims = map fst held, cs_payloads = map snd held,
    cs_contested = contested_addresses (map fst held), cs_loss = account_for loss3 (map fst held)\<rparr>"
  let ?y = "\<lparr>by_profile = C1541_ID, by_locations = bls, by_loss = []\<rparr>"
  have "held \<noteq> []" using m(2) by auto
  then have r: "c1541_recognize ?y SECTOR_POLICY = Inr cs" by (simp add: c1541_recognize_def m(1) cs_def Let_def)
  have s: "ws_track sample_sector = 18" "ws_sector sample_sector = 1" "ws_payload sample_sector = replicate 256 0x2a"
    by (simp_all add: sample_sector_def)
  have read: "c1541_read_sector cs 18 1 = Inr (replicate 256 0x2a)"
    using agreeing_claims_read [of "[sample_sector]" cs sample_sector] m(2) by (simp add: cs_def zip_map_fst_snd s)
  have "list_ex (\<lambda>(c, held). sc_track c = 18 \<and> sc_sector c = 1 \<and> sc_readable c) (zip (cs_claims cs) (cs_payloads cs))"
    using c1541_reads_are_claims [OF r read] by (auto simp: list_ex_iff)
  then show ?thesis using r read by blast
qed

end
