(* ===== verification/Spec2Isabelle.thy ===== *)
theory Spec2Isabelle
  imports Prelude Errors Device Cache Cache_Proofs Cache_Ops Cache_Commit Assurance Cache_Device
    Session Journal Capture Commit Checksum Encoding DosName Mbr
    Fat Fat_Dir Fat_File Fat_Table Fat_Space Fat_Write Fat_Label Gate
    Inflate Inflate_Sinks Huffman_Code Deflate Deflate_Proofs Deflate_Roundtrip
    Container Vdi Vdi_Proofs Wire Wire_Proofs
    Catalog Cbm_Dos Cbm_Dos_Proofs Hdos Hdos_Proofs Cpm Cpm_Proofs Fs_Catalog
    Sections Sections_Proofs Capture_Keys
    Flux_Image Flux_Image_Proofs Flux_Turn Artifact Remanence_Format Remanence_Format_Proofs
    Imd Imd_Proofs Geometry Geometry_Proofs Rendition
    Gcr Gcr_Proofs C1541_Sectors C1541_Proofs
begin

text \<open>
  A model of the remanence library, the preservation toolkit that opens disk and flux images,
  edits them inside a session and commits the session to the medium.

  \<^bold>\<open>Parts.\<close> An opened medium is a random-access device (\<open>io/device.rs\<close>); a session lays a
  bounded copy-on-write cache over it (\<open>io/cache.rs\<close>), which may spill altered extents to private
  host storage through a worker; a commit records the bytes it will overwrite in a sealed undo
  journal (\<open>io/journal.rs\<close>, \<open>model/disk/commit.rs\<close>) before it writes; the next open reconciles
  what an interrupted commit left. File systems and partition tables read and write that device
  through bounded windows; every refusal is a value (\<open>error.rs\<close>), and a degraded reading carries its
  evidence (\<open>model/assurance.rs\<close>). The flux side turns bytes into cells and checks
  (\<open>flux/ibm/encoding.rs\<close>, \<open>checksum.rs\<close>).

  \<^bold>\<open>Theories.\<close>
    \<^item> \<open>Prelude\<close>: bytes, results, slices and splices, little-endian integers, ordered maps.
    \<^item> \<open>Errors\<close>: \<open>error.rs\<close>, the categories, the source and the broken rule of a refusal.
    \<^item> \<open>Device\<close>: \<open>io/device.rs\<close>, the medium, raw files and the bounded windows of
      \<open>model/disk/state.rs\<close>; the locale \<open>block_device\<close> is the interface every client of a device
      relies on.
    \<^item> \<open>Cache\<close>, \<open>Cache_Proofs\<close>, \<open>Cache_Ops\<close>, \<open>Cache_Commit\<close>: \<open>io/cache.rs\<close>. \<open>Cache\<close> holds the
      state and the operations, the others its invariant, the laws of reads and writes, and the
      laws of commit and rollback.
    \<^item> \<open>Cache_Device\<close>, \<open>Session\<close>: the device a session presents (\<open>Composed\<close>), and whole sessions,
      refined against the specification that is the plain image with the writes spliced in.
    \<^item> \<open>Journal\<close>, \<open>Capture\<close>, \<open>Commit\<close>: the journal's format, the capture that restores the image
      in place after a failed commit, and the commit protocol with interruption at every byte.
    \<^item> \<open>Assurance\<close>: \<open>model/assurance.rs\<close>.
    \<^item> \<open>DosName\<close>: \<open>filesystem/dos_name.rs\<close>, the rules of an 8.3 name.
    \<^item> \<open>Mbr\<close>: \<open>partition/mbr.rs\<close>, the partition table, the extended chain and the implied geometry.
    \<^item> \<open>Fat\<close>, \<open>Fat_Dir\<close>, \<open>Fat_File\<close>: \<open>filesystem/fat.rs\<close>: the parameter block and the allocation
      table; directories, paths and the label; files and the creation of directories.
    \<^item> \<open>Fat_Table\<close>, \<open>Fat_Space\<close>, \<open>Fat_Write\<close>, \<open>Fat_Label\<close>: the laws of the table, of the free
      space and the areas of a volume, of writing a file of the root directory, of the label.
    \<^item> \<open>Gate\<close>: \<open>assess\<close> of \<open>model/disk/state.rs\<close>, the comparison of a declaration with the source.
    \<^item> \<open>Checksum\<close>, \<open>Encoding\<close>: \<open>checksum.rs\<close> and \<open>flux/ibm/encoding.rs\<close>.
\<close>

end
